(* ===== verification/Prelude.thy ===== *)
theory Prelude
  imports Main "HOL-Library.Word" "HOL-Library.While_Combinator"
begin

text \<open>
  Shared vocabulary of the development: the machine types the engine uses, the collections of
  hints the component theories fill, and the generic facts about lists, rings of slots and
  words that more than one component needs.
\<close>

unbundle bit_operations_syntax

type_synonym u8 = "8 word"
type_synonym u16 = "16 word"
type_synonym u32 = "32 word"
type_synonym u64 = "64 word"

named_theorems frame_simps "what an operation leaves unchanged"
named_theorems side_simps "selection of the members that belong to one side"

section \<open>First and last elements with a default\<close>

definition first_or :: "'a list \<Rightarrow> 'a \<Rightarrow> 'a" where
  "first_or xs d = (case xs of [] \<Rightarrow> d | x # _ \<Rightarrow> x)"

definition last_or :: "'a \<Rightarrow> 'a list \<Rightarrow> 'a" where
  "last_or d xs = (if xs = [] then d else last xs)"

lemma first_or_simps [simp]:
  "first_or [] d = d" "first_or (x # xs) d = x"
  by (simp_all add: first_or_def)

lemma last_or_simps [simp]:
  "last_or d [] = d" "last_or d (x # xs) = last_or x xs"
  by (simp_all add: last_or_def)

lemma first_or_append [simp]: "first_or (xs @ ys) d = first_or xs (first_or ys d)"
  by (cases xs) simp_all

lemma last_or_append [simp]: "last_or d (xs @ ys) = last_or (last_or d xs) ys"
  by (induction xs arbitrary: d) simp_all

lemma last_or_in: "xs \<noteq> [] \<Longrightarrow> last_or d xs \<in> set xs"
  by (simp add: last_or_def)

lemma first_or_in: "xs \<noteq> [] \<Longrightarrow> first_or xs d \<in> set xs"
  by (cases xs) simp_all

section \<open>Rings whose size is a power of two\<close>

lemma and_pow2_minus_one: "(n::nat) AND (2 ^ e - 1) = n mod 2 ^ e"
  by (simp add: take_bit_eq_mod [symmetric] take_bit_eq_mask mask_eq_exp_minus_1)

lemma ring_step: "(Suc ((h + d) mod m)) mod m = (h + Suc d) mod (m::nat)"
  by (simp add: mod_Suc_eq)

lemma ring_reaches:
  fixes h i m :: nat
  assumes "i < m" and "h < m"
  shows "\<exists>d<m. i = (h + d) mod m"
proof (cases "h \<le> i")
  case True
  with assms show ?thesis by (intro exI [of _ "i - h"]) auto
next
  case False
  with assms show ?thesis by (intro exI [of _ "m - h + i"]) auto
qed

lemma ring_dist_unique:
  fixes h m :: nat
  assumes "d < m" and "e < m" and "(h + d) mod m = (h + e) mod m"
  shows "d = e"
proof -
  have "m dvd b - a" if "a \<le> b" "(h + a) mod m = (h + b) mod m" for a b
    using that mod_eq_dvd_iff_nat [of "h + a" "h + b" m] by simp
  with assms show ?thesis
    by (metis diff_is_0_eq' dvd_imp_le less_imp_diff_less linorder_not_less nat_le_linear
        neq0_conv diff_diff_cancel diff_zero)
qed

section \<open>Words\<close>

lemma unat_and_le: "unat (x AND y) \<le> unat (y :: 'a::len word)"
  by (metis word_and_le1 word_le_nat_alt)

lemma unat_word_of_nat_le: "unat (word_of_nat n :: 'a::len word) \<le> n"
  by (simp add: unat_of_nat)

lemma unat_and_mask_less:
  assumes "0 < n"
  shows "unat (x AND word_of_nat (n - 1) :: 'a::len word) < n"
proof -
  have "unat (x AND word_of_nat (n - 1)) \<le> unat (word_of_nat (n - 1) :: 'a word)"
    by (rule unat_and_le)
  also have "\<dots> \<le> n - 1"
    by (rule unat_word_of_nat_le)
  finally show ?thesis using assms by simp
qed

lemma uint_ucast_up:
  "LENGTH('a::len) \<le> LENGTH('b::len) \<Longrightarrow> uint (ucast (x :: 'a word) :: 'b word) = uint x"
  by (simp add: uint_up_ucast is_up)

lemma unat_ucast_up:
  assumes "LENGTH('a::len) \<le> LENGTH('b::len)"
  shows "unat (ucast (x :: 'a word) :: 'b word) = unat x"
proof -
  have "nat (uint (ucast x :: 'b word)) = nat (uint x)" by (simp only: uint_ucast_up [OF assms])
  then show ?thesis by simp
qed

lemma unat_sub_le: "y \<le> x \<Longrightarrow> unat (x - y) = unat x - unat (y :: 'a::len word)"
  by (simp add: unat_sub)

end
