(* ===== verification/MarketTypes.thy ===== *)
theory MarketTypes
  imports Prelude "HOL-Library.Product_Lexorder"
begin

text \<open>
  The value types of \<^verbatim>\<open>MarketDataEvent.hpp\<close> and \<^verbatim>\<open>OrderTypes.hpp\<close> and the result and view types of
  \<^verbatim>\<open>OrderBook.hpp\<close>. Record fields carry a prefix of their struct (\<^verbatim>\<open>ev_\<close>, \<^verbatim>\<open>rq_\<close>, \<^verbatim>\<open>fl_\<close>, \<^verbatim>\<open>ov_\<close>, \<^verbatim>\<open>lv_\<close>),
  since HOL record fields are global names. \<^verbatim>\<open>Price\<close> is a signed 64-bit integer, kept as its
  64 bits and compared through \<^term>\<open>sint\<close>.
\<close>

type_synonym order_id = u64
type_synonym price = u64
type_synonym quantity = u64
type_synonym symbol_id = u32

section \<open>Market data events\<close>

datatype event_type = Add | Modify | Cancel | Trade | Reduce | Replace

datatype side = Buy | Sell

record market_data_event =
  ev_sequence :: u64
  ev_timestamp_ns :: u64
  ev_symbol :: symbol_id
  ev_type :: event_type
  ev_order_id :: order_id
  ev_new_order_id :: order_id
  ev_side :: side
  ev_price :: price
  ev_quantity :: quantity

definition default_event :: market_data_event where
  "default_event = \<lparr>ev_sequence = 0, ev_timestamp_ns = 0, ev_symbol = 0, ev_type = Add,
     ev_order_id = 0, ev_new_order_id = 0, ev_side = Buy, ev_price = 0, ev_quantity = 0\<rparr>"

text \<open>The overloads of \<^verbatim>\<open>to_string\<close>.\<close>

definition event_type_name :: "event_type \<Rightarrow> string" where
  "event_type_name t = (case t of Add \<Rightarrow> ''add'' | Modify \<Rightarrow> ''modify'' | Cancel \<Rightarrow> ''cancel''
     | Trade \<Rightarrow> ''trade'' | Reduce \<Rightarrow> ''reduce'' | Replace \<Rightarrow> ''replace'')"

definition side_name :: "side \<Rightarrow> string" where
  "side_name s = (if s = Buy then ''buy'' else ''sell'')"

section \<open>Sides and the price order on a side\<close>

text \<open>
  \<^verbatim>\<open>side_rank\<close> turns the comparison of a side into an ascending one: the smaller the rank of a
  price, the better the price is for the side that rests there.
\<close>

definition opposite :: "side \<Rightarrow> side" where
  "opposite sd = (if sd = Buy then Sell else Buy)"

definition side_rank :: "side \<Rightarrow> price \<Rightarrow> int" where
  "side_rank sd p = (if sd = Buy then - sint p else sint p)"

lemma opposite_simps [simp]:
  "opposite Buy = Sell" "opposite Sell = Buy" "opposite sd \<noteq> sd" "sd \<noteq> opposite sd"
  "opposite (opposite sd) = sd"
  by (cases sd; simp add: opposite_def)+

lemma side_rank_inject [simp]: "side_rank sd p = side_rank sd q \<longleftrightarrow> p = q"
  by (auto simp: side_rank_def intro: signed_word_eqI)

lemma side_rank_simps [simp]: "side_rank Buy p = - sint p" "side_rank Sell p = sint p"
  by (simp_all add: side_rank_def)

lemma neq_Buy [simp]: "sd \<noteq> Buy \<longleftrightarrow> sd = Sell"
  by (cases sd) simp_all

lemma neq_Sell [simp]: "sd \<noteq> Sell \<longleftrightarrow> sd = Buy"
  by (cases sd) simp_all

instantiation side :: linorder
begin

definition less_eq_side :: "side \<Rightarrow> side \<Rightarrow> bool" where
  "less_eq_side a b \<longleftrightarrow> a = Buy \<or> b = Sell"

definition less_side :: "side \<Rightarrow> side \<Rightarrow> bool" where
  "less_side a b \<longleftrightarrow> a = Buy \<and> b = Sell"

instance
proof
  fix x y z :: side
  show "(x < y) = (x \<le> y \<and> \<not> y \<le> x)"
    by (cases x; cases y) (simp_all add: less_eq_side_def less_side_def)
  show "x \<le> x"
    by (cases x) (simp_all add: less_eq_side_def)
  show "x \<le> y \<Longrightarrow> y \<le> z \<Longrightarrow> x \<le> z"
    by (cases x; cases y; cases z) (simp_all add: less_eq_side_def)
  show "x \<le> y \<Longrightarrow> y \<le> x \<Longrightarrow> x = y"
    by (cases x; cases y) (simp_all add: less_eq_side_def)
  show "x \<le> y \<or> y \<le> x"
    by (cases x; cases y) (simp_all add: less_eq_side_def)
qed

end

section \<open>Order requests, fills and outcomes\<close>

datatype order_type = Limit | Market

datatype time_in_force = GTC | IOC | FOK

datatype request_type = NewOrder | CancelOrder

record order_request =
  rq_type :: request_type
  rq_id :: order_id
  rq_side :: side
  rq_price :: price
  rq_quantity :: quantity
  rq_order_type :: order_type
  rq_tif :: time_in_force

record fill =
  fl_taker_id :: order_id
  fl_maker_id :: order_id
  fl_taker_side :: side
  fl_price :: price
  fl_quantity :: quantity
  fl_sequence :: u64

datatype submit_result =
    FilledComplete
  | RestedNoFill
  | PartialFillRested
  | PartialFillKilled
  | NoFillKilled
  | Canceled
  | RejectedFOK
  | RejectedDuplicate
  | RejectedCapacity
  | RejectedInvalid

datatype process_result =
    Applied
  | DuplicateOrderId
  | OrderNotFound
  | InvalidQuantity
  | CapacityExhausted

section \<open>Views\<close>

record order_view =
  ov_id :: order_id
  ov_side :: side
  ov_price :: price
  ov_quantity :: quantity
  ov_priority :: u64

record level_view =
  lv_side :: side
  lv_price :: price
  lv_total_quantity :: quantity
  lv_order_count :: u64

end
