(* ===== verification/BookState.thy ===== *)
theory BookState
  imports MarketTypes
begin

text \<open>
  The private state of \<^verbatim>\<open>OrderBook\<close> (\<^verbatim>\<open>OrderBook.hpp\<close>): the two pools, the two open-addressed
  indexes, the two price-ladder heaps, the free-list heads and the counters. Pool indices are
  the code's \<^verbatim>\<open>uint32_t\<close> values, kept as naturals with the code's sentinel \<^verbatim>\<open>npos\<close>; quantities,
  counts and priorities are kept at 64 bits, so that they wrap as the code's do.
\<close>

definition npos :: nat where
  "npos = 4294967295"

record order =
  o_id :: order_id
  o_price :: price
  o_quantity :: quantity
  o_priority :: u64
  o_level :: nat
  o_prev :: nat
  o_next :: nat
  o_next_free :: nat
  o_side :: side
  o_active :: bool

record level =
  l_price :: price
  l_total_quantity :: quantity
  l_order_count :: u64
  l_head :: nat
  l_tail :: nat
  l_next_free :: nat
  l_heap_pos :: nat
  l_side :: side
  l_active :: bool

datatype slot_state = Empty | Occupied | Tombstone

record order_slot =
  os_key :: order_id
  os_value :: nat
  os_state :: slot_state

record level_slot =
  ls_price :: price
  ls_value :: nat
  ls_side :: side
  ls_state :: slot_state

text \<open>The default member initialisers.\<close>

definition default_order :: order where
  "default_order = \<lparr>o_id = 0, o_price = 0, o_quantity = 0, o_priority = 0, o_level = npos,
     o_prev = npos, o_next = npos, o_next_free = npos, o_side = Buy, o_active = False\<rparr>"

definition default_level :: level where
  "default_level = \<lparr>l_price = 0, l_total_quantity = 0, l_order_count = 0, l_head = npos,
     l_tail = npos, l_next_free = npos, l_heap_pos = npos, l_side = Buy, l_active = False\<rparr>"

definition default_order_slot :: order_slot where
  "default_order_slot = \<lparr>os_key = 0, os_value = npos, os_state = Empty\<rparr>"

definition default_level_slot :: level_slot where
  "default_level_slot = \<lparr>ls_price = 0, ls_value = npos, ls_side = Buy, ls_state = Empty\<rparr>"

record order_book =
  orders :: "order list"
  levels :: "level list"
  order_lookup :: "order_slot list"
  level_lookup :: "level_slot list"
  bid_heap :: "nat list"
  ask_heap :: "nat list"
  bid_heap_size :: nat
  ask_heap_size :: nat
  free_order :: nat
  free_level :: nat
  active_orders :: u64
  next_priority :: u64
  fill_sequence :: u64

lemma npos_gt_0 [simp]: "0 < npos"
  by (simp add: npos_def)

text \<open>The members a side selects: \<^verbatim>\<open>side == Side::Buy ? bid_heap_ : ask_heap_\<close>.\<close>

definition side_heap :: "side \<Rightarrow> order_book \<Rightarrow> nat list" where
  "side_heap sd bk = (if sd = Buy then bid_heap bk else ask_heap bk)"

definition side_heap_size :: "side \<Rightarrow> order_book \<Rightarrow> nat" where
  "side_heap_size sd bk = (if sd = Buy then bid_heap_size bk else ask_heap_size bk)"

definition set_side_heap :: "side \<Rightarrow> nat list \<Rightarrow> order_book \<Rightarrow> order_book" where
  "set_side_heap sd h bk = (if sd = Buy then bk\<lparr>bid_heap := h\<rparr> else bk\<lparr>ask_heap := h\<rparr>)"

definition set_side_heap_size :: "side \<Rightarrow> nat \<Rightarrow> order_book \<Rightarrow> order_book" where
  "set_side_heap_size sd n bk =
     (if sd = Buy then bk\<lparr>bid_heap_size := n\<rparr> else bk\<lparr>ask_heap_size := n\<rparr>)"

definition upd_level :: "nat \<Rightarrow> (level \<Rightarrow> level) \<Rightarrow> order_book \<Rightarrow> order_book" where
  "upd_level i f bk = bk\<lparr>levels := (levels bk)[i := f (levels bk ! i)]\<rparr>"

definition upd_order :: "nat \<Rightarrow> (order \<Rightarrow> order) \<Rightarrow> order_book \<Rightarrow> order_book" where
  "upd_order i f bk = bk\<lparr>orders := (orders bk)[i := f (orders bk ! i)]\<rparr>"

lemma side_heap_set [side_simps, simp]:
  "side_heap sd (set_side_heap sd' h bk) = (if sd = sd' then h else side_heap sd bk)"
  "side_heap sd (set_side_heap_size sd' n bk) = side_heap sd bk"
  "side_heap_size sd (set_side_heap_size sd' n bk) = (if sd = sd' then n else side_heap_size sd bk)"
  "side_heap_size sd (set_side_heap sd' h bk) = side_heap_size sd bk"
  by (cases sd; cases sd';
      simp add: side_heap_def side_heap_size_def set_side_heap_def set_side_heap_size_def)+

lemma side_heap_other [side_simps, simp]:
  "side_heap sd (bk\<lparr>orders := x1\<rparr>) = side_heap sd bk"
  "side_heap sd (bk\<lparr>levels := x2\<rparr>) = side_heap sd bk"
  "side_heap sd (bk\<lparr>order_lookup := x3\<rparr>) = side_heap sd bk"
  "side_heap sd (bk\<lparr>level_lookup := x4\<rparr>) = side_heap sd bk"
  "side_heap sd (bk\<lparr>free_order := x5\<rparr>) = side_heap sd bk"
  "side_heap sd (bk\<lparr>free_level := x5\<rparr>) = side_heap sd bk"
  "side_heap sd (bk\<lparr>active_orders := x6\<rparr>) = side_heap sd bk"
  "side_heap sd (bk\<lparr>next_priority := x6\<rparr>) = side_heap sd bk"
  "side_heap sd (bk\<lparr>fill_sequence := x6\<rparr>) = side_heap sd bk"
  "side_heap_size sd (bk\<lparr>orders := x1\<rparr>) = side_heap_size sd bk"
  "side_heap_size sd (bk\<lparr>levels := x2\<rparr>) = side_heap_size sd bk"
  "side_heap_size sd (bk\<lparr>order_lookup := x3\<rparr>) = side_heap_size sd bk"
  "side_heap_size sd (bk\<lparr>level_lookup := x4\<rparr>) = side_heap_size sd bk"
  "side_heap_size sd (bk\<lparr>free_order := x5\<rparr>) = side_heap_size sd bk"
  "side_heap_size sd (bk\<lparr>free_level := x5\<rparr>) = side_heap_size sd bk"
  "side_heap_size sd (bk\<lparr>active_orders := x6\<rparr>) = side_heap_size sd bk"
  "side_heap_size sd (bk\<lparr>next_priority := x6\<rparr>) = side_heap_size sd bk"
  "side_heap_size sd (bk\<lparr>fill_sequence := x6\<rparr>) = side_heap_size sd bk"
  by (simp_all add: side_heap_def side_heap_size_def)

lemma set_side_frame [frame_simps, simp]:
  "orders (set_side_heap sd h bk) = orders bk"
  "levels (set_side_heap sd h bk) = levels bk"
  "order_lookup (set_side_heap sd h bk) = order_lookup bk"
  "level_lookup (set_side_heap sd h bk) = level_lookup bk"
  "free_order (set_side_heap sd h bk) = free_order bk"
  "free_level (set_side_heap sd h bk) = free_level bk"
  "active_orders (set_side_heap sd h bk) = active_orders bk"
  "next_priority (set_side_heap sd h bk) = next_priority bk"
  "fill_sequence (set_side_heap sd h bk) = fill_sequence bk"
  "orders (set_side_heap_size sd n bk) = orders bk"
  "levels (set_side_heap_size sd n bk) = levels bk"
  "order_lookup (set_side_heap_size sd n bk) = order_lookup bk"
  "level_lookup (set_side_heap_size sd n bk) = level_lookup bk"
  "free_order (set_side_heap_size sd n bk) = free_order bk"
  "free_level (set_side_heap_size sd n bk) = free_level bk"
  "active_orders (set_side_heap_size sd n bk) = active_orders bk"
  "next_priority (set_side_heap_size sd n bk) = next_priority bk"
  "fill_sequence (set_side_heap_size sd n bk) = fill_sequence bk"
  by (simp_all add: set_side_heap_def set_side_heap_size_def)

lemma upd_level_frame [frame_simps, simp]:
  "orders (upd_level i f bk) = orders bk"
  "length (levels (upd_level i f bk)) = length (levels bk)"
  "order_lookup (upd_level i f bk) = order_lookup bk"
  "level_lookup (upd_level i f bk) = level_lookup bk"
  "side_heap sd (upd_level i f bk) = side_heap sd bk"
  "side_heap_size sd (upd_level i f bk) = side_heap_size sd bk"
  "free_order (upd_level i f bk) = free_order bk"
  "free_level (upd_level i f bk) = free_level bk"
  "active_orders (upd_level i f bk) = active_orders bk"
  "next_priority (upd_level i f bk) = next_priority bk"
  "fill_sequence (upd_level i f bk) = fill_sequence bk"
  by (simp_all add: upd_level_def)

lemma upd_order_frame [frame_simps, simp]:
  "levels (upd_order i f bk) = levels bk"
  "length (orders (upd_order i f bk)) = length (orders bk)"
  "order_lookup (upd_order i f bk) = order_lookup bk"
  "level_lookup (upd_order i f bk) = level_lookup bk"
  "side_heap sd (upd_order i f bk) = side_heap sd bk"
  "side_heap_size sd (upd_order i f bk) = side_heap_size sd bk"
  "free_order (upd_order i f bk) = free_order bk"
  "free_level (upd_order i f bk) = free_level bk"
  "active_orders (upd_order i f bk) = active_orders bk"
  "next_priority (upd_order i f bk) = next_priority bk"
  "fill_sequence (upd_order i f bk) = fill_sequence bk"
  by (simp_all add: upd_order_def)

lemma levels_upd_level [simp]: "levels (upd_level i f bk) = (levels bk)[i := f (levels bk ! i)]"
  by (simp add: upd_level_def)

lemma orders_upd_order [simp]: "orders (upd_order i f bk) = (orders bk)[i := f (orders bk ! i)]"
  by (simp add: upd_order_def)

end
