(* ===== verification/HashIndex.thy ===== *)
theory HashIndex
  imports BookState
begin

text \<open>
  The two open-addressed indexes of \<^verbatim>\<open>OrderBook.cpp\<close> (linear probing with tombstones over a table
  whose size is a power of two): order id to order slot, and (side, price) to level slot. The
  probe loops are shared; the entry points keep the code's differences. The locale
  \<^verbatim>\<open>open_addressing\<close> derives, from the slot layout and the hash alone, that the table is a finite
  map; the locale \<^verbatim>\<open>finite_index\<close> is that contract as the book uses it. Both are interpreted on
  the two tables of the code.
\<close>

section \<open>Sizes, hashing and probe loops\<close>

definition next_power_of_two :: "nat \<Rightarrow> nat" where
  "next_power_of_two value = while (\<lambda>result. result < value) (\<lambda>result. 2 * result) 1"

definition mix :: "u64 \<Rightarrow> u64" where
  "mix v0 =
    (let v1 = v0 XOR drop_bit 30 v0;
         v2 = v1 * 0xbf58476d1ce4e5b9;
         v3 = v2 XOR drop_bit 27 v2;
         v4 = v3 * 0x94d049bb133111eb
     in v4 XOR drop_bit 31 v4)"

text \<open>\<^verbatim>\<open>mix(id) & mask\<close> and the level key's \<^verbatim>\<open>mix(price ^ salt(side)) & mask\<close>, \<^verbatim>\<open>mask = size - 1\<close>.\<close>

definition order_home :: "nat \<Rightarrow> order_id \<Rightarrow> nat" where
  "order_home sz oid = unat (mix oid AND word_of_nat (sz - 1))"

definition level_home :: "nat \<Rightarrow> side \<times> price \<Rightarrow> nat" where
  "level_home sz k =
     unat (mix (snd k XOR (if fst k = Buy then 0 else 0x9e3779b97f4a7c15)) AND word_of_nat (sz - 1))"

text \<open>
  The lookup loop: \<^verbatim>\<open>n\<close> probes are left, \<^verbatim>\<open>slot\<close> is the current one. An empty slot or the end of
  the probes is a miss.
\<close>

fun probe_find :: "('s \<Rightarrow> slot_state) \<Rightarrow> ('s \<Rightarrow> bool) \<Rightarrow> 's list \<Rightarrow> nat \<Rightarrow> nat \<Rightarrow> nat option" where
  "probe_find st matches t slot 0 = None"
| "probe_find st matches t slot (Suc n) =
     (if st (t ! slot) = Empty then None
      else if st (t ! slot) = Occupied \<and> matches (t ! slot) then Some slot
      else probe_find st matches t ((slot + 1) AND (length t - 1)) n)"

text \<open>
  The insertion loop: the result is the destination if an empty slot was met, and the first
  tombstone met so far (the table size when there was none).
\<close>

fun probe_insert :: "('s \<Rightarrow> slot_state) \<Rightarrow> 's list \<Rightarrow> nat \<Rightarrow> nat \<Rightarrow> nat \<Rightarrow> nat option \<times> nat" where
  "probe_insert st t slot tombstone 0 = (None, tombstone)"
| "probe_insert st t slot tombstone (Suc n) =
     (let tombstone' =
        (if st (t ! slot) = Tombstone \<and> tombstone = length t then slot else tombstone)
      in if st (t ! slot) = Empty
         then (Some (if tombstone' = length t then slot else tombstone'), tombstone')
         else probe_insert st t ((slot + 1) AND (length t - 1)) tombstone' n)"

section \<open>The entry points of the order index\<close>

definition mk_order_slot :: "order_id \<Rightarrow> nat \<Rightarrow> order_slot" where
  "mk_order_slot oid value = \<lparr>os_key = oid, os_value = value, os_state = Occupied\<rparr>"

definition find_order_slot :: "order_slot list \<Rightarrow> order_id \<Rightarrow> nat" where
  "find_order_slot t oid =
     (case probe_find os_state (\<lambda>e. os_key e = oid) t (order_home (length t) oid) (length t) of
        None \<Rightarrow> npos
      | Some slot \<Rightarrow> os_value (t ! slot))"

definition insert_order_slot :: "order_slot list \<Rightarrow> order_id \<Rightarrow> nat \<Rightarrow> bool \<times> order_slot list" where
  "insert_order_slot t oid value =
     (case probe_insert os_state t (order_home (length t) oid) (length t) (length t) of
        (Some slot, _) \<Rightarrow> (True, t[slot := mk_order_slot oid value])
      | (None, tombstone) \<Rightarrow>
          if tombstone \<noteq> length t then (True, t[tombstone := mk_order_slot oid value])
          else (False, t))"

definition erase_order_slot :: "order_slot list \<Rightarrow> order_id \<Rightarrow> order_slot list" where
  "erase_order_slot t oid =
     (case probe_find os_state (\<lambda>e. os_key e = oid) t (order_home (length t) oid) (length t) of
        None \<Rightarrow> t
      | Some slot \<Rightarrow> t[slot := (t ! slot)\<lparr>os_state := Tombstone\<rparr>])"

section \<open>The entry points of the level index\<close>

text \<open>
  \<^verbatim>\<open>insert_level_lookup\<close> differs from its order counterpart: when the probes end without an
  empty slot it gives up, even if a tombstone was found.
\<close>

definition level_slot_key :: "level_slot \<Rightarrow> side \<times> price" where
  "level_slot_key e = (ls_side e, ls_price e)"

definition mk_level_slot :: "side \<times> price \<Rightarrow> nat \<Rightarrow> level_slot" where
  "mk_level_slot k value =
     \<lparr>ls_price = snd k, ls_value = value, ls_side = fst k, ls_state = Occupied\<rparr>"

definition find_level_slot :: "level_slot list \<Rightarrow> side \<times> price \<Rightarrow> nat" where
  "find_level_slot t k =
     (case probe_find ls_state (\<lambda>e. level_slot_key e = k) t (level_home (length t) k) (length t) of
        None \<Rightarrow> npos
      | Some slot \<Rightarrow> ls_value (t ! slot))"

definition insert_level_slot ::
  "level_slot list \<Rightarrow> side \<times> price \<Rightarrow> nat \<Rightarrow> bool \<times> level_slot list" where
  "insert_level_slot t k value =
     (case probe_insert ls_state t (level_home (length t) k) (length t) (length t) of
        (Some slot, _) \<Rightarrow> (True, t[slot := mk_level_slot k value])
      | (None, _) \<Rightarrow> (False, t))"

definition erase_level_slot :: "level_slot list \<Rightarrow> side \<times> price \<Rightarrow> level_slot list" where
  "erase_level_slot t k =
     (case probe_find ls_state (\<lambda>e. level_slot_key e = k) t (level_home (length t) k) (length t) of
        None \<Rightarrow> t
      | Some slot \<Rightarrow> t[slot := (t ! slot)\<lparr>ls_state := Tombstone\<rparr>])"

section \<open>Table sizes\<close>

lemma next_power_of_two_pow: "\<exists>e. next_power_of_two v = 2 ^ e"
  unfolding next_power_of_two_def
proof (rule while_rule [where P = "\<lambda>r. \<exists>e. r = 2 ^ e" and r = "measure (\<lambda>r. v - r)"])
  show "\<exists>e. (1::nat) = 2 ^ e" by (rule exI [of _ 0]) simp
  show "\<exists>e. 2 * s = 2 ^ e" if "\<exists>e. s = 2 ^ e" for s :: nat
    using that by (metis power_Suc)
  show "(2 * s, s) \<in> measure (\<lambda>r. v - r)" if "\<exists>e. s = 2 ^ e" "s < v" for s
    using that by (auto intro!: diff_less_mono2)
qed auto

lemma next_power_of_two_ge: "v \<le> next_power_of_two v"
  unfolding next_power_of_two_def
  by (rule while_rule [where P = "\<lambda>r. 0 < r" and r = "measure (\<lambda>r. v - r)"]) auto

lemma next_power_of_two_least:
  assumes "0 < v"
  shows "next_power_of_two v < 2 * v"
  unfolding next_power_of_two_def
  by (rule while_rule [where P = "\<lambda>r. 0 < r \<and> r < 2 * v" and r = "measure (\<lambda>r. v - r)"])
     (use assms in auto)

lemma order_home_less: "0 < n \<Longrightarrow> order_home n k < n"
  unfolding order_home_def by (rule unat_and_mask_less)

lemma level_home_less: "0 < n \<Longrightarrow> level_home n k < n"
  unfolding level_home_def by (rule unat_and_mask_less)

section \<open>Probing a ring of slots\<close>

text \<open>The slot the \<^verbatim>\<open>d\<close>-th probe for a key looks at.\<close>

definition ring_slot :: "(nat \<Rightarrow> 'k \<Rightarrow> nat) \<Rightarrow> 's list \<Rightarrow> 'k \<Rightarrow> nat \<Rightarrow> nat" where
  "ring_slot home t k d = (home (length t) k + d) mod length t"

text \<open>
  A table is well formed when its size is a power of two, every occupied slot is reached from
  its key's home without crossing an empty slot, and no key is stored twice.
\<close>

definition ring_ok ::
  "('s \<Rightarrow> slot_state) \<Rightarrow> ('s \<Rightarrow> 'k) \<Rightarrow> (nat \<Rightarrow> 'k \<Rightarrow> nat) \<Rightarrow> 's list \<Rightarrow> bool" where
  "ring_ok st key home t \<longleftrightarrow> (\<exists>e. length t = 2 ^ e)
     \<and> (\<forall>d<length t. \<forall>k. st (t ! ring_slot home t k d) = Occupied \<and> key (t ! ring_slot home t k d) = k
          \<longrightarrow> (\<forall>c<d. st (t ! ring_slot home t k c) \<noteq> Empty))
     \<and> (\<forall>i<length t. \<forall>j<length t. st (t ! i) = Occupied \<and> st (t ! j) = Occupied
          \<and> key (t ! i) = key (t ! j) \<longrightarrow> i = j)"

definition ring_stores ::
  "('s \<Rightarrow> slot_state) \<Rightarrow> ('s \<Rightarrow> 'k) \<Rightarrow> ('s \<Rightarrow> nat) \<Rightarrow> 's list \<Rightarrow> 'k \<Rightarrow> nat \<Rightarrow> bool" where
  "ring_stores st key val t k v \<longleftrightarrow>
     (\<exists>i<length t. st (t ! i) = Occupied \<and> key (t ! i) = k \<and> val (t ! i) = v)"

locale open_addressing =
  fixes st :: "'s \<Rightarrow> slot_state"
    and key :: "'s \<Rightarrow> 'k"
    and val :: "'s \<Rightarrow> nat"
    and mk :: "'k \<Rightarrow> nat \<Rightarrow> 's"
    and tomb :: "'s \<Rightarrow> 's"
    and home :: "nat \<Rightarrow> 'k \<Rightarrow> nat"
  assumes st_mk: "st (mk k v) = Occupied"
    and key_mk: "key (mk k v) = k"
    and val_mk: "val (mk k v) = v"
    and st_tomb: "st (tomb s) = Tombstone"
    and home_less: "0 < n \<Longrightarrow> home n k < n"
begin

text \<open>The locale's own spelling of the ring notions.\<close>

abbreviation probe_slot :: "'s list \<Rightarrow> 'k \<Rightarrow> nat \<Rightarrow> nat" where
  "probe_slot \<equiv> ring_slot home"

abbreviation table_ok :: "'s list \<Rightarrow> bool" where
  "table_ok \<equiv> ring_ok st key home"

abbreviation stores :: "'s list \<Rightarrow> 'k \<Rightarrow> nat \<Rightarrow> bool" where
  "stores \<equiv> ring_stores st key val"

definition find_in :: "'s list \<Rightarrow> 'k \<Rightarrow> nat option" where
  "find_in t k = probe_find st (\<lambda>e. key e = k) t (home (length t) k) (length t)"

definition insert_in :: "'s list \<Rightarrow> 'k \<Rightarrow> nat option \<times> nat" where
  "insert_in t k = probe_insert st t (home (length t) k) (length t) (length t)"

lemma table_size: "table_ok t \<Longrightarrow> 0 < length t"
  by (auto simp: ring_ok_def)

lemma probe_slot_less: "0 < length t \<Longrightarrow> probe_slot t k d < length t"
  by (simp add: ring_slot_def)

lemma probe_slot_0: "0 < length t \<Longrightarrow> probe_slot t k 0 = home (length t) k"
  by (simp add: ring_slot_def home_less)

lemma probe_slot_next:
  assumes "table_ok t"
  shows "(probe_slot t k d + 1) AND (length t - 1) = probe_slot t k (Suc d)"
proof -
  from assms obtain e where e: "length t = 2 ^ e"
    by (auto simp: ring_ok_def)
  have "(probe_slot t k d + 1) AND (length t - 1) = (probe_slot t k d + 1) mod length t"
    by (simp only: e and_pow2_minus_one)
  then show ?thesis
    by (simp add: ring_slot_def ring_step)
qed

lemma probe_slot_onto:
  assumes "i < length t"
  shows "\<exists>d<length t. i = probe_slot t k d"
proof -
  have "0 < length t" using assms by (cases t) auto
  from ring_reaches [OF assms home_less [OF this]] show ?thesis
    by (simp add: ring_slot_def)
qed

lemma probe_slot_upd [simp]: "probe_slot (t[i := x]) k d = probe_slot t k d"
  by (simp add: ring_slot_def)

lemma probe_find_hit:
  assumes "table_ok t"
    and "st (t ! probe_slot t k (d + j)) = Occupied" and "key (t ! probe_slot t k (d + j)) = k"
    and "\<And>c. c < j \<Longrightarrow> st (t ! probe_slot t k (d + c)) \<noteq> Empty"
    and "\<And>c. c < j \<Longrightarrow>
      \<not> (st (t ! probe_slot t k (d + c)) = Occupied \<and> key (t ! probe_slot t k (d + c)) = k)"
    and "j < n"
  shows "probe_find st (\<lambda>e. key e = k) t (probe_slot t k d) n = Some (probe_slot t k (d + j))"
  using assms(2-)
proof (induction n arbitrary: d j)
  case 0
  then show ?case by simp
next
  case (Suc n)
  show ?case
  proof (cases j)
    case 0
    with Suc.prems show ?thesis by simp
  next
    case (Suc i)
    have "probe_find st (\<lambda>e. key e = k) t (probe_slot t k (Suc d)) n
        = Some (probe_slot t k (Suc d + i))"
      using Suc.prems \<open>j = Suc i\<close> by (intro Suc.IH) (simp_all, (metis add_Suc_right Suc_less_eq)+)
    moreover have "st (t ! probe_slot t k d) \<noteq> Empty"
      "\<not> (st (t ! probe_slot t k d) = Occupied \<and> key (t ! probe_slot t k d) = k)"
      using Suc.prems(3,4) [of 0] \<open>j = Suc i\<close> by simp_all
    ultimately show ?thesis
      using \<open>j = Suc i\<close> by (auto simp: probe_slot_next [OF assms(1), simplified])
  qed
qed

lemma probe_find_miss:
  assumes "table_ok t" and "\<And>i. i < length t \<Longrightarrow> \<not> (st (t ! i) = Occupied \<and> key (t ! i) = k)"
  shows "probe_find st (\<lambda>e. key e = k) t (probe_slot t k d) n = None"
proof (induction n arbitrary: d)
  case 0
  then show ?case by simp
next
  case (Suc n)
  with assms(2) [OF probe_slot_less [OF table_size [OF assms(1)]]] show ?case
    by (simp add: probe_slot_next [OF assms(1), simplified])
qed

lemma find_in_stored:
  assumes ok: "table_ok t" and i: "i < length t" "st (t ! i) = Occupied" "key (t ! i) = k"
  shows "find_in t k = Some i"
proof -
  obtain d where d: "d < length t" "i = probe_slot t k d"
    using probe_slot_onto [OF i(1)] by blast
  have path: "st (t ! probe_slot t k c) \<noteq> Empty" if "c < d" for c
    using ok d i that by (auto simp: ring_ok_def)
  have uniq: "\<not> (st (t ! probe_slot t k c) = Occupied \<and> key (t ! probe_slot t k c) = k)"
    if "c < d" for c
  proof
    assume a: "st (t ! probe_slot t k c) = Occupied \<and> key (t ! probe_slot t k c) = k"
    then have "probe_slot t k c = i"
      using ok i probe_slot_less [OF table_size [OF ok], of k c] unfolding ring_ok_def by metis
    then have "c = d"
      using d that by (intro ring_dist_unique [of c "length t" d "home (length t) k"])
        (auto simp: ring_slot_def)
    with that show False by simp
  qed
  have "probe_find st (\<lambda>e. key e = k) t (probe_slot t k 0) (length t)
      = Some (probe_slot t k (0 + d))"
    using i d path uniq by (intro probe_find_hit [OF ok]) auto
  with d show ?thesis
    by (simp add: find_in_def probe_slot_0 [OF table_size [OF ok], symmetric])
qed

lemma find_in_absent:
  assumes ok: "table_ok t" and "\<And>v. \<not> stores t k v"
  shows "find_in t k = None"
proof -
  have "probe_find st (\<lambda>e. key e = k) t (probe_slot t k 0) (length t) = None"
    using assms(2) by (intro probe_find_miss [OF ok]) (auto simp: ring_stores_def)
  then show ?thesis
    by (simp add: find_in_def probe_slot_0 [OF table_size [OF ok]])
qed

text \<open>What the insertion loop returns, with the tombstone met so far as a loop invariant.\<close>

lemma probe_insert_result:
  assumes ok: "table_ok t" and "probe_insert st t (probe_slot t k d) tb n = (r, tb')"
    and "\<And>c. c < d \<Longrightarrow> st (t ! probe_slot t k c) \<noteq> Empty"
    and "tb = length t \<and> (\<forall>c<d. st (t ! probe_slot t k c) \<noteq> Tombstone)
       \<or> (\<exists>c<d. tb = probe_slot t k c \<and> st (t ! tb) = Tombstone)"
  shows "case r of
      Some i \<Rightarrow> \<exists>c<d + n. i = probe_slot t k c \<and> st (t ! i) \<noteq> Occupied
        \<and> (\<forall>b<c. st (t ! probe_slot t k b) \<noteq> Empty)
    | None \<Rightarrow> (\<forall>c<d + n. st (t ! probe_slot t k c) \<noteq> Empty)
        \<and> (tb' = length t \<and> (\<forall>c<d + n. st (t ! probe_slot t k c) \<noteq> Tombstone)
           \<or> (\<exists>c<d + n. tb' = probe_slot t k c \<and> st (t ! tb') = Tombstone))"
  using assms(2-)
proof (induction n arbitrary: d tb)
  case 0
  then show ?case by auto
next
  case (Suc n)
  let ?s = "probe_slot t k d"
  let ?tb = "if st (t ! ?s) = Tombstone \<and> tb = length t then ?s else tb"
  have less: "\<And>c. probe_slot t k c < length t"
    using probe_slot_less table_size [OF ok] by blast
  show ?case
  proof (cases "st (t ! ?s) = Empty")
    case True
    with Suc.prems(1) have r: "r = Some (if tb = length t then ?s else tb)"
      by (auto simp: Let_def)
    from Suc.prems(3) consider "tb = length t" | c where "c < d" "tb = probe_slot t k c"
      "st (t ! tb) = Tombstone" "tb \<noteq> length t"
      using less by (metis less_irrefl)
    then show ?thesis
    proof cases
      case 1
      with r True Suc.prems(2) show ?thesis by (auto intro!: exI [of _ d])
    next
      case (2 c)
      with r True Suc.prems(2) show ?thesis by (auto intro!: exI [of _ c])
    qed
  next
    case False
    have "probe_insert st t (probe_slot t k (Suc d)) ?tb n = (r, tb')"
      using Suc.prems(1) False by (simp add: Let_def probe_slot_next [OF ok, simplified])
    moreover have "st (t ! probe_slot t k c) \<noteq> Empty" if "c < Suc d" for c
      using that Suc.prems(2) False by (auto simp: less_Suc_eq)
    moreover have "?tb = length t \<and> (\<forall>c<Suc d. st (t ! probe_slot t k c) \<noteq> Tombstone)
       \<or> (\<exists>c<Suc d. ?tb = probe_slot t k c \<and> st (t ! ?tb) = Tombstone)"
      using Suc.prems(3) less [of d] by (auto simp: less_Suc_eq)
    ultimately have "case r of
      Some i \<Rightarrow> \<exists>c<Suc d + n. i = probe_slot t k c \<and> st (t ! i) \<noteq> Occupied
        \<and> (\<forall>b<c. st (t ! probe_slot t k b) \<noteq> Empty)
    | None \<Rightarrow> (\<forall>c<Suc d + n. st (t ! probe_slot t k c) \<noteq> Empty)
        \<and> (tb' = length t \<and> (\<forall>c<Suc d + n. st (t ! probe_slot t k c) \<noteq> Tombstone)
           \<or> (\<exists>c<Suc d + n. tb' = probe_slot t k c \<and> st (t ! tb') = Tombstone))"
      by (rule Suc.IH)
    then show ?thesis by (simp only: add_Suc add_Suc_right)
  qed
qed

lemma insert_in_unfold:
  "table_ok t \<Longrightarrow> insert_in t k = probe_insert st t (probe_slot t k 0) (length t) (length t)"
  by (simp only: insert_in_def probe_slot_0 [OF table_size])

text \<open>The destination the two insertion functions write to, and what failing to find one means.\<close>

lemma insert_in_target:
  assumes "table_ok t" and "insert_in t k = (r, tb)"
    and "r = Some i \<or> r = None \<and> tb \<noteq> length t \<and> i = tb"
  shows "\<exists>c<length t. i = probe_slot t k c \<and> st (t ! i) \<noteq> Occupied
    \<and> (\<forall>b<c. st (t ! probe_slot t k b) \<noteq> Empty)"
proof -
  have "probe_insert st t (probe_slot t k 0) (length t) (length t) = (r, tb)"
    using assms(1,2) by (simp add: insert_in_unfold)
  from probe_insert_result [OF assms(1) this] assms(3) show ?thesis
    by fastforce
qed

lemma probe_insert_empty:
  assumes ok: "table_ok t" and "probe_insert st t (probe_slot t k d) tb n = (Some i, tb')"
  shows "\<exists>c. st (t ! probe_slot t k c) = Empty"
  using assms(2)
  by (induction n arbitrary: d tb)
     (auto simp: Let_def probe_slot_next [OF ok, simplified] split: if_splits)

lemma insert_in_empty:
  assumes ok: "table_ok t" and "insert_in t k = (Some i, tb)"
  shows "\<exists>j<length t. st (t ! j) = Empty"
  using probe_insert_empty [OF ok, of k 0 "length t" "length t" i tb] assms(2)
    probe_slot_less [OF table_size [OF ok]]
  by (auto simp: insert_in_unfold [OF ok])

lemma insert_in_none:
  assumes ok: "table_ok t" and "insert_in t k = (None, tb)" and i: "i < length t"
  shows "st (t ! i) \<noteq> Empty" and "tb = length t \<Longrightarrow> st (t ! i) = Occupied"
proof -
  obtain d where d: "d < length t" "i = probe_slot t k d"
    using probe_slot_onto [OF i] by blast
  have res: "(\<forall>c<length t. st (t ! probe_slot t k c) \<noteq> Empty)
        \<and> (tb = length t \<and> (\<forall>c<length t. st (t ! probe_slot t k c) \<noteq> Tombstone)
           \<or> (\<exists>c<length t. tb = probe_slot t k c \<and> st (t ! tb) = Tombstone))"
    using probe_insert_result [of t k 0 "length t" "length t" None tb] assms
    by (simp add: insert_in_unfold)
  with d show "st (t ! i) \<noteq> Empty" by blast
  moreover have "st (t ! i) \<noteq> Tombstone" if "tb = length t"
    using res d that probe_slot_less [OF table_size [OF ok]] by (metis less_irrefl)
  ultimately show "tb = length t \<Longrightarrow> st (t ! i) = Occupied"
    using slot_state.exhaust by blast
qed

lemma put_slot:
  assumes ok: "table_ok t" and new: "\<And>v. \<not> stores t k v"
    and c: "c < length t" "i = probe_slot t k c" "st (t ! i) \<noteq> Occupied"
    and path: "\<And>b. b < c \<Longrightarrow> st (t ! probe_slot t k b) \<noteq> Empty"
  shows "table_ok (t[i := mk k v])"
    and "stores (t[i := mk k v]) k' w \<longleftrightarrow> k' = k \<and> w = v \<or> stores t k' w"
proof -
  let ?t = "t[i := mk k v]"
  have i: "i < length t" using c probe_slot_less [OF table_size [OF ok]] by blast
  have nk: "st (t ! j) = Occupied \<Longrightarrow> key (t ! j) \<noteq> k" if "j < length t" for j
    using new that by (auto simp: ring_stores_def)
  have keep: "st (?t ! j) \<noteq> Empty" if "st (t ! j) \<noteq> Empty" for j
    using that i by (simp add: nth_list_update st_mk)
  have "\<forall>b<d. st (?t ! probe_slot t k' b) \<noteq> Empty"
    if d: "d < length t" "st (?t ! probe_slot t k' d) = Occupied" "key (?t ! probe_slot t k' d) = k'"
    for d k'
  proof (cases "probe_slot t k' d = i")
    case True
    with d i have "k' = k" by (simp add: key_mk)
    with True c d have "d = c"
      by (intro ring_dist_unique [of d "length t" c "home (length t) k"]) (auto simp: ring_slot_def)
    with \<open>k' = k\<close> path keep show ?thesis by auto
  next
    case False
    with d ok have "\<forall>b<d. st (t ! probe_slot t k' b) \<noteq> Empty"
      by (auto simp: ring_ok_def)
    with keep show ?thesis by blast
  qed
  moreover have "j1 = j2" if "j1 < length t" "j2 < length t" "st (?t ! j1) = Occupied"
    "st (?t ! j2) = Occupied" "key (?t ! j1) = key (?t ! j2)" for j1 j2
    using that nk ok i by (auto simp: nth_list_update key_mk ring_ok_def split: if_splits)
  ultimately show "table_ok ?t"
    using ok by (auto simp: ring_ok_def)
  show "stores ?t k' w \<longleftrightarrow> k' = k \<and> w = v \<or> stores t k' w"
    using i c(3) by (fastforce simp: ring_stores_def nth_list_update st_mk key_mk val_mk)
qed

lemma bury_slot:
  assumes ok: "table_ok t" and i: "i < length t" "st (t ! i) = Occupied"
  shows "table_ok (t[i := tomb (t ! i)])"
    and "stores (t[i := tomb (t ! i)]) k' w \<longleftrightarrow> k' \<noteq> key (t ! i) \<and> stores t k' w"
proof -
  let ?t = "t[i := tomb (t ! i)]"
  have keep: "st (?t ! j) \<noteq> Empty" if "st (t ! j) \<noteq> Empty" for j
    using that i by (simp add: nth_list_update st_tomb)
  have occ: "st (?t ! j) = Occupied \<Longrightarrow> j \<noteq> i \<and> ?t ! j = t ! j" for j
    using i by (auto simp: nth_list_update st_tomb split: if_splits)
  show "table_ok ?t"
    unfolding ring_ok_def length_list_update probe_slot_upd
    using ok [unfolded ring_ok_def] occ keep by (metis (no_types, lifting))
  show "stores ?t k' w \<longleftrightarrow> k' \<noteq> key (t ! i) \<and> stores t k' w"
  proof
    assume "stores ?t k' w"
    then obtain j where j: "j < length t" "st (?t ! j) = Occupied" "key (?t ! j) = k'" "val (?t ! j) = w"
      by (auto simp: ring_stores_def)
    with occ [of j] have "j \<noteq> i" "st (t ! j) = Occupied" "key (t ! j) = k'" "val (t ! j) = w"
      by auto
    with ok i j(1) show "k' \<noteq> key (t ! i) \<and> stores t k' w"
      unfolding ring_ok_def ring_stores_def by metis
  next
    assume "k' \<noteq> key (t ! i) \<and> stores t k' w"
    then obtain j where "j < length t" "st (t ! j) = Occupied" "key (t ! j) = k'"
      "val (t ! j) = w" "j \<noteq> i"
      by (auto simp: ring_stores_def)
    then show "stores ?t k' w"
      unfolding ring_stores_def by (intro exI [of _ j]) simp
  qed
qed

end

section \<open>The contract of an index, as the book uses it\<close>

text \<open>
  A finite map from keys to pool indices: lookups agree with what is stored, an insertion of an
  absent key adds exactly that key or changes nothing, and an erasure removes exactly the key.
  \<^verbatim>\<open>room t\<close> is the condition under which an insertion cannot be refused.
\<close>

locale finite_index =
  fixes ok :: "'t \<Rightarrow> bool"
    and maps :: "'t \<Rightarrow> 'k \<Rightarrow> nat \<Rightarrow> bool"
    and find :: "'t \<Rightarrow> 'k \<Rightarrow> nat"
    and ins :: "'t \<Rightarrow> 'k \<Rightarrow> nat \<Rightarrow> bool \<times> 't"
    and del :: "'t \<Rightarrow> 'k \<Rightarrow> 't"
    and room :: "'t \<Rightarrow> bool"
  assumes maps_fun: "ok t \<Longrightarrow> maps t k v \<Longrightarrow> maps t k w \<Longrightarrow> v = w"
    and find_maps: "ok t \<Longrightarrow> maps t k v \<Longrightarrow> find t k = v"
    and find_absent: "ok t \<Longrightarrow> \<forall>v. \<not> maps t k v \<Longrightarrow> find t k = npos"
    and ins_true: "ok t \<Longrightarrow> \<forall>v. \<not> maps t k v \<Longrightarrow> ins t k v = (True, t') \<Longrightarrow>
      ok t' \<and> (\<forall>k' w. maps t' k' w \<longleftrightarrow> k' = k \<and> w = v \<or> maps t k' w)"
    and ins_false: "ins t k v = (False, t') \<Longrightarrow> t' = t"
    and ins_room: "ok t \<Longrightarrow> fst (ins t k v) \<longleftrightarrow> room t"
    and del_ok: "ok t \<Longrightarrow> ok (del t k)"
    and del_maps: "ok t \<Longrightarrow> maps (del t k) k' w \<longleftrightarrow> k' \<noteq> k \<and> maps t k' w"
    and del_room: "ok t \<Longrightarrow> room t \<Longrightarrow> room (del t k)"
begin

lemma find_npos_iff:
  assumes "ok t" and "\<And>k v. maps t k v \<Longrightarrow> v \<noteq> npos"
  shows "find t k = npos \<longleftrightarrow> (\<forall>v. \<not> maps t k v)"
  using assms find_maps find_absent by metis

lemma find_eq_iff:
  assumes "ok t" and "\<And>k v. maps t k v \<Longrightarrow> v \<noteq> npos" and "v \<noteq> npos"
  shows "find t k = v \<longleftrightarrow> maps t k v"
  using assms find_maps find_absent by metis

lemma ins_cases:
  assumes "ok t" and "\<forall>w. \<not> maps t k w"
  obtains t' where "ins t k v = (True, t')" and "ok t'" and "room t"
      and "\<And>k' w. maps t' k' w \<longleftrightarrow> k' = k \<and> w = v \<or> maps t k' w"
    | "ins t k v = (False, t)" and "\<not> room t"
proof (cases "ins t k v")
  case (Pair b t')
  show ?thesis
  proof (cases b)
    case True
    with Pair ins_true [OF assms, of v t'] ins_room [OF assms(1), of k v] that(1) [of t']
    show ?thesis by simp
  next
    case False
    with Pair ins_false [of t k v t'] ins_room [OF assms(1), of k v] that(2)
    show ?thesis by simp
  qed
qed

end

text \<open>Both code tables meet it; they differ in when an insertion can be refused.\<close>

abbreviation order_index_ok :: "order_slot list \<Rightarrow> bool" where
  "order_index_ok \<equiv> ring_ok os_state os_key order_home"

abbreviation order_maps :: "order_slot list \<Rightarrow> order_id \<Rightarrow> nat \<Rightarrow> bool" where
  "order_maps \<equiv> ring_stores os_state os_key os_value"

abbreviation level_index_ok :: "level_slot list \<Rightarrow> bool" where
  "level_index_ok \<equiv> ring_ok ls_state level_slot_key level_home"

abbreviation level_maps :: "level_slot list \<Rightarrow> side \<times> price \<Rightarrow> nat \<Rightarrow> bool" where
  "level_maps \<equiv> ring_stores ls_state level_slot_key ls_value"

definition order_room :: "order_slot list \<Rightarrow> bool" where
  "order_room t \<longleftrightarrow> (\<exists>i<length t. os_state (t ! i) \<noteq> Occupied)"

definition level_room :: "level_slot list \<Rightarrow> bool" where
  "level_room t \<longleftrightarrow> (\<exists>i<length t. ls_state (t ! i) = Empty)"

interpretation oring: open_addressing os_state os_key os_value mk_order_slot
  "\<lambda>s. s\<lparr>os_state := Tombstone\<rparr>" order_home
  by unfold_locales (simp_all add: mk_order_slot_def order_home_less)

interpretation lring: open_addressing ls_state level_slot_key ls_value mk_level_slot
  "\<lambda>s. s\<lparr>ls_state := Tombstone\<rparr>" level_home
  by unfold_locales (simp_all add: mk_level_slot_def level_slot_key_def level_home_less)

lemma find_order_slot_unfold:
  "find_order_slot t oid =
     (case oring.find_in t oid of None \<Rightarrow> npos | Some i \<Rightarrow> os_value (t ! i))"
  by (simp add: find_order_slot_def oring.find_in_def)

lemma erase_order_slot_unfold:
  "erase_order_slot t oid =
     (case oring.find_in t oid of None \<Rightarrow> t | Some i \<Rightarrow> t[i := (t ! i)\<lparr>os_state := Tombstone\<rparr>])"
  by (simp add: erase_order_slot_def oring.find_in_def)

lemma insert_order_slot_unfold:
  "insert_order_slot t oid value =
     (case oring.insert_in t oid of
        (Some i, _) \<Rightarrow> (True, t[i := mk_order_slot oid value])
      | (None, tb) \<Rightarrow>
          if tb \<noteq> length t then (True, t[tb := mk_order_slot oid value]) else (False, t))"
  by (simp add: insert_order_slot_def oring.insert_in_def)

lemma find_level_slot_unfold:
  "find_level_slot t k =
     (case lring.find_in t k of None \<Rightarrow> npos | Some i \<Rightarrow> ls_value (t ! i))"
  by (simp add: find_level_slot_def lring.find_in_def)

lemma erase_level_slot_unfold:
  "erase_level_slot t k =
     (case lring.find_in t k of None \<Rightarrow> t | Some i \<Rightarrow> t[i := (t ! i)\<lparr>ls_state := Tombstone\<rparr>])"
  by (simp add: erase_level_slot_def lring.find_in_def)

lemma insert_level_slot_unfold:
  "insert_level_slot t k value =
     (case lring.insert_in t k of
        (Some i, _) \<Rightarrow> (True, t[i := mk_level_slot k value])
      | (None, _) \<Rightarrow> (False, t))"
  by (simp add: insert_level_slot_def lring.insert_in_def)

text \<open>Finding and erasing: the stored slot is found, an absent key is not.\<close>

lemma order_find_cases:
  assumes "order_index_ok t"
  obtains i where "i < length t" "os_state (t ! i) = Occupied" "os_key (t ! i) = oid"
      "oring.find_in t oid = Some i"
    | "oring.find_in t oid = None" "\<forall>v. \<not> order_maps t oid v"
proof (cases "\<exists>v. order_maps t oid v")
  case True
  then obtain i where i: "i < length t" "os_state (t ! i) = Occupied" "os_key (t ! i) = oid"
    by (auto simp: ring_stores_def)
  show ?thesis
    by (rule that(1) [OF i oring.find_in_stored [OF assms i]])
next
  case False
  then have "\<not> order_maps t oid v" for v by blast
  with oring.find_in_absent [OF assms] show ?thesis
    by (intro that(2)) blast+
qed

lemma level_find_cases:
  assumes "level_index_ok t"
  obtains i where "i < length t" "ls_state (t ! i) = Occupied" "level_slot_key (t ! i) = k"
      "lring.find_in t k = Some i"
    | "lring.find_in t k = None" "\<forall>v. \<not> level_maps t k v"
proof (cases "\<exists>v. level_maps t k v")
  case True
  then obtain i where i: "i < length t" "ls_state (t ! i) = Occupied" "level_slot_key (t ! i) = k"
    by (auto simp: ring_stores_def)
  show ?thesis
    by (rule that(1) [OF i lring.find_in_stored [OF assms i]])
next
  case False
  then have "\<not> level_maps t k v" for v by blast
  with lring.find_in_absent [OF assms] show ?thesis
    by (intro that(2)) blast+
qed

interpretation order_index: finite_index order_index_ok order_maps find_order_slot
  insert_order_slot erase_order_slot order_room
proof
  fix t t' :: "order_slot list" and k k' :: order_id and v w :: nat
  show "insert_order_slot t k v = (False, t') \<Longrightarrow> t' = t"
    by (auto simp: insert_order_slot_unfold split: prod.splits option.splits if_splits)
  assume ok: "order_index_ok t"
  show "order_maps t k v \<Longrightarrow> order_maps t k w \<Longrightarrow> v = w"
    using ok unfolding ring_ok_def ring_stores_def by metis
  show "order_maps t k v \<Longrightarrow> find_order_slot t k = v"
    using oring.find_in_stored [OF ok] by (auto simp: find_order_slot_unfold ring_stores_def)
  show "\<forall>v. \<not> order_maps t k v \<Longrightarrow> find_order_slot t k = npos"
    using oring.find_in_absent [OF ok] by (simp add: find_order_slot_unfold)
  show "order_index_ok t' \<and> (\<forall>k' w. order_maps t' k' w \<longleftrightarrow> k' = k \<and> w = v \<or> order_maps t k' w)"
    if new: "\<forall>v. \<not> order_maps t k v" and ins: "insert_order_slot t k v = (True, t')"
  proof -
    obtain r tb where r: "oring.insert_in t k = (r, tb)" by (cases "oring.insert_in t k")
    with ins obtain i where i: "r = Some i \<or> r = None \<and> tb \<noteq> length t \<and> i = tb"
      and t': "t' = t[i := mk_order_slot k v]"
      by (auto simp: insert_order_slot_unfold split: option.splits if_splits)
    from oring.insert_in_target [OF ok r i] obtain c where "c < length t"
      "i = ring_slot order_home t k c" "os_state (t ! i) \<noteq> Occupied"
      "\<And>b. b < c \<Longrightarrow> os_state (t ! ring_slot order_home t k b) \<noteq> Empty"
      by auto
    from oring.put_slot [OF ok _ this] new t' show ?thesis by blast
  qed
  show "fst (insert_order_slot t k v) \<longleftrightarrow> order_room t"
  proof (cases "oring.insert_in t k")
    case (Pair r tb)
    show ?thesis
    proof (cases "r = None \<and> tb = length t")
      case True
      with Pair oring.insert_in_none [OF ok, of k tb] show ?thesis
        by (auto simp: insert_order_slot_unfold order_room_def)
    next
      case False
      then obtain i where i: "r = Some i \<or> r = None \<and> tb \<noteq> length t \<and> i = tb"
        by (cases r) auto
      from oring.insert_in_target [OF ok Pair i] obtain c where "i = ring_slot order_home t k c"
        "os_state (t ! i) \<noteq> Occupied" by blast
      with oring.probe_slot_less [OF oring.table_size [OF ok], of k c] have "order_room t"
        unfolding order_room_def by blast
      with i Pair show ?thesis by (auto simp: insert_order_slot_unfold)
    qed
  qed
  show "order_index_ok (erase_order_slot t k)"
    by (rule order_find_cases [OF ok, of k])
       (use oring.bury_slot(1) [OF ok] ok in \<open>simp_all add: erase_order_slot_unfold\<close>)
  show "order_maps (erase_order_slot t k) k' w \<longleftrightarrow> k' \<noteq> k \<and> order_maps t k' w"
    by (rule order_find_cases [OF ok, of k])
       (use oring.bury_slot(2) [OF ok] in \<open>auto simp: erase_order_slot_unfold\<close>)
  show "order_room t \<Longrightarrow> order_room (erase_order_slot t k)"
    by (rule order_find_cases [OF ok, of k])
       (auto simp: erase_order_slot_unfold order_room_def nth_list_update)
qed

interpretation level_index: finite_index level_index_ok level_maps find_level_slot
  insert_level_slot erase_level_slot level_room
proof
  fix t t' :: "level_slot list" and k k' :: "side \<times> price" and v w :: nat
  show "insert_level_slot t k v = (False, t') \<Longrightarrow> t' = t"
    by (auto simp: insert_level_slot_unfold split: prod.splits option.splits if_splits)
  assume ok: "level_index_ok t"
  show "level_maps t k v \<Longrightarrow> level_maps t k w \<Longrightarrow> v = w"
    using ok unfolding ring_ok_def ring_stores_def by metis
  show "level_maps t k v \<Longrightarrow> find_level_slot t k = v"
    unfolding ring_stores_def find_level_slot_unfold
    using lring.find_in_stored [OF ok] by fastforce
  show "\<forall>v. \<not> level_maps t k v \<Longrightarrow> find_level_slot t k = npos"
    using lring.find_in_absent [OF ok] by (simp add: find_level_slot_unfold)
  show "level_index_ok t' \<and> (\<forall>k' w. level_maps t' k' w \<longleftrightarrow> k' = k \<and> w = v \<or> level_maps t k' w)"
    if new: "\<forall>v. \<not> level_maps t k v" and ins: "insert_level_slot t k v = (True, t')"
  proof -
    obtain r tb where r: "lring.insert_in t k = (r, tb)" by (cases "lring.insert_in t k")
    with ins obtain i where i: "r = Some i \<or> r = None \<and> tb \<noteq> length t \<and> i = tb"
      and t': "t' = t[i := mk_level_slot k v]"
      by (auto simp: insert_level_slot_unfold split: option.splits if_splits)
    from lring.insert_in_target [OF ok r i] obtain c where "c < length t"
      "i = ring_slot level_home t k c" "ls_state (t ! i) \<noteq> Occupied"
      "\<And>b. b < c \<Longrightarrow> ls_state (t ! ring_slot level_home t k b) \<noteq> Empty"
      by auto
    from lring.put_slot [OF ok _ this] new t' show ?thesis by blast
  qed
  show "fst (insert_level_slot t k v) \<longleftrightarrow> level_room t"
  proof (cases "lring.insert_in t k")
    case (Pair r tb)
    show ?thesis
    proof (cases r)
      case None
      with Pair lring.insert_in_none [OF ok, of k tb] show ?thesis
        by (auto simp: insert_level_slot_unfold level_room_def)
    next
      case (Some i)
      with Pair lring.insert_in_empty [OF ok, of k i tb] have "level_room t"
        by (auto simp: level_room_def)
      with Some Pair show ?thesis by (simp add: insert_level_slot_unfold)
    qed
  qed
  show "level_index_ok (erase_level_slot t k)"
    by (rule level_find_cases [OF ok, of k])
       (use lring.bury_slot(1) [OF ok] ok in \<open>simp_all add: erase_level_slot_unfold\<close>)
  show "level_maps (erase_level_slot t k) k' w \<longleftrightarrow> k' \<noteq> k \<and> level_maps t k' w"
    by (rule level_find_cases [OF ok, of k])
       (use lring.bury_slot(2) [OF ok] in \<open>auto simp: erase_level_slot_unfold\<close>)
  show "level_room t \<Longrightarrow> level_room (erase_level_slot t k)"
  proof (rule level_find_cases [OF ok, of k])
    fix i
    assume "level_room t" and i: "i < length t" "ls_state (t ! i) = Occupied"
      "lring.find_in t k = Some i"
    then obtain j where j: "j < length t" "ls_state (t ! j) = Empty"
      by (auto simp: level_room_def)
    with i have "j \<noteq> i" by auto
    with i j show ?thesis
      by (auto simp: erase_level_slot_unfold level_room_def intro!: exI [of _ j])
  qed (simp add: erase_level_slot_unfold)
qed

text \<open>Table sizes never change, and a fresh table is well formed and stores nothing.\<close>

lemma length_index_ops [simp]:
  "length (snd (insert_order_slot t oid v)) = length t"
  "length (erase_order_slot t oid) = length t"
  "length (snd (insert_level_slot u k v)) = length u"
  "length (erase_level_slot u k) = length u"
  by (simp_all add: insert_order_slot_def erase_order_slot_def insert_level_slot_def
      erase_level_slot_def split: prod.split option.split)

lemma ring_ok_empty:
  "st s = Empty \<Longrightarrow> (\<And>n k. 0 < n \<Longrightarrow> home n k < n) \<Longrightarrow> ring_ok st key home (replicate (2 ^ e) s)"
  by (auto simp: ring_ok_def ring_slot_def)

lemma ring_stores_empty: "st s = Empty \<Longrightarrow> \<not> ring_stores st key val (replicate n s) k v"
  by (auto simp: ring_stores_def)

end
