(* ===== verification/Ladder.thy ===== *)
theory Ladder
  imports BookState
begin

text \<open>
  The price ladder of \<^verbatim>\<open>OrderBook.cpp\<close>: per side an indexed binary heap of level slots, best price
  first, each level storing its own heap position. The sifting loops work on the heap array and
  the level pool; the operations on the book select both by side.
\<close>

section \<open>The code\<close>

definition ladder_before :: "side \<Rightarrow> level list \<Rightarrow> nat \<Rightarrow> nat \<Rightarrow> bool" where
  "ladder_before sd lv a b \<longleftrightarrow>
     (if sd = Buy then sint (l_price (lv ! b)) < sint (l_price (lv ! a))
      else sint (l_price (lv ! a)) < sint (l_price (lv ! b)))"

definition set_heap_pos :: "nat \<Rightarrow> nat \<Rightarrow> level list \<Rightarrow> level list" where
  "set_heap_pos i pos lv = lv[i := (lv ! i)\<lparr>l_heap_pos := pos\<rparr>]"

text \<open>\<^verbatim>\<open>std::swap(heap[pos], heap[other])\<close> and the two position updates that follow it.\<close>

fun swap_slots :: "nat list \<times> level list \<Rightarrow> nat \<Rightarrow> nat \<Rightarrow> nat list \<times> level list" where
  "swap_slots (h, lv) pos other =
     (let h' = h[pos := h ! other, other := h ! pos]
      in (h', set_heap_pos (h' ! other) other (set_heap_pos (h' ! pos) pos lv)))"

function sift_up :: "side \<Rightarrow> nat list \<times> level list \<Rightarrow> nat \<Rightarrow> nat list \<times> level list" where
  "sift_up sd (h, lv) pos =
     (if pos = 0 then (h, lv)
      else let parent = (pos - 1) div 2
           in if \<not> ladder_before sd lv (h ! pos) (h ! parent) then (h, lv)
              else sift_up sd (swap_slots (h, lv) pos parent) parent)"
  by pat_completeness auto
termination
  by (relation "measure (\<lambda>(sd, s, pos). pos)") auto

definition best_child :: "side \<Rightarrow> nat \<Rightarrow> nat list \<times> level list \<Rightarrow> nat \<Rightarrow> nat" where
  "best_child sd n s pos =
     (let left = 2 * pos + 1;
          right = 2 * pos + 2;
          best = (if left < n \<and> ladder_before sd (snd s) (fst s ! left) (fst s ! pos)
                  then left else pos)
      in if right < n \<and> ladder_before sd (snd s) (fst s ! right) (fst s ! best)
         then right else best)"

lemma best_child_cases:
  "best_child sd n s pos = pos \<or> pos < best_child sd n s pos \<and> best_child sd n s pos < n"
  by (simp add: best_child_def Let_def)

function sift_down :: "side \<Rightarrow> nat \<Rightarrow> nat list \<times> level list \<Rightarrow> nat \<Rightarrow> nat list \<times> level list" where
  "sift_down sd n s pos =
     (let best = best_child sd n s pos
      in if best = pos then s else sift_down sd n (swap_slots s pos best) best)"
  by pat_completeness auto
termination
proof (relation "measure (\<lambda>(sd, n, s, pos). n - pos)")
  fix sd n s pos best
  assume "best = best_child sd n s pos" "best \<noteq> pos"
  with best_child_cases [of sd n s pos]
  show "((sd, n, swap_slots s pos best, best), sd, n, s, pos) \<in> measure (\<lambda>(sd, n, s, pos). n - pos)"
    by auto
qed simp

declare sift_up.simps [simp del] sift_down.simps [simp del]

definition ladder_sift_up :: "side \<Rightarrow> nat \<Rightarrow> order_book \<Rightarrow> order_book" where
  "ladder_sift_up sd pos bk =
     (case sift_up sd (side_heap sd bk, levels bk) pos of
        (h, lv) \<Rightarrow> set_side_heap sd h (bk\<lparr>levels := lv\<rparr>))"

definition ladder_sift_down :: "side \<Rightarrow> nat \<Rightarrow> order_book \<Rightarrow> order_book" where
  "ladder_sift_down sd pos bk =
     (case sift_down sd (side_heap_size sd bk) (side_heap sd bk, levels bk) pos of
        (h, lv) \<Rightarrow> set_side_heap sd h (bk\<lparr>levels := lv\<rparr>))"

definition ladder_push :: "side \<Rightarrow> nat \<Rightarrow> order_book \<Rightarrow> order_book" where
  "ladder_push sd level_index bk =
     (let pos = side_heap_size sd bk;
          bk1 = set_side_heap_size sd (pos + 1) bk;
          bk2 = set_side_heap sd ((side_heap sd bk1)[pos := level_index]) bk1;
          bk3 = upd_level level_index (l_heap_pos_update (\<lambda>_. pos)) bk2
      in ladder_sift_up sd pos bk3)"

definition ladder_remove :: "side \<Rightarrow> nat \<Rightarrow> order_book \<Rightarrow> order_book" where
  "ladder_remove sd level_index bk =
     (let pos = l_heap_pos (levels bk ! level_index);
          n = side_heap_size sd bk - 1;
          bk1 = set_side_heap_size sd n bk;
          bk2 =
            (if pos \<noteq> n then
               let bka = set_side_heap sd ((side_heap sd bk1)[pos := side_heap sd bk1 ! n]) bk1;
                   bkb = upd_level (side_heap sd bka ! pos) (l_heap_pos_update (\<lambda>_. pos)) bka
               in ladder_sift_up sd pos (ladder_sift_down sd pos bkb)
             else bk1)
      in upd_level level_index (l_heap_pos_update (\<lambda>_. npos)) bk2)"

definition ladder_top :: "side \<Rightarrow> order_book \<Rightarrow> nat" where
  "ladder_top sd bk = (if side_heap_size sd bk = 0 then npos else side_heap sd bk ! 0)"

section \<open>Ranks and heap order\<close>

definition level_rank :: "side \<Rightarrow> level list \<Rightarrow> nat \<Rightarrow> int" where
  "level_rank sd lv i = side_rank sd (l_price (lv ! i))"

lemma ladder_before_rank: "ladder_before sd lv a b \<longleftrightarrow> level_rank sd lv a < level_rank sd lv b"
  by (cases sd) (simp_all add: ladder_before_def level_rank_def)

definition parent :: "nat \<Rightarrow> nat" where
  "parent i = (i - 1) div 2"

lemma parent_simps [simp]: "parent (2 * i + 1) = i" "parent (2 * i + 2) = i"
  by (simp_all add: parent_def)

lemma parent_less: "0 < i \<Longrightarrow> parent i < i"
  by (simp add: parent_def)

lemma parent_cases: "0 < c \<Longrightarrow> parent c = i \<Longrightarrow> c = 2 * i + 1 \<or> c = 2 * i + 2"
  by (auto simp: parent_def)

text \<open>\<^verbatim>\<open>kf\<close> gives the rank at a heap position; \<^verbatim>\<open>heap_except\<close> is the heap order outside some positions.\<close>

definition heap_except :: "(nat \<Rightarrow> int) \<Rightarrow> nat \<Rightarrow> nat set \<Rightarrow> bool" where
  "heap_except kf n S \<longleftrightarrow> (\<forall>i<n. 0 < i \<and> i \<notin> S \<longrightarrow> kf (parent i) \<le> kf i)"

definition children_above :: "(nat \<Rightarrow> int) \<Rightarrow> nat \<Rightarrow> nat \<Rightarrow> bool" where
  "children_above kf n pos \<longleftrightarrow>
     (\<forall>c<n. 0 < pos \<and> 0 < c \<and> parent c = pos \<longrightarrow> kf (parent pos) \<le> kf c)"

lemma heap_root_least:
  assumes "heap_except kf n {}" and "i < n"
  shows "kf 0 \<le> kf i"
  using assms(2)
proof (induction i rule: less_induct)
  case (less i)
  show ?case
  proof (cases "i = 0")
    case False
    with less.prems have "parent i < i" "kf (parent i) \<le> kf i"
      using assms(1) by (auto simp: heap_except_def parent_less)
    with less show ?thesis by force
  qed simp
qed

lemma heap_children_above: "heap_except kf n {} \<Longrightarrow> pos < n \<Longrightarrow> children_above kf n pos"
  unfolding heap_except_def children_above_def by (metis empty_iff order_trans)

text \<open>One step of each loop, on ranks alone.\<close>

lemma sift_up_step:
  assumes "heap_except kf n {pos}" and "children_above kf n pos" and "0 < pos" and "pos < n"
    and "kf pos < kf (parent pos)"
    and kf': "kf' = kf(pos := kf (parent pos), parent pos := kf pos)"
  shows "heap_except kf' n {parent pos}" and "children_above kf' n (parent pos)"
proof -
  have p: "parent pos < pos" using \<open>0 < pos\<close> by (rule parent_less)
  show "heap_except kf' n {parent pos}"
    unfolding heap_except_def
  proof (intro allI impI)
    fix i assume i: "i < n" "0 < i \<and> i \<notin> {parent pos}"
    consider "i = pos" | "i \<noteq> pos" "parent i = pos" | "i \<noteq> pos" "parent i = parent pos"
      | "i \<noteq> pos" "parent i \<noteq> pos" "parent i \<noteq> parent pos" by blast
    then show "kf' (parent i) \<le> kf' i"
    proof cases
      case 1
      with p assms(5) show ?thesis by (simp add: kf')
    next
      case 2
      with i p assms(2,3) have "kf (parent pos) \<le> kf i" by (auto simp: children_above_def)
      with 2 i p show ?thesis by (simp add: kf')
    next
      case 3
      with i assms(1) have "kf (parent pos) \<le> kf i" by (force simp: heap_except_def)
      with 3 i assms(5) p show ?thesis by (simp add: kf')
    next
      case 4
      with i assms(1) show ?thesis by (simp add: kf' heap_except_def)
    qed
  qed
  show "children_above kf' n (parent pos)"
    unfolding children_above_def
  proof (intro allI impI)
    fix c assume c: "c < n" "0 < parent pos \<and> 0 < c \<and> parent c = parent pos"
    then have q: "parent (parent pos) < parent pos" by (simp add: parent_less)
    have up: "kf (parent (parent pos)) \<le> kf (parent pos)"
      using assms(1) c p \<open>pos < n\<close> by (simp add: heap_except_def)
    have "c \<noteq> parent pos" using c parent_less [of c] by auto
    moreover have "kf (parent pos) \<le> kf c" if "c \<noteq> pos"
      using assms(1) c that unfolding heap_except_def by (metis singletonD)
    ultimately show "kf' (parent (parent pos)) \<le> kf' c"
      using p q up by (cases "c = pos") (auto simp: kf')
  qed
qed

lemma sift_down_step:
  assumes hole: "\<forall>i<n. 0 < i \<and> i \<noteq> pos \<and> parent i \<noteq> pos \<longrightarrow> kf (parent i) \<le> kf i"
    and above: "children_above kf n pos"
    and b: "b < n" "0 < b" "parent b = pos" "kf b < kf pos"
    and least: "\<forall>c<n. 0 < c \<and> parent c = pos \<longrightarrow> kf b \<le> kf c"
    and kf': "kf' = kf(pos := kf b, b := kf pos)"
  shows "\<forall>i<n. 0 < i \<and> parent i \<noteq> b \<longrightarrow> kf' (parent i) \<le> kf' i"
    and "children_above kf' n b"
proof -
  have p: "pos < b" using b parent_less by blast
  show "\<forall>i<n. 0 < i \<and> parent i \<noteq> b \<longrightarrow> kf' (parent i) \<le> kf' i"
  proof (intro allI impI)
    fix i assume i: "i < n" "0 < i \<and> parent i \<noteq> b"
    consider "i = b" | "i = pos" | "i \<noteq> b" "i \<noteq> pos" "parent i = pos"
      | "i \<noteq> b" "i \<noteq> pos" "parent i \<noteq> pos" by blast
    then show "kf' (parent i) \<le> kf' i"
    proof cases
      case 2
      with i have "parent i < pos" using parent_less by blast
      with 2 above b i p show ?thesis by (auto simp: kf' children_above_def)
    qed (use hole b least i p in \<open>auto simp: kf'\<close>)
  qed
  show "children_above kf' n b"
    unfolding children_above_def
  proof (intro allI impI)
    fix c assume c: "c < n" "0 < b \<and> 0 < c \<and> parent c = b"
    then have "b < c" using parent_less by blast
    moreover from this have "kf b \<le> kf c" using hole c p by auto
    ultimately show "kf' (parent b) \<le> kf' c"
      using b p by (auto simp: kf')
  qed
qed

section \<open>The sifting loops\<close>

text \<open>
  \<^verbatim>\<open>indexed n s\<close>: the first \<^verbatim>\<open>n\<close> heap entries are level slots, and each slot records its position.
  \<^verbatim>\<open>sift_frame n s s'\<close>: only the order of those entries and their recorded positions changed.
\<close>

definition indexed :: "nat \<Rightarrow> nat list \<times> level list \<Rightarrow> bool" where
  "indexed n s \<longleftrightarrow> n \<le> length (fst s)
     \<and> (\<forall>i<n. fst s ! i < length (snd s) \<and> l_heap_pos (snd s ! (fst s ! i)) = i)"

definition sift_frame :: "nat \<Rightarrow> nat list \<times> level list \<Rightarrow> nat list \<times> level list \<Rightarrow> bool" where
  "sift_frame n s s' \<longleftrightarrow> length (fst s') = length (fst s) \<and> length (snd s') = length (snd s)
     \<and> set (take n (fst s')) = set (take n (fst s))
     \<and> (\<forall>i. (snd s' ! i)\<lparr>l_heap_pos := 0\<rparr> = (snd s ! i)\<lparr>l_heap_pos := 0\<rparr>)
     \<and> (\<forall>i. i \<notin> set (take n (fst s)) \<longrightarrow> snd s' ! i = snd s ! i)"

definition rank_at :: "side \<Rightarrow> nat list \<times> level list \<Rightarrow> nat \<Rightarrow> int" where
  "rank_at sd s i = level_rank sd (snd s) (fst s ! i)"

lemma sift_frame_refl: "sift_frame n s s"
  by (simp add: sift_frame_def)

lemma sift_frame_trans: "sift_frame n s s' \<Longrightarrow> sift_frame n s' s'' \<Longrightarrow> sift_frame n s s''"
  by (simp add: sift_frame_def)

lemma same_level_fields:
  assumes "x\<lparr>l_heap_pos := 0\<rparr> = y\<lparr>l_heap_pos := 0\<rparr>"
  shows "l_price x = l_price y" "l_side x = l_side y" "l_active x = l_active y"
    "l_total_quantity x = l_total_quantity y" "l_order_count x = l_order_count y"
    "l_head x = l_head y" "l_tail x = l_tail y" "l_next_free x = l_next_free y"
  using assms by (cases x; cases y; simp)+

lemma sift_frame_rank: "sift_frame n s s' \<Longrightarrow> level_rank sd (snd s') = level_rank sd (snd s)"
  unfolding sift_frame_def level_rank_def by (intro ext) (metis same_level_fields(1))

lemma indexed_inj: "indexed n s \<Longrightarrow> i < n \<Longrightarrow> j < n \<Longrightarrow> fst s ! i = fst s ! j \<Longrightarrow> i = j"
  unfolding indexed_def by metis

lemma set_take_swap:
  assumes "i < n" "j < n" "n \<le> length h"
  shows "set (take n (h[i := h ! j, j := h ! i])) = set (take n h)"
proof -
  have "take n (h[i := h ! j, j := h ! i]) = (take n h)[i := take n h ! j, j := take n h ! i]"
    using assms by (simp add: take_update_swap)
  also have "set \<dots> = set (take n h)"
    using assms by (intro set_swap) auto
  finally show ?thesis .
qed

lemma swap_slots_frame:
  assumes ix: "indexed n s" and ij: "i < n" "j < n" "i \<noteq> j"
  shows "indexed n (swap_slots s i j)"
    and "sift_frame n s (swap_slots s i j)"
    and "rank_at sd (swap_slots s i j) = (rank_at sd s)(i := rank_at sd s j, j := rank_at sd s i)"
proof -
  obtain h lv where s: "s = (h, lv)" by (cases s)
  have h: "n \<le> length h" "\<And>k. k < n \<Longrightarrow> h ! k < length lv \<and> l_heap_pos (lv ! (h ! k)) = k"
    using ix s by (auto simp: indexed_def)
  have ne: "h ! i \<noteq> h ! j" using indexed_inj [OF ix, of i j] ij s by auto
  have inj: "h ! k = h ! l \<Longrightarrow> k = l" if "k < n" "l < n" for k l
    using indexed_inj [OF ix, of k l] that s by simp
  have mem: "h ! i \<in> set (take n h)" "h ! j \<in> set (take n h)"
    using ij h(1) by (auto simp: in_set_conv_nth)
  define lv' where "lv' = snd (swap_slots s i j)"
  have sw: "swap_slots s i j = (h[i := h ! j, j := h ! i], lv')"
    by (simp add: s lv'_def Let_def)
  have lv': "lv' = lv[h ! j := (lv ! (h ! j))\<lparr>l_heap_pos := i\<rparr>, h ! i := (lv ! (h ! i))\<lparr>l_heap_pos := j\<rparr>]"
    using h ij ne by (simp add: lv'_def s Let_def set_heap_pos_def)
  have others: "lv' ! k = lv ! k" if "k \<noteq> h ! i" "k \<noteq> h ! j" for k
    using that by (simp add: lv')
  have at: "lv' ! (h ! i) = (lv ! (h ! i))\<lparr>l_heap_pos := j\<rparr>"
    "lv' ! (h ! j) = (lv ! (h ! j))\<lparr>l_heap_pos := i\<rparr>"
    using h ij ne by (simp_all add: lv')
  show frame: "sift_frame n s (swap_slots s i j)"
    unfolding sift_frame_def sw unfolding s fst_conv snd_conv
  proof (intro conjI allI impI)
    fix k
    show "(lv' ! k)\<lparr>l_heap_pos := 0\<rparr> = (lv ! k)\<lparr>l_heap_pos := 0\<rparr>"
    proof -
      consider "k = h ! i" | "k = h ! j" | "k \<noteq> h ! i" "k \<noteq> h ! j" by blast
      then show ?thesis
        by cases (simp_all only: at simp_thms, simp_all add: others)
    qed
    show "lv' ! k = lv ! k" if "k \<notin> set (take n h)"
      using that mem others by metis
  qed (use ij h(1) in \<open>simp_all add: set_take_swap lv'\<close>)
  show "indexed n (swap_slots s i j)"
    unfolding indexed_def sw fst_conv snd_conv
  proof (intro conjI allI impI)
    fix k assume k: "k < n"
    consider "k = i" | "k = j" | "k \<noteq> i" "k \<noteq> j" by blast
    then have "h[i := h ! j, j := h ! i] ! k < length lv
      \<and> l_heap_pos (lv' ! (h[i := h ! j, j := h ! i] ! k)) = k"
    proof cases
      case 3
      then have "h ! k \<noteq> h ! i" "h ! k \<noteq> h ! j" using inj k ij by blast+
      with 3 h(2) [OF k] others show ?thesis by simp
    qed (use h ij at in simp_all)
    then show "h[i := h ! j, j := h ! i] ! k < length lv'"
      "l_heap_pos (lv' ! (h[i := h ! j, j := h ! i] ! k)) = k"
      by (simp_all add: lv')
  qed (use h(1) in simp)
  have "level_rank sd (snd (swap_slots s i j)) = level_rank sd lv"
    using sift_frame_rank [OF frame] s by simp
  then show "rank_at sd (swap_slots s i j) = (rank_at sd s)(i := rank_at sd s j, j := rank_at sd s i)"
    using h ij by (auto simp: s rank_at_def Let_def fun_eq_iff nth_list_update)
qed

lemma sift_up_heap:
  assumes "indexed n s" and "pos < n"
    and "heap_except (rank_at sd s) n {pos}" and "children_above (rank_at sd s) n pos"
  shows "indexed n (sift_up sd s pos) \<and> sift_frame n s (sift_up sd s pos)
    \<and> heap_except (rank_at sd (sift_up sd s pos)) n {}"
  using assms
proof (induction sd s pos rule: sift_up.induct)
  case (1 sd h lv pos)
  let ?s = "(h, lv)"
  consider "pos = 0" | "0 < pos" "\<not> ladder_before sd lv (h ! pos) (h ! parent pos)"
    | "0 < pos" "ladder_before sd lv (h ! pos) (h ! parent pos)" by blast
  then show ?case
  proof cases
    case 1
    then show ?thesis
      using "1.prems" by (auto simp: sift_up.simps sift_frame_refl heap_except_def)
  next
    case 2
    then have "rank_at sd ?s (parent pos) \<le> rank_at sd ?s pos"
      by (simp add: ladder_before_rank rank_at_def)
    with "1.prems"(3) have "heap_except (rank_at sd ?s) n {}"
      by (auto simp: heap_except_def)
    with 2 "1.prems" show ?thesis
      by (simp add: sift_up.simps Let_def parent_def sift_frame_refl)
  next
    case 3
    then have less: "rank_at sd ?s pos < rank_at sd ?s (parent pos)"
      by (simp add: ladder_before_rank rank_at_def)
    let ?s' = "swap_slots ?s pos (parent pos)"
    have unf: "sift_up sd ?s pos = sift_up sd ?s' (parent pos)"
      using 3 by (simp add: sift_up.simps [of sd h lv pos] Let_def parent_def)
    have p: "parent pos < n" "pos \<noteq> parent pos"
      using parent_less [OF 3(1)] "1.prems"(2) by auto
    note sw = swap_slots_frame [OF "1.prems"(1,2) p]
    note step = sift_up_step [OF "1.prems"(3,4) 3(1) "1.prems"(2) less sw(3)]
    have "indexed n (sift_up sd ?s' (parent pos)) \<and> sift_frame n ?s' (sift_up sd ?s' (parent pos))
        \<and> heap_except (rank_at sd (sift_up sd ?s' (parent pos))) n {}"
      using 3 "1.IH" [of "parent pos"] sw(1) p(1) step by (simp add: parent_def)
    with sw(2) unf show ?thesis
      by (metis sift_frame_trans)
  qed
qed

lemma best_child_least:
  assumes "best_child sd n s pos = b"
  shows "b \<noteq> pos \<Longrightarrow> b < n \<and> 0 < b \<and> parent b = pos \<and> rank_at sd s b < rank_at sd s pos"
    and "c < n \<Longrightarrow> 0 < c \<Longrightarrow> parent c = pos \<Longrightarrow> rank_at sd s b \<le> rank_at sd s c"
  using assms parent_cases [of c pos]
  by (auto simp: best_child_def Let_def ladder_before_rank rank_at_def parent_def
      split: if_splits)

text \<open>
  Sifting down from a position whose subtree edges may be violated. The second form starts from a
  hole (the edge above the position is not assumed either) and says what is left for the upward
  pass that \<^verbatim>\<open>ladder_remove\<close> makes afterwards.
\<close>

lemma sift_down_heap:
  assumes "indexed n s" and "pos < n"
    and "\<forall>i<n. 0 < i \<and> parent i \<noteq> pos \<longrightarrow> rank_at sd s (parent i) \<le> rank_at sd s i"
    and "children_above (rank_at sd s) n pos"
  shows "indexed n (sift_down sd n s pos) \<and> sift_frame n s (sift_down sd n s pos)
    \<and> heap_except (rank_at sd (sift_down sd n s pos)) n {}"
  using assms
proof (induction sd n s pos rule: sift_down.induct)
  case (1 sd n s pos)
  define b where "b = best_child sd n s pos"
  note child = best_child_least [OF b_def [symmetric]]
  show ?case
  proof (cases "b = pos")
    case True
    have "heap_except (rank_at sd s) n {}"
      unfolding heap_except_def
    proof (intro allI impI)
      fix i assume "i < n" "0 < i \<and> i \<notin> {}"
      then show "rank_at sd s (parent i) \<le> rank_at sd s i"
        using "1.prems"(3) child(2) [of i] True by (cases "parent i = pos") auto
    qed
    with True "1.prems"(1) show ?thesis
      by (simp add: sift_down.simps [of sd n s pos] b_def sift_frame_refl)
  next
    case False
    let ?s' = "swap_slots s pos b"
    from child(1) [OF False] have b: "b < n" "0 < b" "parent b = pos"
      "rank_at sd s b < rank_at sd s pos" by auto
    note sw = swap_slots_frame [OF "1.prems"(1,2) b(1) False [symmetric]]
    have "\<forall>i<n. 0 < i \<and> i \<noteq> pos \<and> parent i \<noteq> pos \<longrightarrow> rank_at sd s (parent i) \<le> rank_at sd s i"
      "\<forall>c<n. 0 < c \<and> parent c = pos \<longrightarrow> rank_at sd s b \<le> rank_at sd s c"
      using "1.prems"(3) child(2) by blast+
    note step = sift_down_step [OF this(1) "1.prems"(4) b this(2) sw(3)]
    have unf: "sift_down sd n s pos = sift_down sd n ?s' b"
      using False by (simp add: sift_down.simps [of sd n s pos] b_def Let_def)
    from "1.IH" [OF b_def False sw(1) b(1) step] sw(2) unf show ?thesis
      by (metis sift_frame_trans)
  qed
qed

lemma sift_down_hole:
  assumes ix: "indexed n s" and pos: "pos < n"
    and hole: "\<forall>i<n. 0 < i \<and> i \<noteq> pos \<and> parent i \<noteq> pos \<longrightarrow> rank_at sd s (parent i) \<le> rank_at sd s i"
    and above: "children_above (rank_at sd s) n pos"
  shows "indexed n (sift_down sd n s pos) \<and> sift_frame n s (sift_down sd n s pos)
    \<and> heap_except (rank_at sd (sift_down sd n s pos)) n {pos}
    \<and> children_above (rank_at sd (sift_down sd n s pos)) n pos"
proof -
  define b where "b = best_child sd n s pos"
  note child = best_child_least [OF b_def [symmetric]]
  show ?thesis
  proof (cases "b = pos")
    case True
    have "heap_except (rank_at sd s) n {pos}"
      unfolding heap_except_def
    proof (intro allI impI)
      fix i assume "i < n" "0 < i \<and> i \<notin> {pos}"
      then show "rank_at sd s (parent i) \<le> rank_at sd s i"
        using hole child(2) [of i] True by (cases "parent i = pos") auto
    qed
    with True ix above show ?thesis
      by (simp add: sift_down.simps [of sd n s pos] b_def sift_frame_refl)
  next
    case False
    let ?s' = "swap_slots s pos b"
    from child(1) [OF False] have b: "b < n" "0 < b" "parent b = pos"
      "rank_at sd s b < rank_at sd s pos" by auto
    note sw = swap_slots_frame [OF ix pos b(1) False [symmetric]]
    have "\<forall>c<n. 0 < c \<and> parent c = pos \<longrightarrow> rank_at sd s b \<le> rank_at sd s c"
      using child(2) by blast
    note step = sift_down_step [OF hole above b this sw(3)]
    have "sift_down sd n s pos = sift_down sd n ?s' b"
      using False by (simp add: sift_down.simps [of sd n s pos] b_def Let_def)
    with sift_down_heap [OF sw(1) b(1) step] sw(2)
    have res: "indexed n (sift_down sd n s pos)" "sift_frame n s (sift_down sd n s pos)"
      "heap_except (rank_at sd (sift_down sd n s pos)) n {}"
      by (auto intro: sift_frame_trans)
    from res(3) have "heap_except (rank_at sd (sift_down sd n s pos)) n {pos}"
      by (simp add: heap_except_def)
    with res heap_children_above [OF res(3) pos] show ?thesis by blast
  qed
qed

section \<open>The ladder of a book\<close>

definition ladder_members :: "side \<Rightarrow> order_book \<Rightarrow> nat set" where
  "ladder_members sd bk = set (take (side_heap_size sd bk) (side_heap sd bk))"

definition ladder_ok :: "side \<Rightarrow> order_book \<Rightarrow> bool" where
  "ladder_ok sd bk \<longleftrightarrow> indexed (side_heap_size sd bk) (side_heap sd bk, levels bk)
     \<and> heap_except (rank_at sd (side_heap sd bk, levels bk)) (side_heap_size sd bk) {}"

text \<open>Only heap positions changed, and only those of the slots in \<^verbatim>\<open>S\<close>.\<close>

definition positions_only :: "nat set \<Rightarrow> level list \<Rightarrow> level list \<Rightarrow> bool" where
  "positions_only S lv lv' \<longleftrightarrow> length lv' = length lv
     \<and> (\<forall>i. (lv' ! i)\<lparr>l_heap_pos := 0\<rparr> = (lv ! i)\<lparr>l_heap_pos := 0\<rparr>)
     \<and> (\<forall>i. i \<notin> S \<longrightarrow> lv' ! i = lv ! i)"

lemma positions_only_fields:
  assumes "positions_only S lv lv'"
  shows "l_price (lv' ! i) = l_price (lv ! i)" "l_side (lv' ! i) = l_side (lv ! i)"
    "l_active (lv' ! i) = l_active (lv ! i)"
    "l_total_quantity (lv' ! i) = l_total_quantity (lv ! i)"
    "l_order_count (lv' ! i) = l_order_count (lv ! i)"
    "l_head (lv' ! i) = l_head (lv ! i)" "l_tail (lv' ! i) = l_tail (lv ! i)"
    "l_next_free (lv' ! i) = l_next_free (lv ! i)" "length lv' = length lv"
  using assms same_level_fields [of "lv' ! i" "lv ! i"] unfolding positions_only_def by blast+

lemma positions_only_mono: "positions_only S lv lv' \<Longrightarrow> S \<subseteq> T \<Longrightarrow> positions_only T lv lv'"
  unfolding positions_only_def by blast

lemma positions_only_trans:
  "positions_only S lv lv' \<Longrightarrow> positions_only S lv' lv'' \<Longrightarrow> positions_only S lv lv''"
  unfolding positions_only_def by simp

lemma positions_only_refl: "positions_only S lv lv"
  by (simp add: positions_only_def)

lemma positions_only_update:
  "i \<in> S \<Longrightarrow> positions_only S lv (lv[i := (lv ! i)\<lparr>l_heap_pos := p\<rparr>])"
  by (cases "i < length lv")
     (auto simp: positions_only_def nth_list_update list_update_beyond)

lemma sift_frame_positions:
  "sift_frame n (h, lv) (h', lv') \<Longrightarrow> positions_only (set (take n h)) lv lv'"
  by (simp add: sift_frame_def positions_only_def)

lemma positions_only_rank: "positions_only S lv lv' \<Longrightarrow> level_rank sd lv' = level_rank sd lv"
  by (rule ext) (simp add: level_rank_def positions_only_fields(1))

text \<open>A ladder is untouched when its heap and its member slots are.\<close>

lemma ladder_ok_cong:
  assumes "ladder_ok sd bk" and "side_heap sd bk' = side_heap sd bk"
    and "side_heap_size sd bk' = side_heap_size sd bk"
    and "length (levels bk') = length (levels bk)"
    and "\<And>i. i \<in> ladder_members sd bk \<Longrightarrow> l_heap_pos (levels bk' ! i) = l_heap_pos (levels bk ! i)
           \<and> l_price (levels bk' ! i) = l_price (levels bk ! i)"
  shows "ladder_ok sd bk'"
proof -
  let ?h = "side_heap sd bk" and ?n = "side_heap_size sd bk"
  have n: "?n \<le> length ?h" using assms(1) by (simp add: ladder_ok_def indexed_def)
  have mem: "?h ! i \<in> ladder_members sd bk" if "i < ?n" for i
    using that n by (auto simp: ladder_members_def in_set_conv_nth)
  have rank: "rank_at sd (?h, levels bk') i = rank_at sd (?h, levels bk) i" if "i < ?n" for i
    using assms(5) [OF mem [OF that]] by (simp add: rank_at_def level_rank_def)
  have "heap_except (rank_at sd (?h, levels bk')) ?n {}"
    unfolding heap_except_def
  proof (intro allI impI)
    fix i assume i: "i < ?n" "0 < i \<and> i \<notin> {}"
    then have "parent i < ?n" using parent_less [of i] by simp
    with i rank assms(1) show "rank_at sd (?h, levels bk') (parent i) \<le> rank_at sd (?h, levels bk') i"
      by (simp add: ladder_ok_def heap_except_def)
  qed
  moreover have "indexed ?n (?h, levels bk')"
    using assms(1,4,5) mem by (simp add: ladder_ok_def indexed_def)
  ultimately show ?thesis
    using assms(2,3) by (simp add: ladder_ok_def)
qed

lemma ladder_members_less: "ladder_ok sd bk \<Longrightarrow> i \<in> ladder_members sd bk \<Longrightarrow> i < length (levels bk)"
  by (auto simp: ladder_ok_def indexed_def ladder_members_def in_set_conv_nth)

lemma ladder_members_card: "ladder_ok sd bk \<Longrightarrow> card (ladder_members sd bk) = side_heap_size sd bk"
proof -
  let ?h = "side_heap sd bk" and ?n = "side_heap_size sd bk"
  assume ok: "ladder_ok sd bk"
  then have "inj_on (\<lambda>i. ?h ! i) {..<?n}"
    using indexed_inj [of ?n "(?h, levels bk)"] by (auto simp: ladder_ok_def inj_on_def)
  moreover have "ladder_members sd bk = (\<lambda>i. ?h ! i) ` {..<?n}"
    using ok nth_image [of ?n ?h]
    by (simp add: ladder_ok_def indexed_def ladder_members_def lessThan_atLeast0)
  ultimately show ?thesis by (simp add: card_image)
qed

lemma ladder_members_pos:
  assumes "ladder_ok sd bk" and "i \<in> ladder_members sd bk"
  shows "l_heap_pos (levels bk ! i) < side_heap_size sd bk"
    and "side_heap sd bk ! l_heap_pos (levels bk ! i) = i"
  using assms by (auto simp: ladder_ok_def indexed_def ladder_members_def in_set_conv_nth)

text \<open>The top of the ladder is a best price of its side.\<close>

lemma ladder_top_npos:
  assumes "ladder_ok sd bk" and "length (levels bk) \<le> npos"
  shows "ladder_top sd bk = npos \<longleftrightarrow> ladder_members sd bk = {}"
  using assms
  by (auto simp: ladder_top_def ladder_members_def ladder_ok_def indexed_def)

lemma ladder_top_best:
  assumes "ladder_ok sd bk" and "ladder_top sd bk \<noteq> npos"
  shows "ladder_top sd bk \<in> ladder_members sd bk"
    and "i \<in> ladder_members sd bk \<Longrightarrow>
      level_rank sd (levels bk) (ladder_top sd bk) \<le> level_rank sd (levels bk) i"
proof -
  let ?h = "side_heap sd bk" and ?n = "side_heap_size sd bk"
  have n: "0 < ?n" and top: "ladder_top sd bk = ?h ! 0"
    using assms(2) by (auto simp: ladder_top_def split: if_splits)
  have ok: "?n \<le> length ?h" "heap_except (rank_at sd (?h, levels bk)) ?n {}"
    using assms(1) by (simp_all add: ladder_ok_def indexed_def)
  show "ladder_top sd bk \<in> ladder_members sd bk"
    using n ok(1) top by (auto simp: ladder_members_def in_set_conv_nth)
  assume "i \<in> ladder_members sd bk"
  then obtain j where "j < ?n" "i = ?h ! j"
    using ok(1) by (auto simp: ladder_members_def in_set_conv_nth)
  with heap_root_least [OF ok(2)] top show
    "level_rank sd (levels bk) (ladder_top sd bk) \<le> level_rank sd (levels bk) i"
    by (simp add: rank_at_def)
qed

section \<open>Frames\<close>

lemma ladder_sift_frame [frame_simps, simp]:
  "orders (ladder_sift_up sd pos bk) = orders bk"
  "order_lookup (ladder_sift_up sd pos bk) = order_lookup bk"
  "level_lookup (ladder_sift_up sd pos bk) = level_lookup bk"
  "free_order (ladder_sift_up sd pos bk) = free_order bk"
  "free_level (ladder_sift_up sd pos bk) = free_level bk"
  "active_orders (ladder_sift_up sd pos bk) = active_orders bk"
  "next_priority (ladder_sift_up sd pos bk) = next_priority bk"
  "fill_sequence (ladder_sift_up sd pos bk) = fill_sequence bk"
  "side_heap_size sd' (ladder_sift_up sd pos bk) = side_heap_size sd' bk"
  "orders (ladder_sift_down sd pos bk) = orders bk"
  "order_lookup (ladder_sift_down sd pos bk) = order_lookup bk"
  "level_lookup (ladder_sift_down sd pos bk) = level_lookup bk"
  "free_order (ladder_sift_down sd pos bk) = free_order bk"
  "free_level (ladder_sift_down sd pos bk) = free_level bk"
  "active_orders (ladder_sift_down sd pos bk) = active_orders bk"
  "next_priority (ladder_sift_down sd pos bk) = next_priority bk"
  "fill_sequence (ladder_sift_down sd pos bk) = fill_sequence bk"
  "side_heap_size sd' (ladder_sift_down sd pos bk) = side_heap_size sd' bk"
  by (simp_all add: ladder_sift_up_def ladder_sift_down_def split: prod.split)

lemma ladder_sift_other [frame_simps, simp]:
  "sd' \<noteq> sd \<Longrightarrow> side_heap sd' (ladder_sift_up sd pos bk) = side_heap sd' bk"
  "sd' \<noteq> sd \<Longrightarrow> side_heap sd' (ladder_sift_down sd pos bk) = side_heap sd' bk"
  by (simp_all add: ladder_sift_up_def ladder_sift_down_def split: prod.split)

lemma ladder_update_frame [frame_simps, simp]:
  "orders (ladder_push sd i bk) = orders bk"
  "order_lookup (ladder_push sd i bk) = order_lookup bk"
  "level_lookup (ladder_push sd i bk) = level_lookup bk"
  "free_order (ladder_push sd i bk) = free_order bk"
  "free_level (ladder_push sd i bk) = free_level bk"
  "active_orders (ladder_push sd i bk) = active_orders bk"
  "next_priority (ladder_push sd i bk) = next_priority bk"
  "fill_sequence (ladder_push sd i bk) = fill_sequence bk"
  "orders (ladder_remove sd i bk) = orders bk"
  "order_lookup (ladder_remove sd i bk) = order_lookup bk"
  "level_lookup (ladder_remove sd i bk) = level_lookup bk"
  "free_order (ladder_remove sd i bk) = free_order bk"
  "free_level (ladder_remove sd i bk) = free_level bk"
  "active_orders (ladder_remove sd i bk) = active_orders bk"
  "next_priority (ladder_remove sd i bk) = next_priority bk"
  "fill_sequence (ladder_remove sd i bk) = fill_sequence bk"
  by (simp_all add: ladder_push_def ladder_remove_def Let_def)

lemma ladder_update_other [frame_simps, simp]:
  "sd' \<noteq> sd \<Longrightarrow> side_heap sd' (ladder_push sd i bk) = side_heap sd' bk"
  "sd' \<noteq> sd \<Longrightarrow> side_heap_size sd' (ladder_push sd i bk) = side_heap_size sd' bk"
  "sd' \<noteq> sd \<Longrightarrow> side_heap sd' (ladder_remove sd i bk) = side_heap sd' bk"
  "sd' \<noteq> sd \<Longrightarrow> side_heap_size sd' (ladder_remove sd i bk) = side_heap_size sd' bk"
  by (simp_all add: ladder_push_def ladder_remove_def Let_def)

section \<open>Pushing and removing\<close>

text \<open>The sifting operations on a book, from the loops.\<close>

lemma ladder_sift_up_ok:
  fixes sd pos bk
  defines "bk' \<equiv> ladder_sift_up sd pos bk" and "s \<equiv> (side_heap sd bk, levels bk)"
  assumes "indexed (side_heap_size sd bk) s" and "pos < side_heap_size sd bk"
    and "heap_except (rank_at sd s) (side_heap_size sd bk) {pos}"
    and "children_above (rank_at sd s) (side_heap_size sd bk) pos"
  shows "ladder_ok sd bk'" and "ladder_members sd bk' = ladder_members sd bk"
    and "positions_only (ladder_members sd bk) (levels bk) (levels bk')"
    and "length (side_heap sd bk') = length (side_heap sd bk)"
proof -
  obtain h lv where r: "sift_up sd s pos = (h, lv)" by fastforce
  have bk': "side_heap sd bk' = h" "levels bk' = lv"
    using r by (simp_all add: bk'_def s_def ladder_sift_up_def)
  have size: "side_heap_size sd bk' = side_heap_size sd bk" by (simp add: bk'_def)
  from sift_up_heap [OF assms(3-6)] r
  have res: "indexed (side_heap_size sd bk) (h, lv)" "sift_frame (side_heap_size sd bk) s (h, lv)"
    "heap_except (rank_at sd (h, lv)) (side_heap_size sd bk) {}" by simp_all
  from res(1,3) show "ladder_ok sd bk'" by (simp add: ladder_ok_def bk' size)
  from res(2) show "ladder_members sd bk' = ladder_members sd bk"
    "length (side_heap sd bk') = length (side_heap sd bk)"
    by (simp_all add: ladder_members_def bk' size sift_frame_def s_def)
  from sift_frame_positions [OF res(2) [unfolded s_def]]
  show "positions_only (ladder_members sd bk) (levels bk) (levels bk')"
    by (simp add: ladder_members_def bk')
qed

lemma ladder_sift_down_ok:
  fixes sd pos bk
  defines "bk' \<equiv> ladder_sift_down sd pos bk" and "s \<equiv> (side_heap sd bk, levels bk)"
  defines "s' \<equiv> (side_heap sd bk', levels bk')"
  assumes "indexed (side_heap_size sd bk) s" and "pos < side_heap_size sd bk"
    and "\<forall>i < side_heap_size sd bk. 0 < i \<and> i \<noteq> pos \<and> parent i \<noteq> pos \<longrightarrow>
      rank_at sd s (parent i) \<le> rank_at sd s i"
    and "children_above (rank_at sd s) (side_heap_size sd bk) pos"
  shows "indexed (side_heap_size sd bk) s'"
    and "heap_except (rank_at sd s') (side_heap_size sd bk) {pos}"
    and "children_above (rank_at sd s') (side_heap_size sd bk) pos"
    and "ladder_members sd bk' = ladder_members sd bk"
    and "positions_only (ladder_members sd bk) (levels bk) (levels bk')"
    and "length (side_heap sd bk') = length (side_heap sd bk)"
proof -
  obtain h lv where r: "sift_down sd (side_heap_size sd bk) s pos = (h, lv)" by fastforce
  have bk': "side_heap sd bk' = h" "levels bk' = lv"
    using r by (simp_all add: bk'_def s_def ladder_sift_down_def)
  have size: "side_heap_size sd bk' = side_heap_size sd bk" by (simp add: bk'_def)
  from sift_down_hole [OF assms(4-7)] r
  have res: "indexed (side_heap_size sd bk) (h, lv)" "sift_frame (side_heap_size sd bk) s (h, lv)"
    "heap_except (rank_at sd (h, lv)) (side_heap_size sd bk) {pos}"
    "children_above (rank_at sd (h, lv)) (side_heap_size sd bk) pos" by simp_all
  from res(1,3,4) show "indexed (side_heap_size sd bk) s'"
    "heap_except (rank_at sd s') (side_heap_size sd bk) {pos}"
    "children_above (rank_at sd s') (side_heap_size sd bk) pos"
    by (simp_all add: s'_def bk')
  from res(2) show "ladder_members sd bk' = ladder_members sd bk"
    "length (side_heap sd bk') = length (side_heap sd bk)"
    by (simp_all add: ladder_members_def bk' size sift_frame_def s_def)
  from sift_frame_positions [OF res(2) [unfolded s_def]]
  show "positions_only (ladder_members sd bk) (levels bk) (levels bk')"
    by (simp add: ladder_members_def bk')
qed

lemma ladder_push_ok:
  fixes sd i bk
  defines "bk' \<equiv> ladder_push sd i bk"
  assumes ok: "ladder_ok sd bk" and i: "i < length (levels bk)" "i \<notin> ladder_members sd bk"
    and room: "side_heap_size sd bk < length (side_heap sd bk)"
  shows "ladder_ok sd bk'" and "ladder_members sd bk' = insert i (ladder_members sd bk)"
    and "positions_only (insert i (ladder_members sd bk)) (levels bk) (levels bk')"
    and "length (side_heap sd bk') = length (side_heap sd bk)"
    and "side_heap_size sd bk' = Suc (side_heap_size sd bk)"
proof -
  let ?n = "side_heap_size sd bk" and ?h = "side_heap sd bk"
  define b3 where "b3 = upd_level i (l_heap_pos_update (\<lambda>_. ?n))
    (set_side_heap sd (?h[?n := i]) (set_side_heap_size sd (Suc ?n) bk))"
  have bk': "bk' = ladder_sift_up sd ?n b3"
    by (simp add: bk'_def b3_def ladder_push_def Let_def)
  have b3: "side_heap sd b3 = ?h[?n := i]" "side_heap_size sd b3 = Suc ?n"
    "levels b3 = (levels bk)[i := (levels bk ! i)\<lparr>l_heap_pos := ?n\<rparr>]"
    by (simp_all add: b3_def)
  have mem: "?h ! k \<in> ladder_members sd bk" if "k < ?n" for k
    using that room by (auto simp: ladder_members_def in_set_conv_nth)
  have mem3: "ladder_members sd b3 = insert i (ladder_members sd bk)"
    using room by (auto simp: ladder_members_def b3 take_Suc_conv_app_nth)
  have pos3: "positions_only (insert i (ladder_members sd bk)) (levels bk) (levels b3)"
    unfolding b3 by (rule positions_only_update) simp
  have ix3: "indexed (Suc ?n) (side_heap sd b3, levels b3)"
    using ok i mem room unfolding b3 indexed_def ladder_ok_def fst_conv snd_conv
    by (auto simp: less_Suc_eq nth_list_update)
  have rank3: "rank_at sd (side_heap sd b3, levels b3) k = rank_at sd (?h, levels bk) k"
    if "k < ?n" for k
    using that positions_only_rank [OF pos3] b3 by (simp add: rank_at_def)
  have he3: "heap_except (rank_at sd (side_heap sd b3, levels b3)) (Suc ?n) {?n}"
    unfolding heap_except_def
  proof (intro allI impI)
    fix k assume k: "k < Suc ?n" "0 < k \<and> k \<notin> {?n}"
    then have "parent k < ?n" "k < ?n" using parent_less [of k] by simp_all
    with k ok rank3 show "rank_at sd (side_heap sd b3, levels b3) (parent k)
        \<le> rank_at sd (side_heap sd b3, levels b3) k"
      by (simp add: ladder_ok_def heap_except_def)
  qed
  have ca3: "children_above (rank_at sd (side_heap sd b3, levels b3)) (Suc ?n) ?n"
    unfolding children_above_def
  proof (intro allI impI)
    fix c assume "c < Suc ?n" "0 < ?n \<and> 0 < c \<and> parent c = ?n"
    with parent_less [of c] show "rank_at sd (side_heap sd b3, levels b3) (parent ?n)
        \<le> rank_at sd (side_heap sd b3, levels b3) c" by simp
  qed
  note up = ladder_sift_up_ok [of sd b3 ?n, folded bk', unfolded b3(2), OF ix3 lessI he3 ca3]
  show "ladder_ok sd bk'" "ladder_members sd bk' = insert i (ladder_members sd bk)"
    using up(1,2) mem3 by simp_all
  show "positions_only (insert i (ladder_members sd bk)) (levels bk) (levels bk')"
    using positions_only_trans [OF pos3] up(3) mem3 by simp
  show "length (side_heap sd bk') = length ?h" "side_heap_size sd bk' = Suc ?n"
    using up(4) b3 by (simp_all add: bk')
qed

lemma ladder_remove_ok:
  fixes sd i bk
  defines "bk' \<equiv> ladder_remove sd i bk"
  assumes ok: "ladder_ok sd bk" and i: "i \<in> ladder_members sd bk"
  shows "ladder_ok sd bk'" and "ladder_members sd bk' = ladder_members sd bk - {i}"
    and "positions_only (ladder_members sd bk) (levels bk) (levels bk')"
    and "length (side_heap sd bk') = length (side_heap sd bk)"
    and "side_heap_size sd bk' = side_heap_size sd bk - 1"
proof -
  let ?h = "side_heap sd bk" and ?pos = "l_heap_pos (levels bk ! i)"
  define m where "m = side_heap_size sd bk - 1"
  define b2 where "b2 = (if ?pos \<noteq> m then
      ladder_sift_up sd ?pos (ladder_sift_down sd ?pos
        (upd_level (?h ! m) (l_heap_pos_update (\<lambda>_. ?pos))
          (set_side_heap sd (?h[?pos := ?h ! m]) (set_side_heap_size sd m bk))))
    else set_side_heap_size sd m bk)"
  have pos: "?pos < side_heap_size sd bk" "?h ! ?pos = i"
    using ladder_members_pos [OF ok i] by simp_all
  have n: "side_heap_size sd bk = Suc m" "m < length ?h" "Suc m \<le> length ?h"
    using pos ok by (auto simp: ladder_ok_def indexed_def m_def)
  have bk': "bk' = upd_level i (l_heap_pos_update (\<lambda>_. npos)) b2"
    using pos n by (simp add: bk'_def b2_def ladder_remove_def Let_def nth_list_update m_def [symmetric])
  have ix: "indexed (Suc m) (?h, levels bk)" and he: "heap_except (rank_at sd (?h, levels bk)) (Suc m) {}"
    using ok n(1) by (simp_all add: ladder_ok_def)
  have inj: "?h ! j = ?h ! k \<Longrightarrow> j = k" if "j < Suc m" "k < Suc m" for j k
    using indexed_inj [OF ix] that by simp
  have memS: "ladder_members sd bk = insert (?h ! m) (set (take m ?h))"
  proof -
    have "take (side_heap_size sd bk) ?h = take m ?h @ [?h ! m]"
      using take_Suc_conv_app_nth [OF n(2)] n(1) by metis
    then show ?thesis by (simp add: ladder_members_def)
  qed
  have last_new: "?h ! m \<notin> set (take m ?h)"
  proof
    assume "?h ! m \<in> set (take m ?h)"
    then obtain j where "j < m" "?h ! j = ?h ! m"
      by (auto simp: in_set_conv_nth)
    with inj [of j m] show False by simp
  qed
  have b2_ok: "ladder_ok sd b2 \<and> ladder_members sd b2 = ladder_members sd bk - {i}
      \<and> positions_only (ladder_members sd bk) (levels bk) (levels b2)
      \<and> length (side_heap sd b2) = length ?h \<and> side_heap_size sd b2 = m"
  proof (cases "?pos = m")
    case True
    then have b2: "side_heap sd b2 = ?h" "side_heap_size sd b2 = m" "levels b2 = levels bk"
      by (simp_all add: b2_def)
    have "ladder_ok sd b2"
      using ix he by (auto simp: ladder_ok_def b2 indexed_def heap_except_def)
    moreover have "ladder_members sd b2 = ladder_members sd bk - {i}"
      using memS last_new pos True by (auto simp: ladder_members_def b2)
    ultimately show ?thesis using b2 by (simp add: positions_only_refl)
  next
    case False
    define b1 where "b1 = upd_level (?h ! m) (l_heap_pos_update (\<lambda>_. ?pos))
          (set_side_heap sd (?h[?pos := ?h ! m]) (set_side_heap_size sd m bk))"
    have b1: "side_heap sd b1 = ?h[?pos := ?h ! m]" "side_heap_size sd b1 = m"
      "levels b1 = (levels bk)[?h ! m := (levels bk ! (?h ! m))\<lparr>l_heap_pos := ?pos\<rparr>]"
      by (simp_all add: b1_def)
    have posn: "?pos < m" using pos n False by linarith
    have b2: "b2 = ladder_sift_up sd ?pos (ladder_sift_down sd ?pos b1)"
      using False by (simp add: b2_def b1_def)
    have mem1: "ladder_members sd b1 = ladder_members sd bk - {i}"
    proof -
      have "set (take m (?h[?pos := ?h ! m])) = insert (?h ! m) (set (take m ?h) - {i})"
      proof -
        have "distinct (take m ?h)"
          using n by (auto simp: distinct_conv_nth dest!: inj [rotated 2])
        then show ?thesis
          using set_update_distinct [of "take m ?h" ?pos "?h ! m"] posn n pos
          by (simp add: take_update_swap)
      qed
      moreover have "i \<noteq> ?h ! m" using inj [of ?pos m] pos posn by auto
      ultimately show ?thesis using memS b1 by (auto simp: ladder_members_def)
    qed
    have pos1: "positions_only (ladder_members sd bk) (levels bk) (levels b1)"
      unfolding b1 by (rule positions_only_update) (simp add: memS)
    have ix1: "indexed m (side_heap sd b1, levels b1)"
      unfolding b1 indexed_def fst_conv snd_conv
    proof (intro conjI allI impI)
      fix k assume k: "k < m"
      have lt: "?h ! m < length (levels bk)" "?h ! k < length (levels bk)"
        "l_heap_pos (levels bk ! (?h ! k)) = k"
        using ix k by (simp_all add: indexed_def)
      have "?pos \<noteq> k \<longrightarrow> ?h ! m \<noteq> ?h ! k" using inj [of m k] k by auto
      then show "?h[?pos := ?h ! m] ! k
            < length ((levels bk)[?h ! m := (levels bk ! (?h ! m))\<lparr>l_heap_pos := ?pos\<rparr>])"
        "l_heap_pos ((levels bk)[?h ! m := (levels bk ! (?h ! m))\<lparr>l_heap_pos := ?pos\<rparr>]
            ! (?h[?pos := ?h ! m] ! k)) = k"
        using lt n posn by (simp_all add: nth_list_update)
    qed (use n in simp)
    have rank1: "rank_at sd (side_heap sd b1, levels b1) k = rank_at sd (?h, levels bk) k"
      if "k \<noteq> ?pos" for k
      using that positions_only_rank [OF pos1] b1 by (simp add: rank_at_def)
    have he': "rank_at sd (?h, levels bk) (parent k) \<le> rank_at sd (?h, levels bk) k"
      if "k < Suc m" "0 < k" for k
      using he that by (simp add: heap_except_def)
    have hole: "\<forall>k < m. 0 < k \<and> k \<noteq> ?pos \<and> parent k \<noteq> ?pos \<longrightarrow>
      rank_at sd (side_heap sd b1, levels b1) (parent k) \<le> rank_at sd (side_heap sd b1, levels b1) k"
      using rank1 he' by simp
    have above: "children_above (rank_at sd (side_heap sd b1, levels b1)) m ?pos"
      unfolding children_above_def
    proof (intro allI impI)
      fix c assume c: "c < m" "0 < ?pos \<and> 0 < c \<and> parent c = ?pos"
      then have "parent ?pos \<noteq> ?pos" "c \<noteq> ?pos" using parent_less by (metis less_irrefl)+
      with c posn he' [of c] he' [of ?pos] rank1 show
        "rank_at sd (side_heap sd b1, levels b1) (parent ?pos)
          \<le> rank_at sd (side_heap sd b1, levels b1) c" by force
    qed
    note down = ladder_sift_down_ok [of sd b1 ?pos, unfolded b1(2), OF ix1 posn hole above]
    let ?d = "ladder_sift_down sd ?pos b1"
    have dn: "side_heap_size sd ?d = m" by (simp add: b1)
    note up = ladder_sift_up_ok [of sd ?d ?pos, folded b2, unfolded dn, OF down(1) posn down(2,3)]
    have "positions_only (ladder_members sd bk) (levels b1) (levels ?d)"
      "positions_only (ladder_members sd bk) (levels ?d) (levels b2)"
      using down(4,5) up(3) mem1 by (auto intro: positions_only_mono)
    then have "positions_only (ladder_members sd bk) (levels bk) (levels b2)"
      using pos1 positions_only_trans by blast
    with up(1,2,4) down(4,6) mem1 b1 show ?thesis by (simp add: b2)
  qed
  have "ladder_ok sd bk'"
  proof (rule ladder_ok_cong [of sd b2])
    fix j assume "j \<in> ladder_members sd b2"
    with b2_ok have "j \<noteq> i" by blast
    then show "l_heap_pos (levels bk' ! j) = l_heap_pos (levels b2 ! j)
      \<and> l_price (levels bk' ! j) = l_price (levels b2 ! j)"
      by (simp add: bk')
  qed (use b2_ok in \<open>simp_all add: bk'\<close>)
  moreover have "positions_only (ladder_members sd bk) (levels b2) (levels bk')"
    using positions_only_update [OF i] by (simp add: bk')
  ultimately show "ladder_ok sd bk'" "ladder_members sd bk' = ladder_members sd bk - {i}"
    "positions_only (ladder_members sd bk) (levels bk) (levels bk')"
    "length (side_heap sd bk') = length ?h" "side_heap_size sd bk' = side_heap_size sd bk - 1"
    using b2_ok positions_only_trans by (auto simp: bk' ladder_members_def m_def)
qed

end
