(* ===== verification/Pools.thy ===== *)
theory Pools
  imports BookState
begin

text \<open>
  The free lists of the two preallocated pools: the inactive entries of a pool form a chain
  through their \<^verbatim>\<open>next_free\<close> member, headed by \<^verbatim>\<open>free_order_\<close> or \<^verbatim>\<open>free_level_\<close>. The locale
  \<^verbatim>\<open>slot_pool\<close> holds what taking an entry, giving one back and updating one do to that chain; it
  is interpreted on the order pool and on the level pool.
\<close>

fun chain :: "(nat \<Rightarrow> nat) \<Rightarrow> nat \<Rightarrow> nat list \<Rightarrow> bool" where
  "chain nx i [] \<longleftrightarrow> i = npos"
| "chain nx i (x # xs) \<longleftrightarrow> i = x \<and> x \<noteq> npos \<and> chain nx (nx x) xs"

lemma chain_cong: "(\<And>i. i \<in> set xs \<Longrightarrow> nx' i = nx i) \<Longrightarrow> chain nx i xs \<Longrightarrow> chain nx' i xs"
  by (induction xs arbitrary: i) simp_all

text \<open>The free chain of a pool \<^verbatim>\<open>rs\<close> from \<^verbatim>\<open>head\<close> visits exactly the inactive entries, once each.\<close>

definition pool_ok :: "('r \<Rightarrow> nat) \<Rightarrow> ('r \<Rightarrow> bool) \<Rightarrow> 'r list \<Rightarrow> nat \<Rightarrow> bool" where
  "pool_ok nx act rs head \<longleftrightarrow> length rs \<le> npos \<and>
     (\<exists>xs. chain (\<lambda>i. nx (rs ! i)) head xs \<and> distinct xs
       \<and> set xs = {i. i < length rs \<and> \<not> act (rs ! i)})"

locale slot_pool =
  fixes nx :: "'r \<Rightarrow> nat"
    and act :: "'r \<Rightarrow> bool"
    and release :: "nat \<Rightarrow> 'r \<Rightarrow> 'r"
  assumes release_nx: "nx (release h r) = h"
    and release_act: "\<not> act (release h r)"
begin

abbreviation ok :: "'r list \<Rightarrow> nat \<Rightarrow> bool" where
  "ok \<equiv> pool_ok nx act"

lemma pool_headE:
  assumes "ok rs head" and "head \<noteq> npos"
  obtains xs where "chain (\<lambda>i. nx (rs ! i)) (nx (rs ! head)) xs" "distinct (head # xs)"
    "set (head # xs) = {i. i < length rs \<and> \<not> act (rs ! i)}" "length rs \<le> npos"
proof -
  from assms(1) obtain ys where ys: "chain (\<lambda>i. nx (rs ! i)) head ys" "distinct ys"
    "set ys = {i. i < length rs \<and> \<not> act (rs ! i)}" "length rs \<le> npos"
    unfolding pool_ok_def by blast
  with assms(2) obtain xs where "ys = head # xs" by (cases ys) auto
  with ys show ?thesis by (intro that [of xs]) simp_all
qed

lemma pool_head:
  assumes "ok rs head" and "head \<noteq> npos"
  shows "head < length rs" and "\<not> act (rs ! head)"
  by (rule pool_headE [OF assms]; force)+

lemma pool_exhausted:
  assumes "ok rs head"
  shows "head = npos \<longleftrightarrow> (\<forall>i<length rs. act (rs ! i))"
proof -
  from assms obtain xs where xs: "chain (\<lambda>i. nx (rs ! i)) head xs"
    "set xs = {i. i < length rs \<and> \<not> act (rs ! i)}"
    unfolding pool_ok_def by blast
  from xs(1) have "head = npos \<longleftrightarrow> xs = []" by (cases xs) auto
  also have "\<dots> \<longleftrightarrow> {i. i < length rs \<and> \<not> act (rs ! i)} = {}" using xs(2) by (metis set_empty)
  finally show ?thesis by blast
qed

lemma pool_cong:
  assumes "ok rs head" and "length rs' = length rs"
    and "\<And>i. i < length rs \<Longrightarrow> act (rs' ! i) = act (rs ! i)"
    and "\<And>i. i < length rs \<Longrightarrow> \<not> act (rs ! i) \<Longrightarrow> nx (rs' ! i) = nx (rs ! i)"
  shows "ok rs' head"
proof -
  from assms(1) obtain xs where xs: "chain (\<lambda>i. nx (rs ! i)) head xs" "distinct xs"
    "set xs = {i. i < length rs \<and> \<not> act (rs ! i)}" and n: "length rs \<le> npos"
    unfolding pool_ok_def by blast
  have "chain (\<lambda>i. nx (rs' ! i)) head xs"
    using assms(4) xs(3) by (intro chain_cong [OF _ xs(1)]) auto
  with xs n assms(2,3) show ?thesis
    unfolding pool_ok_def by (intro conjI exI [of _ xs]) auto
qed

lemma pool_take:
  assumes "ok rs head" and "head \<noteq> npos" and "act r"
  shows "ok (rs[head := r]) (nx (rs ! head))"
proof -
  obtain xs where xs: "chain (\<lambda>i. nx (rs ! i)) (nx (rs ! head)) xs" "distinct (head # xs)"
    "set (head # xs) = {i. i < length rs \<and> \<not> act (rs ! i)}" and n: "length rs \<le> npos"
    by (rule pool_headE [OF assms(1,2)])
  have "chain (\<lambda>i. nx (rs[head := r] ! i)) (nx (rs ! head)) xs"
    using xs(2) by (intro chain_cong [OF _ xs(1)]) (metis distinct.simps(2) nth_list_update_neq)
  moreover have "set xs = {i. i < length (rs[head := r]) \<and> \<not> act (rs[head := r] ! i)}"
  proof (rule set_eqI)
    fix i
    have "i \<in> set xs \<longleftrightarrow> i \<noteq> head \<and> i < length rs \<and> \<not> act (rs ! i)"
      using xs(2,3) by (metis (mono_tags, lifting) distinct.simps(2) list.set_intros(1)
          list.set_intros(2) mem_Collect_eq set_ConsD)
    then show "i \<in> set xs \<longleftrightarrow> i \<in> {i. i < length (rs[head := r]) \<and> \<not> act (rs[head := r] ! i)}"
      using assms(3) by (cases "i = head") auto
  qed
  ultimately show ?thesis
    using xs(2) n unfolding pool_ok_def by (intro conjI exI [of _ xs]) simp_all
qed

lemma pool_give:
  assumes "ok rs head" and "i < length rs" and "act (rs ! i)"
  shows "ok (rs[i := release head r]) i"
proof -
  from assms(1) obtain xs where xs: "chain (\<lambda>i. nx (rs ! i)) head xs" "distinct xs"
    "set xs = {i. i < length rs \<and> \<not> act (rs ! i)}" and n: "length rs \<le> npos"
    unfolding pool_ok_def by blast
  have notin: "i \<notin> set xs" using xs(3) assms(3) by simp
  have "chain (\<lambda>j. nx (rs[i := release head r] ! j)) head xs"
    using notin by (intro chain_cong [OF _ xs(1)]) (metis nth_list_update_neq)
  then have "chain (\<lambda>j. nx (rs[i := release head r] ! j)) i (i # xs)"
    using assms(2) n by (simp add: release_nx)
  moreover have "set (i # xs) = {j. j < length (rs[i := release head r])
      \<and> \<not> act (rs[i := release head r] ! j)}"
    using xs(3) assms(2) by (auto simp: nth_list_update release_act)
  ultimately show ?thesis
    using xs(2) notin n unfolding pool_ok_def by (intro conjI exI [of _ "i # xs"]) auto
qed

end

text \<open>Giving an entry back: \<^verbatim>\<open>active = false; next_free = free_...; free_... = index\<close>.\<close>

definition release_order :: "nat \<Rightarrow> order \<Rightarrow> order" where
  "release_order head r = r\<lparr>o_active := False, o_next_free := head\<rparr>"

definition release_level_entry :: "nat \<Rightarrow> level \<Rightarrow> level" where
  "release_level_entry head r = r\<lparr>l_active := False, l_next_free := head\<rparr>"

interpretation order_pool: slot_pool o_next_free o_active release_order
  by unfold_locales (simp_all add: release_order_def)

interpretation level_pool: slot_pool l_next_free l_active release_level_entry
  by unfold_locales (simp_all add: release_level_entry_def)

text \<open>The chain the constructor builds: every entry points to the next one.\<close>

lemma chain_upt:
  assumes "\<And>i. i < n \<Longrightarrow> nx i = (if i + 1 < n then i + 1 else npos)" and "n \<le> npos"
  shows "k < n \<Longrightarrow> chain nx k [k..<n]"
proof (induction "n - k" arbitrary: k)
  case 0
  then show ?case by simp
next
  case (Suc d)
  show ?case
  proof (cases "Suc k < n")
    case True
    with Suc have "chain nx (Suc k) [Suc k..<n]" by simp
    with True Suc.prems assms show ?thesis by (simp add: upt_conv_Cons)
  next
    case False
    with Suc.prems have "n = Suc k" by simp
    with assms show ?thesis by simp
  qed
qed

end
