(* ===== verification/Levels.thy ===== *)
theory Levels
  imports HashIndex Ladder Pools
begin

text \<open>
  The level directory of \<^verbatim>\<open>OrderBook.cpp\<close>: \<^verbatim>\<open>acquire_level\<close> finds or creates the level of a (side,
  price) pair, \<^verbatim>\<open>release_level\<close> gives an empty one back. \<^verbatim>\<open>dir_inv\<close> ties the level index, the two
  ladders and the free list of the level pool to the same set of active levels.
\<close>

definition find_level_index :: "side \<Rightarrow> price \<Rightarrow> order_book \<Rightarrow> nat" where
  "find_level_index sd p bk = find_level_slot (level_lookup bk) (sd, p)"

definition fresh_level :: "side \<Rightarrow> price \<Rightarrow> level" where
  "fresh_level sd p = default_level\<lparr>l_price := p, l_side := sd, l_active := True\<rparr>"

definition acquire_level :: "side \<Rightarrow> price \<Rightarrow> order_book \<Rightarrow> nat \<times> order_book" where
  "acquire_level sd p bk =
     (let existing = find_level_index sd p bk
      in if existing \<noteq> npos then (existing, bk)
         else if free_level bk = npos then (npos, bk)
         else
           let index = free_level bk;
               bk1 = bk\<lparr>free_level := l_next_free (levels bk ! index)\<rparr>;
               bk2 = upd_level index (\<lambda>_. fresh_level sd p) bk1
           in case insert_level_slot (level_lookup bk2) (sd, p) index of
                (False, _) \<Rightarrow>
                  (npos, (upd_level index (release_level_entry (free_level bk2)) bk2)
                           \<lparr>free_level := index\<rparr>)
              | (True, t) \<Rightarrow> (index, ladder_push sd index (bk2\<lparr>level_lookup := t\<rparr>)))"

definition release_level :: "nat \<Rightarrow> order_book \<Rightarrow> order_book" where
  "release_level index bk =
     (let bk1 = ladder_remove (l_side (levels bk ! index)) index bk;
          bk2 = bk1\<lparr>level_lookup := erase_level_slot (level_lookup bk1)
                     (l_side (levels bk1 ! index), l_price (levels bk1 ! index))\<rparr>;
          bk3 = upd_level index (release_level_entry (free_level bk2)) bk2
      in bk3\<lparr>free_level := index\<rparr>)"

section \<open>The directory invariant\<close>

definition active_levels :: "order_book \<Rightarrow> nat set" where
  "active_levels bk = {i. i < length (levels bk) \<and> l_active (levels bk ! i)}"

definition level_at :: "order_book \<Rightarrow> side \<Rightarrow> price \<Rightarrow> nat \<Rightarrow> bool" where
  "level_at bk sd p i \<longleftrightarrow> i \<in> active_levels bk \<and> l_side (levels bk ! i) = sd
     \<and> l_price (levels bk ! i) = p"

definition dir_inv :: "order_book \<Rightarrow> bool" where
  "dir_inv bk \<longleftrightarrow> length (levels bk) \<le> npos
     \<and> (\<forall>sd. length (side_heap sd bk) = length (levels bk))
     \<and> level_index_ok (level_lookup bk)
     \<and> (\<forall>sd p i. level_maps (level_lookup bk) (sd, p) i \<longleftrightarrow> level_at bk sd p i)
     \<and> (\<forall>sd. ladder_ok sd bk)
     \<and> (\<forall>sd. ladder_members sd bk = {i \<in> active_levels bk. l_side (levels bk ! i) = sd})
     \<and> pool_ok l_next_free l_active (levels bk) (free_level bk)"

lemma dir_invD:
  assumes "dir_inv bk"
  shows "length (levels bk) \<le> npos" "length (side_heap sd bk) = length (levels bk)"
    "level_index_ok (level_lookup bk)"
    "level_maps (level_lookup bk) (sd, p) i \<longleftrightarrow> level_at bk sd p i"
    "ladder_ok sd bk" "ladder_members sd bk = {i \<in> active_levels bk. l_side (levels bk ! i) = sd}"
    "pool_ok l_next_free l_active (levels bk) (free_level bk)"
  using assms unfolding dir_inv_def by blast+

lemma active_level_less: "i \<in> active_levels bk \<Longrightarrow> i < length (levels bk)"
  by (simp add: active_levels_def)

lemma level_at_less: "level_at bk sd p i \<Longrightarrow> i < length (levels bk)"
  by (simp add: level_at_def active_levels_def)

lemma level_at_unique: "dir_inv bk \<Longrightarrow> level_at bk sd p i \<Longrightarrow> level_at bk sd p j \<Longrightarrow> i = j"
  using level_index.maps_fun [OF dir_invD(3)] dir_invD(4) by blast

lemma active_level_at: "i \<in> active_levels bk \<Longrightarrow> level_at bk (l_side (levels bk ! i)) (l_price (levels bk ! i)) i"
  by (simp add: level_at_def)

lemma find_level_at:
  assumes "dir_inv bk"
  shows "find_level_index sd p bk = npos \<longleftrightarrow> (\<forall>i. \<not> level_at bk sd p i)"
    and "i \<noteq> npos \<Longrightarrow> find_level_index sd p bk = i \<longleftrightarrow> level_at bk sd p i"
proof -
  note d = dir_invD [OF assms]
  have small: "\<And>k v. level_maps (level_lookup bk) k v \<Longrightarrow> v \<noteq> npos"
    using d(1,4) level_at_less by (metis less_le_not_le old.prod.exhaust)
  show "find_level_index sd p bk = npos \<longleftrightarrow> (\<forall>i. \<not> level_at bk sd p i)"
    using level_index.find_npos_iff [OF d(3) small] d(4) by (simp add: find_level_index_def)
  show "i \<noteq> npos \<Longrightarrow> find_level_index sd p bk = i \<longleftrightarrow> level_at bk sd p i"
    using level_index.find_eq_iff [OF d(3) small] d(4) by (simp add: find_level_index_def)
qed

text \<open>
  The invariant depends on the levels only through the members the directory owns; the queue
  operations write the others.
\<close>

definition dir_fields :: "level \<Rightarrow> price \<times> side \<times> bool \<times> nat \<times> nat" where
  "dir_fields l = (l_price l, l_side l, l_active l, l_next_free l, l_heap_pos l)"

lemma dir_inv_cong_active:
  assumes inv: "dir_inv bk"
    and len: "length (levels bk') = length (levels bk)"
    and act: "\<And>i. i < length (levels bk) \<Longrightarrow> l_active (levels bk' ! i) = l_active (levels bk ! i)"
    and fields: "\<And>i. i \<in> active_levels bk \<Longrightarrow> dir_fields (levels bk' ! i) = dir_fields (levels bk ! i)"
    and heaps: "\<And>sd. side_heap sd bk' = side_heap sd bk" "\<And>sd. side_heap_size sd bk' = side_heap_size sd bk"
    and look: "level_lookup bk' = level_lookup bk"
    and pool: "pool_ok l_next_free l_active (levels bk') (free_level bk')"
  shows "dir_inv bk'" and "active_levels bk' = active_levels bk"
proof -
  note d = dir_invD [OF inv]
  show act': "active_levels bk' = active_levels bk"
    using act len by (auto simp: active_levels_def)
  have at: "level_at bk' sd p i \<longleftrightarrow> level_at bk sd p i" for sd p i
    using fields [of i] act'
    by (cases "i \<in> active_levels bk") (simp_all add: level_at_def dir_fields_def)
  have mem: "ladder_members sd bk' = ladder_members sd bk" for sd
    by (simp add: ladder_members_def heaps)
  have lad: "ladder_ok sd bk'" for sd
  proof (rule ladder_ok_cong [OF d(5) heaps len])
    fix i assume "i \<in> ladder_members sd bk"
    then have "i \<in> active_levels bk" using d(6) by blast
    from fields [OF this] show "l_heap_pos (levels bk' ! i) = l_heap_pos (levels bk ! i)
      \<and> l_price (levels bk' ! i) = l_price (levels bk ! i)"
      by (simp add: dir_fields_def)
  qed
  have "{i \<in> active_levels bk'. l_side (levels bk' ! i) = sd}
      = {i \<in> active_levels bk. l_side (levels bk ! i) = sd}" for sd
    unfolding act' using fields by (auto simp: dir_fields_def)
  with d at mem lad pool show "dir_inv bk'"
    unfolding dir_inv_def by (simp add: len heaps look)
qed

lemma dir_inv_cong:
  assumes inv: "dir_inv bk"
    and len: "length (levels bk') = length (levels bk)"
    and fields: "\<And>i. i < length (levels bk) \<Longrightarrow> dir_fields (levels bk' ! i) = dir_fields (levels bk ! i)"
    and heaps: "\<And>sd. side_heap sd bk' = side_heap sd bk" "\<And>sd. side_heap_size sd bk' = side_heap_size sd bk"
    and look: "level_lookup bk' = level_lookup bk" and free: "free_level bk' = free_level bk"
  shows "dir_inv bk'" and "active_levels bk' = active_levels bk"
proof -
  have act: "l_active (levels bk' ! i) = l_active (levels bk ! i)" if "i < length (levels bk)" for i
    using fields [OF that] by (simp add: dir_fields_def)
  have pool: "pool_ok l_next_free l_active (levels bk') (free_level bk')"
    unfolding free using fields
    by (intro level_pool.pool_cong [OF dir_invD(7) [OF inv] len]) (auto simp: dir_fields_def)
  have active: "dir_fields (levels bk' ! i) = dir_fields (levels bk ! i)" if "i \<in> active_levels bk" for i
    using fields that by (simp add: active_levels_def)
  show "dir_inv bk'" "active_levels bk' = active_levels bk"
    by (rule dir_inv_cong_active [OF inv len act active heaps look pool]; assumption)+
qed

section \<open>Acquiring\<close>

text \<open>The four outcomes of \<^verbatim>\<open>acquire_level\<close>: found, no free slot, index refuses, created.\<close>

lemma acquire_level_existing:
  "find_level_index sd p bk \<noteq> npos \<Longrightarrow> acquire_level sd p bk = (find_level_index sd p bk, bk)"
  by (simp add: acquire_level_def Let_def)

lemma acquire_level_full:
  "find_level_index sd p bk = npos \<Longrightarrow> free_level bk = npos \<Longrightarrow> acquire_level sd p bk = (npos, bk)"
  by (simp add: acquire_level_def Let_def)

lemma insert_level_slot_cases:
  assumes "dir_inv bk" and "find_level_index sd p bk = npos"
  obtains t where "insert_level_slot (level_lookup bk) (sd, p) i = (True, t)"
      "level_index_ok t" "level_room (level_lookup bk)"
      "\<And>sd' p' w. level_maps t (sd', p') w \<longleftrightarrow> sd' = sd \<and> p' = p \<and> w = i \<or> level_at bk sd' p' w"
    | "insert_level_slot (level_lookup bk) (sd, p) i = (False, level_lookup bk)"
      "\<not> level_room (level_lookup bk)"
proof -
  note d = dir_invD [OF assms(1)]
  have "\<forall>w. \<not> level_maps (level_lookup bk) (sd, p) w"
    using assms(2) find_level_at(1) [OF assms(1)] d(4) by simp
  from level_index.ins_cases [OF d(3) this, of i] show ?thesis
    using that d(4) by (metis prod.inject)
qed

text \<open>Equality of levels up to the heap position.\<close>

definition level_core :: "level \<Rightarrow> level" where
  "level_core l = l\<lparr>l_heap_pos := 0\<rparr>"

lemma level_core_fields:
  assumes "level_core x = level_core y"
  shows "l_price x = l_price y" "l_side x = l_side y" "l_active x = l_active y"
    "l_total_quantity x = l_total_quantity y" "l_order_count x = l_order_count y"
    "l_head x = l_head y" "l_tail x = l_tail y" "l_next_free x = l_next_free y"
  using same_level_fields [OF assms [unfolded level_core_def]] by simp_all

lemma positions_only_core: "positions_only S lv lv' \<Longrightarrow> level_core (lv' ! i) = level_core (lv ! i)"
  by (simp add: positions_only_def level_core_def)

lemma fresh_level_fields [simp]:
  "l_price (fresh_level sd p) = p" "l_side (fresh_level sd p) = sd" "l_active (fresh_level sd p)"
  "l_total_quantity (fresh_level sd p) = 0" "l_order_count (fresh_level sd p) = 0"
  "l_head (fresh_level sd p) = npos" "l_tail (fresh_level sd p) = npos"
  by (simp_all add: fresh_level_def default_level_def)

text \<open>
  Both directory updates have this shape: a new set of active levels with the other levels'
  members unchanged, the ladder of one side updated, the other side's untouched.
\<close>

lemma ladder_other_side:
  assumes "ladder_ok sd' bk" and "sd' \<noteq> sd" and "positions_only S (levels bk) (levels bk')"
    and "S \<inter> ladder_members sd' bk = {}"
    and "side_heap sd' bk' = side_heap sd' bk" and "side_heap_size sd' bk' = side_heap_size sd' bk"
  shows "ladder_ok sd' bk'" and "ladder_members sd' bk' = ladder_members sd' bk"
proof -
  show "ladder_ok sd' bk'"
  proof (rule ladder_ok_cong [OF assms(1,5,6)])
    show "length (levels bk') = length (levels bk)" by (rule positions_only_fields(9) [OF assms(3)])
    fix i assume "i \<in> ladder_members sd' bk"
    then have "levels bk' ! i = levels bk ! i"
      using assms(3,4) by (auto simp: positions_only_def)
    then show "l_heap_pos (levels bk' ! i) = l_heap_pos (levels bk ! i)
      \<and> l_price (levels bk' ! i) = l_price (levels bk ! i)" by simp
  qed
  show "ladder_members sd' bk' = ladder_members sd' bk"
    by (simp add: ladder_members_def assms(5,6))
qed

lemma acquire_level_created:
  assumes inv: "dir_inv bk" and none: "find_level_index sd p bk = npos"
    and free: "free_level bk \<noteq> npos" and room: "level_room (level_lookup bk)"
  obtains bk' where "acquire_level sd p bk = (free_level bk, bk')" and "dir_inv bk'"
    and "active_levels bk' = insert (free_level bk) (active_levels bk)"
    and "free_level bk \<notin> active_levels bk" and "length (levels bk') = length (levels bk)"
    and "\<And>j. j \<noteq> free_level bk \<Longrightarrow> level_core (levels bk' ! j) = level_core (levels bk ! j)"
    and "level_core (levels bk' ! free_level bk) = level_core (fresh_level sd p)"
    and "length (level_lookup bk') = length (level_lookup bk)"
proof -
  note d = dir_invD [OF inv]
  let ?i = "free_level bk"
  from insert_level_slot_cases [OF inv none, of ?i] room obtain t where
    ins: "insert_level_slot (level_lookup bk) (sd, p) ?i = (True, t)" and t: "level_index_ok t"
      "\<And>sd' p' w. level_maps t (sd', p') w \<longleftrightarrow> sd' = sd \<and> p' = p \<and> w = ?i \<or> level_at bk sd' p' w"
    by metis
  have i: "?i < length (levels bk)" "\<not> l_active (levels bk ! ?i)"
    using level_pool.pool_head [OF d(7) free] by simp_all
  then have na: "?i \<notin> active_levels bk" by (simp add: active_levels_def)
  define b3 where "b3 = (upd_level ?i (\<lambda>_. fresh_level sd p)
      (bk\<lparr>free_level := l_next_free (levels bk ! ?i)\<rparr>))\<lparr>level_lookup := t\<rparr>"
  have b3: "levels b3 = (levels bk)[?i := fresh_level sd p]" "side_heap sd' b3 = side_heap sd' bk"
    "side_heap_size sd' b3 = side_heap_size sd' bk" "level_lookup b3 = t"
    "free_level b3 = l_next_free (levels bk ! ?i)" for sd'
    by (simp_all add: b3_def)
  define bk' where "bk' = ladder_push sd ?i b3"
  have acq: "acquire_level sd p bk = (?i, bk')"
    using none free ins by (simp add: acquire_level_def Let_def bk'_def b3_def)
  have mem3: "ladder_members sd' b3 = ladder_members sd' bk" for sd'
    by (simp add: ladder_members_def b3)
  have nm: "?i \<notin> ladder_members sd' bk" for sd'
    using d(6) na by blast
  have lad3: "ladder_ok sd' b3" for sd'
  proof (rule ladder_ok_cong [OF d(5) b3(2,3)])
    fix j assume "j \<in> ladder_members sd' bk"
    then have "j \<noteq> ?i" using nm by blast
    then show "l_heap_pos (levels b3 ! j) = l_heap_pos (levels bk ! j)
      \<and> l_price (levels b3 ! j) = l_price (levels bk ! j)" by (simp add: b3)
  qed (simp add: b3)
  have "card (ladder_members sd bk) < length (levels bk)"
    using d(6) [of sd] na i(1) active_level_less
      psubset_card_mono [of "{..<length (levels bk)}" "ladder_members sd bk"] by fastforce
  then have "side_heap_size sd b3 < length (side_heap sd b3)"
    using ladder_members_card [OF d(5)] d(2) by (simp add: b3)
  note push = ladder_push_ok [OF lad3 _ _ this, of ?i, folded bk'_def]
  have i3: "?i < length (levels b3)" "?i \<notin> ladder_members sd b3"
    using i nm mem3 by (simp_all add: b3)
  note push = push [OF i3]
  have po: "positions_only (insert ?i (ladder_members sd b3)) (levels b3) (levels bk')"
    by (rule push(3))
  have lenb: "length (levels bk') = length (levels bk)"
    using positions_only_fields(9) [OF po] by (simp add: b3)
  have act: "active_levels bk' = insert ?i (active_levels bk)"
    using positions_only_fields(3,9) [OF po] i by (auto simp: active_levels_def b3 nth_list_update)
  have core: "level_core (levels bk' ! j) = level_core (levels bk ! j)" if "j \<noteq> ?i" for j
    using positions_only_core [OF po, of j] that by (simp add: b3)
  have corei: "level_core (levels bk' ! ?i) = level_core (fresh_level sd p)"
    using positions_only_core [OF po, of ?i] i by (simp add: b3)
  have at: "level_at bk' sd' p' j \<longleftrightarrow> sd' = sd \<and> p' = p \<and> j = ?i \<or> level_at bk sd' p' j" for sd' p' j
    using act core [of j] na level_core_fields(1,2) [OF corei] level_core_fields(1,2) [of "levels bk' ! j" "levels bk ! j"]
    by (cases "j = ?i") (auto simp: level_at_def)
  have lad: "ladder_ok sd' bk' \<and> ladder_members sd' bk' = {j \<in> active_levels bk'. l_side (levels bk' ! j) = sd'}" for sd'
  proof -
    have sides: "l_side (levels bk' ! j) = (if j = ?i then sd else l_side (levels bk ! j))" for j
      using level_core_fields(2) [OF core] level_core_fields(2) [OF corei] by auto
    show ?thesis
    proof (cases "sd' = sd")
      case True
      with push(1,2) mem3 d(6) act sides na show ?thesis by auto
    next
      case False
      have "insert ?i (ladder_members sd b3) \<inter> ladder_members sd' b3 = {}"
        using d(6) [of sd] d(6) [of sd'] nm [of sd'] False by (simp add: mem3) blast
      moreover have "side_heap sd' bk' = side_heap sd' b3" "side_heap_size sd' bk' = side_heap_size sd' b3"
        using False by (simp_all add: bk'_def)
      ultimately have "ladder_ok sd' bk'" "ladder_members sd' bk' = ladder_members sd' bk"
        using ladder_other_side [OF lad3 False po] mem3 by auto
      moreover have "{j \<in> insert ?i (active_levels bk). l_side (levels bk' ! j) = sd'}
          = {j \<in> active_levels bk. l_side (levels bk ! j) = sd'}"
        using sides False na by auto
      ultimately show ?thesis using d(6) act by simp
    qed
  qed
  have "pool_ok l_next_free l_active (levels b3) (free_level b3)"
    using level_pool.pool_take [OF d(7) free, of "fresh_level sd p"] by (simp add: b3)
  then have "pool_ok l_next_free l_active (levels bk') (free_level bk')"
    unfolding bk'_def ladder_update_frame
    by (rule level_pool.pool_cong) (rule positions_only_fields [OF po [unfolded bk'_def]])+
  moreover have "length (side_heap sd' bk') = length (levels bk')" for sd'
    using push(4) d(2) lenb by (cases "sd' = sd") (simp_all add: b3 bk'_def)
  ultimately have "dir_inv bk'"
    unfolding dir_inv_def using d(1) lenb t at lad by (simp add: bk'_def b3)
  moreover have "length t = length (level_lookup bk)"
    using length_index_ops(3) [of "level_lookup bk" "(sd, p)" ?i] ins by simp
  ultimately show ?thesis
    using that [OF acq _ act na lenb core corei] by (simp add: bk'_def b3)
qed

text \<open>When the index refuses the key, the free slot is put back; only its stale content differs.\<close>

lemma acquire_level_refused:
  assumes inv: "dir_inv bk" and none: "find_level_index sd p bk = npos"
    and free: "free_level bk \<noteq> npos" and full: "\<not> level_room (level_lookup bk)"
  obtains bk' where "acquire_level sd p bk = (npos, bk')" and "dir_inv bk'"
    and "active_levels bk' = active_levels bk" and "length (levels bk') = length (levels bk)"
    and "\<And>j. j \<in> active_levels bk \<Longrightarrow> levels bk' ! j = levels bk ! j"
    and "level_lookup bk' = level_lookup bk" and "free_level bk' = free_level bk"
    and "\<And>sd. side_heap sd bk' = side_heap sd bk"
    and "\<And>sd. side_heap_size sd bk' = side_heap_size sd bk"
proof -
  note d = dir_invD [OF inv]
  let ?i = "free_level bk" and ?f = "l_next_free (levels bk ! free_level bk)"
  from insert_level_slot_cases [OF inv none, of ?i] full
  have ins: "insert_level_slot (level_lookup bk) (sd, p) ?i = (False, level_lookup bk)" by metis
  have i: "?i < length (levels bk)" "\<not> l_active (levels bk ! ?i)"
    using level_pool.pool_head [OF d(7) free] by simp_all
  define bk' where "bk' = (upd_level ?i (release_level_entry ?f) (upd_level ?i (\<lambda>_. fresh_level sd p)
      (bk\<lparr>free_level := ?f\<rparr>)))\<lparr>free_level := ?i\<rparr>"
  have acq: "acquire_level sd p bk = (npos, bk')"
    using none free ins by (simp add: acquire_level_def Let_def bk'_def)
  have lv: "levels bk' = (levels bk)[?i := release_level_entry ?f (fresh_level sd p)]"
    using i by (simp add: bk'_def)
  have other: "levels bk' ! j = levels bk ! j" if "j \<noteq> ?i" for j
    using that by (simp add: lv)
  have same: "levels bk' ! j = levels bk ! j" if "j \<in> active_levels bk" for j
    using that i by (intro other) (auto simp: active_levels_def)
  have "pool_ok l_next_free l_active ((levels bk)[?i := fresh_level sd p]) ?f"
    by (rule level_pool.pool_take [OF d(7) free]) simp
  from level_pool.pool_give [OF this, of ?i "fresh_level sd p"] i
  have pool: "pool_ok l_next_free l_active (levels bk') (free_level bk')"
    by (simp add: lv bk'_def)
  have act: "l_active (levels bk' ! j) = l_active (levels bk ! j)" if "j < length (levels bk)" for j
    using i that by (cases "j = ?i") (simp_all add: lv release_level_entry_def)
  have rest: "length (levels bk') = length (levels bk)" "level_lookup bk' = level_lookup bk"
    "side_heap sd bk' = side_heap sd bk" "side_heap_size sd bk' = side_heap_size sd bk" for sd
    by (simp_all add: bk'_def)
  have "dir_fields (levels bk' ! j) = dir_fields (levels bk ! j)" if "j \<in> active_levels bk" for j
    using same [OF that] by simp
  note res = dir_inv_cong_active [OF inv rest(1) act this rest(3,4,2) pool]
  have "free_level bk' = free_level bk" by (simp add: bk'_def)
  with acq same rest res show ?thesis
    by (intro that [of bk']) blast+
qed

section \<open>Releasing\<close>

lemma release_level_ok:
  fixes i bk
  defines "bk' \<equiv> release_level i bk"
  assumes inv: "dir_inv bk" and i: "i \<in> active_levels bk"
  shows "dir_inv bk'" and "active_levels bk' = active_levels bk - {i}"
    and "length (levels bk') = length (levels bk)"
    and "j \<noteq> i \<Longrightarrow> level_core (levels bk' ! j) = level_core (levels bk ! j)"
    and "length (level_lookup bk') = length (level_lookup bk)"
    and "level_room (level_lookup bk) \<Longrightarrow> level_room (level_lookup bk')"
    and "free_level bk' \<noteq> npos"
proof -
  note d = dir_invD [OF inv]
  let ?sd = "l_side (levels bk ! i)" and ?p = "l_price (levels bk ! i)"
  define b1 where "b1 = ladder_remove ?sd i bk"
  have mem: "i \<in> ladder_members ?sd bk" using d(6) i by simp
  note rem = ladder_remove_ok [OF d(5) mem, folded b1_def]
  note po = rem(3)
  have il: "i < length (levels bk)" "l_active (levels bk ! i)" using i by (simp_all add: active_levels_def)
  have bk': "bk' = (upd_level i (release_level_entry (free_level bk))
      (b1\<lparr>level_lookup := erase_level_slot (level_lookup bk) (?sd, ?p)\<rparr>))\<lparr>free_level := i\<rparr>"
    by (simp add: bk'_def release_level_def Let_def b1_def positions_only_fields(1,2) [OF po [unfolded b1_def]])
  have lv: "levels bk' = (levels b1)[i := release_level_entry (free_level bk) (levels b1 ! i)]"
    by (simp add: bk')
  show len: "length (levels bk') = length (levels bk)"
    using positions_only_fields(9) [OF po] by (simp add: lv)
  have core: "level_core (levels bk' ! j) = level_core (levels bk ! j)" if "j \<noteq> i" for j
    using positions_only_core [OF po, of j] that by (simp add: lv)
  then show "j \<noteq> i \<Longrightarrow> level_core (levels bk' ! j) = level_core (levels bk ! j)" .
  have dead: "\<not> l_active (levels bk' ! i)"
    using il positions_only_fields(9) [OF po] by (simp add: lv release_level_entry_def)
  show act: "active_levels bk' = active_levels bk - {i}"
  proof (rule set_eqI)
    fix j show "j \<in> active_levels bk' \<longleftrightarrow> j \<in> active_levels bk - {i}"
      using dead len level_core_fields(3) [OF core, of j] by (cases "j = i") (simp_all add: active_levels_def)
  qed
  have at: "level_at bk' sd p j \<longleftrightarrow> (sd, p) \<noteq> (?sd, ?p) \<and> level_at bk sd p j" for sd p j
  proof (cases "j = i")
    case True
    with act show ?thesis by (auto simp: level_at_def)
  next
    case False
    with level_at_unique [OF inv _ active_level_at [OF i], of j]
    have "level_at bk sd p j \<Longrightarrow> (sd, p) \<noteq> (?sd, ?p)" by auto
    moreover have "level_at bk' sd p j \<longleftrightarrow> level_at bk sd p j"
      using False act level_core_fields(1,2) [OF core [OF False]] by (simp add: level_at_def)
    ultimately show ?thesis by blast
  qed
  have heaps: "side_heap sd bk' = side_heap sd b1" "side_heap_size sd bk' = side_heap_size sd b1" for sd
    by (simp_all add: bk')
  have mems: "ladder_members sd bk' = ladder_members sd b1" for sd
    by (simp add: ladder_members_def heaps)
  have lad1: "ladder_ok sd b1 \<and> ladder_members sd b1 = ladder_members sd bk - {i}" for sd
  proof (cases "sd = ?sd")
    case True
    with rem(1,2) show ?thesis by simp
  next
    case False
    then have "ladder_members ?sd bk \<inter> ladder_members sd bk = {}" using d(6) by auto
    moreover have "side_heap sd b1 = side_heap sd bk" "side_heap_size sd b1 = side_heap_size sd bk"
      using False by (simp_all add: b1_def)
    ultimately show ?thesis
      using ladder_other_side [OF d(5) False po] mem by auto
  qed
  have lad: "ladder_ok sd bk'" for sd
  proof (rule ladder_ok_cong [of sd b1])
    fix j assume "j \<in> ladder_members sd b1"
    with lad1 have "j \<noteq> i" by blast
    then show "l_heap_pos (levels bk' ! j) = l_heap_pos (levels b1 ! j)
      \<and> l_price (levels bk' ! j) = l_price (levels b1 ! j)" by (simp add: lv)
  qed (simp_all add: lad1 heaps lv)
  have memsd: "ladder_members sd bk' = {j \<in> active_levels bk'. l_side (levels bk' ! j) = sd}" for sd
  proof -
    have "l_side (levels bk' ! j) = l_side (levels bk ! j)" if "j \<noteq> i" for j
      using level_core_fields(2) [OF core [OF that]] .
    with mems lad1 d(6) act show ?thesis by auto
  qed
  have "pool_ok l_next_free l_active (levels b1) (free_level bk)"
    by (rule level_pool.pool_cong [OF d(7)]) (rule positions_only_fields [OF po])+
  from level_pool.pool_give [OF this, of i "levels b1 ! i"] il positions_only_fields(3) [OF po, of i]
    positions_only_fields(9) [OF po]
  have pool: "pool_ok l_next_free l_active (levels bk') (free_level bk')"
    by (simp add: lv bk')
  have "length (side_heap sd bk') = length (levels bk')" for sd
    using rem(4) d(2) len heaps by (cases "sd = ?sd") (simp_all add: b1_def)
  moreover have "level_lookup bk' = erase_level_slot (level_lookup bk) (?sd, ?p)"
    by (simp add: bk')
  ultimately show "dir_inv bk'"
    unfolding dir_inv_def
    using d(1) len lad memsd pool at d(4) level_index.del_ok [OF d(3)] level_index.del_maps [OF d(3)]
    by simp
  show "length (level_lookup bk') = length (level_lookup bk)"
    by (simp add: bk')
  show "level_room (level_lookup bk) \<Longrightarrow> level_room (level_lookup bk')"
    using level_index.del_room [OF d(3)] by (simp add: bk')
  show "free_level bk' \<noteq> npos" using il d(1) by (simp add: bk')
qed

text \<open>What the two operations leave alone.\<close>

lemma release_level_frame [frame_simps, simp]:
  "orders (release_level i bk) = orders bk"
  "order_lookup (release_level i bk) = order_lookup bk"
  "free_order (release_level i bk) = free_order bk"
  "active_orders (release_level i bk) = active_orders bk"
  "next_priority (release_level i bk) = next_priority bk"
  "fill_sequence (release_level i bk) = fill_sequence bk"
  by (simp_all add: release_level_def Let_def)

lemma acquire_level_frame [frame_simps, simp]:
  "orders (snd (acquire_level sd p bk)) = orders bk"
  "order_lookup (snd (acquire_level sd p bk)) = order_lookup bk"
  "free_order (snd (acquire_level sd p bk)) = free_order bk"
  "active_orders (snd (acquire_level sd p bk)) = active_orders bk"
  "next_priority (snd (acquire_level sd p bk)) = next_priority bk"
  "fill_sequence (snd (acquire_level sd p bk)) = fill_sequence bk"
  by (simp_all add: acquire_level_def Let_def split: prod.split bool.split)

end
