(* ===== verification/Queues.thy ===== *)
theory Queues
  imports Levels
begin

text \<open>
  The intrusive FIFO lists of \<^verbatim>\<open>OrderBook.cpp\<close>: every active level heads a doubly linked list of
  order slots in arrival order. \<^verbatim>\<open>queue_ok\<close> says that a level's members describe one given list;
  \<^verbatim>\<open>link_tail\<close> appends to it and \<^verbatim>\<open>unlink\<close> removes from it, giving the level back when it
  becomes empty.
\<close>

section \<open>The code\<close>

definition link_tail :: "nat \<Rightarrow> nat \<Rightarrow> order_book \<Rightarrow> order_book" where
  "link_tail oi li bk =
     (let tail = l_tail (levels bk ! li);
          bk1 = upd_order oi (\<lambda>r. r\<lparr>o_prev := tail, o_next := npos\<rparr>) bk;
          bk2 = (if tail \<noteq> npos then upd_order tail (o_next_update (\<lambda>_. oi)) bk1
                 else upd_level li (l_head_update (\<lambda>_. oi)) bk1);
          bk3 = upd_level li (l_tail_update (\<lambda>_. oi)) bk2
      in upd_level li (\<lambda>l. l\<lparr>l_total_quantity := l_total_quantity l + o_quantity (orders bk3 ! oi),
                             l_order_count := l_order_count l + 1\<rparr>) bk3)"

text \<open>\<^verbatim>\<open>unlink\<close> up to its last line, which gives an emptied level back.\<close>

definition detach :: "nat \<Rightarrow> order_book \<Rightarrow> order_book" where
  "detach oi bk =
     (let li = o_level (orders bk ! oi);
          prv = o_prev (orders bk ! oi);
          nxt = o_next (orders bk ! oi);
          bk1 = (if prv \<noteq> npos then upd_order prv (o_next_update (\<lambda>_. nxt)) bk
                 else upd_level li (l_head_update (\<lambda>_. nxt)) bk);
          bk2 = (if nxt \<noteq> npos then upd_order nxt (o_prev_update (\<lambda>_. prv)) bk1
                 else upd_level li (l_tail_update (\<lambda>_. prv)) bk1);
          bk3 = upd_level li (\<lambda>l. l\<lparr>l_total_quantity := l_total_quantity l - o_quantity (orders bk2 ! oi),
                                    l_order_count := l_order_count l - 1\<rparr>) bk2
      in upd_order oi (\<lambda>r. r\<lparr>o_prev := npos, o_next := npos\<rparr>) bk3)"

definition unlink :: "nat \<Rightarrow> order_book \<Rightarrow> order_book" where
  "unlink oi bk =
     (let bk' = detach oi bk;
          li = o_level (orders bk' ! oi)
      in if l_order_count (levels bk' ! li) = 0 then release_level li bk' else bk')"

section \<open>Doubly linked segments\<close>

lemma nth_update_notin: "i \<in> set ys \<Longrightarrow> y \<notin> set ys \<Longrightarrow> os[y := r] ! i = os ! i"
  by (rule nth_list_update_neq) blast

text \<open>
  \<^verbatim>\<open>seg os p xs n\<close>: the slots \<^verbatim>\<open>xs\<close> are linked in this order, the first one's \<^verbatim>\<open>prev\<close> is \<^verbatim>\<open>p\<close> and
  the last one's \<^verbatim>\<open>next\<close> is \<^verbatim>\<open>n\<close>.
\<close>

fun seg :: "order list \<Rightarrow> nat \<Rightarrow> nat list \<Rightarrow> nat \<Rightarrow> bool" where
  "seg os p [] n \<longleftrightarrow> True"
| "seg os p (x # xs) n \<longleftrightarrow>
     o_prev (os ! x) = p \<and> o_next (os ! x) = first_or xs n \<and> seg os x xs n"

lemma seg_append:
  "seg os p (xs @ ys) n \<longleftrightarrow> seg os p xs (first_or ys n) \<and> seg os (last_or p xs) ys n"
  by (induction xs arbitrary: p) auto

lemma seg_cong:
  "(\<And>i. i \<in> set xs \<Longrightarrow> o_prev (os' ! i) = o_prev (os ! i) \<and> o_next (os' ! i) = o_next (os ! i)) \<Longrightarrow>
   seg os' p xs n = seg os p xs n"
  by (induction xs arbitrary: p) auto

text \<open>Re-pointing the last \<^verbatim>\<open>next\<close> or the first \<^verbatim>\<open>prev\<close> of a segment.\<close>

lemma seg_set_next:
  assumes "seg os p xs n" "xs \<noteq> []" "distinct xs" "\<forall>i\<in>set xs. i < length os"
  shows "seg (os[last xs := (os ! last xs)\<lparr>o_next := m\<rparr>]) p xs m"
proof -
  from assms(2) obtain ys y where xs: "xs = ys @ [y]" by (cases xs rule: rev_cases) auto
  let ?os = "os[y := (os ! y)\<lparr>o_next := m\<rparr>]"
  have "seg ?os p ys y = seg os p ys y"
    using assms(3) xs by (intro seg_cong) (simp add: nth_update_notin)
  then show ?thesis
    using assms xs by (simp add: seg_append)
qed

lemma seg_set_prev:
  assumes "seg os p xs n" "xs \<noteq> []" "distinct xs" "\<forall>i\<in>set xs. i < length os"
  shows "seg (os[hd xs := (os ! hd xs)\<lparr>o_prev := q\<rparr>]) q xs n"
proof -
  from assms(2) obtain y ys where xs: "xs = y # ys" by (cases xs) auto
  let ?os = "os[y := (os ! y)\<lparr>o_prev := q\<rparr>]"
  have "seg ?os y ys n = seg os y ys n"
    using assms(3) xs by (intro seg_cong) (simp add: nth_update_notin)
  then show ?thesis
    using assms xs by simp
qed

section \<open>Queues\<close>

definition queue_entry :: "order list \<Rightarrow> level \<Rightarrow> nat \<Rightarrow> nat \<Rightarrow> bool" where
  "queue_entry os lvl li i \<longleftrightarrow> i < length os \<and> o_active (os ! i) \<and> o_level (os ! i) = li
     \<and> o_side (os ! i) = l_side lvl \<and> o_price (os ! i) = l_price lvl \<and> o_quantity (os ! i) \<noteq> 0"

definition queue_ok :: "order list \<Rightarrow> level \<Rightarrow> nat \<Rightarrow> nat list \<Rightarrow> bool" where
  "queue_ok os lvl li xs \<longleftrightarrow> distinct xs \<and> (\<forall>i\<in>set xs. queue_entry os lvl li i)
     \<and> seg os npos xs npos \<and> l_head lvl = first_or xs npos \<and> l_tail lvl = last_or npos xs
     \<and> l_total_quantity lvl = sum_list (map (\<lambda>i. o_quantity (os ! i)) xs)
     \<and> l_order_count lvl = of_nat (length xs)"

lemma queue_okD:
  assumes "queue_ok os lvl li xs"
  shows "distinct xs" "i \<in> set xs \<Longrightarrow> queue_entry os lvl li i" "seg os npos xs npos"
    "l_head lvl = first_or xs npos" "l_tail lvl = last_or npos xs"
    "l_total_quantity lvl = sum_list (map (\<lambda>i. o_quantity (os ! i)) xs)"
    "l_order_count lvl = of_nat (length xs)"
  using assms unfolding queue_ok_def by blast+

lemma queue_entry_less: "queue_entry os lvl li i \<Longrightarrow> i < length os"
  by (simp add: queue_entry_def)

lemma queue_ok_cong:
  assumes "queue_ok os lvl li xs" and "length os' = length os"
    and "\<And>i. i \<in> set xs \<Longrightarrow> os' ! i = os ! i" and "level_core lvl' = level_core lvl"
  shows "queue_ok os' lvl' li xs"
proof -
  note q = queue_okD [OF assms(1)] and c = level_core_fields [OF assms(4)]
  have "seg os' npos xs npos = seg os npos xs npos"
    using assms(3) by (intro seg_cong) simp
  moreover have "map (\<lambda>i. o_quantity (os' ! i)) xs = map (\<lambda>i. o_quantity (os ! i)) xs"
    using assms(3) by simp
  moreover have "queue_entry os' lvl' li i" if "i \<in> set xs" for i
    using q(2) [OF that] assms(2) assms(3) [OF that] c by (simp add: queue_entry_def)
  ultimately show ?thesis
    using q c unfolding queue_ok_def by metis
qed

text \<open>Only links changed: every other member of every order slot is the same.\<close>

definition order_core :: "order \<Rightarrow> order" where
  "order_core r = r\<lparr>o_prev := 0, o_next := 0\<rparr>"

definition links_only :: "order list \<Rightarrow> order list \<Rightarrow> bool" where
  "links_only os os' \<longleftrightarrow> length os' = length os \<and> (\<forall>i. order_core (os' ! i) = order_core (os ! i))"

lemma order_core_fields:
  assumes "order_core x = order_core y"
  shows "o_id x = o_id y" "o_price x = o_price y" "o_quantity x = o_quantity y"
    "o_priority x = o_priority y" "o_level x = o_level y" "o_next_free x = o_next_free y"
    "o_side x = o_side y" "o_active x = o_active y"
  using assms by (cases x; cases y; simp add: order_core_def)+

lemma links_only_fields:
  assumes "links_only os os'"
  shows "o_id (os' ! i) = o_id (os ! i)" "o_price (os' ! i) = o_price (os ! i)"
    "o_quantity (os' ! i) = o_quantity (os ! i)" "o_priority (os' ! i) = o_priority (os ! i)"
    "o_level (os' ! i) = o_level (os ! i)" "o_next_free (os' ! i) = o_next_free (os ! i)"
    "o_side (os' ! i) = o_side (os ! i)" "o_active (os' ! i) = o_active (os ! i)"
    "length os' = length os"
  using assms order_core_fields [of "os' ! i" "os ! i"] unfolding links_only_def by blast+

lemma links_only_refl: "links_only os os"
  by (simp add: links_only_def)

lemma links_only_trans: "links_only os os' \<Longrightarrow> links_only os' os'' \<Longrightarrow> links_only os os''"
  by (simp add: links_only_def)

lemma links_only_update: "order_core r = order_core (os ! i) \<Longrightarrow> links_only os (os[i := r])"
  by (cases "i < length os") (auto simp: links_only_def nth_list_update list_update_beyond)

lemma links_only_entry:
  "links_only os os' \<Longrightarrow> l_side lvl' = l_side lvl \<Longrightarrow> l_price lvl' = l_price lvl \<Longrightarrow>
   queue_entry os' lvl' li i = queue_entry os lvl li i"
  by (simp add: queue_entry_def links_only_fields)

lemma links_only_quantities:
  "links_only os os' \<Longrightarrow> map (\<lambda>i. o_quantity (os' ! i)) xs = map (\<lambda>i. o_quantity (os ! i)) xs"
  by (simp add: links_only_fields)

text \<open>Appending to and removing from one queue, on the pools.\<close>

lemma queue_append:
  fixes os oi lvl li xs
  defines "os1 \<equiv> os[oi := (os ! oi)\<lparr>o_prev := l_tail lvl, o_next := npos\<rparr>]"
  defines "os2 \<equiv> (if l_tail lvl \<noteq> npos then os1[l_tail lvl := (os1 ! l_tail lvl)\<lparr>o_next := oi\<rparr>] else os1)"
  assumes q: "queue_ok os lvl li xs" and oi: "oi \<notin> set xs" "queue_entry os lvl li oi"
    and len: "length os \<le> npos"
    and lvl': "l_side lvl' = l_side lvl" "l_price lvl' = l_price lvl" "l_tail lvl' = oi"
      "l_head lvl' = (if l_tail lvl \<noteq> npos then l_head lvl else oi)"
      "l_total_quantity lvl' = l_total_quantity lvl + o_quantity (os ! oi)"
      "l_order_count lvl' = l_order_count lvl + 1"
  shows "queue_ok os2 lvl' li (xs @ [oi])" and "links_only os os2"
    and "j \<notin> set (xs @ [oi]) \<Longrightarrow> os2 ! j = os ! j"
proof -
  note q' = queue_okD [OF q]
  have less: "i < length os" if "i \<in> set xs" for i
    using queue_entry_less [OF q'(2) [OF that]] .
  have oil: "oi < length os" by (rule queue_entry_less [OF oi(2)])
  have tail: "l_tail lvl = npos \<longleftrightarrow> xs = []" and tail_last: "xs \<noteq> [] \<Longrightarrow> l_tail lvl = last xs"
  proof -
    have "xs \<noteq> [] \<Longrightarrow> last xs \<noteq> npos" using less [of "last xs"] len last_in_set [of xs] by auto
    with q'(5) show "l_tail lvl = npos \<longleftrightarrow> xs = []" "xs \<noteq> [] \<Longrightarrow> l_tail lvl = last xs"
      by (auto simp: last_or_def)
  qed
  have lo1: "links_only os os1"
    unfolding os1_def by (rule links_only_update) (simp add: order_core_def)
  have "links_only os1 os2"
    unfolding os2_def by (auto simp: links_only_refl order_core_def intro: links_only_update)
  with lo1 show lo: "links_only os os2" by (rule links_only_trans)
  have seg1: "seg os1 npos xs npos"
    using q'(3) oi(1) unfolding os1_def
    by (subst seg_cong [of xs _ os]) (simp_all add: nth_update_notin)
  have seg2: "seg os2 npos (xs @ [oi]) npos"
  proof (cases "xs = []")
    case True
    with tail q'(5) oil show ?thesis by (simp add: os2_def os1_def)
  next
    case False
    then have os2: "os2 = os1[last xs := (os1 ! last xs)\<lparr>o_next := oi\<rparr>]"
      using tail tail_last by (simp add: os2_def)
    have "seg os2 npos xs oi"
      unfolding os2 using less q'(1) False
      by (intro seg_set_next [OF seg1]) (simp_all add: os1_def)
    moreover have "os2 ! oi = (os ! oi)\<lparr>o_prev := last xs, o_next := npos\<rparr>"
      using False oi(1) oil tail_last unfolding os2 by (metis last_in_set nth_list_update_eq
          nth_list_update_neq os1_def)
    ultimately show ?thesis
      using False by (simp add: seg_append last_or_def)
  qed
  have "l_head lvl' = first_or (xs @ [oi]) npos"
    using lvl'(4) tail q'(4) by (cases xs) auto
  moreover have "l_total_quantity lvl' = sum_list (map (\<lambda>i. o_quantity (os2 ! i)) (xs @ [oi]))"
    unfolding links_only_quantities [OF lo] using lvl'(5) q'(6) by simp
  moreover have "queue_entry os2 lvl' li i" if "i \<in> set (xs @ [oi])" for i
    unfolding links_only_entry [OF lo lvl'(1,2)] using that q'(2) oi(2) by auto
  ultimately show "queue_ok os2 lvl' li (xs @ [oi])"
    using q'(1,7) oi(1) seg2 lvl'(3,6) by (simp add: queue_ok_def)
  show "os2 ! j = os ! j" if "j \<notin> set (xs @ [oi])"
  proof -
    have "xs \<noteq> [] \<Longrightarrow> j \<noteq> last xs" using that by auto
    with that tail tail_last show ?thesis by (auto simp: os2_def os1_def)
  qed
qed

lemma queue_remove:
  fixes os oi lvl li xs prv nxt os0
  defines "prv \<equiv> o_prev (os ! oi)" and "nxt \<equiv> o_next (os ! oi)"
  defines "os1 \<equiv> (if prv \<noteq> npos then os[prv := (os ! prv)\<lparr>o_next := nxt\<rparr>] else os)"
  defines "os2 \<equiv> (if nxt \<noteq> npos then os1[nxt := (os1 ! nxt)\<lparr>o_prev := prv\<rparr>] else os1)"
  defines "os3 \<equiv> os2[oi := (os2 ! oi)\<lparr>o_prev := npos, o_next := npos\<rparr>]"
  assumes q: "queue_ok os lvl li xs" and oi: "oi \<in> set xs" and len: "length os \<le> npos"
    and lvl': "l_side lvl' = l_side lvl" "l_price lvl' = l_price lvl"
      "l_head lvl' = (if prv \<noteq> npos then l_head lvl else nxt)"
      "l_tail lvl' = (if nxt \<noteq> npos then l_tail lvl else prv)"
      "l_total_quantity lvl' = l_total_quantity lvl - o_quantity (os ! oi)"
      "l_order_count lvl' = l_order_count lvl - 1"
  shows "queue_ok os3 lvl' li (remove1 oi xs)" and "links_only os os3"
    and "j \<notin> set xs \<Longrightarrow> os3 ! j = os ! j"
proof -
  note q' = queue_okD [OF q]
  have less: "i < length os" if "i \<in> set xs" for i
    using queue_entry_less [OF q'(2) [OF that]] .
  have real: "i \<noteq> npos" if "i \<in> set xs" for i
    using less [OF that] len by simp
  from oi obtain as bs where xs: "xs = as @ oi # bs" by (meson split_list)
  with q'(1) have dist: "distinct as" "distinct bs" "oi \<notin> set as" "oi \<notin> set bs" "set as \<inter> set bs = {}"
    by auto
  have rem: "remove1 oi xs = as @ bs" using dist by (simp add: xs remove1_append)
  have segs: "seg os npos as oi" "prv = last_or npos as" "nxt = first_or bs npos" "seg os oi bs npos"
    using q'(3) by (simp_all add: xs seg_append prv_def nxt_def)
  have prv: "prv = npos \<longleftrightarrow> as = []" "as \<noteq> [] \<Longrightarrow> prv = last as"
    using segs(2) real [of "last as"] by (auto simp: last_or_def xs)
  have nxt: "nxt = npos \<longleftrightarrow> bs = []" "bs \<noteq> [] \<Longrightarrow> nxt = hd bs"
    using segs(3) real [of "hd bs"] by (cases bs; auto simp: xs)+
  have lo: "links_only os os1" "links_only os1 os2" "links_only os2 os3"
    unfolding os1_def os2_def os3_def
    by (auto simp: links_only_refl order_core_def intro!: links_only_update)
  then show lo3: "links_only os os3" by (blast intro: links_only_trans)
  have as1: "seg os1 npos as nxt"
  proof (cases "as = []")
    case False
    with prv have "os1 = os[last as := (os ! last as)\<lparr>o_next := nxt\<rparr>]" by (simp add: os1_def)
    with seg_set_next [OF segs(1) False dist(1)] less xs show ?thesis by simp
  qed simp
  have bs1: "seg os1 oi bs npos"
  proof -
    have "os1 ! i = os ! i" if "i \<in> set bs" for i
    proof -
      have "as \<noteq> [] \<Longrightarrow> last as \<noteq> i" using that dist(5) last_in_set by blast
      with prv show ?thesis by (auto simp: os1_def)
    qed
    with segs(4) seg_cong [of bs os1 os] show ?thesis by simp
  qed
  have as2: "seg os2 npos as nxt"
  proof -
    have "os2 ! i = os1 ! i" if "i \<in> set as" for i
    proof -
      have "bs \<noteq> [] \<Longrightarrow> hd bs \<noteq> i" using that dist(5) hd_in_set by blast
      with nxt show ?thesis by (auto simp: os2_def)
    qed
    with as1 seg_cong [of as os2 os1] show ?thesis by simp
  qed
  have bs2: "seg os2 prv bs npos"
  proof (cases "bs = []")
    case False
    with nxt have "os2 = os1[hd bs := (os1 ! hd bs)\<lparr>o_prev := prv\<rparr>]" by (simp add: os2_def)
    with seg_set_prev [OF bs1 False dist(2)] less xs links_only_fields(9) [OF lo(1)] show ?thesis by simp
  qed simp
  have "seg os3 npos as nxt" "seg os3 prv bs npos"
    using as2 bs2 dist seg_cong [of as os3 os2] seg_cong [of bs os3 os2]
    by (simp_all add: os3_def nth_update_notin)
  then have seg3: "seg os3 npos (as @ bs) npos"
    using segs(2,3) by (simp add: seg_append)
  have "l_head lvl' = first_or (as @ bs) npos" "l_tail lvl' = last_or npos (as @ bs)"
    using lvl'(3,4) q'(4,5) prv nxt segs(2,3) by (cases as; cases bs rule: rev_cases; simp add: xs)+
  moreover have "l_total_quantity lvl' = sum_list (map (\<lambda>i. o_quantity (os3 ! i)) (as @ bs))"
    unfolding links_only_quantities [OF lo3] using lvl'(5) q'(6) by (simp add: xs)
  moreover have "queue_entry os3 lvl' li i" if "i \<in> set (as @ bs)" for i
    unfolding links_only_entry [OF lo3 lvl'(1,2)] using that q'(2) xs by auto
  ultimately show "queue_ok os3 lvl' li (remove1 oi xs)"
    using q'(7) dist seg3 lvl'(6) unfolding rem by (simp add: queue_ok_def, simp add: xs)
  show "os3 ! j = os ! j" if "j \<notin> set xs"
  proof -
    have "as \<noteq> [] \<Longrightarrow> j \<noteq> last as" "bs \<noteq> [] \<Longrightarrow> j \<noteq> hd bs" "j \<noteq> oi"
      using that xs by auto
    with prv nxt show ?thesis by (auto simp: os3_def os2_def os1_def)
  qed
qed

section \<open>The queues of a book\<close>

text \<open>
  \<^verbatim>\<open>Q\<close> maps level slots to their queues. \<^verbatim>\<open>queues_inv bk Q\<close>: every active level's members describe
  its queue; \<^verbatim>\<open>linked bk Q\<close> collects the order slots in some queue.
\<close>

definition queues_inv :: "order_book \<Rightarrow> (nat \<Rightarrow> nat list) \<Rightarrow> bool" where
  "queues_inv bk Q \<longleftrightarrow> length (orders bk) \<le> npos
     \<and> (\<forall>li\<in>active_levels bk. queue_ok (orders bk) (levels bk ! li) li (Q li))"

definition linked :: "order_book \<Rightarrow> (nat \<Rightarrow> nat list) \<Rightarrow> nat set" where
  "linked bk Q = (\<Union>li\<in>active_levels bk. set (Q li))"

lemma queues_invD:
  assumes "queues_inv bk Q"
  shows "length (orders bk) \<le> npos"
    and "li \<in> active_levels bk \<Longrightarrow> queue_ok (orders bk) (levels bk ! li) li (Q li)"
  using assms unfolding queues_inv_def by blast+

lemma linked_entry:
  assumes "queues_inv bk Q" and "oi \<in> linked bk Q"
  shows "o_level (orders bk ! oi) \<in> active_levels bk"
    and "oi \<in> set (Q (o_level (orders bk ! oi)))"
    and "queue_entry (orders bk) (levels bk ! o_level (orders bk ! oi)) (o_level (orders bk ! oi)) oi"
proof -
  from assms(2) obtain li where li: "li \<in> active_levels bk" "oi \<in> set (Q li)"
    by (auto simp: linked_def)
  then have "queue_entry (orders bk) (levels bk ! li) li oi"
    using queue_okD(2) [OF queues_invD(2) [OF assms(1)]] by blast
  moreover from this have "o_level (orders bk ! oi) = li" by (simp add: queue_entry_def)
  ultimately show "o_level (orders bk ! oi) \<in> active_levels bk"
    "oi \<in> set (Q (o_level (orders bk ! oi)))"
    "queue_entry (orders bk) (levels bk ! o_level (orders bk ! oi)) (o_level (orders bk ! oi)) oi"
    using li by simp_all
qed

text \<open>A queue of one level is unaffected by what happens to slots of another level.\<close>

lemma queues_inv_update:
  assumes inv: "queues_inv bk Q" and li: "li \<in> active_levels bk"
    and new: "queue_ok (orders bk') (levels bk' ! li) li xs"
    and len: "length (orders bk') = length (orders bk)"
    and act: "active_levels bk' = active_levels bk"
    and others: "\<And>j. j \<noteq> li \<Longrightarrow> level_core (levels bk' ! j) = level_core (levels bk ! j)"
    and slots: "\<And>i lj. lj \<in> active_levels bk \<Longrightarrow> lj \<noteq> li \<Longrightarrow> i \<in> set (Q lj) \<Longrightarrow> orders bk' ! i = orders bk ! i"
  shows "queues_inv bk' (Q(li := xs))"
  unfolding queues_inv_def
proof (intro conjI ballI)
  show "length (orders bk') \<le> npos" using queues_invD(1) [OF inv] len by simp
  fix lj assume "lj \<in> active_levels bk'"
  then have lj: "lj \<in> active_levels bk" by (simp add: act)
  show "queue_ok (orders bk') (levels bk' ! lj) lj ((Q(li := xs)) lj)"
  proof (cases "lj = li")
    case True
    with new show ?thesis by simp
  next
    case False
    with queue_ok_cong [OF queues_invD(2) [OF inv lj] len slots [OF lj False] others [OF False]]
    show ?thesis by simp
  qed
qed

lemma other_queue_disjoint:
  assumes "queues_inv bk Q" and "li \<in> active_levels bk" "lj \<in> active_levels bk" "lj \<noteq> li"
    and "i \<in> set (Q lj)"
  shows "i \<notin> set (Q li)"
  using queue_okD(2) [OF queues_invD(2) [OF assms(1)]] assms(2-5) unfolding queue_entry_def by metis

lemma link_tail_frame [frame_simps, simp]:
  "order_lookup (link_tail oi li bk) = order_lookup bk"
  "level_lookup (link_tail oi li bk) = level_lookup bk"
  "side_heap sd (link_tail oi li bk) = side_heap sd bk"
  "side_heap_size sd (link_tail oi li bk) = side_heap_size sd bk"
  "free_order (link_tail oi li bk) = free_order bk"
  "free_level (link_tail oi li bk) = free_level bk"
  "active_orders (link_tail oi li bk) = active_orders bk"
  "next_priority (link_tail oi li bk) = next_priority bk"
  "fill_sequence (link_tail oi li bk) = fill_sequence bk"
  "length (levels (link_tail oi li bk)) = length (levels bk)"
  "length (orders (link_tail oi li bk)) = length (orders bk)"
  by (simp_all add: link_tail_def Let_def)

lemma detach_frame [frame_simps, simp]:
  "order_lookup (detach oi bk) = order_lookup bk"
  "level_lookup (detach oi bk) = level_lookup bk"
  "side_heap sd (detach oi bk) = side_heap sd bk"
  "side_heap_size sd (detach oi bk) = side_heap_size sd bk"
  "free_order (detach oi bk) = free_order bk"
  "free_level (detach oi bk) = free_level bk"
  "active_orders (detach oi bk) = active_orders bk"
  "next_priority (detach oi bk) = next_priority bk"
  "fill_sequence (detach oi bk) = fill_sequence bk"
  "length (levels (detach oi bk)) = length (levels bk)"
  "length (orders (detach oi bk)) = length (orders bk)"
  by (simp_all add: detach_def Let_def)

text \<open>What the two operations make of the pools.\<close>

lemma link_tail_levels:
  assumes "li < length (levels bk)"
  shows "levels (link_tail oi li bk) = (levels bk)[li :=
      (let l = levels bk ! li in l\<lparr>l_head := (if l_tail l \<noteq> npos then l_head l else oi), l_tail := oi,
         l_total_quantity := l_total_quantity l + o_quantity (orders (link_tail oi li bk) ! oi),
         l_order_count := l_order_count l + 1\<rparr>)]"
  using assms by (simp add: link_tail_def Let_def)

lemma link_tail_orders:
  "orders (link_tail oi li bk) =
     (let t = l_tail (levels bk ! li);
          os1 = (orders bk)[oi := (orders bk ! oi)\<lparr>o_prev := t, o_next := npos\<rparr>]
      in if t \<noteq> npos then os1[t := (os1 ! t)\<lparr>o_next := oi\<rparr>] else os1)"
  by (simp add: link_tail_def Let_def)

lemma detach_orders:
  "orders (detach oi bk) =
     (let os = orders bk; prv = o_prev (os ! oi); nxt = o_next (os ! oi);
          os1 = (if prv \<noteq> npos then os[prv := (os ! prv)\<lparr>o_next := nxt\<rparr>] else os);
          os2 = (if nxt \<noteq> npos then os1[nxt := (os1 ! nxt)\<lparr>o_prev := prv\<rparr>] else os1)
      in os2[oi := (os2 ! oi)\<lparr>o_prev := npos, o_next := npos\<rparr>])"
  by (simp add: detach_def Let_def)

lemma detach_levels:
  fixes oi bk
  defines "li \<equiv> o_level (orders bk ! oi)" and "prv \<equiv> o_prev (orders bk ! oi)"
    and "nxt \<equiv> o_next (orders bk ! oi)"
  assumes "li < length (levels bk)"
  shows "levels (detach oi bk) = (levels bk)[li :=
      (let l = levels bk ! li in l\<lparr>l_head := (if prv \<noteq> npos then l_head l else nxt),
         l_tail := (if nxt \<noteq> npos then l_tail l else prv),
         l_total_quantity := l_total_quantity l - o_quantity (orders (detach oi bk) ! oi),
         l_order_count := l_order_count l - 1\<rparr>)]"
  using assms(4) unfolding li_def prv_def nxt_def
  by (cases "oi < length (orders bk)") (simp_all add: detach_def Let_def nth_list_update list_update_beyond)

section \<open>Linking, detaching and unlinking\<close>

lemma linked_update:
  "li \<in> active_levels bk \<Longrightarrow> active_levels bk' = active_levels bk \<Longrightarrow>
   linked bk' (Q(li := xs)) = (\<Union>lj\<in>active_levels bk - {li}. set (Q lj)) \<union> set xs"
  by (auto simp: linked_def split: if_splits)

lemma link_tail_ok:
  fixes oi li bk Q
  defines "bk' \<equiv> link_tail oi li bk" and "Q' \<equiv> Q(li := Q li @ [oi])"
  assumes dir: "dir_inv bk" and inv: "queues_inv bk Q" and li: "li \<in> active_levels bk"
    and new: "oi \<notin> linked bk Q" and entry: "queue_entry (orders bk) (levels bk ! li) li oi"
  shows "dir_inv bk'" and "active_levels bk' = active_levels bk" and "queues_inv bk' Q'"
    and "links_only (orders bk) (orders bk')" and "linked bk' Q' = insert oi (linked bk Q)"
    and "j \<noteq> li \<Longrightarrow> levels bk' ! j = levels bk ! j"
    and "l_side (levels bk' ! j) = l_side (levels bk ! j)"
    and "l_price (levels bk' ! j) = l_price (levels bk ! j)"
proof -
  note q = queues_invD(2) [OF inv li]
  have lil: "li < length (levels bk)" using li by (rule active_level_less)
  have notin: "oi \<notin> set (Q li)" using new li by (auto simp: linked_def)
  note lv = link_tail_levels [OF lil, of oi, folded bk'_def]
  have dirf: "dir_fields (levels bk' ! j) = dir_fields (levels bk ! j)" if "j < length (levels bk)" for j
    using that by (cases "j = li") (simp_all add: lv dir_fields_def Let_def)
  have d: "dir_inv bk'" "active_levels bk' = active_levels bk"
    by (rule dir_inv_cong [OF dir _ dirf]; simp add: bk'_def)+
  then show "dir_inv bk'" "active_levels bk' = active_levels bk" by simp_all
  have app: "queue_ok (orders bk') (levels bk' ! li) li (Q li @ [oi])
      \<and> links_only (orders bk) (orders bk') \<and> (\<forall>i. i \<notin> set (Q li @ [oi]) \<longrightarrow> orders bk' ! i = orders bk ! i)"
  proof -
    let ?l = "levels bk ! li"
    let ?l' = "?l\<lparr>l_head := (if l_tail ?l \<noteq> npos then l_head ?l else oi), l_tail := oi,
         l_total_quantity := l_total_quantity ?l + o_quantity (orders bk ! oi),
         l_order_count := l_order_count ?l + 1\<rparr>"
    have app: "queue_ok (orders bk') ?l' li (Q li @ [oi])" "links_only (orders bk) (orders bk')"
      "i \<notin> set (Q li @ [oi]) \<Longrightarrow> orders bk' ! i = orders bk ! i" for i
      using queue_append [OF q notin entry queues_invD(1) [OF inv], of ?l']
      unfolding bk'_def link_tail_orders Let_def by simp_all
    have "levels bk' ! li = ?l'"
      using lil links_only_fields(3) [OF app(2), of oi] by (simp add: lv Let_def)
    with app show ?thesis by simp
  qed
  then show lo: "links_only (orders bk) (orders bk')" by blast
  show other: "levels bk' ! j = levels bk ! j" if "j \<noteq> li" for j
    using that by (simp add: lv)
  show "queues_inv bk' Q'"
    unfolding Q'_def
  proof (rule queues_inv_update [OF inv li _ _ d(2)])
    show "length (orders bk') = length (orders bk)" by (simp add: bk'_def)
    show "queue_ok (orders bk') (levels bk' ! li) li (Q li @ [oi])" using app by blast
    show "level_core (levels bk' ! j) = level_core (levels bk ! j)" if "j \<noteq> li" for j
      using other [OF that] by simp
    fix i lj assume lj: "lj \<in> active_levels bk" "lj \<noteq> li" "i \<in> set (Q lj)"
    with new other_queue_disjoint [OF inv li lj] have "i \<notin> set (Q li @ [oi])"
      by (auto simp: linked_def)
    with app show "orders bk' ! i = orders bk ! i" by blast
  qed
  show "linked bk' Q' = insert oi (linked bk Q)"
    unfolding Q'_def using linked_update [OF li d(2)] li by (auto simp: linked_def)
  show "l_side (levels bk' ! j) = l_side (levels bk ! j)" "l_price (levels bk' ! j) = l_price (levels bk ! j)"
    using lil by (cases "j = li"; simp add: lv Let_def)+
qed

lemma detach_ok:
  fixes oi bk Q
  defines "bk' \<equiv> detach oi bk" and "li \<equiv> o_level (orders bk ! oi)"
  defines "Q' \<equiv> Q(li := remove1 oi (Q li))"
  assumes dir: "dir_inv bk" and inv: "queues_inv bk Q" and lnk: "oi \<in> linked bk Q"
  shows "dir_inv bk'" and "active_levels bk' = active_levels bk" and "queues_inv bk' Q'"
    and "links_only (orders bk) (orders bk')" and "linked bk' Q' = linked bk Q - {oi}"
    and "j \<noteq> li \<Longrightarrow> levels bk' ! j = levels bk ! j"
    and "l_side (levels bk' ! j) = l_side (levels bk ! j)"
    and "l_price (levels bk' ! j) = l_price (levels bk ! j)"
proof -
  note en = linked_entry [OF inv lnk, folded li_def]
  note li = en(1)
  note q = queues_invD(2) [OF inv li]
  have lil: "li < length (levels bk)" using li by (rule active_level_less)
  note lv = detach_levels [of bk oi, folded bk'_def li_def, OF lil]
  have dirf: "dir_fields (levels bk' ! j) = dir_fields (levels bk ! j)" if "j < length (levels bk)" for j
    using that by (cases "j = li") (simp_all add: lv dir_fields_def Let_def)
  have d: "dir_inv bk'" "active_levels bk' = active_levels bk"
    by (rule dir_inv_cong [OF dir _ dirf]; simp add: bk'_def)+
  then show "dir_inv bk'" "active_levels bk' = active_levels bk" by simp_all
  have app: "queue_ok (orders bk') (levels bk' ! li) li (remove1 oi (Q li))
      \<and> links_only (orders bk) (orders bk') \<and> (\<forall>i. i \<notin> set (Q li) \<longrightarrow> orders bk' ! i = orders bk ! i)"
  proof -
    let ?l = "levels bk ! li"
    let ?l' = "?l\<lparr>l_head := (if o_prev (orders bk ! oi) \<noteq> npos then l_head ?l else o_next (orders bk ! oi)),
         l_tail := (if o_next (orders bk ! oi) \<noteq> npos then l_tail ?l else o_prev (orders bk ! oi)),
         l_total_quantity := l_total_quantity ?l - o_quantity (orders bk ! oi),
         l_order_count := l_order_count ?l - 1\<rparr>"
    note rem = queue_remove [OF q en(2) queues_invD(1) [OF inv], of ?l']
    have rem': "queue_ok (orders bk') ?l' li (remove1 oi (Q li))" "links_only (orders bk) (orders bk')"
      "i \<notin> set (Q li) \<Longrightarrow> orders bk' ! i = orders bk ! i" for i
      using rem unfolding bk'_def detach_orders Let_def by simp_all
    have "levels bk' ! li = ?l'"
      using lil links_only_fields(3) [OF rem'(2), of oi] by (simp add: lv Let_def)
    with rem' show ?thesis by simp
  qed
  then show lo: "links_only (orders bk) (orders bk')" by blast
  show other: "levels bk' ! j = levels bk ! j" if "j \<noteq> li" for j
    using that by (simp add: lv)
  show "queues_inv bk' Q'"
    unfolding Q'_def
  proof (rule queues_inv_update [OF inv li _ _ d(2)])
    show "length (orders bk') = length (orders bk)" by (simp add: bk'_def)
    show "queue_ok (orders bk') (levels bk' ! li) li (remove1 oi (Q li))" using app by blast
    show "level_core (levels bk' ! j) = level_core (levels bk ! j)" if "j \<noteq> li" for j
      using other [OF that] by simp
    fix i lj assume lj: "lj \<in> active_levels bk" "lj \<noteq> li" "i \<in> set (Q lj)"
    from other_queue_disjoint [OF inv li lj] app show "orders bk' ! i = orders bk ! i" by blast
  qed
  have "oi \<notin> set (Q lj)" if "lj \<in> active_levels bk" "lj \<noteq> li" for lj
    using other_queue_disjoint [OF inv that(1) li] that(2) en(2) by blast
  moreover have "set (remove1 oi (Q li)) = set (Q li) - {oi}"
    by (rule set_remove1_eq) (rule queue_okD(1) [OF q])
  ultimately show "linked bk' Q' = linked bk Q - {oi}"
    unfolding Q'_def linked_update [OF li d(2)] using li by (auto simp: linked_def)
  show "l_side (levels bk' ! j) = l_side (levels bk ! j)" "l_price (levels bk' ! j) = l_price (levels bk ! j)"
    using lil by (cases "j = li"; simp add: lv Let_def)+
qed

text \<open>The order count of a level is exact, so it is zero exactly when the queue is empty.\<close>

lemma queue_length_bound:
  assumes "queue_ok os lvl li xs"
  shows "length xs \<le> length os"
proof -
  have "set xs \<subseteq> {..<length os}"
    using queue_okD(2) [OF assms] queue_entry_less by blast
  then have "card (set xs) \<le> length os"
    using card_mono [of "{..<length os}" "set xs"] by simp
  then show ?thesis
    using distinct_card [OF queue_okD(1) [OF assms]] by simp
qed

lemma queue_count_zero:
  assumes "queue_ok os lvl li xs" and "length os \<le> npos"
  shows "l_order_count lvl = 0 \<longleftrightarrow> xs = []"
proof -
  have "length xs < 2 ^ LENGTH(64)"
    using queue_length_bound [OF assms(1)] assms(2) by (simp add: npos_def)
  then have "unat (l_order_count lvl) = length xs"
    using queue_okD(7) [OF assms(1)] by (simp add: unsigned_of_nat take_bit_nat_eq_self)
  then show ?thesis by (metis length_0_conv unat_eq_zero)
qed

text \<open>
  \<^verbatim>\<open>unlink\<close>: the order leaves its queue; when that empties the queue, the level leaves the
  directory and its slot returns to the pool.
\<close>

lemma unlink_ok:
  fixes oi bk Q
  defines "bk' \<equiv> unlink oi bk" and "li \<equiv> o_level (orders bk ! oi)"
  defines "Q' \<equiv> Q(li := remove1 oi (Q li))"
  assumes dir: "dir_inv bk" and inv: "queues_inv bk Q" and lnk: "oi \<in> linked bk Q"
  shows "dir_inv bk'" and "queues_inv bk' Q'"
    and "active_levels bk' = (if Q li = [oi] then active_levels bk - {li} else active_levels bk)"
    and "links_only (orders bk) (orders bk')" and "linked bk' Q' = linked bk Q - {oi}"
    and "j \<in> active_levels bk' \<Longrightarrow> l_side (levels bk' ! j) = l_side (levels bk ! j)"
    and "j \<in> active_levels bk' \<Longrightarrow> l_price (levels bk' ! j) = l_price (levels bk ! j)"
    and "length (levels bk') = length (levels bk)"
    and "length (level_lookup bk') = length (level_lookup bk)"
    and "level_room (level_lookup bk) \<Longrightarrow> level_room (level_lookup bk')"
    and "free_level bk \<noteq> npos \<or> Q li = [oi] \<Longrightarrow> free_level bk' \<noteq> npos"
proof -
  define b where "b = detach oi bk"
  note en = linked_entry [OF inv lnk, folded li_def]
  note det = detach_ok [OF dir inv lnk, folded b_def li_def, folded Q'_def]
  note q = queues_invD(2) [OF det(3), of li]
  have lev: "o_level (orders b ! oi) = li"
    using links_only_fields(5) [OF det(4)] by (simp add: li_def)
  have lib: "li \<in> active_levels b" using en(1) det(2) by simp
  have "length (orders b) \<le> npos" using queues_invD(1) [OF inv] by (simp add: b_def)
  from queue_count_zero [OF q [OF lib] this]
  have zero: "l_order_count (levels b ! li) = 0 \<longleftrightarrow> remove1 oi (Q li) = []"
    by (simp add: Q'_def)
  have single: "remove1 oi (Q li) = [] \<longleftrightarrow> Q li = [oi]"
    using en(2) by (cases "Q li") (auto split: if_splits)
  have bk': "bk' = (if Q li = [oi] then release_level li b else b)"
    by (simp add: bk'_def unlink_def Let_def b_def [symmetric] lev zero single)
  have len: "length (levels b) = length (levels bk)" "level_lookup b = level_lookup bk"
    "free_level b = free_level bk" by (simp_all add: b_def)
  show "links_only (orders bk) (orders bk')" using det(4) by (simp add: bk')
  note rel = release_level_ok [OF det(1) lib]
  have core: "level_core (levels bk' ! j) = level_core (levels b ! j)" if "j \<noteq> li \<or> Q li \<noteq> [oi]" for j
    using rel(4) that by (auto simp: bk')
  have lij: "j \<noteq> li \<or> Q li \<noteq> [oi]" if "j \<in> active_levels bk'" for j
    using that rel(2) by (auto simp: bk' split: if_splits)
  show "dir_inv bk'" using det(1) rel(1) by (simp add: bk')
  show act: "active_levels bk' = (if Q li = [oi] then active_levels bk - {li} else active_levels bk)"
    using rel(2) det(2) by (simp add: bk')
  show "queues_inv bk' Q'"
    unfolding queues_inv_def
  proof (intro conjI ballI)
    show "length (orders bk') \<le> npos" using queues_invD(1) [OF inv] by (simp add: bk' b_def)
    fix j assume j: "j \<in> active_levels bk'"
    then have "j \<in> active_levels b" using act det(2) by (auto split: if_splits)
    from queues_invD(2) [OF det(3) this] show "queue_ok (orders bk') (levels bk' ! j) j (Q' j)"
      by (rule queue_ok_cong) (simp_all add: bk' core [OF lij [OF j], unfolded bk'])
  qed
  show "linked bk' Q' = linked bk Q - {oi}"
  proof -
    have "linked bk' Q' = linked b Q'"
      using act det(2) single by (auto simp: linked_def Q'_def split: if_splits)
    with det(5) show ?thesis by simp
  qed
  show "l_side (levels bk' ! j) = l_side (levels bk ! j)"
    "l_price (levels bk' ! j) = l_price (levels bk ! j)" if "j \<in> active_levels bk'"
    using level_core_fields(1,2) [OF core [OF lij [OF that]]] det(7,8) by simp_all
  show "length (levels bk') = length (levels bk)" "length (level_lookup bk') = length (level_lookup bk)"
    using rel(3,5) len by (simp_all add: bk')
  show "level_room (level_lookup bk')" if "level_room (level_lookup bk)"
    using rel(6) that len by (simp add: bk')
  show "free_level bk' \<noteq> npos" if "free_level bk \<noteq> npos \<or> Q li = [oi]"
    using rel(7) that len by (auto simp: bk')
qed

lemma unlink_frame [frame_simps, simp]:
  "order_lookup (unlink oi bk) = order_lookup bk"
  "free_order (unlink oi bk) = free_order bk"
  "active_orders (unlink oi bk) = active_orders bk"
  "next_priority (unlink oi bk) = next_priority bk"
  "fill_sequence (unlink oi bk) = fill_sequence bk"
  "length (orders (unlink oi bk)) = length (orders bk)"
  by (simp_all add: unlink_def Let_def)

end
