(* ===== verification/OrderBook.thy ===== *)
theory OrderBook
  imports Queues
begin

text \<open>
  The order book of \<^verbatim>\<open>OrderBook.cpp\<close> in apply mode: construction, the six event handlers and the
  dispatch of \<^verbatim>\<open>process_event\<close>. \<^verbatim>\<open>book_ok\<close> is the representation invariant of the whole object.
\<close>

section \<open>Construction\<close>

datatype book_error = InvalidArgument

definition free_chain_link :: "nat \<Rightarrow> nat \<Rightarrow> nat" where
  "free_chain_link n i = (if i + 1 < n then i + 1 else npos)"

definition new_book :: "nat \<Rightarrow> book_error + order_book" where
  "new_book max_orders =
     (if max_orders = 0 \<or> max_orders > npos then Inl InvalidArgument
      else Inr \<lparr>
        orders = map (\<lambda>i. default_order\<lparr>o_next_free := free_chain_link max_orders i\<rparr>) [0..<max_orders],
        levels = map (\<lambda>i. default_level\<lparr>l_next_free := free_chain_link max_orders i\<rparr>) [0..<max_orders],
        order_lookup = replicate (next_power_of_two (max_orders * 2)) default_order_slot,
        level_lookup = replicate (next_power_of_two (max_orders * 2)) default_level_slot,
        bid_heap = replicate max_orders 0, ask_heap = replicate max_orders 0,
        bid_heap_size = 0, ask_heap_size = 0, free_order = 0, free_level = 0,
        active_orders = 0, next_priority = 0, fill_sequence = 0\<rparr>)"

section \<open>The handlers\<close>

definition find_order_index :: "order_id \<Rightarrow> order_book \<Rightarrow> nat" where
  "find_order_index oid bk = find_order_slot (order_lookup bk) oid"

definition erase_order_lookup :: "order_id \<Rightarrow> order_book \<Rightarrow> order_book" where
  "erase_order_lookup oid bk = bk\<lparr>order_lookup := erase_order_slot (order_lookup bk) oid\<rparr>"

definition free_order_slot :: "nat \<Rightarrow> order_book \<Rightarrow> order_book" where
  "free_order_slot oi bk = (upd_order oi (release_order (free_order bk)) bk)\<lparr>free_order := oi\<rparr>"

definition fresh_order :: "order_id \<Rightarrow> side \<Rightarrow> price \<Rightarrow> quantity \<Rightarrow> u64 \<Rightarrow> nat \<Rightarrow> order" where
  "fresh_order oid sd p q prio li = default_order\<lparr>o_id := oid, o_price := p, o_quantity := q,
     o_priority := prio, o_level := li, o_side := sd, o_active := True\<rparr>"

definition rest_order ::
  "order_id \<Rightarrow> side \<Rightarrow> price \<Rightarrow> quantity \<Rightarrow> order_book \<Rightarrow> process_result \<times> order_book" where
  "rest_order oid sd p q bk =
     (if q = 0 then (InvalidQuantity, bk)
      else if find_order_index oid bk \<noteq> npos then (DuplicateOrderId, bk)
      else if free_order bk = npos then (CapacityExhausted, bk)
      else
        let (li, bk1) = acquire_level sd p bk
        in if li = npos then (CapacityExhausted, bk1)
           else
             let oi = free_order bk1;
                 bk2 = bk1\<lparr>free_order := o_next_free (orders bk1 ! oi)\<rparr>;
                 bk3 = (upd_order oi (\<lambda>_. fresh_order oid sd p q (next_priority bk2) li) bk2)
                         \<lparr>next_priority := next_priority bk2 + 1\<rparr>;
                 bk4 = link_tail oi li bk3
             in case insert_order_slot (order_lookup bk4) oid oi of
                  (False, _) \<Rightarrow> (CapacityExhausted, free_order_slot oi (unlink oi bk4))
                | (True, t) \<Rightarrow>
                    (Applied, bk4\<lparr>order_lookup := t, active_orders := active_orders bk4 + 1\<rparr>))"

definition add :: "market_data_event \<Rightarrow> order_book \<Rightarrow> process_result \<times> order_book" where
  "add e bk = rest_order (ev_order_id e) (ev_side e) (ev_price e) (ev_quantity e) bk"

definition modify :: "market_data_event \<Rightarrow> order_book \<Rightarrow> process_result \<times> order_book" where
  "modify e bk =
     (if ev_quantity e = 0 then (InvalidQuantity, bk)
      else
        let oi = find_order_index (ev_order_id e) bk
        in if oi = npos then (OrderNotFound, bk)
           else
             let r = orders bk ! oi
             in if o_side r = ev_side e \<and> o_price r = ev_price e
                then (Applied,
                  upd_order oi (o_quantity_update (\<lambda>_. ev_quantity e))
                    (upd_level (o_level r)
                      (\<lambda>l. l\<lparr>l_total_quantity := l_total_quantity l - o_quantity r + ev_quantity e\<rparr>) bk))
                else if find_level_index (ev_side e) (ev_price e) bk = npos \<and> free_level bk = npos
                  \<and> l_order_count (levels bk ! o_level r) > 1
                then (CapacityExhausted, bk)
                else
                  let (target, bk2) = acquire_level (ev_side e) (ev_price e) (unlink oi bk)
                  in if target = npos then (CapacityExhausted, bk2)
                     else
                       let bk3 = (upd_order oi (\<lambda>r. r\<lparr>o_side := ev_side e, o_price := ev_price e,
                             o_quantity := ev_quantity e, o_priority := next_priority bk2,
                             o_level := target\<rparr>) bk2)\<lparr>next_priority := next_priority bk2 + 1\<rparr>
                       in (Applied, link_tail oi target bk3))"

definition cancel :: "order_id \<Rightarrow> order_book \<Rightarrow> process_result \<times> order_book" where
  "cancel oid bk =
     (let oi = find_order_index oid bk
      in if oi = npos then (OrderNotFound, bk)
         else
           let bk1 = free_order_slot oi (erase_order_lookup oid (unlink oi bk))
           in (Applied, bk1\<lparr>active_orders := active_orders bk1 - 1\<rparr>))"

definition trade :: "order_id \<Rightarrow> quantity \<Rightarrow> order_book \<Rightarrow> process_result \<times> order_book" where
  "trade oid q bk =
     (if q = 0 then (InvalidQuantity, bk)
      else
        let oi = find_order_index oid bk
        in if oi = npos then (OrderNotFound, bk)
           else
             let r = orders bk ! oi
             in if q > o_quantity r then (InvalidQuantity, bk)
                else if q = o_quantity r then cancel oid bk
                else (Applied,
                  upd_level (o_level r) (\<lambda>l. l\<lparr>l_total_quantity := l_total_quantity l - q\<rparr>)
                    (upd_order oi (\<lambda>r. r\<lparr>o_quantity := o_quantity r - q\<rparr>) bk)))"

definition replace :: "market_data_event \<Rightarrow> order_book \<Rightarrow> process_result \<times> order_book" where
  "replace e bk =
     (if ev_quantity e = 0 then (InvalidQuantity, bk)
      else
        let oi = find_order_index (ev_order_id e) bk
        in if oi = npos then (OrderNotFound, bk)
           else
             let sd = o_side (orders bk ! oi)
             in if ev_new_order_id e \<noteq> ev_order_id e
                  \<and> find_order_index (ev_new_order_id e) bk \<noteq> npos
                then (DuplicateOrderId, bk)
                else rest_order (ev_new_order_id e) sd (ev_price e) (ev_quantity e)
                       (snd (cancel (ev_order_id e) bk)))"

definition process_event :: "market_data_event \<Rightarrow> order_book \<Rightarrow> process_result \<times> order_book" where
  "process_event e bk =
     (case ev_type e of
        Add \<Rightarrow> add e bk
      | Modify \<Rightarrow> modify e bk
      | Cancel \<Rightarrow> cancel (ev_order_id e) bk
      | Trade \<Rightarrow> trade (ev_order_id e) (ev_quantity e) bk
      | Reduce \<Rightarrow> trade (ev_order_id e) (ev_quantity e) bk
      | Replace \<Rightarrow> replace e bk)"

fun process_events :: "market_data_event list \<Rightarrow> order_book \<Rightarrow> process_result list \<times> order_book" where
  "process_events [] bk = ([], bk)"
| "process_events (e # es) bk =
     (let (r, bk1) = process_event e bk; (rs, bk2) = process_events es bk1 in (r # rs, bk2))"

lemma process_events_Cons:
  "process_events (e # es) bk = (fst (process_event e bk) # fst (process_events es (snd (process_event e bk))),
     snd (process_events es (snd (process_event e bk))))"
  by (simp add: split_def Let_def)

lemma process_events_snoc:
  "process_events (es @ [e]) bk = (fst (process_events es bk) @ [fst (process_event e (snd (process_events es bk)))],
     snd (process_event e (snd (process_events es bk))))"
  by (induction es arbitrary: bk) (simp_all add: split_def Let_def)

definition order_view_of :: "order \<Rightarrow> order_view" where
  "order_view_of r = \<lparr>ov_id = o_id r, ov_side = o_side r, ov_price = o_price r,
     ov_quantity = o_quantity r, ov_priority = o_priority r\<rparr>"

definition find_order :: "order_id \<Rightarrow> order_book \<Rightarrow> order_view option" where
  "find_order oid bk =
     (let i = find_order_index oid bk
      in if i = npos then None else Some (order_view_of (orders bk ! i)))"

section \<open>Walking a level\<close>

text \<open>The slots of a level in queue order: \<^verbatim>\<open>head\<close>, then the \<^verbatim>\<open>next\<close> members.\<close>

fun walk :: "order list \<Rightarrow> nat \<Rightarrow> nat \<Rightarrow> nat list" where
  "walk os 0 i = []"
| "walk os (Suc n) i = (if i = npos then [] else i # walk os n (o_next (os ! i)))"

definition queue_slots :: "order_book \<Rightarrow> nat \<Rightarrow> nat list" where
  "queue_slots bk li = walk (orders bk) (length (orders bk)) (l_head (levels bk ! li))"

definition slots_at :: "side \<Rightarrow> price \<Rightarrow> order_book \<Rightarrow> nat list" where
  "slots_at sd p bk =
     (let li = find_level_index sd p bk in if li = npos then [] else queue_slots bk li)"

definition resting :: "order_book \<Rightarrow> side \<Rightarrow> price \<Rightarrow> order_view list" where
  "resting bk sd p = map (\<lambda>i. order_view_of (orders bk ! i)) (slots_at sd p bk)"

lemma walk_seg:
  assumes "seg os p xs npos" and "length xs \<le> n" and "\<And>x. x \<in> set xs \<Longrightarrow> x \<noteq> npos"
  shows "walk os n (first_or xs npos) = xs"
  using assms
proof (induction xs arbitrary: p n)
  case Nil
  then show ?case by (cases n) simp_all
next
  case (Cons x xs)
  then obtain m where "n = Suc m" by (cases n) auto
  with Cons.prems Cons.IH [of x m] show ?case by simp
qed

lemma queue_slots_eq:
  assumes "queues_inv bk Q" and "li \<in> active_levels bk"
  shows "queue_slots bk li = Q li"
proof -
  note q = queues_invD(2) [OF assms]
  have "x \<noteq> npos" if "x \<in> set (Q li)" for x
    using queue_entry_less [OF queue_okD(2) [OF q that]] queues_invD(1) [OF assms(1)] by simp
  with walk_seg [OF queue_okD(3) [OF q] queue_length_bound [OF q]] show ?thesis
    unfolding queue_slots_def queue_okD(4) [OF q] by simp
qed

section \<open>The invariant\<close>

text \<open>
  \<^verbatim>\<open>depth_ok\<close> is about the levels, their directory and their queues; \<^verbatim>\<open>slots_inv\<close> about the order
  pool and the order index. \<^verbatim>\<open>book_ok\<close> adds that exactly the active orders are queued.
\<close>

definition active_slots :: "order_book \<Rightarrow> nat set" where
  "active_slots bk = {i. i < length (orders bk) \<and> o_active (orders bk ! i)}"

definition depth_ok :: "order_book \<Rightarrow> bool" where
  "depth_ok bk \<longleftrightarrow> dir_inv bk \<and> queues_inv bk (queue_slots bk)
     \<and> (\<forall>li\<in>active_levels bk. queue_slots bk li \<noteq> [])
     \<and> length (levels bk) = length (orders bk)"

definition queued :: "order_book \<Rightarrow> nat set" where
  "queued bk = linked bk (queue_slots bk)"

definition slots_inv :: "order_book \<Rightarrow> bool" where
  "slots_inv bk \<longleftrightarrow> order_index_ok (order_lookup bk)
     \<and> (\<forall>k i. order_maps (order_lookup bk) k i \<longleftrightarrow> i \<in> active_slots bk \<and> o_id (orders bk ! i) = k)
     \<and> pool_ok o_next_free o_active (orders bk) (free_order bk)
     \<and> active_orders bk = of_nat (card (active_slots bk))
     \<and> length (orders bk) < length (order_lookup bk)"

definition book_ok :: "order_book \<Rightarrow> bool" where
  "book_ok bk \<longleftrightarrow> depth_ok bk \<and> slots_inv bk \<and> queued bk = active_slots bk"

lemma depth_okD:
  assumes "depth_ok bk"
  shows "dir_inv bk" "queues_inv bk (queue_slots bk)"
    "li \<in> active_levels bk \<Longrightarrow> queue_slots bk li \<noteq> []" "length (levels bk) = length (orders bk)"
  using assms unfolding depth_ok_def by blast+

lemma slots_invD:
  assumes "slots_inv bk"
  shows "order_index_ok (order_lookup bk)"
    "order_maps (order_lookup bk) k i \<longleftrightarrow> i \<in> active_slots bk \<and> o_id (orders bk ! i) = k"
    "pool_ok o_next_free o_active (orders bk) (free_order bk)"
    "active_orders bk = of_nat (card (active_slots bk))"
    "length (orders bk) < length (order_lookup bk)"
  using assms unfolding slots_inv_def by blast+

lemma book_okD:
  assumes "book_ok bk"
  shows "depth_ok bk" "slots_inv bk" "queued bk = active_slots bk"
  using assms unfolding book_ok_def by blast+

lemma depth_okI:
  assumes "dir_inv bk" and "queues_inv bk Q" and "\<And>li. li \<in> active_levels bk \<Longrightarrow> Q li \<noteq> []"
    and "length (levels bk) = length (orders bk)"
  shows "depth_ok bk" and "queued bk = linked bk Q"
    and "li \<in> active_levels bk \<Longrightarrow> queue_slots bk li = Q li"
proof -
  note eq = queue_slots_eq [OF assms(2)]
  have "queues_inv bk (queue_slots bk)"
    using assms(2) unfolding queues_inv_def by (simp add: eq)
  then show "depth_ok bk" using assms(1,3,4) eq by (simp add: depth_ok_def)
  show "queued bk = linked bk Q" unfolding queued_def linked_def by (simp add: eq)
  show "li \<in> active_levels bk \<Longrightarrow> queue_slots bk li = Q li" by (rule eq)
qed

lemma slots_at_level:
  assumes "dir_inv bk"
  shows "level_at bk sd p li \<Longrightarrow> slots_at sd p bk = queue_slots bk li"
    and "(\<And>li. \<not> level_at bk sd p li) \<Longrightarrow> slots_at sd p bk = []"
proof -
  have "li \<noteq> npos" if "level_at bk sd p li"
    using level_at_less [OF that] dir_invD(1) [OF assms] by simp
  then show "level_at bk sd p li \<Longrightarrow> slots_at sd p bk = queue_slots bk li"
    using find_level_at(2) [OF assms] by (simp add: slots_at_def Let_def) metis
  show "(\<And>li. \<not> level_at bk sd p li) \<Longrightarrow> slots_at sd p bk = []"
    using find_level_at(1) [OF assms] by (simp add: slots_at_def Let_def)
qed

lemma active_level_at': "level_at bk sd p li \<Longrightarrow> li \<in> active_levels bk"
  by (simp add: level_at_def)

lemma slots_at_entry:
  assumes "depth_ok bk" and "i \<in> set (slots_at sd p bk)"
  shows "i < length (orders bk)" "o_active (orders bk ! i)" "o_side (orders bk ! i) = sd"
    "o_price (orders bk ! i) = p" "o_quantity (orders bk ! i) \<noteq> 0" "i \<in> queued bk"
    "level_at bk sd p (o_level (orders bk ! i))"
proof -
  note d = depth_okD [OF assms(1)]
  obtain li where li: "level_at bk sd p li"
    using assms(2) slots_at_level(2) [OF d(1)] by fastforce
  then have i: "i \<in> set (queue_slots bk li)"
    using assms(2) slots_at_level(1) [OF d(1) li] by simp
  note act = active_level_at' [OF li]
  have e: "queue_entry (orders bk) (levels bk ! li) li i"
    using queue_okD(2) [OF queues_invD(2) [OF d(2) act] i] .
  with li show "i < length (orders bk)" "o_active (orders bk ! i)" "o_side (orders bk ! i) = sd"
    "o_price (orders bk ! i) = p" "o_quantity (orders bk ! i) \<noteq> 0"
    "level_at bk sd p (o_level (orders bk ! i))"
    by (simp_all add: queue_entry_def level_at_def)
  show "i \<in> queued bk" using i act by (auto simp: queued_def linked_def)
qed

lemma queued_slots_at:
  assumes "depth_ok bk" and "i \<in> queued bk"
  shows "i \<in> set (slots_at (o_side (orders bk ! i)) (o_price (orders bk ! i)) bk)"
    and "level_at bk (o_side (orders bk ! i)) (o_price (orders bk ! i)) (o_level (orders bk ! i))"
    and "queue_slots bk (o_level (orders bk ! i))
      = slots_at (o_side (orders bk ! i)) (o_price (orders bk ! i)) bk"
    and "i < length (orders bk)"
proof -
  note d = depth_okD [OF assms(1)]
  note en = linked_entry [OF d(2) assms(2) [unfolded queued_def]]
  show at: "level_at bk (o_side (orders bk ! i)) (o_price (orders bk ! i)) (o_level (orders bk ! i))"
    using en(1,3) by (simp add: level_at_def queue_entry_def)
  show "queue_slots bk (o_level (orders bk ! i))
      = slots_at (o_side (orders bk ! i)) (o_price (orders bk ! i)) bk"
    using slots_at_level(1) [OF d(1) at] by simp
  with en(2) show "i \<in> set (slots_at (o_side (orders bk ! i)) (o_price (orders bk ! i)) bk)" by simp
  show "i < length (orders bk)" by (rule queue_entry_less [OF en(3)])
qed

lemma slots_at_distinct:
  assumes "depth_ok bk"
  shows "distinct (slots_at sd p bk)"
proof (cases "\<exists>li. level_at bk sd p li")
  case True
  then obtain li where li: "level_at bk sd p li" ..
  note d = depth_okD [OF assms]
  show ?thesis
    using queue_okD(1) [OF queues_invD(2) [OF d(2) active_level_at' [OF li]]]
      slots_at_level(1) [OF d(1) li] by simp
next
  case False
  with slots_at_level(2) [OF depth_okD(1) [OF assms]] show ?thesis by simp
qed

section \<open>Unlinking and attaching, on the abstract queues\<close>

lemma unlink_depth:
  fixes oi bk
  defines "bk' \<equiv> unlink oi bk"
  assumes dep: "depth_ok bk" and oi: "oi \<in> queued bk"
  shows "depth_ok bk'" and "queued bk' = queued bk - {oi}"
    and "slots_at sd p bk' = remove1 oi (slots_at sd p bk)"
    and "links_only (orders bk) (orders bk')"
    and "level_room (level_lookup bk) \<Longrightarrow> level_room (level_lookup bk')"
    and "free_level bk \<noteq> npos \<or> slots_at (o_side (orders bk ! oi)) (o_price (orders bk ! oi)) bk = [oi]
      \<Longrightarrow> free_level bk' \<noteq> npos"
proof -
  note d = depth_okD [OF dep]
  define li where "li = o_level (orders bk ! oi)"
  let ?Q = "queue_slots bk"
  let ?Q' = "?Q(li := remove1 oi (?Q li))"
  note un = unlink_ok [OF d(1,2) oi [unfolded queued_def], folded bk'_def li_def]
  note at = queued_slots_at [OF dep oi, folded li_def]
  have act: "active_levels bk' \<subseteq> active_levels bk" using un(3) by auto
  have ne: "?Q' lj \<noteq> []" if "lj \<in> active_levels bk'" for lj
  proof (cases "lj = li")
    case True
    then have "?Q li \<noteq> [oi]" using that un(3) by (auto split: if_splits)
    moreover have "oi \<in> set (?Q li)" using at(1,3) by simp
    ultimately show ?thesis using True by (cases "?Q li") (auto split: if_splits)
  next
    case False
    with d(3) act that show ?thesis by auto
  qed
  have len: "length (levels bk') = length (orders bk')" using un(8) d(4) by (simp add: bk'_def)
  note dep' = depth_okI [OF un(1,2) ne len]
  show "depth_ok bk'" by (rule dep'(1))
  show "queued bk' = queued bk - {oi}" unfolding queued_def by (rule trans [OF dep'(2) [unfolded queued_def] un(5)])
  show "links_only (orders bk) (orders bk')" by (rule un(4))
  show "level_room (level_lookup bk) \<Longrightarrow> level_room (level_lookup bk')" by (rule un(10))
  show "free_level bk \<noteq> npos \<or> slots_at (o_side (orders bk ! oi)) (o_price (orders bk ! oi)) bk = [oi]
      \<Longrightarrow> free_level bk' \<noteq> npos"
    using un(11) at(3) by simp
  have at': "level_at bk' sd p lj \<longleftrightarrow> lj \<in> active_levels bk' \<and> level_at bk sd p lj" for lj
    using un(6,7) act by (auto simp: level_at_def)
  show "slots_at sd p bk' = remove1 oi (slots_at sd p bk)"
  proof (cases "\<exists>lj. level_at bk sd p lj")
    case False
    then have "slots_at sd p bk = []" by (intro slots_at_level(2) [OF d(1)]) blast
    moreover have "slots_at sd p bk' = []"
      using False at' by (intro slots_at_level(2) [OF un(1)]) blast
    ultimately show ?thesis by simp
  next
    case True
    then obtain lj where lj: "level_at bk sd p lj" ..
    have old: "slots_at sd p bk = ?Q lj" by (rule slots_at_level(1) [OF d(1) lj])
    show ?thesis
    proof (cases "lj \<in> active_levels bk'")
      case True
      then have "slots_at sd p bk' = ?Q' lj"
        using slots_at_level(1) [OF un(1)] at' lj dep'(3) by simp
      moreover have "oi \<notin> set (?Q lj)" if "lj \<noteq> li"
        using other_queue_disjoint [OF d(2) _ _ that [symmetric], of oi] at(1,3) active_level_at' [OF lj]
          active_level_at' [OF at(2)] by auto
      ultimately show ?thesis using old by (cases "lj = li") (simp_all add: remove1_idem)
    next
      case False
      then have "lj = li" "?Q li = [oi]"
        using un(3) active_level_at' [OF lj] by (auto split: if_splits)
      moreover have "slots_at sd p bk' = []"
        using False at' level_at_unique [OF d(1) lj] by (intro slots_at_level(2) [OF un(1)]) blast
      ultimately show ?thesis using old by simp
    qed
  qed
qed

text \<open>
  A successful \<^verbatim>\<open>acquire_level\<close> returns the active level of its key, which is empty when it was just
  created. It fails when the level is new and no level slot is free or the level index is full.
\<close>

definition level_available :: "side \<Rightarrow> price \<Rightarrow> order_book \<Rightarrow> bool" where
  "level_available sd p bk \<longleftrightarrow> find_level_index sd p bk \<noteq> npos
     \<or> free_level bk \<noteq> npos \<and> level_room (level_lookup bk)"

lemma acquire_level_ok:
  assumes dep: "depth_ok bk" and avail: "level_available sd p bk"
    and acq: "acquire_level sd p bk = (li, b1)"
  obtains Q where "li \<noteq> npos" "dir_inv b1" "queues_inv b1 Q"
    "linked b1 Q = queued bk" "level_at b1 sd p li" "Q li = slots_at sd p bk"
    "\<And>lj. lj \<in> active_levels b1 \<Longrightarrow> lj \<noteq> li \<Longrightarrow> Q lj \<noteq> []"
    "\<And>sd' p' lj. (sd', p') \<noteq> (sd, p) \<Longrightarrow> level_at b1 sd' p' lj \<longleftrightarrow> level_at bk sd' p' lj"
    "\<And>sd' p' lj. (sd', p') \<noteq> (sd, p) \<Longrightarrow> level_at b1 sd' p' lj \<Longrightarrow> Q lj = slots_at sd' p' bk"
    "length (levels b1) = length (levels bk)"
proof (cases "find_level_index sd p bk = npos")
  case False
  note d = depth_okD [OF dep]
  let ?i = "find_level_index sd p bk"
  have at: "level_at bk sd p ?i" by (rule iffD1 [OF find_level_at(2) [OF d(1) False] refl])
  have li: "li = ?i" "b1 = bk" using acquire_level_existing [OF False] acq by simp_all
  show ?thesis
    unfolding li
  proof (rule that [unfolded li, OF False d(1,2)])
    show "linked bk (queue_slots bk) = queued bk" by (simp add: queued_def)
    show "level_at bk sd p ?i" by (rule at)
    show "queue_slots bk ?i = slots_at sd p bk" using slots_at_level(1) [OF d(1) at] by simp
    show "queue_slots bk lj \<noteq> []" if "lj \<in> active_levels bk" for lj by (rule d(3) [OF that])
    show "queue_slots bk lj = slots_at sd' p' bk" if "level_at bk sd' p' lj" for sd' p' lj
      using slots_at_level(1) [OF d(1) that] by simp
  qed simp_all
next
  case True
  note d = depth_okD [OF dep]
  have fr: "free_level bk \<noteq> npos" "level_room (level_lookup bk)"
    using avail True by (simp_all add: level_available_def)
  let ?i = "free_level bk"
  obtain c where c: "acquire_level sd p bk = (?i, c)" "dir_inv c"
    "active_levels c = insert ?i (active_levels bk)" "?i \<notin> active_levels bk"
    "length (levels c) = length (levels bk)"
    "\<And>j. j \<noteq> ?i \<Longrightarrow> level_core (levels c ! j) = level_core (levels bk ! j)"
    "level_core (levels c ! ?i) = level_core (fresh_level sd p)"
    "length (level_lookup c) = length (level_lookup bk)"
    by (rule acquire_level_created [OF d(1) True fr]) (rule that; (assumption | blast))
  have li: "li = ?i" and "c = b1" using c(1) acq by simp_all
  note b1 = c [unfolded \<open>c = b1\<close>]
  define Q where "Q = (queue_slots bk)(?i := [])"
  have os: "orders b1 = orders bk" using acquire_level_frame(1) [of sd p bk] by (simp add: b1(1))
  note new = level_core_fields [OF b1(7), unfolded fresh_level_fields]
  have inv: "queues_inv b1 Q"
    unfolding queues_inv_def os
  proof (intro conjI ballI)
    show "length (orders bk) \<le> npos" by (rule queues_invD(1) [OF d(2)])
    fix lj assume lj: "lj \<in> active_levels b1"
    show "queue_ok (orders bk) (levels b1 ! lj) lj (Q lj)"
    proof (cases "lj = ?i")
      case True
      with new show ?thesis by (simp add: Q_def queue_ok_def)
    next
      case False
      with lj b1(3) have "lj \<in> active_levels bk" by simp
      from queue_ok_cong [OF queues_invD(2) [OF d(2) this] _ _ b1(6) [OF False]] False
      show ?thesis by (simp add: Q_def)
    qed
  qed
  have lnk: "linked b1 Q = queued bk"
    using b1(3,4) by (auto simp: linked_def queued_def Q_def split: if_splits)
  have none: "\<not> level_at bk sd p lj" for lj
    using find_level_at(1) [OF d(1)] True by blast
  have at: "level_at b1 sd p ?i" using b1(3) new by (simp add: level_at_def)
  have oth: "level_at b1 sd' p' lj \<longleftrightarrow> level_at bk sd' p' lj" if "(sd', p') \<noteq> (sd, p)" for sd' p' lj
  proof (cases "lj = ?i")
    case True
    with that b1(4) new show ?thesis by (auto simp: level_at_def)
  next
    case False
    with b1(3) level_core_fields(1,2) [OF b1(6) [OF False]] show ?thesis by (simp add: level_at_def)
  qed
  have npi: "?i \<noteq> npos" by (rule fr(1))
  show ?thesis
  proof (rule that [unfolded li, OF npi b1(2) inv lnk at])
    show "Q ?i = slots_at sd p bk"
      using slots_at_level(2) [OF d(1) none] by (simp add: Q_def)
    show "Q lj \<noteq> []" if "lj \<in> active_levels b1" "lj \<noteq> ?i" for lj
      using that b1(3) d(3) by (simp add: Q_def)
    show "level_at b1 sd' p' lj = level_at bk sd' p' lj" if "(sd', p') \<noteq> (sd, p)" for sd' p' lj
      by (rule oth [OF that])
    show "Q lj = slots_at sd' p' bk" if "(sd', p') \<noteq> (sd, p)" "level_at b1 sd' p' lj" for sd' p' lj
    proof -
      have "level_at bk sd' p' lj" using oth that by blast
      moreover from this b1(4) have "lj \<noteq> ?i" by (auto simp: level_at_def)
      ultimately show ?thesis using slots_at_level(1) [OF d(1)] by (simp add: Q_def)
    qed
    show "length (levels b1) = length (levels bk)" by (rule b1(5))
  qed
qed

lemma acquire_level_fails:
  assumes dep: "depth_ok bk" and avail: "\<not> level_available sd p bk"
  obtains b1 where "acquire_level sd p bk = (npos, b1)" "depth_ok b1" "queued b1 = queued bk"
    "\<And>sd' p'. slots_at sd' p' b1 = slots_at sd' p' bk"
    "level_lookup b1 = level_lookup bk" "free_level b1 = free_level bk"
proof -
  note d = depth_okD [OF dep]
  have none: "find_level_index sd p bk = npos" using avail by (simp add: level_available_def)
  show ?thesis
  proof (cases "free_level bk = npos")
    case True
    with acquire_level_full [OF none] dep that show ?thesis by blast
  next
    case False
    with avail have "\<not> level_room (level_lookup bk)" by (simp add: level_available_def)
    then obtain b1 where b1: "acquire_level sd p bk = (npos, b1)" "dir_inv b1"
      "active_levels b1 = active_levels bk" "length (levels b1) = length (levels bk)"
      "\<And>j. j \<in> active_levels bk \<Longrightarrow> levels b1 ! j = levels bk ! j"
      "level_lookup b1 = level_lookup bk" "free_level b1 = free_level bk"
      "\<And>s. side_heap s b1 = side_heap s bk" "\<And>s. side_heap_size s b1 = side_heap_size s bk"
      by (rule acquire_level_refused [OF d(1) none False]) (rule that; (assumption | blast))
    have os: "orders b1 = orders bk" using acquire_level_frame(1) [of sd p bk] by (simp add: b1(1))
    have inv: "queues_inv b1 (queue_slots bk)"
      using d(2) by (simp add: queues_inv_def b1(3,5) os)
    have ne: "queue_slots bk lj \<noteq> []" if "lj \<in> active_levels b1" for lj
      using d(3) that by (simp add: b1(3))
    have len: "length (levels b1) = length (orders b1)" using d(4) by (simp add: b1(4) os)
    note dep' = depth_okI [OF b1(2) inv ne len]
    have "slots_at sd' p' b1 = slots_at sd' p' bk" for sd' p'
    proof -
      have "find_level_index sd' p' b1 = find_level_index sd' p' bk"
        by (simp add: find_level_index_def b1(6))
      moreover have "queue_slots b1 li = queue_slots bk li" if "level_at bk sd' p' li" for li
        using dep'(3) [of li] active_level_at' [OF that] by (simp add: b1(3))
      ultimately show ?thesis
        using find_level_at(2) [OF d(1), of "find_level_index sd' p' bk" sd' p']
        by (auto simp: slots_at_def Let_def)
    qed
    moreover have "queued b1 = queued bk" using dep'(2) by (simp add: queued_def linked_def b1(3))
    ultimately show ?thesis using that [OF b1(1) dep'(1)] b1(6,7) by blast
  qed
qed

text \<open>Writing a fresh order record to a slot outside the queues and linking it at the tail.\<close>

lemma attach_depth:
  fixes li b2 oi
  defines "bk' \<equiv> link_tail oi li b2"
  assumes dep: "depth_ok bk" and avail: "level_available sd p bk" and acq: "acquire_level sd p bk = (li, b1)"
    and oi: "oi \<notin> queued bk" "oi < length (orders bk)"
    and r: "o_active r" "o_side r = sd" "o_price r = p" "o_level r = li" "o_quantity r \<noteq> 0"
    and b2: "orders b2 = (orders bk)[oi := r]" "levels b2 = levels b1" "level_lookup b2 = level_lookup b1"
      "free_level b2 = free_level b1" "\<And>s. side_heap s b2 = side_heap s b1"
      "\<And>s. side_heap_size s b2 = side_heap_size s b1"
  shows "depth_ok bk'" and "queued bk' = insert oi (queued bk)" and "li \<noteq> npos"
    and "slots_at sd' p' bk' = (if (sd', p') = (sd, p) then slots_at sd p bk @ [oi] else slots_at sd' p' bk)"
    and "links_only (orders b2) (orders bk')"
proof -
  obtain Q where npli: "li \<noteq> npos" and dir1: "dir_inv b1" and inv1: "queues_inv b1 Q"
    and lnk1: "linked b1 Q = queued bk" and at1: "level_at b1 sd p li" and Qli: "Q li = slots_at sd p bk"
    and ne: "\<And>lj. lj \<in> active_levels b1 \<Longrightarrow> lj \<noteq> li \<Longrightarrow> Q lj \<noteq> []"
    and oth: "\<And>sd' p' lj. (sd', p') \<noteq> (sd, p) \<Longrightarrow> level_at b1 sd' p' lj \<longleftrightarrow> level_at bk sd' p' lj"
    and Qoth: "\<And>sd' p' lj. (sd', p') \<noteq> (sd, p) \<Longrightarrow> level_at b1 sd' p' lj \<Longrightarrow> Q lj = slots_at sd' p' bk"
    and len1: "length (levels b1) = length (levels bk)"
    by (rule acquire_level_ok [OF dep avail acq]) (rule that; (assumption | blast))
  note d = depth_okD [OF dep]
  have os1: "orders b1 = orders bk" using acquire_level_frame(1) [of sd p bk] by (simp add: acq)
  have dir2: "dir_inv b2" and act2: "active_levels b2 = active_levels b1"
    by (rule dir_inv_cong [OF dir1]; simp add: b2)+
  have keep: "orders b2 ! i = orders b1 ! i" if "i \<in> linked b1 Q" for i
    using that oi(1) lnk1 by (metis b2(1) nth_list_update_neq os1)
  have inv2: "queues_inv b2 Q"
    unfolding queues_inv_def
  proof (intro conjI ballI)
    show "length (orders b2) \<le> npos" using queues_invD(1) [OF d(2)] by (simp add: b2)
    fix lj assume "lj \<in> active_levels b2"
    then have lj: "lj \<in> active_levels b1" by (simp add: act2)
    have "orders b2 ! i = orders b1 ! i" if "i \<in> set (Q lj)" for i
      using keep that lj by (auto simp: linked_def)
    from queue_ok_cong [OF queues_invD(2) [OF inv1 lj] _ this refl]
    show "queue_ok (orders b2) (levels b2 ! lj) lj (Q lj)" by (simp add: b2 os1)
  qed
  have li2: "li \<in> active_levels b2" using active_level_at' [OF at1] by (simp add: act2)
  have fresh: "oi \<notin> linked b2 Q" using oi(1) lnk1 by (simp add: linked_def act2)
  have "queue_entry (orders b2) (levels b2 ! li) li oi"
    using at1 oi(2) r by (simp add: queue_entry_def b2 level_at_def)
  note lt = link_tail_ok [OF dir2 inv2 li2 fresh this, folded bk'_def]
  let ?Q' = "Q(li := Q li @ [oi])"
  have ne': "?Q' lj \<noteq> []" if "lj \<in> active_levels bk'" for lj
    using that ne lt(2) act2 by simp
  have len: "length (levels bk') = length (orders bk')"
    using d(4) len1 by (simp add: bk'_def b2)
  note dep' = depth_okI [OF lt(1,3) ne' len]
  show "depth_ok bk'" by (rule dep'(1))
  have "linked b2 Q = queued bk" using lnk1 by (simp add: linked_def act2)
  with trans [OF dep'(2) lt(5)] show "queued bk' = insert oi (queued bk)" by simp
  show "li \<noteq> npos" by (rule npli)
  show "links_only (orders b2) (orders bk')" by (rule lt(4))
  have at': "level_at bk' s q lj \<longleftrightarrow> level_at b1 s q lj" for s q lj
    using lt(2,7,8) act2 by (simp add: level_at_def b2)
  show "slots_at sd' p' bk' = (if (sd', p') = (sd, p) then slots_at sd p bk @ [oi] else slots_at sd' p' bk)"
  proof (cases "(sd', p') = (sd, p)")
    case True
    then have "level_at bk' sd' p' li" using at1 at' by simp
    then have "slots_at sd' p' bk' = ?Q' li"
      using slots_at_level(1) [OF lt(1)] dep'(3) active_level_at' by metis
    with True Qli show ?thesis by simp
  next
    case False
    show ?thesis
    proof (cases "\<exists>lj. level_at bk' sd' p' lj")
      case True
      then obtain lj where lj: "level_at bk' sd' p' lj" ..
      have "lj \<noteq> li" using lj at1 at' False by (auto simp: level_at_def)
      moreover have "slots_at sd' p' bk' = ?Q' lj"
        using slots_at_level(1) [OF lt(1) lj] dep'(3) [of lj] active_level_at' [OF lj] by simp
      moreover have "Q lj = slots_at sd' p' bk" using Qoth False lj at' by blast
      ultimately show ?thesis using False by simp
    next
      case none: False
      then have "slots_at sd' p' bk' = []" by (intro slots_at_level(2) [OF lt(1)]) blast
      moreover have "slots_at sd' p' bk = []"
        using none at' oth [OF False] by (intro slots_at_level(2) [OF d(1)]) blast
      ultimately show ?thesis using False by simp
    qed
  qed
qed

text \<open>What the queues say does not depend on the slots outside them.\<close>

lemma depth_outside:
  assumes dep: "depth_ok bk" and len: "length (orders bk') = length (orders bk)"
    and keep: "\<And>i. i \<in> queued bk \<Longrightarrow> orders bk' ! i = orders bk ! i"
    and same: "levels bk' = levels bk" "level_lookup bk' = level_lookup bk" "free_level bk' = free_level bk"
      "\<And>s. side_heap s bk' = side_heap s bk" "\<And>s. side_heap_size s bk' = side_heap_size s bk"
  shows "depth_ok bk'" and "queued bk' = queued bk" and "slots_at sd p bk' = slots_at sd p bk"
proof -
  note d = depth_okD [OF dep]
  have dir: "dir_inv bk'" and act: "active_levels bk' = active_levels bk"
    by (rule dir_inv_cong [OF d(1)]; simp add: same)+
  have inv: "queues_inv bk' (queue_slots bk)"
    unfolding queues_inv_def act
  proof (intro conjI ballI)
    show "length (orders bk') \<le> npos" using queues_invD(1) [OF d(2)] by (simp add: len)
    fix li assume li: "li \<in> active_levels bk"
    have "orders bk' ! i = orders bk ! i" if "i \<in> set (queue_slots bk li)" for i
      using keep that li by (auto simp: queued_def linked_def)
    from queue_ok_cong [OF queues_invD(2) [OF d(2) li] len this refl]
    show "queue_ok (orders bk') (levels bk' ! li) li (queue_slots bk li)" by (simp add: same)
  qed
  have ne: "queue_slots bk li \<noteq> []" if "li \<in> active_levels bk'" for li
    using d(3) that by (simp add: act)
  have "length (levels bk') = length (orders bk')" using d(4) by (simp add: same len)
  note dep' = depth_okI [OF dir inv ne this]
  show "depth_ok bk'" by (rule dep'(1))
  show "queued bk' = queued bk" using dep'(2) by (simp add: queued_def linked_def act)
  have f: "find_level_index sd p bk' = find_level_index sd p bk"
    by (simp add: find_level_index_def same)
  have "queue_slots bk' li = queue_slots bk li" if "level_at bk sd p li" for li
    using dep'(3) [of li] active_level_at' [OF that] by (simp add: act)
  then show "slots_at sd p bk' = slots_at sd p bk"
    using find_level_at(2) [OF d(1), of "find_level_index sd p bk" sd p]
    by (auto simp: slots_at_def Let_def f)
qed

section \<open>The order pool and the order index\<close>

lemma active_slots_finite [simp]: "finite (active_slots bk)"
  by (simp add: active_slots_def)

lemma active_slots_card: "card (active_slots bk) \<le> length (orders bk)"
  using card_mono [of "{..<length (orders bk)}" "active_slots bk"] by (auto simp: active_slots_def)

lemma active_slot_less: "i \<in> active_slots bk \<Longrightarrow> i < length (orders bk)"
  by (simp add: active_slots_def)

lemma active_slot_real:
  assumes "slots_inv bk" and "i \<in> active_slots bk"
  shows "i \<noteq> npos"
  using slots_invD(3) [OF assms(1)] active_slot_less [OF assms(2)] by (auto simp: pool_ok_def)

lemma find_order_iff:
  assumes "slots_inv bk"
  shows "find_order_index oid bk = npos \<longleftrightarrow> (\<forall>i\<in>active_slots bk. o_id (orders bk ! i) \<noteq> oid)"
    and "find_order_index oid bk = oi \<Longrightarrow> oi \<noteq> npos \<Longrightarrow> oi \<in> active_slots bk \<and> o_id (orders bk ! oi) = oid"
proof -
  note s = slots_invD [OF assms]
  have small: "\<And>k v. order_maps (order_lookup bk) k v \<Longrightarrow> v \<noteq> npos"
    using s(2) active_slot_real [OF assms] by blast
  show "find_order_index oid bk = npos \<longleftrightarrow> (\<forall>i\<in>active_slots bk. o_id (orders bk ! i) \<noteq> oid)"
    using order_index.find_npos_iff [OF s(1) small] s(2) by (auto simp: find_order_index_def)
  show "find_order_index oid bk = oi \<Longrightarrow> oi \<noteq> npos \<Longrightarrow> oi \<in> active_slots bk \<and> o_id (orders bk ! oi) = oid"
    using order_index.find_eq_iff [OF s(1) small] s(2) by (simp add: find_order_index_def)
qed

lemma order_ids_unique:
  assumes "slots_inv bk" and "i \<in> active_slots bk" "j \<in> active_slots bk"
    and "o_id (orders bk ! i) = o_id (orders bk ! j)"
  shows "i = j"
proof -
  note s = slots_invD [OF assms(1)]
  have "order_maps (order_lookup bk) (o_id (orders bk ! j)) i"
    "order_maps (order_lookup bk) (o_id (orders bk ! j)) j"
    using s(2) assms(2-4) by simp_all
  then show ?thesis by (rule order_index.maps_fun [OF s(1)])
qed

lemma find_order_active:
  assumes "slots_inv bk" and "i \<in> active_slots bk"
  shows "find_order_index (o_id (orders bk ! i)) bk = i"
proof -
  have "find_order_index (o_id (orders bk ! i)) bk \<noteq> npos"
    using find_order_iff(1) [OF assms(1)] assms(2) by blast
  from find_order_iff(2) [OF assms(1) refl this] show ?thesis
    using order_ids_unique [OF assms(1)] assms(2) by blast
qed

text \<open>The order index is more than twice the pool, so it always has room for one more order.\<close>

lemma slots_inv_room:
  assumes "slots_inv bk"
  shows "order_room (order_lookup bk)"
proof (rule ccontr)
  let ?t = "order_lookup bk"
  assume "\<not> order_room ?t"
  then have occ: "os_state (?t ! j) = Occupied" if "j < length ?t" for j
    using that by (simp add: order_room_def)
  note s = slots_invD [OF assms]
  have maps: "os_value (?t ! j) \<in> active_slots bk \<and> o_id (orders bk ! os_value (?t ! j)) = os_key (?t ! j)"
    if "j < length ?t" for j
    using s(2) [of "os_key (?t ! j)" "os_value (?t ! j)"] that occ [OF that]
    by (auto simp: ring_stores_def)
  have "inj_on (\<lambda>j. os_value (?t ! j)) {..<length ?t}"
  proof (rule inj_onI)
    fix i j assume ij: "i \<in> {..<length ?t}" "j \<in> {..<length ?t}" "os_value (?t ! i) = os_value (?t ! j)"
    then have "os_key (?t ! i) = os_key (?t ! j)" using maps [of i] maps [of j] by simp
    with ij occ s(1) show "i = j" by (auto simp: ring_ok_def)
  qed
  then have "length ?t \<le> card (active_slots bk)"
    using card_inj_on_le [of "\<lambda>j. os_value (?t ! j)" "{..<length ?t}" "active_slots bk"] maps by auto
  with active_slots_card [of bk] s(5) show False by simp
qed

text \<open>Three shapes of update: same slots, one slot taken from the free list, one given back.\<close>

lemma slots_inv_cong:
  assumes inv: "slots_inv bk" and len: "length (orders bk') = length (orders bk)"
    and same: "\<And>i. o_active (orders bk' ! i) = o_active (orders bk ! i)"
      "\<And>i. o_id (orders bk' ! i) = o_id (orders bk ! i)"
      "\<And>i. o_next_free (orders bk' ! i) = o_next_free (orders bk ! i)"
    and "order_lookup bk' = order_lookup bk" "free_order bk' = free_order bk"
      "active_orders bk' = active_orders bk"
  shows "slots_inv bk'" and "active_slots bk' = active_slots bk"
proof -
  note s = slots_invD [OF inv]
  show act: "active_slots bk' = active_slots bk" using len same by (simp add: active_slots_def)
  have "pool_ok o_next_free o_active (orders bk') (free_order bk)"
    by (rule order_pool.pool_cong [OF s(3) len]) (simp_all add: same)
  then show "slots_inv bk'"
    using s by (simp add: slots_inv_def act assms same)
qed

lemma slots_inv_insert:
  fixes bk
  defines "f \<equiv> free_order bk"
  assumes inv: "slots_inv bk" and free: "f \<noteq> npos" and new: "find_order_index oid bk = npos"
    and ins: "insert_order_slot (order_lookup bk) oid f = (True, t)"
    and len: "length (orders bk') = length (orders bk)"
    and same: "\<And>i. i \<noteq> f \<Longrightarrow> o_active (orders bk' ! i) = o_active (orders bk ! i)"
      "\<And>i. i \<noteq> f \<Longrightarrow> o_id (orders bk' ! i) = o_id (orders bk ! i)"
      "\<And>i. i \<noteq> f \<Longrightarrow> o_next_free (orders bk' ! i) = o_next_free (orders bk ! i)"
    and slot: "o_active (orders bk' ! f)" "o_id (orders bk' ! f) = oid"
    and "free_order bk' = o_next_free (orders bk ! f)" "order_lookup bk' = t"
      "active_orders bk' = active_orders bk + 1"
  shows "slots_inv bk'" and "active_slots bk' = insert f (active_slots bk)" and "f \<notin> active_slots bk"
proof -
  note s = slots_invD [OF inv]
  have f: "f < length (orders bk)" "\<not> o_active (orders bk ! f)"
    using order_pool.pool_head [OF s(3)] free by (simp_all add: f_def)
  then show notin: "f \<notin> active_slots bk" by (simp add: active_slots_def)
  show act: "active_slots bk' = insert f (active_slots bk)"
    using f same(1) slot(1) len by (auto simp: active_slots_def) metis
  have "\<forall>v. \<not> order_maps (order_lookup bk) oid v"
    using find_order_iff(1) [OF inv] new s(2) by blast
  from order_index.ins_true [OF s(1) this ins] have t: "order_index_ok t"
    "\<And>k w. order_maps t k w \<longleftrightarrow> k = oid \<and> w = f \<or> order_maps (order_lookup bk) k w" by simp_all
  have maps: "order_maps t k i \<longleftrightarrow> i \<in> active_slots bk' \<and> o_id (orders bk' ! i) = k" for k i
    using t(2) s(2) slot(2) same(2) notin by (cases "i = f") (auto simp: act)
  have "pool_ok o_next_free o_active ((orders bk)[f := orders bk' ! f]) (o_next_free (orders bk ! f))"
    using order_pool.pool_take [OF s(3)] free slot(1) by (simp add: f_def)
  then have pool: "pool_ok o_next_free o_active (orders bk') (o_next_free (orders bk ! f))"
  proof (rule order_pool.pool_cong)
    fix i
    show "o_active (orders bk' ! i) = o_active ((orders bk)[f := orders bk' ! f] ! i)"
      using same(1) f(1) by (cases "i = f") simp_all
    show "o_next_free (orders bk' ! i) = o_next_free ((orders bk)[f := orders bk' ! f] ! i)"
      using same(3) f(1) by (cases "i = f") simp_all
  qed (simp add: len)
  have "length t = length (order_lookup bk)"
    using length_index_ops(1) [of "order_lookup bk" oid f] by (simp add: ins)
  then show "slots_inv bk'"
    using t(1) maps pool s(4,5) notin by (simp add: slots_inv_def assms act)
qed

lemma slots_inv_delete:
  assumes inv: "slots_inv bk" and oi: "oi \<in> active_slots bk"
    and len: "length (orders bk') = length (orders bk)"
    and same: "\<And>i. i \<noteq> oi \<Longrightarrow> o_active (orders bk' ! i) = o_active (orders bk ! i)"
      "\<And>i. i \<noteq> oi \<Longrightarrow> o_id (orders bk' ! i) = o_id (orders bk ! i)"
      "\<And>i. i \<noteq> oi \<Longrightarrow> o_next_free (orders bk' ! i) = o_next_free (orders bk ! i)"
    and slot: "orders bk' ! oi = release_order (free_order bk) r"
    and "free_order bk' = oi"
      "order_lookup bk' = erase_order_slot (order_lookup bk) (o_id (orders bk ! oi))"
      "active_orders bk' = active_orders bk - 1"
  shows "slots_inv bk'" and "active_slots bk' = active_slots bk - {oi}"
proof -
  note s = slots_invD [OF inv]
  have o: "oi < length (orders bk)" "o_active (orders bk ! oi)" using oi by (simp_all add: active_slots_def)
  have dead: "\<not> o_active (orders bk' ! oi)" by (simp add: slot release_order_def)
  show act: "active_slots bk' = active_slots bk - {oi}"
    using same(1) dead len by (auto simp: active_slots_def) metis+
  have maps: "order_maps (order_lookup bk') k i \<longleftrightarrow> i \<in> active_slots bk' \<and> o_id (orders bk' ! i) = k" for k i
    using order_index.del_maps [OF s(1)] s(2) same(2) order_ids_unique [OF inv _ oi, of i]
    by (cases "i = oi") (auto simp: act assms)
  have "pool_ok o_next_free o_active ((orders bk)[oi := release_order (free_order bk) r]) oi"
    by (rule order_pool.pool_give [OF s(3) o])
  then have pool: "pool_ok o_next_free o_active (orders bk') oi"
  proof (rule order_pool.pool_cong)
    fix i
    show "o_active (orders bk' ! i) = o_active ((orders bk)[oi := release_order (free_order bk) r] ! i)"
      using same(1) slot o(1) by (cases "i = oi") simp_all
    show "o_next_free (orders bk' ! i) = o_next_free ((orders bk)[oi := release_order (free_order bk) r] ! i)"
      using same(3) slot o(1) by (cases "i = oi") simp_all
  qed (simp add: len)
  have "card (active_slots bk) = Suc (card (active_slots bk - {oi}))"
    by (rule card.remove [OF active_slots_finite oi])
  then show "slots_inv bk'"
    using order_index.del_ok [OF s(1)] maps pool s(4,5) by (simp add: slots_inv_def assms act)
qed

section \<open>Cancelling\<close>

text \<open>
  \<^verbatim>\<open>drop_order\<close> is the common part of \<^verbatim>\<open>cancel\<close> and of a full fill in \<^verbatim>\<open>submit\<close>: the order leaves its
  queue, the index and the pool.
\<close>

definition drop_order :: "nat \<Rightarrow> order_book \<Rightarrow> order_book" where
  "drop_order oi bk =
     (let bk1 = free_order_slot oi (erase_order_lookup (o_id (orders bk ! oi)) (unlink oi bk))
      in bk1\<lparr>active_orders := active_orders bk1 - 1\<rparr>)"

lemma drop_order_fields:
  "order_lookup (drop_order oi bk) = erase_order_slot (order_lookup bk) (o_id (orders bk ! oi))"
  "level_lookup (drop_order oi bk) = level_lookup (unlink oi bk)"
  "levels (drop_order oi bk) = levels (unlink oi bk)"
  "orders (drop_order oi bk)
     = (orders (unlink oi bk))[oi := release_order (free_order bk) (orders (unlink oi bk) ! oi)]"
  "free_order (drop_order oi bk) = oi" "free_level (drop_order oi bk) = free_level (unlink oi bk)"
  "active_orders (drop_order oi bk) = active_orders bk - 1"
  "next_priority (drop_order oi bk) = next_priority bk" "fill_sequence (drop_order oi bk) = fill_sequence bk"
  "side_heap sd (drop_order oi bk) = side_heap sd (unlink oi bk)"
  "side_heap_size sd (drop_order oi bk) = side_heap_size sd (unlink oi bk)"
  by (simp_all add: drop_order_def Let_def free_order_slot_def erase_order_lookup_def)

text \<open>What an update keeps of an order slot it does not remove.\<close>

definition slot_data :: "order \<Rightarrow> order_id \<times> side \<times> price \<times> quantity \<times> u64" where
  "slot_data r = (o_id r, o_side r, o_price r, o_quantity r, o_priority r)"

lemma slot_data_view: "slot_data r' = slot_data r \<Longrightarrow> order_view_of r' = order_view_of r"
  by (simp add: slot_data_def order_view_of_def)

lemma links_only_data: "links_only os os' \<Longrightarrow> slot_data (os' ! i) = slot_data (os ! i)"
  by (simp add: slot_data_def links_only_fields)

lemma drop_order_ok:
  fixes oi bk
  defines "bk' \<equiv> drop_order oi bk"
  assumes ok: "book_ok bk" and oi: "oi \<in> active_slots bk"
  shows "book_ok bk'" and "active_slots bk' = active_slots bk - {oi}"
    and "slots_at sd p bk' = remove1 oi (slots_at sd p bk)"
    and "i \<noteq> oi \<Longrightarrow> slot_data (orders bk' ! i) = slot_data (orders bk ! i)"
    and "level_room (level_lookup bk) \<Longrightarrow> level_room (level_lookup bk')"
    and "length (orders bk') = length (orders bk)" and "free_order bk' \<noteq> npos"
proof -
  note b = book_okD [OF ok]
  have q: "oi \<in> queued bk" using oi b(3) by simp
  note un = unlink_depth [OF b(1) q]
  note lo = links_only_fields [OF un(4)]
  have oil: "oi < length (orders bk)" by (rule active_slot_less [OF oi])
  have other: "orders bk' ! i = orders (unlink oi bk) ! i" if "i \<noteq> oi" for i
    using that by (simp add: bk'_def drop_order_fields)
  show len: "length (orders bk') = length (orders bk)" by (simp add: bk'_def drop_order_fields)
  have dep: "depth_ok bk'" "queued bk' = queued (unlink oi bk)" "slots_at sd p bk' = slots_at sd p (unlink oi bk)"
    for sd p
    by (rule depth_outside [OF un(1)]; use un(2) other in \<open>simp add: bk'_def drop_order_fields\<close>)+
  have slot: "orders bk' ! oi = release_order (free_order bk) (orders (unlink oi bk) ! oi)"
    using oil by (simp add: bk'_def drop_order_fields)
  have inv: "slots_inv bk'" "active_slots bk' = active_slots bk - {oi}"
    by (rule slots_inv_delete [OF b(2) oi len _ _ _ slot];
        simp add: lo bk'_def drop_order_fields)+
  show "active_slots bk' = active_slots bk - {oi}" by (rule inv(2))
  show "book_ok bk'" using dep inv un(2) b(3) by (simp add: book_ok_def)
  show "slots_at sd p bk' = remove1 oi (slots_at sd p bk)" using dep(3) un(3) by simp
  show "slot_data (orders bk' ! i) = slot_data (orders bk ! i)" if "i \<noteq> oi"
    using other [OF that] links_only_data [OF un(4)] by simp
  show "level_room (level_lookup bk')" if "level_room (level_lookup bk)"
    using un(5) that by (simp add: bk'_def drop_order_fields)
  show "free_order bk' \<noteq> npos" using active_slot_real [OF b(2) oi] by (simp add: bk'_def drop_order_fields)
qed

lemma cancel_cases:
  assumes "book_ok bk"
  shows "find_order_index oid bk = npos \<Longrightarrow> cancel oid bk = (OrderNotFound, bk)"
    and "find_order_index oid bk = oi \<Longrightarrow> oi \<noteq> npos \<Longrightarrow> cancel oid bk = (Applied, drop_order oi bk)"
  using find_order_iff(2) [OF book_okD(2) [OF assms], of oid]
  by (auto simp: cancel_def drop_order_def Let_def)

section \<open>Finding an order\<close>

lemma find_order_some:
  "slots_inv bk \<Longrightarrow> i \<in> active_slots bk \<Longrightarrow> find_order (o_id (orders bk ! i)) bk = Some (order_view_of (orders bk ! i))"
  using find_order_active active_slot_real by (simp add: find_order_def Let_def)

lemma find_order_none:
  "slots_inv bk \<Longrightarrow> find_order k bk = None \<longleftrightarrow> (\<forall>i\<in>active_slots bk. o_id (orders bk ! i) \<noteq> k)"
  using find_order_iff(1) by (simp add: find_order_def Let_def)

lemma find_order_index_npos: "find_order_index k bk = npos \<longleftrightarrow> find_order k bk = None"
  by (simp add: find_order_def Let_def)

lemma find_order_cases:
  assumes "slots_inv bk"
  obtains "find_order k bk = None" "find_order_index k bk = npos" "\<forall>i\<in>active_slots bk. o_id (orders bk ! i) \<noteq> k"
  | i where "find_order k bk = Some (order_view_of (orders bk ! i))" "find_order_index k bk = i"
      "i \<noteq> npos" "i \<in> active_slots bk" "o_id (orders bk ! i) = k"
proof (cases "find_order_index k bk = npos")
  case True
  with that(1) find_order_iff(1) [OF assms] show ?thesis by (simp add: find_order_index_npos)
next
  case False
  note it = find_order_iff(2) [OF assms refl False]
  show ?thesis
    by (rule that(2) [OF _ refl False]) (use it find_order_some [OF assms, of "find_order_index k bk"] in simp_all)
qed

text \<open>The order map after a slot was written or dropped.\<close>

lemma find_order_write:
  assumes inv: "slots_inv bk" "slots_inv bk'" and x: "x \<in> active_slots bk'"
    and act: "active_slots bk' = insert x (active_slots bk)"
    and data: "\<And>i. i \<noteq> x \<Longrightarrow> slot_data (orders bk' ! i) = slot_data (orders bk ! i)"
    and own: "x \<in> active_slots bk \<Longrightarrow> o_id (orders bk ! x) = o_id (orders bk' ! x)"
  shows "find_order k bk' = (if k = o_id (orders bk' ! x) then Some (order_view_of (orders bk' ! x))
    else find_order k bk)"
proof (cases "k = o_id (orders bk' ! x)")
  case True
  with find_order_some [OF inv(2) x] show ?thesis by simp
next
  case False
  show ?thesis
  proof (rule find_order_cases [OF inv(1), of k])
    assume a: "find_order k bk = None" "\<forall>i\<in>active_slots bk. o_id (orders bk ! i) \<noteq> k"
    have "o_id (orders bk' ! i) \<noteq> k" if "i \<in> active_slots bk'" for i
      using that a(2) data [of i] False by (cases "i = x") (auto simp: act slot_data_def)
    then have "find_order k bk' = None" using find_order_none [OF inv(2)] by blast
    with a False show ?thesis by simp
  next
    fix i assume i: "find_order k bk = Some (order_view_of (orders bk ! i))" "i \<in> active_slots bk"
      "o_id (orders bk ! i) = k"
    with own False have "i \<noteq> x" by auto
    from data [OF this] slot_data_view [OF data [OF this]] find_order_some [OF inv(2), of i] i False
    show ?thesis by (simp add: act slot_data_def)
  qed
qed

lemma find_order_drop:
  assumes inv: "slots_inv bk" "slots_inv bk'" and x: "x \<in> active_slots bk"
    and act: "active_slots bk' = active_slots bk - {x}"
    and data: "\<And>i. i \<noteq> x \<Longrightarrow> slot_data (orders bk' ! i) = slot_data (orders bk ! i)"
  shows "find_order k bk' = (if k = o_id (orders bk ! x) then None else find_order k bk)"
proof (rule find_order_cases [OF inv(1), of k])
  assume a: "find_order k bk = None" "\<forall>i\<in>active_slots bk. o_id (orders bk ! i) \<noteq> k"
  have "o_id (orders bk' ! i) \<noteq> k" if "i \<in> active_slots bk'" for i
    using that a(2) data [of i] by (auto simp: act slot_data_def)
  with a show ?thesis using find_order_none [OF inv(2)] by auto
next
  fix i assume i: "find_order k bk = Some (order_view_of (orders bk ! i))" "i \<in> active_slots bk"
    "o_id (orders bk ! i) = k"
  show ?thesis
  proof (cases "i = x")
    case True
    have "o_id (orders bk' ! j) \<noteq> k" if "j \<in> active_slots bk'" for j
      using that order_ids_unique [OF inv(1) _ x, of j] data [of j] i True by (auto simp: act slot_data_def)
    with i True show ?thesis using find_order_none [OF inv(2)] by auto
  next
    case False
    with order_ids_unique [OF inv(1) i(2) x] i have "k \<noteq> o_id (orders bk ! x)" by auto
    with data [OF False] slot_data_view [OF data [OF False]] find_order_some [OF inv(2), of i] i False
    show ?thesis by (simp add: act slot_data_def)
  qed
qed

section \<open>Capacity of the level pool\<close>

text \<open>Every active level holds an order, so there are never more active levels than orders.\<close>

lemma levels_le_queued:
  assumes "depth_ok bk"
  shows "card (active_levels bk) \<le> card (queued bk)"
proof -
  note d = depth_okD [OF assms]
  let ?f = "\<lambda>li. hd (queue_slots bk li)"
  have inq: "?f li \<in> set (queue_slots bk li)" if "li \<in> active_levels bk" for li
    using d(3) [OF that] by simp
  have "inj_on ?f (active_levels bk)"
  proof (rule inj_onI, rule ccontr)
    fix i j assume ij: "i \<in> active_levels bk" "j \<in> active_levels bk" "?f i = ?f j" "i \<noteq> j"
    with other_queue_disjoint [OF d(2) ij(1,2) _ inq [OF ij(2)]] inq [OF ij(1)] show False by simp
  qed
  moreover have "?f ` active_levels bk \<subseteq> queued bk"
    using inq by (auto simp: queued_def linked_def)
  moreover have "finite (queued bk)"
    using queued_slots_at(4) [OF assms] finite_subset [of "queued bk" "{..<length (orders bk)}"] by auto
  ultimately show ?thesis by (rule card_inj_on_le)
qed

lemma free_level_available:
  assumes "depth_ok bk" and "card (queued bk) < length (orders bk)"
  shows "free_level bk \<noteq> npos"
proof
  note d = depth_okD [OF assms(1)]
  assume "free_level bk = npos"
  then have "\<forall>i<length (levels bk). l_active (levels bk ! i)"
    using level_pool.pool_exhausted [OF dir_invD(7) [OF d(1)]] by simp
  then have "active_levels bk = {..<length (levels bk)}" by (auto simp: active_levels_def)
  then have "card (active_levels bk) = length (orders bk)" using d(4) by simp
  with levels_le_queued [OF assms(1)] assms(2) show False by simp
qed

lemma level_available_free:
  "depth_ok bk \<Longrightarrow> card (queued bk) < length (orders bk) \<Longrightarrow> level_room (level_lookup bk) \<Longrightarrow>
   level_available sd p bk"
  using free_level_available by (simp add: level_available_def)

lemma free_order_count:
  assumes "book_ok bk"
  shows "free_order bk = npos \<longleftrightarrow> card (active_slots bk) = length (orders bk)"
proof -
  have "free_order bk = npos \<longleftrightarrow> active_slots bk = {..<length (orders bk)}"
    using order_pool.pool_exhausted [OF slots_invD(3) [OF book_okD(2) [OF assms]]]
    by (auto simp: active_slots_def)
  also have "\<dots> \<longleftrightarrow> card (active_slots bk) = length (orders bk)"
  proof
    show "card (active_slots bk) = length (orders bk) \<Longrightarrow> active_slots bk = {..<length (orders bk)}"
      by (intro card_subset_eq) (auto simp: active_slots_def)
  qed simp
  finally show ?thesis .
qed

text \<open>
  The early return of \<^verbatim>\<open>modify\<close> for a full level pool is never taken: when every level slot is
  active, each holds exactly one order.
\<close>

lemma full_levels_single:
  assumes ok: "book_ok bk" and oi: "oi \<in> active_slots bk" and full: "free_level bk = npos"
  shows "\<not> 1 < l_order_count (levels bk ! o_level (orders bk ! oi))"
proof
  assume many: "1 < l_order_count (levels bk ! o_level (orders bk ! oi))"
  note b = book_okD [OF ok]
  have q: "oi \<in> queued bk" using oi b(3) by simp
  note un = unlink_depth [OF b(1) q]
  let ?li = "o_level (orders bk ! oi)"
  have "?li < length (levels bk)" using queued_slots_at(2) [OF b(1) q] by (rule level_at_less)
  then have cnt: "l_order_count (levels (detach oi bk) ! ?li) = l_order_count (levels bk ! ?li) - 1"
    unfolding detach_levels [OF \<open>?li < length (levels bk)\<close>] Let_def by simp
  have "l_order_count (levels bk ! ?li) \<noteq> 1"
    using many less_irrefl by metis
  then have nz: "l_order_count (levels (detach oi bk) ! ?li) \<noteq> 0"
    unfolding cnt by (simp only: right_minus_eq not_False_eq_True)
  have lev: "o_level (orders (detach oi bk) ! oi) = ?li"
    using links_only_fields(5) [OF detach_ok(4) [OF depth_okD(1,2) [OF b(1)] q [unfolded queued_def]]] .
  have "unlink oi bk = detach oi bk" unfolding unlink_def Let_def lev if_not_P [OF nz] ..
  then have "free_level (unlink oi bk) = npos" using full by simp
  moreover have "card (queued (unlink oi bk)) < length (orders (unlink oi bk))"
    unfolding un(2) b(3) using active_slots_card [of bk] card.remove [OF active_slots_finite oi] by simp
  ultimately show False using free_level_available [OF un(1)] by simp
qed

section \<open>Resting an order\<close>

lemma rest_order_rejects:
  "rest_order oid sd p 0 bk = (InvalidQuantity, bk)"
  "q \<noteq> 0 \<Longrightarrow> find_order_index oid bk \<noteq> npos \<Longrightarrow> rest_order oid sd p q bk = (DuplicateOrderId, bk)"
  "q \<noteq> 0 \<Longrightarrow> find_order_index oid bk = npos \<Longrightarrow> free_order bk = npos \<Longrightarrow>
     rest_order oid sd p q bk = (CapacityExhausted, bk)"
  by (simp_all add: rest_order_def)

lemma rest_order_ok:
  fixes oid sd p q bk
  defines "bk' \<equiv> snd (rest_order oid sd p q bk)" and "f \<equiv> free_order bk"
  assumes ok: "book_ok bk" and q: "q \<noteq> 0" and new: "find_order_index oid bk = npos"
    and free: "free_order bk \<noteq> npos" and avail: "level_available sd p bk"
  shows "fst (rest_order oid sd p q bk) = Applied" and "book_ok bk'"
    and "active_slots bk' = insert f (active_slots bk)" and "f \<notin> active_slots bk"
    and "slots_at sd' p' bk' = (if (sd', p') = (sd, p) then slots_at sd p bk @ [f] else slots_at sd' p' bk)"
    and "slot_data (orders bk' ! f) = (oid, sd, p, q, next_priority bk)"
    and "i \<noteq> f \<Longrightarrow> slot_data (orders bk' ! i) = slot_data (orders bk ! i)"
    and "next_priority bk' = next_priority bk + 1" and "fill_sequence bk' = fill_sequence bk"
    and "length (orders bk') = length (orders bk)"
    and "level_lookup bk' = level_lookup (snd (acquire_level sd p bk))"
proof -
  note b = book_okD [OF ok]
  obtain li b1 where acq: "acquire_level sd p bk = (li, b1)" by (cases "acquire_level sd p bk")
  note fr1 = acquire_level_frame [of sd p bk, unfolded acq snd_conv]
  define r where "r = fresh_order oid sd p q (next_priority bk) li"
  define b3 where "b3 = (upd_order f (\<lambda>_. r) (b1\<lparr>free_order := o_next_free (orders bk ! f)\<rparr>))
      \<lparr>next_priority := next_priority bk + 1\<rparr>"
  obtain t where ins: "insert_order_slot (order_lookup bk) oid f = (True, t)"
    using order_index.ins_room [OF slots_invD(1) [OF b(2)], of oid f] slots_inv_room [OF b(2)]
    by (cases "insert_order_slot (order_lookup bk) oid f") auto
  have rr: "o_active r" "o_side r = sd" "o_price r = p" "o_level r = li" "o_quantity r \<noteq> 0"
    using q by (simp_all add: r_def fresh_order_def default_order_def)
  have f: "f < length (orders bk)" "f \<notin> active_slots bk"
    using order_pool.pool_head [OF slots_invD(3) [OF b(2)] free] by (simp_all add: f_def active_slots_def)
  have fq: "f \<notin> queued bk" using f(2) b(3) by simp
  have b3: "orders b3 = (orders bk)[f := r]" "levels b3 = levels b1" "level_lookup b3 = level_lookup b1"
    "free_level b3 = free_level b1" "side_heap s b3 = side_heap s b1"
    "side_heap_size s b3 = side_heap_size s b1" for s
    by (simp_all add: b3_def fr1)
  note at = attach_depth [OF b(1) avail acq fq f(1) rr b3]
  have res: "rest_order oid sd p q bk
      = (Applied, (link_tail f li b3)\<lparr>order_lookup := t, active_orders := active_orders bk + 1\<rparr>)"
    using q new free at(3) ins
    by (simp add: rest_order_def acq fr1 f_def b3_def r_def Let_def)
  then show "fst (rest_order oid sd p q bk) = Applied" by simp
  have bk': "bk' = (link_tail f li b3)\<lparr>order_lookup := t, active_orders := active_orders bk + 1\<rparr>"
    by (simp add: bk'_def res)
  note lo = links_only_fields [OF at(5)]
  show len: "length (orders bk') = length (orders bk)" by (simp add: bk' b3)
  have dep: "depth_ok bk'" "queued bk' = queued (link_tail f li b3)"
    "slots_at sd' p' bk' = slots_at sd' p' (link_tail f li b3)" for sd' p'
    by (rule depth_outside [OF at(1)]; simp add: bk')+
  have inv: "slots_inv bk'" "active_slots bk' = insert f (active_slots bk)"
    by (rule slots_inv_insert [OF b(2) free new ins [unfolded f_def], folded f_def];
        simp add: bk' lo b3 f r_def fresh_order_def default_order_def; simp add: b3_def)+
  show "active_slots bk' = insert f (active_slots bk)" by (rule inv(2))
  show "f \<notin> active_slots bk" by (rule f(2))
  show "book_ok bk'" using dep inv at(2) b(3) by (simp add: book_ok_def)
  show "slots_at sd' p' bk' = (if (sd', p') = (sd, p) then slots_at sd p bk @ [f] else slots_at sd' p' bk)"
    using at(4) dep(3) by simp
  show "slot_data (orders bk' ! f) = (oid, sd, p, q, next_priority bk)"
    using f(1) by (simp add: bk' slot_data_def lo b3 r_def fresh_order_def)
  show "slot_data (orders bk' ! i) = slot_data (orders bk ! i)" if "i \<noteq> f"
    using that by (simp add: bk' slot_data_def lo b3)
  show "next_priority bk' = next_priority bk + 1" "fill_sequence bk' = fill_sequence bk"
    "level_lookup bk' = level_lookup (snd (acquire_level sd p bk))"
    by (simp_all add: bk' b3_def fr1 acq)
qed

section \<open>Changing a quantity in place\<close>

lemma sum_list_update:
  fixes g h :: "nat \<Rightarrow> u64"
  assumes "distinct xs" and "x \<in> set xs" and "\<And>y. y \<noteq> x \<Longrightarrow> h y = g y"
  shows "sum_list (map h xs) = sum_list (map g xs) - g x + h x"
  using assms
proof (induction xs)
  case Nil
  then show ?case by simp
next
  case (Cons y ys)
  show ?case
  proof (cases "y = x")
    case True
    with Cons.prems have "map h ys = map g ys" by (metis distinct.simps(2) map_eq_conv)
    with True show ?thesis by (simp del: map_eq_conv)
  next
    case False
    with Cons show ?thesis by simp
  qed
qed

lemma requantify_ok:
  fixes bk bk' :: order_book
  assumes ok: "book_ok bk" and oi: "oi \<in> active_slots bk" and q: "q \<noteq> 0"
    and os: "orders bk' = (orders bk)[oi := (orders bk ! oi)\<lparr>o_quantity := q\<rparr>]"
    and lv: "levels bk' = (levels bk)[o_level (orders bk ! oi) :=
      (levels bk ! o_level (orders bk ! oi))\<lparr>l_total_quantity :=
        l_total_quantity (levels bk ! o_level (orders bk ! oi)) - o_quantity (orders bk ! oi) + q\<rparr>]"
    and same: "level_lookup bk' = level_lookup bk" "free_level bk' = free_level bk"
      "\<And>s. side_heap s bk' = side_heap s bk" "\<And>s. side_heap_size s bk' = side_heap_size s bk"
      "order_lookup bk' = order_lookup bk" "free_order bk' = free_order bk" "active_orders bk' = active_orders bk"
  shows "book_ok bk'" and "active_slots bk' = active_slots bk" and "slots_at sd p bk' = slots_at sd p bk"
proof -
  let ?li = "o_level (orders bk ! oi)"
  note b = book_okD [OF ok]
  note d = depth_okD [OF b(1)]
  have oil: "oi < length (orders bk)" by (rule active_slot_less [OF oi])
  note en = linked_entry [OF d(2), of oi, folded queued_def, unfolded b(3), OF oi]
  have lil: "?li < length (levels bk)" by (rule active_level_less [OF en(1)])
  have fields: "o_active (orders bk' ! i) = o_active (orders bk ! i)" "o_id (orders bk' ! i) = o_id (orders bk ! i)"
    "o_next_free (orders bk' ! i) = o_next_free (orders bk ! i)" "o_next (orders bk' ! i) = o_next (orders bk ! i)"
    "o_prev (orders bk' ! i) = o_prev (orders bk ! i)" "o_level (orders bk' ! i) = o_level (orders bk ! i)"
    "o_side (orders bk' ! i) = o_side (orders bk ! i)" "o_price (orders bk' ! i) = o_price (orders bk ! i)" for i
    using oil by (cases "i = oi"; simp add: os)+
  have qty: "o_quantity (orders bk' ! i) = (if i = oi then q else o_quantity (orders bk ! i))" for i
    using oil by (simp add: os)
  have leno: "length (orders bk') = length (orders bk)" by (simp add: os)
  have inv: "slots_inv bk'" "active_slots bk' = active_slots bk"
    by (rule slots_inv_cong [OF b(2) leno]; simp add: fields same)+
  then show "active_slots bk' = active_slots bk" by simp
  have dirf: "dir_fields (levels bk' ! j) = dir_fields (levels bk ! j)" for j
    using lil by (cases "j = ?li") (simp_all add: lv dir_fields_def)
  have dir: "dir_inv bk'" "active_levels bk' = active_levels bk"
    by (rule dir_inv_cong [OF d(1) _ dirf]; simp add: same lv)+
  have qok: "queue_ok (orders bk') (levels bk' ! li) li (queue_slots bk li)" if li: "li \<in> active_levels bk" for li
  proof -
    note k = queue_okD [OF queues_invD(2) [OF d(2) li]]
    have sg: "seg (orders bk') npos (queue_slots bk li) npos"
      using k(3) seg_cong [of "queue_slots bk li" "orders bk'" "orders bk"] fields by simp
    have lf: "l_head (levels bk' ! li) = l_head (levels bk ! li)" "l_tail (levels bk' ! li) = l_tail (levels bk ! li)"
      "l_order_count (levels bk' ! li) = l_order_count (levels bk ! li)" "l_side (levels bk' ! li) = l_side (levels bk ! li)"
      "l_price (levels bk' ! li) = l_price (levels bk ! li)"
      using lil by (cases "li = ?li"; simp add: lv)+
    have ent: "queue_entry (orders bk') (levels bk' ! li) li i" if "i \<in> set (queue_slots bk li)" for i
      using k(2) [OF that] q by (simp add: queue_entry_def fields lf qty) (simp add: os)
    have tot: "l_total_quantity (levels bk' ! li) = sum_list (map (\<lambda>i. o_quantity (orders bk' ! i)) (queue_slots bk li))"
    proof (cases "li = ?li")
      case True
      have "sum_list (map (\<lambda>i. o_quantity (orders bk' ! i)) (queue_slots bk li))
          = l_total_quantity (levels bk ! li) - o_quantity (orders bk ! oi) + o_quantity (orders bk' ! oi)"
        unfolding k(6) using en(2) True by (intro sum_list_update [OF k(1)]) (simp_all add: qty)
      with True lil show ?thesis by (simp add: lv qty)
    next
      case False
      with other_queue_disjoint [OF d(2) li en(1) False [symmetric] en(2)]
      have "map (\<lambda>i. o_quantity (orders bk' ! i)) (queue_slots bk li)
          = map (\<lambda>i. o_quantity (orders bk ! i)) (queue_slots bk li)"
        by (intro map_cong) (auto simp: qty)
      with False k(6) show ?thesis by (simp add: lv del: map_eq_conv)
    qed
    show ?thesis using k sg ent tot lf unfolding queue_ok_def by metis
  qed
  have qinv: "queues_inv bk' (queue_slots bk)"
    using queues_invD(1) [OF d(2)] qok by (simp add: queues_inv_def dir(2) os)
  have ne: "queue_slots bk li \<noteq> []" if "li \<in> active_levels bk'" for li
    using d(3) that by (simp add: dir(2))
  have len: "length (levels bk') = length (orders bk')" using d(4) by (simp add: lv os)
  note dep' = depth_okI [OF dir(1) qinv ne len]
  have "queued bk' = queued bk" using dep'(2) by (simp add: queued_def linked_def dir(2))
  with dep'(1) inv b(3) show "book_ok bk'" by (simp add: book_ok_def)
  have f: "find_level_index sd p bk' = find_level_index sd p bk" by (simp add: find_level_index_def same)
  have "queue_slots bk' li = queue_slots bk li" if "level_at bk sd p li" for li
    using dep'(3) [of li] active_level_at' [OF that] by (simp add: dir(2))
  then show "slots_at sd p bk' = slots_at sd p bk"
    using find_level_at(2) [OF d(1), of "find_level_index sd p bk" sd p]
    by (auto simp: slots_at_def Let_def f)
qed

section \<open>Moving an order to another level\<close>

text \<open>\<^verbatim>\<open>modify\<close> from \<^verbatim>\<open>unlink\<close> on.\<close>

definition relocate :: "nat \<Rightarrow> side \<Rightarrow> price \<Rightarrow> quantity \<Rightarrow> order_book \<Rightarrow> process_result \<times> order_book" where
  "relocate oi sd p q bk =
     (let (target, bk2) = acquire_level sd p (unlink oi bk)
      in if target = npos then (CapacityExhausted, bk2)
         else
           let bk3 = (upd_order oi (\<lambda>r. r\<lparr>o_side := sd, o_price := p, o_quantity := q,
                 o_priority := next_priority bk2, o_level := target\<rparr>) bk2)
                 \<lparr>next_priority := next_priority bk2 + 1\<rparr>
           in (Applied, link_tail oi target bk3))"

lemma modify_relocate:
  assumes "book_ok bk" and "ev_quantity e \<noteq> 0" and "find_order_index (ev_order_id e) bk = oi" "oi \<noteq> npos"
    and "\<not> (o_side (orders bk ! oi) = ev_side e \<and> o_price (orders bk ! oi) = ev_price e)"
  shows "modify e bk = relocate oi (ev_side e) (ev_price e) (ev_quantity e) bk"
proof -
  have "oi \<in> active_slots bk"
    using find_order_iff(2) [OF book_okD(2) [OF assms(1)] assms(3,4)] by blast
  from full_levels_single [OF assms(1) this]
  have pre: "\<not> (find_level_index (ev_side e) (ev_price e) bk = npos \<and> free_level bk = npos
      \<and> l_order_count (levels bk ! o_level (orders bk ! oi)) > 1)" by blast
  show ?thesis
    unfolding modify_def relocate_def Let_def assms(3) if_not_P [OF assms(2)] if_not_P [OF assms(4)]
      if_not_P [OF assms(5)] if_not_P [OF pre] ..
qed

lemma relocate_available:
  fixes oi sd p q bk
  defines "bk' \<equiv> snd (relocate oi sd p q bk)"
  assumes ok: "book_ok bk" and oi: "oi \<in> active_slots bk" and q: "q \<noteq> 0"
    and avail: "level_available sd p (unlink oi bk)"
  shows "fst (relocate oi sd p q bk) = Applied" and "book_ok bk'" and "active_slots bk' = active_slots bk"
    and "slots_at sd' p' bk' = (if (sd', p') = (sd, p) then remove1 oi (slots_at sd p bk) @ [oi]
      else remove1 oi (slots_at sd' p' bk))"
    and "slot_data (orders bk' ! oi) = (o_id (orders bk ! oi), sd, p, q, next_priority bk)"
    and "i \<noteq> oi \<Longrightarrow> slot_data (orders bk' ! i) = slot_data (orders bk ! i)"
    and "next_priority bk' = next_priority bk + 1" and "active_orders bk' = active_orders bk"
    and "length (orders bk') = length (orders bk)"
    and "level_lookup bk' = level_lookup (snd (acquire_level sd p (unlink oi bk)))"
proof -
  note b = book_okD [OF ok]
  define b1 where "b1 = unlink oi bk"
  have qd: "oi \<in> queued bk" using oi b(3) by simp
  note un = unlink_depth [OF b(1) qd, folded b1_def]
  note lo1 = links_only_fields [OF un(4)]
  have oil: "oi < length (orders b1)" using active_slot_less [OF oi] lo1(9) by simp
  obtain li b2 where acq: "acquire_level sd p b1 = (li, b2)" by (cases "acquire_level sd p b1")
  note fr = acquire_level_frame [of sd p b1, unfolded acq snd_conv]
  define r where "r = (orders b1 ! oi)\<lparr>o_side := sd, o_price := p, o_quantity := q,
      o_priority := next_priority bk, o_level := li\<rparr>"
  define b3 where "b3 = (upd_order oi (\<lambda>_. r) b2)\<lparr>next_priority := next_priority bk + 1\<rparr>"
  have rr: "o_active r" "o_side r = sd" "o_price r = p" "o_level r = li" "o_quantity r \<noteq> 0"
    using q oi lo1(8) by (simp_all add: r_def active_slots_def)
  have b3: "orders b3 = (orders b1)[oi := r]" "levels b3 = levels b2" "level_lookup b3 = level_lookup b2"
    "free_level b3 = free_level b2" "side_heap s b3 = side_heap s b2"
    "side_heap_size s b3 = side_heap_size s b2" for s
    by (simp_all add: b3_def fr)
  have nq: "oi \<notin> queued b1" using un(2) by simp
  note at = attach_depth [OF un(1) avail [folded b1_def] acq nq oil rr b3]
  have np: "next_priority b2 = next_priority bk" by (simp add: fr b1_def)
  have res: "relocate oi sd p q bk = (Applied, link_tail oi li b3)"
    using at(3) by (simp add: relocate_def Let_def b1_def [symmetric] acq np b3_def r_def upd_order_def fr)
  then show "fst (relocate oi sd p q bk) = Applied" by simp
  have bk': "bk' = link_tail oi li b3" by (simp add: bk'_def res)
  note lo = links_only_fields [OF at(5)]
  show len: "length (orders bk') = length (orders bk)" by (simp add: bk' b3 lo1)
  have fields: "o_active (orders bk' ! i) = o_active (orders bk ! i)" "o_id (orders bk' ! i) = o_id (orders bk ! i)"
    "o_next_free (orders bk' ! i) = o_next_free (orders bk ! i)" for i
    using oil by (cases "i = oi"; simp add: bk' lo b3 r_def lo1)+
  have inv: "slots_inv bk'" "active_slots bk' = active_slots bk"
    by (rule slots_inv_cong [OF b(2) len]; (simp add: fields; fail | simp add: bk' b3_def fr b1_def))+
  then show "active_slots bk' = active_slots bk" by simp
  have "queued bk' = queued bk" using at(2) un(2) qd by (auto simp: bk')
  with at(1) inv b(3) show "book_ok bk'" by (simp add: book_ok_def bk')
  show "slots_at sd' p' bk' = (if (sd', p') = (sd, p) then remove1 oi (slots_at sd p bk) @ [oi]
      else remove1 oi (slots_at sd' p' bk))"
    using at(4) un(3) by (simp add: bk')
  show "slot_data (orders bk' ! oi) = (o_id (orders bk ! oi), sd, p, q, next_priority bk)"
    using oil by (simp add: bk' slot_data_def lo b3 r_def lo1)
  show "slot_data (orders bk' ! i) = slot_data (orders bk ! i)" if "i \<noteq> oi"
    using that by (simp add: bk' slot_data_def lo b3 lo1)
  show "next_priority bk' = next_priority bk + 1" "active_orders bk' = active_orders bk"
    "level_lookup bk' = level_lookup (snd (acquire_level sd p (unlink oi bk)))"
    by (simp_all add: bk' b3_def fr acq [unfolded b1_def]) (simp_all add: b1_def)
qed

lemma relocate_ok:
  fixes oi sd p q bk
  defines "bk' \<equiv> snd (relocate oi sd p q bk)"
  assumes ok: "book_ok bk" and oi: "oi \<in> active_slots bk" and q: "q \<noteq> 0"
    and room: "level_room (level_lookup bk)"
  shows "fst (relocate oi sd p q bk) = Applied" and "book_ok bk'" and "active_slots bk' = active_slots bk"
    and "slots_at sd' p' bk' = (if (sd', p') = (sd, p) then remove1 oi (slots_at sd p bk) @ [oi]
      else remove1 oi (slots_at sd' p' bk))"
    and "slot_data (orders bk' ! oi) = (o_id (orders bk ! oi), sd, p, q, next_priority bk)"
    and "i \<noteq> oi \<Longrightarrow> slot_data (orders bk' ! i) = slot_data (orders bk ! i)"
    and "next_priority bk' = next_priority bk + 1" and "active_orders bk' = active_orders bk"
    and "length (orders bk') = length (orders bk)"
    and "level_lookup bk' = level_lookup (snd (acquire_level sd p (unlink oi bk)))"
proof -
  note b = book_okD [OF ok]
  have qd: "oi \<in> queued bk" using oi b(3) by simp
  note un = unlink_depth [OF b(1) qd]
  have "card (queued (unlink oi bk)) < length (orders (unlink oi bk))"
    unfolding un(2) b(3) links_only_fields(9) [OF un(4)]
    using active_slots_card [of bk] card.remove [OF active_slots_finite oi] by simp
  from level_available_free [OF un(1) this un(5) [OF room]]
  have "level_available sd p (unlink oi bk)" .
  note r = relocate_available [OF ok oi q this, folded bk'_def]
  show "fst (relocate oi sd p q bk) = Applied" "book_ok bk'" "active_slots bk' = active_slots bk"
    "slots_at sd' p' bk' = (if (sd', p') = (sd, p) then remove1 oi (slots_at sd p bk) @ [oi]
      else remove1 oi (slots_at sd' p' bk))"
    "slot_data (orders bk' ! oi) = (o_id (orders bk ! oi), sd, p, q, next_priority bk)"
    "i \<noteq> oi \<Longrightarrow> slot_data (orders bk' ! i) = slot_data (orders bk ! i)"
    "next_priority bk' = next_priority bk + 1" "active_orders bk' = active_orders bk"
    "length (orders bk') = length (orders bk)"
    "level_lookup bk' = level_lookup (snd (acquire_level sd p (unlink oi bk)))"
    by (rule r; assumption?)+
qed

text \<open>
  When no level can be acquired, \<^verbatim>\<open>modify\<close> has already unlinked the order: the order stays active
  and indexed without a queue.
\<close>

lemma relocate_lost:
  assumes ok: "book_ok bk" and oi: "oi \<in> active_slots bk"
    and none: "\<not> level_available sd p (unlink oi bk)"
  shows "fst (relocate oi sd p q bk) = CapacityExhausted"
    and "oi \<notin> queued (snd (relocate oi sd p q bk))"
    and "oi \<in> active_slots (snd (relocate oi sd p q bk))"
proof -
  note b = book_okD [OF ok]
  have qd: "oi \<in> queued bk" using oi b(3) by simp
  note un = unlink_depth [OF b(1) qd]
  obtain b2 where b2: "acquire_level sd p (unlink oi bk) = (npos, b2)" "queued b2 = queued (unlink oi bk)"
    by (rule acquire_level_fails [OF un(1) none])
  then have res: "relocate oi sd p q bk = (CapacityExhausted, b2)" by (simp add: relocate_def)
  then show "fst (relocate oi sd p q bk) = CapacityExhausted" by simp
  show "oi \<notin> queued (snd (relocate oi sd p q bk))" by (simp add: res b2 un(2))
  have "orders b2 = orders (unlink oi bk)"
    using acquire_level_frame(1) [of sd p "unlink oi bk"] by (simp add: b2(1))
  with oi show "oi \<in> active_slots (snd (relocate oi sd p q bk))"
    by (simp add: res active_slots_def links_only_fields [OF un(4)])
qed

end
