(* ===== verification/BookSpec.thy ===== *)
theory BookSpec
  imports OrderBook
begin

text \<open>
  What the order book promises in apply mode, without its data structures: an order map, one FIFO
  queue of order ids per side and price, a count and a priority counter. The handlers of
  \<^verbatim>\<open>OrderBook.cpp\<close> refine these operations, result code included, as long as the level index has an
  empty slot.
\<close>

section \<open>The specification\<close>

record spec_book =
  sb_orders :: "order_id \<Rightarrow> order_view option"
  sb_queue :: "side \<Rightarrow> price \<Rightarrow> order_id list"
  sb_count :: nat
  sb_next_priority :: u64

definition set_queue :: "side \<Rightarrow> price \<Rightarrow> ('a \<Rightarrow> 'a) \<Rightarrow> (side \<Rightarrow> price \<Rightarrow> 'a) \<Rightarrow> side \<Rightarrow> price \<Rightarrow> 'a" where
  "set_queue sd p f Q = Q(sd := (Q sd)(p := f (Q sd p)))"

definition spec_empty :: spec_book where
  "spec_empty = \<lparr>sb_orders = \<lambda>_. None, sb_queue = \<lambda>_ _. [], sb_count = 0, sb_next_priority = 0\<rparr>"

definition spec_rest :: "nat \<Rightarrow> order_id \<Rightarrow> side \<Rightarrow> price \<Rightarrow> quantity \<Rightarrow> spec_book \<Rightarrow> process_result \<times> spec_book" where
  "spec_rest cap oid sd p q s =
     (if q = 0 then (InvalidQuantity, s)
      else if sb_orders s oid \<noteq> None then (DuplicateOrderId, s)
      else if sb_count s = cap then (CapacityExhausted, s)
      else (Applied, s\<lparr>
        sb_orders := (sb_orders s)(oid \<mapsto> \<lparr>ov_id = oid, ov_side = sd, ov_price = p, ov_quantity = q,
          ov_priority = sb_next_priority s\<rparr>),
        sb_queue := set_queue sd p (\<lambda>ids. ids @ [oid]) (sb_queue s),
        sb_count := sb_count s + 1, sb_next_priority := sb_next_priority s + 1\<rparr>))"

definition spec_cancel :: "order_id \<Rightarrow> spec_book \<Rightarrow> process_result \<times> spec_book" where
  "spec_cancel oid s =
     (case sb_orders s oid of
        None \<Rightarrow> (OrderNotFound, s)
      | Some v \<Rightarrow> (Applied, s\<lparr>sb_orders := (sb_orders s)(oid := None),
          sb_queue := set_queue (ov_side v) (ov_price v) (remove1 oid) (sb_queue s),
          sb_count := sb_count s - 1\<rparr>))"

definition spec_trade :: "order_id \<Rightarrow> quantity \<Rightarrow> spec_book \<Rightarrow> process_result \<times> spec_book" where
  "spec_trade oid q s =
     (if q = 0 then (InvalidQuantity, s)
      else case sb_orders s oid of
        None \<Rightarrow> (OrderNotFound, s)
      | Some v \<Rightarrow>
          if q > ov_quantity v then (InvalidQuantity, s)
          else if q = ov_quantity v then spec_cancel oid s
          else (Applied, s\<lparr>sb_orders := (sb_orders s)(oid \<mapsto> v\<lparr>ov_quantity := ov_quantity v - q\<rparr>)\<rparr>))"

definition spec_modify :: "market_data_event \<Rightarrow> spec_book \<Rightarrow> process_result \<times> spec_book" where
  "spec_modify e s =
     (if ev_quantity e = 0 then (InvalidQuantity, s)
      else case sb_orders s (ev_order_id e) of
        None \<Rightarrow> (OrderNotFound, s)
      | Some v \<Rightarrow>
          if ov_side v = ev_side e \<and> ov_price v = ev_price e
          then (Applied, s\<lparr>sb_orders := (sb_orders s)(ev_order_id e \<mapsto> v\<lparr>ov_quantity := ev_quantity e\<rparr>)\<rparr>)
          else (Applied, s\<lparr>
            sb_orders := (sb_orders s)(ev_order_id e \<mapsto> \<lparr>ov_id = ev_order_id e, ov_side = ev_side e,
              ov_price = ev_price e, ov_quantity = ev_quantity e, ov_priority = sb_next_priority s\<rparr>),
            sb_queue := set_queue (ev_side e) (ev_price e) (\<lambda>ids. ids @ [ev_order_id e])
              (set_queue (ov_side v) (ov_price v) (remove1 (ev_order_id e)) (sb_queue s)),
            sb_next_priority := sb_next_priority s + 1\<rparr>))"

definition spec_replace :: "nat \<Rightarrow> market_data_event \<Rightarrow> spec_book \<Rightarrow> process_result \<times> spec_book" where
  "spec_replace cap e s =
     (if ev_quantity e = 0 then (InvalidQuantity, s)
      else case sb_orders s (ev_order_id e) of
        None \<Rightarrow> (OrderNotFound, s)
      | Some v \<Rightarrow>
          if ev_new_order_id e \<noteq> ev_order_id e \<and> sb_orders s (ev_new_order_id e) \<noteq> None
          then (DuplicateOrderId, s)
          else spec_rest cap (ev_new_order_id e) (ov_side v) (ev_price e) (ev_quantity e)
                 (snd (spec_cancel (ev_order_id e) s)))"

definition spec_event :: "nat \<Rightarrow> market_data_event \<Rightarrow> spec_book \<Rightarrow> process_result \<times> spec_book" where
  "spec_event cap e s =
     (case ev_type e of
        Add \<Rightarrow> spec_rest cap (ev_order_id e) (ev_side e) (ev_price e) (ev_quantity e) s
      | Modify \<Rightarrow> spec_modify e s
      | Cancel \<Rightarrow> spec_cancel (ev_order_id e) s
      | Trade \<Rightarrow> spec_trade (ev_order_id e) (ev_quantity e) s
      | Reduce \<Rightarrow> spec_trade (ev_order_id e) (ev_quantity e) s
      | Replace \<Rightarrow> spec_replace cap e s)"

fun spec_events :: "nat \<Rightarrow> market_data_event list \<Rightarrow> spec_book \<Rightarrow> process_result list \<times> spec_book" where
  "spec_events cap [] s = ([], s)"
| "spec_events cap (e # es) s =
     (let (r, s1) = spec_event cap e s; (rs, s2) = spec_events cap es s1 in (r # rs, s2))"

section \<open>The abstraction\<close>

definition queue_ids :: "order_book \<Rightarrow> side \<Rightarrow> price \<Rightarrow> order_id list" where
  "queue_ids bk sd p = map (\<lambda>i. o_id (orders bk ! i)) (slots_at sd p bk)"

definition abs_book :: "order_book \<Rightarrow> spec_book" where
  "abs_book bk = \<lparr>sb_orders = \<lambda>oid. find_order oid bk, sb_queue = queue_ids bk,
     sb_count = unat (active_orders bk), sb_next_priority = next_priority bk\<rparr>"

lemma abs_book_simps [simp]:
  "sb_orders (abs_book bk) = (\<lambda>oid. find_order oid bk)" "sb_queue (abs_book bk) = queue_ids bk"
  "sb_count (abs_book bk) = unat (active_orders bk)" "sb_next_priority (abs_book bk) = next_priority bk"
  by (simp_all add: abs_book_def)

lemma active_orders_count:
  assumes "slots_inv bk"
  shows "unat (active_orders bk) = card (active_slots bk)"
proof -
  have "card (active_slots bk) < 2 ^ LENGTH(64)"
    using active_slots_card [of bk] slots_invD(3) [OF assms] by (simp add: pool_ok_def npos_def)
  then show ?thesis
    using slots_invD(4) [OF assms] by (simp add: unsigned_of_nat take_bit_nat_eq_self)
qed

lemma map_remove1_inj:
  "inj_on f (insert x (set xs)) \<Longrightarrow> map f (remove1 x xs) = remove1 (f x) (map f xs)"
  by (induction xs) (auto simp: inj_on_def)

lemma slots_at_active:
  "book_ok bk \<Longrightarrow> i \<in> set (slots_at sd p bk) \<Longrightarrow> i \<in> active_slots bk"
  using slots_at_entry(6) [OF book_okD(1)] book_okD(3) by blast

lemma queue_ids_remove:
  assumes "book_ok bk" and "oi \<in> active_slots bk"
  shows "map (\<lambda>i. o_id (orders bk ! i)) (remove1 oi (slots_at sd p bk))
    = (if sd = o_side (orders bk ! oi) \<and> p = o_price (orders bk ! oi)
       then remove1 (o_id (orders bk ! oi)) (queue_ids bk sd p) else queue_ids bk sd p)"
proof (cases "sd = o_side (orders bk ! oi) \<and> p = o_price (orders bk ! oi)")
  case True
  have "inj_on (\<lambda>i. o_id (orders bk ! i)) (insert oi (set (slots_at sd p bk)))"
    using order_ids_unique [OF book_okD(2) [OF assms(1)]] slots_at_active [OF assms(1)] assms(2)
    by (intro inj_onI) blast
  with True map_remove1_inj [OF this] show ?thesis by (simp add: queue_ids_def)
next
  case False
  then have "oi \<notin> set (slots_at sd p bk)"
    using slots_at_entry(3,4) [OF book_okD(1) [OF assms(1)]] by blast
  with False show ?thesis by (auto simp: queue_ids_def remove1_idem)
qed

lemma map_ids_cong:
  assumes "\<And>i. i \<noteq> x \<Longrightarrow> slot_data (orders bk' ! i) = slot_data (orders bk ! i)" and "x \<notin> set xs"
  shows "map (\<lambda>i. o_id (orders bk' ! i)) xs = map (\<lambda>i. o_id (orders bk ! i)) xs"
proof (intro map_cong refl)
  fix i assume "i \<in> set xs"
  with assms(2) have "i \<noteq> x" by blast
  from assms(1) [OF this] show "o_id (orders bk' ! i) = o_id (orders bk ! i)" by (simp add: slot_data_def)
qed

lemma remove1_notin: "distinct xs \<Longrightarrow> x \<notin> set (remove1 x xs)"
  by simp

text \<open>The four updates of the concrete book, seen through the abstraction.\<close>

lemma abs_drop_order:
  assumes ok: "book_ok bk" and oi: "oi \<in> active_slots bk"
  shows "abs_book (drop_order oi bk) = (abs_book bk)\<lparr>
      sb_orders := (sb_orders (abs_book bk))(o_id (orders bk ! oi) := None),
      sb_queue := set_queue (o_side (orders bk ! oi)) (o_price (orders bk ! oi))
        (remove1 (o_id (orders bk ! oi))) (queue_ids bk),
      sb_count := sb_count (abs_book bk) - 1\<rparr>"
proof -
  let ?b = "drop_order oi bk"
  note b = book_okD [OF ok]
  note dr = drop_order_ok [OF ok oi]
  note inv = b(2) book_okD(2) [OF dr(1)]
  have ord: "(\<lambda>k. find_order k ?b) = (\<lambda>k. find_order k bk)(o_id (orders bk ! oi) := None)"
    using find_order_drop [OF inv oi dr(2,4)] by (simp add: fun_eq_iff)
  have que: "queue_ids ?b = set_queue (o_side (orders bk ! oi)) (o_price (orders bk ! oi))
        (remove1 (o_id (orders bk ! oi))) (queue_ids bk)"
  proof (intro ext)
    fix sd p
    have "oi \<notin> set (remove1 oi (slots_at sd p bk))"
      using slots_at_distinct [OF b(1)] by (rule remove1_notin)
    from map_ids_cong [OF dr(4) this] queue_ids_remove [OF ok oi, of sd p]
    show "queue_ids ?b sd p = set_queue (o_side (orders bk ! oi)) (o_price (orders bk ! oi))
        (remove1 (o_id (orders bk ! oi))) (queue_ids bk) sd p"
      by (auto simp: queue_ids_def dr(3) set_queue_def)
  qed
  have "unat (active_orders ?b) = unat (active_orders bk) - 1"
    using active_orders_count [OF inv(1)] active_orders_count [OF inv(2)] dr(2) oi by simp
  then show ?thesis using ord que by (simp add: abs_book_def drop_order_fields)
qed

lemma abs_rest_order:
  assumes ok: "book_ok bk" and q: "q \<noteq> 0" and new: "find_order oid bk = None"
    and free: "free_order bk \<noteq> npos" and avail: "level_available sd p bk"
  shows "abs_book (snd (rest_order oid sd p q bk)) = (abs_book bk)\<lparr>
      sb_orders := (sb_orders (abs_book bk))(oid \<mapsto> \<lparr>ov_id = oid, ov_side = sd, ov_price = p,
        ov_quantity = q, ov_priority = next_priority bk\<rparr>),
      sb_queue := set_queue sd p (\<lambda>ids. ids @ [oid]) (queue_ids bk),
      sb_count := sb_count (abs_book bk) + 1, sb_next_priority := next_priority bk + 1\<rparr>"
proof -
  let ?b = "snd (rest_order oid sd p q bk)" and ?f = "free_order bk"
  have nf: "find_order_index oid bk = npos" using new by (simp add: find_order_index_npos)
  note b = book_okD [OF ok]
  note re = rest_order_ok [OF ok q nf free avail]
  note inv = b(2) book_okD(2) [OF re(2)]
  note da = re(6) [unfolded slot_data_def prod.inject]
  have ord: "(\<lambda>k. find_order k ?b) = (\<lambda>k. find_order k bk)(oid \<mapsto> order_view_of (orders ?b ! ?f))"
    using find_order_write [OF inv _ re(3,7)] re(3,4) da by (simp add: fun_eq_iff)
  have que: "queue_ids ?b = set_queue sd p (\<lambda>ids. ids @ [oid]) (queue_ids bk)"
  proof (intro ext)
    fix sd' p'
    have "?f \<notin> set (slots_at sd' p' bk)" using re(4) slots_at_active [OF ok] by blast
    from map_ids_cong [OF re(7) this]
    show "queue_ids ?b sd' p' = set_queue sd p (\<lambda>ids. ids @ [oid]) (queue_ids bk) sd' p'"
      using da by (auto simp: queue_ids_def re(5) set_queue_def)
  qed
  have "unat (active_orders ?b) = unat (active_orders bk) + 1"
    using active_orders_count [OF inv(1)] active_orders_count [OF inv(2)] re(3,4) by simp
  then show ?thesis using ord que da re(8) by (simp add: abs_book_def order_view_of_def)
qed

lemma abs_relocate:
  assumes ok: "book_ok bk" and oi: "oi \<in> active_slots bk" and q: "q \<noteq> 0"
    and room: "level_room (level_lookup bk)"
  shows "abs_book (snd (relocate oi sd p q bk)) = (abs_book bk)\<lparr>
      sb_orders := (sb_orders (abs_book bk))(o_id (orders bk ! oi) \<mapsto> \<lparr>ov_id = o_id (orders bk ! oi),
        ov_side = sd, ov_price = p, ov_quantity = q, ov_priority = next_priority bk\<rparr>),
      sb_queue := set_queue sd p (\<lambda>ids. ids @ [o_id (orders bk ! oi)])
        (set_queue (o_side (orders bk ! oi)) (o_price (orders bk ! oi))
          (remove1 (o_id (orders bk ! oi))) (queue_ids bk)),
      sb_next_priority := next_priority bk + 1\<rparr>"
proof -
  let ?b = "snd (relocate oi sd p q bk)" and ?id = "o_id (orders bk ! oi)"
  note b = book_okD [OF ok]
  note re = relocate_ok [OF ok oi q room, where sd = sd and p = p]
  note inv = b(2) book_okD(2) [OF re(2)]
  note da = re(5) [unfolded slot_data_def prod.inject]
  have ins: "active_slots ?b = insert oi (active_slots bk)" "oi \<in> active_slots ?b"
    using re(3) oi by auto
  have ord: "(\<lambda>k. find_order k ?b) = (\<lambda>k. find_order k bk)(?id \<mapsto> order_view_of (orders ?b ! oi))"
    using find_order_write [OF inv ins(2,1) re(6)] da by (simp add: fun_eq_iff)
  have que: "queue_ids ?b = set_queue sd p (\<lambda>ids. ids @ [?id])
      (set_queue (o_side (orders bk ! oi)) (o_price (orders bk ! oi)) (remove1 ?id) (queue_ids bk))"
  proof (intro ext)
    fix sd' p'
    have "oi \<notin> set (remove1 oi (slots_at sd' p' bk))"
      using slots_at_distinct [OF b(1)] by (rule remove1_notin)
    note m = map_ids_cong [OF re(6) this] queue_ids_remove [OF ok oi, of sd' p']
    show "queue_ids ?b sd' p' = set_queue sd p (\<lambda>ids. ids @ [?id])
      (set_queue (o_side (orders bk ! oi)) (o_price (orders bk ! oi)) (remove1 ?id) (queue_ids bk)) sd' p'"
      using m da by (auto simp: queue_ids_def re(4) set_queue_def)
  qed
  show ?thesis using ord que da re(7,8) by (simp add: abs_book_def order_view_of_def)
qed

lemma abs_requantify:
  assumes ok: "book_ok bk" "book_ok bk'" and oi: "oi \<in> active_slots bk"
    and os: "orders bk' = (orders bk)[oi := (orders bk ! oi)\<lparr>o_quantity := q\<rparr>]"
    and act: "active_slots bk' = active_slots bk" and sl: "\<And>sd p. slots_at sd p bk' = slots_at sd p bk"
    and "active_orders bk' = active_orders bk" "next_priority bk' = next_priority bk"
  shows "abs_book bk' = (abs_book bk)\<lparr>sb_orders := (sb_orders (abs_book bk))
      (o_id (orders bk ! oi) \<mapsto> (order_view_of (orders bk ! oi))\<lparr>ov_quantity := q\<rparr>)\<rparr>"
proof -
  note inv = book_okD(2) [OF ok(1)] book_okD(2) [OF ok(2)]
  have oil: "oi < length (orders bk)" by (rule active_slot_less [OF oi])
  have data: "slot_data (orders bk' ! i) = slot_data (orders bk ! i)" if "i \<noteq> oi" for i
    using that by (simp add: os)
  have ids: "o_id (orders bk' ! i) = o_id (orders bk ! i)" for i
    using oil by (cases "i = oi") (simp_all add: os)
  have view: "order_view_of (orders bk' ! oi) = (order_view_of (orders bk ! oi))\<lparr>ov_quantity := q\<rparr>"
    using oil by (simp add: os order_view_of_def)
  have ins: "active_slots bk' = insert oi (active_slots bk)" "oi \<in> active_slots bk'" using act oi by auto
  have "find_order k bk' = ((\<lambda>k. find_order k bk)(o_id (orders bk ! oi) \<mapsto> order_view_of (orders bk' ! oi))) k" for k
    using find_order_write [OF inv ins(2,1) data, of k] ids by simp
  then have ord: "(\<lambda>k. find_order k bk') = (\<lambda>k. find_order k bk)(o_id (orders bk ! oi) \<mapsto> order_view_of (orders bk' ! oi))"
    by (rule ext)
  have que: "queue_ids bk' = queue_ids bk"
    by (intro ext) (simp add: queue_ids_def sl ids)
  show ?thesis using ord que view assms(7,8) by (simp add: abs_book_def)
qed

section \<open>Refinement, handler by handler\<close>

text \<open>
  \<^verbatim>\<open>refines_on cap bk (r, bk') (r', s')\<close>: the concrete step from \<^verbatim>\<open>bk\<close> returned the specified
  result, ended in a well-formed book of the same capacity and represents the specified state.
\<close>

definition refines :: "order_book \<Rightarrow> process_result \<times> order_book \<Rightarrow> process_result \<times> spec_book \<Rightarrow> bool" where
  "refines bk c a \<longleftrightarrow> fst c = fst a \<and> abs_book (snd c) = snd a \<and> book_ok (snd c)
     \<and> length (orders (snd c)) = length (orders bk)"

lemma refines_same: "book_ok bk \<Longrightarrow> refines bk (r, bk) (r, abs_book bk)"
  by (simp add: refines_def)

lemma spec_count_full:
  "book_ok bk \<Longrightarrow> sb_count (abs_book bk) = length (orders bk) \<longleftrightarrow> free_order bk = npos"
  using free_order_count [of bk] active_orders_count [OF book_okD(2)] by simp

lemma rest_order_available:
  assumes "book_ok bk" and "free_order bk \<noteq> npos" and "level_room (level_lookup bk)"
  shows "level_available sd p bk"
proof (rule level_available_free [OF book_okD(1) [OF assms(1)] _ assms(3)])
  show "card (queued bk) < length (orders bk)"
    using free_order_count [OF assms(1)] assms(2) active_slots_card [of bk] book_okD(3) [OF assms(1)]
    by simp
qed

lemma rest_order_refines:
  assumes ok: "book_ok bk" and room: "level_room (level_lookup bk)"
  shows "refines bk (rest_order oid sd p q bk) (spec_rest (length (orders bk)) oid sd p q (abs_book bk))"
proof -
  consider "q = 0" | "q \<noteq> 0" "find_order oid bk \<noteq> None" | "q \<noteq> 0" "find_order oid bk = None" "free_order bk = npos"
    | "q \<noteq> 0" "find_order oid bk = None" "free_order bk \<noteq> npos" by blast
  then show ?thesis
  proof cases
    case 1
    with ok show ?thesis by (simp add: rest_order_rejects(1) spec_rest_def refines_same)
  next
    case 2
    with ok rest_order_rejects(2) [of q oid bk sd p] show ?thesis
      by (simp add: find_order_index_npos spec_rest_def refines_same)
  next
    case 3
    with ok rest_order_rejects(3) [of q oid bk sd p] spec_count_full [OF ok] show ?thesis
      by (simp add: find_order_index_npos spec_rest_def refines_same)
  next
    case 4
    have nf: "find_order_index oid bk = npos" using 4(2) by (simp add: find_order_index_npos)
    note av = rest_order_available [OF ok 4(3) room]
    note re = rest_order_ok [OF ok 4(1) nf 4(3) av]
    show ?thesis
      using abs_rest_order [OF ok 4 av] re(1,2,10) 4 spec_count_full [OF ok]
      by (simp add: refines_def spec_rest_def)
  qed
qed

lemma cancel_refines:
  assumes ok: "book_ok bk"
  shows "refines bk (cancel oid bk) (spec_cancel oid (abs_book bk))"
proof (rule find_order_cases [OF book_okD(2) [OF ok], of oid])
  assume "find_order oid bk = None" "find_order_index oid bk = npos"
  with ok cancel_cases(1) [OF ok] show ?thesis by (simp add: spec_cancel_def refines_same)
next
  fix i assume i: "find_order oid bk = Some (order_view_of (orders bk ! i))" "find_order_index oid bk = i"
    "i \<noteq> npos" "i \<in> active_slots bk" "o_id (orders bk ! i) = oid"
  with cancel_cases(2) [OF ok i(2,3)] drop_order_ok(1,6) [OF ok i(4)] abs_drop_order [OF ok i(4)]
  show ?thesis by (simp add: spec_cancel_def refines_def order_view_of_def)
qed

lemma trade_refines:
  assumes ok: "book_ok bk"
  shows "refines bk (trade oid q bk) (spec_trade oid q (abs_book bk))"
proof (cases "q = 0")
  case True
  with ok show ?thesis by (simp add: trade_def spec_trade_def refines_same)
next
  case q: False
  show ?thesis
  proof (rule find_order_cases [OF book_okD(2) [OF ok], of oid])
    assume "find_order oid bk = None" "find_order_index oid bk = npos"
    with ok q show ?thesis by (simp add: trade_def spec_trade_def refines_same)
  next
    fix i assume i: "find_order oid bk = Some (order_view_of (orders bk ! i))" "find_order_index oid bk = i"
      "i \<noteq> npos" "i \<in> active_slots bk" "o_id (orders bk ! i) = oid"
    let ?r = "orders bk ! i"
    have view: "ov_quantity (order_view_of ?r) = o_quantity ?r" by (simp add: order_view_of_def)
    consider "q > o_quantity ?r" | "q = o_quantity ?r" | "q < o_quantity ?r" by (rule linorder_cases)
    then show ?thesis
    proof cases
      case 1
      with ok q i show ?thesis by (simp add: trade_def spec_trade_def Let_def view refines_same)
    next
      case 2
      with cancel_refines [OF ok, of oid] q i show ?thesis
        by (simp add: trade_def spec_trade_def Let_def view)
    next
      case 3
      define bk' where "bk' = upd_level (o_level ?r) (\<lambda>l. l\<lparr>l_total_quantity := l_total_quantity l - q\<rparr>)
        (upd_order i (\<lambda>r. r\<lparr>o_quantity := o_quantity r - q\<rparr>) bk)"
      have os: "orders bk' = (orders bk)[i := ?r\<lparr>o_quantity := o_quantity ?r - q\<rparr>]"
        by (simp add: bk'_def)
      have nz: "o_quantity ?r - q \<noteq> 0" using 3 by auto
      have lt: "\<not> q > o_quantity ?r" "q \<noteq> o_quantity ?r" using 3 by auto
      have rq: "book_ok bk'" "active_slots bk' = active_slots bk" "slots_at sd p bk' = slots_at sd p bk" for sd p
        by (rule requantify_ok [OF ok i(4) nz os]; simp add: bk'_def)+
      have "trade oid q bk = (Applied, bk')"
        using q i lt by (simp add: trade_def Let_def bk'_def)
      moreover have "abs_book bk' = snd (spec_trade oid q (abs_book bk))"
        "fst (spec_trade oid q (abs_book bk)) = Applied"
        using abs_requantify [OF ok rq(1) i(4) os rq(2,3)] q i lt
        by (simp_all add: spec_trade_def view bk'_def)
      ultimately show ?thesis using rq(1) by (simp add: refines_def os)
    qed
  qed
qed

lemma modify_refines:
  assumes ok: "book_ok bk" and room: "level_room (level_lookup bk)"
  shows "refines bk (modify e bk) (spec_modify e (abs_book bk))"
proof (cases "ev_quantity e = 0")
  case True
  with ok show ?thesis by (simp add: modify_def spec_modify_def refines_same)
next
  case q: False
  show ?thesis
  proof (rule find_order_cases [OF book_okD(2) [OF ok], of "ev_order_id e"])
    assume "find_order (ev_order_id e) bk = None" "find_order_index (ev_order_id e) bk = npos"
    with ok q show ?thesis by (simp add: modify_def spec_modify_def refines_same Let_def)
  next
    fix i assume i: "find_order (ev_order_id e) bk = Some (order_view_of (orders bk ! i))"
      "find_order_index (ev_order_id e) bk = i" "i \<noteq> npos" "i \<in> active_slots bk"
      "o_id (orders bk ! i) = ev_order_id e"
    let ?r = "orders bk ! i" and ?q = "ev_quantity e"
    have view: "ov_side (order_view_of ?r) = o_side ?r" "ov_price (order_view_of ?r) = o_price ?r"
      by (simp_all add: order_view_of_def)
    show ?thesis
    proof (cases "o_side ?r = ev_side e \<and> o_price ?r = ev_price e")
      case True
      define bk' where "bk' = upd_order i (o_quantity_update (\<lambda>_. ?q)) (upd_level (o_level ?r)
        (\<lambda>l. l\<lparr>l_total_quantity := l_total_quantity l - o_quantity ?r + ?q\<rparr>) bk)"
      have os: "orders bk' = (orders bk)[i := ?r\<lparr>o_quantity := ?q\<rparr>]" by (simp add: bk'_def)
      have rq: "book_ok bk'" "active_slots bk' = active_slots bk" "slots_at sd p bk' = slots_at sd p bk" for sd p
        by (rule requantify_ok [OF ok i(4) q os]; simp add: bk'_def)+
      have "modify e bk = (Applied, bk')"
        using q i True by (simp add: modify_def Let_def bk'_def)
      moreover have "abs_book bk' = snd (spec_modify e (abs_book bk))"
        "fst (spec_modify e (abs_book bk)) = Applied"
        using abs_requantify [OF ok rq(1) i(4) os rq(2,3)] q i True
        by (simp_all add: spec_modify_def view bk'_def)
      ultimately show ?thesis using rq(1) by (simp add: refines_def os)
    next
      case False
      from modify_relocate [OF ok q i(2,3) False]
      have m: "modify e bk = relocate i (ev_side e) (ev_price e) ?q bk" .
      show ?thesis
        using relocate_ok(1,2,9) [OF ok i(4) q room] abs_relocate [OF ok i(4) q room] q i False
        by (auto simp: m refines_def spec_modify_def view)
    qed
  qed
qed

lemma replace_refines:
  assumes ok: "book_ok bk" and room: "level_room (level_lookup bk)"
  shows "refines bk (replace e bk) (spec_replace (length (orders bk)) e (abs_book bk))"
proof (cases "ev_quantity e = 0")
  case True
  with ok show ?thesis by (simp add: replace_def spec_replace_def refines_same)
next
  case q: False
  show ?thesis
  proof (rule find_order_cases [OF book_okD(2) [OF ok], of "ev_order_id e"])
    assume "find_order (ev_order_id e) bk = None" "find_order_index (ev_order_id e) bk = npos"
    with ok q show ?thesis by (simp add: replace_def spec_replace_def refines_same Let_def)
  next
    fix i assume i: "find_order (ev_order_id e) bk = Some (order_view_of (orders bk ! i))"
      "find_order_index (ev_order_id e) bk = i" "i \<noteq> npos" "i \<in> active_slots bk"
      "o_id (orders bk ! i) = ev_order_id e"
    show ?thesis
    proof (cases "ev_new_order_id e \<noteq> ev_order_id e \<and> find_order (ev_new_order_id e) bk \<noteq> None")
      case True
      with ok q i show ?thesis
        by (simp add: replace_def spec_replace_def refines_same Let_def find_order_index_npos)
    next
      case False
      define b1 where "b1 = snd (cancel (ev_order_id e) bk)"
      have b1: "b1 = drop_order i bk" using cancel_cases(2) [OF ok i(2,3)] by (simp add: b1_def)
      note dr = drop_order_ok [OF ok i(4), folded b1]
      have abs1: "abs_book b1 = snd (spec_cancel (ev_order_id e) (abs_book bk))"
        using cancel_refines [OF ok, of "ev_order_id e"] by (simp add: refines_def b1_def)
      have "replace e bk = rest_order (ev_new_order_id e) (o_side (orders bk ! i)) (ev_price e) (ev_quantity e) b1"
        using q i False by (auto simp: replace_def Let_def find_order_index_npos b1_def)
      moreover have "spec_replace (length (orders bk)) e (abs_book bk) = spec_rest (length (orders bk))
          (ev_new_order_id e) (o_side (orders bk ! i)) (ev_price e) (ev_quantity e) (abs_book b1)"
        using q i False by (auto simp: spec_replace_def abs1 order_view_of_def)
      ultimately show ?thesis
        using rest_order_refines [OF dr(1) dr(5) [OF room]] dr(6) by (simp add: refines_def)
    qed
  qed
qed

lemma process_event_refines:
  "book_ok bk \<Longrightarrow> level_room (level_lookup bk) \<Longrightarrow>
   refines bk (process_event e bk) (spec_event (length (orders bk)) e (abs_book bk))"
  by (cases "ev_type e")
    (simp_all add: process_event_def spec_event_def add_def rest_order_refines modify_refines
      cancel_refines trade_refines replace_refines)

section \<open>How long the level index has room\<close>

text \<open>
  Empty slots of the level index are only ever consumed: a new level takes at most one, and an
  erased one becomes a tombstone. So the index has room for as many events as it has slots.
\<close>

definition level_empties :: "level_slot list \<Rightarrow> nat" where
  "level_empties t = length (filter (\<lambda>s. ls_state s = Empty) t)"

lemma level_room_empties: "level_room t \<longleftrightarrow> 0 < level_empties t"
  unfolding level_room_def level_empties_def length_greater_0_conv filter_empty_conv
  by (metis in_set_conv_nth)

lemma filter_update_loses_one: "length (filter P t) \<le> Suc (length (filter P (t[i := x])))"
proof (cases "i < length t")
  case True
  then have "t = take i t @ t ! i # drop (Suc i) t" by (rule id_take_nth_drop)
  then have "length (filter P t) = length (filter P (take i t)) + length (filter P [t ! i])
      + length (filter P (drop (Suc i) t))"
    by (metis (no_types) append_Cons append_Nil filter_append length_append group_cancel.add1)
  moreover have "length (filter P (t[i := x])) \<ge> length (filter P (take i t)) + length (filter P (drop (Suc i) t))"
    using True by (simp add: upd_conv_take_nth_drop)
  moreover have "length (filter P [t ! i]) \<le> 1" by simp
  ultimately show ?thesis by linarith
qed (simp add: list_update_beyond)

lemma filter_update_same:
  assumes "i < length t" and "P x = P (t ! i)"
  shows "length (filter P (t[i := x])) = length (filter P t)"
proof -
  have "length (filter P t) = length (filter P (take i t @ t ! i # drop (Suc i) t))"
    using id_take_nth_drop [OF assms(1)] by simp
  with assms show ?thesis by (simp add: upd_conv_take_nth_drop)
qed

lemma insert_level_empties: "level_empties t \<le> Suc (level_empties (snd (insert_level_slot t k v)))"
  using filter_update_loses_one [of "\<lambda>s. ls_state s = Empty" t]
  by (simp add: level_empties_def insert_level_slot_unfold split: prod.split option.split)

lemma erase_level_empties:
  assumes "level_index_ok t"
  shows "level_empties (erase_level_slot t k) = level_empties t"
proof (rule level_find_cases [OF assms, of k])
  fix i assume "i < length t" "ls_state (t ! i) = Occupied" "lring.find_in t k = Some i"
  then show ?thesis
    unfolding level_empties_def erase_level_slot_unfold
    by (simp add: filter_update_same)
qed (simp add: erase_level_slot_unfold)

lemma acquire_level_empties:
  "level_empties (level_lookup bk) \<le> Suc (level_empties (level_lookup (snd (acquire_level sd p bk))))"
  using insert_level_empties [of "level_lookup bk" "(sd, p)" "free_level bk"]
  by (auto simp: acquire_level_def Let_def split: prod.split bool.split)

lemma release_level_lookup:
  "level_lookup (release_level i bk) = level_lookup bk
    \<or> (\<exists>k. level_lookup (release_level i bk) = erase_level_slot (level_lookup bk) k)"
  by (auto simp: release_level_def Let_def)

lemma unlink_empties:
  assumes "depth_ok bk"
  shows "level_empties (level_lookup (unlink oi bk)) = level_empties (level_lookup bk)"
proof -
  have ok: "level_index_ok (level_lookup bk)" by (rule dir_invD(3) [OF depth_okD(1) [OF assms]])
  have "level_lookup (unlink oi bk) = level_lookup bk
      \<or> (\<exists>k. level_lookup (unlink oi bk) = erase_level_slot (level_lookup bk) k)"
    using release_level_lookup [of _ "detach oi bk"] by (auto simp: unlink_def Let_def)
  then show ?thesis using erase_level_empties [OF ok] by auto
qed

lemma rest_order_empties:
  assumes "book_ok bk" and room: "level_room (level_lookup bk)"
  shows "level_empties (level_lookup bk) \<le> Suc (level_empties (level_lookup (snd (rest_order oid sd p q bk))))"
proof (cases "q \<noteq> 0 \<and> find_order_index oid bk = npos \<and> free_order bk \<noteq> npos")
  case True
  then show ?thesis
    using rest_order_ok(11) [OF assms(1) _ _ _ rest_order_available [OF assms(1) _ room]]
      acquire_level_empties [of bk sd p] by simp
next
  case False
  then have "snd (rest_order oid sd p q bk) = bk" by (auto simp: rest_order_def)
  then show ?thesis by simp
qed

lemma cancel_empties:
  assumes "book_ok bk"
  shows "level_empties (level_lookup (snd (cancel oid bk))) = level_empties (level_lookup bk)"
  using cancel_cases [OF assms, of oid] unlink_empties [OF book_okD(1) [OF assms]]
  by (cases "find_order_index oid bk = npos") (simp_all add: drop_order_fields)

lemma trade_empties:
  assumes "book_ok bk"
  shows "level_empties (level_lookup (snd (trade oid q bk))) = level_empties (level_lookup bk)"
  using cancel_empties [OF assms, of oid] by (simp add: trade_def Let_def)

lemma modify_empties:
  assumes ok: "book_ok bk" and room: "level_room (level_lookup bk)"
  shows "level_empties (level_lookup bk) \<le> Suc (level_empties (level_lookup (snd (modify e bk))))"
proof (cases "ev_quantity e \<noteq> 0 \<and> find_order_index (ev_order_id e) bk \<noteq> npos
    \<and> \<not> (o_side (orders bk ! find_order_index (ev_order_id e) bk) = ev_side e
      \<and> o_price (orders bk ! find_order_index (ev_order_id e) bk) = ev_price e)")
  case True
  let ?i = "find_order_index (ev_order_id e) bk"
  have m: "modify e bk = relocate ?i (ev_side e) (ev_price e) (ev_quantity e) bk"
    using modify_relocate [OF ok _ refl] True by blast
  have "?i \<in> active_slots bk"
    using find_order_iff(2) [OF book_okD(2) [OF ok] refl] True by blast
  from relocate_ok(10) [OF ok this _ room, of "ev_quantity e" "ev_side e" "ev_price e"] True
  show ?thesis
    using acquire_level_empties [of "unlink ?i bk" "ev_side e" "ev_price e"]
      unlink_empties [OF book_okD(1) [OF ok], of ?i] by (simp add: m)
next
  case False
  then have "level_lookup (snd (modify e bk)) = level_lookup bk"
    by (auto simp: modify_def Let_def)
  then show ?thesis by simp
qed

lemma replace_empties:
  assumes ok: "book_ok bk" and room: "level_room (level_lookup bk)"
  shows "level_empties (level_lookup bk) \<le> Suc (level_empties (level_lookup (snd (replace e bk))))"
proof -
  let ?b = "snd (cancel (ev_order_id e) bk)"
  have b: "book_ok ?b" "level_empties (level_lookup ?b) = level_empties (level_lookup bk)"
    using cancel_refines [OF ok] cancel_empties [OF ok] by (simp_all add: refines_def)
  with room have "level_room (level_lookup ?b)" by (simp add: level_room_empties)
  from rest_order_empties [OF b(1) this] b(2) show ?thesis
    by (simp add: replace_def Let_def)
qed

lemma process_event_empties:
  "book_ok bk \<Longrightarrow> level_room (level_lookup bk) \<Longrightarrow>
   level_empties (level_lookup bk) \<le> Suc (level_empties (level_lookup (snd (process_event e bk))))"
  by (cases "ev_type e")
    (simp_all add: process_event_def add_def rest_order_empties modify_empties cancel_empties
      trade_empties replace_empties)

text \<open>Only events that may open a level need room in the level index.\<close>

definition may_open_level :: "market_data_event \<Rightarrow> bool" where
  "may_open_level e \<longleftrightarrow> ev_type e = Add \<or> ev_type e = Modify \<or> ev_type e = Replace"

lemma shrinking_event_refines:
  assumes "book_ok bk" and "\<not> may_open_level e"
  shows "refines bk (process_event e bk) (spec_event (length (orders bk)) e (abs_book bk))"
    and "level_empties (level_lookup (snd (process_event e bk))) = level_empties (level_lookup bk)"
  using assms
  by (cases "ev_type e"; simp add: may_open_level_def process_event_def spec_event_def cancel_refines
      trade_refines cancel_empties trade_empties)+

lemma event_keeps_room:
  assumes "book_ok bk" and "length (filter may_open_level (e # es)) \<le> level_empties (level_lookup bk)"
  shows "refines bk (process_event e bk) (spec_event (length (orders bk)) e (abs_book bk))
    \<and> length (filter may_open_level es) \<le> level_empties (level_lookup (snd (process_event e bk)))"
proof (cases "may_open_level e")
  case True
  then have room: "level_room (level_lookup bk)" using assms(2) by (simp add: level_room_empties)
  show ?thesis
    using process_event_refines [OF assms(1) room] process_event_empties [OF assms(1) room, of e] assms(2) True by simp
next
  case False
  with shrinking_event_refines [OF assms(1)] assms(2) show ?thesis by simp
qed

lemma process_events_refines:
  assumes "book_ok bk" and "length (filter may_open_level es) \<le> level_empties (level_lookup bk)"
  shows "fst (process_events es bk) = fst (spec_events (length (orders bk)) es (abs_book bk))"
    and "abs_book (snd (process_events es bk)) = snd (spec_events (length (orders bk)) es (abs_book bk))"
    and "book_ok (snd (process_events es bk))"
proof -
  have "fst (process_events es bk) = fst (spec_events (length (orders bk)) es (abs_book bk))
    \<and> abs_book (snd (process_events es bk)) = snd (spec_events (length (orders bk)) es (abs_book bk))
    \<and> book_ok (snd (process_events es bk))"
    using assms
  proof (induction es arbitrary: bk)
    case Nil
    then show ?case by simp
  next
    case (Cons e es)
    from event_keeps_room [OF Cons.prems] Cons.IH [of "snd (process_event e bk)"] show ?case
      by (simp add: split_beta refines_def)
  qed
  then show "fst (process_events es bk) = fst (spec_events (length (orders bk)) es (abs_book bk))"
    "abs_book (snd (process_events es bk)) = snd (spec_events (length (orders bk)) es (abs_book bk))"
    "book_ok (snd (process_events es bk))" by simp_all
qed

section \<open>The constructed book\<close>

lemma new_book_cases:
  "new_book n = Inl InvalidArgument \<longleftrightarrow> n = 0 \<or> n > npos"
  by (simp add: new_book_def)

lemma free_chain_pool:
  assumes "0 < n" and "n \<le> npos" and "length rs = n"
    and "\<And>i. i < n \<Longrightarrow> nx (rs ! i) = free_chain_link n i" and "\<And>i. i < n \<Longrightarrow> \<not> act (rs ! i)"
  shows "pool_ok nx act rs 0"
proof -
  have "chain (\<lambda>i. nx (rs ! i)) 0 [0..<n]"
    using assms by (intro chain_upt) (simp_all add: free_chain_link_def)
  then show ?thesis
    unfolding pool_ok_def using assms by (intro conjI exI [of _ "[0..<n]"]) auto
qed

lemma new_book_fields:
  assumes "new_book n = Inr bk"
  shows "0 < n" "n \<le> npos" "length (orders bk) = n" "length (levels bk) = n" "free_order bk = 0"
    "free_level bk = 0" "active_orders bk = 0" "next_priority bk = 0" "fill_sequence bk = 0"
    "order_lookup bk = replicate (next_power_of_two (n * 2)) default_order_slot"
    "level_lookup bk = replicate (next_power_of_two (n * 2)) default_level_slot"
    "length (side_heap sd bk) = n" "side_heap_size sd bk = 0"
    "i < n \<Longrightarrow> orders bk ! i = default_order\<lparr>o_next_free := free_chain_link n i\<rparr>"
    "i < n \<Longrightarrow> levels bk ! i = default_level\<lparr>l_next_free := free_chain_link n i\<rparr>"
  using assms by (auto simp: new_book_def side_heap_def side_heap_size_def split: if_splits)

lemma new_book_inactive:
  assumes "new_book n = Inr bk"
  shows "active_slots bk = {}" "active_levels bk = {}"
  using new_book_fields [OF assms]
  by (auto simp: active_slots_def active_levels_def default_order_def default_level_def)

lemma new_book_ok:
  assumes new: "new_book n = Inr bk"
  shows "book_ok bk" and "abs_book bk = spec_empty" and "length (orders bk) = n"
    and "level_empties (level_lookup bk) = next_power_of_two (n * 2)"
proof -
  note f = new_book_fields [OF new] and none = new_book_inactive [OF new]
  obtain e where e: "next_power_of_two (n * 2) = 2 ^ e" using next_power_of_two_pow by blast
  have empty: "os_state default_order_slot = Empty" "ls_state default_level_slot = Empty"
    by (simp_all add: default_order_slot_def default_level_slot_def)
  have oi: "order_index_ok (order_lookup bk)" "\<And>k v. \<not> order_maps (order_lookup bk) k v"
    unfolding f(10) e using ring_ok_empty [of os_state default_order_slot order_home] order_home_less empty(1)
      ring_stores_empty [of os_state default_order_slot] by simp_all
  have li: "level_index_ok (level_lookup bk)" "\<And>k v. \<not> level_maps (level_lookup bk) k v"
    unfolding f(11) e using ring_ok_empty [of ls_state default_level_slot level_home] level_home_less empty(2)
      ring_stores_empty [of ls_state default_level_slot] by simp_all
  have mem: "ladder_members sd bk = {}" and lad: "ladder_ok sd bk" for sd
    by (simp_all add: ladder_members_def ladder_ok_def f(12,13) indexed_def heap_except_def)
  have lp: "pool_ok l_next_free l_active (levels bk) (free_level bk)"
    unfolding f(6) by (rule free_chain_pool [OF f(1,2,4)]) (simp_all add: f(15) default_level_def)
  have op: "pool_ok o_next_free o_active (orders bk) (free_order bk)"
    unfolding f(5) by (rule free_chain_pool [OF f(1,2,3)]) (simp_all add: f(14) default_order_def)
  have dir: "dir_inv bk"
    using f(2,4,12) li lad mem lp none(2) by (simp add: dir_inv_def level_at_def)
  have q: "queues_inv bk (queue_slots bk)" using f(2,3) none(2) by (simp add: queues_inv_def)
  have dep: "depth_ok bk" using dir q none(2) f(3,4) by (simp add: depth_ok_def)
  have "n < next_power_of_two (n * 2)" using next_power_of_two_ge [of "n * 2"] f(1) by linarith
  then have inv: "slots_inv bk"
    using oi op none(1) f(3,7,10) by (simp add: slots_inv_def)
  show ok: "book_ok bk"
    using dep inv none by (simp add: book_ok_def queued_def linked_def)
  have "find_order k bk = None" for k using find_order_none [OF inv] none(1) by simp
  moreover have "slots_at sd p bk = []" for sd p
    using none(2) by (intro slots_at_level(2) [OF dir]) (simp add: level_at_def)
  ultimately show "abs_book bk = spec_empty"
    using f(7,8) by (simp add: abs_book_def spec_empty_def queue_ids_def fun_eq_iff)
  show "length (orders bk) = n" by (rule f(3))
  show "level_empties (level_lookup bk) = next_power_of_two (n * 2)"
    by (simp add: level_empties_def f(11) empty filter_replicate)
qed

text \<open>Short runs from construction, for evaluating examples through the specification.\<close>

lemma process_events_empties:
  assumes "book_ok bk" and "length es \<le> level_empties (level_lookup bk)"
  shows "level_empties (level_lookup bk) \<le> length es + level_empties (level_lookup (snd (process_events es bk)))"
  using assms
proof (induction es arbitrary: bk)
  case (Cons e es)
  let ?b = "snd (process_event e bk)"
  have room: "level_room (level_lookup bk)" using Cons.prems(2) by (simp add: level_room_empties)
  note step = process_event_empties [OF Cons.prems(1) room, of e]
  have "book_ok ?b" using process_event_refines [OF Cons.prems(1) room, of e] by (simp add: refines_def)
  from Cons.IH [OF this] step Cons.prems(2) show ?case by (simp add: split_beta)
qed simp

lemma fresh_run:
  fixes n es
  defines "bk \<equiv> snd (process_events es (projr (new_book n)))"
  assumes "0 < n" and "n \<le> npos" and "length es < n * 2"
  shows "book_ok bk" and "abs_book bk = snd (spec_events n es spec_empty)" and "level_room (level_lookup bk)"
proof -
  let ?n = "projr (new_book n)"
  have new: "new_book n = Inr ?n" using assms by (simp add: new_book_def)
  note init = new_book_ok [OF new]
  have big: "length es < level_empties (level_lookup ?n)"
    unfolding init(4) using assms(4) next_power_of_two_ge [of "n * 2"] by linarith
  then have few: "length (filter may_open_level es) \<le> level_empties (level_lookup ?n)"
    using length_filter_le [of may_open_level es] by linarith
  show "book_ok bk" "abs_book bk = snd (spec_events n es spec_empty)"
    using process_events_refines [OF init(1) few] by (simp_all add: bk_def init(2,3))
  show "level_room (level_lookup bk)"
    using process_events_empties [OF init(1), of es] big by (simp add: bk_def level_room_empties)
qed

end
