(* ===== verification/BookProps.thy ===== *)
theory BookProps
  imports BookSpec
begin

text \<open>
  The properties of the order book in apply mode: the handlers implement the abstract book, the
  invariant holds along every run the level index can serve, and what happens once it cannot.
\<close>

section \<open>The level index fills up and stays full\<close>

lemma filter_update_no_gain: "\<not> P x \<Longrightarrow> length (filter P (t[i := x])) \<le> length (filter P t)"
proof (induction t arbitrary: i)
  case (Cons y ys)
  then show ?case by (cases i) (simp_all add: le_SucI)
qed simp

lemma insert_level_no_gain: "level_empties (snd (insert_level_slot t k v)) \<le> level_empties t"
  by (auto simp: level_empties_def insert_level_slot_unfold mk_level_slot_def
      intro!: filter_update_no_gain split: prod.split option.split)

lemma erase_level_no_gain: "level_empties (erase_level_slot t k) \<le> level_empties t"
  by (auto simp: level_empties_def erase_level_slot_unfold
      intro!: filter_update_no_gain split: option.split)

lemma acquire_level_no_gain:
  "level_empties (level_lookup (snd (acquire_level sd p bk))) \<le> level_empties (level_lookup bk)"
  using insert_level_no_gain [of "level_lookup bk" "(sd, p)" "free_level bk"]
  by (auto simp: acquire_level_def Let_def split: prod.split bool.split)

lemma unlink_no_gain: "level_empties (level_lookup (unlink oi bk)) \<le> level_empties (level_lookup bk)"
  using release_level_lookup [of "o_level (orders (detach oi bk) ! oi)" "detach oi bk"]
  by (auto simp: unlink_def Let_def erase_level_no_gain)

lemma cancel_no_gain:
  "level_empties (level_lookup (snd (cancel oid bk))) \<le> level_empties (level_lookup bk)"
  using unlink_no_gain by (simp add: cancel_def free_order_slot_def erase_order_lookup_def Let_def)

lemma rest_order_no_gain:
  "level_empties (level_lookup (snd (rest_order oid sd p q bk))) \<le> level_empties (level_lookup bk)"
proof -
  obtain li b1 where acq: "acquire_level sd p bk = (li, b1)" by (cases "acquire_level sd p bk")
  have "level_empties (level_lookup b1) \<le> level_empties (level_lookup bk)"
    using acquire_level_no_gain [of sd p bk] by (simp add: acq)
  moreover have "level_empties (level_lookup (unlink oi b)) \<le> level_empties (level_lookup bk)"
    if "level_lookup b = level_lookup b1" for b oi
    using unlink_no_gain [of oi b] that calculation by simp
  ultimately show ?thesis
    by (simp add: rest_order_def acq Let_def free_order_slot_def split: prod.split bool.split)
qed

lemma modify_no_gain:
  "level_empties (level_lookup (snd (modify e bk))) \<le> level_empties (level_lookup bk)"
proof -
  let ?i = "find_order_index (ev_order_id e) bk"
  obtain li b1 where acq: "acquire_level (ev_side e) (ev_price e) (unlink ?i bk) = (li, b1)"
    by (cases "acquire_level (ev_side e) (ev_price e) (unlink ?i bk)")
  have "level_empties (level_lookup b1) \<le> level_empties (level_lookup bk)"
    using acquire_level_no_gain [of "ev_side e" "ev_price e" "unlink ?i bk"] unlink_no_gain [of ?i bk]
    by (simp add: acq)
  then show ?thesis by (simp add: modify_def acq Let_def)
qed

lemma replace_no_gain:
  "level_empties (level_lookup (snd (replace e bk))) \<le> level_empties (level_lookup bk)"
  using order_trans [OF rest_order_no_gain cancel_no_gain] by (simp add: replace_def Let_def)

lemma process_event_no_gain:
  "level_empties (level_lookup (snd (process_event e bk))) \<le> level_empties (level_lookup bk)"
  using cancel_no_gain
  by (cases "ev_type e")
    (simp_all add: process_event_def add_def rest_order_no_gain modify_no_gain trade_def replace_no_gain Let_def)

lemma process_events_no_gain:
  "level_empties (level_lookup (snd (process_events es bk))) \<le> level_empties (level_lookup bk)"
proof (induction es arbitrary: bk)
  case (Cons e es)
  show ?case
    using order_trans [OF Cons.IH [of "snd (process_event e bk)"] process_event_no_gain [of e bk]]
    by (simp add: split_beta)
qed simp

lemma no_room_rest_order:
  assumes ok: "book_ok bk" and "q \<noteq> 0" and "find_order oid bk = None"
    and room: "\<not> level_room (level_lookup bk)" and "find_level_index sd p bk = npos"
  shows "fst (rest_order oid sd p q bk) = CapacityExhausted"
proof -
  have "\<not> level_available sd p bk" using room assms(5) by (simp add: level_available_def)
  then obtain b1 where "acquire_level sd p bk = (npos, b1)"
    by (rule acquire_level_fails [OF book_okD(1) [OF ok]])
  with assms show ?thesis by (simp add: rest_order_def find_order_index_npos)
qed

section \<open>Properties\<close>

text \<open>
  C1. Apply mode is correct from construction on: a book of capacity \<^verbatim>\<open>n\<close> that processes any events,
  of which at most as many as the level index has slots are adds, modifies or replaces, returns exactly the result codes of the abstract book,
  ends in the state the abstract book ends in (order map, FIFO queue of every side and price, count
  and priority counter), and is still well formed.
\<close>

theorem apply_mode_correct:
  assumes "new_book n = Inr bk" and "length (filter may_open_level es) \<le> next_power_of_two (n * 2)"
  shows "fst (process_events es bk) = fst (spec_events n es spec_empty)
    \<and> abs_book (snd (process_events es bk)) = snd (spec_events n es spec_empty)
    \<and> book_ok (snd (process_events es bk))"
  using process_events_refines [of bk es] new_book_ok [OF assms(1)] assms(2) by simp

lemma new_book_Inr: "0 < n \<Longrightarrow> n \<le> npos \<Longrightarrow> new_book n = Inr (projr (new_book n))"
  by (simp add: new_book_def)

definition sample_events :: "market_data_event list" where
  "sample_events =
     [default_event\<lparr>ev_order_id := 1, ev_price := 100, ev_quantity := 5\<rparr>,
      default_event\<lparr>ev_order_id := 2, ev_price := 100, ev_quantity := 7\<rparr>,
      default_event\<lparr>ev_type := Trade, ev_order_id := 1, ev_quantity := 2\<rparr>,
      default_event\<lparr>ev_type := Modify, ev_order_id := 1, ev_price := 99, ev_quantity := 4\<rparr>]"

lemma sample_events_spec:
  "fst (spec_events 2 sample_events spec_empty) = [Applied, Applied, Applied, Applied]"
  "sb_queue (snd (spec_events 2 sample_events spec_empty)) Buy 100 = [2]"
  "sb_queue (snd (spec_events 2 sample_events spec_empty)) Buy 99 = [1]"
  by (simp_all add: sample_events_def default_event_def spec_event_def spec_rest_def spec_trade_def
      spec_modify_def spec_empty_def set_queue_def)

theorem apply_mode_correct_witness:
  "fst (process_events sample_events (projr (new_book 2))) = [Applied, Applied, Applied, Applied]
   \<and> sb_queue (abs_book (snd (process_events sample_events (projr (new_book 2))))) Buy 100 = [2]"
proof -
  have "length (filter may_open_level sample_events) \<le> next_power_of_two (2 * 2)"
    using next_power_of_two_ge [of 4] by (simp add: sample_events_def may_open_level_def default_event_def)
  from apply_mode_correct [OF new_book_Inr this] show ?thesis
    by (simp add: npos_def sample_events_spec)
qed

text \<open>
  One event, from any well-formed book whose level index has an empty slot: \<^verbatim>\<open>process_event\<close>
  returns the specified result code, reaches the specified state, keeps the invariant and never
  changes the capacity.
\<close>

theorem process_event_simulates:
  assumes "book_ok bk" and "level_room (level_lookup bk)"
  shows "spec_event (length (orders bk)) e (abs_book bk)
      = (fst (process_event e bk), abs_book (snd (process_event e bk)))
    \<and> book_ok (snd (process_event e bk))
    \<and> length (orders (snd (process_event e bk))) = length (orders bk)"
  using process_event_refines [OF assms, of e] by (simp add: refines_def prod_eq_iff)

lemma new_book_room:
  assumes "new_book n = Inr bk"
  shows "level_room (level_lookup bk)"
  using new_book_ok(4) [OF assms] next_power_of_two_ge [of "n * 2"] new_book_fields(1) [OF assms]
  by (simp add: level_room_empties)

theorem process_event_simulates_witness:
  "fst (process_event (default_event\<lparr>ev_order_id := 1, ev_quantity := 5\<rparr>) (projr (new_book 2))) = Applied"
proof -
  let ?e = "default_event\<lparr>ev_order_id := 1, ev_quantity := 5\<rparr>"
  have n: "new_book 2 = Inr (projr (new_book 2))" by (rule new_book_Inr) (simp_all add: npos_def)
  have "fst (spec_event 2 ?e spec_empty) = Applied"
    by (simp add: spec_event_def spec_rest_def spec_empty_def default_event_def)
  with process_event_simulates [OF new_book_ok(1) [OF n] new_book_room [OF n], of ?e]
  show ?thesis unfolding new_book_ok(2,3) [OF n] by simp
qed

section \<open>A book whose level index is used up\<close>

text \<open>A book of capacity one, evaluated through the code: two prices whose home slots differ.\<close>

definition at_price :: "order_id \<Rightarrow> price \<Rightarrow> market_data_event" where
  "at_price oid p = default_event\<lparr>ev_order_id := oid, ev_price := p, ev_quantity := 5\<rparr>"

definition gone :: "order_id \<Rightarrow> market_data_event" where
  "gone oid = default_event\<lparr>ev_type := Cancel, ev_order_id := oid\<rparr>"

lemma next_power_of_two_2: "next_power_of_two 2 = Suc (Suc 0)"
  by (simp add: next_power_of_two_def while_unfold)

lemma new_book_1: "new_book 1 = Inr \<lparr>
    orders = [default_order], levels = [default_level],
    order_lookup = [default_order_slot, default_order_slot],
    level_lookup = [default_level_slot, default_level_slot],
    bid_heap = [0], ask_heap = [0], bid_heap_size = 0, ask_heap_size = 0, free_order = 0, free_level = 0,
    active_orders = 0, next_priority = 0, fill_sequence = 0\<rparr>"
  by (simp add: new_book_def npos_def next_power_of_two_2 free_chain_link_def default_order_def
    default_level_def)

lemmas eval_code =
  process_event_def add_def cancel_def rest_order_def acquire_level_def unlink_def detach_def release_level_def
  link_tail_def find_order_index_def find_level_index_def find_order_slot_def find_level_slot_def
  insert_order_slot_def insert_level_slot_def erase_order_slot_def erase_level_slot_def
  order_home_def level_home_def mix_def ladder_push_def ladder_remove_def ladder_sift_up_def
  ladder_sift_down_def sift_up.simps sift_down.simps best_child_def side_heap_def side_heap_size_def
  set_side_heap_def set_side_heap_size_def upd_level_def upd_order_def free_order_slot_def
  erase_order_lookup_def release_order_def release_level_entry_def fresh_order_def fresh_level_def
  mk_order_slot_def mk_level_slot_def level_slot_key_def
  default_order_def default_level_def default_order_slot_def default_level_slot_def default_event_def
  npos_def Let_def

definition churned_once :: order_book where
  "churned_once = snd (process_events [at_price 1 0, gone 1] (projr (new_book 1)))"

definition churned_used :: order_book where
  "churned_used = snd (process_event (at_price 2 1) churned_once)"

definition churned :: order_book where
  "churned = snd (process_event (gone 2) churned_used)"

lemma churned_once_eval:
  "churned_once = \<lparr>
    orders = [default_order\<lparr>o_id := 1, o_quantity := 5, o_level := 0\<rparr>],
    levels = [default_level],
    order_lookup = [default_order_slot, mk_order_slot 1 0\<lparr>os_state := Tombstone\<rparr>],
    level_lookup = [mk_level_slot (Buy, 0) 0\<lparr>ls_state := Tombstone\<rparr>, default_level_slot],
    bid_heap = [0], ask_heap = [0], bid_heap_size = 0, ask_heap_size = 0, free_order = 0, free_level = 0,
    active_orders = 0, next_priority = 1, fill_sequence = 0\<rparr>"
  unfolding churned_once_def new_book_1 by (simp add: eval_code at_price_def gone_def)

lemma churned_used_eval:
  "churned_used = \<lparr>
    orders = [fresh_order 2 Buy 1 5 1 0],
    levels = [default_level\<lparr>l_price := 1, l_total_quantity := 5, l_order_count := 1, l_head := 0, l_tail := 0,
      l_heap_pos := 0, l_active := True\<rparr>],
    order_lookup = [mk_order_slot 2 0, mk_order_slot 1 0\<lparr>os_state := Tombstone\<rparr>],
    level_lookup = [mk_level_slot (Buy, 0) 0\<lparr>ls_state := Tombstone\<rparr>, mk_level_slot (Buy, 1) 0],
    bid_heap = [0], ask_heap = [0], bid_heap_size = 1, ask_heap_size = 0, free_order = npos, free_level = npos,
    active_orders = 1, next_priority = 2, fill_sequence = 0\<rparr>"
  unfolding churned_used_def churned_once_eval by (simp add: eval_code at_price_def)

lemma churned_eval:
  "churned = \<lparr>
    orders = [default_order\<lparr>o_id := 2, o_price := 1, o_quantity := 5, o_priority := 1, o_level := 0\<rparr>],
    levels = [default_level\<lparr>l_price := 1\<rparr>],
    order_lookup = [mk_order_slot 2 0\<lparr>os_state := Tombstone\<rparr>, mk_order_slot 1 0\<lparr>os_state := Tombstone\<rparr>],
    level_lookup = [mk_level_slot (Buy, 0) 0\<lparr>ls_state := Tombstone\<rparr>, mk_level_slot (Buy, 1) 0\<lparr>ls_state := Tombstone\<rparr>],
    bid_heap = [0], ask_heap = [0], bid_heap_size = 0, ask_heap_size = 0, free_order = 0, free_level = 0,
    active_orders = 0, next_priority = 2, fill_sequence = 0\<rparr>"
  unfolding churned_def churned_used_eval by (simp add: eval_code gone_def)

lemma churned_ok: "book_ok churned_used" "book_ok churned"
  "abs_book churned_used = snd (spec_events 1 [at_price 1 0, gone 1, at_price 2 1] spec_empty)"
proof -
  let ?n = "projr (new_book 1)"
  have new: "new_book 1 = Inr ?n" by (rule new_book_Inr) (simp_all add: npos_def)
  have "length (filter may_open_level es) \<le> level_empties (level_lookup ?n)"
    if "length (filter may_open_level es) \<le> 2" for es
    using that unfolding new_book_ok(4) [OF new] mult_1 next_power_of_two_2 by simp
  from process_events_refines [OF new_book_ok(1) [OF new] this, unfolded new_book_ok(2,3) [OF new]]
  have run: "book_ok (snd (process_events es ?n)) \<and>
    abs_book (snd (process_events es ?n)) = snd (spec_events 1 es spec_empty)"
    if "length (filter may_open_level es) \<le> 2" for es using that by blast
  have used: "churned_used = snd (process_events [at_price 1 0, gone 1, at_price 2 1] ?n)"
    by (simp add: churned_used_def churned_once_def split_beta)
  show "book_ok churned_used"
    "abs_book churned_used = snd (spec_events 1 [at_price 1 0, gone 1, at_price 2 1] spec_empty)"
    unfolding used using run [of "[at_price 1 0, gone 1, at_price 2 1]"]
    by (simp_all add: may_open_level_def at_price_def gone_def default_event_def)
  have "churned = snd (process_events [at_price 1 0, gone 1, at_price 2 1, gone 2] ?n)"
    by (simp add: churned_def used split_beta)
  with run [of "[at_price 1 0, gone 1, at_price 2 1, gone 2]"] show "book_ok churned"
    by (simp add: may_open_level_def at_price_def gone_def default_event_def)
qed

lemma churned_no_room: "\<not> level_room (level_lookup churned_used)" "\<not> level_room (level_lookup churned)"
  by (simp_all add: level_room_empties level_empties_def churned_used_eval churned_eval mk_level_slot_def)

text \<open>An empty book without room in its level index stays that way.\<close>

definition bricked :: "order_book \<Rightarrow> bool" where
  "bricked bk \<longleftrightarrow> book_ok bk \<and> \<not> level_room (level_lookup bk) \<and> active_slots bk = {}"

lemma empty_book_no_level:
  assumes "book_ok bk" and "active_slots bk = {}"
  shows "find_level_index sd p bk = npos"
proof -
  note b = book_okD [OF assms(1)]
  have "card (active_levels bk) = 0" using levels_le_queued [OF b(1)] b(3) assms(2) by simp
  moreover have "finite (active_levels bk)" by (simp add: active_levels_def)
  ultimately have "active_levels bk = {}" by simp
  then show ?thesis using find_level_at(1) [OF depth_okD(1) [OF b(1)]] by (simp add: level_at_def)
qed

lemma bricked_rest_order:
  assumes "bricked bk"
  shows "fst (rest_order oid sd p q bk) \<noteq> Applied \<and> bricked (snd (rest_order oid sd p q bk))"
proof -
  have ok: "book_ok bk" and room: "\<not> level_room (level_lookup bk)" and none: "active_slots bk = {}"
    using assms by (simp_all add: bricked_def)
  note b = book_okD [OF ok]
  have "\<not> level_available sd p bk"
    using empty_book_no_level [OF ok none] room by (simp add: level_available_def)
  then obtain b1 where b1: "acquire_level sd p bk = (npos, b1)" "depth_ok b1" "queued b1 = queued bk"
    "level_lookup b1 = level_lookup bk"
    by (rule acquire_level_fails [OF b(1)])
  note fr = acquire_level_frame [of sd p bk, unfolded b1(1) snd_conv]
  have "slots_inv b1" "active_slots b1 = active_slots bk"
    by (rule slots_inv_cong [OF b(2)]; simp add: fr)+
  with b1 room none b(3) have "bricked b1" by (simp add: bricked_def book_ok_def)
  with assms b1(1) show ?thesis by (simp add: rest_order_def)
qed

lemma bricked_event:
  assumes "bricked bk"
  shows "fst (process_event e bk) \<noteq> Applied \<and> bricked (snd (process_event e bk))"
proof -
  have "find_order k bk = None" for k
    using assms find_order_none [OF book_okD(2)] by (simp add: bricked_def)
  then have "find_order_index k bk = npos" for k by (simp add: find_order_index_npos)
  with assms bricked_rest_order [OF assms] show ?thesis
    by (cases "ev_type e")
      (simp_all add: process_event_def add_def cancel_def trade_def modify_def replace_def)
qed

text \<open>A refused \<^verbatim>\<open>modify\<close> to a new price.\<close>

lemma unlink_keeps_absent:
  assumes dep: "depth_ok bk" and oi: "oi \<in> queued bk" and none: "find_level_index sd p bk = npos"
  shows "find_level_index sd p (unlink oi bk) = npos"
proof -
  note d = depth_okD [OF dep]
  note un = unlink_ok [OF d(1,2) oi [unfolded queued_def]]
  have "\<not> level_at (unlink oi bk) sd p lj" for lj
  proof
    assume at: "level_at (unlink oi bk) sd p lj"
    then have act: "lj \<in> active_levels (unlink oi bk)" by (simp add: level_at_def)
    with un(3) have "lj \<in> active_levels bk" by (auto split: if_splits)
    with at un(6,7) [OF act] have "level_at bk sd p lj" by (simp add: level_at_def)
    with none find_level_at(1) [OF d(1)] show False by blast
  qed
  then show ?thesis using find_level_at(1) [OF un(1)] by blast
qed

lemma refused_modify:
  assumes ok: "book_ok bk" and room: "\<not> level_room (level_lookup bk)" and q: "ev_quantity e \<noteq> 0"
    and v: "find_order (ev_order_id e) bk = Some v" "(ev_side e, ev_price e) \<noteq> (ov_side v, ov_price v)"
    and none: "find_level_index (ev_side e) (ev_price e) bk = npos"
  shows "fst (modify e bk) = CapacityExhausted" and "ev_order_id e \<notin> set (queue_ids (snd (modify e bk)) sd p)"
    and "find_order (ev_order_id e) (snd (modify e bk)) = Some v"
proof -
  obtain i where i: "find_order (ev_order_id e) bk = Some (order_view_of (orders bk ! i))"
    "find_order_index (ev_order_id e) bk = i" "i \<noteq> npos" "i \<in> active_slots bk"
    "o_id (orders bk ! i) = ev_order_id e"
  proof (rule find_order_cases [OF book_okD(2) [OF ok], of "ev_order_id e"])
    assume "find_order (ev_order_id e) bk = None"
    with v(1) show thesis by simp
  qed (rule that)
  note b = book_okD [OF ok]
  have qd: "i \<in> queued bk" using i(4) b(3) by simp
  note un = unlink_depth [OF b(1) qd]
  note lo = links_only_fields [OF un(4)]
  have "\<not> level_room (level_lookup (unlink i bk))"
    using room unlink_no_gain [of i bk] by (simp add: level_room_empties)
  then have "\<not> level_available (ev_side e) (ev_price e) (unlink i bk)"
    using unlink_keeps_absent [OF b(1) qd none] by (simp add: level_available_def)
  then obtain b2 where b2: "acquire_level (ev_side e) (ev_price e) (unlink i bk) = (npos, b2)"
    "depth_ok b2" "queued b2 = queued (unlink i bk)"
    by (rule acquire_level_fails [OF un(1)])
  note fr = acquire_level_frame [of "ev_side e" "ev_price e" "unlink i bk", unfolded b2(1) snd_conv]
  have moved: "\<not> (o_side (orders bk ! i) = ev_side e \<and> o_price (orders bk ! i) = ev_price e)"
    using v i(1) by (auto simp: order_view_of_def)
  have m: "modify e bk = (CapacityExhausted, b2)"
    using modify_relocate [OF ok q i(2,3) moved] b2(1) by (simp add: relocate_def)
  then show "fst (modify e bk) = CapacityExhausted" by simp
  have act: "active_slots b2 = active_slots bk" by (simp add: active_slots_def fr lo)
  have ids: "o_id (orders b2 ! j) = o_id (orders bk ! j)" for j by (simp add: fr lo)
  have inv: "slots_inv b2"
    by (rule slots_inv_cong [OF b(2)]; simp add: fr lo)
  have "order_view_of (orders b2 ! i) = v" using i(1) v(1) by (simp add: fr lo order_view_of_def)
  with find_order_some [OF inv, of i] i(4,5) act ids show "find_order (ev_order_id e) (snd (modify e bk)) = Some v"
    by (simp add: m)
  show "ev_order_id e \<notin> set (queue_ids (snd (modify e bk)) sd p)"
  proof
    assume "ev_order_id e \<in> set (queue_ids (snd (modify e bk)) sd p)"
    then obtain j where j: "j \<in> set (slots_at sd p b2)" "o_id (orders bk ! j) = ev_order_id e"
      by (auto simp: m queue_ids_def ids)
    from slots_at_entry(6) [OF b2(2) j(1)] b2(3) un(2) b(3) have "j \<in> active_slots bk" "j \<noteq> i" by auto
    with order_ids_unique [OF b(2) this(1) i(4)] j(2) i(5) show False by simp
  qed
qed

section \<open>Properties of the exhausted index\<close>

text \<open>
  The level index loses capacity for good: no event sequence ever turns a slot of the level
  index back to empty, from any state of the book.
\<close>

theorem level_index_never_recovers:
  "level_empties (level_lookup (snd (process_events es bk))) \<le> level_empties (level_lookup bk)"
  by (rule process_events_no_gain)

text \<open>
  C2. Once the level index of an empty book has no empty slot left, the book accepts nothing any more:
  no event of any later sequence is applied. (\<^verbatim>\<open>insert_level_lookup\<close> does not reuse tombstones when the
  table has no empty slot, unlike \<^verbatim>\<open>insert_order_lookup\<close>.) The witness reaches such a book with two
  orders added and cancelled at two prices.
\<close>

theorem exhausted_book_accepts_nothing:
  assumes "book_ok bk" and "\<not> level_room (level_lookup bk)" and "active_orders bk = 0"
  shows "Applied \<notin> set (fst (process_events es bk))"
proof -
  have "active_slots bk = {}"
    using active_orders_count [OF book_okD(2) [OF assms(1)]] assms(3) by simp
  with assms have "bricked bk" by (simp add: bricked_def)
  then show ?thesis
  proof (induction es arbitrary: bk)
    case (Cons e es)
    from bricked_event [OF Cons.prems, of e] Cons.IH [of "snd (process_event e bk)"]
    show ?case by (auto simp: split_beta)
  qed simp
qed

theorem exhausted_book_accepts_nothing_witness:
  "active_orders churned = 0 \<and> Applied \<notin> set (fst (process_events [at_price 3 2, at_price 4 0] churned))"
proof -
  have "active_orders churned = 0" by (simp add: churned_eval)
  with exhausted_book_accepts_nothing [OF churned_ok(2) churned_no_room(2) this] show ?thesis by blast
qed

text \<open>
  C3. The early return of \<^verbatim>\<open>modify\<close> marked unreachable is reached when the level index is full: moving
  an order to a price without a level then returns \<^verbatim>\<open>CapacityExhausted\<close> after the order was unlinked. The
  order is still found by its id with its old data, but rests in no queue, so the invariant is broken.
\<close>

theorem refused_modify_loses_order:
  assumes "book_ok bk" and "\<not> level_room (level_lookup bk)" and "ev_type e = Modify" "ev_quantity e \<noteq> 0"
    and "find_order (ev_order_id e) bk = Some v" "(ev_side e, ev_price e) \<noteq> (ov_side v, ov_price v)"
    and "find_level_index (ev_side e) (ev_price e) bk = npos"
  shows "fst (process_event e bk) = CapacityExhausted
    \<and> find_order (ev_order_id e) (snd (process_event e bk)) = Some v
    \<and> (\<forall>sd p. ev_order_id e \<notin> set (queue_ids (snd (process_event e bk)) sd p))"
  using refused_modify [OF assms(1,2,4-7)] by (simp add: process_event_def assms(3))

theorem refused_modify_loses_order_witness:
  "fst (process_event ((at_price 2 2)\<lparr>ev_type := Modify\<rparr>) churned_used) = CapacityExhausted
   \<and> queue_ids churned_used Buy 1 = [2]
   \<and> 2 \<notin> set (queue_ids (snd (process_event ((at_price 2 2)\<lparr>ev_type := Modify\<rparr>) churned_used)) Buy 1)"
proof -
  let ?e = "(at_price 2 2)\<lparr>ev_type := Modify\<rparr>"
  let ?s = "snd (spec_events 1 [at_price 1 0, gone 1, at_price 2 1] spec_empty)"
  have e: "ev_type ?e = Modify" "ev_quantity ?e \<noteq> 0" "ev_order_id ?e = 2" "ev_side ?e = Buy" "ev_price ?e = 2"
    by (simp_all add: at_price_def default_event_def)
  have s: "sb_orders ?s 2 = Some \<lparr>ov_id = 2, ov_side = Buy, ov_price = 1, ov_quantity = 5, ov_priority = 1\<rparr>"
    "sb_queue ?s Buy 1 = [2]"
    by (simp_all add: at_price_def gone_def default_event_def spec_event_def spec_rest_def spec_cancel_def
        spec_empty_def set_queue_def)
  have f: "find_order (ev_order_id ?e) churned_used
      = Some \<lparr>ov_id = 2, ov_side = Buy, ov_price = 1, ov_quantity = 5, ov_priority = 1\<rparr>"
    using s(1) abs_book_simps(1) [of churned_used] unfolding churned_ok(3) e by simp
  have q: "queue_ids churned_used Buy 1 = [2]"
    using s(2) abs_book_simps(2) [of churned_used] unfolding churned_ok(3) by simp
  have none: "find_level_index (ev_side ?e) (ev_price ?e) churned_used = npos"
    unfolding e by (simp add: eval_code churned_used_eval)
  from refused_modify_loses_order [OF churned_ok(1) churned_no_room(1) e(1,2) f _ none] e q
  show ?thesis by simp
qed

end
