(* ===== verification/Matching.thy ===== *)
theory Matching
  imports BookSpec
begin

text \<open>
  Match mode: \<^verbatim>\<open>submit\<close> of \<^verbatim>\<open>OrderBook.cpp\<close> with its two nested loops. The fills handed to the sink are
  collected in a list. The loops are partial functions; that they end, and what they compute, is
  proved against a step relation on the abstract book that always trades against the oldest order
  at the best price.
\<close>

section \<open>The code\<close>

definition crosses :: "order_request \<Rightarrow> price \<Rightarrow> bool" where
  "crosses req level_price =
     (if rq_order_type req = Market then True
      else if rq_side req = Buy then sint level_price \<le> sint (rq_price req)
      else sint (rq_price req) \<le> sint level_price)"

definition fillable_quantity :: "order_request \<Rightarrow> order_book \<Rightarrow> quantity" where
  "fillable_quantity req bk =
     (let opp = opposite (rq_side req)
      in fold (\<lambda>i available. if crosses req (l_price (levels bk ! i))
                 then available + l_total_quantity (levels bk ! i) else available)
           (take (side_heap_size opp bk) (side_heap opp bk)) 0)"

text \<open>A filled maker leaves: index, queue, pool, count, in the order of the code.\<close>

definition remove_maker :: "nat \<Rightarrow> order_book \<Rightarrow> order_book" where
  "remove_maker oi bk =
     (let bk1 = free_order_slot oi (unlink oi (erase_order_lookup (o_id (orders bk ! oi)) bk))
      in bk1\<lparr>active_orders := active_orders bk1 - 1\<rparr>)"

definition make_fill :: "order_request \<Rightarrow> order \<Rightarrow> price \<Rightarrow> quantity \<Rightarrow> u64 \<Rightarrow> fill" where
  "make_fill req maker p traded sq = \<lparr>fl_taker_id = rq_id req, fl_maker_id = o_id maker,
     fl_taker_side = rq_side req, fl_price = p, fl_quantity = traded, fl_sequence = sq\<rparr>"

type_synonym match_state = "quantity \<times> fill list \<times> order_book"

partial_function (option) level_loop ::
  "order_request \<Rightarrow> price \<Rightarrow> nat \<Rightarrow> nat \<Rightarrow> match_state \<Rightarrow> match_state option" where
  [code]: "level_loop req trade_price li oi st =
     (case st of (remaining, fills, bk) \<Rightarrow>
       if oi = npos \<or> remaining = 0 then Some st
       else
         let maker = orders bk ! oi;
             traded = min remaining (o_quantity maker);
             fills' = fills @ [make_fill req maker trade_price traded (fill_sequence bk)];
             bk1 = bk\<lparr>fill_sequence := fill_sequence bk + 1\<rparr>;
             remaining' = remaining - traded;
             next_index = o_next maker
         in if traded = o_quantity maker
            then level_loop req trade_price li next_index (remaining', fills', remove_maker oi bk1)
            else level_loop req trade_price li oi (remaining', fills',
              upd_level li (\<lambda>l. l\<lparr>l_total_quantity := l_total_quantity l - traded\<rparr>)
                (upd_order oi (\<lambda>r. r\<lparr>o_quantity := o_quantity r - traded\<rparr>) bk1)))"

partial_function (option) match_loop :: "order_request \<Rightarrow> match_state \<Rightarrow> match_state option" where
  [code]: "match_loop req st =
     (case st of (remaining, fills, bk) \<Rightarrow>
       if remaining = 0 then Some st
       else
         let li = ladder_top (opposite (rq_side req)) bk
         in if li = npos then Some st
            else if \<not> crosses req (l_price (levels bk ! li)) then Some st
            else Option.bind
              (level_loop req (l_price (levels bk ! li)) li (l_head (levels bk ! li)) st)
              (match_loop req))"

definition may_rest :: "order_request \<Rightarrow> bool" where
  "may_rest req \<longleftrightarrow> rq_order_type req = Limit \<and> rq_tif req = GTC"

definition settle :: "order_request \<Rightarrow> match_state \<Rightarrow> submit_result \<times> fill list \<times> order_book" where
  "settle req st =
     (case st of (remaining, fills, bk) \<Rightarrow>
       let filled = rq_quantity req - remaining
       in if remaining = 0 then (FilledComplete, fills, bk)
          else if may_rest req then
            (case rest_order (rq_id req) (rq_side req) (rq_price req) remaining bk of
               (rested, bk') \<Rightarrow>
                 if rested = CapacityExhausted then (RejectedCapacity, fills, bk')
                 else (if filled = 0 then RestedNoFill else PartialFillRested, fills, bk'))
          else (if filled = 0 then NoFillKilled else PartialFillKilled, fills, bk))"

definition submit :: "order_request \<Rightarrow> order_book \<Rightarrow> (submit_result \<times> fill list \<times> order_book) option" where
  "submit req bk =
     (if rq_type req = CancelOrder then
        (case cancel (rq_id req) bk of
           (r, bk') \<Rightarrow> Some (if r = Applied then Canceled else RejectedInvalid, [], bk'))
      else if rq_quantity req = 0 then Some (RejectedInvalid, [], bk)
      else if may_rest req \<and> find_order_index (rq_id req) bk \<noteq> npos then Some (RejectedDuplicate, [], bk)
      else if rq_tif req = FOK \<and> fillable_quantity req bk < rq_quantity req then Some (RejectedFOK, [], bk)
      else map_option (settle req) (match_loop req (rq_quantity req, [], bk)))"

text \<open>
  \<^verbatim>\<open>FillSink\<close>: a function pointer, possibly null, with the context it writes to; it gets each fill as it
  happens, and nothing of the book depends on it.
\<close>

definition sink_call :: "('c \<Rightarrow> fill \<Rightarrow> 'c) option \<Rightarrow> fill \<Rightarrow> 'c \<Rightarrow> 'c" where
  "sink_call fn f ctx = (case fn of None \<Rightarrow> ctx | Some g \<Rightarrow> g ctx f)"

definition submit_to_sink ::
  "order_request \<Rightarrow> ('c \<Rightarrow> fill \<Rightarrow> 'c) option \<Rightarrow> 'c \<times> order_book \<Rightarrow> (submit_result \<times> 'c \<times> order_book) option" where
  "submit_to_sink req fn s =
     (case s of (ctx, bk) \<Rightarrow> map_option (\<lambda>(r, fs, bk'). (r, fold (sink_call fn) fs ctx, bk')) (submit req bk))"

section \<open>The specification: price-time priority\<close>

definition spec_best :: "spec_book \<Rightarrow> side \<Rightarrow> price \<Rightarrow> bool" where
  "spec_best s sd p \<longleftrightarrow> sb_queue s sd p \<noteq> []
     \<and> (\<forall>p'. sb_queue s sd p' \<noteq> [] \<longrightarrow> side_rank sd p \<le> side_rank sd p')"

type_synonym spec_state = "quantity \<times> fill list \<times> u64 \<times> spec_book"

text \<open>
  One fill: the oldest order at the best price of the other side, if that price crosses, trades
  as much as both sides have left, at its own price.
\<close>

inductive match_step :: "order_request \<Rightarrow> spec_state \<Rightarrow> spec_state \<Rightarrow> bool" for req where
  fill: "remaining \<noteq> 0 \<Longrightarrow> spec_best s (opposite (rq_side req)) p \<Longrightarrow> crosses req p \<Longrightarrow>
     sb_queue s (opposite (rq_side req)) p = oid # ids \<Longrightarrow> sb_orders s oid = Some v \<Longrightarrow>
     traded = min remaining (ov_quantity v) \<Longrightarrow>
     match_step req (remaining, fills, sq, s)
       (remaining - traded,
        fills @ [\<lparr>fl_taker_id = rq_id req, fl_maker_id = oid, fl_taker_side = rq_side req,
                  fl_price = p, fl_quantity = traded, fl_sequence = sq\<rparr>],
        sq + 1, snd (spec_trade oid traded s))"

inductive_cases match_stepE: "match_step req st st'"

definition match_done :: "order_request \<Rightarrow> spec_state \<Rightarrow> bool" where
  "match_done req st \<longleftrightarrow>
     (case st of (remaining, fills, sq, s) \<Rightarrow>
        remaining = 0 \<or> (\<forall>p. sb_queue s (opposite (rq_side req)) p \<noteq> [] \<longrightarrow> \<not> crosses req p))"

abbreviation match_run :: "order_request \<Rightarrow> spec_state \<Rightarrow> spec_state \<Rightarrow> bool" where
  "match_run req \<equiv> (match_step req)\<^sup>*\<^sup>*"

section \<open>One fill\<close>

text \<open>The queue and level operations do not touch the order index.\<close>

lemma set_side_order_lookup:
  "set_side_heap sd h (bk\<lparr>order_lookup := t\<rparr>) = (set_side_heap sd h bk)\<lparr>order_lookup := t\<rparr>"
  "set_side_heap_size sd n (bk\<lparr>order_lookup := t\<rparr>) = (set_side_heap_size sd n bk)\<lparr>order_lookup := t\<rparr>"
  "upd_level i f (bk\<lparr>order_lookup := t\<rparr>) = (upd_level i f bk)\<lparr>order_lookup := t\<rparr>"
  "upd_order i g (bk\<lparr>order_lookup := t\<rparr>) = (upd_order i g bk)\<lparr>order_lookup := t\<rparr>"
  by (simp_all add: set_side_heap_def set_side_heap_size_def upd_level_def upd_order_def)

lemma sift_order_lookup:
  "ladder_sift_up sd pos (bk\<lparr>order_lookup := t\<rparr>) = (ladder_sift_up sd pos bk)\<lparr>order_lookup := t\<rparr>"
  "ladder_sift_down sd pos (bk\<lparr>order_lookup := t\<rparr>) = (ladder_sift_down sd pos bk)\<lparr>order_lookup := t\<rparr>"
  by (simp_all add: ladder_sift_up_def ladder_sift_down_def set_side_heap_def split: prod.split)

lemma unlink_order_lookup:
  "unlink oi (bk\<lparr>order_lookup := t\<rparr>) = (unlink oi bk)\<lparr>order_lookup := t\<rparr>"
proof -
  have "ladder_remove sd li (bk\<lparr>order_lookup := t\<rparr>) = (ladder_remove sd li bk)\<lparr>order_lookup := t\<rparr>" for sd li bk
    by (simp add: ladder_remove_def set_side_order_lookup sift_order_lookup Let_def)
  then have "release_level li (bk\<lparr>order_lookup := t\<rparr>) = (release_level li bk)\<lparr>order_lookup := t\<rparr>" for li bk
    by (simp add: release_level_def upd_level_def Let_def)
  moreover have "detach oi (bk\<lparr>order_lookup := t\<rparr>) = (detach oi bk)\<lparr>order_lookup := t\<rparr>"
    by (simp add: detach_def upd_order_def upd_level_def Let_def)
  ultimately show ?thesis by (simp add: unlink_def Let_def)
qed

lemma remove_maker_drop: "remove_maker oi bk = drop_order oi bk"
  by (simp add: remove_maker_def drop_order_def erase_order_lookup_def unlink_order_lookup Let_def)

lemma book_ok_bump:
  fixes bk n
  assumes ok: "book_ok bk"
  defines "b1 \<equiv> bk\<lparr>fill_sequence := n\<rparr>"
  shows "book_ok b1" and "active_slots b1 = active_slots bk" and "slots_at sd p b1 = slots_at sd p bk"
    and "abs_book b1 = abs_book bk"
proof -
  note b = book_okD [OF ok]
  have dep: "depth_ok b1" "queued b1 = queued bk" "slots_at sd p b1 = slots_at sd p bk" for sd p
    by (rule depth_outside [OF b(1)]; simp add: b1_def side_heap_def side_heap_size_def)+
  have inv: "slots_inv b1" "active_slots b1 = active_slots bk"
    by (rule slots_inv_cong [OF b(2)]; simp add: b1_def)+
  show "book_ok b1" using dep inv b(3) by (simp add: book_ok_def)
  show "active_slots b1 = active_slots bk" "slots_at sd p b1 = slots_at sd p bk" by (rule inv(2), rule dep(3))
  show "abs_book b1 = abs_book bk"
  proof -
    have same: "orders b1 = orders bk" "order_lookup b1 = order_lookup bk"
      "active_orders b1 = active_orders bk" "next_priority b1 = next_priority bk"
      by (simp_all add: b1_def)
    show ?thesis
      unfolding abs_book_def queue_ids_def [abs_def] find_order_def find_order_index_def dep(3) same ..
  qed
qed

lemma slots_at_next:
  assumes "book_ok bk" and "slots_at sd p bk = oi # rest"
  shows "o_next (orders bk ! oi) = first_or rest npos" and "oi \<in> active_slots bk"
    and "find_order (o_id (orders bk ! oi)) bk = Some (order_view_of (orders bk ! oi))"
    and "o_side (orders bk ! oi) = sd" and "o_price (orders bk ! oi) = p" and "o_quantity (orders bk ! oi) \<noteq> 0"
    and "oi \<noteq> npos" and "queue_ids bk sd p = o_id (orders bk ! oi) # map (\<lambda>i. o_id (orders bk ! i)) rest"
proof -
  note b = book_okD [OF assms(1)]
  note d = depth_okD [OF b(1)]
  have i: "oi \<in> set (slots_at sd p bk)" by (simp add: assms(2))
  note e = slots_at_entry [OF b(1) i]
  let ?li = "o_level (orders bk ! oi)"
  have "seg (orders bk) npos (oi # rest) npos"
    using queue_okD(3) [OF queues_invD(2) [OF d(2) active_level_at' [OF e(7)]]]
      slots_at_level(1) [OF d(1) e(7)] assms(2) by simp
  then show "o_next (orders bk ! oi) = first_or rest npos" by simp
  show act: "oi \<in> active_slots bk" using e(6) b(3) by simp
  show "find_order (o_id (orders bk ! oi)) bk = Some (order_view_of (orders bk ! oi))"
    by (rule find_order_some [OF b(2) act])
  show "o_side (orders bk ! oi) = sd" "o_price (orders bk ! oi) = p" "o_quantity (orders bk ! oi) \<noteq> 0"
    by (rule e(3), rule e(4), rule e(5))
  show "oi \<noteq> npos" by (rule active_slot_real [OF b(2) act])
  show "queue_ids bk sd p = o_id (orders bk ! oi) # map (\<lambda>i. o_id (orders bk ! i)) rest"
    by (simp add: queue_ids_def assms(2))
qed

text \<open>What a fill does to the book: the maker leaves, or only its quantity shrinks.\<close>

definition fill_effect :: "order_book \<Rightarrow> nat \<Rightarrow> quantity \<Rightarrow> order_book \<Rightarrow> bool" where
  "fill_effect bk oi traded bk' \<longleftrightarrow> book_ok bk'
     \<and> abs_book bk' = snd (spec_trade (o_id (orders bk ! oi)) traded (abs_book bk))
     \<and> fill_sequence bk' = fill_sequence bk + 1 \<and> length (orders bk') = length (orders bk)
     \<and> (level_room (level_lookup bk) \<longrightarrow> level_room (level_lookup bk'))
     \<and> level_empties (level_lookup bk') = level_empties (level_lookup bk)"

lemma full_fill:
  fixes bk oi
  assumes ok: "book_ok bk" and xs: "slots_at sd p bk = oi # rest"
  defines "bk' \<equiv> drop_order oi (bk\<lparr>fill_sequence := fill_sequence bk + 1\<rparr>)"
  shows "fill_effect bk oi (o_quantity (orders bk ! oi)) bk'" and "slots_at sd' p' bk' = remove1 oi (slots_at sd' p' bk)"
    and "active_slots bk' = active_slots bk - {oi}"
    and "j \<noteq> oi \<Longrightarrow> o_level (orders bk' ! j) = o_level (orders bk ! j)"
proof -
  let ?b = "bk\<lparr>fill_sequence := fill_sequence bk + 1\<rparr>"
  note bump = book_ok_bump [OF ok, where n = "fill_sequence bk + 1"]
  note nx = slots_at_next [OF ok xs]
  have act: "oi \<in> active_slots ?b" using nx(2) bump(2) by simp
  note dr = drop_order_ok [OF bump(1) act, folded bk'_def]
  have view: "ov_quantity (order_view_of (orders bk ! oi)) = o_quantity (orders bk ! oi)"
    "ov_side (order_view_of (orders bk ! oi)) = o_side (orders bk ! oi)"
    "ov_price (order_view_of (orders bk ! oi)) = o_price (orders bk ! oi)"
    by (simp_all add: order_view_of_def)
  have "abs_book bk' = snd (spec_trade (o_id (orders bk ! oi)) (o_quantity (orders bk ! oi)) (abs_book bk))"
    using abs_drop_order [OF bump(1) act] abs_book_simps(2) [of ?b] nx(3,6) bump(4)
    by (simp add: bk'_def spec_trade_def spec_cancel_def view)
  moreover have "level_empties (level_lookup bk') = level_empties (level_lookup bk)"
    using unlink_empties [OF book_okD(1) [OF bump(1)]] by (simp add: bk'_def drop_order_fields)
  ultimately show "fill_effect bk oi (o_quantity (orders bk ! oi)) bk'"
    using dr(1,5,6) by (simp add: fill_effect_def) (simp add: bk'_def drop_order_fields)
  show "slots_at sd' p' bk' = remove1 oi (slots_at sd' p' bk)" using dr(3) bump(3) by simp
  show "active_slots bk' = active_slots bk - {oi}" using dr(2) bump(2) by simp
  have q: "oi \<in> queued ?b" using act book_okD(3) [OF bump(1)] by simp
  show "o_level (orders bk' ! j) = o_level (orders bk ! j)" if "j \<noteq> oi"
    using links_only_fields(5) [OF unlink_depth(4) [OF book_okD(1) [OF bump(1)] q]] that
    by (simp add: bk'_def drop_order_fields)
qed

lemma partial_fill:
  fixes bk oi li traded
  assumes ok: "book_ok bk" and xs: "slots_at sd p bk = oi # rest" and li: "o_level (orders bk ! oi) = li"
    and traded: "traded < o_quantity (orders bk ! oi)" "traded \<noteq> 0"
  defines "bk' \<equiv> upd_level li (\<lambda>l. l\<lparr>l_total_quantity := l_total_quantity l - traded\<rparr>)
      (upd_order oi (\<lambda>r. r\<lparr>o_quantity := o_quantity r - traded\<rparr>) (bk\<lparr>fill_sequence := fill_sequence bk + 1\<rparr>))"
  shows "fill_effect bk oi traded bk'" and "active_slots bk' = active_slots bk"
proof -
  let ?b = "bk\<lparr>fill_sequence := fill_sequence bk + 1\<rparr>" and ?r = "orders bk ! oi"
  note bump = book_ok_bump [OF ok, where n = "fill_sequence bk + 1"]
  note nx = slots_at_next [OF ok xs]
  have act: "oi \<in> active_slots ?b" using nx(2) bump(2) by simp
  have os: "orders bk' = (orders ?b)[oi := (orders ?b ! oi)\<lparr>o_quantity := o_quantity ?r - traded\<rparr>]"
    by (simp add: bk'_def)
  have nz: "o_quantity ?r - traded \<noteq> 0" using traded by auto
  have rq: "book_ok bk'" "active_slots bk' = active_slots ?b" "slots_at sd p bk' = slots_at sd p ?b" for sd p
    by (rule requantify_ok [OF bump(1) act nz os]; simp add: bk'_def li)+
  have view: "ov_quantity (order_view_of ?r) = o_quantity ?r" by (simp add: order_view_of_def)
  have "abs_book bk' = (abs_book bk)\<lparr>sb_orders := (sb_orders (abs_book bk))
      (o_id ?r \<mapsto> (order_view_of ?r)\<lparr>ov_quantity := o_quantity ?r - traded\<rparr>)\<rparr>"
    using abs_requantify [OF bump(1) rq(1) act os rq(2,3)] bump(4) by (simp add: bk'_def)
  moreover have "\<not> traded > o_quantity ?r" "traded \<noteq> o_quantity ?r" using traded by auto
  ultimately have "abs_book bk' = snd (spec_trade (o_id ?r) traded (abs_book bk))"
    using nx(3) traded(2) by (simp add: spec_trade_def view)
  then show "fill_effect bk oi traded bk'"
    using rq(1) by (simp add: fill_effect_def) (simp add: bk'_def)
  show "active_slots bk' = active_slots bk" using rq(2) bump(2) by simp
qed

section \<open>The loop over one level\<close>

abbreviation spec_of :: "match_state \<Rightarrow> spec_state" where
  "spec_of st \<equiv> (case st of (remaining, fills, bk) \<Rightarrow> (remaining, fills, fill_sequence bk, abs_book bk))"

text \<open>What both loops preserve, besides simulating the specification.\<close>

definition loop_frame :: "order_book \<Rightarrow> order_book \<Rightarrow> bool" where
  "loop_frame bk bk' \<longleftrightarrow> book_ok bk' \<and> length (orders bk') = length (orders bk)
     \<and> level_empties (level_lookup bk') = level_empties (level_lookup bk)
     \<and> active_slots bk' \<subseteq> active_slots bk"

lemma loop_frame_refl: "book_ok bk \<Longrightarrow> loop_frame bk bk"
  by (simp add: loop_frame_def)

lemma loop_frame_trans: "loop_frame a b \<Longrightarrow> loop_frame b c \<Longrightarrow> loop_frame a c"
  by (auto simp: loop_frame_def)

lemma fill_effect_frame:
  "fill_effect bk oi traded bk' \<Longrightarrow> active_slots bk' \<subseteq> active_slots bk \<Longrightarrow> loop_frame bk bk'"
  by (simp add: fill_effect_def loop_frame_def)

lemma fill_is_step:
  assumes ok: "book_ok bk" and xs: "slots_at (opposite (rq_side req)) p bk = oi # rest" and rem: "remaining \<noteq> 0"
    and best: "spec_best (abs_book bk) (opposite (rq_side req)) p" and cr: "crosses req p"
    and eff: "fill_effect bk oi traded bk'" and tr: "traded = min remaining (o_quantity (orders bk ! oi))"
  shows "match_step req (spec_of (remaining, fills, bk))
    (spec_of (remaining - traded, fills @ [make_fill req (orders bk ! oi) p traded (fill_sequence bk)], bk'))"
proof -
  note nx = slots_at_next [OF ok xs]
  have "ov_quantity (order_view_of (orders bk ! oi)) = o_quantity (orders bk ! oi)"
    by (simp add: order_view_of_def)
  with match_step.fill [OF rem best cr, of "o_id (orders bk ! oi)" _ "order_view_of (orders bk ! oi)" traded fills
      "fill_sequence bk"] nx(3,8) tr eff
  show ?thesis by (simp add: make_fill_def fill_effect_def)
qed

lemma level_loop_runs:
  assumes "book_ok bk" and "slots_at (opposite (rq_side req)) p bk = xs"
    and "\<forall>j\<in>set xs. o_level (orders bk ! j) = li" and "crosses req p"
    and "\<forall>q. sb_queue (abs_book bk) (opposite (rq_side req)) q \<noteq> [] \<longrightarrow>
      side_rank (opposite (rq_side req)) p \<le> side_rank (opposite (rq_side req)) q"
  shows "\<exists>remaining' fills' bk'. level_loop req p li (first_or xs npos) (remaining, fills, bk) = Some (remaining', fills', bk')
    \<and> match_run req (spec_of (remaining, fills, bk)) (spec_of (remaining', fills', bk')) \<and> loop_frame bk bk'
    \<and> (remaining = 0 \<longrightarrow> remaining' = 0) \<and> (remaining' = 0 \<or> active_slots bk' = active_slots bk - set xs)"
  using assms
proof (induction xs arbitrary: remaining fills bk)
  case Nil
  then have "level_loop req p li (first_or [] npos) (remaining, fills, bk) = Some (remaining, fills, bk)"
    by (subst level_loop.simps) simp
  with Nil show ?case by (auto simp: loop_frame_refl)
next
  case (Cons oi rest)
  note ok = Cons.prems(1) and xs = Cons.prems(2)
  let ?opp = "opposite (rq_side req)"
  note nx = slots_at_next [OF ok xs]
  show ?case
  proof (cases "remaining = 0")
    case True
    then have "level_loop req p li oi (remaining, fills, bk) = Some (remaining, fills, bk)"
      by (subst level_loop.simps) simp
    with True ok show ?thesis by (auto simp: loop_frame_refl)
  next
    case rem: False
    let ?r = "orders bk ! oi"
    define traded where "traded = min remaining (o_quantity ?r)"
    define fills1 where "fills1 = fills @ [make_fill req ?r p traded (fill_sequence bk)]"
    have best: "spec_best (abs_book bk) ?opp p"
      using Cons.prems(5) nx(8) by (simp add: spec_best_def)
    show ?thesis
    proof (cases "traded = o_quantity ?r")
      case True
      define b1 where "b1 = drop_order oi (bk\<lparr>fill_sequence := fill_sequence bk + 1\<rparr>)"
      note ff = full_fill [OF ok xs, folded b1_def]
      have eff: "fill_effect bk oi traded b1" using ff(1) True by simp
      have step: "match_step req (spec_of (remaining, fills, bk)) (spec_of (remaining - traded, fills1, b1))"
        unfolding fills1_def by (rule fill_is_step [OF ok xs rem best Cons.prems(4) eff traded_def])
      have ok1: "book_ok b1" using eff by (simp add: fill_effect_def)
      have dist: "distinct (oi # rest)" using slots_at_distinct [OF book_okD(1) [OF ok], of ?opp p] xs by simp
      have xs1: "slots_at ?opp p b1 = rest" using ff(2) [of ?opp p] xs by simp
      have lv1: "\<forall>j\<in>set rest. o_level (orders b1 ! j) = li"
      proof
        fix j assume "j \<in> set rest"
        with dist Cons.prems(3) have "j \<noteq> oi" "o_level (orders bk ! j) = li" by auto
        with ff(4) show "o_level (orders b1 ! j) = li" by simp
      qed
      have sub: "queue_ids b1 ?opp q \<noteq> [] \<Longrightarrow> queue_ids bk ?opp q \<noteq> []" for q
        using ff(2) [of ?opp q] by (auto simp: queue_ids_def)
      have best1: "\<forall>q. sb_queue (abs_book b1) ?opp q \<noteq> [] \<longrightarrow> side_rank ?opp p \<le> side_rank ?opp q"
        using sub Cons.prems(5) by simp
      have frame1: "loop_frame bk b1" by (rule fill_effect_frame [OF eff]) (use ff(3) in auto)
      obtain r2 f2 b2 where r2: "level_loop req p li (first_or rest npos) (remaining - traded, fills1, b1) = Some (r2, f2, b2)"
        "match_run req (spec_of (remaining - traded, fills1, b1)) (spec_of (r2, f2, b2))" "loop_frame b1 b2"
        "r2 = 0 \<or> active_slots b2 = active_slots b1 - set rest"
        using Cons.IH [OF ok1 xs1 lv1 Cons.prems(4) best1, of "remaining - traded" fills1] by blast
      have "level_loop req p li oi (remaining, fills, bk) = Some (r2, f2, b2)"
        using rem nx(1,7) True r2(1)
        by (subst level_loop.simps) (simp add: Let_def traded_def [symmetric] remove_maker_drop b1_def fills1_def)
      moreover have "match_run req (spec_of (remaining, fills, bk)) (spec_of (r2, f2, b2))"
        using step r2(2) by (rule converse_rtranclp_into_rtranclp)
      moreover have "r2 = 0 \<or> active_slots b2 = active_slots bk - set (oi # rest)" using r2(4) ff(3) by auto
      ultimately show ?thesis using loop_frame_trans [OF frame1 r2(3)] rem by auto
    next
      case False
      then have tr: "traded < o_quantity ?r" "traded = remaining" by (auto simp: traded_def min_def split: if_splits)
      have tr0: "traded \<noteq> 0" using rem tr(2) by simp
      have li: "o_level ?r = li" using Cons.prems(3) by simp
      define b1 where "b1 = upd_level li (\<lambda>l. l\<lparr>l_total_quantity := l_total_quantity l - traded\<rparr>)
        (upd_order oi (\<lambda>r. r\<lparr>o_quantity := o_quantity r - traded\<rparr>) (bk\<lparr>fill_sequence := fill_sequence bk + 1\<rparr>))"
      note pf = partial_fill [OF ok xs li tr(1) tr0, folded b1_def]
      have step: "match_step req (spec_of (remaining, fills, bk)) (spec_of (remaining - traded, fills1, b1))"
        unfolding fills1_def by (rule fill_is_step [OF ok xs rem best Cons.prems(4) pf(1) traded_def])
      have "level_loop req p li oi (0, fills1, b1) = Some (0, fills1, b1)"
        by (subst level_loop.simps) simp
      then have "level_loop req p li oi (remaining, fills, bk) = Some (0, fills1, b1)"
        using rem nx(7) False tr(2)
        by (subst level_loop.simps) (simp add: Let_def traded_def [symmetric] b1_def fills1_def)
      then show ?thesis
        using step fill_effect_frame [OF pf(1)] pf(2) rem tr(2) by auto
    qed
  qed
qed

section \<open>The loop over the levels\<close>

lemma crosses_better:
  "crosses req p' \<Longrightarrow> side_rank (opposite (rq_side req)) p \<le> side_rank (opposite (rq_side req)) p' \<Longrightarrow> crosses req p"
  by (cases "rq_side req") (auto simp: crosses_def split: if_splits)

lemma queue_nonempty_level:
  assumes "depth_ok bk"
  shows "queue_ids bk sd p \<noteq> [] \<longleftrightarrow> (\<exists>li. level_at bk sd p li)"
proof
  assume "queue_ids bk sd p \<noteq> []"
  then have "slots_at sd p bk \<noteq> []" by (simp add: queue_ids_def)
  then show "\<exists>li. level_at bk sd p li" using slots_at_level(2) [OF depth_okD(1) [OF assms]] by blast
next
  assume "\<exists>li. level_at bk sd p li"
  then obtain li where li: "level_at bk sd p li" ..
  note d = depth_okD [OF assms]
  show "queue_ids bk sd p \<noteq> []"
    using slots_at_level(1) [OF d(1) li] d(3) [OF active_level_at' [OF li]] by (simp add: queue_ids_def)
qed

text \<open>The top of the ladder is the best level, and its list is the queue there.\<close>

lemma ladder_top_level:
  assumes dep: "depth_ok bk" and top: "ladder_top sd bk = li" "li \<noteq> npos"
  defines "p \<equiv> l_price (levels bk ! li)"
  shows "level_at bk sd p li" and "queue_ids bk sd q \<noteq> [] \<Longrightarrow> side_rank sd p \<le> side_rank sd q"
    and "l_head (levels bk ! li) = first_or (slots_at sd p bk) npos" and "slots_at sd p bk \<noteq> []"
    and "j \<in> set (slots_at sd p bk) \<Longrightarrow> o_level (orders bk ! j) = li"
proof -
  note d = depth_okD [OF dep]
  note v = dir_invD [OF d(1)]
  have mem: "ladder_members sd bk = {i \<in> active_levels bk. l_side (levels bk ! i) = sd}" by (rule v(6))
  have tn: "ladder_top sd bk \<noteq> npos" using top by simp
  note best = ladder_top_best [OF v(5) tn, unfolded top(1)]
  show at: "level_at bk sd p li" using best(1) unfolding mem by (simp add: level_at_def p_def)
  show "side_rank sd p \<le> side_rank sd q" if "queue_ids bk sd q \<noteq> []"
  proof -
    from queue_nonempty_level [OF dep, of sd q] that obtain lj where lj: "level_at bk sd q lj" by (elim iffE) blast
    then have "lj \<in> ladder_members sd bk" unfolding mem by (simp add: level_at_def)
    from best(2) [OF this] lj show ?thesis by (simp add: level_rank_def level_at_def p_def)
  qed
  note act = active_level_at' [OF at]
  note qk = queue_okD [OF queues_invD(2) [OF d(2) act]]
  have sl: "slots_at sd p bk = queue_slots bk li" by (rule slots_at_level(1) [OF d(1) at])
  show "l_head (levels bk ! li) = first_or (slots_at sd p bk) npos" unfolding sl by (rule qk(4))
  show "slots_at sd p bk \<noteq> []" unfolding sl by (rule d(3) [OF act])
  show "o_level (orders bk ! j) = li" if "j \<in> set (slots_at sd p bk)"
  proof -
    have "queue_entry (orders bk) (levels bk ! li) li j" using that unfolding sl by (rule qk(2))
    then show ?thesis by (simp add: queue_entry_def)
  qed
qed

lemma match_loop_runs:
  assumes "book_ok bk"
  shows "\<exists>remaining' fills' bk'. match_loop req (remaining, fills, bk) = Some (remaining', fills', bk')
    \<and> match_run req (spec_of (remaining, fills, bk)) (spec_of (remaining', fills', bk')) \<and> loop_frame bk bk'
    \<and> match_done req (spec_of (remaining', fills', bk'))"
  using assms
proof (induction "card (active_slots bk)" arbitrary: remaining fills bk rule: less_induct)
  case less
  note ok = less.prems
  let ?opp = "opposite (rq_side req)"
  let ?li = "ladder_top ?opp bk"
  let ?p = "l_price (levels bk ! ?li)"
  note dep = book_okD(1) [OF ok]
  have stop: ?case if "match_loop req (remaining, fills, bk) = Some (remaining, fills, bk)"
    "match_done req (spec_of (remaining, fills, bk))"
    using that loop_frame_refl [OF ok] by blast
  consider "remaining = 0" | "remaining \<noteq> 0" "?li = npos"
    | "remaining \<noteq> 0" "?li \<noteq> npos" "\<not> crosses req ?p" | "remaining \<noteq> 0" "?li \<noteq> npos" "crosses req ?p"
    by blast
  then show ?case
  proof cases
    case 1
    then show ?thesis by (intro stop) (subst match_loop.simps, simp_all add: match_done_def)
  next
    case 2
    note v = dir_invD [OF depth_okD(1) [OF dep]]
    have "ladder_members ?opp bk = {}" using 2(2) ladder_top_npos [OF v(5) v(1)] by blast
    then have "\<not> level_at bk ?opp p lj" for p lj
      unfolding v(6) by (simp add: level_at_def) blast
    then have "queue_ids bk ?opp p = []" for p
      using queue_nonempty_level [OF dep, of ?opp p] by blast
    with 2 show ?thesis by (intro stop) (subst match_loop.simps, simp_all add: match_done_def)
  next
    case 3
    note top = ladder_top_level [OF dep refl 3(2)]
    have "\<not> crosses req q" if "queue_ids bk ?opp q \<noteq> []" for q
      using crosses_better [OF _ top(2) [OF that]] 3(3) by blast
    with 3 show ?thesis by (intro stop) (subst match_loop.simps, simp_all add: match_done_def Let_def)
  next
    case 4
    note top = ladder_top_level [OF dep refl 4(2)]
    have lv: "\<forall>j\<in>set (slots_at ?opp ?p bk). o_level (orders bk ! j) = ?li" using top(5) by blast
    have bst: "\<forall>q. sb_queue (abs_book bk) ?opp q \<noteq> [] \<longrightarrow> side_rank ?opp ?p \<le> side_rank ?opp q"
      using top(2) by simp
    obtain r1 f1 b1 where r1: "level_loop req ?p ?li (l_head (levels bk ! ?li)) (remaining, fills, bk) = Some (r1, f1, b1)"
      "match_run req (spec_of (remaining, fills, bk)) (spec_of (r1, f1, b1))" "loop_frame bk b1"
      "r1 = 0 \<or> active_slots b1 = active_slots bk - set (slots_at ?opp ?p bk)"
      using level_loop_runs [OF ok refl lv 4(3) bst, of remaining fills, folded top(3)] by blast
    have ml: "match_loop req (remaining, fills, bk) = match_loop req (r1, f1, b1)"
      using 4 r1(1) by (subst match_loop.simps) (simp add: Let_def)
    have ok1: "book_ok b1" using r1(3) by (simp add: loop_frame_def)
    show ?thesis
    proof (cases "r1 = 0")
      case True
      then have "match_loop req (r1, f1, b1) = Some (r1, f1, b1)" by (subst match_loop.simps) simp
      moreover have "match_done req (spec_of (r1, f1, b1))" using True by (simp add: match_done_def)
      ultimately show ?thesis using trans [OF ml] r1(2,3) by blast
    next
      case False
      obtain j where j: "j \<in> set (slots_at ?opp ?p bk)" using top(4) by (meson list.set_sel(1))
      then have "j \<in> active_slots bk" by (rule slots_at_active [OF ok])
      moreover have "active_slots b1 = active_slots bk - set (slots_at ?opp ?p bk)" using r1(4) False by blast
      ultimately have "active_slots b1 \<subset> active_slots bk" using j by blast
      then have "card (active_slots b1) < card (active_slots bk)" by (rule psubset_card_mono [OF active_slots_finite])
      from less.hyps [OF this ok1, of r1 f1] obtain r2 f2 b2 where r2:
        "match_loop req (r1, f1, b1) = Some (r2, f2, b2)" "match_run req (spec_of (r1, f1, b1)) (spec_of (r2, f2, b2))"
        "loop_frame b1 b2" "match_done req (spec_of (r2, f2, b2))" by blast
      show ?thesis
        using trans [OF ml r2(1)] rtranclp_trans [OF r1(2) r2(2)] loop_frame_trans [OF r1(3) r2(3)] r2(4) by blast
    qed
  qed
qed

end
