(* ===== verification/Views.thy ===== *)
theory Views
  imports BookSpec "HOL-Library.Multiset"
begin

text \<open>
  The read-only side of the order book: best prices, the sorted level list, the FIFO ids of a level,
  the orders in priority order and the state checksum. The \<^verbatim>\<open>while\<close> walks along the \<^verbatim>\<open>next\<close> members are
  partial functions; on a well-formed book they end.
\<close>

section \<open>The code\<close>

definition level_view_of :: "level \<Rightarrow> level_view" where
  "level_view_of l = \<lparr>lv_side = l_side l, lv_price = l_price l,
     lv_total_quantity = l_total_quantity l, lv_order_count = l_order_count l\<rparr>"

definition best_bid :: "order_book \<Rightarrow> level_view option" where
  "best_bid bk =
     (let top = ladder_top Buy bk
      in if top = npos then None else Some (level_view_of (levels bk ! top)))"

definition best_ask :: "order_book \<Rightarrow> level_view option" where
  "best_ask bk =
     (let top = ladder_top Sell bk
      in if top = npos then None else Some (level_view_of (levels bk ! top)))"

text \<open>The comparison of \<^verbatim>\<open>levels()\<close>: buys first, and the better price first on each side.\<close>

definition view_key :: "level_view \<Rightarrow> side \<times> int" where
  "view_key v = (lv_side v, side_rank (lv_side v) (lv_price v))"

definition book_levels :: "order_book \<Rightarrow> level_view list" where
  "book_levels bk = sort_key view_key (map level_view_of (filter l_active (levels bk)))"

partial_function (option) walk_loop ::
  "(order \<Rightarrow> 'a) \<Rightarrow> order list \<Rightarrow> nat \<Rightarrow> 'a list \<Rightarrow> 'a list option" where
  [code]: "walk_loop f os index acc =
     (if index = npos then Some acc
      else walk_loop f os (o_next (os ! index)) (acc @ [f (os ! index)]))"

definition level_order_ids :: "side \<Rightarrow> price \<Rightarrow> order_book \<Rightarrow> order_id list option" where
  "level_order_ids sd p bk =
     (let li = find_level_index sd p bk
      in if li = npos then Some []
         else walk_loop o_id (orders bk) (l_head (levels bk ! li)) [])"

fun append_levels :: "order_book \<Rightarrow> level_view list \<Rightarrow> order_view list \<Rightarrow> order_view list option" where
  "append_levels bk [] acc = Some acc"
| "append_levels bk (v # vs) acc =
     (case walk_loop order_view_of (orders bk)
             (l_head (levels bk ! find_level_index (lv_side v) (lv_price v) bk)) acc of
        None \<Rightarrow> None
      | Some acc' \<Rightarrow> append_levels bk vs acc')"

definition orders_in_priority :: "order_book \<Rightarrow> order_view list option" where
  "orders_in_priority bk = append_levels bk (book_levels bk) []"

text \<open>\<^verbatim>\<open>StateChecksum.hpp\<close>.\<close>

definition checksum_mix :: "u64 \<Rightarrow> u64" where
  "checksum_mix v0 =
    (let v1 = v0 XOR drop_bit 30 v0;
         v2 = v1 * 0xbf58476d1ce4e5b9;
         v3 = v2 XOR drop_bit 27 v2;
         v4 = v3 * 0x94d049bb133111eb
     in v4 XOR drop_bit 31 v4)"

definition order_checksum :: "order_view \<Rightarrow> u64" where
  "order_checksum v =
    (let x1 = checksum_mix (ov_id v);
         x2 = x1 XOR word_rotl 11 (checksum_mix (ov_price v));
         x3 = x2 XOR word_rotl 23 (checksum_mix (ov_quantity v));
         x4 = x3 XOR word_rotl 37 (checksum_mix (ov_priority v));
         x5 = x4 XOR (if ov_side v = Buy then 0x6a09e667f3bcc909 else 0xbb67ae8584caa73b)
     in checksum_mix x5)"

definition span_checksum :: "order_view list \<Rightarrow> u64" where
  "span_checksum vs =
     fold (\<lambda>v result. result XOR order_checksum v) vs (checksum_mix (of_nat (length vs)))"

definition state_checksum :: "order_book \<Rightarrow> u64" where
  "state_checksum bk =
     fold (\<lambda>r result. if o_active r then result XOR order_checksum (order_view_of r) else result)
       (orders bk) (checksum_mix (active_orders bk))"

section \<open>Levels and the orders resting on them\<close>

text \<open>What a level view reports of the orders that rest at a side and price.\<close>

definition depth_at :: "order_book \<Rightarrow> side \<Rightarrow> price \<Rightarrow> level_view" where
  "depth_at bk sd p = \<lparr>lv_side = sd, lv_price = p,
     lv_total_quantity = sum_list (map ov_quantity (resting bk sd p)),
     lv_order_count = of_nat (length (resting bk sd p))\<rparr>"

lemma queue_ids_resting: "queue_ids bk sd p = map ov_id (resting bk sd p)"
  by (simp add: queue_ids_def resting_def order_view_of_def)

lemma resting_order:
  assumes "book_ok bk" and "v \<in> set (resting bk sd p)"
  shows "find_order (ov_id v) bk = Some v"
proof -
  obtain i where i: "i \<in> set (slots_at sd p bk)" "v = order_view_of (orders bk ! i)"
    using assms(2) by (auto simp: resting_def)
  from slots_at_active [OF assms(1) i(1)] have "find_order (o_id (orders bk ! i)) bk = Some (order_view_of (orders bk ! i))"
    by (rule find_order_some [OF book_okD(2) [OF assms(1)]])
  then show ?thesis by (simp add: i(2) order_view_of_def)
qed

lemma level_view_depth:
  assumes "depth_ok bk" and "level_at bk sd p li"
  shows "level_view_of (levels bk ! li) = depth_at bk sd p" and "resting bk sd p \<noteq> []"
proof -
  note d = depth_okD [OF assms(1)]
  note act = active_level_at' [OF assms(2)]
  note q = queue_okD [OF queues_invD(2) [OF d(2) act]]
  have sl: "slots_at sd p bk = queue_slots bk li" by (rule slots_at_level(1) [OF d(1) assms(2)])
  have "sum_list (map ov_quantity (resting bk sd p))
      = sum_list (map (\<lambda>i. o_quantity (orders bk ! i)) (queue_slots bk li))"
    by (simp add: resting_def sl o_def order_view_of_def)
  moreover have "length (resting bk sd p) = length (queue_slots bk li)" by (simp add: resting_def sl)
  ultimately show "level_view_of (levels bk ! li) = depth_at bk sd p"
    using q(6,7) assms(2) by (simp add: level_view_of_def depth_at_def level_at_def)
  show "resting bk sd p \<noteq> []" using d(3) [OF act] by (simp add: resting_def sl)
qed

lemma resting_level:
  assumes "depth_ok bk"
  shows "resting bk sd p \<noteq> [] \<longleftrightarrow> (\<exists>li. level_at bk sd p li)"
proof
  assume "resting bk sd p \<noteq> []"
  then have "slots_at sd p bk \<noteq> []" by (simp add: resting_def)
  then show "\<exists>li. level_at bk sd p li" using slots_at_level(2) [OF depth_okD(1) [OF assms]] by blast
qed (use level_view_depth(2) [OF assms] in blast)

definition best_on_side :: "order_book \<Rightarrow> side \<Rightarrow> level_view option \<Rightarrow> bool" where
  "best_on_side bk sd r \<longleftrightarrow>
     (case r of
        None \<Rightarrow> \<forall>p. resting bk sd p = []
      | Some v \<Rightarrow> v = depth_at bk sd (lv_price v) \<and> resting bk sd (lv_price v) \<noteq> []
          \<and> (\<forall>p. resting bk sd p \<noteq> [] \<longrightarrow> side_rank sd (lv_price v) \<le> side_rank sd p))"

lemma ladder_top_on_side:
  assumes dep: "depth_ok bk"
  shows "best_on_side bk sd
    (let top = ladder_top sd bk in if top = npos then None else Some (level_view_of (levels bk ! top)))"
proof -
  note d = depth_okD [OF dep]
  note v = dir_invD [OF d(1)]
  have mem: "ladder_members sd bk = {i \<in> active_levels bk. l_side (levels bk ! i) = sd}" by (rule v(6))
  show ?thesis
  proof (cases "ladder_top sd bk = npos")
    case True
    with ladder_top_npos [OF v(5) v(1)] have "ladder_members sd bk = {}" by blast
    then have "\<not> level_at bk sd p li" for p li
      unfolding mem by (auto simp: level_at_def)
    then have "resting bk sd p = []" for p using resting_level [OF dep, of sd p] by blast
    then show ?thesis using True by (simp add: best_on_side_def)
  next
    case False
    let ?t = "ladder_top sd bk"
    have best: "?t \<in> ladder_members sd bk" "\<And>i. i \<in> ladder_members sd bk \<Longrightarrow>
      level_rank sd (levels bk) ?t \<le> level_rank sd (levels bk) i"
      using ladder_top_best [OF v(5) False] by blast+
    let ?p = "l_price (levels bk ! ?t)"
    have at: "level_at bk sd ?p ?t" using best(1) unfolding mem by (simp add: level_at_def)
    have "side_rank sd ?p \<le> side_rank sd p" if rest: "resting bk sd p \<noteq> []" for p
    proof -
      obtain li where li: "level_at bk sd p li" using rest resting_level [OF dep] by blast
      then have "li \<in> ladder_members sd bk" unfolding mem by (simp add: level_at_def)
      from best(2) [OF this] li show ?thesis by (simp add: level_rank_def level_at_def)
    qed
    with level_view_depth [OF dep at] False show ?thesis
      by (simp add: best_on_side_def Let_def depth_at_def)
  qed
qed

text \<open>The touch of a side with one order, and of an empty side.\<close>

lemma touch_of:
  assumes "book_ok bk"
  shows "best_on_side bk Buy (best_bid bk)" and "best_on_side bk Sell (best_ask bk)"
  using ladder_top_on_side [OF book_okD(1) [OF assms]] by (simp_all add: best_bid_def best_ask_def)

lemma touch_single:
  assumes "book_ok bk" and "best_on_side bk sd r" and "\<And>q. queue_ids bk sd q = (if q = p then [oid] else [])"
    and "find_order oid bk = Some v"
  shows "r = Some \<lparr>lv_side = sd, lv_price = p, lv_total_quantity = ov_quantity v, lv_order_count = 1\<rparr>"
proof -
  obtain w where w: "resting bk sd p = [w]" "ov_id w = oid"
    using assms(3) [of p] by (auto simp: queue_ids_resting map_eq_Cons_conv)
  then have "w = v" using resting_order [OF assms(1), of w sd p] assms(4) by simp
  moreover have "resting bk sd q = []" if "q \<noteq> p" for q using assms(3) [of q] that by (simp add: queue_ids_resting)
  moreover obtain a where a: "r = Some a" using assms(2) w(1) by (cases r) (auto simp: best_on_side_def)
  ultimately have "lv_price a = p" "a = depth_at bk sd (lv_price a)"
    using assms(2) by (auto simp: best_on_side_def)
  then show ?thesis using a w(1) \<open>w = v\<close> by (simp add: depth_at_def)
qed

lemma touch_none:
  assumes "best_on_side bk sd r" and "\<And>q. queue_ids bk sd q = []"
  shows "r = None"
  using assms by (cases r) (auto simp: best_on_side_def queue_ids_resting)

section \<open>The sorted level list\<close>

lemma active_level_views:
  "set (map level_view_of (filter l_active (levels bk))) = (\<lambda>i. level_view_of (levels bk ! i)) ` active_levels bk"
proof -
  have "set (filter l_active (levels bk)) = (\<lambda>i. levels bk ! i) ` active_levels bk"
    by (auto simp: active_levels_def in_set_conv_nth image_iff)
  then show ?thesis by (simp add: image_image)
qed

lemma book_levels_set:
  assumes "depth_ok bk"
  shows "set (book_levels bk) = {depth_at bk sd p | sd p. resting bk sd p \<noteq> []}"
proof -
  have "set (book_levels bk) = (\<lambda>i. level_view_of (levels bk ! i)) ` active_levels bk"
    using active_level_views by (simp add: book_levels_def)
  also have "\<dots> = {depth_at bk sd p | sd p. resting bk sd p \<noteq> []}"
  proof (intro equalityI subsetI)
    fix v assume "v \<in> (\<lambda>i. level_view_of (levels bk ! i)) ` active_levels bk"
    then obtain i where i: "v = level_view_of (levels bk ! i)" "i \<in> active_levels bk" by blast
    from level_view_depth [OF assms active_level_at [OF i(2)]] i(1)
    show "v \<in> {depth_at bk sd p | sd p. resting bk sd p \<noteq> []}" by blast
  next
    fix v assume "v \<in> {depth_at bk sd p | sd p. resting bk sd p \<noteq> []}"
    then obtain sd p where v: "v = depth_at bk sd p" "resting bk sd p \<noteq> []" by blast
    then obtain li where li: "level_at bk sd p li" using resting_level [OF assms] by blast
    from level_view_depth(1) [OF assms li] v(1) active_level_at' [OF li]
    show "v \<in> (\<lambda>i. level_view_of (levels bk ! i)) ` active_levels bk" by force
  qed
  finally show ?thesis .
qed

lemma view_key_depth [simp]: "view_key (depth_at bk sd p) = (sd, side_rank sd p)"
  by (simp add: view_key_def depth_at_def)

lemma active_indices:
  "filter l_active (levels bk) = map (\<lambda>i. levels bk ! i) (filter (\<lambda>i. l_active (levels bk ! i)) [0..<length (levels bk)])"
  by (metis (no_types, lifting) filter_cong filter_map map_nth o_apply)

lemma book_levels_keys:
  assumes "depth_ok bk"
  shows "sorted (map view_key (book_levels bk))" and "distinct (map view_key (book_levels bk))"
proof -
  let ?idx = "filter (\<lambda>i. l_active (levels bk ! i)) [0..<length (levels bk)]"
  let ?vs = "map level_view_of (filter l_active (levels bk))"
  show "sorted (map view_key (book_levels bk))" by (simp add: book_levels_def)
  have key: "view_key (level_view_of (levels bk ! i))
      = (l_side (levels bk ! i), side_rank (l_side (levels bk ! i)) (l_price (levels bk ! i)))" for i
    by (simp add: view_key_def level_view_of_def)
  have "inj_on (\<lambda>i. view_key (level_view_of (levels bk ! i))) (set ?idx)"
  proof (rule inj_onI)
    fix i j assume ij: "i \<in> set ?idx" "j \<in> set ?idx"
      "view_key (level_view_of (levels bk ! i)) = view_key (level_view_of (levels bk ! j))"
    then have "level_at bk (l_side (levels bk ! i)) (l_price (levels bk ! i)) i"
      "level_at bk (l_side (levels bk ! i)) (l_price (levels bk ! i)) j"
      by (auto simp: key level_at_def active_levels_def)
    then show "i = j" by (rule level_at_unique [OF depth_okD(1) [OF assms]])
  qed
  then have "distinct (map view_key ?vs)"
    unfolding active_indices by (simp add: distinct_map o_def)
  then show "distinct (map view_key (book_levels bk))"
    unfolding book_levels_def by (metis distinct_map distinct_sort set_sort)
qed

text \<open>The order of the comparison, spelled out: the sides in the order of the enum, bids by falling and asks by rising price.\<close>

lemma view_key_order:
  "view_key v < view_key w \<Longrightarrow> (case (lv_side v, lv_side w) of
      (Buy, Buy) \<Rightarrow> sint (lv_price v) > sint (lv_price w)
    | (Buy, Sell) \<Rightarrow> True
    | (Sell, Buy) \<Rightarrow> False
    | (Sell, Sell) \<Rightarrow> sint (lv_price v) < sint (lv_price w))"
  by (cases "lv_side v"; cases "lv_side w") (simp_all add: view_key_def less_prod_simp less_side_def less_eq_side_def)

lemma book_levels_strict:
  "depth_ok bk \<Longrightarrow> sorted_wrt (\<lambda>v w. view_key v < view_key w) (book_levels bk)"
  using book_levels_keys [of bk] by (simp add: strict_sorted_iff sorted_wrt_map [symmetric])

section \<open>Walks\<close>

lemma walk_loop_seg:
  assumes "seg os p xs npos" and "\<And>x. x \<in> set xs \<Longrightarrow> x \<noteq> npos"
  shows "walk_loop f os (first_or xs npos) acc = Some (acc @ map (\<lambda>i. f (os ! i)) xs)"
  using assms
proof (induction xs arbitrary: p acc)
  case Nil
  then show ?case by (subst walk_loop.simps) simp
next
  case (Cons x xs)
  have "walk_loop f os x acc = walk_loop f os (o_next (os ! x)) (acc @ [f (os ! x)])"
    using Cons.prems(2) [of x] by (subst walk_loop.simps) simp
  with Cons.prems Cons.IH [of x "acc @ [f (os ! x)]"] show ?case by simp
qed

lemma walk_loop_level:
  assumes "depth_ok bk" and "level_at bk sd p li"
  shows "walk_loop f (orders bk) (l_head (levels bk ! li)) acc
    = Some (acc @ map (\<lambda>i. f (orders bk ! i)) (slots_at sd p bk))"
proof -
  note d = depth_okD [OF assms(1)]
  note q = queue_okD [OF queues_invD(2) [OF d(2) active_level_at' [OF assms(2)]]]
  have "x \<noteq> npos" if "x \<in> set (queue_slots bk li)" for x
    using queue_entry_less [OF q(2) [OF that]] queues_invD(1) [OF d(2)] by simp
  from walk_loop_seg [OF q(3) this] show ?thesis
    by (simp add: q(4) slots_at_level(1) [OF d(1) assms(2)])
qed

lemma level_order_ids_total:
  assumes "depth_ok bk"
  shows "level_order_ids sd p bk = Some (queue_ids bk sd p)"
proof (cases "\<exists>li. level_at bk sd p li")
  case True
  then obtain li where li: "level_at bk sd p li" ..
  note dir = depth_okD(1) [OF assms]
  have "li \<noteq> npos" using level_at_less [OF li] dir_invD(1) [OF dir] by simp
  moreover from this have "find_level_index sd p bk = li" using find_level_at(2) [OF dir] li by blast
  ultimately show ?thesis
    using walk_loop_level [OF assms li, of o_id "[]"] by (simp add: level_order_ids_def queue_ids_def)
next
  case False
  then have "find_level_index sd p bk = npos"
    using find_level_at(1) [OF depth_okD(1) [OF assms]] by blast
  then show ?thesis by (simp add: level_order_ids_def queue_ids_def slots_at_def)
qed

lemma append_levels_total:
  assumes dep: "depth_ok bk" and "set vs \<subseteq> set (book_levels bk)"
  shows "append_levels bk vs acc = Some (acc @ concat (map (\<lambda>v. resting bk (lv_side v) (lv_price v)) vs))"
  using assms(2)
proof (induction vs arbitrary: acc)
  case (Cons v vs)
  then have "v \<in> set (book_levels bk)" by simp
  then obtain sd p where v: "v = depth_at bk sd p" "resting bk sd p \<noteq> []"
    unfolding book_levels_set [OF dep] by blast
  then obtain li where li: "level_at bk sd p li" using resting_level [OF dep] by blast
  note dir = depth_okD(1) [OF dep]
  have "li \<noteq> npos" using level_at_less [OF li] dir_invD(1) [OF dir] by simp
  then have "find_level_index sd p bk = li" using find_level_at(2) [OF dir] li by blast
  with Cons walk_loop_level [OF dep li, of order_view_of acc] v(1)
  show ?case by (simp add: resting_def depth_at_def)
qed simp

section \<open>Every order once\<close>

lemma distinct_concat_keyed:
  assumes "distinct (map k vs)" and "\<And>v. v \<in> set vs \<Longrightarrow> distinct (g v)"
    and "\<And>v w x. v \<in> set vs \<Longrightarrow> w \<in> set vs \<Longrightarrow> x \<in> set (g v) \<Longrightarrow> x \<in> set (g w) \<Longrightarrow> k v = k w"
  shows "distinct (concat (map g vs))"
  using assms
proof (induction vs)
  case (Cons v vs)
  have "set (g v) \<inter> set (concat (map g vs)) = {}"
  proof (rule ccontr)
    assume "set (g v) \<inter> set (concat (map g vs)) \<noteq> {}"
    then obtain x w where "x \<in> set (g v)" "w \<in> set vs" "x \<in> set (g w)" by auto
    with Cons.prems(3) [of v w x] Cons.prems(1) show False by auto
  qed
  moreover have "distinct (concat (map g vs))"
    using Cons.prems by (intro Cons.IH) auto
  ultimately show ?case using Cons.prems(2) [of v] by simp
qed simp

definition priority_slots :: "order_book \<Rightarrow> nat list" where
  "priority_slots bk = concat (map (\<lambda>v. slots_at (lv_side v) (lv_price v) bk) (book_levels bk))"

lemma priority_slots_active:
  assumes ok: "book_ok bk"
  shows "distinct (priority_slots bk)" and "set (priority_slots bk) = active_slots bk"
proof -
  note b = book_okD [OF ok]
  show "distinct (priority_slots bk)"
    unfolding priority_slots_def
  proof (rule distinct_concat_keyed [OF book_levels_keys(2) [OF b(1)] slots_at_distinct [OF b(1)]])
    fix v w :: level_view and i assume "i \<in> set (slots_at (lv_side v) (lv_price v) bk)" "i \<in> set (slots_at (lv_side w) (lv_price w) bk)"
    then have "lv_side v = lv_side w" "lv_price v = lv_price w"
      using slots_at_entry(3,4) [OF b(1)] by metis+
    then show "view_key v = view_key w" by (simp add: view_key_def)
  qed
  show "set (priority_slots bk) = active_slots bk"
  proof (intro equalityI subsetI)
    fix i assume "i \<in> set (priority_slots bk)"
    then show "i \<in> active_slots bk"
      using slots_at_active [OF ok] by (auto simp: priority_slots_def)
  next
    fix i assume "i \<in> active_slots bk"
    then have q: "i \<in> queued bk" by (simp add: b(3))
    let ?sd = "o_side (orders bk ! i)" and ?p = "o_price (orders bk ! i)"
    have i: "i \<in> set (slots_at ?sd ?p bk)" by (rule queued_slots_at(1) [OF b(1) q])
    then have "resting bk ?sd ?p \<noteq> []" by (auto simp: resting_def)
    then have "depth_at bk ?sd ?p \<in> set (book_levels bk)" unfolding book_levels_set [OF b(1)] by blast
    moreover have "i \<in> set (slots_at (lv_side (depth_at bk ?sd ?p)) (lv_price (depth_at bk ?sd ?p)) bk)"
      using i by (simp add: depth_at_def)
    ultimately show "i \<in> set (priority_slots bk)" unfolding priority_slots_def by auto
  qed
qed

lemma orders_in_priority_slots:
  "book_ok bk \<Longrightarrow>
   orders_in_priority bk = Some (map (\<lambda>i. order_view_of (orders bk ! i)) (priority_slots bk))"
  using append_levels_total [OF book_okD(1), of bk "book_levels bk" "[]"]
  by (simp add: orders_in_priority_def priority_slots_def map_concat resting_def o_def)

lemma priority_slots_mset:
  assumes "book_ok bk"
  shows "mset (priority_slots bk) = mset (filter (\<lambda>i. o_active (orders bk ! i)) [0..<length (orders bk)])"
proof -
  have "set (filter (\<lambda>i. o_active (orders bk ! i)) [0..<length (orders bk)]) = active_slots bk"
    by (auto simp: active_slots_def)
  with priority_slots_active [OF assms] show ?thesis
    by (metis distinct_filter distinct_upt set_eq_iff_mset_eq_distinct)
qed

lemma fold_active:
  "fold (\<lambda>r x. if o_active r then x XOR order_checksum (order_view_of r) else x) os a
     = fold (\<lambda>v x. x XOR order_checksum v) (map order_view_of (filter o_active os)) a"
  by (induction os arbitrary: a) simp_all

lemma active_orders_views:
  "filter o_active (orders bk) = map (\<lambda>i. orders bk ! i) (filter (\<lambda>i. o_active (orders bk ! i)) [0..<length (orders bk)])"
  by (metis (no_types, lifting) filter_cong filter_map map_nth o_apply)

lemma priority_slots_length:
  assumes "book_ok bk"
  shows "of_nat (length (priority_slots bk)) = active_orders bk"
  using distinct_card [OF priority_slots_active(1) [OF assms]] priority_slots_active(2) [OF assms]
    slots_invD(4) [OF book_okD(2) [OF assms]] by simp

lemma checksum_of_views:
  assumes ok: "book_ok bk"
  shows "state_checksum bk = span_checksum (map (\<lambda>i. order_view_of (orders bk ! i)) (priority_slots bk))"
proof -
  let ?f = "\<lambda>v x :: u64. x XOR order_checksum v"
  let ?view = "\<lambda>i. order_view_of (orders bk ! i)"
  let ?idx = "filter (\<lambda>i. o_active (orders bk ! i)) [0..<length (orders bk)]"
  have "mset (map ?view ?idx) = mset (map ?view (priority_slots bk))"
    unfolding mset_map priority_slots_mset [OF ok] ..
  moreover have "?f v \<circ> ?f w = ?f w \<circ> ?f v" for v w
    by (simp add: fun_eq_iff xor.assoc xor.commute [of "order_checksum v"])
  ultimately have "fold ?f (map ?view ?idx) = fold ?f (map ?view (priority_slots bk))"
    by (intro fold_multiset_equiv)
  moreover have "map order_view_of (filter o_active (orders bk)) = map ?view ?idx"
    unfolding active_orders_views by simp
  ultimately show ?thesis
    using priority_slots_length [OF ok]
    by (simp add: state_checksum_def span_checksum_def fold_active)
qed

section \<open>Properties\<close>

text \<open>
  C6. The best prices are the best prices: on a well-formed book \<^verbatim>\<open>best_bid\<close> and \<^verbatim>\<open>best_ask\<close> are empty
  exactly when no order rests on the side; otherwise they report the highest bid and the lowest ask
  price at which an order rests, with the exact number of orders and (64-bit) total quantity there.
\<close>

theorem best_prices_correct:
  assumes "book_ok bk"
  shows "best_on_side bk Buy (best_bid bk) \<and> best_on_side bk Sell (best_ask bk)"
  using ladder_top_on_side [OF book_okD(1) [OF assms]] by (simp add: best_bid_def best_ask_def)

definition two_bids :: order_book where
  "two_bids = snd (process_events
     [default_event\<lparr>ev_order_id := 1, ev_price := 100, ev_quantity := 5\<rparr>,
      default_event\<lparr>ev_order_id := 2, ev_price := 101, ev_quantity := 7\<rparr>] (projr (new_book 2)))"

lemma two_bids_ok: "book_ok two_bids" "queue_ids two_bids Buy 101 = [2]" "queue_ids two_bids Buy 100 = [1]"
  "level_room (level_lookup two_bids)"
proof -
  let ?es = "[default_event\<lparr>ev_order_id := 1, ev_price := 100, ev_quantity := 5\<rparr>,
      default_event\<lparr>ev_order_id := 2, ev_price := 101, ev_quantity := 7\<rparr>]"
  note run = fresh_run [of 2 ?es, folded two_bids_def]
  show "book_ok two_bids" "level_room (level_lookup two_bids)" by (rule run; simp add: npos_def)+
  have "abs_book two_bids = snd (spec_events 2 ?es spec_empty)" by (rule run; simp add: npos_def)
  then have "queue_ids two_bids = sb_queue (snd (spec_events 2 ?es spec_empty))"
    using abs_book_simps(2) by metis
  then show "queue_ids two_bids Buy 101 = [2]" "queue_ids two_bids Buy 100 = [1]"
    by (simp_all add: spec_event_def spec_rest_def spec_empty_def set_queue_def default_event_def)
qed

theorem best_prices_correct_witness:
  "\<exists>v. best_bid two_bids = Some v \<and> sint (101 :: price) \<le> sint (lv_price v)"
proof -
  have "resting two_bids Buy 101 \<noteq> []"
    using two_bids_ok(2) by (auto simp: queue_ids_resting)
  with best_prices_correct [OF two_bids_ok(1)] show ?thesis
    by (cases "best_bid two_bids") (auto simp: best_on_side_def)
qed

text \<open>
  C7. \<^verbatim>\<open>levels()\<close> lists every non-empty level exactly once and nothing else, with its order count and
  total quantity: every buy level before every sell level, the buy prices strictly falling and the sell prices
  strictly rising, so that each side runs from its best price to its worst.
\<close>

theorem levels_sorted_complete:
  assumes "book_ok bk"
  shows "set (book_levels bk) = {depth_at bk sd p | sd p. resting bk sd p \<noteq> []}
    \<and> sorted_wrt (\<lambda>v w. case (lv_side v, lv_side w) of
          (Buy, Buy) \<Rightarrow> sint (lv_price v) > sint (lv_price w)
        | (Buy, Sell) \<Rightarrow> True
        | (Sell, Buy) \<Rightarrow> False
        | (Sell, Sell) \<Rightarrow> sint (lv_price v) < sint (lv_price w)) (book_levels bk)"
proof (intro conjI sorted_wrt_mono_rel [OF _ book_levels_strict [OF book_okD(1) [OF assms]]])
  show "set (book_levels bk) = {depth_at bk sd p | sd p. resting bk sd p \<noteq> []}" by (rule book_levels_set [OF book_okD(1) [OF assms]])
qed (rule view_key_order)

theorem levels_sorted_complete_witness: "depth_at two_bids Buy 101 \<in> set (book_levels two_bids)"
proof -
  have "resting two_bids Buy 101 \<noteq> []"
    using two_bids_ok(2) by (auto simp: queue_ids_resting)
  with levels_sorted_complete [OF two_bids_ok(1)] show ?thesis by blast
qed

text \<open>
  The walk of \<^verbatim>\<open>level_order_ids\<close> ends on a well-formed book and returns the ids resting at the
  level in FIFO order.
\<close>

theorem level_walk_returns_queue:
  assumes "book_ok bk"
  shows "level_order_ids sd p bk = Some (queue_ids bk sd p)"
  by (rule level_order_ids_total [OF book_okD(1) [OF assms]])

theorem level_walk_returns_queue_witness: "level_order_ids Buy 101 two_bids = Some [2]"
  using level_walk_returns_queue [OF two_bids_ok(1)] two_bids_ok(2) by simp

text \<open>
  C8. \<^verbatim>\<open>orders_in_priority\<close> ends on a well-formed book: it returns the levels' queues one after the
  other in the order of \<^verbatim>\<open>levels()\<close>, in which every active order occurs exactly once.
\<close>

theorem orders_in_priority_complete:
  assumes "book_ok bk"
  shows "\<exists>vs. orders_in_priority bk = Some vs
    \<and> vs = concat (map (\<lambda>v. resting bk (lv_side v) (lv_price v)) (book_levels bk))
    \<and> distinct (map ov_id vs) \<and> set vs = {v. \<exists>oid. find_order oid bk = Some v}
    \<and> of_nat (length vs) = active_orders bk"
proof (intro exI conjI)
  let ?view = "\<lambda>i. order_view_of (orders bk ! i)"
  let ?vs = "map ?view (priority_slots bk)"
  note inv = book_okD(2) [OF assms] and act = priority_slots_active [OF assms]
  show "orders_in_priority bk = Some ?vs" by (rule orders_in_priority_slots [OF assms])
  show "?vs = concat (map (\<lambda>v. resting bk (lv_side v) (lv_price v)) (book_levels bk))"
    by (simp add: priority_slots_def map_concat resting_def o_def)
  show "distinct (map ov_id ?vs)"
    using act order_ids_unique [OF inv] by (auto simp: distinct_map inj_on_def order_view_of_def)
  show "set ?vs = {v. \<exists>oid. find_order oid bk = Some v}"
  proof (intro equalityI subsetI)
    fix v assume "v \<in> set ?vs"
    with find_order_some [OF inv] act(2) show "v \<in> {v. \<exists>oid. find_order oid bk = Some v}" by auto
  next
    fix v assume "v \<in> {v. \<exists>oid. find_order oid bk = Some v}"
    then obtain oid where "find_order oid bk = Some v" by blast
    then show "v \<in> set ?vs"
      by (rule_tac find_order_cases [OF inv, of oid]) (use act(2) in auto)
  qed
  show "of_nat (length ?vs) = active_orders bk" using priority_slots_length [OF assms] by simp
qed

theorem orders_in_priority_complete_witness: "\<exists>vs. orders_in_priority two_bids = Some vs \<and> distinct (map ov_id vs)"
  using orders_in_priority_complete [OF two_bids_ok(1)] by blast

text \<open>
  C9. The checksum the book computes over its pool equals the checksum of \<^verbatim>\<open>StateChecksum.hpp\<close> over
  the orders in priority order: it depends on the resting orders only, not on where the pool put them.
\<close>

theorem state_checksum_of_orders:
  assumes "book_ok bk"
  shows "\<exists>vs. orders_in_priority bk = Some vs \<and> state_checksum bk = span_checksum vs"
  using orders_in_priority_slots [OF assms] checksum_of_views [OF assms] by blast

theorem state_checksum_of_orders_witness:
  "\<exists>vs. orders_in_priority two_bids = Some vs \<and> state_checksum two_bids = span_checksum vs"
  using state_checksum_of_orders [OF two_bids_ok(1)] by blast

end
