(* ===== verification/MatchProps.thy ===== *)
theory MatchProps
  imports Matching Views
begin

text \<open>
  What match mode guarantees: the runs of the specification conserve quantity, never trade through
  the limit, respect price-time priority, and \<^verbatim>\<open>submit\<close> is such a run followed by the disposition of
  the remainder.
\<close>

section \<open>Well-formed abstract books\<close>

definition spec_ok :: "spec_book \<Rightarrow> bool" where
  "spec_ok s \<longleftrightarrow> finite (dom (sb_orders s))
     \<and> (\<forall>oid v. sb_orders s oid = Some v \<longrightarrow> ov_id v = oid \<and> ov_quantity v \<noteq> 0
          \<and> oid \<in> set (sb_queue s (ov_side v) (ov_price v)))
     \<and> (\<forall>sd p. distinct (sb_queue s sd p))
     \<and> (\<forall>sd p. \<forall>oid\<in>set (sb_queue s sd p). \<exists>v. sb_orders s oid = Some v \<and> ov_side v = sd \<and> ov_price v = p)"

lemma spec_okD:
  assumes "spec_ok s"
  shows "finite (dom (sb_orders s))" and "sb_orders s oid = Some v \<Longrightarrow> ov_id v = oid"
    and "sb_orders s oid = Some v \<Longrightarrow> ov_quantity v \<noteq> 0"
    and "sb_orders s oid = Some v \<Longrightarrow> oid \<in> set (sb_queue s (ov_side v) (ov_price v))"
    and "distinct (sb_queue s sd p)"
    and "oid \<in> set (sb_queue s sd p) \<Longrightarrow> \<exists>v. sb_orders s oid = Some v \<and> ov_side v = sd \<and> ov_price v = p"
  using assms unfolding spec_ok_def by blast+

lemma book_spec_ok:
  assumes "book_ok bk"
  shows "spec_ok (abs_book bk)"
proof -
  note b = book_okD [OF assms]
  let ?view = "\<lambda>i. order_view_of (orders bk ! i)"
  have known: "\<exists>i\<in>active_slots bk. o_id (orders bk ! i) = oid \<and> v = ?view i"
    if "find_order oid bk = Some v" for oid v
    using that by (rule_tac find_order_cases [OF b(2), of oid]) auto
  have ids: "dom (\<lambda>oid. find_order oid bk) \<subseteq> (\<lambda>i. o_id (orders bk ! i)) ` active_slots bk"
    using known by (auto simp: dom_def)
  have part1: "ov_id v = oid \<and> ov_quantity v \<noteq> 0 \<and> oid \<in> set (queue_ids bk (ov_side v) (ov_price v))"
    if v: "find_order oid bk = Some v" for oid v
  proof -
    obtain i where i: "i \<in> active_slots bk" "o_id (orders bk ! i) = oid" "v = ?view i" using known [OF v] by blast
    then have "i \<in> queued bk" by (simp add: b(3))
    note at = queued_slots_at(1) [OF b(1) this]
    show ?thesis
      using slots_at_entry(5) [OF b(1) at] at i(2) by (auto simp: i(3) order_view_of_def queue_ids_def)
  qed
  have part2: "distinct (queue_ids bk sd p)" for sd p
    using slots_at_distinct [OF b(1), of sd p] order_ids_unique [OF b(2)] slots_at_active [OF assms]
    unfolding queue_ids_def distinct_map inj_on_def by blast
  have part3: "\<exists>v. find_order oid bk = Some v \<and> ov_side v = sd \<and> ov_price v = p"
    if m: "oid \<in> set (queue_ids bk sd p)" for oid sd p
  proof -
    obtain i where i: "i \<in> set (slots_at sd p bk)" "oid = o_id (orders bk ! i)"
      using m by (auto simp: queue_ids_def)
    then show ?thesis
      using find_order_some [OF b(2) slots_at_active [OF assms i(1)]] slots_at_entry(3,4) [OF b(1) i(1)]
      by (simp add: order_view_of_def)
  qed
  show ?thesis
    unfolding spec_ok_def abs_book_simps
    using finite_subset [OF ids] part1 part2 part3 by auto
qed

lemma set_queue_same [simp]: "set_queue sd p f Q sd p = f (Q sd p)"
  by (simp add: set_queue_def)

lemma set_queue_other: "(sd', p') \<noteq> (sd, p) \<Longrightarrow> set_queue sd p f Q sd' p' = Q sd' p'"
  by (auto simp: set_queue_def)

lemma spec_cancel_ok:
  assumes "spec_ok s"
  shows "spec_ok (snd (spec_cancel oid s))"
proof (cases "sb_orders s oid")
  case None
  with assms show ?thesis by (simp add: spec_cancel_def)
next
  case (Some v)
  note k = spec_okD [OF assms]
  let ?Q = "set_queue (ov_side v) (ov_price v) (remove1 oid) (sb_queue s)"
  have q: "set (?Q sd p) = set (sb_queue s sd p) - {oid}" "distinct (?Q sd p)" for sd p
  proof -
    have "oid \<notin> set (sb_queue s sd p)" if "(sd, p) \<noteq> (ov_side v, ov_price v)"
      using k(6) [of oid sd p] Some that by auto
    then show "set (?Q sd p) = set (sb_queue s sd p) - {oid}" "distinct (?Q sd p)"
      using k(5) [of sd p] set_queue_other [of sd p "ov_side v" "ov_price v" "remove1 oid" "sb_queue s"]
      by (cases "(sd, p) = (ov_side v, ov_price v)"; simp)+
  qed
  have "finite (dom ((sb_orders s)(oid := None)))" using k(1) by simp
  moreover have "ov_id w = oid' \<and> ov_quantity w \<noteq> 0 \<and> oid' \<in> set (?Q (ov_side w) (ov_price w))"
    if "((sb_orders s)(oid := None)) oid' = Some w" for oid' w
    using that k(2-4) [of oid' w] unfolding q by (auto split: if_splits)
  moreover have "\<exists>w. ((sb_orders s)(oid := None)) oid' = Some w \<and> ov_side w = sd \<and> ov_price w = p"
    if "oid' \<in> set (?Q sd p)" for oid' sd p
    using that k(6) [of oid' sd p] unfolding q by auto
  ultimately show ?thesis
    using Some q(2) unfolding spec_ok_def spec_cancel_def by simp
qed

lemma spec_trade_ok:
  assumes "spec_ok s"
  shows "spec_ok (snd (spec_trade oid q s))"
proof (cases "\<exists>v. sb_orders s oid = Some v \<and> q \<noteq> 0 \<and> \<not> ov_quantity v < q \<and> q \<noteq> ov_quantity v")
  case True
  then obtain v where v: "sb_orders s oid = Some v" "q \<noteq> 0" "\<not> ov_quantity v < q" "q \<noteq> ov_quantity v" by blast
  note k = spec_okD [OF assms]
  have nz: "ov_quantity v - q \<noteq> 0" using v(4) by simp
  have t: "snd (spec_trade oid q s) = s\<lparr>sb_orders := (sb_orders s)(oid \<mapsto> v\<lparr>ov_quantity := ov_quantity v - q\<rparr>)\<rparr>"
    using v by (simp add: spec_trade_def)
  have "ov_id w = oid' \<and> ov_quantity w \<noteq> 0 \<and> oid' \<in> set (sb_queue s (ov_side w) (ov_price w))"
    if "((sb_orders s)(oid \<mapsto> v\<lparr>ov_quantity := ov_quantity v - q\<rparr>)) oid' = Some w" for oid' w
    using that k(2-4) [of oid' w] k(2-4) [OF v(1)] nz by (cases "oid' = oid") auto
  moreover have "\<exists>w. ((sb_orders s)(oid \<mapsto> v\<lparr>ov_quantity := ov_quantity v - q\<rparr>)) oid' = Some w
      \<and> ov_side w = sd \<and> ov_price w = p"
    if "oid' \<in> set (sb_queue s sd p)" for oid' sd p
    using k(6) [OF that] v(1) by (cases "oid' = oid") auto
  ultimately show ?thesis
    using k(1,5) unfolding t spec_ok_def by simp
next
  case False
  then have "snd (spec_trade oid q s) = s \<or> snd (spec_trade oid q s) = snd (spec_cancel oid s)"
    by (auto simp: spec_trade_def split: option.split)
  with assms spec_cancel_ok [OF assms, of oid] show ?thesis by auto
qed

section \<open>One fill of the specification\<close>

text \<open>Trading only shrinks the book: queues lose at most the traded id, other orders stay.\<close>

lemma spec_trade_shrinks:
  "set (sb_queue (snd (spec_trade oid q s)) sd p) \<subseteq> set (sb_queue s sd p)"
  "dom (sb_orders (snd (spec_trade oid q s))) \<subseteq> dom (sb_orders s)"
  "oid' \<noteq> oid \<Longrightarrow> sb_orders (snd (spec_trade oid q s)) oid' = sb_orders s oid'"
  "sb_next_priority (snd (spec_trade oid q s)) = sb_next_priority s"
  using set_remove1_subset [of oid]
  by (auto simp: spec_trade_def spec_cancel_def set_queue_def split: option.split if_splits)

lemma spec_trade_order:
  assumes "sb_orders s oid = Some v" and "q \<noteq> 0" and "q \<le> ov_quantity v"
  shows "sb_orders (snd (spec_trade oid q s)) oid
    = (if q = ov_quantity v then None else Some (v\<lparr>ov_quantity := ov_quantity v - q\<rparr>))"
proof -
  have "\<not> ov_quantity v < q" using assms(3) by simp
  with assms show ?thesis by (simp add: spec_trade_def spec_cancel_def)
qed

text \<open>The total quantity an incoming order could trade with, as a natural number.\<close>

definition crossing_ids :: "order_request \<Rightarrow> spec_book \<Rightarrow> order_id set" where
  "crossing_ids req s = {oid. \<exists>v. sb_orders s oid = Some v \<and> ov_side v = opposite (rq_side req) \<and> crosses req (ov_price v)}"

definition crossing_total :: "order_request \<Rightarrow> spec_book \<Rightarrow> nat" where
  "crossing_total req s = (\<Sum>oid\<in>crossing_ids req s. unat (ov_quantity (the (sb_orders s oid))))"

lemma crossing_ids_finite: "spec_ok s \<Longrightarrow> finite (crossing_ids req s)"
  by (rule finite_subset [OF _ spec_okD(1)]) (auto simp: crossing_ids_def)

text \<open>The facts of one step that the run inductions use.\<close>

definition fills_ok :: "order_request \<Rightarrow> fill \<Rightarrow> bool" where
  "fills_ok req f \<longleftrightarrow> fl_taker_id f = rq_id req \<and> fl_taker_side f = rq_side req
     \<and> crosses req (fl_price f) \<and> fl_quantity f \<noteq> 0"

lemma match_step_facts:
  assumes "match_step req (remaining, fs, sq, s) (remaining', fs', sq', s')" and "spec_ok s"
  obtains f v where "fs' = fs @ [f]" "fills_ok req f" "fl_sequence f = sq" "sq' = sq + 1"
    "spec_best s (opposite (rq_side req)) (fl_price f)"
    "hd (sb_queue s (opposite (rq_side req)) (fl_price f)) = fl_maker_id f"
    "sb_orders s (fl_maker_id f) = Some v" "ov_side v = opposite (rq_side req)" "ov_price v = fl_price f"
    "fl_quantity f \<le> ov_quantity v" "fl_quantity f \<le> remaining" "remaining' = remaining - fl_quantity f"
    "s' = snd (spec_trade (fl_maker_id f) (fl_quantity f) s)" "spec_ok s'" "remaining \<noteq> 0"
  using assms(1)
proof (cases rule: match_step.cases)
  case (fill p oid ids v traded)
  let ?f = "\<lparr>fl_taker_id = rq_id req, fl_maker_id = oid, fl_taker_side = rq_side req,
    fl_price = p, fl_quantity = traded, fl_sequence = sq\<rparr>"
  note k = spec_okD [OF assms(2)]
  have "oid \<in> set (sb_queue s (opposite (rq_side req)) p)" using fill by simp
  from k(6) [OF this] \<open>sb_orders s oid = Some v\<close>
  have v: "ov_side v = opposite (rq_side req)" "ov_price v = p" by simp_all
  have nz: "traded \<noteq> 0" using fill k(3) [of oid v] by (simp add: min_def)
  show ?thesis
    by (rule that [of ?f v]) (use fill v nz spec_trade_ok [OF assms(2), of oid traded] in \<open>simp_all add: fills_ok_def\<close>)
qed

section \<open>Runs\<close>

lemma unat_split: "x \<le> y \<Longrightarrow> unat x + unat (y - x) = unat (y :: 'a::len word)"
  using unat_sub_le [of x y] by (simp add: word_le_nat_alt)

lemma crossing_total_step:
  assumes ok: "spec_ok s" and v: "sb_orders s oid = Some v" "ov_side v = opposite (rq_side req)" "crosses req (ov_price v)"
    and q: "q \<noteq> 0" "q \<le> ov_quantity v"
  shows "crossing_total req (snd (spec_trade oid q s)) + unat q = crossing_total req s"
proof -
  let ?s = "snd (spec_trade oid q s)"
  let ?f = "\<lambda>s oid. unat (ov_quantity (the (sb_orders s oid)))"
  have mem: "oid \<in> crossing_ids req s" using v by (simp add: crossing_ids_def)
  note fin = crossing_ids_finite [OF ok, of req]
  have oth: "sb_orders ?s k = sb_orders s k" if "k \<noteq> oid" for k by (rule spec_trade_shrinks(3) [OF that])
  have rest: "(\<Sum>k\<in>crossing_ids req s - {oid}. ?f ?s k) = (\<Sum>k\<in>crossing_ids req s - {oid}. ?f s k)"
    using oth by (intro sum.cong) auto
  have total: "crossing_total req s = unat (ov_quantity v) + (\<Sum>k\<in>crossing_ids req s - {oid}. ?f s k)"
    using sum.remove [OF fin mem, of "?f s"] v(1) by (simp add: crossing_total_def)
  note order = spec_trade_order [OF v(1) q]
  show ?thesis
  proof (cases "q = ov_quantity v")
    case True
    have "crossing_ids req ?s = crossing_ids req s - {oid}"
    proof (rule set_eqI)
      fix k show "k \<in> crossing_ids req ?s \<longleftrightarrow> k \<in> crossing_ids req s - {oid}"
        using order oth [of k] True by (cases "k = oid") (simp_all add: crossing_ids_def)
    qed
    then show ?thesis using total rest True by (simp add: crossing_total_def)
  next
    case False
    have ids: "crossing_ids req ?s = crossing_ids req s"
    proof (rule set_eqI)
      fix k show "k \<in> crossing_ids req ?s \<longleftrightarrow> k \<in> crossing_ids req s"
        using order oth [of k] False v by (cases "k = oid") (simp_all add: crossing_ids_def)
    qed
    have "crossing_total req ?s = unat (ov_quantity v - q) + (\<Sum>k\<in>crossing_ids req s - {oid}. ?f ?s k)"
      using sum.remove [OF fin mem, of "?f ?s"] order False by (simp add: crossing_total_def ids)
    with total rest unat_split [OF q(2)] show ?thesis by simp
  qed
qed

text \<open>The invariant of a run from the start of a submission.\<close>

definition run_inv :: "order_request \<Rightarrow> spec_state \<Rightarrow> spec_state \<Rightarrow> bool" where
  "run_inv req st0 st \<longleftrightarrow>
     (case (st0, st) of ((q, _, sq0, s0), (remaining, fs, sq, s)) \<Rightarrow>
        spec_ok s
      \<and> unat remaining + sum_list (map (\<lambda>f. unat (fl_quantity f)) fs) = unat q
      \<and> (\<forall>f\<in>set fs. fills_ok req f)
      \<and> map fl_sequence fs = map (\<lambda>i. sq0 + of_nat i) [0..<length fs] \<and> sq = sq0 + of_nat (length fs)
      \<and> sorted (map (\<lambda>f. side_rank (opposite (rq_side req)) (fl_price f)) fs)
      \<and> (\<forall>f\<in>set fs. \<forall>p. sb_queue s (opposite (rq_side req)) p \<noteq> [] \<longrightarrow>
           side_rank (opposite (rq_side req)) (fl_price f) \<le> side_rank (opposite (rq_side req)) p)
      \<and> (\<forall>f\<in>set fs. \<exists>v. sb_orders s0 (fl_maker_id f) = Some v \<and> ov_side v = opposite (rq_side req)
           \<and> ov_price v = fl_price f)
      \<and> (\<forall>oid v. sb_orders s oid = Some v \<longrightarrow> (\<exists>v0. sb_orders s0 oid = Some v0
           \<and> ov_side v = ov_side v0 \<and> ov_price v = ov_price v0 \<and> ov_priority v = ov_priority v0))
      \<and> (\<forall>oid v. sb_orders s0 oid = Some v \<and> ov_side v = rq_side req \<longrightarrow> sb_orders s oid = Some v)
      \<and> (\<forall>p. sb_queue s (rq_side req) p = sb_queue s0 (rq_side req) p)
      \<and> sb_next_priority s = sb_next_priority s0
      \<and> crossing_total req s + sum_list (map (\<lambda>f. unat (fl_quantity f)) fs) = crossing_total req s0)"

lemma spec_trade_queue_side:
  assumes "sb_orders s oid = Some v" and "sd \<noteq> ov_side v"
  shows "sb_queue (snd (spec_trade oid q s)) sd p = sb_queue s sd p"
  using assms by (simp add: spec_trade_def spec_cancel_def set_queue_def)

lemma spec_trade_keeps:
  assumes "sb_orders s oid = Some v" and "q \<noteq> 0" and "q \<le> ov_quantity v"
    and "sb_orders (snd (spec_trade oid q s)) k = Some w"
  shows "\<exists>w0. sb_orders s k = Some w0 \<and> ov_side w = ov_side w0 \<and> ov_price w = ov_price w0
    \<and> ov_priority w = ov_priority w0"
proof (cases "k = oid")
  case True
  with assms spec_trade_order [OF assms(1-3)] show ?thesis by (auto split: if_splits)
next
  case False
  with assms(4) spec_trade_shrinks(3) [OF False, of q s] show ?thesis by simp
qed

lemma run_inv_step:
  assumes inv: "run_inv req st0 (remaining, fs, sq, s)"
    and step: "match_step req (remaining, fs, sq, s) (remaining', fs', sq', s')"
  shows "run_inv req st0 (remaining', fs', sq', s')"
proof -
  let ?opp = "opposite (rq_side req)"
  obtain q fs0 sq0 s0 where st0: "st0 = (q, fs0, sq0, s0)" by (cases st0)
  note I = inv [unfolded st0 run_inv_def prod.case]
  have ok: "spec_ok s" using I by blast
  obtain f v where f: "fs' = fs @ [f]" "fills_ok req f" "fl_sequence f = sq" "sq' = sq + 1"
    "spec_best s ?opp (fl_price f)"
    "hd (sb_queue s ?opp (fl_price f)) = fl_maker_id f"
    "sb_orders s (fl_maker_id f) = Some v" "ov_side v = ?opp" "ov_price v = fl_price f"
    "fl_quantity f \<le> ov_quantity v" "fl_quantity f \<le> remaining" "remaining' = remaining - fl_quantity f"
    "s' = snd (spec_trade (fl_maker_id f) (fl_quantity f) s)" "spec_ok s'" "remaining \<noteq> 0"
    by (rule match_step_facts [OF step ok])
  have nz: "fl_quantity f \<noteq> 0" and cr: "crosses req (fl_price f)" using f(2) by (simp_all add: fills_ok_def)
  have best: "side_rank ?opp (fl_price f) \<le> side_rank ?opp p" if "sb_queue s' ?opp p \<noteq> []" for p
  proof -
    have "sb_queue s ?opp p \<noteq> []" using that spec_trade_shrinks(1) [of "fl_maker_id f" "fl_quantity f" s ?opp p] f(13) by auto
    with f(5) show ?thesis by (simp add: spec_best_def)
  qed
  have queue_now: "sb_queue s ?opp (fl_price f) \<noteq> []" using f(5) by (simp add: spec_best_def)
  have c1: "unat remaining' + sum_list (map (\<lambda>f. unat (fl_quantity f)) fs') = unat q"
    using I unat_split [OF f(11)] by (simp add: f(1,12))
  have c2: "\<forall>g\<in>set fs'. fills_ok req g" using I f(2) by (simp add: f(1))
  have c3: "map fl_sequence fs' = map (\<lambda>i. sq0 + of_nat i) [0..<length fs']" "sq' = sq0 + of_nat (length fs')"
    using I f(3,4) by (simp_all add: f(1))
  have c4: "sorted (map (\<lambda>f. side_rank ?opp (fl_price f)) fs')"
    using I queue_now by (simp add: f(1) sorted_append)
  have c5: "\<forall>g\<in>set fs'. \<forall>p. sb_queue s' ?opp p \<noteq> [] \<longrightarrow> side_rank ?opp (fl_price g) \<le> side_rank ?opp p"
  proof (intro ballI allI impI)
    fix g p assume g: "g \<in> set fs'" "sb_queue s' ?opp p \<noteq> []"
    show "side_rank ?opp (fl_price g) \<le> side_rank ?opp p"
    proof (cases "g = f")
      case False
      then have "side_rank ?opp (fl_price g) \<le> side_rank ?opp (fl_price f)" using I g(1) queue_now by (simp add: f(1))
      with best [OF g(2)] show ?thesis by simp
    qed (use best [OF g(2)] in simp)
  qed
  have c6: "\<forall>g\<in>set fs'. \<exists>v. sb_orders s0 (fl_maker_id g) = Some v \<and> ov_side v = ?opp \<and> ov_price v = fl_price g"
    using I f(7-9) by (simp add: f(1)) metis
  have c7: "\<forall>oid v. sb_orders s' oid = Some v \<longrightarrow> (\<exists>v0. sb_orders s0 oid = Some v0
      \<and> ov_side v = ov_side v0 \<and> ov_price v = ov_price v0 \<and> ov_priority v = ov_priority v0)"
    using I spec_trade_keeps [OF f(7) nz f(10)] unfolding f(13) by metis
  have c8: "\<forall>oid v. sb_orders s0 oid = Some v \<and> ov_side v = rq_side req \<longrightarrow> sb_orders s' oid = Some v"
  proof (intro allI impI)
    fix oid w assume w: "sb_orders s0 oid = Some w \<and> ov_side w = rq_side req"
    then have "sb_orders s oid = Some w" using I by blast
    moreover from this w f(7,8) have "oid \<noteq> fl_maker_id f" by auto
    ultimately show "sb_orders s' oid = Some w" using spec_trade_shrinks(3) by (simp add: f(13))
  qed
  have c9: "\<forall>p. sb_queue s' (rq_side req) p = sb_queue s0 (rq_side req) p"
    using I spec_trade_queue_side [OF f(7)] f(8) by (simp add: f(13))
  have c10: "sb_next_priority s' = sb_next_priority s0" using I spec_trade_shrinks(4) by (simp add: f(13))
  have "crossing_total req s' + unat (fl_quantity f) = crossing_total req s"
    unfolding f(13) using f(8-10) nz cr by (intro crossing_total_step [OF ok f(7)]) simp_all
  then have c11: "crossing_total req s' + sum_list (map (\<lambda>f. unat (fl_quantity f)) fs') = crossing_total req s0"
    using I by (simp add: f(1))
  show ?thesis
    unfolding st0 run_inv_def prod.case using f(14) c1 c2 c3 c4 c5 c6 c7 c8 c9 c10 c11 by blast
qed

lemma run_inv_start: "spec_ok s \<Longrightarrow> run_inv req (q, [], sq, s) (q, [], sq, s)"
  by (simp add: run_inv_def)

lemma run_inv_run:
  assumes "match_run req st0 st" and "run_inv req st0 st0"
  shows "run_inv req st0 st"
  using assms
proof (induction rule: rtranclp_induct)
  case (step a b)
  then show ?case using run_inv_step by (cases a; cases b) blast
qed

section \<open>The fill-or-kill check\<close>

lemma fold_if_add:
  "fold (\<lambda>i a. if P i then a + g i else a) xs (a :: u64) = a + sum_list (map (\<lambda>i. if P i then g i else 0) xs)"
  by (induction xs arbitrary: a) (simp_all add: ac_simps)

text \<open>The code adds 64-bit totals level by level: the result is the true total modulo \<^term>\<open>2 ^ 64 :: nat\<close>.\<close>

lemma fillable_total:
  assumes ok: "book_ok bk"
  shows "fillable_quantity req bk = of_nat (crossing_total req (abs_book bk))"
proof -
  let ?opp = "opposite (rq_side req)"
  note b = book_okD [OF ok]
  note d = depth_okD [OF b(1)]
  note v = dir_invD [OF d(1)]
  let ?n = "side_heap_size ?opp bk" and ?h = "side_heap ?opp bk"
  let ?cr = "\<lambda>li. crosses req (l_price (levels bk ! li))"
  let ?M = "{li \<in> ladder_members ?opp bk. ?cr li}"
  let ?S = "{i \<in> active_slots bk. o_side (orders bk ! i) = ?opp \<and> crosses req (o_price (orders bk ! i))}"
  let ?q = "\<lambda>i. o_quantity (orders bk ! i)"
  have mem: "ladder_members ?opp bk = {i \<in> active_levels bk. l_side (levels bk ! i) = ?opp}" by (rule v(6))
  have fin: "finite (ladder_members ?opp bk)" by (simp add: ladder_members_def)
  have set: "set (take ?n ?h) = ladder_members ?opp bk" by (simp add: ladder_members_def)
  have "length (take ?n ?h) = ?n" using v(5) [of ?opp] by (simp add: ladder_ok_def indexed_def)
  then have dist: "distinct (take ?n ?h)"
    using ladder_members_card [OF v(5)] by (intro card_distinct) (simp only: set)
  have level: "l_total_quantity (levels bk ! li) = sum ?q (set (queue_slots bk li))" if "li \<in> ?M" for li
  proof -
    have "li \<in> active_levels bk" using that mem by simp
    note k = queue_okD [OF queues_invD(2) [OF d(2) this]]
    show ?thesis using k(6) sum_list_distinct_conv_sum_set [OF k(1), of ?q] by simp
  qed
  have "fillable_quantity req bk = sum_list (map (\<lambda>li. if ?cr li then l_total_quantity (levels bk ! li) else 0) (take ?n ?h))"
    by (simp add: fillable_quantity_def fold_if_add Let_def)
  also have "\<dots> = sum (\<lambda>li. if ?cr li then l_total_quantity (levels bk ! li) else 0) (ladder_members ?opp bk)"
    using sum_list_distinct_conv_sum_set [OF dist] set by simp
  also have "\<dots> = sum (\<lambda>li. l_total_quantity (levels bk ! li)) ?M"
    using sum.inter_filter [OF fin, of "\<lambda>li. l_total_quantity (levels bk ! li)" ?cr] by simp
  also have "\<dots> = sum (\<lambda>li. sum ?q (set (queue_slots bk li))) ?M"
    using level by (intro sum.cong) simp_all
  also have "\<dots> = sum ?q (\<Union>li\<in>?M. set (queue_slots bk li))"
  proof (rule sum.UNION_disjoint [symmetric])
    show "\<forall>li\<in>?M. \<forall>lj\<in>?M. li \<noteq> lj \<longrightarrow> set (queue_slots bk li) \<inter> set (queue_slots bk lj) = {}"
      using other_queue_disjoint [OF d(2)] mem by blast
  qed (use fin in simp_all)
  also have "(\<Union>li\<in>?M. set (queue_slots bk li)) = ?S"
  proof (intro equalityI subsetI)
    fix i assume "i \<in> (\<Union>li\<in>?M. set (queue_slots bk li))"
    then obtain li where li: "li \<in> active_levels bk" "l_side (levels bk ! li) = ?opp" "?cr li" "i \<in> set (queue_slots bk li)"
      using mem by blast
    have "queue_entry (orders bk) (levels bk ! li) li i"
      using queue_okD(2) [OF queues_invD(2) [OF d(2) li(1)] li(4)] .
    moreover have "i \<in> queued bk" using li(1,4) by (auto simp: queued_def linked_def)
    ultimately show "i \<in> ?S" using li(2,3) b(3) by (simp add: queue_entry_def)
  next
    fix i assume i: "i \<in> ?S"
    then have "i \<in> queued bk" using b(3) by simp
    note at = queued_slots_at [OF b(1) this]
    let ?li = "o_level (orders bk ! i)"
    have "?li \<in> ?M" using at(2) i mem by (simp add: level_at_def)
    moreover have "i \<in> set (queue_slots bk ?li)" using at(1,3) by simp
    ultimately show "i \<in> (\<Union>li\<in>?M. set (queue_slots bk li))" by blast
  qed
  also have "sum ?q ?S = of_nat (crossing_total req (abs_book bk))"
  proof -
    have inj: "inj_on (\<lambda>i. o_id (orders bk ! i)) ?S"
      using order_ids_unique [OF b(2)] by (auto simp: inj_on_def)
    have img: "crossing_ids req (abs_book bk) = (\<lambda>i. o_id (orders bk ! i)) ` ?S"
    proof (intro equalityI subsetI)
      fix k assume "k \<in> crossing_ids req (abs_book bk)"
      then obtain w where w: "find_order k bk = Some w" "ov_side w = ?opp" "crosses req (ov_price w)"
        by (auto simp: crossing_ids_def)
      show "k \<in> (\<lambda>i. o_id (orders bk ! i)) ` ?S"
      proof (rule find_order_cases [OF b(2), of k])
        fix i assume i: "find_order k bk = Some (order_view_of (orders bk ! i))" "i \<in> active_slots bk"
          "o_id (orders bk ! i) = k"
        with w have "i \<in> ?S" by (auto simp: order_view_of_def)
        with i(3) show ?thesis by blast
      qed (use w(1) in simp)
    next
      fix k assume "k \<in> (\<lambda>i. o_id (orders bk ! i)) ` ?S"
      then show "k \<in> crossing_ids req (abs_book bk)"
        using find_order_some [OF b(2)] by (auto simp: crossing_ids_def order_view_of_def)
    qed
    have "crossing_total req (abs_book bk) = sum (\<lambda>i. unat (?q i)) ?S"
      unfolding crossing_total_def img sum.reindex [OF inj]
      using find_order_some [OF b(2)] by (intro sum.cong) (simp_all add: order_view_of_def)
    then show ?thesis by simp
  qed
  finally show ?thesis .
qed

lemma no_crossing_total:
  assumes "spec_ok s" and "\<forall>p. sb_queue s (opposite (rq_side req)) p \<noteq> [] \<longrightarrow> \<not> crosses req p"
  shows "crossing_total req s = 0"
proof -
  have "oid \<notin> crossing_ids req s" for oid
  proof
    assume "oid \<in> crossing_ids req s"
    then obtain v where v: "sb_orders s oid = Some v" "ov_side v = opposite (rq_side req)" "crosses req (ov_price v)"
      by (auto simp: crossing_ids_def)
    from spec_okD(4) [OF assms(1) v(1)] v(2) have "sb_queue s (opposite (rq_side req)) (ov_price v) \<noteq> []" by auto
    with assms(2) v(3) show False by blast
  qed
  then have "crossing_ids req s = {}" by blast
  then show ?thesis by (simp add: crossing_total_def)
qed

section \<open>A whole submission\<close>

definition spec_settle :: "nat \<Rightarrow> order_request \<Rightarrow> spec_state \<Rightarrow> submit_result \<times> fill list \<times> spec_book" where
  "spec_settle cap req st =
     (case st of (remaining, fs, sq, s) \<Rightarrow>
       if remaining = 0 then (FilledComplete, fs, s)
       else if may_rest req then
         (case spec_rest cap (rq_id req) (rq_side req) (rq_price req) remaining s of
            (r, s') \<Rightarrow>
              (if r = CapacityExhausted then RejectedCapacity
               else if remaining = rq_quantity req then RestedNoFill else PartialFillRested, fs, s'))
       else (if remaining = rq_quantity req then NoFillKilled else PartialFillKilled, fs, s))"

definition accepted :: "order_request \<Rightarrow> order_book \<Rightarrow> bool" where
  "accepted req bk \<longleftrightarrow> rq_type req = NewOrder \<and> rq_quantity req \<noteq> 0
     \<and> \<not> (may_rest req \<and> find_order (rq_id req) bk \<noteq> None)
     \<and> \<not> (rq_tif req = FOK \<and> fillable_quantity req bk < rq_quantity req)"

abbreviation start_of :: "order_request \<Rightarrow> order_book \<Rightarrow> spec_state" where
  "start_of req bk \<equiv> (rq_quantity req, [], fill_sequence bk, abs_book bk)"

lemma submit_accepted:
  assumes ok: "book_ok bk" and acc: "accepted req bk"
  obtains remaining fs b1 where "submit req bk = Some (settle req (remaining, fs, b1))"
    "match_run req (start_of req bk) (spec_of (remaining, fs, b1))" "match_done req (spec_of (remaining, fs, b1))"
    "run_inv req (start_of req bk) (spec_of (remaining, fs, b1))" "loop_frame bk b1"
proof -
  obtain remaining fs b1 where r: "match_loop req (rq_quantity req, [], bk) = Some (remaining, fs, b1)"
    "match_run req (spec_of (rq_quantity req, [], bk)) (spec_of (remaining, fs, b1))" "loop_frame bk b1"
    "match_done req (spec_of (remaining, fs, b1))"
    using match_loop_runs [OF ok, of req "rq_quantity req" "[]"] by blast
  have run: "match_run req (start_of req bk) (spec_of (remaining, fs, b1))" using r(2) by simp
  have s: "submit req bk = Some (settle req (remaining, fs, b1))"
    using acc r(1) by (auto simp: submit_def accepted_def find_order_index_npos)
  show ?thesis
    by (rule that [OF s run r(4) run_inv_run [OF run run_inv_start [OF book_spec_ok [OF ok]]] r(3)])
qed

lemma submit_rejected:
  assumes "rq_type req = NewOrder" and "\<not> accepted req bk"
  shows "submit req bk = Some (if rq_quantity req = 0 then RejectedInvalid
    else if may_rest req \<and> find_order (rq_id req) bk \<noteq> None then RejectedDuplicate else RejectedFOK, [], bk)"
  using assms by (auto simp: submit_def accepted_def find_order_index_npos)

lemma settle_refines:
  assumes frame: "loop_frame bk b1" and room: "level_room (level_lookup bk)"
  shows "\<exists>r bk'. settle req (remaining, fs, b1) = (r, fs, bk') \<and> book_ok bk'
    \<and> spec_settle (length (orders bk)) req (spec_of (remaining, fs, b1)) = (r, fs, abs_book bk')"
proof -
  have b1: "book_ok b1" "length (orders b1) = length (orders bk)" "level_room (level_lookup b1)"
    using frame room by (simp_all add: loop_frame_def level_room_empties)
  obtain rr b2 where rr: "rest_order (rq_id req) (rq_side req) (rq_price req) remaining b1 = (rr, b2)"
    by (cases "rest_order (rq_id req) (rq_side req) (rq_price req) remaining b1")
  with rest_order_refines [OF b1(1,3), of "rq_id req" "rq_side req" "rq_price req" remaining]
  have ref: "spec_rest (length (orders bk)) (rq_id req) (rq_side req) (rq_price req) remaining (abs_book b1)
      = (rr, abs_book b2)" "book_ok b2"
    by (simp_all add: refines_def b1(2) prod_eq_iff)
  show ?thesis
    using b1(1) ref by (auto simp: settle_def spec_settle_def rr Let_def)
qed

text \<open>The fills do not depend on what happens to the remainder.\<close>

lemma settle_fields:
  assumes "settle req (remaining, fs, b1) = (r, fs', bk')"
  shows "fs' = fs" and "r = FilledComplete \<longleftrightarrow> remaining = 0" and "\<not> may_rest req \<Longrightarrow> bk' = b1"
    and "r \<in> {FilledComplete, RejectedCapacity, RestedNoFill, PartialFillRested, NoFillKilled, PartialFillKilled}"
  using assms by (auto simp: settle_def Let_def split: prod.splits if_splits)

definition crossing_free :: "spec_book \<Rightarrow> bool" where
  "crossing_free s \<longleftrightarrow>
     (\<forall>p q. sb_queue s Buy p \<noteq> [] \<and> sb_queue s Sell q \<noteq> [] \<longrightarrow> sint p < sint q)"

lemma crossing_free_sub:
  assumes "crossing_free s" and "\<And>sd p. sb_queue s' sd p \<noteq> [] \<Longrightarrow> sb_queue s sd p \<noteq> []"
  shows "crossing_free s'"
  using assms unfolding crossing_free_def by blast

lemma run_shrinks:
  assumes "match_run req st0 st"
  shows "sb_queue (snd (snd (snd st))) sd p \<noteq> [] \<Longrightarrow> sb_queue (snd (snd (snd st0))) sd p \<noteq> []"
  using assms
proof (induction rule: rtranclp_induct)
  case (step a b)
  from step.hyps(2) have "set (sb_queue (snd (snd (snd b))) sd p) \<subseteq> set (sb_queue (snd (snd (snd a))) sd p)"
    by (cases rule: match_step.cases) (simp add: spec_trade_shrinks(1))
  with step.prems have "sb_queue (snd (snd (snd a))) sd p \<noteq> []" by (metis set_empty subset_empty)
  then show ?case by (rule step.IH)
qed

text \<open>Resting an order on any book, with or without a free level: the queues stay, or the order joins its own.\<close>

lemma rest_order_queues:
  assumes ok: "book_ok bk"
  shows "queue_ids (snd (rest_order oid sd p q bk)) = queue_ids bk
    \<or> queue_ids (snd (rest_order oid sd p q bk)) = set_queue sd p (\<lambda>ids. ids @ [oid]) (queue_ids bk)"
proof -
  consider "q = 0 \<or> find_order_index oid bk \<noteq> npos \<or> free_order bk = npos"
    | "q \<noteq> 0" "find_order_index oid bk = npos" "free_order bk \<noteq> npos" "level_available sd p bk"
    | "q \<noteq> 0" "find_order_index oid bk = npos" "free_order bk \<noteq> npos" "\<not> level_available sd p bk" by blast
  then show ?thesis
  proof cases
    case 1
    then show ?thesis by (auto simp: rest_order_def)
  next
    case 2
    then have new: "find_order oid bk = None" by (simp add: find_order_index_npos)
    have "queue_ids (snd (rest_order oid sd p q bk)) = sb_queue (abs_book (snd (rest_order oid sd p q bk)))" by simp
    also have "\<dots> = set_queue sd p (\<lambda>ids. ids @ [oid]) (queue_ids bk)"
      unfolding abs_rest_order [OF ok 2(1) new 2(3,4)] by simp
    finally show ?thesis ..
  next
    case 3
    obtain b1 where b1: "acquire_level sd p bk = (npos, b1)" "\<And>sd' p'. slots_at sd' p' b1 = slots_at sd' p' bk"
      by (rule acquire_level_fails [OF book_okD(1) [OF ok] 3(4)]) (rule that; (assumption | blast))
    have "orders b1 = orders bk" using acquire_level_frame(1) [of sd p bk] by (simp add: b1(1))
    then have "queue_ids b1 = queue_ids bk" by (simp add: fun_eq_iff queue_ids_def b1(2))
    then show ?thesis using 3 by (simp add: rest_order_def b1(1))
  qed
qed

lemma set_queue_crossing_free:
  assumes free: "crossing_free s" and lim: "\<And>p. sb_queue s (opposite (rq_side req)) p \<noteq> [] \<Longrightarrow> \<not> crosses req p"
    and limit: "rq_order_type req = Limit"
    and q: "sb_queue s' = set_queue (rq_side req) (rq_price req) (\<lambda>ids. ids @ [rq_id req]) (sb_queue s)"
  shows "crossing_free s'"
  unfolding crossing_free_def
proof (intro allI impI)
  fix p p' assume a: "sb_queue s' Buy p \<noteq> [] \<and> sb_queue s' Sell p' \<noteq> []"
  show "sint p < sint p'"
  proof (cases "rq_side req")
    case Buy
    then have "sb_queue s Sell p' \<noteq> []" using a q by (simp add: set_queue_def)
    moreover have "p = rq_price req \<or> sb_queue s Buy p \<noteq> []"
      using a q Buy by (cases "p = rq_price req") (simp_all add: set_queue_def)
    ultimately show ?thesis
      using lim [of p'] free Buy limit by (auto simp: crosses_def crossing_free_def)
  next
    case Sell
    then have "sb_queue s Buy p \<noteq> []" using a q by (simp add: set_queue_def)
    moreover have "p' = rq_price req \<or> sb_queue s Sell p' \<noteq> []"
      using a q Sell by (cases "p' = rq_price req") (simp_all add: set_queue_def)
    ultimately show ?thesis
      using lim [of p] free Sell limit by (auto simp: crosses_def crossing_free_def)
  qed
qed

lemma settle_crossing_free:
  assumes ok: "book_ok b1" and free: "crossing_free (abs_book b1)" and stop: "match_done req (spec_of (remaining, fs, b1))"
  shows "crossing_free (abs_book (snd (snd (settle req (remaining, fs, b1)))))"
proof (cases "remaining = 0 \<or> \<not> may_rest req")
  case True
  with free show ?thesis by (auto simp: settle_def Let_def)
next
  case False
  let ?b2 = "snd (rest_order (rq_id req) (rq_side req) (rq_price req) remaining b1)"
  have b2: "snd (snd (settle req (remaining, fs, b1))) = ?b2"
    using False by (auto simp: settle_def Let_def split: prod.split)
  from rest_order_queues [OF ok, of "rq_id req" "rq_side req" "rq_price req" remaining]
  have "crossing_free (abs_book ?b2)"
  proof
    assume "queue_ids ?b2 = queue_ids b1"
    then show "crossing_free (abs_book ?b2)" using free by (simp add: crossing_free_def)
  next
    assume q: "queue_ids ?b2 = set_queue (rq_side req) (rq_price req) (\<lambda>ids. ids @ [rq_id req]) (queue_ids b1)"
    show "crossing_free (abs_book ?b2)"
      by (rule set_queue_crossing_free [OF free, of req])
        (use stop False q in \<open>auto simp: match_done_def may_rest_def\<close>)
  qed
  then show ?thesis by (simp only: b2)
qed

section \<open>Properties\<close>

text \<open>
  C10. Price-time priority: on a well-formed book with room in the level index, every accepted new order
  is executed by \<^verbatim>\<open>submit\<close> as a run of the matching specification - one fill after the other, each against
  the oldest order at the best opposite price while that price crosses - that stops only when nothing is
  left or nothing crosses. The remainder is then rested or killed as specified; the resulting book is
  well formed and represents the specified state. In particular the nested loops end.
\<close>

theorem submit_price_time_priority:
  assumes "book_ok bk" and "level_room (level_lookup bk)" and "accepted req bk"
  shows "\<exists>st r fs bk'. submit req bk = Some (r, fs, bk') \<and> match_run req (start_of req bk) st \<and> match_done req st
    \<and> spec_settle (length (orders bk)) req st = (r, fs, abs_book bk') \<and> book_ok bk'"
proof -
  obtain remaining fs b1 where s: "submit req bk = Some (settle req (remaining, fs, b1))"
    "match_run req (start_of req bk) (spec_of (remaining, fs, b1))" "match_done req (spec_of (remaining, fs, b1))"
    "run_inv req (start_of req bk) (spec_of (remaining, fs, b1))" "loop_frame bk b1"
    by (rule submit_accepted [OF assms(1,3)])
  obtain r bk' where r: "settle req (remaining, fs, b1) = (r, fs, bk')" "book_ok bk'"
    "spec_settle (length (orders bk)) req (spec_of (remaining, fs, b1)) = (r, fs, abs_book bk')"
    using settle_refines [OF s(5) assms(2), of req remaining fs] by blast
  have "submit req bk = Some (r, fs, bk')" unfolding s(1) r(1) ..
  with s(2,3) r(2,3) show ?thesis by blast
qed

definition take_bids :: "time_in_force \<Rightarrow> quantity \<Rightarrow> order_request" where
  "take_bids t q = \<lparr>rq_type = NewOrder, rq_id = 9, rq_side = Sell, rq_price = 100, rq_quantity = q,
     rq_order_type = Limit, rq_tif = t\<rparr>"

lemma take_bids_simps [simp]:
  "rq_type (take_bids t q) = NewOrder" "rq_id (take_bids t q) = 9" "rq_side (take_bids t q) = Sell"
  "rq_price (take_bids t q) = 100" "rq_quantity (take_bids t q) = q" "rq_order_type (take_bids t q) = Limit"
  "rq_tif (take_bids t q) = t"
  by (simp_all add: take_bids_def)

lemma take_bids_accepted: "t \<noteq> GTC \<Longrightarrow> t \<noteq> FOK \<Longrightarrow> q \<noteq> 0 \<Longrightarrow> accepted (take_bids t q) two_bids"
  by (simp add: accepted_def may_rest_def)

theorem submit_price_time_priority_witness:
  "\<exists>r fs bk'. submit (take_bids IOC 10) two_bids = Some (r, fs, bk') \<and> book_ok bk'"
  using submit_price_time_priority [OF two_bids_ok(1) two_bids_ok(4) take_bids_accepted [of IOC 10]] by auto

text \<open>
  C11. \<^verbatim>\<open>submit\<close> always returns on a well-formed book, whatever the request, the quantities and the
  capacity left: the two nested \<^verbatim>\<open>while\<close> loops end.
\<close>

theorem submit_terminates:
  assumes "book_ok bk"
  shows "\<exists>r fs bk'. submit req bk = Some (r, fs, bk')"
proof (cases "rq_type req = CancelOrder \<or> \<not> accepted req bk")
  case True
  then show ?thesis
    using submit_rejected [of req bk] by (cases "rq_type req") (auto simp: submit_def split: prod.split)
next
  case False
  then obtain remaining fs b1 where "submit req bk = Some (settle req (remaining, fs, b1))"
    using submit_accepted [OF assms] by metis
  then show ?thesis by (cases "settle req (remaining, fs, b1)") auto
qed

theorem submit_terminates_witness: "submit (take_bids FOK 10) two_bids \<noteq> None"
  using submit_terminates [OF two_bids_ok(1), of "take_bids FOK 10"] by auto

text \<open>
  C12. The fills of an accepted order: each trades a positive quantity at a price the order's limit
  allows, with an order that was resting there when it arrived; prices only get worse from one fill to
  the next; fill sequence numbers are consecutive; the filled quantities never exceed the order's, and
  add up to it exactly when the result is \<^verbatim>\<open>FilledComplete\<close>.
\<close>

theorem submit_fills_sound:
  assumes "book_ok bk" and "accepted req bk" and "submit req bk = Some (r, fs, bk')"
  shows "(\<forall>f\<in>set fs. fl_quantity f \<noteq> 0 \<and> crosses req (fl_price f) \<and> fl_taker_id f = rq_id req
      \<and> (\<exists>v. find_order (fl_maker_id f) bk = Some v \<and> ov_side v = opposite (rq_side req) \<and> ov_price v = fl_price f))
    \<and> sorted (map (\<lambda>f. side_rank (opposite (rq_side req)) (fl_price f)) fs)
    \<and> map fl_sequence fs = map (\<lambda>i. fill_sequence bk + of_nat i) [0..<length fs]
    \<and> sum_list (map (\<lambda>f. unat (fl_quantity f)) fs) \<le> unat (rq_quantity req)
    \<and> (r = FilledComplete \<longleftrightarrow> sum_list (map (\<lambda>f. unat (fl_quantity f)) fs) = unat (rq_quantity req))"
proof -
  obtain remaining fs1 b1 where s: "submit req bk = Some (settle req (remaining, fs1, b1))"
    "match_run req (start_of req bk) (spec_of (remaining, fs1, b1))" "match_done req (spec_of (remaining, fs1, b1))"
    "run_inv req (start_of req bk) (spec_of (remaining, fs1, b1))" "loop_frame bk b1"
    by (rule submit_accepted [OF assms(1,2)])
  note st = settle_fields [of req remaining fs1 b1 r fs bk']
  have fs: "fs = fs1" "r = FilledComplete \<longleftrightarrow> remaining = 0" using st s(1) assms(3) by simp_all
  note I = s(4) [unfolded run_inv_def prod.case fs(1) [symmetric]]
  have total: "unat remaining + sum_list (map (\<lambda>f. unat (fl_quantity f)) fs) = unat (rq_quantity req)" using I by blast
  have each: "\<forall>f\<in>set fs. fl_quantity f \<noteq> 0 \<and> crosses req (fl_price f) \<and> fl_taker_id f = rq_id req
      \<and> (\<exists>v. find_order (fl_maker_id f) bk = Some v \<and> ov_side v = opposite (rq_side req) \<and> ov_price v = fl_price f)"
    using I by (simp add: fills_ok_def)
  have "r = FilledComplete \<longleftrightarrow> sum_list (map (\<lambda>f. unat (fl_quantity f)) fs) = unat (rq_quantity req)"
    using total fs(2) by (auto simp: unat_eq_zero)
  with total each I show ?thesis by simp
qed

theorem submit_fills_sound_witness:
  "\<exists>r fs bk'. submit (take_bids IOC 10) two_bids = Some (r, fs, bk')
     \<and> sum_list (map (\<lambda>f. unat (fl_quantity f)) fs) \<le> 10"
proof -
  obtain r fs bk' where s: "submit (take_bids IOC 10) two_bids = Some (r, fs, bk')"
    using submit_terminates [OF two_bids_ok(1), of "take_bids IOC 10"] by blast
  with submit_fills_sound [OF two_bids_ok(1) take_bids_accepted s] show ?thesis by simp
qed

lemma fok_complete:
  assumes ok: "book_ok bk" and acc: "accepted req bk" and fok: "rq_tif req = FOK"
    and sub: "submit req bk = Some (r, fs, bk')"
  shows "r = FilledComplete" and "unat (rq_quantity req) \<le> crossing_total req (abs_book bk)"
proof -
  obtain remaining fs1 b1 where s: "submit req bk = Some (settle req (remaining, fs1, b1))"
    "match_run req (start_of req bk) (spec_of (remaining, fs1, b1))" "match_done req (spec_of (remaining, fs1, b1))"
    "run_inv req (start_of req bk) (spec_of (remaining, fs1, b1))" "loop_frame bk b1"
    by (rule submit_accepted [OF ok acc])
  let ?sum = "sum_list (map (\<lambda>f. unat (fl_quantity f)) fs1)"
  note I = s(4) [unfolded run_inv_def prod.case]
  have ok1: "spec_ok (abs_book b1)" and total: "unat remaining + ?sum = unat (rq_quantity req)"
    and cross: "crossing_total req (abs_book b1) + ?sum = crossing_total req (abs_book bk)" using I by blast+
  have "rq_quantity req \<le> fillable_quantity req bk" using acc fok by (simp add: accepted_def linorder_not_less)
  then have "unat (rq_quantity req) \<le> unat (fillable_quantity req bk)" by (simp add: word_le_nat_alt)
  also have "\<dots> \<le> crossing_total req (abs_book bk)" unfolding fillable_total [OF ok] by (rule unat_word_of_nat_le)
  finally show enough: "unat (rq_quantity req) \<le> crossing_total req (abs_book bk)" .
  have "remaining = 0"
  proof (rule ccontr)
    assume "remaining \<noteq> 0"
    then have "\<forall>p. sb_queue (abs_book b1) (opposite (rq_side req)) p \<noteq> [] \<longrightarrow> \<not> crosses req p"
      using s(3) by (simp add: match_done_def)
    from no_crossing_total [OF ok1 this] cross total enough have "unat remaining = 0" by linarith
    with \<open>remaining \<noteq> 0\<close> show False by (simp add: unat_eq_zero)
  qed
  with settle_fields(2) [of req remaining fs1 b1 r fs bk'] s(1) sub show "r = FilledComplete" by simp
qed

text \<open>
  C13. Fill-or-kill is all or nothing: a FOK order is either rejected with no fill and an unchanged book, or
  filled completely. When the crossing quantity fits 64 bits it is rejected exactly when that quantity is
  smaller than the order's.
\<close>

theorem fok_all_or_nothing:
  assumes "book_ok bk" and "rq_type req = NewOrder" "rq_tif req = FOK" "rq_quantity req \<noteq> 0"
    and "submit req bk = Some (r, fs, bk')"
  shows "(r = RejectedFOK \<and> fs = [] \<and> bk' = bk \<or> r = FilledComplete)
    \<and> (crossing_total req (abs_book bk) < 2 ^ 64 \<longrightarrow>
        (r = RejectedFOK \<longleftrightarrow> crossing_total req (abs_book bk) < unat (rq_quantity req)))"
proof (cases "accepted req bk")
  case True
  from fok_complete [OF assms(1) True assms(3,5)] show ?thesis by auto
next
  case False
  have nr: "\<not> may_rest req" using assms(3) by (simp add: may_rest_def)
  with False assms(2-4) have less: "fillable_quantity req bk < rq_quantity req" by (auto simp: accepted_def)
  have res: "r = RejectedFOK \<and> fs = [] \<and> bk' = bk"
    using submit_rejected [OF assms(2) False] assms(4,5) nr by simp
  have "unat (fillable_quantity req bk) = crossing_total req (abs_book bk)"
    if "crossing_total req (abs_book bk) < 2 ^ 64"
    unfolding fillable_total [OF assms(1)] using that by (simp add: unsigned_of_nat take_bit_nat_eq_self)
  with less res show ?thesis by (auto simp: word_less_nat_alt)
qed

theorem fok_all_or_nothing_witness:
  "\<exists>r fs bk'. submit (take_bids FOK 100) two_bids = Some (r, fs, bk') \<and> (r = RejectedFOK \<or> r = FilledComplete)"
proof -
  obtain r fs bk' where s: "submit (take_bids FOK 100) two_bids = Some (r, fs, bk')"
    using submit_terminates [OF two_bids_ok(1), of "take_bids FOK 100"] by blast
  with fok_all_or_nothing [OF two_bids_ok(1) _ _ _ s] show ?thesis by auto
qed

definition huge_asks :: order_book where
  "huge_asks = snd (process_events
     [default_event\<lparr>ev_order_id := 1, ev_side := Sell, ev_price := 100, ev_quantity := 2 ^ 63\<rparr>,
      default_event\<lparr>ev_order_id := 2, ev_side := Sell, ev_price := 101, ev_quantity := 2 ^ 63\<rparr>] (projr (new_book 2)))"

definition buy_one :: order_request where
  "buy_one = \<lparr>rq_type = NewOrder, rq_id = 9, rq_side = Buy, rq_price = 200, rq_quantity = 1,
     rq_order_type = Limit, rq_tif = FOK\<rparr>"

lemma huge_asks_ok: "book_ok huge_asks"
  "sb_orders (abs_book huge_asks) = [
     1 \<mapsto> \<lparr>ov_id = 1, ov_side = Sell, ov_price = 100, ov_quantity = 2 ^ 63, ov_priority = 0\<rparr>,
     2 \<mapsto> \<lparr>ov_id = 2, ov_side = Sell, ov_price = 101, ov_quantity = 2 ^ 63, ov_priority = 1\<rparr>]"
proof -
  let ?es = "[default_event\<lparr>ev_order_id := 1, ev_side := Sell, ev_price := 100, ev_quantity := 2 ^ 63\<rparr>,
      default_event\<lparr>ev_order_id := 2, ev_side := Sell, ev_price := 101, ev_quantity := 2 ^ 63\<rparr>]"
  note run = fresh_run [of 2 ?es, folded huge_asks_def]
  show "book_ok huge_asks" by (rule run; simp add: npos_def)
  have abs: "abs_book huge_asks = snd (spec_events 2 ?es spec_empty)" by (rule run; simp add: npos_def)
  show "sb_orders (abs_book huge_asks) = [
     1 \<mapsto> \<lparr>ov_id = 1, ov_side = Sell, ov_price = 100, ov_quantity = 2 ^ 63, ov_priority = 0\<rparr>,
     2 \<mapsto> \<lparr>ov_id = 2, ov_side = Sell, ov_price = 101, ov_quantity = 2 ^ 63, ov_priority = 1\<rparr>]"
    unfolding abs by (simp add: spec_event_def spec_rest_def spec_empty_def default_event_def)
qed

text \<open>
  C14. The 64-bit sum of the fill-or-kill check can wrap: with two crossing asks of \<^term>\<open>2 ^ 63 :: nat\<close> each a
  FOK buy of one unit is rejected, although \<^term>\<open>2 ^ 64 :: nat\<close> units cross.
\<close>

theorem fok_check_wraps:
  "submit buy_one huge_asks = Some (RejectedFOK, [], huge_asks)
   \<and> crossing_total buy_one (abs_book huge_asks) = 2 ^ 64"
proof
  have ids: "crossing_ids buy_one (abs_book huge_asks) = {1, 2}"
    unfolding crossing_ids_def huge_asks_ok(2) by (auto simp: buy_one_def crosses_def split: if_splits)
  show total: "crossing_total buy_one (abs_book huge_asks) = 2 ^ 64"
    unfolding crossing_total_def ids huge_asks_ok(2) by simp
  have "fillable_quantity buy_one huge_asks = 0"
    unfolding fillable_total [OF huge_asks_ok(1)] total by simp
  then have "\<not> accepted buy_one huge_asks" by (simp add: accepted_def buy_one_def)
  from submit_rejected [OF _ this] show "submit buy_one huge_asks = Some (RejectedFOK, [], huge_asks)"
    by (simp add: buy_one_def may_rest_def)
qed

text \<open>
  Market, IOC and FOK orders never rest: whatever \<^verbatim>\<open>submit\<close> answers to such a new order, every order
  in the resulting book was in the book before, with the same side, price and priority, the orders on the
  taker's own side are untouched, and the priority counter has not moved.
\<close>

theorem non_resting_orders_leave_no_order:
  assumes "book_ok bk" and "rq_type req = NewOrder" and "rq_order_type req = Market \<or> rq_tif req \<noteq> GTC"
    and "submit req bk = Some (r, fs, bk')"
  shows "(\<forall>oid v. find_order oid bk' = Some v \<longrightarrow> (\<exists>v0. find_order oid bk = Some v0
        \<and> ov_side v = ov_side v0 \<and> ov_price v = ov_price v0 \<and> ov_priority v = ov_priority v0))
    \<and> (\<forall>oid v. find_order oid bk = Some v \<and> ov_side v = rq_side req \<longrightarrow> find_order oid bk' = Some v)
    \<and> next_priority bk' = next_priority bk"
proof (cases "accepted req bk")
  case True
  have nr: "\<not> may_rest req" using assms(3) by (auto simp: may_rest_def)
  obtain remaining fs1 b1 where s: "submit req bk = Some (settle req (remaining, fs1, b1))"
    "match_run req (start_of req bk) (spec_of (remaining, fs1, b1))" "match_done req (spec_of (remaining, fs1, b1))"
    "run_inv req (start_of req bk) (spec_of (remaining, fs1, b1))" "loop_frame bk b1"
    by (rule submit_accepted [OF assms(1) True])
  have b: "bk' = b1" using settle_fields(3) [OF _ nr, of remaining fs1 b1 r fs bk'] s(1) assms(4) by simp
  note I = s(4) [unfolded run_inv_def prod.case abs_book_simps]
  show ?thesis unfolding b using I by blast
next
  case False
  with submit_rejected [OF assms(2) False] assms(4) show ?thesis by auto
qed

theorem non_resting_orders_leave_no_order_witness:
  "\<exists>r fs bk'. submit (take_bids IOC 10) two_bids = Some (r, fs, bk') \<and> next_priority bk' = next_priority two_bids"
proof -
  obtain r fs bk' where s: "submit (take_bids IOC 10) two_bids = Some (r, fs, bk')"
    using submit_terminates [OF two_bids_ok(1), of "take_bids IOC 10"] by blast
  with non_resting_orders_leave_no_order [OF two_bids_ok(1) _ _ s] show ?thesis by auto
qed

definition uncrossed :: "order_book \<Rightarrow> bool" where
  "uncrossed bk \<longleftrightarrow> (\<forall>p q. resting bk Buy p \<noteq> [] \<and> resting bk Sell q \<noteq> [] \<longrightarrow> sint p < sint q)"

lemma uncrossed_free: "uncrossed bk \<longleftrightarrow> crossing_free (abs_book bk)"
  by (simp add: uncrossed_def crossing_free_def queue_ids_resting)

text \<open>
  C15. Matching keeps the book uncrossed: if every bid of a well-formed book is below every ask, they still are after
  \<^verbatim>\<open>submit\<close> handled any new order, resting remainders included, also when the book has no order slot, no level or no
  place in a used-up level index left for the remainder.
\<close>

theorem submit_keeps_uncrossed:
  assumes "book_ok bk" and "rq_type req = NewOrder" and "uncrossed bk" and "submit req bk = Some (r, fs, bk')"
  shows "uncrossed bk'"
proof (cases "accepted req bk")
  case True
  obtain remaining fs1 b1 where s: "submit req bk = Some (settle req (remaining, fs1, b1))"
    "match_run req (start_of req bk) (spec_of (remaining, fs1, b1))" "match_done req (spec_of (remaining, fs1, b1))"
    "run_inv req (start_of req bk) (spec_of (remaining, fs1, b1))" "loop_frame bk b1"
    by (rule submit_accepted [OF assms(1) True])
  have "crossing_free (abs_book b1)"
    using run_shrinks [OF s(2)] assms(3) crossing_free_sub [of "abs_book bk" "abs_book b1"] by (simp add: uncrossed_free)
  from settle_crossing_free [OF _ this s(3)] s(5)
  have "crossing_free (abs_book (snd (snd (settle req (remaining, fs1, b1)))))" by (simp add: loop_frame_def)
  moreover have "settle req (remaining, fs1, b1) = (r, fs, bk')" using s(1) assms(4) by simp
  ultimately show ?thesis by (simp add: uncrossed_free)
next
  case False
  with submit_rejected [OF assms(2) False] assms(3,4) show ?thesis by auto
qed

theorem submit_keeps_uncrossed_witness:
  "\<exists>r fs bk'. submit (take_bids IOC 10) two_bids = Some (r, fs, bk') \<and> uncrossed bk'"
proof -
  obtain r fs bk' where s: "submit (take_bids IOC 10) two_bids = Some (r, fs, bk')"
    using submit_terminates [OF two_bids_ok(1), of "take_bids IOC 10"] by blast
  have "abs_book two_bids = snd (spec_events 2
     [default_event\<lparr>ev_order_id := 1, ev_price := 100, ev_quantity := 5\<rparr>,
      default_event\<lparr>ev_order_id := 2, ev_price := 101, ev_quantity := 7\<rparr>] spec_empty)"
    unfolding two_bids_def by (rule fresh_run; simp add: npos_def)
  then have "uncrossed two_bids"
    unfolding uncrossed_free crossing_free_def
    by (simp add: spec_event_def spec_rest_def spec_empty_def set_queue_def default_event_def)
  from submit_keeps_uncrossed [OF two_bids_ok(1) _ this s] s show ?thesis by auto
qed

end
