(* ===== verification/ItchDecoder.thy ===== *)
theory ItchDecoder
  imports MarketTypes
begin

text \<open>
  \<^verbatim>\<open>itch/ItchDecoder.hpp\<close>: the big-endian field readers and \<^verbatim>\<open>decode_message\<close> over the bytes of one
  de-framed ITCH 5.0 message. The encoder at the end is the published message layout, written down as
  the specification the decoder is checked against.
\<close>

section \<open>Big-endian readers\<close>

definition read_be16 :: "u8 list \<Rightarrow> nat \<Rightarrow> u16" where
  "read_be16 p i = push_bit 8 (ucast (p ! i)) OR ucast (p ! (i + 1))"

definition read_be32 :: "u8 list \<Rightarrow> nat \<Rightarrow> u32" where
  "read_be32 p i = push_bit 24 (ucast (p ! i)) OR push_bit 16 (ucast (p ! (i + 1)))
     OR push_bit 8 (ucast (p ! (i + 2))) OR ucast (p ! (i + 3))"

definition read_be48 :: "u8 list \<Rightarrow> nat \<Rightarrow> u64" where
  "read_be48 p i = fold (\<lambda>k value. push_bit 8 value OR ucast (p ! (i + k))) [0..<6] 0"

definition read_be64 :: "u8 list \<Rightarrow> nat \<Rightarrow> u64" where
  "read_be64 p i = fold (\<lambda>k value. push_bit 8 value OR ucast (p ! (i + k))) [0..<8] 0"

section \<open>The decoder\<close>

datatype message_type =
    AddOrder | AddOrderMpid | OrderExecuted | OrderExecutedWithPrice | OrderCancel | OrderDelete | OrderReplace

definition message_tag :: "message_type \<Rightarrow> u8" where
  "message_tag t = (case t of AddOrder \<Rightarrow> 65 | AddOrderMpid \<Rightarrow> 70 | OrderExecuted \<Rightarrow> 69
     | OrderExecutedWithPrice \<Rightarrow> 67 | OrderCancel \<Rightarrow> 88 | OrderDelete \<Rightarrow> 68 | OrderReplace \<Rightarrow> 85)"

text \<open>The minimum lengths \<^verbatim>\<open>kLen...\<close> of the seven messages, the leading type byte included.\<close>

fun min_length :: "message_type \<Rightarrow> nat" where
  "min_length AddOrder = 36"
| "min_length AddOrderMpid = 40"
| "min_length OrderExecuted = 31"
| "min_length OrderExecutedWithPrice = 36"
| "min_length OrderCancel = 23"
| "min_length OrderDelete = 19"
| "min_length OrderReplace = 35"

text \<open>
  The length the decoder asks for: its two add cases share one body, which compares with \<^verbatim>\<open>kLenAddOrder\<close>, so that
  \<^verbatim>\<open>kLenAddOrderMpid\<close> is declared but not used.
\<close>

definition checked_length :: "message_type \<Rightarrow> nat" where
  "checked_length t = min_length (if t = AddOrderMpid then AddOrder else t)"

datatype decode_result = Event market_data_event | Skipped | Malformed

definition read_side :: "u8 \<Rightarrow> side option" where
  "read_side b = (if b = 66 then Some Buy else if b = 83 then Some Sell else None)"

definition decode_message :: "u8 list \<Rightarrow> decode_result" where
  "decode_message data =
     (let len = length data
      in if len = 0 then Malformed
      else
        let tag = data ! 0;
            event = (if len \<ge> 3 then default_event\<lparr>ev_symbol := ucast (read_be16 data 1)\<rparr> else default_event)
        in if tag = message_tag AddOrder \<or> tag = message_tag AddOrderMpid then
             (if len < min_length AddOrder then Malformed
              else case read_side (data ! 19) of
                None \<Rightarrow> Malformed
              | Some sd \<Rightarrow> Event (event\<lparr>ev_type := Add, ev_timestamp_ns := read_be48 data 5,
                  ev_order_id := read_be64 data 11, ev_side := sd,
                  ev_quantity := ucast (read_be32 data 20), ev_price := ucast (read_be32 data 32)\<rparr>))
           else if tag = message_tag OrderExecuted then
             (if len < min_length OrderExecuted then Malformed
              else Event (event\<lparr>ev_type := Trade, ev_timestamp_ns := read_be48 data 5,
                  ev_order_id := read_be64 data 11, ev_quantity := ucast (read_be32 data 19)\<rparr>))
           else if tag = message_tag OrderExecutedWithPrice then
             (if len < min_length OrderExecutedWithPrice then Malformed
              else Event (event\<lparr>ev_type := Trade, ev_timestamp_ns := read_be48 data 5,
                  ev_order_id := read_be64 data 11, ev_quantity := ucast (read_be32 data 19),
                  ev_price := ucast (read_be32 data 32)\<rparr>))
           else if tag = message_tag OrderCancel then
             (if len < min_length OrderCancel then Malformed
              else Event (event\<lparr>ev_type := Reduce, ev_timestamp_ns := read_be48 data 5,
                  ev_order_id := read_be64 data 11, ev_quantity := ucast (read_be32 data 19)\<rparr>))
           else if tag = message_tag OrderDelete then
             (if len < min_length OrderDelete then Malformed
              else Event (event\<lparr>ev_type := Cancel, ev_timestamp_ns := read_be48 data 5,
                  ev_order_id := read_be64 data 11\<rparr>))
           else if tag = message_tag OrderReplace then
             (if len < min_length OrderReplace then Malformed
              else Event (event\<lparr>ev_type := Replace, ev_timestamp_ns := read_be48 data 5,
                  ev_order_id := read_be64 data 11, ev_new_order_id := read_be64 data 19,
                  ev_quantity := ucast (read_be32 data 27), ev_price := ucast (read_be32 data 31)\<rparr>))
           else Skipped)"

section \<open>The message layout\<close>

text \<open>\<^verbatim>\<open>be n x\<close>: the low \<^verbatim>\<open>n\<close> bytes of \<^verbatim>\<open>x\<close>, most significant first.\<close>

fun be :: "nat \<Rightarrow> 'a::len word \<Rightarrow> u8 list" where
  "be 0 x = []"
| "be (Suc n) x = ucast (drop_bit (8 * n) x) # be n x"

lemma length_be [simp]: "length (be n x) = n"
  by (induction n) simp_all

definition read_be :: "u8 list \<Rightarrow> 'b::len word" where
  "read_be bs = fold (\<lambda>b value. push_bit 8 value OR ucast b) bs 0"

lemma push_step:
  fixes v :: "'b::len word" and x :: "'a::len word"
  assumes "LENGTH('a) \<le> LENGTH('b)"
  shows "push_bit n (push_bit 8 v OR ucast (ucast (drop_bit n x) :: u8)) OR take_bit n (ucast x)
    = push_bit (n + 8) v OR take_bit (n + 8) (ucast x)"
proof (rule bit_word_eqI)
  fix m
  assume m: "m < LENGTH('b)"
  consider (low) "m < n" | (mid) d where "m = n + d" "d < 8" | (high) d where "m = n + 8 + d"
    by (metis add.assoc le_Suc_ex not_le_imp_less)
  then show "bit (push_bit n (push_bit 8 v OR ucast (ucast (drop_bit n x) :: u8)) OR take_bit n (ucast x)) m
      = bit (push_bit (n + 8) v OR take_bit (n + 8) (ucast x)) m"
    by cases (use m assms in \<open>auto simp: bit_simps dest: bit_imp_le_length\<close>)
qed

lemma fold_be:
  fixes x :: "'a::len word" and v :: "'b::len word"
  assumes "LENGTH('a) \<le> LENGTH('b)"
  shows "fold (\<lambda>b value. push_bit 8 value OR ucast b) (be n x) v = push_bit (8 * n) v OR take_bit (8 * n) (ucast x)"
proof (induction n arbitrary: v)
  case 0
  then show ?case by simp
next
  case (Suc n)
  then show ?case using push_step [OF assms, of "8 * n" v x] by (simp add: algebra_simps)
qed

lemma read_be_be:
  fixes x :: "'a::len word"
  assumes "LENGTH('a) \<le> LENGTH('b::len)" and "LENGTH('a) \<le> 8 * n"
  shows "read_be (be n x) = (ucast x :: 'b word)"
proof -
  have "take_bit (8 * n) (ucast x :: 'b word) = ucast x"
    using assms(2) by (intro bit_word_eqI) (auto simp: bit_simps dest: bit_imp_le_length)
  then show ?thesis using fold_be [OF assms(1), of n x 0] by (simp add: read_be_def)
qed

lemma read_be_Cons:
  "read_be (b # bs) = (push_bit (8 * length bs) (ucast b) OR read_be bs :: 'b::len word)"
proof -
  have "fold (\<lambda>b value. push_bit 8 value OR ucast b) bs v = (push_bit (8 * length bs) v OR read_be bs :: 'b word)" for v
  proof (induction bs rule: rev_induct)
    case Nil
    then show ?case by (simp add: read_be_def)
  next
    case (snoc c bs)
    then show ?case by (simp add: read_be_def push_bit_or or.assoc add.commute)
  qed
  from this [of "ucast b"] show ?thesis by (simp add: read_be_def)
qed

lemma bit_read_be:
  assumes "8 * length bs \<le> LENGTH('b)"
  shows "bit (read_be bs :: 'b::len word) m \<longrightarrow> m < 8 * length bs"
  using assms
proof (induction bs)
  case Nil
  then show ?case by (simp add: read_be_def)
next
  case (Cons b bs)
  then show ?case by (auto simp: read_be_Cons bit_simps dest!: bit_imp_le_length)
qed

lemma be_push_or:
  assumes "k \<le> n" and "8 * n \<le> LENGTH('b)"
  shows "be k (push_bit (8 * n) v OR w :: 'b::len word) = be k w"
  using assms
proof (induction k)
  case 0
  then show ?case by simp
next
  case (Suc k)
  have "ucast (drop_bit (8 * k) (push_bit (8 * n) v OR w)) = (ucast (drop_bit (8 * k) w) :: u8)"
    using Suc.prems by (intro bit_word_eqI) (auto simp: bit_simps)
  with Suc show ?case by simp
qed

lemma be_read_be:
  assumes "8 * length bs \<le> LENGTH('b::len)"
  shows "be (length bs) (read_be bs :: 'b word) = bs"
  using assms
proof (induction bs)
  case Nil
  then show ?case by simp
next
  case (Cons b bs)
  have "(ucast (drop_bit (8 * length bs) (push_bit (8 * length bs) (ucast b) OR read_be bs :: 'b word)) :: u8) = b"
    using Cons.prems bit_read_be [of bs, where 'b = 'b]
    by (intro bit_word_eqI) (auto simp: bit_simps)
  with Cons show ?case
    using be_push_or [of "length bs" "length bs" "ucast b" "read_be bs :: 'b word"]
    by (simp add: read_be_Cons)
qed

section \<open>The readers read slices\<close>

definition slice_of :: "nat \<Rightarrow> nat \<Rightarrow> u8 list \<Rightarrow> u8 list" where
  "slice_of i n p = take n (drop i p)"

lemma slice_nth: "i + n \<le> length p \<Longrightarrow> slice_of i n p = map (\<lambda>k. p ! (i + k)) [0..<n]"
  by (rule nth_equalityI) (auto simp: slice_of_def)

lemma length_slice: "i + n \<le> length p \<Longrightarrow> length (slice_of i n p) = n"
  by (simp add: slice_of_def)

lemma read_be_slice:
  assumes "i + n \<le> length p"
  shows "read_be (slice_of i n p) = fold (\<lambda>k value. push_bit 8 value OR ucast (p ! (i + k))) [0..<n] 0"
  by (simp add: read_be_def slice_nth [OF assms] fold_map comp_def)

lemma readers_slice:
  "i + 2 \<le> length p \<Longrightarrow> read_be16 p i = read_be (slice_of i 2 p)"
  "i + 4 \<le> length p \<Longrightarrow> read_be32 p i = read_be (slice_of i 4 p)"
  "i + 6 \<le> length p \<Longrightarrow> read_be48 p i = read_be (slice_of i 6 p)"
  "i + 8 \<le> length p \<Longrightarrow> read_be64 p i = read_be (slice_of i 8 p)"
  by (simp_all add: read_be_slice read_be16_def read_be32_def read_be48_def read_be64_def push_bit_or
      upt_rec [of _ "numeral _"] or.assoc numeral_3_eq_3)

section \<open>Messages as the format lays them out\<close>

text \<open>
  The seven book-affecting messages with every field the format gives them, and their bytes. The
  decoder reads some of these fields and skips the others (tracking number, stock, match number,
  printable flag, attribution).
\<close>

record itch_header =
  hd_stock_locate :: u16
  hd_tracking :: u16
  hd_timestamp :: "48 word"
  hd_order :: u64

datatype itch_body =
    MAdd side u32 u64 u32
  | MAddMpid side u32 u64 u32 u32
  | MExecuted u32 u64
  | MExecutedWithPrice u32 u64 u8 u32
  | MCancel u32
  | MDelete
  | MReplace u64 u32 u32

type_synonym itch_message = "itch_header \<times> itch_body"

definition side_byte :: "side \<Rightarrow> u8" where
  "side_byte sd = (if sd = Buy then 66 else 83)"

fun body_type :: "itch_body \<Rightarrow> message_type" where
  "body_type (MAdd _ _ _ _) = AddOrder"
| "body_type (MAddMpid _ _ _ _ _) = AddOrderMpid"
| "body_type (MExecuted _ _) = OrderExecuted"
| "body_type (MExecutedWithPrice _ _ _ _) = OrderExecutedWithPrice"
| "body_type (MCancel _) = OrderCancel"
| "body_type MDelete = OrderDelete"
| "body_type (MReplace _ _ _) = OrderReplace"

fun encode_body :: "itch_body \<Rightarrow> u8 list" where
  "encode_body (MAdd sd shares stock price) = side_byte sd # be 4 shares @ be 8 stock @ be 4 price"
| "encode_body (MAddMpid sd shares stock price mpid) =
     side_byte sd # be 4 shares @ be 8 stock @ be 4 price @ be 4 mpid"
| "encode_body (MExecuted shares mtch) = be 4 shares @ be 8 mtch"
| "encode_body (MExecutedWithPrice shares mtch printable price) =
     be 4 shares @ be 8 mtch @ printable # be 4 price"
| "encode_body (MCancel shares) = be 4 shares"
| "encode_body MDelete = []"
| "encode_body (MReplace ref shares price) = be 8 ref @ be 4 shares @ be 4 price"

definition encode_message :: "itch_message \<Rightarrow> u8 list" where
  "encode_message m = (let (h, b) = m
     in message_tag (body_type b) # be 2 (hd_stock_locate h) @ be 2 (hd_tracking h)
          @ be 6 (hd_timestamp h) @ be 8 (hd_order h) @ encode_body b)"

definition base_event :: "itch_header \<Rightarrow> market_data_event" where
  "base_event h = default_event\<lparr>ev_symbol := ucast (hd_stock_locate h),
     ev_timestamp_ns := ucast (hd_timestamp h), ev_order_id := hd_order h\<rparr>"

fun body_event :: "itch_body \<Rightarrow> market_data_event \<Rightarrow> market_data_event" where
  "body_event (MAdd sd shares _ price) e =
     e\<lparr>ev_type := Add, ev_side := sd, ev_quantity := ucast shares, ev_price := ucast price\<rparr>"
| "body_event (MAddMpid sd shares _ price _) e =
     e\<lparr>ev_type := Add, ev_side := sd, ev_quantity := ucast shares, ev_price := ucast price\<rparr>"
| "body_event (MExecuted shares _) e = e\<lparr>ev_type := Trade, ev_quantity := ucast shares\<rparr>"
| "body_event (MExecutedWithPrice shares _ _ price) e =
     e\<lparr>ev_type := Trade, ev_quantity := ucast shares, ev_price := ucast price\<rparr>"
| "body_event (MCancel shares) e = e\<lparr>ev_type := Reduce, ev_quantity := ucast shares\<rparr>"
| "body_event MDelete e = e\<lparr>ev_type := Cancel\<rparr>"
| "body_event (MReplace ref shares price) e =
     e\<lparr>ev_type := Replace, ev_new_order_id := ref, ev_quantity := ucast shares, ev_price := ucast price\<rparr>"

definition event_of :: "itch_message \<Rightarrow> market_data_event" where
  "event_of m = body_event (snd m) (base_event (fst m))"

lemma read_be_field:
  "read_be (be 2 (x :: u16)) = x" "read_be (be 4 (y :: u32)) = y"
  "read_be (be 6 (t :: 48 word)) = (ucast t :: u64)" "read_be (be 8 (z :: u64)) = z"
  by (simp_all add: read_be_be)

lemma read_side_byte [simp]: "read_side (side_byte sd) = Some sd"
  by (cases sd) (simp_all add: read_side_def side_byte_def)

lemma read_side_Some: "read_side b = Some sd \<Longrightarrow> b = side_byte sd"
  by (auto simp: read_side_def side_byte_def split: if_splits)

lemma length_encode_body: "19 + length (encode_body b) = min_length (body_type b)"
  by (cases b) simp_all

lemma length_encode_message: "length (encode_message m) = min_length (body_type (snd m))"
  by (cases m) (simp add: encode_message_def flip: length_encode_body)

lemma decode_encoded: "decode_message (encode_message m @ rest) = Event (event_of m)"
proof (cases m)
  case (Pair h b)
  show ?thesis
    by (cases b)
      (simp_all add: Pair decode_message_def encode_message_def message_tag_def readers_slice slice_of_def
        nth_append nth_Cons_numeral drop_Cons_numeral take_Cons_numeral read_be_field event_of_def base_event_def Let_def)
qed

section \<open>What the decoder accepts\<close>

lemma drop_slice: "drop i p = slice_of i n p @ drop (i + n) p"
  by (metis append_take_drop_id drop_drop add.commute slice_of_def)

lemma be_slice:
  "i + 2 \<le> length p \<Longrightarrow> be 2 (read_be (slice_of i 2 p) :: u16) = slice_of i 2 p"
  "i + 4 \<le> length p \<Longrightarrow> be 4 (read_be (slice_of i 4 p) :: u32) = slice_of i 4 p"
  "i + 6 \<le> length p \<Longrightarrow> be 6 (read_be (slice_of i 6 p) :: 48 word) = slice_of i 6 p"
  "i + 8 \<le> length p \<Longrightarrow> be 8 (read_be (slice_of i 8 p) :: u64) = slice_of i 8 p"
  using be_read_be [of "slice_of i 2 p", where 'b = 16] be_read_be [of "slice_of i 4 p", where 'b = 32]
    be_read_be [of "slice_of i 6 p", where 'b = 48] be_read_be [of "slice_of i 8 p", where 'b = 64]
  by (simp_all add: length_slice)

fun parse_body :: "message_type \<Rightarrow> side \<Rightarrow> u8 list \<Rightarrow> itch_body" where
  "parse_body AddOrder sd d = MAdd sd (read_be (slice_of 20 4 d)) (read_be (slice_of 24 8 d)) (read_be (slice_of 32 4 d))"
| "parse_body AddOrderMpid sd d =
     MAddMpid sd (read_be (slice_of 20 4 d)) (read_be (slice_of 24 8 d)) (read_be (slice_of 32 4 d)) (read_be (slice_of 36 4 d))"
| "parse_body OrderExecuted sd d = MExecuted (read_be (slice_of 19 4 d)) (read_be (slice_of 23 8 d))"
| "parse_body OrderExecutedWithPrice sd d =
     MExecutedWithPrice (read_be (slice_of 19 4 d)) (read_be (slice_of 23 8 d)) (d ! 31) (read_be (slice_of 32 4 d))"
| "parse_body OrderCancel sd d = MCancel (read_be (slice_of 19 4 d))"
| "parse_body OrderDelete sd d = MDelete"
| "parse_body OrderReplace sd d =
     MReplace (read_be (slice_of 19 8 d)) (read_be (slice_of 27 4 d)) (read_be (slice_of 31 4 d))"

definition parse_header :: "u8 list \<Rightarrow> itch_header" where
  "parse_header d = \<lparr>hd_stock_locate = read_be (slice_of 1 2 d), hd_tracking = read_be (slice_of 3 2 d),
     hd_timestamp = read_be (slice_of 5 6 d), hd_order = read_be (slice_of 11 8 d)\<rparr>"

definition carries_side :: "message_type \<Rightarrow> bool" where
  "carries_side t \<longleftrightarrow> t = AddOrder \<or> t = AddOrderMpid"

lemma body_type_parse [simp]: "body_type (parse_body t sd d) = t"
  by (cases t) simp_all

lemma encode_parse_body:
  assumes "min_length t \<le> length d" and "carries_side t \<longrightarrow> read_side (d ! 19) = Some sd"
  shows "drop 19 d = encode_body (parse_body t sd d) @ drop (min_length t) d"
proof -
  have at: "drop i d = d ! i # drop (i + 1) d" if "i < length d" for i
    using Cons_nth_drop_Suc [OF that] by simp
  have add_fields: "drop 19 d = d ! 19 # slice_of 20 4 d @ slice_of 24 8 d @ slice_of 32 4 d @ drop 36 d"
    if "36 \<le> length d"
    using at [of 19] that drop_slice [of 20 d 4] drop_slice [of 24 d 8] drop_slice [of 32 d 4] by simp
  have exec_fields: "drop 19 d = slice_of 19 4 d @ slice_of 23 8 d @ drop 31 d"
    using drop_slice [of 19 d 4] drop_slice [of 23 d 8] by simp
  have price_field: "drop 31 d = d ! 31 # slice_of 32 4 d @ drop 36 d" if "36 \<le> length d"
    using at [of 31] that drop_slice [of 32 d 4] by simp
  have replace_fields: "drop 19 d = slice_of 19 8 d @ slice_of 27 4 d @ slice_of 31 4 d @ drop 35 d"
    using drop_slice [of 19 d 8] drop_slice [of 27 d 4] drop_slice [of 31 d 4] by simp
  show ?thesis
  proof (cases t)
    case AddOrder
    then show ?thesis
      using assms add_fields by (auto simp: be_slice carries_side_def dest!: read_side_Some)
  next
    case AddOrderMpid
    then show ?thesis
      using assms add_fields drop_slice [of 36 d 4] by (auto simp: be_slice carries_side_def dest!: read_side_Some)
  next
    case OrderExecuted
    then show ?thesis using assms exec_fields by (simp add: be_slice)
  next
    case OrderExecutedWithPrice
    then show ?thesis using assms exec_fields price_field by (simp add: be_slice)
  next
    case OrderCancel
    then show ?thesis using assms drop_slice [of 19 d 4] by (simp add: be_slice)
  next
    case OrderDelete
    then show ?thesis by simp
  next
    case OrderReplace
    then show ?thesis using assms replace_fields by (simp add: be_slice)
  qed
qed

lemma encode_parse:
  assumes "d ! 0 = message_tag t" and "min_length t \<le> length d"
    and "carries_side t \<longrightarrow> read_side (d ! 19) = Some sd"
  shows "d = encode_message (parse_header d, parse_body t sd d) @ drop (min_length t) d"
proof -
  have n: "19 \<le> length d"
    using assms(2) by (cases t) auto
  have cons: "d = d ! 0 # drop 1 d"
    using n by (cases d) auto
  have s1: "drop 1 d = slice_of 1 2 d @ drop 3 d"
    using drop_slice [of 1 d 2] by (simp add: numeral_3_eq_3)
  have s3: "drop 3 d = slice_of 3 2 d @ slice_of 5 6 d @ slice_of 11 8 d @ drop 19 d"
    using drop_slice [of 3 d 2] drop_slice [of 5 d 6] drop_slice [of 11 d 8] by simp
  have "drop 1 d = slice_of 1 2 d @ slice_of 3 2 d @ slice_of 5 6 d @ slice_of 11 8 d @ drop 19 d"
    by (simp only: s1 s3)
  then have "d = message_tag t # slice_of 1 2 d @ slice_of 3 2 d @ slice_of 5 6 d @ slice_of 11 8 d
      @ encode_body (parse_body t sd d) @ drop (min_length t) d"
    using cons encode_parse_body [OF assms(2,3)] assms(1) by simp
  then show ?thesis
    using n by (simp add: encode_message_def parse_header_def be_slice)
qed

lemma message_tag_inject [simp]: "message_tag s = message_tag t \<longleftrightarrow> s = t"
  by (cases s; cases t) (simp_all add: message_tag_def)

text \<open>Nothing behind the checked length changes what a message decodes to.\<close>

lemma decode_append:
  assumes "d \<noteq> []" and "d ! 0 = message_tag t" and "checked_length t \<le> length d"
  shows "decode_message (d @ r) = decode_message d"
  using assms
  by (cases t) (auto simp: decode_message_def checked_length_def nth_append read_be16_def read_be32_def read_be48_def read_be64_def
      Let_def upt_rec [of _ "numeral _"] upt_rec [of _ "Suc _"] split: option.split)

lemma event_of_append:
  assumes "checked_length t \<le> length d"
  shows "event_of (parse_header (d @ r), parse_body t sd (d @ r)) = event_of (parse_header d, parse_body t sd d)"
  using assms by (cases t) (simp_all add: checked_length_def event_of_def parse_header_def base_event_def slice_of_def)

lemma checked_length_cases: "checked_length t = min_length t \<or> t = AddOrderMpid \<and> checked_length t = 36"
  by (simp add: checked_length_def)

lemma decode_known:
  assumes "d \<noteq> []" and "d ! 0 = message_tag t"
  shows "decode_message d =
    (if length d < checked_length t then Malformed
     else if carries_side t \<and> read_side (d ! 19) = None then Malformed
     else Event (event_of (parse_header d, parse_body t (case read_side (d ! 19) of Some sd \<Rightarrow> sd | None \<Rightarrow> Buy) d)))"
proof (cases "length d < checked_length t \<or> carries_side t \<and> read_side (d ! 19) = None")
  case True
  with assms show ?thesis
    by (cases t) (auto simp: decode_message_def checked_length_def carries_side_def Let_def)
next
  case False
  let ?d = "d @ replicate 4 0" and ?sd = "case read_side (d ! 19) of Some sd \<Rightarrow> sd | None \<Rightarrow> Buy"
  let ?m = "(parse_header ?d, parse_body t ?sd ?d)"
  have n: "19 < length d \<or> \<not> carries_side t" "min_length t \<le> length ?d"
    using False by (cases t; simp add: checked_length_def carries_side_def)+
  have "?d = encode_message ?m @ drop (min_length t) ?d"
    by (rule encode_parse) (use False assms n in \<open>auto simp: nth_append split: option.split\<close>)
  then have "decode_message ?d = Event (event_of ?m)"
    using decode_encoded [of ?m "drop (min_length t) ?d"] by simp
  then show ?thesis
    using False decode_append [OF assms, of "replicate 4 0"] event_of_append [of t d "replicate 4 0" ?sd] by auto
qed

lemma decode_unknown: "d \<noteq> [] \<Longrightarrow> \<forall>t. d ! 0 \<noteq> message_tag t \<Longrightarrow> decode_message d = Skipped"
  by (simp add: decode_message_def Let_def)

lemma decode_empty: "decode_message [] = Malformed"
  by (simp add: decode_message_def)

text \<open>What decodes to an event is a message and what follows it, or an attributed add cut short in its last field.\<close>

lemma decode_Event_parse:
  assumes "decode_message d = Event e"
  obtains (whole) m rest where "d = encode_message m @ rest" "e = event_of m"
    | (cut) m where "body_type (snd m) = AddOrderMpid" "36 \<le> length d" "length d < 40" "d = take (length d) (encode_message m)" "e = event_of m"
proof -
  have ne: "d \<noteq> []" using assms decode_empty by auto
  obtain t where t: "d ! 0 = message_tag t" using decode_unknown [OF ne] assms by auto
  let ?sd = "case read_side (d ! 19) of Some sd \<Rightarrow> sd | None \<Rightarrow> Buy"
  have ok: "checked_length t \<le> length d" "carries_side t \<longrightarrow> read_side (d ! 19) \<noteq> None" "e = event_of (parse_header d, parse_body t ?sd d)"
    using assms decode_known [OF ne t] by (auto split: if_splits)
  show thesis
  proof (cases "min_length t \<le> length d")
    case True
    have "d = encode_message (parse_header d, parse_body t ?sd d) @ drop (min_length t) d"
      by (rule encode_parse [OF t True]) (use ok(2) in auto)
    then show thesis using whole ok(3) by blast
  next
    case False
    with ok(1) have mp: "t = AddOrderMpid" "36 \<le> length d" "length d < 40"
      using checked_length_cases [of t] by auto
    define pad where "pad = replicate (40 - length d) (0 :: u8)"
    let ?d = "d @ pad" and ?m = "(parse_header (d @ pad), parse_body t ?sd (d @ pad))"
    have len: "length ?d = 40" using mp by (simp add: pad_def)
    have "?d = encode_message ?m @ drop (min_length t) ?d"
      by (rule encode_parse) (use t ok(2) mp len ne in \<open>auto simp: nth_append\<close>)
    then have "?d = encode_message ?m" using len mp(1) by simp
    then have "d = take (length d) (encode_message ?m)" by (metis append_eq_conv_conj)
    moreover have "e = event_of ?m" using ok(3) event_of_append [OF ok(1)] by simp
    moreover have "body_type (snd ?m) = AddOrderMpid" using mp(1) by simp
    ultimately show thesis using cut mp(2,3) by blast
  qed
qed

lemma decode_cut:
  assumes "body_type (snd m) = AddOrderMpid" and "36 \<le> n" and "n < 40"
  shows "decode_message (take n (encode_message m)) = Event (event_of m)"
proof -
  let ?d = "take n (encode_message m)"
  have len: "length (encode_message m) = 40" using assms(1) by (simp add: length_encode_message)
  have tag: "?d ! 0 = message_tag AddOrderMpid" using assms(1,2) by (cases m) (simp add: encode_message_def)
  have "?d \<noteq> []" "checked_length AddOrderMpid \<le> length ?d" using assms(2) len by (auto simp: checked_length_def)
  then have "decode_message ?d = decode_message (?d @ drop n (encode_message m))"
    using decode_append [OF _ tag] by metis
  also have "\<dots> = Event (event_of m)" using decode_encoded [of m "[]"] by simp
  finally show ?thesis .
qed

section \<open>Properties\<close>

text \<open>
  C16. What the decoder accepts: a byte string decodes to an event if it begins with the layout of one of the seven
  book-affecting messages, every field of the format included, and the event then carries the fields of that message,
  zero-extended (bytes after the message are ignored). Nothing else decodes to an event, with one exception: an
  attributed add is also accepted when it ends 1 to 4 bytes early, inside its attribution, which the decoder does not read.
\<close>

theorem decoder_accepts_layout:
  "decode_message d = Event e \<longleftrightarrow> (\<exists>m rest. d = encode_message m @ rest \<and> e = event_of m)
     \<or> (\<exists>m. body_type (snd m) = AddOrderMpid \<and> 36 \<le> length d \<and> length d < 40
          \<and> d = take (length d) (encode_message m) \<and> e = event_of m)"
proof
  assume "decode_message d = Event e"
  then show "(\<exists>m rest. d = encode_message m @ rest \<and> e = event_of m)
     \<or> (\<exists>m. body_type (snd m) = AddOrderMpid \<and> 36 \<le> length d \<and> length d < 40
          \<and> d = take (length d) (encode_message m) \<and> e = event_of m)"
    by (rule decode_Event_parse) blast+
next
  assume "(\<exists>m rest. d = encode_message m @ rest \<and> e = event_of m)
     \<or> (\<exists>m. body_type (snd m) = AddOrderMpid \<and> 36 \<le> length d \<and> length d < 40
          \<and> d = take (length d) (encode_message m) \<and> e = event_of m)"
  then show "decode_message d = Event e" using decode_encoded decode_cut by metis
qed

text \<open>
  C17. What is refused and what is skipped: a message is malformed if and only if it is empty, or its
  tag is a known one and the message is shorter than the length checked for that type or names no side where a side
  is due; it is skipped if and only if it is not empty and its tag is none of the seven.
\<close>

theorem decoder_errors:
  "(decode_message d = Malformed \<longleftrightarrow>
     d = [] \<or> (\<exists>t. d ! 0 = message_tag t \<and>
        (length d < checked_length t \<or> carries_side t \<and> d ! 19 \<noteq> 66 \<and> d ! 19 \<noteq> 83)))
   \<and> (decode_message d = Skipped \<longleftrightarrow> d \<noteq> [] \<and> (\<forall>t. d ! 0 \<noteq> message_tag t))"
proof (cases "d \<noteq> [] \<and> (\<exists>t. d ! 0 = message_tag t)")
  case True
  then obtain t where ne: "d \<noteq> []" and t: "d ! 0 = message_tag t" by blast
  have side: "read_side (d ! 19) = None \<longleftrightarrow> d ! 19 \<noteq> 66 \<and> d ! 19 \<noteq> 83"
    by (simp add: read_side_def)
  show ?thesis
    using ne t by (auto simp: decode_known [OF ne t] side)
next
  case False
  then show ?thesis using decode_empty decode_unknown by fastforce
qed

text \<open>
  The range of what the decoder produces: an event is never a Modify, its price lies between 0
  and 2^32 - 1 as a signed number (the conversion to \<^verbatim>\<open>Price\<close> never turns negative), its quantity is below
  2^32, its timestamp below 2^48 and its symbol below 2^16, and the sequence number is left at 0.
\<close>

theorem decoded_event_ranges:
  assumes "decode_message d = Event e"
  shows "ev_type e \<noteq> Modify \<and> 0 \<le> sint (ev_price e) \<and> sint (ev_price e) < 2 ^ 32
    \<and> unat (ev_quantity e) < 2 ^ 32 \<and> unat (ev_timestamp_ns e) < 2 ^ 48 \<and> unat (ev_symbol e) < 2 ^ 16
    \<and> ev_sequence e = 0"
proof -
  obtain h b where e: "e = body_event b (base_event h)"
    using decode_Event_parse [OF assms, of thesis] unfolding event_of_def by (metis prod.collapse)
  have price: "0 \<le> sint (ucast (x :: u32) :: u64)" "sint (ucast x :: u64) < 2 ^ 32" for x
  proof -
    have "uint (ucast x :: u64) = uint x" by (simp add: uint_ucast_up)
    moreover have "uint x < 2 ^ 32" using uint_lt2p [of x] by simp
    moreover from \<open>uint x < 2 ^ 32\<close> have "signed_take_bit 63 (uint x) = uint x"
      by (intro signed_take_bit_int_eq_self) (simp_all add: order_trans [OF _ uint_ge_0])
    ultimately have "sint (ucast x :: u64) = uint x"
      by (simp add: sint_uint)
    with \<open>uint x < 2 ^ 32\<close> show "0 \<le> sint (ucast x :: u64)" "sint (ucast x :: u64) < 2 ^ 32" by simp_all
  qed
  have unsigned: "unat (ucast (x :: u32) :: u64) < 2 ^ 32" "unat (ucast (t :: 48 word) :: u64) < 2 ^ 48"
    "unat (ucast (y :: u16) :: u32) < 2 ^ 16" for x t y
    using unsigned_less [of x, where 'a = nat] unsigned_less [of t, where 'a = nat] unsigned_less [of y, where 'a = nat]
    by (simp_all add: unat_ucast_up)
  show ?thesis
    by (cases b) (simp_all add: e base_event_def default_event_def price [simplified] unsigned [simplified])
qed

lemma decoded_event_ranges_witness:
  "unat (ev_quantity (event_of (\<lparr>hd_stock_locate = 7, hd_tracking = 0, hd_timestamp = 5, hd_order = 9\<rparr>, MCancel 4))) < 2 ^ 32"
proof -
  let ?m = "(\<lparr>hd_stock_locate = 7, hd_tracking = 0, hd_timestamp = 5, hd_order = 9\<rparr>, MCancel 4)"
  have "decode_message (encode_message ?m) = Event (event_of ?m)"
    using decode_encoded [of ?m "[]"] by simp
  from decoded_event_ranges [OF this] show ?thesis by blast
qed

end
