(* ===== verification/Framer.thy ===== *)
theory Framer
  imports ItchDecoder
begin

text \<open>
  The bounded read window shared by \<^verbatim>\<open>ItchFileConnector\<close> and \<^verbatim>\<open>SoupBinTcpConnector\<close>: their two
  \<^verbatim>\<open>ensure\<close> functions are the same code over the same members. The open file is the list of bytes it
  has not delivered yet; a \<^verbatim>\<open>read\<close> delivers as many bytes as asked for or all that are left, as
  \<^verbatim>\<open>std::ifstream\<close> does. The members of one connector only are in its extension of the record.
\<close>

record window =
  w_buffer :: "u8 list"
  w_input :: "u8 list"
  w_pos :: nat
  w_size :: nat
  w_sequence :: u64
  w_decoded :: nat
  w_eof :: bool
  w_failed :: bool

definition stream_buffer_size :: nat where
  "stream_buffer_size = 65536"

definition memory_window :: "u8 list \<Rightarrow> window" where
  "memory_window data = \<lparr>w_buffer = data, w_input = [], w_pos = 0, w_size = length data, w_sequence = 0,
     w_decoded = 0, w_eof = True, w_failed = False\<rparr>"

text \<open>\<^verbatim>\<open>None\<close> is a path that cannot be opened.\<close>

definition file_window :: "u8 list option \<Rightarrow> window" where
  "file_window path =
     (let f = \<lparr>w_buffer = replicate stream_buffer_size 0, w_input = (case path of None \<Rightarrow> [] | Some bs \<Rightarrow> bs),
               w_pos = 0, w_size = 0, w_sequence = 0, w_decoded = 0, w_eof = False, w_failed = False\<rparr>
      in if path = None then f\<lparr>w_failed := True, w_eof := True\<rparr> else f)"

section \<open>Refilling\<close>

definition resize :: "nat \<Rightarrow> u8 list \<Rightarrow> u8 list" where
  "resize n xs = take n xs @ replicate (n - length xs) 0"

lemma length_resize [simp]: "length (resize n xs) = n"
  by (simp add: resize_def)

lemma resize_ge: "length xs \<le> n \<Longrightarrow> resize n xs = xs @ replicate (n - length xs) 0"
  by (simp add: resize_def)

lemma take_resize [simp]: "m \<le> length xs \<Longrightarrow> m \<le> n \<Longrightarrow> take m (resize n xs) = take m xs"
  by (simp add: resize_def min_absorb1)

definition grow :: "'a window_scheme \<Rightarrow> 'a window_scheme" where
  "grow f = (if w_size f = length (w_buffer f) then f\<lparr>w_buffer := resize (length (w_buffer f) * 2) (w_buffer f)\<rparr> else f)"

definition read_input :: "nat \<Rightarrow> 'a window_scheme \<Rightarrow> 'a window_scheme" where
  "read_input got f = f\<lparr>
     w_buffer := take (w_size f) (w_buffer f) @ take got (w_input f) @ drop (w_size f + got) (w_buffer f),
     w_input := drop got (w_input f), w_size := w_size f + got\<rparr>"

function refill :: "nat \<Rightarrow> 'a window_scheme \<Rightarrow> 'a window_scheme" where
  "refill n f =
     (if w_size f < n \<and> \<not> w_eof f then
        let f1 = grow f;
            got = min (length (w_buffer f1) - w_size f1) (length (w_input f1))
        in if got = 0 then f1\<lparr>w_eof := True\<rparr>
           else refill n (read_input got f1)
      else f)"
  by auto

termination
  by (relation "measure (\<lambda>(n, f). length (w_input f))") (auto simp: read_input_def grow_def)

declare refill.simps [simp del]

definition compact :: "'a window_scheme \<Rightarrow> 'a window_scheme" where
  "compact f = (let remaining = w_size f - w_pos f
     in if w_pos f > 0 then
          (if remaining > 0
           then f\<lparr>w_buffer := take remaining (drop (w_pos f) (w_buffer f)) @ drop remaining (w_buffer f)\<rparr>
           else f)\<lparr>w_pos := 0, w_size := remaining\<rparr>
        else f)"

definition ensure :: "nat \<Rightarrow> 'a window_scheme \<Rightarrow> bool \<times> 'a window_scheme" where
  "ensure n f =
     (if w_size f - w_pos f \<ge> n then (True, f)
      else if w_eof f then (False, f)
      else
        let f1 = compact f;
            f2 = (if length (w_buffer f1) < n then f1\<lparr>w_buffer := resize n (w_buffer f1)\<rparr> else f1);
            f3 = refill n f2
        in (w_size f3 - w_pos f3 \<ge> n, f3))"

section \<open>The measure of what is left\<close>

definition left_over :: "'a window_scheme \<Rightarrow> nat" where
  "left_over f = w_size f - w_pos f + length (w_input f)"

lemma left_over_grow: "left_over (grow f) = left_over f"
  by (simp add: grow_def left_over_def)

lemma left_over_read_input: "got \<le> length (w_input f) \<Longrightarrow> left_over (read_input got f) \<le> left_over f"
  by (simp add: read_input_def left_over_def)

lemma left_over_refill: "left_over (refill n f) \<le> left_over f"
proof (induction n f rule: refill.induct)
  case (1 n f)
  let ?f1 = "grow f"
  let ?got = "min (length (w_buffer ?f1) - w_size ?f1) (length (w_input ?f1))"
  show ?case
  proof (cases "w_size f < n \<and> \<not> w_eof f \<and> ?got \<noteq> 0")
    case True
    then have "refill n f = refill n (read_input ?got ?f1)"
      by (subst refill.simps) (auto simp: Let_def min_def split: if_splits)
    moreover have "left_over (refill n (read_input ?got ?f1)) \<le> left_over (read_input ?got ?f1)"
      by (rule "1.IH") (use True in auto)
    moreover have "left_over (read_input ?got ?f1) \<le> left_over f"
      using left_over_read_input [of ?got ?f1] by (simp add: left_over_grow)
    ultimately show ?thesis by (metis order_trans)
  next
    case False
    then have "refill n f = f \<or> refill n f = (grow f)\<lparr>w_eof := True\<rparr>"
      by (subst (1 2) refill.simps) (auto simp: Let_def)
    then show ?thesis
      by (auto simp: left_over_def grow_def)
  qed
qed

lemma left_over_compact: "left_over (compact f) = left_over f"
  by (simp add: compact_def left_over_def Let_def)

lemma left_over_ensure: "left_over (snd (ensure n f)) \<le> left_over f"
proof -
  let ?f2 = "if length (w_buffer (compact f)) < n then (compact f)\<lparr>w_buffer := resize n (w_buffer (compact f))\<rparr> else compact f"
  have "left_over ?f2 = left_over f"
    using left_over_compact [of f] by (auto simp: left_over_def)
  moreover have "left_over (refill n ?f2) \<le> left_over ?f2"
    by (rule left_over_refill)
  ultimately show ?thesis by (simp add: ensure_def Let_def)
qed

lemma ensure_room: "fst (ensure n f) \<Longrightarrow> n \<le> w_size (snd (ensure n f)) - w_pos (snd (ensure n f))"
  by (auto simp: ensure_def Let_def split: if_splits)

section \<open>The unread bytes\<close>

definition unread :: "'a window_scheme \<Rightarrow> u8 list" where
  "unread f = take (w_size f - w_pos f) (drop (w_pos f) (w_buffer f)) @ w_input f"

definition window_ok :: "'a window_scheme \<Rightarrow> bool" where
  "window_ok f \<longleftrightarrow> w_pos f \<le> w_size f \<and> w_size f \<le> length (w_buffer f) \<and> (w_eof f \<longrightarrow> w_input f = [])"

text \<open>What a window keeps when it is refilled: everything but the buffer, the indices and the end flag.\<close>

definition same_counts :: "'a window_scheme \<Rightarrow> 'a window_scheme \<Rightarrow> bool" where
  "same_counts f g \<longleftrightarrow> w_sequence g = w_sequence f \<and> w_decoded g = w_decoded f \<and> w_failed g = w_failed f
     \<and> window.more g = window.more f"

lemma same_counts_refl [simp]: "same_counts f f"
  by (simp add: same_counts_def)

lemma same_counts_trans: "same_counts f g \<Longrightarrow> same_counts g h \<Longrightarrow> same_counts f h"
  by (simp add: same_counts_def)

lemma read_input_ok:
  assumes "w_pos f = 0" and "w_size f + got \<le> length (w_buffer f)" and "got \<le> length (w_input f)"
  shows "unread (read_input got f) = unread f" and "w_size (read_input got f) \<le> length (w_buffer (read_input got f))"
proof -
  have "take (w_size f + got) (take (w_size f) (w_buffer f) @ take got (w_input f) @ drop (w_size f + got) (w_buffer f))
      = take (w_size f) (w_buffer f) @ take got (w_input f)"
    (is "take _ (?a @ ?b @ ?c) = _")
  proof -
    have "w_size f + got = length (?a @ ?b)" using assms(2,3) by simp
    then have "take (w_size f + got) ((?a @ ?b) @ ?c) = ?a @ ?b"
      by (metis append_eq_conv_conj)
    then show ?thesis by simp
  qed
  with assms(1) show "unread (read_input got f) = unread f"
    by (simp add: unread_def read_input_def del: take_append)
  show "w_size (read_input got f) \<le> length (w_buffer (read_input got f))"
    using assms(2,3) by (simp add: read_input_def)
qed

lemma grow_ok:
  assumes "w_size f \<le> length (w_buffer f)"
  shows "unread (grow f) = unread f" "w_size (grow f) = w_size f" "w_pos (grow f) = w_pos f"
    "w_input (grow f) = w_input f" "w_eof (grow f) = w_eof f" "w_size f \<le> length (w_buffer (grow f))"
    "same_counts f (grow f)" "0 < w_size f \<Longrightarrow> w_size f < length (w_buffer (grow f))"
    "0 < length (w_buffer f) \<Longrightarrow> w_size f < length (w_buffer (grow f))"
proof -
  show "unread (grow f) = unread f"
    by (auto simp: grow_def unread_def resize_ge)
qed (use assms in \<open>auto simp: grow_def same_counts_def\<close>)

lemma refill_ok:
  assumes "w_pos f = 0" and "w_size f \<le> length (w_buffer f)" and "n \<le> length (w_buffer f)"
    and "w_eof f \<longrightarrow> w_input f = []"
  shows "window_ok (refill n f) \<and> unread (refill n f) = unread f \<and> same_counts f (refill n f)
    \<and> w_pos (refill n f) = 0 \<and> (w_size (refill n f) < n \<longrightarrow> w_eof (refill n f))"
  using assms
proof (induction n f rule: refill.induct)
  case (1 n f)
  show ?case
  proof (cases "w_size f < n \<and> \<not> w_eof f")
    case False
    then have "refill n f = f" by (subst refill.simps) auto
    with False "1.prems" show ?thesis by (auto simp: window_ok_def)
  next
    case True
    let ?got = "min (length (w_buffer f) - w_size f) (length (w_input f))"
    have g: "grow f = f" using True "1.prems"(3) by (auto simp: grow_def)
    show ?thesis
    proof (cases "?got = 0")
      case zero: True
      then have "refill n f = f\<lparr>w_eof := True\<rparr>"
        using True by (subst refill.simps) (simp add: g Let_def)
      moreover have "w_input f = []" using zero True "1.prems"(3) by (auto simp: min_def split: if_splits)
      ultimately show ?thesis
        using "1.prems" by (simp add: window_ok_def unread_def same_counts_def)
    next
      case False
      have step: "refill n f = refill n (read_input ?got f)"
        using True False by (subst refill.simps) (auto simp: g Let_def min_def split: if_splits)
      have r: "unread (read_input ?got f) = unread f"
        "w_size (read_input ?got f) \<le> length (w_buffer (read_input ?got f))"
        using read_input_ok [of f ?got] "1.prems"(1,2) by auto
      have rest: "w_pos (read_input ?got f) = 0" "n \<le> length (w_buffer (read_input ?got f))"
        "w_eof (read_input ?got f) \<longrightarrow> w_input (read_input ?got f) = []" "same_counts f (read_input ?got f)"
        using "1.prems" True by (auto simp: read_input_def same_counts_def)
      show ?thesis
        using "1.IH" [of f ?got] False True g r rest step same_counts_trans [OF rest(4)] by auto
    qed
  qed
qed

lemma compact_ok:
  assumes "window_ok f"
  shows "w_pos (compact f) = 0" "w_size (compact f) \<le> length (w_buffer (compact f))"
    "unread (compact f) = unread f" "same_counts f (compact f)" "w_eof (compact f) = w_eof f"
    "w_input (compact f) = w_input f"
  using assms by (auto simp: compact_def window_ok_def unread_def same_counts_def Let_def)

lemma ensure_ok:
  assumes "window_ok f" and "ensure n f = (b, g)"
  shows "window_ok g \<and> unread g = unread f \<and> same_counts f g \<and> (b \<longleftrightarrow> n \<le> length (unread f))
    \<and> (b \<longrightarrow> n \<le> w_size g - w_pos g) \<and> (\<not> b \<longrightarrow> length (unread f) = w_size g - w_pos g)"
proof (cases "n \<le> w_size f - w_pos f")
  case True
  then show ?thesis using assms by (auto simp: ensure_def unread_def window_ok_def)
next
  case short: False
  show ?thesis
  proof (cases "w_eof f")
    case True
    with short assms show ?thesis by (auto simp: ensure_def unread_def window_ok_def)
  next
    case False
    let ?f1 = "compact f"
    let ?f2 = "if length (w_buffer ?f1) < n then ?f1\<lparr>w_buffer := resize n (w_buffer ?f1)\<rparr> else ?f1"
    note c = compact_ok [OF assms(1)]
    have g: "g = refill n ?f2" and b: "b \<longleftrightarrow> n \<le> w_size g - w_pos g"
      using assms(2) short False by (auto simp: ensure_def Let_def)
    have f2: "w_pos ?f2 = 0" "w_size ?f2 \<le> length (w_buffer ?f2)" "n \<le> length (w_buffer ?f2)"
      "w_eof ?f2 \<longrightarrow> w_input ?f2 = []" "unread ?f2 = unread f" "same_counts f ?f2"
      using c False by (auto simp: unread_def same_counts_def)
    note r = refill_ok [OF f2(1-4), folded g]
    have ok: "window_ok g" "unread g = unread f" "same_counts f g" "w_pos g = 0" "w_size g < n \<longrightarrow> w_eof g"
      using r f2(5) same_counts_trans [OF f2(6)] by auto
    have "length (unread g) = w_size g - w_pos g + length (w_input g)"
      using ok(1) by (auto simp: unread_def window_ok_def)
    with ok b show ?thesis by (auto simp: window_ok_def)
  qed
qed

text \<open>Consuming bytes that are in the buffer, and reading a field of them.\<close>

lemma unread_split:
  assumes "window_ok g" and "n \<le> w_size g - w_pos g"
  shows "take n (unread g) = take n (drop (w_pos g) (w_buffer g))"
    and "unread (g\<lparr>w_pos := w_pos g + n\<rparr>) = drop n (unread g)"
  using assms by (auto simp: unread_def window_ok_def drop_take add.commute)

lemma nth_unread:
  assumes "window_ok g" and "i < w_size g - w_pos g"
  shows "unread g ! i = w_buffer g ! (w_pos g + i)"
  using assms by (auto simp: unread_def window_ok_def nth_append)

lemma read_be16_unread:
  assumes "window_ok g" and "2 \<le> w_size g - w_pos g"
  shows "read_be16 (w_buffer g) (w_pos g) = read_be16 (unread g) 0"
  using assms nth_unread [OF assms(1), of 0] nth_unread [OF assms(1), of 1] by (simp add: read_be16_def)

lemma window_ok_advance:
  "window_ok g \<Longrightarrow> n \<le> w_size g - w_pos g \<Longrightarrow> window_ok (g\<lparr>w_pos := w_pos g + n\<rparr>)"
  by (auto simp: window_ok_def)

section \<open>One length-prefixed frame\<close>

text \<open>
  The part of the two \<^verbatim>\<open>next\<close> functions that is the same code: read the two-byte length, stop on a
  partial prefix, a zero length or a truncated body. \<^verbatim>\<open>Got body f\<close> leaves the frame in the window.
\<close>

datatype 'w framed = Stop 'w | Got "u8 list" 'w

definition read_frame :: "'a window_scheme \<Rightarrow> 'a window_scheme framed" where
  "read_frame f =
     (case ensure 2 f of (ok1, f1) \<Rightarrow>
        if \<not> ok1 then Stop (if w_size f1 - w_pos f1 \<noteq> 0 then f1\<lparr>w_failed := True\<rparr> else f1)
        else
          let len = unat (read_be16 (w_buffer f1) (w_pos f1))
          in if len = 0 then Stop (f1\<lparr>w_failed := True\<rparr>)
             else case ensure (2 + len) f1 of (ok2, f2) \<Rightarrow>
               if \<not> ok2 then Stop (f2\<lparr>w_failed := True\<rparr>)
               else Got (take len (drop (w_pos f2 + 2) (w_buffer f2))) f2)"

definition past_frame :: "u8 list \<Rightarrow> 'a window_scheme \<Rightarrow> 'a window_scheme" where
  "past_frame body f = f\<lparr>w_pos := w_pos f + (2 + length body)\<rparr>"

lemma past_frame_less:
  assumes "read_frame f = Got body g"
  shows "left_over (past_frame body g) < left_over f"
proof -
  obtain f1 len where e1: "ensure 2 f = (True, f1)" and e2: "ensure (2 + len) f1 = (True, g)"
    and body: "body = take len (drop (w_pos g + 2) (w_buffer g))"
    using assms by (auto simp: read_frame_def Let_def split: prod.splits if_splits)
  have "2 + len \<le> w_size g - w_pos g" using ensure_room [of "2 + len" f1] e2 by simp
  moreover have "left_over g \<le> left_over f"
    using left_over_ensure [of 2 f] left_over_ensure [of "2 + len" f1] e1 e2 by simp
  ultimately show ?thesis using body by (auto simp: past_frame_def left_over_def)
qed

text \<open>The same step on the unread bytes alone.\<close>

datatype cut = End_clean | End_broken | Frame "u8 list" "u8 list"

definition cut_frame :: "u8 list \<Rightarrow> cut" where
  "cut_frame bs = (let n = unat (read_be16 bs 0)
     in if bs = [] then End_clean
        else if length bs < 2 \<or> n = 0 \<or> length bs < 2 + n then End_broken
        else Frame (take n (drop 2 bs)) (drop (2 + n) bs))"

lemma cut_frame_shorter: "cut_frame bs = Frame p rest \<Longrightarrow> length rest < length bs"
  by (auto simp: cut_frame_def Let_def split: if_splits)

definition frame_step :: "'a window_scheme \<Rightarrow> 'a window_scheme framed \<Rightarrow> bool" where
  "frame_step f r = (case cut_frame (unread f) of
       End_clean \<Rightarrow> \<exists>g. r = Stop g \<and> window_ok g \<and> same_counts f g
     | End_broken \<Rightarrow> \<exists>g. r = Stop (g\<lparr>w_failed := True\<rparr>) \<and> window_ok g \<and> same_counts f g
     | Frame p rest \<Rightarrow> \<exists>g. r = Got p g \<and> window_ok (past_frame p g) \<and> same_counts f g \<and> unread (past_frame p g) = rest)"

lemma read_frame_ok:
  assumes "window_ok f"
  shows "frame_step f (read_frame f)"
proof -
  obtain b1 f1 where e1: "ensure 2 f = (b1, f1)" by (cases "ensure 2 f")
  note o1 = ensure_ok [OF assms e1]
  show ?thesis
  proof (cases b1)
    case False
    then have "length (unread f) < 2" "length (unread f) = w_size f1 - w_pos f1" using o1 by auto
    then have "cut_frame (unread f) = (if w_size f1 - w_pos f1 = 0 then End_clean else End_broken)"
      by (auto simp: cut_frame_def Let_def)
    then show ?thesis using o1 False by (auto simp: frame_step_def read_frame_def e1)
  next
    case True
    let ?n = "unat (read_be16 (unread f) 0)"
    have len: "unat (read_be16 (w_buffer f1) (w_pos f1)) = ?n"
      using read_be16_unread [of f1] o1 True by simp
    have two: "2 \<le> length (unread f)" using o1 True by simp
    obtain b2 f2 where e2: "ensure (2 + ?n) f1 = (b2, f2)" by (cases "ensure (2 + ?n) f1")
    have w1: "window_ok f1" "unread f1 = unread f" "same_counts f f1" using o1 by blast+
    note ens = ensure_ok [OF w1(1) e2, unfolded w1(2)]
    have o2: "window_ok f2" "unread f2 = unread f" "same_counts f f2" "b2 \<longleftrightarrow> 2 + ?n \<le> length (unread f)"
      "b2 \<longrightarrow> 2 + ?n \<le> w_size f2 - w_pos f2"
      using ens same_counts_trans [OF w1(3)] by blast+
    consider (zero) "?n = 0" | (short) "?n \<noteq> 0" "\<not> b2" | (frame) "?n \<noteq> 0" b2 by blast
    then show ?thesis
    proof cases
      case zero
      then have "cut_frame (unread f) = End_broken" using two by (auto simp: cut_frame_def Let_def)
      then show ?thesis using o1 True zero by (auto simp: frame_step_def read_frame_def e1 len)
    next
      case short
      then have "cut_frame (unread f) = End_broken" using two o2(4) by (auto simp: cut_frame_def Let_def)
      moreover have "read_frame f = Stop (f2\<lparr>w_failed := True\<rparr>)"
        using True short by (simp add: read_frame_def e1 len e2 [simplified] Let_def)
      ultimately show ?thesis using o2(1,3) by (auto simp: frame_step_def)
    next
      case frame
      let ?p = "take ?n (drop 2 (unread f))"
      have room: "2 + ?n \<le> w_size f2 - w_pos f2" and whole: "2 + ?n \<le> length (unread f)"
        using frame o2 by auto
      have "take (2 + ?n) (unread f) = take (2 + ?n) (drop (w_pos f2) (w_buffer f2))"
        using unread_split(1) [OF o2(1) room] o2(2) by simp
      then have "drop 2 (take (2 + ?n) (unread f)) = drop 2 (take (2 + ?n) (drop (w_pos f2) (w_buffer f2)))"
        by simp
      then have body: "take ?n (drop (w_pos f2 + 2) (w_buffer f2)) = ?p"
        by (simp add: drop_take add.commute)
      have lp: "2 + length ?p = 2 + ?n" using whole by simp
      have "read_frame f = Got ?p f2"
        using True frame body by (simp add: read_frame_def e1 len e2 [simplified] Let_def)
      moreover have "cut_frame (unread f) = Frame ?p (drop (2 + ?n) (unread f))"
        using two frame(1) whole by (auto simp: cut_frame_def Let_def)
      moreover have "unread (past_frame ?p f2) = drop (2 + ?n) (unread f)"
        unfolding past_frame_def lp using unread_split(2) [OF o2(1) room] o2(2) by simp
      moreover have "window_ok (past_frame ?p f2)"
        unfolding past_frame_def lp by (rule window_ok_advance [OF o2(1) room])
      ultimately show ?thesis using o2(3) by (auto simp: frame_step_def)
    qed
  qed
qed

end
