(* ===== verification/Connector.thy ===== *)
theory Connector
  imports MarketTypes
begin

text \<open>
  \<^verbatim>\<open>DataConnector\<close>: the interface every event source implements and every tool drives. The loop
  \<^verbatim>\<open>while (connector.next(event)) ...\<close> of the tools is \<^verbatim>\<open>pump\<close>, with the event limit \<^verbatim>\<open>--max\<close> they
  share; the locale states what a connector promises and proves, once for every connector, that the
  loop ends and has handed over the connector's feed in order.
\<close>

text \<open>\<^verbatim>\<open>limit = 0\<close> is no limit; \<^verbatim>\<open>seen\<close> counts the events so far.\<close>

partial_function (option) pump ::
  "('c \<Rightarrow> market_data_event option \<times> 'c) \<Rightarrow> (market_data_event \<Rightarrow> 's \<Rightarrow> 's) \<Rightarrow> nat \<Rightarrow> nat \<Rightarrow> 'c \<Rightarrow> 's \<Rightarrow> ('c \<times> 's) option" where
  "pump step handle limit seen c s =
     (case step c of
       (None, c1) \<Rightarrow> Some (c1, s)
     | (Some e, c1) \<Rightarrow>
         (if limit \<noteq> 0 \<and> seen + 1 \<ge> limit then Some (c1, handle e s)
          else pump step handle limit (seen + 1) c1 (handle e s)))"

text \<open>
  The same loop with a handler that may leave it: \<^verbatim>\<open>break\<close>, or an exception the handler records in the
  state. \<^verbatim>\<open>run_until\<close> is what it does to a list of events, \<^verbatim>\<open>runs_out\<close> says that it never leaves early.
\<close>

partial_function (option) drive ::
  "('c \<Rightarrow> market_data_event option \<times> 'c) \<Rightarrow> (market_data_event \<Rightarrow> 's \<Rightarrow> bool \<times> 's) \<Rightarrow> 'c \<Rightarrow> 's \<Rightarrow> ('c \<times> 's) option" where
  "drive step handle c s =
     (case step c of
       (None, c1) \<Rightarrow> Some (c1, s)
     | (Some e, c1) \<Rightarrow> (case handle e s of (stop, s1) \<Rightarrow>
         if stop then Some (c1, s1) else drive step handle c1 s1))"

fun run_until :: "('e \<Rightarrow> 's \<Rightarrow> bool \<times> 's) \<Rightarrow> 'e list \<Rightarrow> 's \<Rightarrow> 's" where
  "run_until handle [] s = s"
| "run_until handle (e # es) s = (case handle e s of (stop, s1) \<Rightarrow> if stop then s1 else run_until handle es s1)"

fun runs_out :: "('e \<Rightarrow> 's \<Rightarrow> bool \<times> 's) \<Rightarrow> 'e list \<Rightarrow> 's \<Rightarrow> bool" where
  "runs_out handle [] s = True"
| "runs_out handle (e # es) s = (case handle e s of (stop, s1) \<Rightarrow> \<not> stop \<and> runs_out handle es s1)"

definition limited :: "nat \<Rightarrow> 'a list \<Rightarrow> 'a list" where
  "limited limit xs = (if limit = 0 then xs else take limit xs)"

text \<open>A handler that leaves when its own count reaches the limit handles the events up to there.\<close>

lemma run_until_limited:
  assumes "\<And>e s. n (g e s) = n s + 1" and "\<And>e s. handle e s = (limit \<noteq> 0 \<and> n (g e s) \<ge> limit, g e s)"
    and "limit = 0 \<or> n s < limit"
  shows "run_until handle es s = fold g (limited (limit - n s) es) s \<and> (limit = 0 \<longrightarrow> runs_out handle es s)"
  using assms(3)
proof (induction es arbitrary: s)
  case Nil
  then show ?case by (simp add: limited_def)
next
  case (Cons e es)
  show ?case
  proof (cases "limit \<noteq> 0 \<and> n s + 1 \<ge> limit")
    case True
    then have "limit - n s = Suc 0" using Cons.prems by simp
    then show ?thesis using True by (simp add: assms(1,2) limited_def)
  next
    case False
    then have "limit = 0 \<or> limit - n s = Suc (limit - n (g e s)) \<and> limit - n (g e s) \<noteq> 0"
      by (auto simp: assms(1))
    then show ?thesis
      using Cons.IH [of "g e s"] False by (auto simp: assms(1,2) limited_def)
  qed
qed

text \<open>
  The contract: \<^verbatim>\<open>feed c\<close> is the list of events a connector in state \<^verbatim>\<open>c\<close> still hands over before it
  first reports the end, \<^verbatim>\<open>ok\<close> its invariant, \<^verbatim>\<open>ending c\<close> what its final state is known to satisfy.
\<close>

locale connector =
  fixes step :: "'c \<Rightarrow> market_data_event option \<times> 'c"
    and ok :: "'c \<Rightarrow> bool"
    and feed :: "'c \<Rightarrow> market_data_event list"
  assumes next_ok: "ok c \<Longrightarrow> ok (snd (step c))"
    and next_end: "ok c \<Longrightarrow> feed c = [] \<Longrightarrow> fst (step c) = None"
    and next_event: "ok c \<Longrightarrow> feed c = e # es \<Longrightarrow> fst (step c) = Some e \<and> feed (snd (step c)) = es"
begin

lemma pump_feed:
  assumes "ok c" and "limit = 0 \<or> seen < limit"
  shows "\<exists>c1. pump step handle limit seen c s = Some (c1, fold handle (limited (limit - seen) (feed c)) s) \<and> ok c1"
  using assms
proof (induction "feed c" arbitrary: c s seen)
  case Nil
  obtain c1 where "step c = (None, c1)" "ok c1"
    using next_end [OF Nil.prems(1)] next_ok [OF Nil.prems(1)] Nil.hyps by (cases "step c") auto
  then show ?case
    using Nil.hyps by (subst pump.simps) (auto simp: limited_def)
next
  case (Cons e es)
  obtain c1 where n: "step c = (Some e, c1)" and ok: "ok c1" and es: "feed c1 = es"
    using next_event [OF Cons.prems(1) Cons.hyps(2) [symmetric]] next_ok [OF Cons.prems(1)] by (cases "step c") auto
  show ?case
  proof (cases "limit \<noteq> 0 \<and> seen + 1 \<ge> limit")
    case True
    then have "limit - seen = 1" using Cons.prems(2) by simp
    with True ok show ?thesis
      by (intro exI [of _ c1], subst pump.simps) (simp add: n limited_def Cons.hyps(2) [symmetric])
  next
    case False
    have unfold: "pump step handle limit seen c s = pump step handle limit (seen + 1) c1 (handle e s)"
      using False by (subst pump.simps) (auto simp: n)
    have cut: "fold handle (limited (limit - seen) (feed c)) s
        = fold handle (limited (limit - (seen + 1)) (feed c1)) (handle e s)"
    proof (cases "limit = 0")
      case True
      then show ?thesis using es by (simp add: limited_def flip: Cons.hyps(2))
    next
      case lim: False
      with False have "limit - seen = Suc (limit - (seen + 1))" "limit - (seen + 1) \<noteq> 0" by auto
      then show ?thesis using es by (simp add: limited_def flip: Cons.hyps(2))
    qed
    show ?thesis
      using Cons.hyps(1) [OF es [symmetric] ok, of "seen + 1" "handle e s"] False unfold cut Cons.prems(2) by auto
  qed
qed

lemma drive_feed:
  assumes "ok c"
  shows "\<exists>c1. drive step handle c s = Some (c1, run_until handle (feed c) s) \<and> ok c1"
  using assms
proof (induction "feed c" arbitrary: c s)
  case Nil
  obtain c1 where "step c = (None, c1)" "ok c1"
    using next_end [OF Nil.prems] next_ok [OF Nil.prems] Nil.hyps by (cases "step c") auto
  then show ?case using Nil.hyps by (subst drive.simps) auto
next
  case (Cons e es)
  obtain c1 where n: "step c = (Some e, c1)" and ok: "ok c1" and es: "feed c1 = es"
    using next_event [OF Cons.prems Cons.hyps(2) [symmetric]] next_ok [OF Cons.prems] by (cases "step c") auto
  obtain stop s1 where h: "handle e s = (stop, s1)" by (cases "handle e s")
  show ?case
    using Cons.hyps(1) [OF es [symmetric] ok, of s1] es ok Cons.hyps(2) [symmetric]
    by (subst drive.simps) (auto simp: n h)
qed

text \<open>The loop of a tool, from its start: it ends, having handled the feed up to the limit.\<close>

lemma pump_all:
  assumes "ok c"
  shows "\<exists>c1. pump step handle limit 0 c s = Some (c1, fold handle (limited limit (feed c)) s) \<and> ok c1"
  using pump_feed [OF assms, of limit 0 handle s] by auto

end

text \<open>
  A connector whose state tells, once it has reported the end, how the stream went: \<^verbatim>\<open>outcome\<close> is what it
  reports (a failure flag, counters), \<^verbatim>\<open>verdict\<close> the prediction from the state before.
\<close>

locale judged_connector = connector step ok feed
  for step :: "'c \<Rightarrow> market_data_event option \<times> 'c" and ok :: "'c \<Rightarrow> bool" and feed :: "'c \<Rightarrow> market_data_event list" +
  fixes verdict :: "'c \<Rightarrow> 'v" and outcome :: "'c \<Rightarrow> 'v"
  assumes event_verdict: "ok c \<Longrightarrow> feed c \<noteq> [] \<Longrightarrow> verdict (snd (step c)) = verdict c"
    and end_verdict: "ok c \<Longrightarrow> feed c = [] \<Longrightarrow> outcome (snd (step c)) = verdict c"
begin

lemma pump_outcome:
  assumes "ok c"
  shows "\<exists>c1. pump step handle 0 seen c s = Some (c1, fold handle (feed c) s) \<and> ok c1 \<and> outcome c1 = verdict c"
  using assms
proof (induction "feed c" arbitrary: c s seen)
  case Nil
  obtain c1 where "step c = (None, c1)" "ok c1" "outcome c1 = verdict c"
    using next_end [OF Nil.prems] next_ok [OF Nil.prems] end_verdict [OF Nil.prems] Nil.hyps by (cases "step c") auto
  then show ?case
    using Nil.hyps by (subst pump.simps) auto
next
  case (Cons e es)
  obtain c1 where n: "step c = (Some e, c1)" and ok: "ok c1" and es: "feed c1 = es" and b: "verdict c1 = verdict c"
    using next_event [OF Cons.prems Cons.hyps(2) [symmetric]] next_ok [OF Cons.prems]
      event_verdict [OF Cons.prems] by (cases "step c") (auto simp flip: Cons.hyps(2))
  have "pump step handle 0 seen c s = pump step handle 0 (seen + 1) c1 (handle e s)"
    by (subst pump.simps) (simp add: n)
  then show ?case
    using Cons.hyps(1) [OF es [symmetric] ok, of "seen + 1" "handle e s"] es b by (auto simp flip: Cons.hyps(2))
qed

lemma drive_outcome:
  assumes "ok c" and "runs_out handle (feed c) s"
  shows "\<exists>c1. drive step handle c s = Some (c1, run_until handle (feed c) s) \<and> ok c1 \<and> outcome c1 = verdict c"
  using assms
proof (induction "feed c" arbitrary: c s)
  case Nil
  obtain c1 where "step c = (None, c1)" "ok c1" "outcome c1 = verdict c"
    using next_end [OF Nil.prems(1)] next_ok [OF Nil.prems(1)] end_verdict [OF Nil.prems(1)] Nil.hyps by (cases "step c") auto
  then show ?case using Nil.hyps by (subst drive.simps) auto
next
  case (Cons e es)
  note feed = Cons.hyps(2) [symmetric]
  obtain c1 where n: "step c = (Some e, c1)" and ok: "ok c1" and es: "feed c1 = es" and v: "verdict c1 = verdict c"
    using next_event [OF Cons.prems(1) feed] next_ok [OF Cons.prems(1)] event_verdict [OF Cons.prems(1)] feed
    by (cases "step c") auto
  obtain s1 where h: "handle e s = (False, s1)" "runs_out handle es s1" using Cons.prems(2) feed by auto
  show ?case
    using Cons.hyps(1) [OF es [symmetric] ok, of s1] es v feed h by (subst drive.simps) (auto simp: n)
qed

text \<open>The same, where only some runs (those without a limit) are known not to leave early.\<close>

lemma drive_verdict:
  assumes "ok c" and "whole \<longrightarrow> runs_out handle (feed c) s"
  shows "\<exists>c1. drive step handle c s = Some (c1, run_until handle (feed c) s) \<and> (whole \<longrightarrow> outcome c1 = verdict c)"
  using assms drive_outcome [of c handle s] drive_feed [of c handle s] by blast

end

end
