(* ===== verification/ItchFile.thy ===== *)
theory ItchFile
  imports Framer Connector
begin

text \<open>
  \<^verbatim>\<open>ItchFileConnector\<close>: replay of a stream of length-prefixed ITCH messages, from memory or from a
  file through the bounded window. \<^verbatim>\<open>item_events\<close> is the specification: a function of the byte stream
  alone, which knows nothing of windows and refills.
\<close>

record itch_file = window +
  fc_consumed :: nat

definition itch_from_bytes :: "u8 list \<Rightarrow> itch_file" where
  "itch_from_bytes data = window.extend (memory_window data) \<lparr>fc_consumed = 0\<rparr>"

definition itch_from_file :: "u8 list option \<Rightarrow> itch_file" where
  "itch_from_file path = window.extend (file_window path) \<lparr>fc_consumed = 0\<rparr>"

function itch_next :: "itch_file \<Rightarrow> market_data_event option \<times> itch_file" where
  "itch_next f =
     (case read_frame f of
       Stop g \<Rightarrow> (None, g)
     | Got body f2 \<Rightarrow>
         let result = decode_message body;
             f3 = (past_frame body f2)\<lparr>fc_consumed := fc_consumed f2 + (2 + length body)\<rparr>
         in case result of
              Malformed \<Rightarrow> (None, f3\<lparr>w_failed := True\<rparr>)
            | Event e \<Rightarrow> (Some (e\<lparr>ev_sequence := w_sequence f3 + 1\<rparr>),
                f3\<lparr>w_sequence := w_sequence f3 + 1, w_decoded := w_decoded f3 + 1\<rparr>)
            | Skipped \<Rightarrow> itch_next f3)"
  by auto

termination
  by (relation "measure left_over") (auto dest!: past_frame_less simp: left_over_def)

declare itch_next.simps [simp del]

section \<open>The stream as a specification\<close>

function item_events :: "u64 \<Rightarrow> u8 list \<Rightarrow> market_data_event list" where
  "item_events sq bs = (case cut_frame bs of
       End_clean \<Rightarrow> []
     | End_broken \<Rightarrow> []
     | Frame p rest \<Rightarrow> (case decode_message p of
         Malformed \<Rightarrow> []
       | Event e \<Rightarrow> e\<lparr>ev_sequence := sq + 1\<rparr> # item_events (sq + 1) rest
       | Skipped \<Rightarrow> item_events sq rest))"
  by auto

termination
  by (relation "measure (length \<circ> snd)") (auto dest: cut_frame_shorter)

declare item_events.simps [simp del]

text \<open>Whether the stream stops on a broken frame or a malformed message.\<close>

function stream_broken :: "u8 list \<Rightarrow> bool" where
  "stream_broken bs = (case cut_frame bs of
       End_clean \<Rightarrow> False
     | End_broken \<Rightarrow> True
     | Frame p rest \<Rightarrow> decode_message p = Malformed \<or> stream_broken rest)"
  by auto

termination
  by (relation "measure length") (auto dest: cut_frame_shorter)

declare stream_broken.simps [simp del]

definition itch_ok :: "itch_file \<Rightarrow> bool" where
  "itch_ok f \<longleftrightarrow> window_ok f"

definition itch_feed :: "itch_file \<Rightarrow> market_data_event list" where
  "itch_feed f = item_events (w_sequence f) (unread f)"

definition itch_bad :: "itch_file \<Rightarrow> bool" where
  "itch_bad f \<longleftrightarrow> w_failed f \<or> stream_broken (unread f)"

text \<open>One call of \<^verbatim>\<open>next\<close>, all cases at once.\<close>

lemma same_counts_simps:
  "same_counts f g \<Longrightarrow> w_sequence g = w_sequence f" "same_counts f g \<Longrightarrow> w_failed g = w_failed f"
  by (simp_all add: same_counts_def)

lemma unread_count_updates [frame_simps]:
  "unread (f\<lparr>w_failed := b\<rparr>) = unread f" "unread (f\<lparr>w_sequence := s\<rparr>) = unread f"
  "unread (f\<lparr>w_decoded := d\<rparr>) = unread f" "unread (h\<lparr>fc_consumed := n\<rparr>) = unread h"
  "window_ok (f\<lparr>w_failed := b\<rparr>) = window_ok f" "window_ok (f\<lparr>w_sequence := s\<rparr>) = window_ok f"
  "window_ok (f\<lparr>w_decoded := d\<rparr>) = window_ok f" "window_ok (h\<lparr>fc_consumed := n\<rparr>) = window_ok h"
  by (simp_all add: unread_def window_ok_def)

lemma itch_next_step:
  assumes "itch_ok f"
  shows "itch_ok (snd (itch_next f))
    \<and> (itch_feed f = [] \<longrightarrow> fst (itch_next f) = None \<and> w_failed (snd (itch_next f)) = itch_bad f)
    \<and> (\<forall>e es. itch_feed f = e # es \<longrightarrow>
         fst (itch_next f) = Some e \<and> itch_feed (snd (itch_next f)) = es \<and> itch_bad (snd (itch_next f)) = itch_bad f)"
  using assms
proof (induction f rule: itch_next.induct)
  case (1 f)
  have ok: "window_ok f" using "1.prems" by (simp add: itch_ok_def)
  note step = read_frame_ok [OF ok, unfolded frame_step_def]
  show ?case
  proof (cases "cut_frame (unread f)")
    case End_clean
    then obtain g where "read_frame f = Stop g" "window_ok g" "same_counts f g" using step by auto
    then show ?thesis
      using End_clean same_counts_simps
      by (simp add: itch_next.simps [of f] itch_feed_def item_events.simps [of _ "unread f"] itch_ok_def itch_bad_def
          stream_broken.simps [of "unread f"])
  next
    case End_broken
    then obtain g where "read_frame f = Stop (g\<lparr>w_failed := True\<rparr>)" "window_ok g" using step by auto
    then show ?thesis
      using End_broken
      by (simp add: itch_next.simps [of f] itch_feed_def item_events.simps [of _ "unread f"] itch_ok_def itch_bad_def
          stream_broken.simps [of "unread f"] frame_simps)
  next
    case (Frame p rest)
    then obtain g where g: "read_frame f = Got p g" "window_ok (past_frame p g)" "same_counts f g"
      "unread (past_frame p g) = rest" using step by auto
    let ?h = "(past_frame p g)\<lparr>fc_consumed := fc_consumed g + (2 + length p)\<rparr>"
    have h: "itch_ok ?h" "unread ?h = rest" "w_sequence ?h = w_sequence f" "w_failed ?h = w_failed f"
      using g same_counts_simps [OF g(3)] by (simp_all add: itch_ok_def frame_simps past_frame_def)
    have run: "itch_next f = (case decode_message p of
        Malformed \<Rightarrow> (None, ?h\<lparr>w_failed := True\<rparr>)
      | Event e \<Rightarrow> (Some (e\<lparr>ev_sequence := w_sequence ?h + 1\<rparr>), ?h\<lparr>w_sequence := w_sequence ?h + 1, w_decoded := w_decoded ?h + 1\<rparr>)
      | Skipped \<Rightarrow> itch_next ?h)"
      by (subst itch_next.simps) (simp only: g(1) Let_def framed.case)
    have spec: "itch_feed f = (case decode_message p of Malformed \<Rightarrow> []
        | Event e \<Rightarrow> e\<lparr>ev_sequence := w_sequence f + 1\<rparr> # item_events (w_sequence f + 1) rest
        | Skipped \<Rightarrow> item_events (w_sequence f) rest)"
      "itch_bad f = (w_failed f \<or> decode_message p = Malformed \<or> stream_broken rest)"
      using Frame by (simp_all add: itch_feed_def itch_bad_def item_events.simps [of _ "unread f"]
          stream_broken.simps [of "unread f"])
    show ?thesis
    proof (cases "decode_message p")
      case (Event e)
      then show ?thesis
        using run spec h by (simp add: itch_ok_def itch_feed_def itch_bad_def frame_simps)
    next
      case Malformed
      then show ?thesis
        using run spec h by (simp add: itch_ok_def frame_simps)
    next
      case Skipped
      have "itch_feed ?h = itch_feed f" "itch_bad ?h = itch_bad f" "itch_next ?h = itch_next f"
        using run spec h Skipped by (simp_all add: itch_feed_def itch_bad_def)
      then show ?thesis
        using "1.IH" [OF g(1) refl refl Skipped h(1)] by simp
    qed
  qed
qed

interpretation itch: judged_connector itch_next itch_ok itch_feed itch_bad w_failed
proof
  fix c e es
  assume "itch_ok c"
  note s = itch_next_step [OF this]
  show "itch_ok (snd (itch_next c))" using s by blast
  show "itch_feed c = [] \<Longrightarrow> fst (itch_next c) = None" using s by blast
  show "itch_feed c = e # es \<Longrightarrow> fst (itch_next c) = Some e \<and> itch_feed (snd (itch_next c)) = es" using s by blast
  show "itch_feed c \<noteq> [] \<Longrightarrow> itch_bad (snd (itch_next c)) = itch_bad c" using s by (cases "itch_feed c") blast+
  show "itch_feed c = [] \<Longrightarrow> w_failed (snd (itch_next c)) = itch_bad c" using s by blast
qed

section \<open>The two sources start from the same stream\<close>

lemma cut_frame_Nil [simp]: "cut_frame [] = End_clean"
  by (simp add: cut_frame_def Let_def)

lemma itch_sources:
  "itch_ok (itch_from_bytes d) \<and> itch_feed (itch_from_bytes d) = item_events 0 d
     \<and> itch_bad (itch_from_bytes d) = stream_broken d"
  "itch_ok (itch_from_file (Some d)) \<and> itch_feed (itch_from_file (Some d)) = item_events 0 d
     \<and> itch_bad (itch_from_file (Some d)) = stream_broken d"
  "itch_ok (itch_from_file None) \<and> itch_feed (itch_from_file None) = [] \<and> itch_bad (itch_from_file None)"
  by (simp_all add: itch_from_bytes_def itch_from_file_def memory_window_def file_window_def window.extend_def
      itch_ok_def itch_feed_def itch_bad_def window_ok_def unread_def item_events.simps [of _ "[]"])

section \<open>Framing\<close>

definition frame_bytes :: "u8 list \<Rightarrow> u8 list" where
  "frame_bytes p = be 2 (word_of_nat (length p) :: u16) @ p"

definition framable :: "u8 list \<Rightarrow> bool" where
  "framable p \<longleftrightarrow> 0 < length p \<and> length p < 2 ^ 16"

lemma length_frame_bytes [simp]: "length (frame_bytes p) = 2 + length p"
  by (simp add: frame_bytes_def)

lemma frame_bytes_nonempty [simp]: "frame_bytes p \<noteq> []"
  by (metis length_frame_bytes add_is_0 list.size(3) zero_neq_numeral)

lemma read_be16_be: "read_be16 (be 2 x @ bs) 0 = x"
  using readers_slice(1) [of 0 "be 2 x @ bs"] by (simp add: slice_of_def read_be_field)

lemma prefix_of_frame:
  assumes "framable p" and "2 \<le> k"
  shows "unat (read_be16 (take k (frame_bytes p) @ bs) 0) = length p"
proof -
  have "take k (frame_bytes p) @ bs = be 2 (word_of_nat (length p) :: u16) @ take (k - 2) p @ bs"
    using assms(2) by (simp add: frame_bytes_def)
  then show ?thesis
    using assms(1) by (simp add: read_be16_be framable_def unat_of_nat)
qed

lemma cut_frame_frame:
  assumes "framable p"
  shows "cut_frame (frame_bytes p @ rest) = Frame p rest"
proof -
  have "unat (read_be16 (frame_bytes p @ rest) 0) = length p"
    using prefix_of_frame [OF assms, of "length (frame_bytes p)" rest] by simp
  then show ?thesis
    using assms by (simp add: cut_frame_def framable_def Let_def) (simp add: frame_bytes_def)
qed

lemma cut_frame_cut:
  assumes "framable p" and "0 < k" and "k < 2 + length p"
  shows "cut_frame (take k (frame_bytes p)) = End_broken"
proof (cases "2 \<le> k")
  case True
  have "length (take k (frame_bytes p)) = k" using assms(3) by simp
  then show ?thesis
    using prefix_of_frame [OF assms(1) True, of "[]"] assms True by (auto simp: cut_frame_def Let_def)
next
  case False
  then have "length (take k (frame_bytes p)) = 1" using assms by simp
  then show ?thesis by (auto simp: cut_frame_def Let_def)
qed

text \<open>The events of a list of message bodies, numbered on.\<close>

definition event_in :: "u8 list \<Rightarrow> market_data_event option" where
  "event_in p = (case decode_message p of Event e \<Rightarrow> Some e | _ \<Rightarrow> None)"

fun numbered :: "u64 \<Rightarrow> market_data_event list \<Rightarrow> market_data_event list" where
  "numbered sq [] = []"
| "numbered sq (e # es) = e\<lparr>ev_sequence := sq + 1\<rparr> # numbered (sq + 1) es"

definition well_framed :: "u8 list list \<Rightarrow> bool" where
  "well_framed ps \<longleftrightarrow> (\<forall>p \<in> set ps. framable p \<and> decode_message p \<noteq> Malformed)"

lemma item_events_frames:
  assumes "well_framed ps" and "cut_frame rest = End_clean \<or> cut_frame rest = End_broken"
  shows "item_events sq (concat (map frame_bytes ps) @ rest) = numbered sq (List.map_filter event_in ps)
    \<and> (stream_broken (concat (map frame_bytes ps) @ rest) \<longleftrightarrow> cut_frame rest = End_broken)"
  using assms(1)
proof (induction ps arbitrary: sq)
  case Nil
  show ?case
    using assms(2) by (auto simp: item_events.simps [of _ rest] stream_broken.simps [of rest] List.map_filter_simps)
next
  case (Cons p ps)
  have p: "framable p" "decode_message p \<noteq> Malformed" and ps: "well_framed ps"
    using Cons.prems by (auto simp: well_framed_def)
  let ?more = "concat (map frame_bytes ps) @ rest"
  have "item_events sq (frame_bytes p @ ?more) = (case event_in p of
      Some e \<Rightarrow> e\<lparr>ev_sequence := sq + 1\<rparr> # item_events (sq + 1) ?more | None \<Rightarrow> item_events sq ?more)"
    using p by (subst item_events.simps) (auto simp: cut_frame_frame event_in_def split: decode_result.split)
  moreover have "stream_broken (frame_bytes p @ ?more) = stream_broken ?more"
    using p by (subst stream_broken.simps) (simp add: cut_frame_frame)
  ultimately show ?case
    using Cons.IH [OF ps] by (auto simp: List.map_filter_simps split: option.splits)
qed

section \<open>Properties\<close>

lemma fold_snoc: "fold (\<lambda>e es. es @ [e]) xs ys = ys @ xs"
  by (induction xs arbitrary: ys) simp_all

definition collect :: "itch_file \<Rightarrow> (itch_file \<times> market_data_event list) option" where
  "collect c = pump itch_next (\<lambda>e es. es @ [e]) 0 0 c []"

text \<open>
  C18. Replaying a byte stream ends, whatever its bytes, and delivers exactly the events the framing
  specification reads off the stream, in order and numbered from 1; \<^verbatim>\<open>failed()\<close> is then set if and only if the
  stream stopped on a broken frame or a malformed message. The in-memory source and the file read
  through the 64 KiB window give the same, and a file that cannot be opened delivers nothing and is failed.
\<close>

theorem itch_replay_correct:
  "\<exists>c1 c2 c3. collect (itch_from_bytes d) = Some (c1, item_events 0 d) \<and> w_failed c1 = stream_broken d
    \<and> collect (itch_from_file (Some d)) = Some (c2, item_events 0 d) \<and> w_failed c2 = stream_broken d
    \<and> collect (itch_from_file None) = Some (c3, []) \<and> w_failed c3"
  using itch.pump_outcome [of "itch_from_bytes d" "\<lambda>e es. es @ [e]" 0 "[]"]
    itch.pump_outcome [of "itch_from_file (Some d)" "\<lambda>e es. es @ [e]" 0 "[]"]
    itch.pump_outcome [of "itch_from_file None" "\<lambda>e es. es @ [e]" 0 "[]"]
  by (auto simp: itch_sources collect_def fold_snoc)

text \<open>
  Round trip of the framing: a file made of well-framed messages, each behind its two-byte length,
  delivers the events of those messages, all of them and nothing else, numbered from 1, without
  failing; cut off anywhere inside a further frame, it delivers the same events and fails.
\<close>

theorem itch_framing_round_trip:
  assumes "well_framed ps" and "framable p" and "k < 2 + length p"
  shows "\<exists>c. collect (itch_from_file (Some (concat (map frame_bytes ps) @ take k (frame_bytes p))))
      = Some (c, numbered 0 (List.map_filter event_in ps)) \<and> w_failed c = (0 < k)"
proof -
  let ?d = "concat (map frame_bytes ps) @ take k (frame_bytes p)"
  have "cut_frame (take k (frame_bytes p)) = (if 0 < k then End_broken else End_clean)"
    using cut_frame_cut [OF assms(2) _ assms(3)] by auto
  then have "item_events 0 ?d = numbered 0 (List.map_filter event_in ps)" "stream_broken ?d \<longleftrightarrow> 0 < k"
    using item_events_frames [OF assms(1), of "take k (frame_bytes p)" 0] by (auto split: if_splits)
  then show ?thesis
    using itch.pump_outcome [of "itch_from_file (Some ?d)" "\<lambda>e es. es @ [e]" 0 "[]"]
    by (auto simp: itch_sources collect_def fold_snoc)
qed

definition sample_header :: itch_header where
  "sample_header = \<lparr>hd_stock_locate = 7, hd_tracking = 0, hd_timestamp = 5, hd_order = 9\<rparr>"

lemma itch_framing_round_trip_witness:
  "\<exists>c. collect (itch_from_file (Some (frame_bytes (encode_message (sample_header, MCancel 4)) @ take 3 (frame_bytes [83, 0]))))
      = Some (c, [(event_of (sample_header, MCancel 4))\<lparr>ev_sequence := 1\<rparr>]) \<and> w_failed c"
proof -
  have e: "event_in (encode_message (sample_header, MCancel 4)) = Some (event_of (sample_header, MCancel 4))"
    using decode_encoded [of "(sample_header, MCancel 4)" "[]"] by (simp add: event_in_def)
  have w: "well_framed [encode_message (sample_header, MCancel 4)]"
    using decode_encoded [of "(sample_header, MCancel 4)" "[]"]
    by (simp add: well_framed_def framable_def length_encode_message)
  show ?thesis
    using itch_framing_round_trip [OF w, of "[83, 0]" 3] by (simp add: framable_def e List.map_filter_simps)
qed

end
