(* ===== verification/SoupBinTcp.thy ===== *)
theory SoupBinTcp
  imports ItchFile
begin

text \<open>
  \<^verbatim>\<open>SoupBinTcpConnector\<close>: the same window and frames as the file connector, with a packet type in the
  first byte of each frame. Only Sequenced Data packets number and carry messages; an End of Session
  packet ends the stream.
\<close>

record soup = window +
  sb_end_of_session :: bool

definition soup_from_bytes :: "u8 list \<Rightarrow> soup" where
  "soup_from_bytes data = window.extend (memory_window data) \<lparr>sb_end_of_session = False\<rparr>"

definition soup_from_file :: "u8 list option \<Rightarrow> soup" where
  "soup_from_file path = window.extend (file_window path) \<lparr>sb_end_of_session = False\<rparr>"

text \<open>\<^verbatim>\<open>'Z'\<close> and \<^verbatim>\<open>'S'\<close>.\<close>

abbreviation end_of_session_packet :: u8 where "end_of_session_packet \<equiv> 90"
abbreviation sequenced_data_packet :: u8 where "sequenced_data_packet \<equiv> 83"

function soup_next :: "soup \<Rightarrow> market_data_event option \<times> soup" where
  "soup_next f =
     (case read_frame f of
       Stop g \<Rightarrow> (None, g)
     | Got body f2 \<Rightarrow>
         let type = body ! 0; payload = drop 1 body; f3 = past_frame body f2
         in if type = end_of_session_packet then (None, f3\<lparr>sb_end_of_session := True\<rparr>)
            else if type = sequenced_data_packet then
              (let f4 = f3\<lparr>w_sequence := w_sequence f3 + 1\<rparr>
               in case decode_message payload of
                    Malformed \<Rightarrow> (None, f4\<lparr>w_failed := True\<rparr>)
                  | Event e \<Rightarrow> (Some (e\<lparr>ev_sequence := w_sequence f4\<rparr>), f4\<lparr>w_decoded := w_decoded f4 + 1\<rparr>)
                  | Skipped \<Rightarrow> soup_next f4)
            else soup_next f3)"
  by auto

termination
  by (relation "measure left_over") (auto dest!: past_frame_less simp: left_over_def)

declare soup_next.simps [simp del]

section \<open>The session as a specification\<close>

function soup_events :: "u64 \<Rightarrow> u8 list \<Rightarrow> market_data_event list" where
  "soup_events sq bs = (case cut_frame bs of
       End_clean \<Rightarrow> []
     | End_broken \<Rightarrow> []
     | Frame p rest \<Rightarrow>
         if p ! 0 = end_of_session_packet then []
         else if p ! 0 = sequenced_data_packet then
           (case decode_message (drop 1 p) of
             Malformed \<Rightarrow> []
           | Event e \<Rightarrow> e\<lparr>ev_sequence := sq + 1\<rparr> # soup_events (sq + 1) rest
           | Skipped \<Rightarrow> soup_events (sq + 1) rest)
         else soup_events sq rest)"
  by auto

termination
  by (relation "measure (length \<circ> snd)") (auto dest: cut_frame_shorter)

declare soup_events.simps [simp del]

text \<open>How a session ends: at the end of the bytes, on a broken frame or message, or on its end packet.\<close>

datatype soup_end = OutOfBytes | Broken | Ended

function session_end :: "u8 list \<Rightarrow> soup_end" where
  "session_end bs = (case cut_frame bs of
       End_clean \<Rightarrow> OutOfBytes
     | End_broken \<Rightarrow> Broken
     | Frame p rest \<Rightarrow>
         if p ! 0 = end_of_session_packet then Ended
         else if p ! 0 = sequenced_data_packet \<and> decode_message (drop 1 p) = Malformed then Broken
         else session_end rest)"
  by auto

termination
  by (relation "measure length") (auto dest: cut_frame_shorter)

declare session_end.simps [simp del]

definition soup_ok :: "soup \<Rightarrow> bool" where
  "soup_ok f \<longleftrightarrow> window_ok f"

definition soup_feed :: "soup \<Rightarrow> market_data_event list" where
  "soup_feed f = soup_events (w_sequence f) (unread f)"

definition soup_bad :: "soup \<Rightarrow> bool" where
  "soup_bad f \<longleftrightarrow> w_failed f \<or> session_end (unread f) = Broken"

definition soup_over :: "soup \<Rightarrow> bool" where
  "soup_over f \<longleftrightarrow> sb_end_of_session f \<or> session_end (unread f) = Ended"

lemma soup_updates [frame_simps]:
  "unread (h\<lparr>sb_end_of_session := b\<rparr>) = unread h" "window_ok (h\<lparr>sb_end_of_session := b\<rparr>) = window_ok h"
  by (simp_all add: unread_def window_ok_def)

lemma same_end: "same_counts f g \<Longrightarrow> sb_end_of_session g = sb_end_of_session f"
  by (cases f; cases g) (simp add: same_counts_def)

definition soup_call_ok :: "soup \<Rightarrow> market_data_event option \<times> soup \<Rightarrow> bool" where
  "soup_call_ok f r \<longleftrightarrow> soup_ok (snd r)
    \<and> (soup_feed f = [] \<longrightarrow> fst r = None \<and> w_failed (snd r) = soup_bad f \<and> sb_end_of_session (snd r) = soup_over f)
    \<and> (\<forall>e es. soup_feed f = e # es \<longrightarrow> fst r = Some e \<and> soup_feed (snd r) = es
         \<and> soup_bad (snd r) = soup_bad f \<and> soup_over (snd r) = soup_over f)"

lemma soup_call_cong:
  "soup_feed g = soup_feed f \<Longrightarrow> soup_bad g = soup_bad f \<Longrightarrow> soup_over g = soup_over f
    \<Longrightarrow> soup_call_ok g r = soup_call_ok f r"
  by (simp add: soup_call_ok_def)

lemma soup_next_step:
  assumes "soup_ok f"
  shows "soup_call_ok f (soup_next f)"
  using assms
proof (induction f rule: soup_next.induct)
  case (1 f)
  have ok: "window_ok f" using "1.prems" by (simp add: soup_ok_def)
  note step = read_frame_ok [OF ok, unfolded frame_step_def]
  note unfold = soup_events.simps [of _ "unread f"] session_end.simps [of "unread f"]
  note defs = soup_call_ok_def soup_feed_def soup_ok_def soup_bad_def soup_over_def
  show ?case
  proof (cases "cut_frame (unread f)")
    case End_clean
    then obtain g where g: "read_frame f = Stop g" "window_ok g" "same_counts f g" using step by auto
    then show ?thesis
      using End_clean same_counts_simps [OF g(3)] same_end [OF g(3)] by (simp add: soup_next.simps [of f] defs unfold)
  next
    case End_broken
    then obtain g where "read_frame f = Stop (g\<lparr>w_failed := True\<rparr>)" "window_ok g" "same_counts f g" using step by auto
    then show ?thesis
      using End_broken same_end [of f g] by (simp add: soup_next.simps [of f] defs unfold frame_simps)
  next
    case (Frame p rest)
    then obtain g where g: "read_frame f = Got p g" "window_ok (past_frame p g)" "same_counts f g"
      "unread (past_frame p g) = rest" using step by auto
    let ?h = "past_frame p g"
    let ?h1 = "?h\<lparr>w_sequence := w_sequence ?h + 1\<rparr>"
    have h: "w_sequence ?h = w_sequence f" "w_failed ?h = w_failed f" "sb_end_of_session ?h = sb_end_of_session f"
      using same_counts_simps [OF g(3)] same_end [OF g(3)] by (simp_all add: past_frame_def)
    have spec: "soup_feed f =
        (if p ! 0 = end_of_session_packet then []
         else if p ! 0 = sequenced_data_packet then
           (case decode_message (drop 1 p) of Malformed \<Rightarrow> []
           | Event e \<Rightarrow> e\<lparr>ev_sequence := w_sequence f + 1\<rparr> # soup_events (w_sequence f + 1) rest
           | Skipped \<Rightarrow> soup_events (w_sequence f + 1) rest)
         else soup_events (w_sequence f) rest)"
      "session_end (unread f) =
        (if p ! 0 = end_of_session_packet then Ended
         else if p ! 0 = sequenced_data_packet \<and> decode_message (drop 1 p) = Malformed then Broken
         else session_end rest)"
      using Frame by (simp_all add: soup_feed_def unfold)
    note run = soup_next.simps [of f, unfolded g(1) framed.case Let_def]
    consider (ended) "p ! 0 = end_of_session_packet"
      | (data) "p ! 0 \<noteq> end_of_session_packet" "p ! 0 = sequenced_data_packet"
      | (other) "p ! 0 \<noteq> end_of_session_packet" "p ! 0 \<noteq> sequenced_data_packet" by blast
    then show ?thesis
    proof cases
      case ended
      then show ?thesis using spec g h by (simp add: run defs frame_simps)
    next
      case other
      have "soup_call_ok ?h (soup_next ?h)"
        by (rule "1.IH"(2) [OF g(1) refl refl refl]) (use other g in \<open>simp_all add: soup_ok_def\<close>)
      moreover have "soup_feed ?h = soup_feed f" "soup_bad ?h = soup_bad f" "soup_over ?h = soup_over f"
        using other spec g h by (simp_all add: soup_feed_def soup_bad_def soup_over_def)
      ultimately show ?thesis using other soup_call_cong [of ?h f] by (simp add: run)
    next
      case data
      show ?thesis
      proof (cases "decode_message (drop 1 p)")
        case (Event e)
        then show ?thesis using data spec g h by (simp add: run defs frame_simps)
      next
        case Malformed
        then show ?thesis using data spec g h by (simp add: run defs frame_simps)
      next
        case Skipped
        have "soup_call_ok ?h1 (soup_next ?h1)"
          by (rule "1.IH"(1) [OF g(1) refl refl refl]) (use data g Skipped in \<open>simp_all add: soup_ok_def frame_simps\<close>)
        moreover have "soup_feed ?h1 = soup_feed f" "soup_bad ?h1 = soup_bad f" "soup_over ?h1 = soup_over f"
          using data Skipped spec g h by (simp_all add: soup_feed_def soup_bad_def soup_over_def frame_simps)
        ultimately show ?thesis using data Skipped soup_call_cong [of ?h1 f] by (simp add: run)
      qed
    qed
  qed
qed

lemma soup_contract:
  assumes "soup_ok c"
  shows "soup_ok (snd (soup_next c))"
    and "soup_feed c = [] \<Longrightarrow> fst (soup_next c) = None \<and> w_failed (snd (soup_next c)) = soup_bad c
      \<and> sb_end_of_session (snd (soup_next c)) = soup_over c"
    and "soup_feed c = e # es \<Longrightarrow> fst (soup_next c) = Some e \<and> soup_feed (snd (soup_next c)) = es"
    and "soup_feed c \<noteq> [] \<Longrightarrow> soup_bad (snd (soup_next c)) = soup_bad c \<and> soup_over (snd (soup_next c)) = soup_over c"
  using soup_next_step [OF assms] by (auto simp: soup_call_ok_def neq_Nil_conv)

interpretation soup: judged_connector soup_next soup_ok soup_feed
  "\<lambda>f. (soup_bad f, soup_over f)" "\<lambda>f. (w_failed f, sb_end_of_session f)"
  by unfold_locales (simp_all add: soup_contract)

lemma soup_sources:
  "soup_ok (soup_from_bytes d) \<and> soup_feed (soup_from_bytes d) = soup_events 0 d
     \<and> soup_bad (soup_from_bytes d) = (session_end d = Broken) \<and> soup_over (soup_from_bytes d) = (session_end d = Ended)"
  "soup_ok (soup_from_file (Some d)) \<and> soup_feed (soup_from_file (Some d)) = soup_events 0 d
     \<and> soup_bad (soup_from_file (Some d)) = (session_end d = Broken) \<and> soup_over (soup_from_file (Some d)) = (session_end d = Ended)"
  by (simp_all add: soup_from_bytes_def soup_from_file_def memory_window_def file_window_def window.extend_def
      soup_ok_def soup_feed_def soup_bad_def soup_over_def window_ok_def unread_def)

section \<open>Sessions laid out by the format\<close>

datatype packet = Data "u8 list" | Filler u8 "u8 list"

fun packet_body :: "packet \<Rightarrow> u8 list" where
  "packet_body (Data m) = sequenced_data_packet # m"
| "packet_body (Filler t m) = t # m"

definition packet_ok :: "packet \<Rightarrow> bool" where
  "packet_ok p \<longleftrightarrow> framable (packet_body p) \<and> (case p of Data m \<Rightarrow> decode_message m \<noteq> Malformed
     | Filler t m \<Rightarrow> t \<noteq> end_of_session_packet \<and> t \<noteq> sequenced_data_packet)"

text \<open>The number of an event is the number of its data packet, skipped messages counted.\<close>

fun session_events :: "u64 \<Rightarrow> packet list \<Rightarrow> market_data_event list" where
  "session_events sq [] = []"
| "session_events sq (Filler t m # ps) = session_events sq ps"
| "session_events sq (Data m # ps) = (case event_in m of
     None \<Rightarrow> session_events (sq + 1) ps
   | Some e \<Rightarrow> e\<lparr>ev_sequence := sq + 1\<rparr> # session_events (sq + 1) ps)"

definition session_bytes :: "packet list \<Rightarrow> u8 list" where
  "session_bytes ps = concat (map (frame_bytes \<circ> packet_body) ps)"

lemma soup_events_session:
  assumes "\<forall>p \<in> set ps. packet_ok p"
  shows "soup_events sq (session_bytes ps @ rest) = session_events sq ps @ soup_events (sq + word_of_nat (length [p \<leftarrow> ps. \<exists>m. p = Data m])) rest
    \<and> session_end (session_bytes ps @ rest) = session_end rest"
  using assms
proof (induction ps arbitrary: sq)
  case Nil
  then show ?case by (simp add: session_bytes_def)
next
  case (Cons p ps)
  have p: "packet_ok p" and ps: "\<forall>p \<in> set ps. packet_ok p" using Cons.prems by auto
  have cut: "cut_frame (session_bytes (p # ps) @ rest) = Frame (packet_body p) (session_bytes ps @ rest)"
    using p by (simp add: session_bytes_def cut_frame_frame packet_ok_def)
  note events = soup_events.simps [of sq "session_bytes (p # ps) @ rest", unfolded cut]
  note ends = session_end.simps [of "session_bytes (p # ps) @ rest", unfolded cut]
  show ?case
  proof (cases p)
    case (Data m)
    then show ?thesis
      unfolding events ends using Cons.IH [OF ps] p
      by (auto simp: packet_ok_def event_in_def add.assoc split: decode_result.splits)
  next
    case (Filler t m)
    then show ?thesis
      unfolding events ends using Cons.IH [OF ps] p by (simp add: packet_ok_def)
  qed
qed

section \<open>Properties\<close>

definition collect_soup :: "soup \<Rightarrow> (soup \<times> market_data_event list) option" where
  "collect_soup c = pump soup_next (\<lambda>e es. es @ [e]) 0 0 c []"

text \<open>
  C19. Replaying a SoupBinTCP byte stream ends and delivers exactly the events of the session
  specification; \<^verbatim>\<open>failed()\<close> and \<^verbatim>\<open>end_of_session()\<close> are then set if and only if the stream broke or met its end
  packet. Both sources agree.
\<close>

theorem soup_replay_correct:
  "\<exists>c1 c2. collect_soup (soup_from_bytes d) = Some (c1, soup_events 0 d)
    \<and> w_failed c1 = (session_end d = Broken) \<and> sb_end_of_session c1 = (session_end d = Ended)
    \<and> collect_soup (soup_from_file (Some d)) = Some (c2, soup_events 0 d)
    \<and> w_failed c2 = (session_end d = Broken) \<and> sb_end_of_session c2 = (session_end d = Ended)"
  using soup.pump_outcome [of "soup_from_bytes d" "\<lambda>e es. es @ [e]" 0 "[]"]
    soup.pump_outcome [of "soup_from_file (Some d)" "\<lambda>e es. es @ [e]" 0 "[]"]
  by (auto simp: soup_sources collect_soup_def fold_snoc)

text \<open>
  Round trip of a session: well-formed packets closed by an End of Session packet deliver the
  events of their data packets, each numbered by its data packet (skipped messages and other packet
  types in between), and nothing behind the end packet is delivered, whatever its bytes.
\<close>

theorem soup_session_round_trip:
  assumes "\<forall>p \<in> set ps. packet_ok p"
  shows "\<exists>c. collect_soup (soup_from_file (Some (session_bytes ps @ frame_bytes [end_of_session_packet] @ rest)))
      = Some (c, session_events 0 ps) \<and> sb_end_of_session c \<and> \<not> w_failed c"
proof -
  let ?d = "session_bytes ps @ frame_bytes [end_of_session_packet] @ rest"
  have fin: "cut_frame (frame_bytes [end_of_session_packet] @ rest) = Frame [end_of_session_packet] rest"
    by (rule cut_frame_frame) (simp add: framable_def)
  have "soup_events 0 ?d = session_events 0 ps" "session_end ?d = Ended"
    using soup_events_session [OF assms, of 0 "frame_bytes [end_of_session_packet] @ rest"]
    by (simp_all add: soup_events.simps [of _ "frame_bytes [end_of_session_packet] @ rest"]
        session_end.simps [of "frame_bytes [end_of_session_packet] @ rest"] fin)
  then show ?thesis
    using soup.pump_outcome [of "soup_from_file (Some ?d)" "\<lambda>e es. es @ [e]" 0 "[]"]
    by (auto simp: soup_sources collect_soup_def fold_snoc)
qed

lemma soup_session_round_trip_witness:
  "\<exists>c. collect_soup (soup_from_file (Some (session_bytes [Filler 72 [], Data (encode_message (sample_header, MDelete))]
      @ frame_bytes [end_of_session_packet] @ [1, 2, 3])))
    = Some (c, [(event_of (sample_header, MDelete))\<lparr>ev_sequence := 1\<rparr>]) \<and> sb_end_of_session c \<and> \<not> w_failed c"
proof -
  have d: "decode_message (encode_message (sample_header, MDelete)) = Event (event_of (sample_header, MDelete))"
    using decode_encoded [of "(sample_header, MDelete)" "[]"] by simp
  have "\<forall>p \<in> set [Filler 72 [], Data (encode_message (sample_header, MDelete))]. packet_ok p"
    by (simp add: packet_ok_def framable_def length_encode_message d)
  from soup_session_round_trip [OF this, of "[1, 2, 3]"] show ?thesis
    by (simp add: event_in_def d)
qed

end
