(* ===== verification/DatagramSource.thy ===== *)
theory DatagramSource
  imports ItchDecoder
begin

text \<open>
  The three sources of datagrams: the in-memory list and the file of length-prefixed datagrams of \<^verbatim>\<open>DatagramSource.hpp\<close>,
  and the UDP socket of \<^verbatim>\<open>IoUringDatagramSource.cpp\<close>. A virtual call is a case distinction on the source. The open file
  of the second is the list of its unread bytes and the state of the stream (\<^verbatim>\<open>!input_\<close> after a short read). The socket
  carries what the kernel will answer to its calls, one entry for every receive that completes; when there is
  none left, \<^verbatim>\<open>io_uring_wait_cqe\<close> waits for ever, which the flag \<^verbatim>\<open>ss_blocked\<close> stands for.
\<close>

record memory_source =
  ms_datagrams :: "u8 list list"
  ms_index :: nat

record file_source =
  fs_input :: "u8 list"
  fs_good :: bool
  fs_failed :: bool

record io_uring_source =
  iu_bound_port :: "16 word"
  iu_failed :: bool
  iu_buffer :: "u8 list"

text \<open>
  The answers of the kernel to one receive: whether there is a submission entry, the results of the submission and
  of the wait, the \<^verbatim>\<open>res\<close> of the completion, and the bytes written to the front of the buffer.
\<close>

record socket_call =
  sc_sqe :: bool
  sc_submitted :: int
  sc_waited :: int
  sc_result :: int
  sc_bytes :: "u8 list"

record socket_source =
  ss_source :: io_uring_source
  ss_calls :: "socket_call list"
  ss_blocked :: bool

datatype datagram_source = InMemory memory_source | LengthPrefixed file_source | Socket socket_source

definition from_datagrams :: "u8 list list \<Rightarrow> datagram_source" where
  "from_datagrams dgs = InMemory \<lparr>ms_datagrams = dgs, ms_index = 0\<rparr>"

definition from_datagram_file :: "u8 list option \<Rightarrow> datagram_source" where
  "from_datagram_file path = LengthPrefixed
     (case path of None \<Rightarrow> \<lparr>fs_input = [], fs_good = False, fs_failed = True\<rparr>
      | Some bs \<Rightarrow> \<lparr>fs_input = bs, fs_good = True, fs_failed = False\<rparr>)"

text \<open>A socket as its constructor leaves it, with an empty buffer of 2048 bytes.\<close>

definition from_socket :: "16 word \<Rightarrow> socket_call list \<Rightarrow> datagram_source" where
  "from_socket port calls = Socket \<lparr>ss_source = \<lparr>iu_bound_port = port, iu_failed = False, iu_buffer = replicate 2048 0\<rparr>,
     ss_calls = calls, ss_blocked = False\<rparr>"

definition next_in_memory :: "memory_source \<Rightarrow> u8 list option \<times> memory_source" where
  "next_in_memory m =
     (if ms_index m \<ge> length (ms_datagrams m) then (None, m)
      else (Some (ms_datagrams m ! ms_index m), m\<lparr>ms_index := ms_index m + 1\<rparr>))"

text \<open>\<^verbatim>\<open>input_.read\<close> of \<^verbatim>\<open>n\<close> bytes: what it got; a short read takes what is left and spoils the stream.\<close>

definition read_bytes :: "nat \<Rightarrow> file_source \<Rightarrow> u8 list \<times> file_source" where
  "read_bytes n s = (take n (fs_input s),
     s\<lparr>fs_input := drop n (fs_input s), fs_good := fs_good s \<and> n \<le> length (fs_input s)\<rparr>)"

definition next_in_file :: "file_source \<Rightarrow> u8 list option \<times> file_source" where
  "next_in_file s =
     (if fs_failed s \<or> \<not> fs_good s then (None, s)
      else case read_bytes 4 s of (prefix, s1) \<Rightarrow>
        if length prefix = 0 \<and> \<not> fs_good s1 then (None, s1)
        else if length prefix \<noteq> 4 then (None, s1\<lparr>fs_failed := True\<rparr>)
        else
          let len = unat (read_be32 prefix 0)
          in if len > 0 then
               (case read_bytes len s1 of (body, s2) \<Rightarrow>
                  if length body \<noteq> len then (None, s2\<lparr>fs_failed := True\<rparr>) else (Some body, s2))
             else (Some [], s1))"

definition fill_buffer :: "socket_call \<Rightarrow> io_uring_source \<Rightarrow> io_uring_source" where
  "fill_buffer c src = src\<lparr>iu_buffer := sc_bytes c @ drop (length (sc_bytes c)) (iu_buffer src)\<rparr>"

definition next_on_socket :: "socket_source \<Rightarrow> u8 list option \<times> socket_source" where
  "next_on_socket s =
     (let src = ss_source s
      in if iu_failed src then (None, s)
         else case ss_calls s of
           [] \<Rightarrow> (None, s\<lparr>ss_blocked := True\<rparr>)
         | c # calls \<Rightarrow>
             if \<not> sc_sqe c then (None, s\<lparr>ss_source := src\<lparr>iu_failed := True\<rparr>, ss_calls := calls\<rparr>)
             else if sc_submitted c < 0 then (None, s\<lparr>ss_source := src\<lparr>iu_failed := True\<rparr>, ss_calls := calls\<rparr>)
             else if sc_waited c < 0 then (None, s\<lparr>ss_source := src\<lparr>iu_failed := True\<rparr>, ss_calls := calls\<rparr>)
             else
               let s1 = s\<lparr>ss_source := fill_buffer c src, ss_calls := calls\<rparr>
               in if sc_result c \<le> 0 then (None, s1)
                  else (Some (take (nat (sc_result c)) (iu_buffer (ss_source s1))), s1))"

definition next_datagram :: "datagram_source \<Rightarrow> u8 list option \<times> datagram_source" where
  "next_datagram src = (case src of
       InMemory m \<Rightarrow> (case next_in_memory m of (d, m1) \<Rightarrow> (d, InMemory m1))
     | LengthPrefixed s \<Rightarrow> (case next_in_file s of (d, s1) \<Rightarrow> (d, LengthPrefixed s1))
     | Socket s \<Rightarrow> (case next_on_socket s of (d, s1) \<Rightarrow> (d, Socket s1)))"

definition source_failed :: "datagram_source \<Rightarrow> bool" where
  "source_failed src = (case src of InMemory _ \<Rightarrow> False | LengthPrefixed s \<Rightarrow> fs_failed s | Socket s \<Rightarrow> iu_failed (ss_source s))"

text \<open>The last call of the source does not return.\<close>

definition source_blocked :: "datagram_source \<Rightarrow> bool" where
  "source_blocked src = (case src of Socket s \<Rightarrow> ss_blocked s | _ \<Rightarrow> False)"

section \<open>The datagrams a source still has\<close>

definition source_left :: "datagram_source \<Rightarrow> nat" where
  "source_left src = (case src of InMemory m \<Rightarrow> length (ms_datagrams m) - ms_index m | LengthPrefixed s \<Rightarrow> length (fs_input s)
     | Socket s \<Rightarrow> length (ss_calls s))"

lemma next_datagram_less: "next_datagram src = (Some d, src1) \<Longrightarrow> source_left src1 < source_left src"
  by (cases src) (auto simp: next_datagram_def next_in_memory_def next_in_file_def read_bytes_def next_on_socket_def source_left_def
      Let_def split: prod.splits if_splits list.splits)

text \<open>The datagrams of a file of length-prefixed datagrams, and whether it ends inside one.\<close>

function file_datagrams :: "u8 list \<Rightarrow> u8 list list \<times> bool" where
  "file_datagrams bs =
     (let n = unat (read_be32 bs 0)
      in if bs = [] then ([], False)
         else if length bs < 4 \<or> length bs < 4 + n then ([], True)
         else case file_datagrams (drop (4 + n) bs) of (ds, bad) \<Rightarrow> (take n (drop 4 bs) # ds, bad))"
  by auto

termination
  by (relation "measure length") auto

declare file_datagrams.simps [simp del]

text \<open>The datagrams of a socket up to the end of the stream or to a failed call, and whether it was the latter.\<close>

definition call_fails :: "socket_call \<Rightarrow> bool" where
  "call_fails c \<longleftrightarrow> \<not> sc_sqe c \<or> sc_submitted c < 0 \<or> sc_waited c < 0"

fun socket_datagrams :: "io_uring_source \<Rightarrow> socket_call list \<Rightarrow> u8 list list \<times> bool" where
  "socket_datagrams src [] = ([], False)"
| "socket_datagrams src (c # calls) =
     (if call_fails c then ([], True)
      else if sc_result c \<le> 0 then ([], False)
      else case socket_datagrams (fill_buffer c src) calls of
        (ds, bad) \<Rightarrow> (take (nat (sc_result c)) (iu_buffer (fill_buffer c src)) # ds, bad))"

text \<open>Some call ends the stream: it fails, or its completion is empty or an error.\<close>

definition socket_ends :: "socket_call list \<Rightarrow> bool" where
  "socket_ends calls \<longleftrightarrow> (\<exists>c \<in> set calls. call_fails c \<or> sc_result c \<le> 0)"

definition rest_datagrams :: "datagram_source \<Rightarrow> u8 list list \<times> bool" where
  "rest_datagrams src = (case src of
       InMemory m \<Rightarrow> (drop (ms_index m) (ms_datagrams m), False)
     | LengthPrefixed s \<Rightarrow> if fs_failed s \<or> \<not> fs_good s then ([], fs_failed s) else file_datagrams (fs_input s)
     | Socket s \<Rightarrow> if iu_failed (ss_source s) then ([], True) else socket_datagrams (ss_source s) (ss_calls s))"

lemma read_be32_take: "4 \<le> length bs \<Longrightarrow> read_be32 (take 4 bs) 0 = read_be32 bs 0"
  by (simp add: read_be32_def)

lemma next_in_file_rest:
  assumes "fs_good s" and "\<not> fs_failed s"
  shows "case file_datagrams (fs_input s) of
      ([], bad) \<Rightarrow> fst (next_in_file s) = None \<and> fs_failed (snd (next_in_file s)) = bad
    | (d # ds, bad) \<Rightarrow> fst (next_in_file s) = Some d \<and> fs_good (snd (next_in_file s)) \<and> \<not> fs_failed (snd (next_in_file s))
        \<and> file_datagrams (fs_input (snd (next_in_file s))) = (ds, bad)"
proof -
  let ?bs = "fs_input s" and ?n = "unat (read_be32 (fs_input s) 0)"
  consider (empty) "?bs = []" | (partial) "?bs \<noteq> []" "length ?bs < 4" | (cut) "4 \<le> length ?bs" "length ?bs < 4 + ?n"
    | (whole) "4 + ?n \<le> length ?bs" by linarith
  then show ?thesis
  proof cases
    case empty
    then have "file_datagrams ?bs = ([], False)" by (subst file_datagrams.simps) simp
    then show ?thesis using assms empty by (simp add: next_in_file_def read_bytes_def)
  next
    case partial
    then have "file_datagrams ?bs = ([], True)" by (subst file_datagrams.simps) (simp add: Let_def)
    then show ?thesis using assms partial by (simp add: next_in_file_def read_bytes_def)
  next
    case cut
    then have "file_datagrams ?bs = ([], True)" by (subst file_datagrams.simps) (auto simp: Let_def)
    then show ?thesis
      using assms cut by (auto simp: next_in_file_def read_bytes_def Let_def read_be32_take)
  next
    case whole
    then have bs: "?bs \<noteq> []" "min (length ?bs) 4 = 4" "min (length ?bs - 4) ?n = ?n" by auto
    obtain ds bad where ds: "file_datagrams (drop (4 + ?n) ?bs) = (ds, bad)" by (cases "file_datagrams (drop (4 + ?n) ?bs)")
    have "file_datagrams ?bs = (take ?n (drop 4 ?bs) # ds, bad)"
      using whole bs ds by (subst file_datagrams.simps) (auto simp: Let_def)
    then show ?thesis
      using assms whole bs ds by (auto simp: next_in_file_def read_bytes_def Let_def read_be32_take add.commute)
  qed
qed

lemma next_datagram_rest:
  shows "rest_datagrams src = ([], bad) \<Longrightarrow> fst (next_datagram src) = None \<and> source_failed (snd (next_datagram src)) = bad"
    and "rest_datagrams src = (d # ds, bad) \<Longrightarrow> fst (next_datagram src) = Some d \<and> rest_datagrams (snd (next_datagram src)) = (ds, bad)"
proof -
  have "(rest_datagrams src = ([], bad) \<longrightarrow> fst (next_datagram src) = None \<and> source_failed (snd (next_datagram src)) = bad)
    \<and> (rest_datagrams src = (d # ds, bad) \<longrightarrow> fst (next_datagram src) = Some d \<and> rest_datagrams (snd (next_datagram src)) = (ds, bad))"
  proof (cases src)
    case (InMemory m)
    have "drop (ms_index m) (ms_datagrams m) = d # ds \<Longrightarrow> ms_datagrams m ! ms_index m = d \<and> drop (Suc (ms_index m)) (ms_datagrams m) = ds"
      by (metis Cons_nth_drop_Suc drop_all list.inject list.simps(3) not_le_imp_less)
    then show ?thesis
      by (auto simp: InMemory rest_datagrams_def next_datagram_def next_in_memory_def source_failed_def)
  next
    case (LengthPrefixed s)
    show ?thesis
    proof (cases "fs_good s \<and> \<not> fs_failed s")
      case True
      then show ?thesis
        using next_in_file_rest [of s]
        by (auto simp: LengthPrefixed rest_datagrams_def next_datagram_def source_failed_def split: prod.splits)
    next
      case False
      then show ?thesis
        by (auto simp: LengthPrefixed rest_datagrams_def next_datagram_def next_in_file_def source_failed_def)
    qed
  next
    case (Socket s)
    show ?thesis
    proof (cases "ss_calls s")
      case Nil
      then show ?thesis by (auto simp: Socket rest_datagrams_def next_datagram_def next_on_socket_def source_failed_def Let_def)
    next
      case (Cons c calls)
      then show ?thesis
        by (auto simp: Socket rest_datagrams_def next_datagram_def next_on_socket_def source_failed_def call_fails_def fill_buffer_def
            Let_def split: prod.splits if_splits)
    qed
  qed
  then show "rest_datagrams src = ([], bad) \<Longrightarrow> fst (next_datagram src) = None \<and> source_failed (snd (next_datagram src)) = bad"
    and "rest_datagrams src = (d # ds, bad) \<Longrightarrow> fst (next_datagram src) = Some d \<and> rest_datagrams (snd (next_datagram src)) = (ds, bad)"
    by blast+
qed

text \<open>A source that will not block: no socket, or one whose calls end the stream.\<close>

definition source_ends :: "datagram_source \<Rightarrow> bool" where
  "source_ends src \<longleftrightarrow> (case src of Socket s \<Rightarrow> \<not> ss_blocked s \<and> (iu_failed (ss_source s) \<or> socket_ends (ss_calls s)) | _ \<Rightarrow> True)"

lemma next_datagram_ends:
  assumes "source_ends src" and "next_datagram src = (d, src1)"
  shows "\<not> source_blocked src1" and "d \<noteq> None \<Longrightarrow> source_ends src1"
  using assms
  by (cases src; auto simp: source_ends_def source_blocked_def next_datagram_def next_on_socket_def socket_ends_def call_fails_def Let_def
      split: prod.splits if_splits list.splits)+

text \<open>A socket whose calls end no stream delivers datagrams until it blocks.\<close>

definition source_waits :: "datagram_source \<Rightarrow> bool" where
  "source_waits src \<longleftrightarrow> (case src of Socket s \<Rightarrow> \<not> iu_failed (ss_source s) \<and> \<not> socket_ends (ss_calls s) | _ \<Rightarrow> False)"

lemma next_datagram_waits:
  assumes "source_waits src" and "next_datagram src = (d, src1)"
  shows "d = None \<Longrightarrow> source_blocked src1 \<and> \<not> source_failed src1" and "d \<noteq> None \<Longrightarrow> source_waits src1"
  using assms
  by (cases src; auto simp: source_waits_def source_blocked_def source_failed_def next_datagram_def next_on_socket_def socket_ends_def
      call_fails_def fill_buffer_def Let_def split: prod.splits if_splits list.splits)+

text \<open>A datagram that the kernel delivers, cut at the size of the buffer; the empty one ends the stream.\<close>

definition received_call :: "u8 list \<Rightarrow> socket_call" where
  "received_call d = \<lparr>sc_sqe = True, sc_submitted = 1, sc_waited = 0, sc_result = int (length (take 2048 d)), sc_bytes = take 2048 d\<rparr>"

lemma socket_datagrams_received:
  assumes "\<forall>d \<in> set ds. d \<noteq> [] \<and> length d \<le> 2048"
  shows "socket_datagrams src (map received_call ds @ calls) = (ds @ fst (socket_datagrams (fold fill_buffer (map received_call ds) src) calls),
    snd (socket_datagrams (fold fill_buffer (map received_call ds) src) calls))"
  using assms
proof (induction ds arbitrary: src)
  case (Cons d ds)
  from Cons.IH [of "fill_buffer (received_call d) src"] Cons.prems show ?case
    by (auto simp: received_call_def call_fails_def fill_buffer_def)
qed simp

end
