(* ===== verification/MoldUdp64.thy ===== *)
theory MoldUdp64
  imports DatagramSource ItchFile
begin

text \<open>
  \<^verbatim>\<open>MoldUdp64.hpp\<close> and \<^verbatim>\<open>MoldUdp64Connector\<close>: packets of numbered message blocks, gap detection,
  overlap skipping and recovery from a retransmission source. The retransmission source is an
  interface without an implementation in the library: it is a function from sequence numbers to
  payloads, kept in the state; \<^verbatim>\<open>None\<close> is the null pointer.
\<close>

section \<open>Packets\<close>

definition mold_header_size :: nat where "mold_header_size = 20"
definition mold_end_of_session :: u16 where "mold_end_of_session = 0xFFFF"

record mold_packet =
  mp_data :: "u8 list"
  mp_sequence :: u64
  mp_count :: u16

definition parse_packet :: "u8 list \<Rightarrow> mold_packet option" where
  "parse_packet datagram =
     (if length datagram < mold_header_size then None
      else Some \<lparr>mp_data = datagram, mp_sequence = read_be64 datagram 10, mp_count = read_be16 datagram 18\<rparr>)"

definition end_of_session :: "mold_packet \<Rightarrow> bool" where
  "end_of_session p \<longleftrightarrow> mp_count p = mold_end_of_session"

definition heartbeat :: "mold_packet \<Rightarrow> bool" where
  "heartbeat p \<longleftrightarrow> mp_count p = 0"

text \<open>The payload of the block at an offset and the offset behind it.\<close>

definition read_block :: "mold_packet \<Rightarrow> nat \<Rightarrow> (u8 list \<times> nat) option" where
  "read_block p off =
     (if off + 2 > length (mp_data p) then None
      else let len = unat (read_be16 (mp_data p) off)
           in if off + 2 + len > length (mp_data p) then None
              else Some (take len (drop (off + 2) (mp_data p)), off + 2 + len))"

section \<open>The connector\<close>

record mold =
  md_source :: datagram_source
  md_retransmit :: "(u64 \<Rightarrow> u8 list option) option"
  md_packet :: mold_packet
  md_offset :: nat
  md_local_index :: u16
  md_have_packet :: bool
  md_initialized :: bool
  md_failed :: bool
  md_end_of_session :: bool
  md_recovering :: bool
  md_recover_next :: u64
  md_recover_end :: u64
  md_expected :: u64
  md_last_sequence :: u64
  md_gaps_detected :: u64
  md_messages_missed :: u64
  md_messages_decoded :: nat

definition mold_connector :: "datagram_source \<Rightarrow> (u64 \<Rightarrow> u8 list option) option \<Rightarrow> mold" where
  "mold_connector src retransmit = \<lparr>md_source = src, md_retransmit = retransmit,
     md_packet = \<lparr>mp_data = [], mp_sequence = 0, mp_count = 0\<rparr>, md_offset = 0, md_local_index = 0,
     md_have_packet = False, md_initialized = False, md_failed = False, md_end_of_session = False,
     md_recovering = False, md_recover_next = 0, md_recover_end = 0, md_expected = 0, md_last_sequence = 0,
     md_gaps_detected = 0, md_messages_missed = 0, md_messages_decoded = 0\<rparr>"

lemma unat_Suc_less: "i < (n :: 'a::len word) \<Longrightarrow> unat (i + 1) = Suc (unat i)"
  by (metis add.commute unatSuc add_eq_0_iff word_order.extremum leD add.inverse_inverse)

text \<open>The loop over blocks that were delivered already: \<^verbatim>\<open>False\<close> when the framing is truncated.\<close>

function skip_seen :: "u64 \<Rightarrow> mold \<Rightarrow> bool \<times> mold" where
  "skip_seen already_seen c =
     (if already_seen > 0 \<and> md_local_index c < mp_count (md_packet c) then
        (case read_block (md_packet c) (md_offset c) of
           None \<Rightarrow> (False, c\<lparr>md_failed := True\<rparr>)
         | Some (payload, off) \<Rightarrow>
             skip_seen (already_seen - 1) (c\<lparr>md_offset := off, md_local_index := md_local_index c + 1\<rparr>))
      else (True, c))"
  by auto

termination
  by (relation "measure (\<lambda>(_, c). unat (mp_count (md_packet c)) - unat (md_local_index c))")
    (auto simp: unat_Suc_less word_less_nat_alt)

declare skip_seen.simps [simp del]

text \<open>A packet whose sequence number is compared with the expected one: a gap, an overlap, or neither.\<close>

definition sight_packet :: "u64 \<Rightarrow> mold \<Rightarrow> mold" where
  "sight_packet sq c = (if md_initialized c then c else c\<lparr>md_initialized := True, md_expected := sq\<rparr>)"

definition note_gap :: "u64 \<Rightarrow> mold \<Rightarrow> mold" where
  "note_gap sq c =
     (let c1 = c\<lparr>md_gaps_detected := md_gaps_detected c + 1\<rparr>
      in if md_retransmit c \<noteq> None
         then c1\<lparr>md_recover_next := md_expected c1, md_recover_end := sq, md_recovering := True\<rparr>
         else c1\<lparr>md_messages_missed := md_messages_missed c1 + (sq - md_expected c1), md_expected := sq\<rparr>)"

definition open_packet :: "mold_packet \<Rightarrow> mold \<Rightarrow> mold" where
  "open_packet p c = c\<lparr>md_packet := p, md_offset := mold_header_size, md_local_index := 0\<rparr>"

lemma skip_seen_source: "md_source (snd (skip_seen k c)) = md_source c"
proof (induction k c rule: skip_seen.induct)
  case (1 k c)
  show ?case
    by (subst skip_seen.simps) (use 1 in \<open>auto split: option.split prod.split\<close>)
qed

function load_next_packet :: "mold \<Rightarrow> bool \<times> mold" where
  "load_next_packet c =
     (case next_datagram (md_source c) of
       (None, src) \<Rightarrow>
         (let c1 = c\<lparr>md_source := src\<rparr>
          in (False, if source_failed src then c1\<lparr>md_failed := True\<rparr> else c1))
     | (Some datagram, src) \<Rightarrow>
         (let c1 = c\<lparr>md_source := src\<rparr>
          in case parse_packet datagram of
               None \<Rightarrow> (False, c1\<lparr>md_failed := True\<rparr>)
             | Some p \<Rightarrow>
                 (let c2 = open_packet p c1
                  in if end_of_session p then load_next_packet (c2\<lparr>md_end_of_session := True\<rparr>)
                     else if heartbeat p then load_next_packet c2
                     else
                       let sq = mp_sequence p;
                           c3 = sight_packet sq c2
                       in if sq > md_expected c3 then (True, (note_gap sq c3)\<lparr>md_have_packet := True\<rparr>)
                          else if sq < md_expected c3 then
                            (let r = skip_seen (md_expected c3 - sq) c3; c4 = snd r
                             in if \<not> fst r then (False, c4)
                                else if md_local_index c4 \<ge> mp_count p then load_next_packet c4
                                else (True, c4\<lparr>md_have_packet := True\<rparr>))
                          else (True, c3\<lparr>md_have_packet := True\<rparr>))))"
  by pat_completeness auto

lemma source_opened [frame_simps]:
  "md_source (open_packet p c) = md_source c" "md_source (sight_packet sq c) = md_source c" "md_source (note_gap sq c) = md_source c"
  by (simp_all add: open_packet_def sight_packet_def note_gap_def Let_def)

termination load_next_packet
  by (relation "measure (\<lambda>c. source_left (md_source c))")
    (auto simp: skip_seen_source frame_simps dest: next_datagram_less [OF sym])

declare load_next_packet.simps [simp del]

lemma load_next_packet_less:
  "fst (load_next_packet c) \<Longrightarrow> source_left (md_source (snd (load_next_packet c))) < source_left (md_source c)"
proof (induction c rule: load_next_packet.induct)
  case (1 c)
  obtain d src where nd: "next_datagram (md_source c) = (d, src)" by (cases "next_datagram (md_source c)")
  show ?case
  proof (cases d)
    case None
    with "1.prems" nd show ?thesis by (subst (asm) load_next_packet.simps) (simp add: Let_def)
  next
    case (Some dg)
    then have less: "source_left src < source_left (md_source c)" using nd next_datagram_less by simp
    show ?thesis
    proof (cases "parse_packet dg")
      case None
      with "1.prems" nd Some show ?thesis by (subst (asm) load_next_packet.simps) (simp add: Let_def)
    next
      case (Some p)
      let ?c2 = "open_packet p (c\<lparr>md_source := src\<rparr>)"
      let ?c3 = "sight_packet (mp_sequence p) ?c2"
      let ?r = "skip_seen (md_expected ?c3 - mp_sequence p) ?c3"
      note run = load_next_packet.simps [of c, unfolded nd prod.case \<open>d = Some dg\<close> option.case Let_def Some]
      have src: "md_source ?c3 = src" "md_source ?c2 = src" "md_source (snd ?r) = src"
        by (simp_all add: frame_simps skip_seen_source)
      note IH = "1.IH" [OF nd [symmetric] \<open>d = Some dg\<close> refl Some refl]
      show ?thesis
        using "1.prems" less src IH(1) IH(2) IH(3) [OF _ _ refl refl _ _ refl refl]
        unfolding run
        by (auto simp: frame_simps split: if_splits)
    qed
  qed
qed

text \<open>Asking the retransmission source; \<^verbatim>\<open>recovering_\<close> is only set when there is one.\<close>

definition recover :: "mold \<Rightarrow> u64 \<Rightarrow> u8 list option" where
  "recover c sq = (case md_retransmit c of None \<Rightarrow> None | Some f \<Rightarrow> f sq)"

definition deliver :: "u64 \<Rightarrow> market_data_event \<Rightarrow> mold \<Rightarrow> market_data_event option \<times> mold" where
  "deliver sq e c = (Some (e\<lparr>ev_sequence := sq\<rparr>), c\<lparr>md_messages_decoded := md_messages_decoded c + 1\<rparr>)"

function mold_next :: "mold \<Rightarrow> market_data_event option \<times> mold" where
  "mold_next c =
     (if md_recovering c \<and> md_recover_next c < md_recover_end c then
        (let sq = md_recover_next c;
             c1 = c\<lparr>md_recover_next := sq + 1\<rparr>
         in case recover c1 sq of
              None \<Rightarrow> mold_next (c1\<lparr>md_messages_missed := md_messages_missed c1 + 1\<rparr>)
            | Some payload \<Rightarrow>
                (case decode_message payload of
                   Malformed \<Rightarrow> (None, c1\<lparr>md_failed := True\<rparr>)
                 | Event e \<Rightarrow> deliver sq e (c1\<lparr>md_last_sequence := sq\<rparr>)
                 | Skipped \<Rightarrow> mold_next c1))
      else
        let c1 = c\<lparr>md_recovering := False\<rparr>
        in if \<not> md_have_packet c1 \<or> md_local_index c1 \<ge> mp_count (md_packet c1) then
             (let r = load_next_packet (c1\<lparr>md_have_packet := False\<rparr>)
              in if \<not> fst r then (None, snd r) else mold_next (snd r))
           else
             (case read_block (md_packet c1) (md_offset c1) of
                None \<Rightarrow> (None, c1\<lparr>md_failed := True\<rparr>)
              | Some (payload, off) \<Rightarrow>
                  (let sq = mp_sequence (md_packet c1) + ucast (md_local_index c1);
                       c2 = c1\<lparr>md_offset := off, md_local_index := md_local_index c1 + 1,
                               md_expected := sq + 1, md_last_sequence := sq\<rparr>
                   in case decode_message payload of
                        Malformed \<Rightarrow> (None, c2\<lparr>md_failed := True\<rparr>)
                      | Event e \<Rightarrow> deliver sq e c2
                      | Skipped \<Rightarrow> mold_next c2)))"
  by pat_completeness auto

definition recover_left :: "mold \<Rightarrow> nat" where
  "recover_left c = (if md_recovering c then unat (md_recover_end c) - unat (md_recover_next c) else 0)"

definition blocks_left :: "mold \<Rightarrow> nat" where
  "blocks_left c = unat (mp_count (md_packet c)) - unat (md_local_index c)"

termination mold_next
proof (relation "measures [\<lambda>c. source_left (md_source c), recover_left, blocks_left]", goal_cases)
  case 1
  show ?case by simp
next
  case (2 c sq c1)
  then show ?case
    using unat_Suc_less [of "md_recover_next c" "md_recover_end c"] by (auto simp: recover_left_def word_less_nat_alt)
next
  case (3 c sq c1)
  then show ?case
    using unat_Suc_less [of "md_recover_next c" "md_recover_end c"] by (auto simp: recover_left_def word_less_nat_alt)
next
  case (4 c c1 r)
  then show ?case using load_next_packet_less [of "c1\<lparr>md_have_packet := False\<rparr>"] by simp
next
  case (5 c c1 x2 payload off sq c2)
  then show ?case 
    using unat_Suc_less [of "md_local_index c" "mp_count (md_packet c)"]
    by (auto simp: recover_left_def blocks_left_def word_less_nat_alt not_le)
qed

declare mold_next.simps [simp del]

end
