(* ===== verification/MoldSpec.thy ===== *)
theory MoldSpec
  imports MoldUdp64
begin

text \<open>
  What a MoldUDP64 feed delivers, as a function of the datagrams: the list of things that happen, in
  order (\<^verbatim>\<open>mold_item\<close>), and what a reader makes of such a list (\<^verbatim>\<open>view\<close>). \<^verbatim>\<open>mold_next\<close> with its packet cursor,
  skip loop and recovery cursor is shown to read exactly this.
\<close>

section \<open>The feed as a list of items\<close>

fun blocks :: "mold_packet \<Rightarrow> nat \<Rightarrow> nat \<Rightarrow> u8 list list \<times> bool" where
  "blocks p off 0 = ([], True)"
| "blocks p off (Suc n) = (case read_block p off of
     None \<Rightarrow> ([], False)
   | Some (x, off1) \<Rightarrow> (case blocks p off1 n of (xs, ok) \<Rightarrow> (x # xs, ok)))"

text \<open>A message and its number: \<^verbatim>\<open>True\<close> when it came in a packet, \<^verbatim>\<open>False\<close> when it was recovered.\<close>

datatype mold_item =
    Message bool u64 "u8 list"
  | Unrecovered
  | GapFound
  | Missing u64
  | SessionEnd
  | BrokenFrame

fun messages :: "bool \<Rightarrow> u64 \<Rightarrow> u8 list list \<Rightarrow> mold_item list" where
  "messages live sq [] = []"
| "messages live sq (x # xs) = Message live sq x # messages live (sq + 1) xs"

definition recover_from :: "(u64 \<Rightarrow> u8 list option) option \<Rightarrow> u64 \<Rightarrow> u8 list option" where
  "recover_from rt sq = (case rt of None \<Rightarrow> None | Some f \<Rightarrow> f sq)"

fun recovered :: "(u64 \<Rightarrow> u8 list option) option \<Rightarrow> u64 \<Rightarrow> nat \<Rightarrow> mold_item list" where
  "recovered rt sq 0 = []"
| "recovered rt sq (Suc n) =
     (case recover_from rt sq of None \<Rightarrow> Unrecovered | Some p \<Rightarrow> Message False sq p) # recovered rt (sq + 1) n"

definition gap_items :: "(u64 \<Rightarrow> u8 list option) option \<Rightarrow> u64 \<Rightarrow> u64 \<Rightarrow> mold_item list" where
  "gap_items rt ex sq = GapFound # (if rt = None then [Missing (sq - ex)] else recovered rt ex (unat (sq - ex)))"

text \<open>\<^verbatim>\<open>None\<close> for the expected number: no packet has been sighted yet.\<close>

fun items_of :: "(u64 \<Rightarrow> u8 list option) option \<Rightarrow> u64 option \<Rightarrow> u8 list list \<Rightarrow> bool \<Rightarrow> mold_item list" where
  "items_of rt st [] bad = (if bad then [BrokenFrame] else [])"
| "items_of rt st (d # ds) bad = (case parse_packet d of
     None \<Rightarrow> [BrokenFrame]
   | Some p \<Rightarrow>
       if end_of_session p then SessionEnd # items_of rt st ds bad
       else if heartbeat p then items_of rt st ds bad
       else
         let sq = mp_sequence p;
             ex = (case st of None \<Rightarrow> sq | Some e \<Rightarrow> e);
             n = unat (mp_count p);
             bl = blocks p mold_header_size n;
             after = sq + ucast (mp_count p);
             k = unat (ex - sq)
         in if sq > ex then
              gap_items rt ex sq @ messages True sq (fst bl) @ (if snd bl then items_of rt (Some after) ds bad else [BrokenFrame])
            else
              drop k (messages True sq (fst bl)) @
                (if snd bl then items_of rt (Some (if k \<ge> n then ex else after)) ds bad else [BrokenFrame]))"

record mold_totals =
  mt_failed :: bool
  mt_gaps :: u64
  mt_missed :: u64
  mt_ended :: bool
  mt_decoded :: nat
  mt_last :: u64

text \<open>
  The number of a message that came in a packet is the last sequence number whatever the message is, the
  number of a recovered one only when the message is an event.
\<close>

definition sighted_at :: "bool \<Rightarrow> u64 \<Rightarrow> mold_totals \<Rightarrow> mold_totals" where
  "sighted_at live sq t = (if live then t\<lparr>mt_last := sq\<rparr> else t)"

fun view :: "mold_item list \<Rightarrow> mold_totals \<Rightarrow> market_data_event list \<times> mold_totals" where
  "view [] t = ([], t)"
| "view (Message live sq p # is) t = (case decode_message p of
     Malformed \<Rightarrow> ([], (sighted_at live sq t)\<lparr>mt_failed := True\<rparr>)
   | Event e \<Rightarrow> (case view is (t\<lparr>mt_decoded := mt_decoded t + 1, mt_last := sq\<rparr>) of (es, t1) \<Rightarrow> (e\<lparr>ev_sequence := sq\<rparr> # es, t1))
   | Skipped \<Rightarrow> view is (sighted_at live sq t))"
| "view (Unrecovered # is) t = view is (t\<lparr>mt_missed := mt_missed t + 1\<rparr>)"
| "view (GapFound # is) t = view is (t\<lparr>mt_gaps := mt_gaps t + 1\<rparr>)"
| "view (Missing n # is) t = view is (t\<lparr>mt_missed := mt_missed t + n\<rparr>)"
| "view (SessionEnd # is) t = view is (t\<lparr>mt_ended := True\<rparr>)"
| "view (BrokenFrame # is) t = ([], t\<lparr>mt_failed := True\<rparr>)"

text \<open>The messages counted are the events delivered.\<close>

lemma view_decoded: "mt_decoded (snd (view is t)) = mt_decoded t + length (fst (view is t))"
  by (induction "is" t rule: view.induct) (auto simp: sighted_at_def split: decode_result.split prod.split)

section \<open>The items a connector state still holds\<close>

definition totals :: "mold \<Rightarrow> mold_totals" where
  "totals c = \<lparr>mt_failed = md_failed c, mt_gaps = md_gaps_detected c, mt_missed = md_messages_missed c,
     mt_ended = md_end_of_session c, mt_decoded = md_messages_decoded c, mt_last = md_last_sequence c\<rparr>"

definition sighted :: "mold \<Rightarrow> u64 option" where
  "sighted c = (if md_initialized c then Some (md_expected c) else None)"

definition future :: "mold \<Rightarrow> u64 option \<Rightarrow> mold_item list" where
  "future c st = items_of (md_retransmit c) st (fst (rest_datagrams (md_source c))) (snd (rest_datagrams (md_source c)))"

definition current :: "mold \<Rightarrow> mold_item list" where
  "current c =
     (if md_have_packet c \<and> md_local_index c < mp_count (md_packet c) then
        let bl = blocks (md_packet c) (md_offset c) (blocks_left c)
        in messages True (mp_sequence (md_packet c) + ucast (md_local_index c)) (fst bl)
             @ (if snd bl then future c (Some (mp_sequence (md_packet c) + ucast (mp_count (md_packet c)))) else [BrokenFrame])
      else future c (sighted c))"

definition mold_items :: "mold \<Rightarrow> mold_item list" where
  "mold_items c =
     (if md_recovering c \<and> md_recover_next c < md_recover_end c
      then recovered (md_retransmit c) (md_recover_next c) (recover_left c) else []) @ current c"

definition state_view :: "mold \<Rightarrow> market_data_event list \<times> mold_totals" where
  "state_view c = view (mold_items c) (totals c)"

definition mold_ok :: "mold \<Rightarrow> bool" where
  "mold_ok c \<longleftrightarrow> (md_have_packet c \<longrightarrow> md_initialized c)"

section \<open>The skip loop\<close>

lemma blocks_ok_length: "snd (blocks p off n) \<Longrightarrow> length (fst (blocks p off n)) = n"
  by (induction p off n rule: blocks.induct) (auto split: option.splits prod.splits)

lemma blocks_length_le: "length (fst (blocks p off n)) \<le> n"
  by (induction p off n rule: blocks.induct) (auto split: option.splits prod.splits)

lemma blocks_full: "n \<le> length (fst (blocks p off n)) \<Longrightarrow> snd (blocks p off n)"
  by (induction p off n rule: blocks.induct) (auto split: option.splits prod.splits)

lemma messages_drop: "drop k (messages live sq xs) = messages live (sq + word_of_nat k) (drop k xs)"
  by (induction xs arbitrary: sq k) (auto simp: drop_Cons split: nat.split simp flip: add.assoc intro: arg_cong2 [where f = messages])

lemma length_messages [simp]: "length (messages live sq xs) = length xs"
  by (induction xs arbitrary: sq) simp_all

lemma skip_seen_ok:
  assumes "unat (md_local_index c) \<le> unat (mp_count (md_packet c))"
  shows "let n = min (unat k) (blocks_left c);
             ms = fst (blocks (md_packet c) (md_offset c) (blocks_left c));
             ok = snd (blocks (md_packet c) (md_offset c) (blocks_left c));
             r = skip_seen k c
         in if n \<le> length ms
            then fst r \<and> (\<exists>off. snd r = c\<lparr>md_offset := off, md_local_index := md_local_index c + word_of_nat n\<rparr>
                   \<and> blocks (md_packet c) off (blocks_left c - n) = (drop n ms, ok))
            else \<not> fst r \<and> \<not> ok \<and> (\<exists>off i. snd r = c\<lparr>md_offset := off, md_local_index := i, md_failed := True\<rparr>)"
  using assms
proof (induction k c rule: skip_seen.induct)
  case (1 k c)
  show ?case
  proof (cases "k > 0 \<and> md_local_index c < mp_count (md_packet c)")
    case False
    then have "skip_seen k c = (True, c)" by (subst skip_seen.simps) auto
    moreover have "min (unat k) (blocks_left c) = 0"
      using False by (auto simp: blocks_left_def word_less_nat_alt word_gt_0 min_def)
    ultimately show ?thesis by (auto intro!: exI [of _ "md_offset c"])
  next
    case True
    then obtain m where m: "blocks_left c = Suc m"
      by (metis blocks_left_def not0_implies_Suc word_less_nat_alt zero_less_diff not_less_zero)
    have k: "unat k = Suc (unat (k - 1))"
      using True by (metis Suc_pred' unat_gt_0 unat_minus_one word_neq_0_conv)
    show ?thesis
    proof (cases "read_block (md_packet c) (md_offset c)")
      case None
      then have "skip_seen k c = (False, c\<lparr>md_failed := True\<rparr>)"
        using True by (subst skip_seen.simps) simp
      then show ?thesis using None m k by (auto intro!: exI [of _ "md_offset c"] exI [of _ "md_local_index c"])
    next
      case (Some b)
      obtain x off where b: "b = (x, off)" by (cases b)
      let ?c = "c\<lparr>md_offset := off, md_local_index := md_local_index c + 1\<rparr>"
      have step: "skip_seen k c = skip_seen (k - 1) ?c"
        using True Some b by (subst skip_seen.simps) simp
      have i: "unat (md_local_index c + 1) = Suc (unat (md_local_index c))"
        using True unat_Suc_less by blast
      have left: "blocks_left ?c = m" using m i by (simp add: blocks_left_def)
      have IH: "let n = min (unat (k - 1)) m; ms = fst (blocks (md_packet c) off m); ok = snd (blocks (md_packet c) off m);
             r = skip_seen (k - 1) ?c
         in if n \<le> length ms
            then fst r \<and> (\<exists>off1. snd r = ?c\<lparr>md_offset := off1, md_local_index := md_local_index ?c + word_of_nat n\<rparr>
                   \<and> blocks (md_packet c) off1 (m - n) = (drop n ms, ok))
            else \<not> fst r \<and> \<not> ok \<and> (\<exists>off1 i. snd r = ?c\<lparr>md_offset := off1, md_local_index := i, md_failed := True\<rparr>)"
        using "1.IH" [OF True Some b [symmetric]] left True i by (simp add: word_less_nat_alt Let_def cong: if_cong)
      obtain ms ok where bl: "blocks (md_packet c) off m = (ms, ok)" by (cases "blocks (md_packet c) off m")
      show ?thesis
        using IH unfolding step m k
        by (auto simp: Some b bl Let_def add.assoc split: if_splits)
    qed
  qed
qed

section \<open>Loading a packet\<close>

definition load_ok :: "mold \<Rightarrow> bool \<times> mold \<Rightarrow> bool" where
  "load_ok c r \<longleftrightarrow> mold_ok (snd r) \<and>
     view (future c (sighted c)) (totals c) = (if fst r then state_view (snd r) else ([], totals (snd r)))"

lemma totals_updates [frame_simps]:
  "totals (c\<lparr>md_source := src\<rparr>) = totals c" "totals (open_packet p c) = totals c"
  "totals (sight_packet sq c) = totals c" "totals (c\<lparr>md_have_packet := b\<rparr>) = totals c"
  "totals (c\<lparr>md_recovering := b\<rparr>) = totals c" "totals (c\<lparr>md_recover_next := sq\<rparr>) = totals c"
  "totals (c\<lparr>md_last_sequence := sq\<rparr>) = (totals c)\<lparr>mt_last := sq\<rparr>"
  "totals (c\<lparr>md_failed := True\<rparr>) = (totals c)\<lparr>mt_failed := True\<rparr>"
  "totals (c\<lparr>md_end_of_session := True\<rparr>) = (totals c)\<lparr>mt_ended := True\<rparr>"
  by (simp_all add: totals_def open_packet_def sight_packet_def)

lemma future_updates [frame_simps]:
  "future (open_packet p c) st = future c st" "future (sight_packet sq c) st = future c st"
  "future (note_gap sq c) st = future c st"
  "future (c\<lparr>md_have_packet := b\<rparr>) st = future c st" "future (c\<lparr>md_recovering := b\<rparr>) st = future c st"
  "future (c\<lparr>md_recover_next := n\<rparr>) st = future c st"
  "future (c\<lparr>md_offset := off\<rparr>) st = future c st" "future (c\<lparr>md_local_index := i\<rparr>) st = future c st"
  "future (c\<lparr>md_end_of_session := b\<rparr>) st = future c st"
  by (simp_all add: future_def open_packet_def sight_packet_def note_gap_def Let_def)

lemma future_step:
  assumes "next_datagram (md_source c) = (d, src)"
  shows "case d of
      None \<Rightarrow> future c st = (if source_failed src then [BrokenFrame] else [])
    | Some dg \<Rightarrow> future c st = items_of (md_retransmit c) st (dg # fst (rest_datagrams src)) (snd (rest_datagrams src))"
proof -
  obtain ds bad where r: "rest_datagrams (md_source c) = (ds, bad)" by (cases "rest_datagrams (md_source c)")
  show ?thesis
  proof (cases ds)
    case Nil
    then show ?thesis
      using next_datagram_rest(1) [of "md_source c" bad] r assms by (auto simp: future_def)
  next
    case (Cons dg ds')
    then show ?thesis
      using next_datagram_rest(2) [of "md_source c" dg ds' bad] r assms by (auto simp: future_def)
  qed
qed

text \<open>A packet that has just been opened, in the three positions it can have.\<close>

definition just_opened :: "mold_packet \<Rightarrow> mold \<Rightarrow> bool" where
  "just_opened p c \<longleftrightarrow> \<not> md_have_packet c \<and> \<not> md_recovering c \<and> md_initialized c \<and> md_packet c = p
     \<and> md_offset c = mold_header_size \<and> md_local_index c = 0 \<and> 0 < mp_count p"

definition packet_items :: "mold_packet \<Rightarrow> mold \<Rightarrow> mold_item list" where
  "packet_items p c = (let bl = blocks p mold_header_size (unat (mp_count p))
     in messages True (mp_sequence p) (fst bl) @ (if snd bl then future c (Some (mp_sequence p + ucast (mp_count p))) else [BrokenFrame]))"

lemma current_opened:
  "just_opened p c \<Longrightarrow> current (c\<lparr>md_have_packet := True\<rparr>) = packet_items p c"
  by (simp add: just_opened_def current_def packet_items_def blocks_left_def frame_simps Let_def cong: if_cong)

lemma opened_at_once:
  "just_opened p c \<Longrightarrow> mold_ok (c\<lparr>md_have_packet := True\<rparr>)
    \<and> state_view (c\<lparr>md_have_packet := True\<rparr>) = view (packet_items p c) (totals c)"
  using current_opened [of p c] by (simp add: state_view_def mold_items_def just_opened_def mold_ok_def frame_simps)

lemma opened_after_gap:
  assumes "just_opened p c" and "md_expected c < sq"
  shows "mold_ok ((note_gap sq c)\<lparr>md_have_packet := True\<rparr>)
    \<and> state_view ((note_gap sq c)\<lparr>md_have_packet := True\<rparr>) = view (gap_items (md_retransmit c) (md_expected c) sq @ packet_items p c) (totals c)"
proof -
  let ?g = "(note_gap sq c)\<lparr>md_have_packet := True\<rparr>"
  have cur: "current ?g = packet_items p c"
    using assms(1)
    by (auto simp: just_opened_def current_def packet_items_def blocks_left_def note_gap_def future_def Let_def)
  show ?thesis
  proof (cases "md_retransmit c")
    case None
    then have "mold_items ?g = packet_items p c" "totals ?g = (totals c)\<lparr>mt_gaps := mt_gaps (totals c) + 1,
        mt_missed := mt_missed (totals c) + (sq - md_expected c)\<rparr>"
      using assms cur by (simp_all add: mold_items_def note_gap_def just_opened_def totals_def Let_def)
    then show ?thesis
      using assms None by (simp add: state_view_def gap_items_def mold_ok_def note_gap_def just_opened_def Let_def)
  next
    case (Some f)
    have "unat (sq - md_expected c) = unat sq - unat (md_expected c)"
      using assms(2) by (intro unat_sub_le) simp
    then have "mold_items ?g = recovered (md_retransmit c) (md_expected c) (unat (sq - md_expected c)) @ packet_items p c"
      "totals ?g = (totals c)\<lparr>mt_gaps := mt_gaps (totals c) + 1\<rparr>"
      using assms Some cur by (simp_all add: mold_items_def note_gap_def just_opened_def totals_def recover_left_def Let_def)
    then show ?thesis
      using assms Some by (simp add: state_view_def gap_items_def mold_ok_def note_gap_def just_opened_def Let_def)
  qed
qed

text \<open>An overlap: the skip loop either runs into a broken block, or past the packet, or stops in it.\<close>

lemma opened_after_overlap:
  assumes "just_opened p c" and r_def: "r = skip_seen k c"
  defines "n \<equiv> unat (mp_count p)" and "bl \<equiv> blocks p mold_header_size (unat (mp_count p))"
    and "after \<equiv> mp_sequence p + ucast (mp_count p)"
  shows "\<not> fst r \<Longrightarrow> mold_ok (snd r) \<and> totals (snd r) = (totals c)\<lparr>mt_failed := True\<rparr> \<and> \<not> snd bl \<and> length (fst bl) < unat k"
    and "fst r \<Longrightarrow> mp_count p \<le> md_local_index (snd r) \<Longrightarrow> \<not> md_have_packet (snd r) \<and> \<not> md_recovering (snd r) \<and> totals (snd r) = totals c
      \<and> sighted (snd r) = Some (md_expected c) \<and> future (snd r) st = future c st \<and> snd bl \<and> n \<le> unat k \<and> length (fst bl) = n"
    and "fst r \<Longrightarrow> md_local_index (snd r) < mp_count p \<Longrightarrow> mold_ok ((snd r)\<lparr>md_have_packet := True\<rparr>)
      \<and> unat k < n \<and> state_view ((snd r)\<lparr>md_have_packet := True\<rparr>)
         = view (drop (unat k) (messages True (mp_sequence p) (fst bl)) @ (if snd bl then future c (Some after) else [BrokenFrame])) (totals c)"
proof -
  have c: "md_packet c = p" "md_offset c = mold_header_size" "md_local_index c = 0" "blocks_left c = n"
    "\<not> md_have_packet c" "\<not> md_recovering c" "md_initialized c" "0 < n"
    using assms(1) by (simp_all add: just_opened_def blocks_left_def n_def unat_gt_0 word_gt_0)
  have n16: "n < 2 ^ 16" using unsigned_less [of "mp_count p", where 'a = nat] by (simp add: n_def)
  define m where "m = min (unat k) n"
  have m16: "unat (word_of_nat m :: u16) = m" using n16 by (simp add: m_def unat_of_nat)
  have len: "snd bl \<Longrightarrow> length (fst bl) = n" using blocks_ok_length by (simp add: bl_def n_def)
  have stop: "if m \<le> length (fst bl)
      then fst r \<and> (\<exists>off. snd r = c\<lparr>md_offset := off, md_local_index := word_of_nat m\<rparr> \<and> blocks p off (n - m) = (drop m (fst bl), snd bl))
      else \<not> fst r \<and> \<not> snd bl \<and> (\<exists>off i. snd r = c\<lparr>md_offset := off, md_local_index := i, md_failed := True\<rparr>)"
    using skip_seen_ok [of c k] by (simp add: c Let_def m_def r_def bl_def cong: if_cong flip: n_def)
  show "mold_ok (snd r) \<and> totals (snd r) = (totals c)\<lparr>mt_failed := True\<rparr> \<and> \<not> snd bl \<and> length (fst bl) < unat k" if "\<not> fst r"
    using stop that c by (auto simp: mold_ok_def totals_def m_def split: if_splits)
  have local: "unat (md_local_index (snd r)) = m" if "fst r"
    using stop that m16 by (auto split: if_splits)
  show "\<not> md_have_packet (snd r) \<and> \<not> md_recovering (snd r) \<and> totals (snd r) = totals c
      \<and> sighted (snd r) = Some (md_expected c) \<and> future (snd r) st = future c st \<and> snd bl \<and> n \<le> unat k \<and> length (fst bl) = n"
    if f: "fst r" and i: "mp_count p \<le> md_local_index (snd r)"
  proof -
    have "n \<le> m" using local [OF f] i by (simp add: word_le_nat_alt n_def)
    then have mn: "m = n" "n \<le> unat k" by (simp_all add: m_def)
    moreover have "snd bl \<and> length (fst bl) = n"
    proof -
      have "length (fst bl) \<le> n" unfolding bl_def n_def by (rule blocks_length_le)
      moreover have "n \<le> length (fst bl)" using stop f mn by (auto split: if_splits)
      ultimately show ?thesis using blocks_full [of n p mold_header_size] by (simp add: bl_def n_def)
    qed
    ultimately show ?thesis
      using stop f c by (auto simp: totals_def sighted_def future_def split: if_splits)
  qed
  show "mold_ok ((snd r)\<lparr>md_have_packet := True\<rparr>)
      \<and> unat k < n \<and> state_view ((snd r)\<lparr>md_have_packet := True\<rparr>)
         = view (drop (unat k) (messages True (mp_sequence p) (fst bl)) @ (if snd bl then future c (Some after) else [BrokenFrame])) (totals c)"
    if f: "fst r" and i: "md_local_index (snd r) < mp_count p"
  proof -
    have "m < n" using local [OF f] i by (simp add: word_less_nat_alt n_def)
    then have mk: "m = unat k" "unat k < n" by (auto simp: m_def min_def split: if_splits)
    obtain off where r: "snd r = c\<lparr>md_offset := off, md_local_index := word_of_nat m\<rparr>"
      and b: "blocks p off (n - m) = (drop m (fst bl), snd bl)"
      using stop f by (auto split: if_splits)
    let ?h = "(snd r)\<lparr>md_have_packet := True\<rparr>"
    have "ucast (word_of_nat m :: u16) = (word_of_nat m :: u64)"
      using m16 by (metis of_nat_unat)
    then have "current ?h = messages True (mp_sequence p + word_of_nat m) (drop m (fst bl)) @ (if snd bl then future c (Some after) else [BrokenFrame])"
      using c i b m16 by (simp add: r current_def blocks_left_def after_def frame_simps n_def)
    then show ?thesis
      using c mk by (simp add: state_view_def mold_items_def mold_ok_def r totals_def messages_drop)
  qed
qed

lemma load_next_packet_ok:
  assumes "\<not> md_have_packet c" and "\<not> md_recovering c"
  shows "load_ok c (load_next_packet c)"
  using assms
proof (induction c rule: load_next_packet.induct)
  case (1 c)
  obtain d src where nd: "next_datagram (md_source c) = (d, src)" by (cases "next_datagram (md_source c)")
  show ?case
  proof (cases d)
    case None
    have run: "load_next_packet c = (False, if source_failed src then c\<lparr>md_source := src, md_failed := True\<rparr> else c\<lparr>md_source := src\<rparr>)"
      by (subst load_next_packet.simps) (simp add: nd None Let_def)
    show ?thesis
      using future_step [OF nd, of "sighted c"] "1.prems"
      by (simp add: run None load_ok_def mold_ok_def frame_simps)
  next
    case d: (Some dg)
    let ?c1 = "c\<lparr>md_source := src\<rparr>"
    have fut: "future c st = items_of (md_retransmit c) st (dg # fst (rest_datagrams src)) (snd (rest_datagrams src))" for st
      using future_step [OF nd, of st] d by simp
    have fut1: "future ?c1 st = items_of (md_retransmit c) st (fst (rest_datagrams src)) (snd (rest_datagrams src))" for st
      by (simp add: future_def)
    show ?thesis
    proof (cases "parse_packet dg")
      case None
      have run: "load_next_packet c = (False, ?c1\<lparr>md_failed := True\<rparr>)"
        by (subst load_next_packet.simps) (simp add: nd d None Let_def)
      show ?thesis using "1.prems" by (simp add: run fut None load_ok_def mold_ok_def frame_simps)
    next
      case p: (Some p)
      note run = load_next_packet.simps [of c, unfolded nd prod.case d option.case Let_def p]
      note IH = "1.IH" [OF nd [symmetric] d refl p refl]
      let ?c2 = "open_packet p ?c1"
      have c2: "\<not> md_have_packet ?c2" "\<not> md_recovering ?c2" "sighted ?c2 = sighted c" "md_retransmit ?c2 = md_retransmit c"
        using "1.prems" by (simp_all add: open_packet_def sighted_def)
      consider (eos) "end_of_session p" | (hb) "\<not> end_of_session p" "heartbeat p"
        | (data) "\<not> end_of_session p" "\<not> heartbeat p" by blast
      then show ?thesis
      proof cases
        case eos
        have "load_ok (?c2\<lparr>md_end_of_session := True\<rparr>) (load_next_packet (?c2\<lparr>md_end_of_session := True\<rparr>))"
          using IH(1) [OF eos] c2 by simp
        moreover have "sighted (?c2\<lparr>md_end_of_session := True\<rparr>) = sighted c"
          by (simp add: sighted_def open_packet_def)
        ultimately show ?thesis
          using eos by (simp add: run fut p load_ok_def frame_simps fut1)
      next
        case hb
        have "load_ok ?c2 (load_next_packet ?c2)" using IH(2) [OF hb] c2 by simp
        then show ?thesis using hb c2 by (simp add: run fut p load_ok_def frame_simps fut1)
      next
        case data
        define sq where "sq = mp_sequence p"
        define c3 where "c3 = sight_packet sq ?c2"
        define ex where "ex = md_expected c3"
        define n where "n = unat (mp_count p)"
        define bl where "bl = blocks p mold_header_size n"
        define after where "after = sq + ucast (mp_count p)"
        have n: "0 < n" using data(2) by (simp add: n_def heartbeat_def unat_gt_0)
        have ex: "ex = (case sighted c of None \<Rightarrow> sq | Some e \<Rightarrow> e)"
          by (simp add: ex_def c3_def sighted_def sight_packet_def open_packet_def)
        have c3: "just_opened p c3" "md_retransmit c3 = md_retransmit c" "totals c3 = totals c" "md_expected c3 = ex"
          using "1.prems" data(2) by (auto simp: just_opened_def heartbeat_def word_gt_0 c3_def sight_packet_def open_packet_def totals_def sighted_def ex_def)
        have fut3: "future c3 st = future ?c1 st" for st by (simp add: c3_def frame_simps)
        have items: "future c (sighted c) =
            (if ex < sq then gap_items (md_retransmit c) ex sq @ messages True sq (fst bl) @ (if snd bl then future c3 (Some after) else [BrokenFrame])
             else drop (unat (ex - sq)) (messages True sq (fst bl)) @
                (if snd bl then future c3 (Some (if n \<le> unat (ex - sq) then ex else after)) else [BrokenFrame]))"
          using data by (simp add: fut p fut3 fut1 ex [symmetric] flip: sq_def n_def)
            (simp add: Let_def ex [symmetric] bl_def after_def)
        have run': "load_next_packet c =
            (if ex < sq then (True, (note_gap sq c3)\<lparr>md_have_packet := True\<rparr>)
             else if sq < ex then
               (if \<not> fst (skip_seen (ex - sq) c3) then (False, snd (skip_seen (ex - sq) c3))
                else if md_local_index (snd (skip_seen (ex - sq) c3)) \<ge> mp_count p then load_next_packet (snd (skip_seen (ex - sq) c3))
                else (True, (snd (skip_seen (ex - sq) c3))\<lparr>md_have_packet := True\<rparr>))
             else (True, c3\<lparr>md_have_packet := True\<rparr>))"
          using data by (simp add: run flip: sq_def c3_def ex_def)
        consider (gap) "ex < sq" | (overlap) "sq < ex" | (level) "ex = sq" by (metis linorder_neqE)
        then show ?thesis
        proof cases
          case gap
          then show ?thesis
            unfolding run' load_ok_def items using opened_after_gap [OF c3(1) gap [unfolded ex_def]]
            by (simp add: packet_items_def c3 bl_def n_def after_def sq_def flip: ex_def)
        next
          case level
          then show ?thesis
            unfolding run' load_ok_def items using opened_at_once [OF c3(1)]
            using n by (simp add: packet_items_def c3 bl_def n_def after_def sq_def Let_def)
        next
          case overlap
          define r where "r = skip_seen (ex - sq) c3"
          note ov = opened_after_overlap [OF c3(1) r_def]
          have run2: "load_next_packet c = (if \<not> fst r then (False, snd r)
              else if mp_count p \<le> md_local_index (snd r) then load_next_packet (snd r)
              else (True, (snd r)\<lparr>md_have_packet := True\<rparr>))"
            using overlap unfolding run' r_def by (auto dest: less_asym)
          have items2: "future c (sighted c) = drop (unat (ex - sq)) (messages True sq (fst bl)) @
                (if snd bl then future c3 (Some (if n \<le> unat (ex - sq) then ex else after)) else [BrokenFrame])"
            using less_not_sym [OF overlap] by (simp add: items)
          consider (bad) "\<not> fst r" | (past) "fst r" "mp_count p \<le> md_local_index (snd r)"
            | (inside) "fst r" "md_local_index (snd r) < mp_count p" by (meson not_le)
          then show ?thesis
          proof cases
            case bad
            then show ?thesis
              unfolding run2 load_ok_def items2 using ov(1) by (simp add: c3 flip: bl_def n_def)
          next
            case past
            have "load_ok (snd r) (load_next_packet (snd r))"
              unfolding r_def ex_def c3_def sq_def
              by (rule IH(3) [OF data refl refl _ _ refl refl])
                (use overlap past ov(2) [OF past] in \<open>auto simp: r_def c3_def sq_def ex_def\<close>)
            then show ?thesis
              unfolding run2 load_ok_def items2 using past ov(2) [OF past, folded n_def, folded bl_def] by (simp add: c3)
          next
            case inside
            then show ?thesis
              unfolding run2 load_ok_def items2 using ov(3) [OF inside] inside(2) [folded not_le] by (simp add: c3 sq_def after_def flip: bl_def n_def)
          qed
        qed
      qed
    qed
  qed
qed

section \<open>One call of next\<close>

definition call_ok :: "mold \<Rightarrow> market_data_event option \<times> mold \<Rightarrow> bool" where
  "call_ok c r \<longleftrightarrow> mold_ok (snd r) \<and> state_view c = (case fst r of
       None \<Rightarrow> ([], totals (snd r))
     | Some e \<Rightarrow> (e # fst (state_view (snd r)), snd (state_view (snd r))))"

lemma call_cong: "state_view g = state_view f \<Longrightarrow> call_ok g r = call_ok f r"
  by (simp add: call_ok_def)

lemma current_updates [frame_simps]:
  "current (c\<lparr>md_recover_next := n\<rparr>) = current c" "current (c\<lparr>md_messages_decoded := d\<rparr>) = current c"
  "current (c\<lparr>md_recovering := b\<rparr>) = current c" "current (c\<lparr>md_last_sequence := n\<rparr>) = current c"
  "current (c\<lparr>md_messages_missed := n\<rparr>) = current c"
  by (simp_all add: current_def future_def blocks_left_def sighted_def Let_def cong: if_cong)

lemma mold_items_updates [frame_simps]:
  "mold_items (c\<lparr>md_last_sequence := n\<rparr>) = mold_items c" "mold_items (c\<lparr>md_messages_missed := n\<rparr>) = mold_items c"
  "mold_items (c\<lparr>md_messages_decoded := d\<rparr>) = mold_items c"
  by (simp_all add: mold_items_def recover_left_def frame_simps cong: if_cong)

text \<open>Reading one message off the front, whatever holds it.\<close>

lemma message_step:
  assumes "state_view c = view (Message live sq p # mold_items g) (totals c)" and "mold_ok g"
    and t: "totals g = sighted_at live sq (totals c)"
    and "decode_message p = Skipped \<Longrightarrow> call_ok g r"
  shows "call_ok c (case decode_message p of
      Malformed \<Rightarrow> (None, g\<lparr>md_failed := True\<rparr>) | Event e \<Rightarrow> deliver sq e (g\<lparr>md_last_sequence := sq\<rparr>) | Skipped \<Rightarrow> r)"
proof (cases "decode_message p")
  case (Event e)
  let ?h = "g\<lparr>md_last_sequence := sq\<rparr>"
  have "md_messages_decoded g = mt_decoded (totals g)" by (simp add: totals_def)
  then have d: "md_messages_decoded g = mt_decoded (totals c)" by (simp add: t sighted_at_def)
  have "totals (snd (deliver sq e ?h)) = (totals g)\<lparr>mt_decoded := mt_decoded (totals c) + 1, mt_last := sq\<rparr>"
    by (simp add: deliver_def totals_def d)
  also have "\<dots> = (totals c)\<lparr>mt_decoded := mt_decoded (totals c) + 1, mt_last := sq\<rparr>" by (simp add: t sighted_at_def)
  finally have "totals (snd (deliver sq e ?h)) = (totals c)\<lparr>mt_decoded := mt_decoded (totals c) + 1, mt_last := sq\<rparr>" .
  moreover have "mold_items (snd (deliver sq e ?h)) = mold_items g" "mold_ok (snd (deliver sq e ?h))"
    using assms(2) by (simp_all add: deliver_def mold_items_def recover_left_def mold_ok_def frame_simps)
  moreover have "fst (deliver sq e ?h) = Some (e\<lparr>ev_sequence := sq\<rparr>)" by (simp add: deliver_def)
  ultimately show ?thesis
    using assms(1) Event by (simp add: call_ok_def state_view_def split: prod.split)
next
  case Malformed
  then show ?thesis
    using assms(1,2) t by (simp add: call_ok_def mold_ok_def frame_simps)
next
  case Skipped
  then show ?thesis
    using assms(1,4) t call_cong [of g c] by (simp add: state_view_def)
qed

lemma recovered_step:
  assumes "md_recovering c" and "md_recover_next c < md_recover_end c"
  shows "mold_items c = (case recover c (md_recover_next c) of None \<Rightarrow> Unrecovered | Some p \<Rightarrow> Message False (md_recover_next c) p)
      # mold_items (c\<lparr>md_recover_next := md_recover_next c + 1\<rparr>)"
proof -
  let ?g = "c\<lparr>md_recover_next := md_recover_next c + 1\<rparr>"
  have i: "unat (md_recover_next c + 1) = Suc (unat (md_recover_next c))"
    by (rule unat_Suc_less [OF assms(2)])
  have left: "recover_left c = Suc (recover_left ?g)"
    using assms i by (simp add: recover_left_def word_less_nat_alt)
  have "recover_left ?g = 0" if "\<not> md_recover_next c + 1 < md_recover_end c"
    using that by (simp add: recover_left_def word_less_nat_alt)
  then show ?thesis
    using assms by (auto simp: mold_items_def left recover_def frame_simps recover_from_def)
qed

lemma current_step:
  assumes "md_have_packet c" and "md_local_index c < mp_count (md_packet c)" and "mold_ok c" and "\<not> md_recovering c"
    and "read_block (md_packet c) (md_offset c) = Some (p, off)"
  defines "sq \<equiv> mp_sequence (md_packet c) + ucast (md_local_index c)"
  shows "mold_items c = Message True sq p # mold_items (c\<lparr>md_offset := off, md_local_index := md_local_index c + 1,
      md_expected := sq + 1, md_last_sequence := sq\<rparr>)"
proof -
  let ?g = "c\<lparr>md_offset := off, md_local_index := md_local_index c + 1, md_expected := sq + 1, md_last_sequence := sq\<rparr>"
  have i: "unat (md_local_index c + 1) = Suc (unat (md_local_index c))"
    by (rule unat_Suc_less [OF assms(2)])
  have left: "blocks_left c = Suc (blocks_left ?g)"
    using assms(2) i by (simp add: blocks_left_def word_less_nat_alt)
  have next_sq: "mp_sequence (md_packet c) + ucast (md_local_index c + 1) = sq + 1"
  proof -
    have "(ucast (md_local_index c + 1) :: u64) = ucast (md_local_index c) + 1"
      using i by (metis of_nat_Suc of_nat_unat add.commute)
    then show ?thesis by (simp add: sq_def add.assoc)
  qed
  have cur: "current ?g = messages True (sq + 1) (fst (blocks (md_packet c) off (blocks_left ?g)))
      @ (if snd (blocks (md_packet c) off (blocks_left ?g)) then future c (Some (mp_sequence (md_packet c) + ucast (mp_count (md_packet c)))) else [BrokenFrame])"
  proof (cases "md_local_index c + 1 < mp_count (md_packet c)")
    case True
    then show ?thesis
      using assms(1) by (simp add: current_def next_sq future_def Let_def cong: if_cong)
  next
    case False
    then have last: "md_local_index c + 1 = mp_count (md_packet c)"
      using i assms(2) by (simp add: word_less_nat_alt word_unat_eq_iff)
    then have "blocks_left ?g = 0" by (simp add: blocks_left_def)
    moreover have "sighted ?g = Some (mp_sequence (md_packet c) + ucast (mp_count (md_packet c)))"
      using assms(1,3) next_sq last by (simp add: sighted_def mold_ok_def)
    ultimately show ?thesis
      using False by (simp add: current_def future_def)
  qed
  have "current c = Message True sq p # messages True (sq + 1) (fst (blocks (md_packet c) off (blocks_left ?g)))
      @ (if snd (blocks (md_packet c) off (blocks_left ?g)) then future c (Some (mp_sequence (md_packet c) + ucast (mp_count (md_packet c)))) else [BrokenFrame])"
    using assms(1,2,5) unfolding current_def [of c] left by (simp add: Let_def sq_def split: prod.split)
  then have "current c = Message True sq p # current ?g"
    by (simp only: cur)
  then show ?thesis
    using assms(4) by (simp add: mold_items_def)
qed

lemma mold_next_step:
  assumes "mold_ok c"
  shows "call_ok c (mold_next c)"
  using assms
proof (induction c rule: mold_next.induct)
  case (1 c)
  show ?case
  proof (cases "md_recovering c \<and> md_recover_next c < md_recover_end c")
    case True
    let ?sq = "md_recover_next c" and ?g = "c\<lparr>md_recover_next := md_recover_next c + 1\<rparr>"
    have ok: "mold_ok ?g" using "1.prems" by (simp add: mold_ok_def)
    have items: "mold_items c = (case recover c ?sq of None \<Rightarrow> Unrecovered | Some p \<Rightarrow> Message False ?sq p) # mold_items ?g"
      using True recovered_step by blast
    have rec: "recover ?g ?sq = recover c ?sq" by (simp add: recover_def)
    note run = mold_next.simps [of c, unfolded if_P [OF True] Let_def rec]
    note IH = "1.IH"(1,2) [OF True refl refl, unfolded rec]
    show ?thesis
    proof (cases "recover c ?sq")
      case None
      let ?h = "?g\<lparr>md_messages_missed := md_messages_missed ?g + 1\<rparr>"
      have "call_ok ?h (mold_next ?h)" using IH(1) [OF None] ok by (simp add: mold_ok_def)
      moreover have "state_view ?h = state_view c"
        using items None by (simp add: state_view_def frame_simps) (simp add: totals_def)
      ultimately show ?thesis using None call_cong [of ?h c] by (simp add: run)
    next
      case (Some p)
      have h: "state_view c = view (Message False ?sq p # mold_items ?g) (totals c)"
        using items Some by (simp add: state_view_def)
      have t: "totals ?g = sighted_at False ?sq (totals c)" by (simp add: sighted_at_def frame_simps)
      have "call_ok ?g (mold_next ?g)" if "decode_message p = Skipped"
        by (rule IH(2) [OF Some that ok])
      from message_step [OF h ok t this] show ?thesis
        using Some by (simp add: run)
    qed
  next
    case False
    let ?g = "c\<lparr>md_recovering := False\<rparr>"
    have g: "mold_ok ?g" "state_view ?g = state_view c" "current ?g = current c" "totals ?g = totals c"
      using "1.prems" False by (auto simp: mold_ok_def state_view_def mold_items_def frame_simps)
    note run = mold_next.simps [of c, unfolded if_not_P [OF False] Let_def]
    show ?thesis
    proof (cases "\<not> md_have_packet ?g \<or> md_local_index ?g \<ge> mp_count (md_packet ?g)")
      case load: True
      let ?h = "?g\<lparr>md_have_packet := False\<rparr>"
      let ?r = "load_next_packet ?h"
      have "load_ok ?h ?r" by (rule load_next_packet_ok) simp_all
      moreover have "state_view c = view (future ?h (sighted ?h)) (totals ?h)"
        using load False by (auto simp: state_view_def mold_items_def current_def sighted_def frame_simps)
      ultimately have l: "mold_ok (snd ?r)" "state_view c = (if fst ?r then state_view (snd ?r) else ([], totals (snd ?r)))"
        by (simp_all add: load_ok_def)
      show ?thesis
      proof (cases "fst ?r")
        case True
        have "call_ok (snd ?r) (mold_next (snd ?r))"
          using "1.IH"(3) [OF False refl load refl _ l(1)] True by simp
        then show ?thesis using True load l call_cong [of "snd ?r" c] by (simp add: run)
      next
        case fail: False
        then show ?thesis using load l by (simp add: run call_ok_def)
      qed
    next
      case cur: False
      show ?thesis
      proof (cases "read_block (md_packet ?g) (md_offset ?g)")
        case None
        then have "state_view ?g = ([], totals (?g\<lparr>md_failed := True\<rparr>))"
        proof -
          obtain m where m: "blocks_left ?g = Suc m"
            using cur by (metis blocks_left_def not0_implies_Suc not_le word_less_nat_alt zero_less_diff not_less_zero)
          have "current ?g = [BrokenFrame]"
            using None cur unfolding current_def m by (simp add: not_le)
          then show ?thesis by (simp add: state_view_def mold_items_def frame_simps)
        qed
        then show ?thesis
          using None cur g by (simp add: run call_ok_def mold_ok_def)
      next
        case (Some b)
        obtain p off where b: "b = (p, off)" by (cases b)
        let ?sq = "mp_sequence (md_packet ?g) + ucast (md_local_index ?g)"
        let ?h = "?g\<lparr>md_offset := off, md_local_index := md_local_index ?g + 1, md_expected := ?sq + 1, md_last_sequence := ?sq\<rparr>"
        have items: "mold_items ?g = Message True ?sq p # mold_items ?h"
          by (rule current_step) (use cur Some b g in \<open>simp_all add: not_le\<close>)
        have h: "state_view c = view (Message True ?sq p # mold_items ?h) (totals c)" "mold_ok ?h"
          "totals ?h = sighted_at True ?sq (totals c)"
          using items g by (simp_all add: state_view_def mold_ok_def sighted_at_def) (simp add: totals_def)
        have "call_ok ?h (mold_next ?h)" if "decode_message p = Skipped"
          by (rule "1.IH"(4) [OF False refl cur Some b [symmetric] refl refl that h(2)])
        note message_step [OF h this]
        moreover have "?h\<lparr>md_last_sequence := ?sq\<rparr> = ?h" by simp
        ultimately have "call_ok c (case decode_message p of
            Malformed \<Rightarrow> (None, ?h\<lparr>md_failed := True\<rparr>) | Event e \<Rightarrow> deliver ?sq e ?h | Skipped \<Rightarrow> mold_next ?h)" by (simp only:)
        then show ?thesis
          using cur Some b by (simp add: run)
      qed
    qed
  qed
qed

interpretation mold: judged_connector mold_next mold_ok "\<lambda>c. fst (state_view c)" "\<lambda>c. snd (state_view c)" totals
proof
  fix c e es
  assume "mold_ok c"
  then have s: "call_ok c (mold_next c)" by (rule mold_next_step)
  show "mold_ok (snd (mold_next c))" using s by (simp add: call_ok_def)
  show "fst (state_view c) = [] \<Longrightarrow> fst (mold_next c) = None"
    using s by (cases "fst (mold_next c)") (auto simp: call_ok_def)
  show "fst (state_view c) = e # es \<Longrightarrow> fst (mold_next c) = Some e \<and> fst (state_view (snd (mold_next c))) = es"
    using s by (cases "fst (mold_next c)") (auto simp: call_ok_def)
  show "fst (state_view c) \<noteq> [] \<Longrightarrow> snd (state_view (snd (mold_next c))) = snd (state_view c)"
    using s by (cases "fst (mold_next c)") (auto simp: call_ok_def)
  show "fst (state_view c) = [] \<Longrightarrow> totals (snd (mold_next c)) = snd (state_view c)"
    using s by (cases "fst (mold_next c)") (auto simp: call_ok_def)
qed

end
