(* ===== verification/MoldProps.thy ===== *)
theory MoldProps
  imports MoldSpec
begin

text \<open>
  The MoldUDP64 connector against a sender: a sender numbers a list of messages and transmits
  windows of it, in any order, with repetitions, overlaps and omissions. The lemmas compute what the
  item list of such a transmission is; the properties say which messages come out.
\<close>

section \<open>Datagrams as the protocol lays them out\<close>

definition mold_datagram :: "u8 list \<Rightarrow> u64 \<Rightarrow> u8 list list \<Rightarrow> u8 list" where
  "mold_datagram session sq ms = take 10 (session @ replicate 10 0) @ be 8 sq @ be 2 (word_of_nat (length ms) :: u16)
     @ concat (map frame_bytes ms)"

lemma session_length: "length (take 10 (session @ replicate 10 (0 :: u8))) = 10"
  by simp

lemma mold_datagram_header:
  assumes "length ms < 0xFFFF"
  shows "parse_packet (mold_datagram session sq ms @ rest)
    = Some \<lparr>mp_data = mold_datagram session sq ms @ rest, mp_sequence = sq, mp_count = word_of_nat (length ms)\<rparr>"
proof -
  let ?s = "take 10 (session @ replicate 10 (0 :: u8))"
  let ?d = "mold_datagram session sq ms @ rest"
  have len: "20 \<le> length ?d" by (simp add: mold_datagram_def)
  have "slice_of 10 8 ?d = be 8 sq" "slice_of 18 2 ?d = be 2 (word_of_nat (length ms) :: u16)"
    by (simp_all add: mold_datagram_def slice_of_def)
  then show ?thesis
    using len by (simp add: parse_packet_def mold_header_size_def readers_slice read_be_field)
qed

lemma read_block_frame:
  assumes "mp_data p = pre @ frame_bytes x @ rest" and "length pre = off" and "length x < 2 ^ 16"
  shows "read_block p off = Some (x, off + (2 + length x))"
proof -
  have "slice_of off 2 (mp_data p) = be 2 (word_of_nat (length x) :: u16)"
    using assms(1,2) by (simp add: slice_of_def frame_bytes_def)
  then have "unat (read_be16 (mp_data p) off) = length x"
    using assms by (simp add: readers_slice read_be_field unat_of_nat)
  moreover have "take (length x) (drop (off + 2) (mp_data p)) = x"
    using assms(1,2) by (simp add: frame_bytes_def)
  ultimately show ?thesis
    using assms(1,2) by (simp add: read_block_def Let_def)
qed

lemma blocks_frames:
  assumes "mp_data p = pre @ concat (map frame_bytes xs) @ rest" and "length pre = off" and "\<forall>x \<in> set xs. length x < 2 ^ 16"
  shows "blocks p off (length xs) = (xs, True)"
  using assms
proof (induction xs arbitrary: pre off)
  case Nil
  then show ?case by simp
next
  case (Cons x xs)
  have "read_block p off = Some (x, off + (2 + length x))"
    by (rule read_block_frame [of p pre]) (use Cons.prems in auto)
  moreover have "blocks p (off + (2 + length x)) (length xs) = (xs, True)"
    by (rule Cons.IH [of "pre @ frame_bytes x"]) (use Cons.prems in auto)
  ultimately show ?case by simp
qed

section \<open>A sender and its windows\<close>

text \<open>
  \<^verbatim>\<open>sound base ms\<close>: the messages can be framed and decoded and their numbers \<^verbatim>\<open>base + i\<close> do not wrap. A window
  \<^verbatim>\<open>(i, n)\<close> transmits the messages \<^verbatim>\<open>i, ..., i + n - 1\<close>.
\<close>

definition sound :: "nat \<Rightarrow> u8 list list \<Rightarrow> bool" where
  "sound base ms \<longleftrightarrow> base + length ms < 2 ^ 64 \<and> (\<forall>m \<in> set ms. length m < 2 ^ 16 \<and> decode_message m \<noteq> Malformed)"

definition window_in :: "u8 list list \<Rightarrow> nat \<times> nat \<Rightarrow> bool" where
  "window_in ms w \<longleftrightarrow> 0 < snd w \<and> snd w < 0xFFFF \<and> fst w + snd w \<le> length ms"

definition transmit :: "nat \<Rightarrow> u8 list list \<Rightarrow> nat \<times> nat \<Rightarrow> u8 list" where
  "transmit base ms w = mold_datagram [] (word_of_nat (base + fst w)) (take (snd w) (drop (fst w) ms))"

definition event_at :: "nat \<Rightarrow> u8 list list \<Rightarrow> nat \<Rightarrow> market_data_event list" where
  "event_at base ms i = (case event_in (ms ! i) of None \<Rightarrow> [] | Some e \<Rightarrow> [e\<lparr>ev_sequence := word_of_nat (base + i)\<rparr>])"

definition events_at :: "nat \<Rightarrow> u8 list list \<Rightarrow> nat list \<Rightarrow> market_data_event list" where
  "events_at base ms is = concat (map (event_at base ms) is)"

text \<open>Which messages are new when the next expected one is \<^verbatim>\<open>ex\<close>, how far the transmission got, and its gaps.\<close>

fun received :: "nat \<Rightarrow> (nat \<times> nat) list \<Rightarrow> nat list" where
  "received ex [] = []"
| "received ex ((i, n) # ws) = [max i ex ..< i + n] @ received (max ex (i + n)) ws"

fun reached :: "nat \<Rightarrow> (nat \<times> nat) list \<Rightarrow> nat" where
  "reached ex [] = ex"
| "reached ex ((i, n) # ws) = reached (max ex (i + n)) ws"

fun gap_count :: "nat \<Rightarrow> (nat \<times> nat) list \<Rightarrow> nat" where
  "gap_count ex [] = 0"
| "gap_count ex ((i, n) # ws) = (if ex < i then 1 else 0) + gap_count (max ex (i + n)) ws"

lemma reached_ge: "ex \<le> reached ex ws"
proof (induction ex ws rule: reached.induct)
  case (2 ex i n ws)
  then show ?case by simp
qed simp

fun lost :: "nat \<Rightarrow> (nat \<times> nat) list \<Rightarrow> nat" where
  "lost ex [] = 0"
| "lost ex ((i, n) # ws) = (i - ex) + lost (max ex (i + n)) ws"

lemma lost_received: "lost ex ws + length (received ex ws) + ex = reached ex ws"
proof (induction ex ws rule: received.induct)
  case (2 ex i n ws)
  then show ?case by (simp add: max_def split: if_splits)
qed simp

lemma received_sorted: "sorted (received ex ws) \<and> distinct (received ex ws) \<and> (\<forall>j \<in> set (received ex ws). ex \<le> j \<and> j < reached ex ws)"
proof (induction ex ws rule: received.induct)
  case (1 ex)
  then show ?case by simp
next
  case (2 ex i n ws)
  define m where "m = max ex (i + n)"
  define R where "R = received m ws"
  define A where "A = [max i ex..<i + n]"
  have R: "sorted R" "distinct R" "\<And>j. j \<in> set R \<Longrightarrow> m \<le> j \<and> j < reached m ws"
    using "2.IH" unfolding m_def R_def by blast+
  have m: "ex \<le> m" "m \<le> reached m ws"
    using reached_ge [of m ws] unfolding m_def by (simp_all only: max.cobounded1)
  have A: "sorted A" "distinct A" "\<And>j. j \<in> set A \<Longrightarrow> ex \<le> j \<and> j < m"
    unfolding A_def m_def by (simp_all only: sorted_upt distinct_upt) (simp only: set_upt atLeastLessThan_iff, linarith)
  have "sorted (A @ R)"
    unfolding sorted_append using A R by (metis less_imp_le order_trans)
  moreover have "distinct (A @ R)"
    unfolding distinct_append using A(2,3) R(2,3) by (metis disjoint_iff leD)
  moreover have "\<forall>j \<in> set (A @ R). ex \<le> j \<and> j < reached m ws"
    using A(3) R(3) m by (metis Un_iff set_append less_le_trans order_trans)
  ultimately show ?case by (simp only: received.simps reached.simps A_def R_def m_def)
qed

section \<open>The items of a transmission\<close>

text \<open>Reading messages changes the two counts of what was read and nothing else in the totals.\<close>

lemma view_message:
  assumes "decode_message m \<noteq> Malformed"
  obtains d l where "\<And>is. view (Message live sq m # is) t =
    ((case event_in m of None \<Rightarrow> [] | Some e \<Rightarrow> [e\<lparr>ev_sequence := sq\<rparr>]) @ fst (view is (t\<lparr>mt_decoded := d, mt_last := l\<rparr>)),
      snd (view is (t\<lparr>mt_decoded := d, mt_last := l\<rparr>)))"
proof (cases "decode_message m")
  case (Event e)
  then show ?thesis by (intro that [where d = "mt_decoded t + 1" and l = sq]) (simp add: event_in_def split: prod.split)
next
  case Skipped
  have "sighted_at live sq t = t\<lparr>mt_decoded := mt_decoded t, mt_last := mt_last (sighted_at live sq t)\<rparr>"
    by (simp add: sighted_at_def)
  with Skipped show ?thesis
    by (intro that [where d = "mt_decoded t" and l = "mt_last (sighted_at live sq t)"]) (simp add: event_in_def)
qed (use assms in simp)

lemma view_messages:
  assumes "sound base ms" and "j \<le> length ms" and "i \<le> j"
  shows "\<exists>d l. \<forall>is. view (messages live (word_of_nat (base + i)) (map ((!) ms) [i..<j]) @ is) t
    = (events_at base ms [i..<j] @ fst (view is (t\<lparr>mt_decoded := d, mt_last := l\<rparr>)), snd (view is (t\<lparr>mt_decoded := d, mt_last := l\<rparr>)))"
  using assms(2,3)
proof (induction "j - i" arbitrary: i t)
  case 0
  then show ?case by (intro exI [of _ "mt_decoded t"] exI [of _ "mt_last t"]) (simp add: events_at_def)
next
  case (Suc d)
  have i: "i < j" using Suc.hyps by simp
  have m: "decode_message (ms ! i) \<noteq> Malformed" using assms(1) i Suc.prems by (simp add: sound_def)
  have sq: "word_of_nat (base + i) + 1 = (word_of_nat (base + Suc i) :: u64)"
    by (metis add_Suc_right of_nat_Suc add.commute)
  obtain d1 l1 where one: "view (Message live (word_of_nat (base + i)) (ms ! i) # is) t =
      ((case event_in (ms ! i) of None \<Rightarrow> [] | Some e \<Rightarrow> [e\<lparr>ev_sequence := word_of_nat (base + i)\<rparr>])
        @ fst (view is (t\<lparr>mt_decoded := d1, mt_last := l1\<rparr>)), snd (view is (t\<lparr>mt_decoded := d1, mt_last := l1\<rparr>)))" for "is"
    using view_message [OF m] by metis
  let ?t = "t\<lparr>mt_decoded := d1, mt_last := l1\<rparr>"
  have "d = j - Suc i" "j \<le> length ms" "Suc i \<le> j" using Suc.hyps i Suc.prems by auto
  from Suc.hyps(1) [OF this, of ?t] obtain d2 l2 where IH: "view (messages live (word_of_nat (base + Suc i)) (map ((!) ms) [Suc i..<j]) @ is) ?t
      = (events_at base ms [Suc i..<j] @ fst (view is (?t\<lparr>mt_decoded := d2, mt_last := l2\<rparr>)), snd (view is (?t\<lparr>mt_decoded := d2, mt_last := l2\<rparr>)))" for "is"
    by blast
  have head: "messages live (word_of_nat (base + i)) (map ((!) ms) [i..<j]) @ is
      = Message live (word_of_nat (base + i)) (ms ! i) # (messages live (word_of_nat (base + Suc i)) (map ((!) ms) [Suc i..<j]) @ is)" for "is"
    by (simp add: upt_conv_Cons [OF i] sq del: of_nat_add of_nat_Suc)
  have evs: "events_at base ms [i..<j] = (case event_in (ms ! i) of None \<Rightarrow> [] | Some e \<Rightarrow> [e\<lparr>ev_sequence := word_of_nat (base + i)\<rparr>])
      @ events_at base ms [Suc i..<j]"
    by (simp add: upt_conv_Cons [OF i] events_at_def event_at_def del: of_nat_add)
  show ?case
    by (intro exI [of _ d2] exI [of _ l2] allI) (simp only: head one IH evs append_assoc fst_conv snd_conv, simp)
qed

lemma window_payloads:
  "i + n \<le> length ms \<Longrightarrow> take n (drop i ms) = map ((!) ms) [i..<i + n]"
  by (rule nth_equalityI) auto

lemma recovered_all:
  assumes "\<And>j. j < length ms \<Longrightarrow> f (word_of_nat (base + j)) = Some (ms ! j)" and "j \<le> length ms" and "i \<le> j"
  shows "recovered (Some f) (word_of_nat (base + i)) (j - i) = messages False (word_of_nat (base + i)) (map ((!) ms) [i..<j])"
  using assms(2,3)
proof (induction "j - i" arbitrary: i)
  case 0
  then show ?case by simp
next
  case (Suc d)
  have i: "i < j" using Suc.hyps by simp
  have sq: "word_of_nat (base + i) + 1 = (word_of_nat (base + Suc i) :: u64)"
    by (metis add_Suc_right of_nat_Suc add.commute)
  have "recovered (Some f) (word_of_nat (base + Suc i)) (j - Suc i) = messages False (word_of_nat (base + Suc i)) (map ((!) ms) [Suc i..<j])"
    by (rule Suc.hyps(1)) (use Suc.hyps i Suc.prems in auto)
  moreover have "j - i = Suc (j - Suc i)" using i by simp
  moreover have "f (word_of_nat (base + i)) = Some (ms ! i)" using assms(1) i Suc.prems by simp
  ultimately show ?case
    by (simp add: upt_conv_Cons [OF i] sq recover_from_def del: of_nat_add of_nat_Suc)
qed

lemma number_less: "a < 2 ^ 64 \<Longrightarrow> b < 2 ^ 64 \<Longrightarrow> (word_of_nat a :: u64) < word_of_nat b \<longleftrightarrow> a < b"
  by (simp add: word_less_nat_alt unat_of_nat)

lemma number_diff: "a \<le> b \<Longrightarrow> b < 2 ^ 64 \<Longrightarrow> unat (word_of_nat b - word_of_nat a :: u64) = b - a"
  by (simp add: unat_of_nat flip: of_nat_diff)

lemma transmit_items:
  assumes "sound base ms" and "window_in ms (i, n)" and "ex \<le> length ms"
  shows "items_of rt (Some (word_of_nat (base + ex))) (transmit base ms (i, n) # ds) bad =
    (if ex < i then gap_items rt (word_of_nat (base + ex)) (word_of_nat (base + i)) else [])
      @ messages True (word_of_nat (base + max i ex)) (map ((!) ms) [max i ex..<i + n])
      @ items_of rt (Some (word_of_nat (base + max ex (i + n)))) ds bad"
proof -
  define xs where "xs = take n (drop i ms)"
  define sq where "sq = (word_of_nat (base + i) :: u64)"
  define p where "p = \<lparr>mp_data = transmit base ms (i, n), mp_sequence = sq, mp_count = word_of_nat n\<rparr>"
  have w: "0 < n" "n < 0xFFFF" "i + n \<le> length ms" using assms(2) by (simp_all add: window_in_def)
  have b: "base + length ms < 2 ^ 64" using assms(1) by (simp add: sound_def)
  have lx: "length xs = n" "xs = map ((!) ms) [i..<i + n]" using w window_payloads by (simp_all add: xs_def)
  have parse: "parse_packet (transmit base ms (i, n)) = Some p"
    using mold_datagram_header [of xs "[]" sq "[]"] w lx by (simp add: transmit_def p_def sq_def xs_def)
  have count: "unat (mp_count p) = n" using w by (simp add: p_def unat_of_nat)
  have kinds: "\<not> end_of_session p" "\<not> heartbeat p"
  proof -
    show "\<not> heartbeat p" using count w by (auto simp: heartbeat_def)
    show "\<not> end_of_session p" using count w by (auto simp: end_of_session_def mold_end_of_session_def)
  qed
  have blocks: "blocks p mold_header_size n = (xs, True)"
  proof -
    have "set xs \<subseteq> set ms" unfolding xs_def by (meson order_trans set_drop_subset set_take_subset)
    then have "\<forall>x \<in> set xs. length x < 2 ^ 16" using assms(1) unfolding sound_def by blast
    then show ?thesis
      using blocks_frames [of p "take 10 (replicate 10 0) @ be 8 sq @ be 2 (word_of_nat (length xs) :: u16)" xs "[]" mold_header_size]
      by (simp add: p_def transmit_def mold_datagram_def sq_def xs_def mold_header_size_def lx [unfolded xs_def])
  qed
  have after: "sq + ucast (mp_count p) = word_of_nat (base + (i + n))"
  proof -
    have "ucast (mp_count p) = (word_of_nat n :: u64)" using of_nat_unat [of "mp_count p", where 'a = u64] count by simp
    then show ?thesis by (simp add: sq_def add.assoc)
  qed
  have step: "items_of rt (Some e) (transmit base ms (i, n) # ds) bad =
      (if e < sq then gap_items rt e sq @ messages True sq xs @ items_of rt (Some (word_of_nat (base + (i + n)))) ds bad
       else drop (unat (e - sq)) (messages True sq xs)
         @ items_of rt (Some (if n \<le> unat (e - sq) then e else word_of_nat (base + (i + n)))) ds bad)" for e
  proof -
    have "mp_sequence p = sq" by (simp add: p_def)
    then show ?thesis
      using kinds by (simp add: parse count blocks Let_def after)
  qed
  show ?thesis
  proof (cases "ex < i")
    case True
    then have "(word_of_nat (base + ex) :: u64) < sq"
      unfolding sq_def using b w by (subst number_less) auto
    then show ?thesis
      using True by (simp add: step max_def lx(2) sq_def del: items_of.simps of_nat_add)
  next
    case False
    then have no: "\<not> (word_of_nat (base + ex) :: u64) < sq"
      unfolding sq_def using b w assms(3) by (subst number_less) auto
    have k: "unat (word_of_nat (base + ex) - sq) = ex - i"
      unfolding sq_def using b assms(3) False by (subst number_diff) auto
    have at: "sq + word_of_nat (ex - i) = word_of_nat (base + ex)"
      using False by (metis add.assoc le_add_diff_inverse not_le of_nat_add sq_def)
    have "drop (ex - i) (map ((!) ms) [i..<i + n]) = map ((!) ms) [ex..<i + n]"
      using False by (simp add: drop_map)
    then have "drop (ex - i) (messages True sq xs) = messages True (word_of_nat (base + ex)) (map ((!) ms) [ex..<i + n])"
      by (simp only: messages_drop at lx(2))
    moreover have "max ex (i + n) = (if n \<le> ex - i then ex else i + n)" "max i ex = ex"
      using False by auto
    ultimately show ?thesis
      using False unfolding step by (simp add: no k if_distrib [of "\<lambda>j. word_of_nat (base + j)"] del: items_of.simps of_nat_add)
  qed
qed

text \<open>A whole transmission, without a retransmission source and with one that has every message.\<close>

lemma transmission_plain:
  assumes "sound base ms" and "\<forall>w \<in> set ws. window_in ms w" and "ex \<le> length ms"
  shows "\<exists>d l. view (items_of None (Some (word_of_nat (base + ex))) (map (transmit base ms) ws) False) t
    = (events_at base ms (received ex ws),
       t\<lparr>mt_gaps := mt_gaps t + word_of_nat (gap_count ex ws), mt_missed := mt_missed t + word_of_nat (lost ex ws),
         mt_decoded := d, mt_last := l\<rparr>)"
  using assms(2,3)
proof (induction ws arbitrary: ex t)
  case Nil
  then show ?case by (intro exI [of _ "mt_decoded t"] exI [of _ "mt_last t"]) (simp add: events_at_def)
next
  case (Cons w ws)
  obtain i n where w: "w = (i, n)" by (cases w)
  have win: "window_in ms (i, n)" and i: "i + n \<le> length ms" using Cons.prems w by (simp_all add: window_in_def)
  let ?rest = "items_of None (Some (word_of_nat (base + max ex (i + n)))) (map (transmit base ms) ws) False"
  define tg where "tg = (if ex < i then t\<lparr>mt_gaps := mt_gaps t + 1, mt_missed := mt_missed t + word_of_nat (i - ex)\<rparr> else t)"
  obtain d1 l1 where body: "view (messages True (word_of_nat (base + max i ex)) (map ((!) ms) [max i ex..<i + n]) @ is) tg
      = (events_at base ms [max i ex..<i + n] @ fst (view is (tg\<lparr>mt_decoded := d1, mt_last := l1\<rparr>)), snd (view is (tg\<lparr>mt_decoded := d1, mt_last := l1\<rparr>)))" for "is"
  proof (cases "max i ex \<le> i + n")
    case True
    from view_messages [OF assms(1) i True, of True tg] that show ?thesis by blast
  next
    case False
    then show ?thesis by (intro that [where ?d1.0 = "mt_decoded tg" and ?l1.0 = "mt_last tg"]) (simp add: events_at_def)
  qed
  have "\<forall>w \<in> set ws. window_in ms w" "max ex (i + n) \<le> length ms" using Cons.prems i by auto
  from Cons.IH [OF this, of "tg\<lparr>mt_decoded := d1, mt_last := l1\<rparr>"] obtain d l where
    IH: "view ?rest (tg\<lparr>mt_decoded := d1, mt_last := l1\<rparr>) = (events_at base ms (received (max ex (i + n)) ws),
      tg\<lparr>mt_gaps := mt_gaps tg + word_of_nat (gap_count (max ex (i + n)) ws), mt_missed := mt_missed tg + word_of_nat (lost (max ex (i + n)) ws),
        mt_decoded := d, mt_last := l\<rparr>)" by auto
  have diff: "word_of_nat (base + i) - word_of_nat (base + ex) = (word_of_nat (i - ex) :: u64)" if "ex < i"
    using that by (simp flip: of_nat_diff)
  show ?case
  proof (cases "ex < i")
    case True
    then show ?thesis
      using transmit_items [OF assms(1) win Cons.prems(2), of None "map (transmit base ms) ws" False] body IH diff
      by (intro exI [of _ d] exI [of _ l])
        (simp add: w tg_def gap_items_def events_at_def add.assoc del: items_of.simps of_nat_add flip: of_nat_add of_nat_Suc)
  next
    case False
    then show ?thesis
      using transmit_items [OF assms(1) win Cons.prems(2), of None "map (transmit base ms) ws" False] body IH
      by (intro exI [of _ d] exI [of _ l]) (simp add: w tg_def events_at_def del: items_of.simps of_nat_add)
  qed
qed

lemma events_at_join: "i \<le> j \<Longrightarrow> j \<le> k \<Longrightarrow> events_at base ms [i..<j] @ events_at base ms [j..<k] = events_at base ms [i..<k]"
  using upt_add_eq_append [of i j "k - j"] by (simp add: events_at_def)

lemma transmission_recovered:
  assumes "sound base ms" and "\<forall>w \<in> set ws. window_in ms w" and "ex \<le> length ms"
    and rt: "\<And>j. j < length ms \<Longrightarrow> f (word_of_nat (base + j)) = Some (ms ! j)"
  shows "\<exists>d l. view (items_of (Some f) (Some (word_of_nat (base + ex))) (map (transmit base ms) ws) False) t
    = (events_at base ms [ex..<reached ex ws], t\<lparr>mt_gaps := mt_gaps t + word_of_nat (gap_count ex ws), mt_decoded := d, mt_last := l\<rparr>)"
  using assms(2,3)
proof (induction ws arbitrary: ex t)
  case Nil
  then show ?case by (intro exI [of _ "mt_decoded t"] exI [of _ "mt_last t"]) (simp add: events_at_def)
next
  case (Cons w ws)
  obtain i n where w: "w = (i, n)" by (cases w)
  have win: "window_in ms (i, n)" and i: "i + n \<le> length ms" using Cons.prems w by (simp_all add: window_in_def)
  define m where "m = max ex (i + n)"
  let ?rest = "items_of (Some f) (Some (word_of_nat (base + m))) (map (transmit base ms) ws) False"
  have m: "ex \<le> m" "m \<le> length ms" "m \<le> reached m ws" using i Cons.prems reached_ge by (auto simp: m_def)
  define k where "k = max i ex"
  have k: "ex \<le> k" "k \<le> m" "k \<le> length ms" using i Cons.prems by (auto simp: m_def k_def)
  define tg where "tg = (if ex < i then t\<lparr>mt_gaps := mt_gaps t + 1\<rparr> else t)"
  obtain d1 l1 where old: "view (messages False (word_of_nat (base + ex)) (map ((!) ms) [ex..<k]) @ is) tg
      = (events_at base ms [ex..<k] @ fst (view is (tg\<lparr>mt_decoded := d1, mt_last := l1\<rparr>)), snd (view is (tg\<lparr>mt_decoded := d1, mt_last := l1\<rparr>)))" for "is"
    using view_messages [OF assms(1) k(3,1), of False tg] by blast
  let ?t1 = "tg\<lparr>mt_decoded := d1, mt_last := l1\<rparr>"
  obtain d2 l2 where new: "view (messages True (word_of_nat (base + k)) (map ((!) ms) [k..<m]) @ is) ?t1
      = (events_at base ms [k..<m] @ fst (view is (?t1\<lparr>mt_decoded := d2, mt_last := l2\<rparr>)), snd (view is (?t1\<lparr>mt_decoded := d2, mt_last := l2\<rparr>)))" for "is"
    using view_messages [OF assms(1) m(2) k(2), of True ?t1] by blast
  let ?t2 = "?t1\<lparr>mt_decoded := d2, mt_last := l2\<rparr>"
  have "\<forall>w \<in> set ws. window_in ms w" using Cons.prems by simp
  from Cons.IH [OF this m(2), of ?t2] obtain d l where IH: "view ?rest ?t2
      = (events_at base ms [m..<reached m ws], tg\<lparr>mt_gaps := mt_gaps tg + word_of_nat (gap_count m ws), mt_decoded := d, mt_last := l\<rparr>)" by auto
  have "events_at base ms [ex..<k] @ events_at base ms [k..<m] @ events_at base ms [m..<reached m ws] = events_at base ms [ex..<reached m ws]"
    using events_at_join [of k m "reached m ws"] events_at_join [of ex k "reached m ws"] k m by simp
  then have read: "view (messages False (word_of_nat (base + ex)) (map ((!) ms) [ex..<k])
        @ messages True (word_of_nat (base + k)) (map ((!) ms) [k..<m]) @ ?rest) tg
      = (events_at base ms [ex..<reached m ws], tg\<lparr>mt_gaps := mt_gaps tg + word_of_nat (gap_count m ws), mt_decoded := d, mt_last := l\<rparr>)"
    by (simp only: old new IH fst_conv snd_conv)
  have b: "base + length ms < 2 ^ 64" using assms(1) by (simp add: sound_def)
  have upto: "[max i ex..<i + n] = [k..<m]" by (auto simp: k_def m_def max_def)
  note items = transmit_items [OF assms(1) win Cons.prems(2), of "Some f" "map (transmit base ms) ws" False, folded m_def k_def, unfolded upto [folded k_def]]
  show ?case
  proof (cases "ex < i")
    case True
    then have ki: "k = i" by (simp add: k_def)
    have "unat (word_of_nat (base + i) - word_of_nat (base + ex) :: u64) = i - ex"
      using True b i by (subst number_diff) auto
    then have gap: "gap_items (Some f) (word_of_nat (base + ex)) (word_of_nat (base + i))
        = GapFound # messages False (word_of_nat (base + ex)) (map ((!) ms) [ex..<k])"
      using recovered_all [OF rt, of i ex] True i by (simp add: gap_items_def ki del: of_nat_add)
    have "items_of (Some f) (Some (word_of_nat (base + ex))) (transmit base ms (i, n) # map (transmit base ms) ws) False
        = GapFound # (messages False (word_of_nat (base + ex)) (map ((!) ms) [ex..<k]) @ messages True (word_of_nat (base + k)) (map ((!) ms) [k..<m]) @ ?rest)"
      unfolding items gap using True by simp
    moreover have "t\<lparr>mt_gaps := mt_gaps t + 1\<rparr> = tg" using True by (simp add: tg_def)
    moreover have "mt_gaps tg = mt_gaps t + 1" using True by (simp add: tg_def)
    ultimately show ?thesis
      using True read by (intro exI [of _ d] exI [of _ l])
        (simp add: w add.assoc tg_def flip: m_def del: items_of.simps of_nat_add)
  next
    case False
    then have "k = ex" "tg = t" by (simp_all add: k_def tg_def)
    then show ?thesis
      using items False read by (intro exI [of _ d] exI [of _ l]) (simp add: w flip: m_def del: items_of.simps of_nat_add)
  qed
qed

text \<open>The first packet sets the expected number.\<close>

lemma first_packet:
  assumes "window_in ms (i, n)"
  shows "items_of rt None (transmit base ms (i, n) # ds) bad
    = items_of rt (Some (word_of_nat (base + i))) (transmit base ms (i, n) # ds) bad"
proof -
  have n: "0 < n" "n < 0xFFFF" "length (take n (drop i ms)) = n" using assms by (auto simp: window_in_def)
  then have "parse_packet (transmit base ms (i, n)) = Some \<lparr>mp_data = transmit base ms (i, n),
      mp_sequence = word_of_nat (base + i), mp_count = word_of_nat n\<rparr>"
    using mold_datagram_header [of "take n (drop i ms)" "[]" "word_of_nat (base + i)" "[]"] by (simp add: transmit_def)
  moreover have "unat (word_of_nat n :: u16) = n" using n by (simp add: unat_of_nat)
  then have "(word_of_nat n :: u16) \<noteq> 0" "(word_of_nat n :: u16) \<noteq> mold_end_of_session"
    using n by (auto simp: mold_end_of_session_def)
  ultimately show ?thesis by (simp add: heartbeat_def end_of_session_def del: of_nat_add)
qed

definition collect_mold :: "mold \<Rightarrow> (mold \<times> market_data_event list) option" where
  "collect_mold c = pump mold_next (\<lambda>e es. es @ [e]) 0 0 c []"

definition no_totals :: mold_totals where
  "no_totals = \<lparr>mt_failed = False, mt_gaps = 0, mt_missed = 0, mt_ended = False, mt_decoded = 0, mt_last = 0\<rparr>"

lemma mold_start:
  "mold_ok (mold_connector src rt)"
  "state_view (mold_connector src rt) = view (items_of rt None (fst (rest_datagrams src)) (snd (rest_datagrams src))) no_totals"
  by (simp_all add: mold_ok_def mold_connector_def state_view_def mold_items_def current_def future_def sighted_def
      totals_def no_totals_def)

lemma collect_mold_view:
  "\<exists>c. collect_mold (mold_connector src rt) = Some (c, fst (view (items_of rt None (fst (rest_datagrams src)) (snd (rest_datagrams src))) no_totals))
    \<and> totals c = snd (view (items_of rt None (fst (rest_datagrams src)) (snd (rest_datagrams src))) no_totals)
    \<and> md_messages_decoded c = length (fst (view (items_of rt None (fst (rest_datagrams src)) (snd (rest_datagrams src))) no_totals))"
proof -
  let ?v = "view (items_of rt None (fst (rest_datagrams src)) (snd (rest_datagrams src))) no_totals"
  obtain c where c: "collect_mold (mold_connector src rt) = Some (c, fst ?v)" "totals c = snd ?v"
    using mold.pump_outcome [OF mold_start(1) [of src rt], of "\<lambda>e es. es @ [e]" 0 "[]"]
    by (auto simp: collect_mold_def fold_snoc mold_start(2))
  have "md_messages_decoded c = mt_decoded (totals c)" by (simp add: totals_def)
  also have "\<dots> = length (fst ?v)" unfolding c(2) view_decoded by (simp add: no_totals_def)
  finally show ?thesis using c by blast
qed

lemma source_start:
  "rest_datagrams (from_datagrams ds) = (ds, False)" "rest_datagrams (from_datagram_file (Some bs)) = file_datagrams bs"
  by (simp_all add: rest_datagrams_def from_datagrams_def from_datagram_file_def)

section \<open>Properties\<close>

text \<open>
  C20. A MoldUDP64 connector over any datagrams, well formed or not, with or without a retransmission
  source, comes to its end, and delivers exactly the events of the item list that the datagrams
  denote. Its failure flag, gap count, missed count, end-of-session flag, \<^verbatim>\<open>messages_decoded()\<close> and
  \<^verbatim>\<open>last_sequence()\<close> are the ones of that list, and the messages counted as decoded are the events delivered.
  The same list comes from memory and from a file of length-prefixed datagrams.
\<close>

theorem mold_replay_correct:
  "\<exists>c1 c2. collect_mold (mold_connector (from_datagrams ds) rt) = Some (c1, fst (view (items_of rt None ds False) no_totals))
    \<and> totals c1 = snd (view (items_of rt None ds False) no_totals)
    \<and> md_messages_decoded c1 = length (fst (view (items_of rt None ds False) no_totals))
    \<and> collect_mold (mold_connector (from_datagram_file (Some bs)) rt)
        = Some (c2, fst (view (items_of rt None (fst (file_datagrams bs)) (snd (file_datagrams bs))) no_totals))
    \<and> totals c2 = snd (view (items_of rt None (fst (file_datagrams bs)) (snd (file_datagrams bs))) no_totals)
    \<and> md_messages_decoded c2 = length (fst (view (items_of rt None (fst (file_datagrams bs)) (snd (file_datagrams bs))) no_totals))"
  using collect_mold_view [of "from_datagrams ds" rt] collect_mold_view [of "from_datagram_file (Some bs)" rt]
  unfolding source_start fst_conv snd_conv by blast

text \<open>
  C21. Without a retransmission source, whatever windows of a numbered message sequence arrive and in
  whatever order, each message is delivered at most once, in the order of the numbers and with its own
  number and content; every number from the first window's start up to the furthest window's end is
  either delivered or counted in \<^verbatim>\<open>messages_missed()\<close>, and the gaps counted are the windows that started
  beyond the expected number.
\<close>

theorem mold_delivers_once_in_order:
  assumes "sound base ms" and "\<forall>w \<in> set ((i, n) # ws). window_in ms w"
  shows "\<exists>c js. collect_mold (mold_connector (from_datagrams (map (transmit base ms) ((i, n) # ws))) None) = Some (c, events_at base ms js)
    \<and> sorted js \<and> distinct js \<and> set js \<subseteq> {i..<reached i ((i, n) # ws)}
    \<and> md_messages_missed c = word_of_nat (reached i ((i, n) # ws) - i - length js)
    \<and> md_gaps_detected c = word_of_nat (gap_count i ((i, n) # ws)) \<and> \<not> md_failed c"
proof -
  let ?ws = "(i, n) # ws"
  have win: "window_in ms (i, n)" and i: "i \<le> length ms" using assms(2) by (auto simp: window_in_def)
  obtain d l where v: "view (items_of None None (map (transmit base ms) ?ws) False) no_totals
      = (events_at base ms (received i ?ws), no_totals\<lparr>mt_gaps := word_of_nat (gap_count i ?ws), mt_missed := word_of_nat (lost i ?ws), mt_decoded := d, mt_last := l\<rparr>)"
    using transmission_plain [OF assms i, of no_totals] unfolding list.map first_packet [OF win] by (auto simp: no_totals_def)
  have "lost i ?ws = reached i ?ws - i - length (received i ?ws)"
    using lost_received [of i ?ws] by linarith
  moreover obtain c where "collect_mold (mold_connector (from_datagrams (map (transmit base ms) ?ws)) None) = Some (c, events_at base ms (received i ?ws))"
    "totals c = no_totals\<lparr>mt_gaps := word_of_nat (gap_count i ?ws), mt_missed := word_of_nat (lost i ?ws), mt_decoded := d, mt_last := l\<rparr>"
    using collect_mold_view [of "from_datagrams (map (transmit base ms) ?ws)" None] unfolding source_start fst_conv snd_conv v by blast
  moreover have "set (received i ?ws) \<subseteq> {i..<reached i ?ws}"
    using received_sorted [of i ?ws] by (metis atLeastLessThan_iff subsetI)
  ultimately show ?thesis
    using received_sorted [of i ?ws]
    by (intro exI [of _ c] exI [of _ "received i ?ws"] conjI) (simp_all only: totals_def no_totals_def mold_totals.simps
        mold_totals.update_convs mold_totals.iffs simp_thms)
qed

lemma three_deletes: "sound 10 (replicate 3 (encode_message (sample_header, MDelete)))"
  using decode_encoded [of "(sample_header, MDelete)" "[]"] by (simp add: sound_def length_encode_message)

lemma mold_delivers_once_in_order_witness:
  "\<exists>c js. collect_mold (mold_connector (from_datagrams (map (transmit 10 (replicate 3 (encode_message (sample_header, MDelete)))) [(0, 1), (2, 1), (0, 2)])) None)
      = Some (c, events_at 10 (replicate 3 (encode_message (sample_header, MDelete))) js)
    \<and> sorted js \<and> distinct js \<and> set js \<subseteq> {0..<3} \<and> md_gaps_detected c = 1"
proof -
  have "\<forall>w \<in> set [(0, 1), (2, 1), (0, 2)]. window_in (replicate 3 (encode_message (sample_header, MDelete))) w"
    by (simp add: window_in_def)
  from mold_delivers_once_in_order [OF three_deletes this] show ?thesis
    by (simp add: numeral_3_eq_3) blast
qed

text \<open>
  C22. With a retransmission source that has every message, the feed is gap-free: the delivered events
  are those of all messages from the first window's start to the furthest window's end, each once and
  in order, nothing is counted as missed, and the gaps are still counted.
\<close>

theorem mold_recovery_gap_free:
  assumes "sound base ms" and "\<forall>w \<in> set ((i, n) # ws). window_in ms w"
    and "\<forall>j < length ms. f (word_of_nat (base + j)) = Some (ms ! j)"
  shows "\<exists>c. collect_mold (mold_connector (from_datagrams (map (transmit base ms) ((i, n) # ws))) (Some f))
      = Some (c, events_at base ms [i..<reached i ((i, n) # ws)])
    \<and> md_messages_missed c = 0 \<and> md_gaps_detected c = word_of_nat (gap_count i ((i, n) # ws)) \<and> \<not> md_failed c"
proof -
  let ?ws = "(i, n) # ws"
  have win: "window_in ms (i, n)" and i: "i \<le> length ms" using assms(2) by (auto simp: window_in_def)
  obtain d l where v: "view (items_of (Some f) None (map (transmit base ms) ?ws) False) no_totals
      = (events_at base ms [i..<reached i ?ws], no_totals\<lparr>mt_gaps := word_of_nat (gap_count i ?ws), mt_decoded := d, mt_last := l\<rparr>)"
    using transmission_recovered [OF assms(1,2) i, of f no_totals] assms(3)
    unfolding list.map first_packet [OF win] by (auto simp: no_totals_def)
  obtain c where "collect_mold (mold_connector (from_datagrams (map (transmit base ms) ?ws)) (Some f)) = Some (c, events_at base ms [i..<reached i ?ws])"
    "totals c = no_totals\<lparr>mt_gaps := word_of_nat (gap_count i ?ws), mt_decoded := d, mt_last := l\<rparr>"
    using collect_mold_view [of "from_datagrams (map (transmit base ms) ?ws)" "Some f"] unfolding source_start fst_conv snd_conv v by blast
  then show ?thesis
    by (intro exI [of _ c] conjI) (simp_all only: totals_def no_totals_def mold_totals.simps
        mold_totals.update_convs mold_totals.iffs simp_thms)
qed

lemma mold_recovery_gap_free_witness:
  "\<exists>c. collect_mold (mold_connector (from_datagrams (map (transmit 10 (replicate 3 (encode_message (sample_header, MDelete)))) [(0, 1), (2, 1)]))
        (Some (\<lambda>sq. Some (encode_message (sample_header, MDelete)))))
      = Some (c, events_at 10 (replicate 3 (encode_message (sample_header, MDelete))) [0, 1, 2]) \<and> md_messages_missed c = 0"
proof -
  have w: "\<forall>w \<in> set [(0, 1), (2, 1)]. window_in (replicate 3 (encode_message (sample_header, MDelete))) w"
    by (simp add: window_in_def)
  have f: "\<forall>j < length (replicate 3 (encode_message (sample_header, MDelete))).
      (\<lambda>sq. Some (encode_message (sample_header, MDelete))) (word_of_nat (10 + j) :: u64) = Some (replicate 3 (encode_message (sample_header, MDelete)) ! j)"
    by simp
  have "[0..<3] = [0, 1, 2 :: nat]" by (simp add: upt_rec)
  with mold_recovery_gap_free [OF three_deletes w f] show ?thesis by auto
qed

definition is_heartbeat :: "u8 list \<Rightarrow> bool" where
  "is_heartbeat d \<longleftrightarrow> (case parse_packet d of None \<Rightarrow> False | Some p \<Rightarrow> heartbeat p)"

lemma items_of_heartbeats: "items_of rt st (filter (\<lambda>d. \<not> is_heartbeat d) ds) bad = items_of rt st ds bad"
proof (induction ds arbitrary: st)
  case Nil
  then show ?case by simp
next
  case (Cons d ds)
  show ?case
  proof (cases "is_heartbeat d")
    case True
    then obtain p where "parse_packet d = Some p" "heartbeat p" "\<not> end_of_session p"
      by (auto simp: is_heartbeat_def heartbeat_def end_of_session_def mold_end_of_session_def split: option.splits)
    with True Cons.IH show ?thesis by simp
  next
    case False
    then show ?thesis
      by (simp only: filter.simps False simp_thms if_True items_of.simps Cons.IH)
  qed
qed

text \<open>
  A heartbeat packet changes nothing, whatever sequence number it carries: dropping the heartbeats
  from a feed leaves the delivered events and every count as they are. So messages lost just before a
  heartbeat that announces a higher number are not noticed until the next data packet, and never when
  none follows.
\<close>

theorem mold_heartbeats_ignored:
  "\<exists>c1 c2. collect_mold (mold_connector (from_datagrams ds) rt) = Some (c1, fst (view (items_of rt None ds False) no_totals))
    \<and> collect_mold (mold_connector (from_datagrams (filter (\<lambda>d. \<not> is_heartbeat d) ds)) rt)
      = Some (c2, fst (view (items_of rt None ds False) no_totals))
    \<and> md_gaps_detected c1 = md_gaps_detected c2 \<and> md_messages_missed c1 = md_messages_missed c2 \<and> md_failed c1 = md_failed c2"
proof -
  obtain c1 c2 where
    c: "collect_mold (mold_connector (from_datagrams ds) rt) = Some (c1, fst (view (items_of rt None ds False) no_totals))"
      "collect_mold (mold_connector (from_datagrams (filter (\<lambda>d. \<not> is_heartbeat d) ds)) rt)
        = Some (c2, fst (view (items_of rt None ds False) no_totals))"
    and "totals c1 = totals c2"
    using collect_mold_view [of "from_datagrams ds" rt] collect_mold_view [of "from_datagrams (filter (\<lambda>d. \<not> is_heartbeat d) ds)" rt]
    unfolding source_start fst_conv snd_conv items_of_heartbeats by metis
  then have "md_gaps_detected c1 = md_gaps_detected c2 \<and> md_messages_missed c1 = md_messages_missed c2 \<and> md_failed c1 = md_failed c2"
    by (simp add: totals_def)
  with c show ?thesis by blast
qed

end
