(* ===== verification/MultiSymbol.thy ===== *)
theory MultiSymbol
  imports Views
begin

text \<open>
  \<^verbatim>\<open>MultiSymbolBook\<close>: one order book per symbol, created on the symbol's first event. Creating a book
  throws when the capacity is invalid; the exception is the left value of the sum and leaves the
  state as it was.
\<close>

section \<open>The code\<close>

record multi_book =
  mb_books :: "order_book option list"
  mb_seen :: "symbol_id list"
  mb_capacity :: nat
  mb_max_symbols :: nat

definition new_multi :: "nat \<Rightarrow> nat \<Rightarrow> multi_book" where
  "new_multi per_symbol_capacity max_symbols = \<lparr>mb_books = replicate max_symbols None, mb_seen = [],
     mb_capacity = per_symbol_capacity, mb_max_symbols = max_symbols\<rparr>"

definition multi_event :: "market_data_event \<Rightarrow> multi_book \<Rightarrow> book_error + process_result \<times> multi_book" where
  "multi_event e mb =
     (let s = unat (ev_symbol e)
      in if s \<ge> mb_max_symbols mb then Inr (CapacityExhausted, mb)
      else
        let created = (case mb_books mb ! s of
              Some bk \<Rightarrow> Inr (bk, mb)
            | None \<Rightarrow> (case new_book (mb_capacity mb) of
                  Inl err \<Rightarrow> Inl err
                | Inr bk \<Rightarrow> Inr (bk, mb\<lparr>mb_seen := mb_seen mb @ [ev_symbol e]\<rparr>)))
        in case created of
             Inl err \<Rightarrow> Inl err
           | Inr (bk, mb1) \<Rightarrow>
               (case process_event e bk of (r, bk1) \<Rightarrow> Inr (r, mb1\<lparr>mb_books := (mb_books mb1)[s := Some bk1]\<rparr>)))"

definition symbol_book :: "symbol_id \<Rightarrow> multi_book \<Rightarrow> order_book option" where
  "symbol_book s mb = (if unat s \<ge> mb_max_symbols mb then None else mb_books mb ! unat s)"

definition symbol_best_bid :: "symbol_id \<Rightarrow> multi_book \<Rightarrow> level_view option" where
  "symbol_best_bid s mb = (case symbol_book s mb of None \<Rightarrow> None | Some bk \<Rightarrow> best_bid bk)"

definition symbol_best_ask :: "symbol_id \<Rightarrow> multi_book \<Rightarrow> level_view option" where
  "symbol_best_ask s mb = (case symbol_book s mb of None \<Rightarrow> None | Some bk \<Rightarrow> best_ask bk)"

definition total_orders :: "multi_book \<Rightarrow> u64" where
  "total_orders mb = fold (\<lambda>s total. total + active_orders (the (mb_books mb ! unat s))) (mb_seen mb) 0"

definition multi_checksum :: "multi_book \<Rightarrow> u64" where
  "multi_checksum mb =
     fold (\<lambda>s result. result XOR (checksum_mix (ucast s) XOR state_checksum (the (mb_books mb ! unat s)))) (mb_seen mb) 0"

fun multi_events :: "market_data_event list \<Rightarrow> multi_book \<Rightarrow> book_error + process_result list \<times> multi_book" where
  "multi_events [] mb = Inr ([], mb)"
| "multi_events (e # es) mb = (case multi_event e mb of
     Inl err \<Rightarrow> Inl err
   | Inr (r, mb1) \<Rightarrow> (case multi_events es mb1 of
       Inl err \<Rightarrow> Inl err
     | Inr (rs, mb2) \<Rightarrow> Inr (r # rs, mb2)))"

section \<open>Invariant\<close>

definition multi_ok :: "multi_book \<Rightarrow> bool" where
  "multi_ok mb \<longleftrightarrow> length (mb_books mb) = mb_max_symbols mb \<and> distinct (mb_seen mb)
     \<and> (\<forall>s. s \<in> set (mb_seen mb) \<longleftrightarrow> symbol_book s mb \<noteq> None)"

lemma new_multi_ok: "multi_ok (new_multi cap mx)"
  by (simp add: multi_ok_def new_multi_def symbol_book_def)

lemma new_multi_book [simp]: "symbol_book s (new_multi cap mx) = None"
  by (simp add: new_multi_def symbol_book_def)

text \<open>The book an event of a symbol meets: the symbol's own, or a fresh one.\<close>

definition book_for :: "symbol_id \<Rightarrow> multi_book \<Rightarrow> order_book" where
  "book_for s mb = (case symbol_book s mb of None \<Rightarrow> projr (new_book (mb_capacity mb)) | Some bk \<Rightarrow> bk)"

definition valid_capacity :: "nat \<Rightarrow> bool" where
  "valid_capacity n \<longleftrightarrow> 0 < n \<and> n \<le> npos"

lemma valid_new_book: "valid_capacity n \<Longrightarrow> new_book n = Inr (projr (new_book n))"
  by (simp add: valid_capacity_def new_book_def)

lemma symbol_index: "unat s = unat (t :: symbol_id) \<longleftrightarrow> s = t"
  by (simp add: word_unat_eq_iff)

lemma multi_event_in_range:
  assumes "multi_ok mb" and "valid_capacity (mb_capacity mb)" and "unat (ev_symbol e) < mb_max_symbols mb"
  obtains mb1 where "multi_event e mb = Inr (fst (process_event e (book_for (ev_symbol e) mb)), mb1)"
    and "multi_ok mb1" and "mb_capacity mb1 = mb_capacity mb" and "mb_max_symbols mb1 = mb_max_symbols mb"
    and "\<And>s. symbol_book s mb1 = (if s = ev_symbol e then Some (snd (process_event e (book_for s mb))) else symbol_book s mb)"
    and "mb_seen mb1 = (if ev_symbol e \<in> set (mb_seen mb) then mb_seen mb else mb_seen mb @ [ev_symbol e])"
proof -
  let ?s = "ev_symbol e"
  let ?b = "process_event e (book_for ?s mb)"
  define mb1 where "mb1 = mb\<lparr>mb_seen := (if ?s \<in> set (mb_seen mb) then mb_seen mb else mb_seen mb @ [?s]),
    mb_books := (mb_books mb)[unat ?s := Some (snd ?b)]\<rparr>"
  have at: "symbol_book ?s mb = mb_books mb ! unat ?s" using assms(3) by (simp add: symbol_book_def)
  have len: "unat ?s < length (mb_books mb)" using assms(1,3) by (simp add: multi_ok_def)
  have seen: "?s \<in> set (mb_seen mb) \<longleftrightarrow> mb_books mb ! unat ?s \<noteq> None"
    using assms(1) at by (simp add: multi_ok_def)
  have run: "multi_event e mb = Inr (fst ?b, mb1)"
  proof (cases "mb_books mb ! unat ?s")
    case None
    obtain bk where nb: "new_book (mb_capacity mb) = Inr bk" using valid_new_book [OF assms(2)] by blast
    then have "book_for ?s mb = bk" using None by (simp add: book_for_def at)
    then show ?thesis
      using None seen assms(3) nb
      by (auto simp: multi_event_def mb1_def Let_def split: prod.split)
  next
    case (Some bk)
    then have "book_for ?s mb = bk" by (simp add: book_for_def at)
    then show ?thesis
      using Some seen assms(3) by (auto simp: multi_event_def mb1_def Let_def split: prod.split)
  qed
  have books: "symbol_book s mb1 = (if s = ?s then Some (snd (process_event e (book_for s mb))) else symbol_book s mb)" for s
    using len assms(3) by (auto simp: symbol_book_def mb1_def nth_list_update symbol_index)
  have ok: "multi_ok mb1"
    using assms(1) by (auto simp: multi_ok_def books) (auto simp: mb1_def split: if_splits)
  show thesis
    by (rule that [OF run ok _ _ books]) (simp_all add: mb1_def)
qed

lemma multi_event_out_of_range:
  "mb_max_symbols mb \<le> unat (ev_symbol e) \<Longrightarrow> multi_event e mb = Inr (CapacityExhausted, mb)"
  by (simp add: multi_event_def)

section \<open>Routing\<close>

definition of_symbol :: "symbol_id \<Rightarrow> market_data_event list \<Rightarrow> market_data_event list" where
  "of_symbol s es = filter (\<lambda>e. ev_symbol e = s) es"

text \<open>The results that belong to the events of one symbol.\<close>

definition results_of :: "symbol_id \<Rightarrow> market_data_event list \<Rightarrow> process_result list \<Rightarrow> process_result list" where
  "results_of s es rs = map snd (filter (\<lambda>(e, r). ev_symbol e = s) (zip es rs))"

text \<open>The symbols a run has seen, in first-seen order.\<close>

definition note_symbol :: "nat \<Rightarrow> market_data_event \<Rightarrow> symbol_id list \<Rightarrow> symbol_id list" where
  "note_symbol mx e seen = (if unat (ev_symbol e) < mx \<and> ev_symbol e \<notin> set seen then seen @ [ev_symbol e] else seen)"

lemma multi_events_route:
  assumes "multi_ok mb" and "valid_capacity (mb_capacity mb)"
  shows "\<exists>rs mb1. multi_events es mb = Inr (rs, mb1) \<and> multi_ok mb1 \<and> length rs = length es
    \<and> mb_seen mb1 = fold (note_symbol (mb_max_symbols mb)) es (mb_seen mb)
    \<and> mb_max_symbols mb1 = mb_max_symbols mb
    \<and> (\<forall>s. unat s < mb_max_symbols mb \<longrightarrow>
         results_of s es rs = fst (process_events (of_symbol s es) (book_for s mb))
         \<and> symbol_book s mb1 = (if of_symbol s es = [] then symbol_book s mb
             else Some (snd (process_events (of_symbol s es) (book_for s mb)))))
    \<and> (\<forall>s. mb_max_symbols mb \<le> unat s \<longrightarrow> set (results_of s es rs) \<subseteq> {CapacityExhausted})"
  using assms
proof (induction es arbitrary: mb)
  case Nil
  then show ?case by (simp add: results_of_def of_symbol_def)
next
  case (Cons e es)
  show ?case
  proof (cases "unat (ev_symbol e) < mb_max_symbols mb")
    case False
    obtain rs mb1 where IH: "multi_events es mb = Inr (rs, mb1)" "multi_ok mb1" "length rs = length es"
      "mb_seen mb1 = fold (note_symbol (mb_max_symbols mb)) es (mb_seen mb)" "mb_max_symbols mb1 = mb_max_symbols mb"
      "\<And>s. unat s < mb_max_symbols mb \<Longrightarrow>
         results_of s es rs = fst (process_events (of_symbol s es) (book_for s mb))
         \<and> symbol_book s mb1 = (if of_symbol s es = [] then symbol_book s mb
             else Some (snd (process_events (of_symbol s es) (book_for s mb))))"
      "\<And>s. mb_max_symbols mb \<le> unat s \<Longrightarrow> set (results_of s es rs) \<subseteq> {CapacityExhausted}"
      using Cons.IH [OF Cons.prems] by blast
    have run: "multi_events (e # es) mb = Inr (CapacityExhausted # rs, mb1)"
      using False IH(1) by (simp add: multi_event_out_of_range)
    have other: "of_symbol s (e # es) = of_symbol s es" "results_of s (e # es) (r # rs) = results_of s es rs"
      if "unat s < mb_max_symbols mb" for s r
      using that False by (auto simp: of_symbol_def results_of_def)
    have "set (results_of s (e # es) (CapacityExhausted # rs)) \<subseteq> {CapacityExhausted}" if "mb_max_symbols mb \<le> unat s" for s
      using IH(7) [OF that] by (auto simp: results_of_def)
    moreover have "note_symbol (mb_max_symbols mb) e seen = seen" for seen
      using False by (simp add: note_symbol_def)
    ultimately show ?thesis
      using run IH(2-6) by (intro exI [of _ "CapacityExhausted # rs"] exI [of _ mb1]) (simp add: other)
  next
    case True
    obtain mb1 where step: "multi_event e mb = Inr (fst (process_event e (book_for (ev_symbol e) mb)), mb1)"
      and ok: "multi_ok mb1" and same: "mb_capacity mb1 = mb_capacity mb" "mb_max_symbols mb1 = mb_max_symbols mb"
      and books: "\<And>s. symbol_book s mb1 = (if s = ev_symbol e then Some (snd (process_event e (book_for s mb))) else symbol_book s mb)"
      and seen: "mb_seen mb1 = (if ev_symbol e \<in> set (mb_seen mb) then mb_seen mb else mb_seen mb @ [ev_symbol e])"
      by (rule multi_event_in_range [OF Cons.prems True]) (rule that; (assumption | blast))
    obtain rs mb2 where IH: "multi_events es mb1 = Inr (rs, mb2)" "multi_ok mb2" "length rs = length es"
      "mb_seen mb2 = fold (note_symbol (mb_max_symbols mb)) es (mb_seen mb1)" "mb_max_symbols mb2 = mb_max_symbols mb"
      "\<And>s. unat s < mb_max_symbols mb \<Longrightarrow>
         results_of s es rs = fst (process_events (of_symbol s es) (book_for s mb1))
         \<and> symbol_book s mb2 = (if of_symbol s es = [] then symbol_book s mb1
             else Some (snd (process_events (of_symbol s es) (book_for s mb1))))"
      "\<And>s. mb_max_symbols mb \<le> unat s \<Longrightarrow> set (results_of s es rs) \<subseteq> {CapacityExhausted}"
      using Cons.IH [OF ok] Cons.prems(2) same by metis
    let ?r = "fst (process_event e (book_for (ev_symbol e) mb))"
    have run: "multi_events (e # es) mb = Inr (?r # rs, mb2)" by (simp add: step IH(1))
    have bf: "book_for s mb1 = (if s = ev_symbol e then snd (process_event e (book_for s mb)) else book_for s mb)" for s
      by (auto simp: book_for_def books same split: option.split)
    have res: "results_of s (e # es) (?r # rs) = fst (process_events (of_symbol s (e # es)) (book_for s mb))
         \<and> symbol_book s mb2 = (if of_symbol s (e # es) = [] then symbol_book s mb
             else Some (snd (process_events (of_symbol s (e # es)) (book_for s mb))))"
      if "unat s < mb_max_symbols mb" for s
      using IH(6) [OF that] by (auto simp: bf books results_of_def of_symbol_def split: prod.splits)
    have far: "set (results_of s (e # es) (?r # rs)) \<subseteq> {CapacityExhausted}" if "mb_max_symbols mb \<le> unat s" for s
      using IH(7) [OF that] that True by (auto simp: results_of_def)
    have "mb_seen mb2 = fold (note_symbol (mb_max_symbols mb)) (e # es) (mb_seen mb)"
      using IH(4) seen True by (simp add: note_symbol_def)
    then show ?thesis using run IH(2,3,5) res far by (intro exI [of _ "?r # rs"] exI [of _ mb2]) simp
  qed
qed

section \<open>The checksum over all books\<close>

lemma fold_xor: "fold (\<lambda>s r. r XOR f s) xs a = a XOR fold (\<lambda>s r. r XOR f s) xs (0 :: 'a::len word)"
proof (induction xs arbitrary: a)
  case Nil
  then show ?case by simp
next
  case (Cons x xs)
  show ?case using Cons [of "a XOR f x"] Cons [of "f x"] by (simp add: xor.assoc)
qed

lemma fold_xor_split:
  "fold (\<lambda>s r. r XOR (f s XOR g s)) xs (0 :: 'a::len word) = fold (\<lambda>s r. r XOR f s) xs 0 XOR fold (\<lambda>s r. r XOR g s) xs 0"
proof (induction xs)
  case Nil
  then show ?case by simp
next
  case (Cons x xs)
  then show ?case
    using fold_xor [of "\<lambda>s. f s XOR g s" xs "f x XOR g x"] fold_xor [of f xs "f x"] fold_xor [of g xs "g x"]
    by (simp add: xor.assoc xor.left_commute xor.commute)
qed

lemma fold_xor_remove:
  assumes "distinct xs" and "x \<in> set xs"
  shows "fold (\<lambda>s r. r XOR f s) xs (0 :: 'a::len word) = f x XOR fold (\<lambda>s r. r XOR f s) (remove1 x xs) 0"
  using assms
proof (induction xs)
  case Nil
  then show ?case by simp
next
  case (Cons y ys)
  show ?case
  proof (cases "x = y")
    case True
    then show ?thesis using fold_xor [of f ys "f x"] by simp
  next
    case False
    then show ?thesis
      using Cons fold_xor [of f ys "f y"] fold_xor [of f "remove1 x ys" "f y"] by (simp add: xor.left_commute)
  qed
qed

lemma fold_xor_cong: "(\<And>s. s \<in> set xs \<Longrightarrow> f s = g s) \<Longrightarrow> fold (\<lambda>s r. r XOR f s) xs a = fold (\<lambda>s r. r XOR g s) xs (a :: 'a::len word)"
  by (rule fold_cong) simp_all

text \<open>Two books that hold the same orders drop out of the checksum, on whatever two symbols they are.\<close>

lemma equal_books_cancel:
  assumes "distinct xs" and "s \<in> set xs" and "t \<in> set xs" and "s \<noteq> t" and "g s = g t"
  shows "fold (\<lambda>s r. r XOR (f s XOR g s)) xs (0 :: 'a::len word)
    = fold (\<lambda>s r. r XOR f s) xs 0 XOR fold (\<lambda>s r. r XOR g s) (remove1 t (remove1 s xs)) 0"
proof -
  have "t \<in> set (remove1 s xs)" "distinct (remove1 s xs)" using assms by (auto simp: set_remove1_eq)
  then have "fold (\<lambda>s r. r XOR g s) xs 0 = g s XOR (g t XOR fold (\<lambda>s r. r XOR g s) (remove1 t (remove1 s xs)) 0)"
    using fold_xor_remove [OF assms(1,2), of g] fold_xor_remove [of "remove1 s xs" t g] by simp
  then have "fold (\<lambda>s r. r XOR g s) xs 0 = fold (\<lambda>s r. r XOR g s) (remove1 t (remove1 s xs)) 0"
    using assms(5) by (simp flip: xor.assoc)
  then show ?thesis by (simp only: fold_xor_split)
qed

section \<open>Properties\<close>

text \<open>
  C23. Routing: over any run of a fresh multi-symbol book with a valid capacity, no exception is thrown,
  and each symbol in range has exactly the book and exactly the results that a single order book would
  have had on that symbol's events alone; a symbol has a book if and only if it had an event; events of
  symbols out of range all return \<^verbatim>\<open>CapacityExhausted\<close>; \<^verbatim>\<open>symbols()\<close> lists the symbols once, in first-seen order.
\<close>

theorem multi_symbol_routing:
  assumes "valid_capacity cap"
  shows "\<exists>rs mb. multi_events es (new_multi cap mx) = Inr (rs, mb) \<and> length rs = length es
    \<and> mb_seen mb = fold (note_symbol mx) es [] \<and> distinct (mb_seen mb)
    \<and> (\<forall>s. unat s < mx \<longrightarrow>
         results_of s es rs = fst (process_events (of_symbol s es) (projr (new_book cap)))
         \<and> symbol_book s mb = (if of_symbol s es = [] then None
             else Some (snd (process_events (of_symbol s es) (projr (new_book cap))))))
    \<and> (\<forall>s. mx \<le> unat s \<longrightarrow> set (results_of s es rs) \<subseteq> {CapacityExhausted} \<and> symbol_book s mb = None)"
proof -
  let ?mb = "new_multi cap mx"
  have f: "mb_capacity ?mb = cap" "mb_max_symbols ?mb = mx" "mb_seen ?mb = []" "book_for s ?mb = projr (new_book cap)" for s
    by (simp_all add: book_for_def) (simp_all add: new_multi_def)
  obtain rs mb where r: "multi_events es ?mb = Inr (rs, mb)" "multi_ok mb" "length rs = length es"
    "mb_seen mb = fold (note_symbol mx) es []" "mb_max_symbols mb = mx"
    and inside: "\<And>s. unat s < mx \<Longrightarrow> results_of s es rs = fst (process_events (of_symbol s es) (projr (new_book cap)))
         \<and> symbol_book s mb = (if of_symbol s es = [] then None else Some (snd (process_events (of_symbol s es) (projr (new_book cap)))))"
    and outside: "\<And>s. mx \<le> unat s \<Longrightarrow> set (results_of s es rs) \<subseteq> {CapacityExhausted}"
    using multi_events_route [OF new_multi_ok [of cap mx], of es] assms unfolding f new_multi_book by blast
  have "distinct (mb_seen mb)" "\<And>s. mx \<le> unat s \<Longrightarrow> symbol_book s mb = None"
    using r(2,5) by (simp_all add: multi_ok_def symbol_book_def)
  with r(1,3,4) inside outside show ?thesis by blast
qed

lemma multi_symbol_routing_witness:
  "\<exists>rs mb. multi_events [default_event, default_event\<lparr>ev_symbol := 9\<rparr>] (new_multi 2 4) = Inr (rs, mb)
    \<and> set (results_of 9 [default_event, default_event\<lparr>ev_symbol := 9\<rparr>] rs) \<subseteq> {CapacityExhausted}"
proof -
  have "valid_capacity 2" by (simp add: valid_capacity_def npos_def)
  from multi_symbol_routing [OF this, of "[default_event, default_event\<lparr>ev_symbol := 9\<rparr>]" 4]
  obtain rs mb where "multi_events [default_event, default_event\<lparr>ev_symbol := 9\<rparr>] (new_multi 2 4) = Inr (rs, mb)"
    and far: "\<forall>s. 4 \<le> unat s \<longrightarrow> set (results_of s [default_event, default_event\<lparr>ev_symbol := 9\<rparr>] rs) \<subseteq> {CapacityExhausted}"
    by blast
  moreover have "4 \<le> unat (9 :: symbol_id)" by simp
  ultimately show ?thesis by blast
qed

text \<open>
  The checksum over all books does not see the books of two symbols that hold equal books: two
  states with the same symbols that agree elsewhere have the same checksum, whatever the two pairs of
  equal books hold. (The symbol's mix is XORed beside the book's checksum, not into it.) The witness
  reaches two such states with different orders in them by two events each.
\<close>

theorem multi_checksum_equal_books_cancel:
  assumes "multi_ok mb" and "multi_ok mb'" and "mb_seen mb' = mb_seen mb" and "s \<noteq> t"
    and "symbol_book s mb = Some b" and "symbol_book t mb = Some b"
    and "symbol_book s mb' = Some b'" and "symbol_book t mb' = Some b'"
    and "\<forall>u. u \<noteq> s \<and> u \<noteq> t \<longrightarrow> symbol_book u mb' = symbol_book u mb"
  shows "multi_checksum mb' = multi_checksum mb"
proof -
  define g where "g mb u = state_checksum (the (symbol_book u mb))" for mb u
  have sum: "multi_checksum m = fold (\<lambda>u r. r XOR (checksum_mix (ucast u) XOR g m u)) (mb_seen m) 0" if "multi_ok m" for m
    unfolding multi_checksum_def
  proof (rule fold_xor_cong)
    fix u assume "u \<in> set (mb_seen m)"
    then have "symbol_book u m = mb_books m ! unat u"
      using that by (auto simp: multi_ok_def symbol_book_def split: if_splits)
    then show "checksum_mix (ucast u) XOR state_checksum (the (mb_books m ! unat u)) = checksum_mix (ucast u) XOR g m u"
      by (simp add: g_def)
  qed
  have d: "distinct (mb_seen mb)" "s \<in> set (mb_seen mb)" "t \<in> set (mb_seen mb)"
    using assms(1,5,6) by (auto simp: multi_ok_def)
  have rest: "fold (\<lambda>u r. r XOR g mb' u) (remove1 t (remove1 s (mb_seen mb))) 0
      = fold (\<lambda>u r. r XOR g mb u) (remove1 t (remove1 s (mb_seen mb))) 0"
  proof (rule fold_xor_cong)
    fix u assume "u \<in> set (remove1 t (remove1 s (mb_seen mb)))"
    then have "u \<noteq> s" "u \<noteq> t" using d(1) by (auto simp: set_remove1_eq)
    then show "g mb' u = g mb u" using assms(9) by (simp add: g_def)
  qed
  have "g mb s = g mb t" "g mb' s = g mb' t" using assms(5-8) by (simp_all add: g_def)
  then show ?thesis
    unfolding sum [OF assms(1)] sum [OF assms(2)] assms(3)
    using equal_books_cancel [OF d assms(4), of "g mb" "\<lambda>u. checksum_mix (ucast u)"]
      equal_books_cancel [OF d assms(4), of "g mb'" "\<lambda>u. checksum_mix (ucast u)"] rest by simp
qed

text \<open>One order with id \<^verbatim>\<open>i\<close> on each of the symbols 0 and 1.\<close>

definition on_both :: "order_id \<Rightarrow> market_data_event list" where
  "on_both i = [default_event\<lparr>ev_order_id := i, ev_quantity := 5\<rparr>,
     default_event\<lparr>ev_order_id := i, ev_quantity := 5, ev_symbol := 1\<rparr>]"

lemma event_symbol_ignored: "process_event (e\<lparr>ev_symbol := s\<rparr>) bk = process_event e bk"
proof -
  have sel: "ev_type (e\<lparr>ev_symbol := s\<rparr>) = ev_type e" "ev_order_id (e\<lparr>ev_symbol := s\<rparr>) = ev_order_id e"
    "ev_new_order_id (e\<lparr>ev_symbol := s\<rparr>) = ev_new_order_id e" "ev_side (e\<lparr>ev_symbol := s\<rparr>) = ev_side e"
    "ev_price (e\<lparr>ev_symbol := s\<rparr>) = ev_price e" "ev_quantity (e\<lparr>ev_symbol := s\<rparr>) = ev_quantity e"
    by simp_all
  show ?thesis unfolding process_event_def add_def modify_def replace_def sel ..
qed

lemma run_on_both:
  obtains rs mb where "multi_events (on_both i) (new_multi 2 4) = Inr (rs, mb)" and "multi_ok mb" and "mb_seen mb = [0, 1]"
    and "symbol_book 0 mb = Some (snd (process_event (hd (on_both i)) (projr (new_book 2))))"
    and "symbol_book 1 mb = Some (snd (process_event (hd (on_both i)) (projr (new_book 2))))"
    and "\<forall>u. u \<noteq> 0 \<and> u \<noteq> 1 \<longrightarrow> symbol_book u mb = None"
proof -
  let ?mb = "new_multi 2 4"
  have f: "mb_capacity ?mb = 2" "mb_max_symbols ?mb = 4" "mb_seen ?mb = []" "book_for s ?mb = projr (new_book 2)" for s
    by (simp_all add: book_for_def) (simp_all add: new_multi_def)
  have v: "valid_capacity (mb_capacity ?mb)" by (simp add: f valid_capacity_def npos_def)
  obtain rs mb where r: "multi_events (on_both i) ?mb = Inr (rs, mb)" "multi_ok mb"
    "mb_seen mb = fold (note_symbol 4) (on_both i) []" "mb_max_symbols mb = 4"
    and inside: "\<forall>s. unat s < 4 \<longrightarrow> symbol_book s mb = (if of_symbol s (on_both i) = [] then None
        else Some (snd (process_events (of_symbol s (on_both i)) (projr (new_book 2)))))"
    using multi_events_route [OF new_multi_ok v, of "on_both i"] unfolding f new_multi_book by blast
  let ?e = "default_event\<lparr>ev_order_id := i, ev_quantity := 5\<rparr>"
  have each: "of_symbol 0 (on_both i) = [?e]" "of_symbol 1 (on_both i) = [?e\<lparr>ev_symbol := 1\<rparr>]"
    by (simp_all add: of_symbol_def on_both_def default_event_def)
  have hd: "hd (on_both i) = ?e" by (simp add: on_both_def)
  have none: "of_symbol u (on_both i) = []" if "u \<noteq> 0" "u \<noteq> 1" for u
    using that by (simp add: of_symbol_def on_both_def default_event_def)
  have "mb_seen mb = [0, 1]"
    unfolding r(3) by (simp add: on_both_def note_symbol_def default_event_def)
  moreover have "symbol_book 0 mb = Some (snd (process_event (hd (on_both i)) (projr (new_book 2))))"
    using inside [rule_format, of 0] unfolding each hd by (simp split: prod.split)
  moreover have "symbol_book 1 mb = Some (snd (process_event (hd (on_both i)) (projr (new_book 2))))"
    using inside [rule_format, of 1] unfolding each hd by (simp add: event_symbol_ignored split: prod.split)
  moreover have "\<forall>u. u \<noteq> 0 \<and> u \<noteq> 1 \<longrightarrow> symbol_book u mb = None"
  proof (intro allI impI)
    fix u :: symbol_id
    assume u: "u \<noteq> 0 \<and> u \<noteq> 1"
    show "symbol_book u mb = None"
    proof (cases "unat u < 4")
      case True
      then show ?thesis using inside none u by simp
    next
      case False
      then show ?thesis using r(4) by (simp add: symbol_book_def)
    qed
  qed
  ultimately show thesis using that r(1,2) by blast
qed

lemma on_both_differ:
  "find_order 1 (snd (process_event (hd (on_both 1)) (projr (new_book 2)))) \<noteq> None"
  "find_order 1 (snd (process_event (hd (on_both 2)) (projr (new_book 2)))) = None"
proof -
  have n: "new_book 2 = Inr (projr (new_book 2))" by (rule valid_new_book) (simp add: valid_capacity_def npos_def)
  have room: "level_room (level_lookup (projr (new_book 2)))"
    using new_book_ok(4) [OF n] next_power_of_two_ge [of 4] by (simp add: level_room_empties)
  have *: "abs_book (snd (process_event (hd (on_both i)) (projr (new_book 2)))) = snd (spec_event 2 (hd (on_both i)) spec_empty)" for i
    using process_event_refines [OF new_book_ok(1) [OF n] room, of "hd (on_both i)"] new_book_ok(2,3) [OF n]
    by (simp add: refines_def)
  have "find_order 1 (snd (process_event (hd (on_both i)) (projr (new_book 2)))) = sb_orders (snd (spec_event 2 (hd (on_both i)) spec_empty)) 1" for i
    by (simp flip: *)
  then show "find_order 1 (snd (process_event (hd (on_both 1)) (projr (new_book 2)))) \<noteq> None"
    "find_order 1 (snd (process_event (hd (on_both 2)) (projr (new_book 2)))) = None"
    by (simp_all add: on_both_def spec_event_def spec_rest_def spec_empty_def default_event_def)
qed

lemma multi_checksum_equal_books_cancel_witness:
  "\<exists>rs mb rs' mb'. multi_events (on_both 1) (new_multi 2 4) = Inr (rs, mb) \<and> multi_events (on_both 2) (new_multi 2 4) = Inr (rs', mb')
    \<and> symbol_book 0 mb \<noteq> symbol_book 0 mb' \<and> multi_checksum mb' = multi_checksum mb"
proof -
  obtain rs mb where a: "multi_events (on_both 1) (new_multi 2 4) = Inr (rs, mb)" "multi_ok mb" "mb_seen mb = [0, 1]"
    "symbol_book 0 mb = Some (snd (process_event (hd (on_both 1)) (projr (new_book 2))))"
    "symbol_book 1 mb = Some (snd (process_event (hd (on_both 1)) (projr (new_book 2))))"
    "\<forall>u. u \<noteq> 0 \<and> u \<noteq> 1 \<longrightarrow> symbol_book u mb = None"
    by (rule run_on_both [of 1]) (rule that; (assumption | blast))
  obtain rs' mb' where b: "multi_events (on_both 2) (new_multi 2 4) = Inr (rs', mb')" "multi_ok mb'" "mb_seen mb' = [0, 1]"
    "symbol_book 0 mb' = Some (snd (process_event (hd (on_both 2)) (projr (new_book 2))))"
    "symbol_book 1 mb' = Some (snd (process_event (hd (on_both 2)) (projr (new_book 2))))"
    "\<forall>u. u \<noteq> 0 \<and> u \<noteq> 1 \<longrightarrow> symbol_book u mb' = None"
    by (rule run_on_both [of 2]) (rule that; (assumption | blast))
  have "mb_seen mb' = mb_seen mb" "(0 :: symbol_id) \<noteq> 1" "\<forall>u. u \<noteq> 0 \<and> u \<noteq> 1 \<longrightarrow> symbol_book u mb' = symbol_book u mb"
    using a(3,6) b(3,6) by simp_all
  then have "multi_checksum mb' = multi_checksum mb"
    using multi_checksum_equal_books_cancel [OF a(2) b(2) _ _ a(4,5) b(4,5)] by blast
  moreover have "symbol_book 0 mb \<noteq> symbol_book 0 mb'" using on_both_differ a(4) b(4) by auto
  ultimately show ?thesis using a(1) b(1) by blast
qed

end
