(* ===== verification/Spsc.thy ===== *)
theory Spsc
  imports Prelude
begin

text \<open>
  \<^verbatim>\<open>SpscQueue\<close>: the bounded ring for one producer and one consumer. The two operations are given twice:
  as the functions of the code, and cut into their atomic accesses, one step for each load or store of
  a shared member, so that the accesses of the two threads interleave in every order. A step reads the
  last value stored; the release and acquire orderings of the code are modelled in \<^verbatim>\<open>SpscMemory\<close>.
\<close>

section \<open>The code\<close>

record 'a spsc =
  q_storage :: "'a list"
  q_head :: nat
  q_tail :: nat

abbreviation q_capacity :: "'a spsc \<Rightarrow> nat" where
  "q_capacity q \<equiv> length (q_storage q)"

definition new_spsc :: "nat \<Rightarrow> 'a \<Rightarrow> 'a spsc" where
  "new_spsc capacity d = \<lparr>q_storage = replicate capacity d, q_head = 0, q_tail = 0\<rparr>"

definition usable_capacity :: "'a spsc \<Rightarrow> nat" where
  "usable_capacity q = q_capacity q - 1"

definition increment :: "nat \<Rightarrow> nat \<Rightarrow> nat" where
  "increment capacity index = (index + 1) mod capacity"

definition try_push :: "'a \<Rightarrow> 'a spsc \<Rightarrow> bool \<times> 'a spsc" where
  "try_push item q =
     (let head = q_head q;
          nxt = increment (q_capacity q) head
      in if nxt = q_tail q then (False, q)
         else
           let q1 = q\<lparr>q_storage := (q_storage q)[head := item]\<rparr>
           in (True, q1\<lparr>q_head := nxt\<rparr>))"

definition try_pop :: "'a spsc \<Rightarrow> 'a option \<times> 'a spsc" where
  "try_pop q =
     (let tail = q_tail q
      in if tail = q_head q then (None, q)
         else
           let item = q_storage q ! tail
           in (Some item, q\<lparr>q_tail := increment (q_capacity q) tail\<rparr>))"

definition q_empty :: "'a spsc \<Rightarrow> bool" where
  "q_empty q \<longleftrightarrow> q_tail q = q_head q"

definition size_approx :: "'a spsc \<Rightarrow> nat" where
  "size_approx q =
     (let head = q_head q; tail = q_tail q
      in if head \<ge> tail then head - tail else q_capacity q - tail + head)"

section \<open>The atomic accesses\<close>

text \<open>Where a thread is in its operation, with the values of its local variables.\<close>

datatype 'a producer =
    PIdle
  | PCalled 'a
  | PLoaded 'a nat
  | PFree 'a nat
  | PStored 'a nat

datatype 'a consumer =
    CIdle
  | CCalled
  | CLoaded nat
  | CReady nat
  | CRead nat 'a

datatype 'a label = Tau | Pushed 'a | PushFull | Popped 'a | PopEmpty

fun push_step :: "'a producer \<Rightarrow> 'a spsc \<Rightarrow> 'a label \<times> 'a producer \<times> 'a spsc" where
  "push_step PIdle q = (Tau, PIdle, q)"
| "push_step (PCalled item) q = (Tau, PLoaded item (q_head q), q)"
| "push_step (PLoaded item head) q =
     (if increment (q_capacity q) head = q_tail q then (PushFull, PIdle, q) else (Tau, PFree item head, q))"
| "push_step (PFree item head) q = (Tau, PStored item head, q\<lparr>q_storage := (q_storage q)[head := item]\<rparr>)"
| "push_step (PStored item head) q = (Pushed item, PIdle, q\<lparr>q_head := increment (q_capacity q) head\<rparr>)"

fun pop_step :: "'a consumer \<Rightarrow> 'a spsc \<Rightarrow> 'a label \<times> 'a consumer \<times> 'a spsc" where
  "pop_step CIdle q = (Tau, CIdle, q)"
| "pop_step CCalled q = (Tau, CLoaded (q_tail q), q)"
| "pop_step (CLoaded tail) q = (if tail = q_head q then (PopEmpty, CIdle, q) else (Tau, CReady tail, q))"
| "pop_step (CReady tail) q = (Tau, CRead tail (q_storage q ! tail), q)"
| "pop_step (CRead tail item) q = (Popped item, CIdle, q\<lparr>q_tail := increment (q_capacity q) tail\<rparr>)"

record 'a spsc_system =
  sy_queue :: "'a spsc"
  sy_producer :: "'a producer"
  sy_consumer :: "'a consumer"

inductive spsc_step :: "'a spsc_system \<Rightarrow> 'a label \<Rightarrow> 'a spsc_system \<Rightarrow> bool" where
  call_push: "sy_producer s = PIdle \<Longrightarrow> spsc_step s Tau (s\<lparr>sy_producer := PCalled item\<rparr>)"
| call_pop: "sy_consumer s = CIdle \<Longrightarrow> spsc_step s Tau (s\<lparr>sy_consumer := CCalled\<rparr>)"
| producer: "push_step (sy_producer s) (sy_queue s) = (l, p, q) \<Longrightarrow> spsc_step s l (s\<lparr>sy_producer := p, sy_queue := q\<rparr>)"
| consumer: "pop_step (sy_consumer s) (sy_queue s) = (l, c, q) \<Longrightarrow> spsc_step s l (s\<lparr>sy_consumer := c, sy_queue := q\<rparr>)"

text \<open>Without interference the accesses, one after the other, are the function.\<close>

fun push_run :: "nat \<Rightarrow> 'a producer \<Rightarrow> 'a spsc \<Rightarrow> 'a label \<times> 'a spsc" where
  "push_run 0 p q = (Tau, q)"
| "push_run (Suc n) p q = (case push_step p q of (l, p1, q1) \<Rightarrow> if p1 = PIdle then (l, q1) else push_run n p1 q1)"

fun pop_run :: "nat \<Rightarrow> 'a consumer \<Rightarrow> 'a spsc \<Rightarrow> 'a label \<times> 'a spsc" where
  "pop_run 0 c q = (Tau, q)"
| "pop_run (Suc n) c q = (case pop_step c q of (l, c1, q1) \<Rightarrow> if c1 = CIdle then (l, q1) else pop_run n c1 q1)"

lemma push_run_try_push:
  "push_run 4 (PCalled item) q = (if fst (try_push item q) then Pushed item else PushFull, snd (try_push item q))"
  by (simp add: numeral_eq_Suc try_push_def Let_def)

lemma pop_run_try_pop:
  "pop_run 4 CCalled q = (case fst (try_pop q) of None \<Rightarrow> PopEmpty | Some item \<Rightarrow> Popped item, snd (try_pop q))"
  by (simp add: numeral_eq_Suc try_pop_def Let_def)

section \<open>The contents of the ring\<close>

definition q_length :: "'a spsc \<Rightarrow> nat" where
  "q_length q = (q_head q + q_capacity q - q_tail q) mod q_capacity q"

definition contents :: "'a spsc \<Rightarrow> 'a list" where
  "contents q = map (\<lambda>k. q_storage q ! ((q_tail q + k) mod q_capacity q)) [0..<q_length q]"

definition spsc_ok :: "'a spsc \<Rightarrow> bool" where
  "spsc_ok q \<longleftrightarrow> 2 \<le> q_capacity q \<and> q_head q < q_capacity q \<and> q_tail q < q_capacity q"

lemma length_contents [simp]: "length (contents q) = q_length q"
  by (simp add: contents_def)

lemma ring_pos: "spsc_ok q \<Longrightarrow> 0 < q_capacity q"
  unfolding spsc_ok_def by linarith

lemma q_length_less: "spsc_ok q \<Longrightarrow> q_length q < q_capacity q"
  unfolding q_length_def by (rule mod_less_divisor) (rule ring_pos)

lemma increment_less: "0 < c \<Longrightarrow> increment c i < c"
  unfolding increment_def by (rule mod_less_divisor)

lemma head_reached: "spsc_ok q \<Longrightarrow> (q_tail q + q_length q) mod q_capacity q = q_head q"
  by (simp add: q_length_def spsc_ok_def mod_add_right_eq)

lemma length_unique:
  assumes "spsc_ok q" and "n < q_capacity q" and "(q_tail q + n) mod q_capacity q = q_head q"
  shows "q_length q = n"
  using ring_dist_unique [OF q_length_less [OF assms(1)] assms(2), of "q_tail q"] head_reached [OF assms(1)] assms(3) by simp

lemma empty_iff: "spsc_ok q \<Longrightarrow> q_tail q = q_head q \<longleftrightarrow> q_length q = 0"
  using head_reached [of q] length_unique [of q 0] ring_pos [of q] by (fastforce simp: spsc_ok_def)

lemma full_iff:
  assumes "spsc_ok q"
  shows "increment (q_capacity q) (q_head q) = q_tail q \<longleftrightarrow> q_length q = q_capacity q - 1"
proof -
  have eq: "increment (q_capacity q) (q_head q) = (q_tail q + Suc (q_length q)) mod q_capacity q"
    using ring_step [of "q_tail q" "q_length q" "q_capacity q"] head_reached [OF assms] by (simp add: increment_def)
  have t: "q_tail q = (q_tail q + 0) mod q_capacity q" using assms by (simp add: spsc_ok_def)
  show ?thesis
  proof
    assume full: "increment (q_capacity q) (q_head q) = q_tail q"
    show "q_length q = q_capacity q - 1"
    proof (rule ccontr)
      assume "q_length q \<noteq> q_capacity q - 1"
      then have "Suc (q_length q) < q_capacity q" using q_length_less [OF assms] by linarith
      then show False
        using ring_dist_unique [of "Suc (q_length q)" "q_capacity q" 0 "q_tail q"] full eq t ring_pos [OF assms] by simp
    qed
  next
    assume "q_length q = q_capacity q - 1"
    then have "Suc (q_length q) = q_capacity q" using ring_pos [OF assms] by linarith
    then show "increment (q_capacity q) (q_head q) = q_tail q"
      unfolding eq using assms by (simp add: spsc_ok_def)
  qed
qed

lemma size_approx_exact: "spsc_ok q \<Longrightarrow> size_approx q = q_length q"
  by (auto simp: size_approx_def q_length_def spsc_ok_def Let_def mod_if)

text \<open>Storing behind the contents, publishing the store, and taking the first item.\<close>

lemma store_keeps:
  assumes "spsc_ok q"
  shows "spsc_ok (q\<lparr>q_storage := (q_storage q)[q_head q := item]\<rparr>)"
    and "contents (q\<lparr>q_storage := (q_storage q)[q_head q := item]\<rparr>) = contents q"
proof -
  let ?q = "q\<lparr>q_storage := (q_storage q)[q_head q := item]\<rparr>"
  have "q_head q \<noteq> (q_tail q + k) mod q_capacity q" if "k < q_length q" for k
    using ring_dist_unique [of k "q_capacity q" "q_length q" "q_tail q"] q_length_less [OF assms] head_reached [OF assms] that
    by auto
  moreover have "q_length ?q = q_length q" by (simp add: q_length_def)
  ultimately show "contents ?q = contents q"
    by (simp add: contents_def)
  show "spsc_ok (q\<lparr>q_storage := (q_storage q)[q_head q := item]\<rparr>)" using assms by (simp add: spsc_ok_def)
qed

lemma publish:
  assumes "spsc_ok q" and "increment (q_capacity q) (q_head q) \<noteq> q_tail q"
  shows "spsc_ok (q\<lparr>q_head := increment (q_capacity q) (q_head q)\<rparr>)"
    and "contents (q\<lparr>q_head := increment (q_capacity q) (q_head q)\<rparr>) = contents q @ [q_storage q ! q_head q]"
proof -
  let ?q = "q\<lparr>q_head := increment (q_capacity q) (q_head q)\<rparr>"
  show ok: "spsc_ok ?q" using assms(1) increment_less [OF ring_pos [OF assms(1)]] by (simp add: spsc_ok_def)
  have "Suc (q_length q) < q_capacity q"
    using full_iff [OF assms(1)] assms(2) q_length_less [OF assms(1)] by linarith
  moreover have "(q_tail q + Suc (q_length q)) mod q_capacity q = increment (q_capacity q) (q_head q)"
    using ring_step [of "q_tail q" "q_length q" "q_capacity q"] head_reached [OF assms(1)] by (simp add: increment_def)
  ultimately have "q_length ?q = Suc (q_length q)"
    using length_unique [OF ok, of "Suc (q_length q)"] by simp
  then show "contents ?q = contents q @ [q_storage q ! q_head q]"
    using head_reached [OF assms(1)] by (simp add: contents_def)
qed

lemma take_first:
  assumes "spsc_ok q" and "q_tail q \<noteq> q_head q"
  shows "spsc_ok (q\<lparr>q_tail := increment (q_capacity q) (q_tail q)\<rparr>)"
    and "contents q = q_storage q ! q_tail q # contents (q\<lparr>q_tail := increment (q_capacity q) (q_tail q)\<rparr>)"
proof -
  let ?q = "q\<lparr>q_tail := increment (q_capacity q) (q_tail q)\<rparr>"
  show ok: "spsc_ok ?q" using assms(1) increment_less [OF ring_pos [OF assms(1)]] by (simp add: spsc_ok_def)
  obtain n where n: "q_length q = Suc n" using empty_iff [OF assms(1)] assms(2) by (cases "q_length q") auto
  have step: "(increment (q_capacity q) (q_tail q) + k) mod q_capacity q = (q_tail q + Suc k) mod q_capacity q" for k
    by (simp add: increment_def mod_add_left_eq)
  have "q_length ?q = n"
    using length_unique [OF ok, of n] q_length_less [OF assms(1)] head_reached [OF assms(1)] by (simp add: n step)
  moreover have "[0..<Suc n] = 0 # map Suc [0..<n]" by (simp add: map_Suc_upt upt_conv_Cons del: upt_Suc)
  ultimately show "contents q = q_storage q ! q_tail q # contents ?q"
    using assms(1) step by (simp add: contents_def n spsc_ok_def del: upt_Suc)
qed

section \<open>The interface: a bounded first-in first-out queue\<close>

locale bounded_queue =
  fixes push :: "'a \<Rightarrow> 'q \<Rightarrow> bool \<times> 'q" and pop :: "'q \<Rightarrow> 'a option \<times> 'q"
    and items :: "'q \<Rightarrow> 'a list" and room :: "'q \<Rightarrow> nat" and ok :: "'q \<Rightarrow> bool"
  assumes push_ok: "ok q \<Longrightarrow> ok (snd (push x q)) \<and> room (snd (push x q)) = room q"
    and push_items: "ok q \<Longrightarrow> fst (push x q) = (length (items q) < room q)
      \<and> items (snd (push x q)) = (if length (items q) < room q then items q @ [x] else items q)"
    and pop_ok: "ok q \<Longrightarrow> ok (snd (pop q)) \<and> room (snd (pop q)) = room q"
    and pop_items: "ok q \<Longrightarrow> fst (pop q) = (case items q of [] \<Rightarrow> None | x # _ \<Rightarrow> Some x) \<and> items (snd (pop q)) = tl (items q)"
begin

fun push_all :: "'a list \<Rightarrow> 'q \<Rightarrow> 'q" where
  "push_all [] q = q"
| "push_all (x # xs) q = push_all xs (snd (push x q))"

fun pop_all :: "nat \<Rightarrow> 'q \<Rightarrow> 'a option list \<times> 'q" where
  "pop_all 0 q = ([], q)"
| "pop_all (Suc n) q = (case pop q of (x, q1) \<Rightarrow> case pop_all n q1 of (xs, q2) \<Rightarrow> (x # xs, q2))"

lemma push_all_items:
  assumes "ok q" and "length (items q) + length xs \<le> room q"
  shows "ok (push_all xs q) \<and> items (push_all xs q) = items q @ xs \<and> room (push_all xs q) = room q"
  using assms
proof (induction xs arbitrary: q)
  case Nil
  then show ?case by simp
next
  case (Cons x xs)
  then show ?case using push_ok [of q x] push_items [of q x] by simp
qed

lemma pop_all_items:
  assumes "ok q" and "n \<le> length (items q)"
  shows "fst (pop_all n q) = map Some (take n (items q)) \<and> items (snd (pop_all n q)) = drop n (items q) \<and> ok (snd (pop_all n q))"
  using assms
proof (induction n arbitrary: q)
  case 0
  then show ?case by simp
next
  case (Suc n)
  obtain x xs where i: "items q = x # xs" using Suc.prems(2) by (cases "items q") auto
  obtain q1 where p: "pop q = (Some x, q1)" "items q1 = xs" "ok q1"
    using pop_items [OF Suc.prems(1)] pop_ok [OF Suc.prems(1)] i by (cases "pop q") auto
  then show ?case using Suc.IH [OF p(3)] Suc.prems(2) i by (auto split: prod.split)
qed

text \<open>What goes in within the bound comes out, in order, and leaves the queue as it was.\<close>

lemma through_queue:
  assumes "ok q" and "items q = []" and "length xs \<le> room q"
  shows "fst (pop_all (length xs) (push_all xs q)) = map Some xs \<and> items (snd (pop_all (length xs) (push_all xs q))) = []"
  using pop_all_items [of "push_all xs q" "length xs"] push_all_items [of q xs] assms by simp

end

interpretation spsc: bounded_queue try_push try_pop contents usable_capacity spsc_ok
proof
  fix q :: "'a spsc" and x
  assume ok: "spsc_ok q"
  let ?q = "q\<lparr>q_storage := (q_storage q)[q_head q := x]\<rparr>"
  have full: "increment (q_capacity q) (q_head q) = q_tail q \<longleftrightarrow> \<not> q_length q < usable_capacity q"
    using full_iff [OF ok] q_length_less [OF ok] by (auto simp: usable_capacity_def)
  have at: "q_storage ?q ! q_head ?q = x" using ok by (simp add: spsc_ok_def)
  have pub: "spsc_ok (?q\<lparr>q_head := increment (q_capacity q) (q_head q)\<rparr>)"
    "contents (?q\<lparr>q_head := increment (q_capacity q) (q_head q)\<rparr>) = contents q @ [x]"
    if "increment (q_capacity q) (q_head q) \<noteq> q_tail q"
    using publish [OF store_keeps(1) [OF ok]] that at store_keeps(2) [OF ok] by simp_all
  show "spsc_ok (snd (try_push x q)) \<and> usable_capacity (snd (try_push x q)) = usable_capacity q"
    using ok pub(1) by (auto simp: try_push_def usable_capacity_def Let_def)
  show "fst (try_push x q) = (length (contents q) < usable_capacity q)
      \<and> contents (snd (try_push x q)) = (if length (contents q) < usable_capacity q then contents q @ [x] else contents q)"
    using full pub(2) by (auto simp: try_push_def Let_def)
  show "spsc_ok (snd (try_pop q)) \<and> usable_capacity (snd (try_pop q)) = usable_capacity q"
    using ok take_first(1) [OF ok] by (auto simp: try_pop_def usable_capacity_def Let_def)
  show "fst (try_pop q) = (case contents q of [] \<Rightarrow> None | x # _ \<Rightarrow> Some x) \<and> contents (snd (try_pop q)) = tl (contents q)"
  proof (cases "q_tail q = q_head q")
    case True
    then have "contents q = []" using empty_iff [OF ok] by (simp add: contents_def)
    then show ?thesis using True by (simp add: try_pop_def)
  next
    case False
    then show ?thesis using take_first(2) [OF ok] by (simp add: try_pop_def Let_def)
  qed
qed

section \<open>Every interleaving\<close>

text \<open>What the two threads know of the shared members wherever they are.\<close>

definition producer_ok :: "'a spsc \<Rightarrow> 'a producer \<Rightarrow> bool" where
  "producer_ok q p \<longleftrightarrow> (case p of
       PIdle \<Rightarrow> True
     | PCalled _ \<Rightarrow> True
     | PLoaded _ head \<Rightarrow> head = q_head q
     | PFree _ head \<Rightarrow> head = q_head q \<and> q_length q < usable_capacity q
     | PStored item head \<Rightarrow> head = q_head q \<and> q_length q < usable_capacity q \<and> q_storage q ! head = item)"

definition consumer_ok :: "'a spsc \<Rightarrow> 'a consumer \<Rightarrow> bool" where
  "consumer_ok q c \<longleftrightarrow> (case c of
       CIdle \<Rightarrow> True
     | CCalled \<Rightarrow> True
     | CLoaded tail \<Rightarrow> tail = q_tail q
     | CReady tail \<Rightarrow> tail = q_tail q \<and> contents q \<noteq> []
     | CRead tail item \<Rightarrow> tail = q_tail q \<and> contents q \<noteq> [] \<and> hd (contents q) = item)"

definition system_ok :: "'a spsc_system \<Rightarrow> bool" where
  "system_ok s \<longleftrightarrow> spsc_ok (sy_queue s) \<and> producer_ok (sy_queue s) (sy_producer s) \<and> consumer_ok (sy_queue s) (sy_consumer s)"

text \<open>The specification: a list of at most \<^verbatim>\<open>n\<close> items, and what a label may do to it.\<close>

fun queue_spec :: "nat \<Rightarrow> 'a list \<Rightarrow> 'a label \<Rightarrow> 'a list \<Rightarrow> bool" where
  "queue_spec n xs Tau ys = (ys = xs)"
| "queue_spec n xs (Pushed x) ys = (length xs < n \<and> ys = xs @ [x])"
| "queue_spec n xs PushFull ys = (length xs = n \<and> ys = xs)"
| "queue_spec n xs (Popped x) ys = (xs = x # ys)"
| "queue_spec n xs PopEmpty ys = (xs = [] \<and> ys = xs)"

lemma not_full:
  "spsc_ok q \<Longrightarrow> increment (q_capacity q) (q_head q) \<noteq> q_tail q \<longleftrightarrow> q_length q < usable_capacity q"
  using full_iff [of q] q_length_less [of q] by (auto simp: usable_capacity_def)

lemma first_item:
  "spsc_ok q \<Longrightarrow> contents q \<noteq> [] \<Longrightarrow> q_tail q \<noteq> q_head q \<and> hd (contents q) = q_storage q ! q_tail q"
  using empty_iff [of q] take_first(2) [of q] by (metis length_0_conv length_contents list.sel(1))

lemma push_step_ok:
  assumes "spsc_ok q" and "producer_ok q p" and "consumer_ok q c" and "push_step p q = (l, p', q')"
  shows "spsc_ok q' \<and> producer_ok q' p' \<and> consumer_ok q' c \<and> usable_capacity q' = usable_capacity q
    \<and> queue_spec (usable_capacity q) (contents q) l (contents q')"
proof (cases p)
  case PIdle
  then show ?thesis using assms by auto
next
  case (PCalled item)
  then show ?thesis using assms by (auto simp: producer_ok_def)
next
  case (PLoaded item head)
  then have "head = q_head q" using assms(2) by (simp add: producer_ok_def)
  then show ?thesis
    using assms PLoaded not_full [OF assms(1)] full_iff [OF assms(1)]
    by (auto simp: producer_ok_def usable_capacity_def split: if_splits)
next
  case (PFree item head)
  then have h: "head = q_head q" "q_length q < usable_capacity q" using assms(2) by (simp_all add: producer_ok_def)
  have q': "l = Tau" "p' = PStored item head" "q' = q\<lparr>q_storage := (q_storage q)[q_head q := item]\<rparr>"
    using assms(4) PFree h by simp_all
  note keep = store_keeps [OF assms(1), of item, folded q'(3)]
  have len: "q_length q' = q_length q" using keep(2) by (metis length_contents)
  have "q_storage q' ! q_head q' = item" using assms(1) by (simp add: q'(3) spsc_ok_def)
  moreover have "q_head q' = q_head q" "q_tail q' = q_tail q" "usable_capacity q' = usable_capacity q"
    by (simp_all add: q'(3) usable_capacity_def)
  ultimately show ?thesis
    using assms(3) keep h len q'(1,2) by (auto simp: producer_ok_def consumer_ok_def split: consumer.splits)
next
  case (PStored item head)
  then have h: "head = q_head q" "q_length q < usable_capacity q" "q_storage q ! q_head q = item"
    using assms(2) by (auto simp: producer_ok_def)
  have q': "l = Pushed item" "p' = PIdle" "q' = q\<lparr>q_head := increment (q_capacity q) (q_head q)\<rparr>"
    using assms(4) PStored h by simp_all
  have room: "increment (q_capacity q) (q_head q) \<noteq> q_tail q" using not_full [OF assms(1)] h by simp
  note pub = publish [OF assms(1) room, folded q'(3)]
  have "q_tail q' = q_tail q" "usable_capacity q' = usable_capacity q" by (simp_all add: q'(3) usable_capacity_def)
  moreover have "contents q \<noteq> [] \<Longrightarrow> hd (contents q') = hd (contents q)" using pub(2) by simp
  ultimately show ?thesis
    using assms(3) pub h q'(1,2) by (auto simp: producer_ok_def consumer_ok_def split: consumer.splits)
qed

lemma pop_step_ok:
  assumes "spsc_ok q" and "producer_ok q p" and "consumer_ok q c" and "pop_step c q = (l, c', q')"
  shows "spsc_ok q' \<and> producer_ok q' p \<and> consumer_ok q' c' \<and> usable_capacity q' = usable_capacity q
    \<and> queue_spec (usable_capacity q) (contents q) l (contents q')"
proof (cases c)
  case CIdle
  then show ?thesis using assms by auto
next
  case CCalled
  then show ?thesis using assms by (auto simp: consumer_ok_def)
next
  case (CLoaded tail)
  then have "tail = q_tail q" using assms(3) by (simp add: consumer_ok_def)
  moreover have "q_tail q = q_head q \<longleftrightarrow> contents q = []"
    using empty_iff [OF assms(1)] by (simp flip: length_0_conv)
  ultimately show ?thesis
    using assms CLoaded by (auto simp: consumer_ok_def split: if_splits)
next
  case (CReady tail)
  then show ?thesis using assms first_item [OF assms(1)] by (auto simp: consumer_ok_def)
next
  case (CRead tail item)
  then have h: "tail = q_tail q" "contents q \<noteq> []" "hd (contents q) = item" using assms(3) by (simp_all add: consumer_ok_def)
  have q': "l = Popped item" "c' = CIdle" "q' = q\<lparr>q_tail := increment (q_capacity q) (q_tail q)\<rparr>"
    using assms(4) CRead h by simp_all
  note tk = take_first [OF assms(1) conjunct1 [OF first_item [OF assms(1) h(2)]], folded q'(3)]
  have c: "contents q = item # contents q'" using tk(2) h(3) by simp
  then have "q_length q = Suc (q_length q')" by (metis length_Cons length_contents)
  moreover have "q_head q' = q_head q" "q_storage q' = q_storage q" "usable_capacity q' = usable_capacity q"
    by (simp_all add: q'(3) usable_capacity_def)
  ultimately show ?thesis
    using assms(2) tk(1) c q'(1,2) by (auto simp: producer_ok_def consumer_ok_def split: producer.splits)
qed

lemma spsc_step_refines:
  assumes "spsc_step s l s'" and "system_ok s"
  shows "system_ok s' \<and> usable_capacity (sy_queue s') = usable_capacity (sy_queue s)
    \<and> queue_spec (usable_capacity (sy_queue s)) (contents (sy_queue s)) l (contents (sy_queue s'))"
  using assms
proof (induction rule: spsc_step.induct)
  case (producer s l p q)
  then show ?case using push_step_ok [of "sy_queue s" "sy_producer s" "sy_consumer s" l p q] by (simp add: system_ok_def)
next
  case (consumer s l c q)
  then show ?case using pop_step_ok [of "sy_queue s" "sy_producer s" "sy_consumer s" l c q] by (simp add: system_ok_def)
qed (simp_all add: system_ok_def producer_ok_def consumer_ok_def)

section \<open>Runs\<close>

inductive spsc_run :: "'a spsc_system \<Rightarrow> 'a label list \<Rightarrow> 'a spsc_system \<Rightarrow> bool" where
  run_nil: "spsc_run s [] s"
| run_step: "spsc_run s ls s1 \<Longrightarrow> spsc_step s1 l s2 \<Longrightarrow> spsc_run s (ls @ [l]) s2"

definition start_system :: "nat \<Rightarrow> 'a \<Rightarrow> 'a spsc_system" where
  "start_system capacity d = \<lparr>sy_queue = new_spsc capacity d, sy_producer = PIdle, sy_consumer = CIdle\<rparr>"

definition pushed_items :: "'a label list \<Rightarrow> 'a list" where
  "pushed_items ls = concat (map (\<lambda>l. case l of Pushed x \<Rightarrow> [x] | _ \<Rightarrow> []) ls)"

definition popped_items :: "'a label list \<Rightarrow> 'a list" where
  "popped_items ls = concat (map (\<lambda>l. case l of Popped x \<Rightarrow> [x] | _ \<Rightarrow> []) ls)"

lemma run_refines:
  assumes "spsc_run s ls s'" and "system_ok s"
  shows "system_ok s' \<and> usable_capacity (sy_queue s') = usable_capacity (sy_queue s)
    \<and> contents (sy_queue s) @ pushed_items ls = popped_items ls @ contents (sy_queue s')"
  using assms
proof (induction rule: spsc_run.induct)
  case (run_nil s)
  then show ?case by (simp add: pushed_items_def popped_items_def)
next
  case (run_step s ls s1 l s2)
  have IH: "system_ok s1" "usable_capacity (sy_queue s1) = usable_capacity (sy_queue s)"
    "contents (sy_queue s) @ pushed_items ls = popped_items ls @ contents (sy_queue s1)" using run_step by auto
  note st = spsc_step_refines [OF run_step.hyps(2) IH(1)]
  have "contents (sy_queue s) @ pushed_items (ls @ [l]) = popped_items ls @ contents (sy_queue s1) @ pushed_items [l]"
    using IH(3) by (simp add: pushed_items_def)
  also have "contents (sy_queue s1) @ pushed_items [l] = popped_items [l] @ contents (sy_queue s2)"
    using st by (cases l) (auto simp: pushed_items_def popped_items_def)
  finally show ?case using st IH by (simp add: popped_items_def)
qed

lemma start_ok:
  assumes "2 \<le> capacity"
  shows "system_ok (start_system capacity d)" and "contents (sy_queue (start_system capacity d)) = []"
    and "usable_capacity (sy_queue (start_system capacity d)) = capacity - 1"
  using assms by (simp_all add: system_ok_def start_system_def new_spsc_def spsc_ok_def producer_ok_def consumer_ok_def
      contents_def q_length_def usable_capacity_def)

section \<open>Properties\<close>

text \<open>
  First in, first out, in every interleaving: along any run of one producer and one consumer from the
  empty queue, the items popped so far followed by the items in the ring are the items pushed so far, in
  order: nothing is lost, repeated, reordered or made up, and the ring never holds more than
  \<^verbatim>\<open>usable_capacity\<close> items.
\<close>

theorem spsc_fifo:
  assumes "2 \<le> capacity" and "spsc_run (start_system capacity d) ls s"
  shows "popped_items ls @ contents (sy_queue s) = pushed_items ls \<and> length (contents (sy_queue s)) \<le> capacity - 1"
proof -
  note r = run_refines [OF assms(2) start_ok(1) [OF assms(1)], unfolded start_ok(2,3) [OF assms(1)]]
  have "spsc_ok (sy_queue s)" "usable_capacity (sy_queue s) = capacity - 1" using r by (simp_all add: system_ok_def)
  then show ?thesis using r q_length_less [of "sy_queue s"] by (simp add: usable_capacity_def)
qed

lemma one_push_run:
  "\<exists>s. spsc_run (start_system 2 (0 :: nat)) ([] @ [Tau] @ [Tau] @ [Tau] @ [Tau] @ [Pushed 7]) s"
proof -
  let ?s0 = "start_system 2 (0 :: nat)"
  let ?s1 = "?s0\<lparr>sy_producer := PCalled 7\<rparr>"
  let ?s2 = "?s1\<lparr>sy_producer := PLoaded 7 0, sy_queue := sy_queue ?s1\<rparr>"
  let ?s3 = "?s2\<lparr>sy_producer := PFree 7 0, sy_queue := sy_queue ?s2\<rparr>"
  let ?s4 = "?s3\<lparr>sy_producer := PStored 7 0, sy_queue := (sy_queue ?s3)\<lparr>q_storage := [7, 0]\<rparr>\<rparr>"
  let ?s5 = "?s4\<lparr>sy_producer := PIdle, sy_queue := (sy_queue ?s4)\<lparr>q_head := 1\<rparr>\<rparr>"
  have steps: "spsc_step ?s0 Tau ?s1" "spsc_step ?s1 Tau ?s2" "spsc_step ?s2 Tau ?s3" "spsc_step ?s3 Tau ?s4"
    "spsc_step ?s4 (Pushed 7) ?s5"
    by (rule call_push, simp add: start_system_def)
      (rule producer, simp add: start_system_def new_spsc_def increment_def numeral_2_eq_2)+
  show ?thesis
    using run_step [OF run_step [OF run_step [OF run_step [OF run_step [OF run_nil steps(1)] steps(2)] steps(3)] steps(4)] steps(5)]
    by (simp only: append.assoc) blast
qed

lemma spsc_fifo_witness:
  "\<exists>s. spsc_run (start_system 2 (0 :: nat)) ([] @ [Tau] @ [Tau] @ [Tau] @ [Tau] @ [Pushed 7]) s \<and> contents (sy_queue s) = [7]"
proof -
  obtain s where run: "spsc_run (start_system 2 (0 :: nat)) ([] @ [Tau] @ [Tau] @ [Tau] @ [Tau] @ [Pushed 7]) s"
    using one_push_run by blast
  from spsc_fifo [OF _ run] have "contents (sy_queue s) = [7]" by (simp add: pushed_items_def popped_items_def)
  with run show ?thesis by blast
qed

text \<open>
  C24. Each access refines a step of a bounded queue: from any state that a run reaches, the access that
  publishes a push appends the item to a list that was not full, a failed push happens only at a moment
  when the ring holds \<^verbatim>\<open>usable_capacity\<close> items, the access that publishes a pop removes the first item, a
  failed pop happens only when the ring is empty, and every other access leaves the list as it is.
\<close>

theorem spsc_refines_bounded_queue:
  assumes "2 \<le> capacity" and "spsc_run (start_system capacity d) ls s" and "spsc_step s l s'"
  shows "queue_spec (capacity - 1) (contents (sy_queue s)) l (contents (sy_queue s'))"
proof -
  note r = run_refines [OF assms(2) start_ok(1) [OF assms(1)], unfolded start_ok(2,3) [OF assms(1)]]
  then show ?thesis using spsc_step_refines [OF assms(3)] by simp
qed

lemma spsc_refines_bounded_queue_witness:
  "queue_spec 1 [] Tau (contents (sy_queue ((start_system 2 (0 :: nat))\<lparr>sy_producer := PCalled 7\<rparr>)))"
proof -
  have "spsc_step (start_system 2 (0 :: nat)) Tau ((start_system 2 0)\<lparr>sy_producer := PCalled 7\<rparr>)"
    by (rule call_push) (simp add: start_system_def)
  from spsc_refines_bounded_queue [OF _ run_nil this] show ?thesis
    by (simp add: start_ok(2) [of 2 "0 :: nat"])
qed

text \<open>
  Used by one thread, the queue gives back what was put in: after pushing up to \<^verbatim>\<open>usable_capacity\<close> items
  into a fresh queue, as many pops return them in order and leave it empty, and \<^verbatim>\<open>size_approx\<close> and \<^verbatim>\<open>empty\<close>
  report the contents exactly.
\<close>

theorem spsc_through_queue:
  assumes "2 \<le> capacity" and "length xs \<le> capacity - 1"
  shows "fst (spsc.pop_all (length xs) (spsc.push_all xs (new_spsc capacity d))) = map Some xs
    \<and> size_approx (spsc.push_all xs (new_spsc capacity d)) = length xs
    \<and> q_empty (snd (spsc.pop_all (length xs) (spsc.push_all xs (new_spsc capacity d))))"
proof -
  let ?q = "new_spsc capacity d"
  have q: "spsc_ok ?q" "contents ?q = []" "usable_capacity ?q = capacity - 1"
    using start_ok [OF assms(1), of d] by (simp_all add: system_ok_def start_system_def)
  have fill: "spsc_ok (spsc.push_all xs ?q)" "contents (spsc.push_all xs ?q) = xs"
    using spsc.push_all_items [OF q(1), of xs] assms(2) by (simp_all add: q)
  have size: "size_approx (spsc.push_all xs ?q) = length xs"
    using size_approx_exact [OF fill(1)] fill(2) by (metis length_contents)
  have drain: "spsc_ok (snd (spsc.pop_all (length xs) (spsc.push_all xs ?q)))"
    "contents (snd (spsc.pop_all (length xs) (spsc.push_all xs ?q))) = []"
    using spsc.pop_all_items [OF fill(1), of "length xs"] fill(2) by simp_all
  then have "q_empty (snd (spsc.pop_all (length xs) (spsc.push_all xs ?q)))"
    using empty_iff [OF drain(1)] by (simp add: q_empty_def flip: length_0_conv)
  then show ?thesis using spsc.through_queue [OF q(1,2)] assms(2) q(3) size by simp
qed

lemma spsc_through_queue_witness:
  "fst (spsc.pop_all 2 (spsc.push_all [5, 6 :: nat] (new_spsc 3 0))) = [Some 5, Some 6]"
  using spsc_through_queue [of 3 "[5, 6 :: nat]" 0] by (simp add: numeral_2_eq_2)

end
