(* ===== verification/SpscMemory.thy ===== *)
theory SpscMemory
  imports Spsc
begin

text \<open>
  \<^verbatim>\<open>SpscQueue\<close> under the release and acquire orderings of C++: a load may return an older store, and what a
  thread knows of the other's writes travels with the stores it acquires. A location keeps the list of
  its stores; a store carries the \<^emph>\<open>view\<close> of the thread that made it if it is a release store, and a load adds
  that view to its own if it is an acquire load. The slots are plain memory: an access that is not ordered
  after the last conflicting one is a data race, which is undefined behaviour. The orderings are a
  parameter, so that one can ask which of them the queue needs.
\<close>

section \<open>Views and orderings\<close>

text \<open>
  The stores of each index seen so far, and the writes and reads of slots that are ordered before.
\<close>

record view =
  vw_head :: nat
  vw_tail :: nat
  vw_writes :: nat
  vw_reads :: nat

definition no_view :: view where
  "no_view = \<lparr>vw_head = 0, vw_tail = 0, vw_writes = 0, vw_reads = 0\<rparr>"

definition join_view :: "view \<Rightarrow> view \<Rightarrow> view" where
  "join_view v w = \<lparr>vw_head = max (vw_head v) (vw_head w), vw_tail = max (vw_tail v) (vw_tail w),
     vw_writes = max (vw_writes v) (vw_writes w), vw_reads = max (vw_reads v) (vw_reads w)\<rparr>"

datatype memory_order = Relaxed | Acquire | Release

record orderings =
  push_loads_head :: memory_order
  push_loads_tail :: memory_order
  push_stores_head :: memory_order
  pop_loads_tail :: memory_order
  pop_loads_head :: memory_order
  pop_stores_tail :: memory_order

text \<open>Those of \<^verbatim>\<open>try_push\<close> and \<^verbatim>\<open>try_pop\<close>.\<close>

definition code_orderings :: orderings where
  "code_orderings = \<lparr>push_loads_head = Relaxed, push_loads_tail = Acquire, push_stores_head = Release,
     pop_loads_tail = Relaxed, pop_loads_head = Acquire, pop_stores_tail = Release\<rparr>"

definition loaded_view :: "memory_order \<Rightarrow> view \<Rightarrow> view \<Rightarrow> view" where
  "loaded_view order message v = (if order = Acquire then join_view v message else v)"

definition stored_view :: "memory_order \<Rightarrow> view \<Rightarrow> view" where
  "stored_view order v = (if order = Release then v else no_view)"

section \<open>The two threads\<close>

record 'a memory =
  mm_slots :: "'a list"
  mm_written :: "nat list"
  mm_read :: "nat list"
  mm_heads :: "(nat \<times> view) list"
  mm_tails :: "(nat \<times> view) list"
  mm_producer :: "'a producer"
  mm_consumer :: "'a consumer"
  mm_pview :: view
  mm_cview :: view

abbreviation mm_capacity :: "'a memory \<Rightarrow> nat" where
  "mm_capacity m \<equiv> length (mm_slots m)"

definition start_memory :: "nat \<Rightarrow> 'a \<Rightarrow> 'a memory" where
  "start_memory capacity d = \<lparr>mm_slots = replicate capacity d, mm_written = replicate capacity 0, mm_read = replicate capacity 0,
     mm_heads = [(0, no_view)], mm_tails = [(0, no_view)], mm_producer = PIdle, mm_consumer = CIdle,
     mm_pview = no_view, mm_cview = no_view\<rparr>"

text \<open>
  An access of \<^verbatim>\<open>try_push\<close>. A load is given the number of the store it reads; a plain access of a slot
  leaves the number of the thread's access in \<^verbatim>\<open>mm_written\<close> or \<^verbatim>\<open>mm_read\<close>.
\<close>

definition push_access :: "orderings \<Rightarrow> nat \<Rightarrow> 'a memory \<Rightarrow> 'a label \<times> 'a memory" where
  "push_access ord i m =
     (case mm_producer m of
       PIdle \<Rightarrow> (Tau, m)
     | PCalled item \<Rightarrow> (case mm_heads m ! i of (head, w) \<Rightarrow>
         (Tau, m\<lparr>mm_producer := PLoaded item head,
           mm_pview := loaded_view (push_loads_head ord) w ((mm_pview m)\<lparr>vw_head := i\<rparr>)\<rparr>))
     | PLoaded item head \<Rightarrow> (case mm_tails m ! i of (tail, w) \<Rightarrow>
         let m1 = m\<lparr>mm_pview := loaded_view (push_loads_tail ord) w ((mm_pview m)\<lparr>vw_tail := i\<rparr>)\<rparr>
         in if increment (mm_capacity m) head = tail then (PushFull, m1\<lparr>mm_producer := PIdle\<rparr>)
            else (Tau, m1\<lparr>mm_producer := PFree item head\<rparr>))
     | PFree item head \<Rightarrow>
         let n = vw_writes (mm_pview m) + 1
         in (Tau, m\<lparr>mm_slots := (mm_slots m)[head := item], mm_written := (mm_written m)[head := n],
              mm_pview := (mm_pview m)\<lparr>vw_writes := n\<rparr>, mm_producer := PStored item head\<rparr>)
     | PStored item head \<Rightarrow>
         let v = (mm_pview m)\<lparr>vw_head := length (mm_heads m)\<rparr>
         in (Pushed item, m\<lparr>mm_heads := mm_heads m @ [(increment (mm_capacity m) head, stored_view (push_stores_head ord) v)],
              mm_pview := v, mm_producer := PIdle\<rparr>))"

definition pop_access :: "orderings \<Rightarrow> nat \<Rightarrow> 'a memory \<Rightarrow> 'a label \<times> 'a memory" where
  "pop_access ord i m =
     (case mm_consumer m of
       CIdle \<Rightarrow> (Tau, m)
     | CCalled \<Rightarrow> (case mm_tails m ! i of (tail, w) \<Rightarrow>
         (Tau, m\<lparr>mm_consumer := CLoaded tail,
           mm_cview := loaded_view (pop_loads_tail ord) w ((mm_cview m)\<lparr>vw_tail := i\<rparr>)\<rparr>))
     | CLoaded tail \<Rightarrow> (case mm_heads m ! i of (head, w) \<Rightarrow>
         let m1 = m\<lparr>mm_cview := loaded_view (pop_loads_head ord) w ((mm_cview m)\<lparr>vw_head := i\<rparr>)\<rparr>
         in if tail = head then (PopEmpty, m1\<lparr>mm_consumer := CIdle\<rparr>)
            else (Tau, m1\<lparr>mm_consumer := CReady tail\<rparr>))
     | CReady tail \<Rightarrow>
         let n = vw_reads (mm_cview m) + 1
         in (Tau, m\<lparr>mm_read := (mm_read m)[tail := n], mm_cview := (mm_cview m)\<lparr>vw_reads := n\<rparr>,
              mm_consumer := CRead tail (mm_slots m ! tail)\<rparr>)
     | CRead tail item \<Rightarrow>
         let v = (mm_cview m)\<lparr>vw_tail := length (mm_tails m)\<rparr>
         in (Popped item, m\<lparr>mm_tails := mm_tails m @ [(increment (mm_capacity m) tail, stored_view (pop_stores_tail ord) v)],
              mm_cview := v, mm_consumer := CIdle\<rparr>))"

text \<open>Which stores a load may read: none older than one the thread has seen already.\<close>

definition push_may_read :: "nat \<Rightarrow> 'a memory \<Rightarrow> bool" where
  "push_may_read i m = (case mm_producer m of
       PCalled _ \<Rightarrow> vw_head (mm_pview m) \<le> i \<and> i < length (mm_heads m)
     | PLoaded _ _ \<Rightarrow> vw_tail (mm_pview m) \<le> i \<and> i < length (mm_tails m)
     | _ \<Rightarrow> True)"

definition pop_may_read :: "nat \<Rightarrow> 'a memory \<Rightarrow> bool" where
  "pop_may_read i m = (case mm_consumer m of
       CCalled \<Rightarrow> vw_tail (mm_cview m) \<le> i \<and> i < length (mm_tails m)
     | CLoaded _ \<Rightarrow> vw_head (mm_cview m) \<le> i \<and> i < length (mm_heads m)
     | _ \<Rightarrow> True)"

inductive memory_step :: "orderings \<Rightarrow> 'a memory \<Rightarrow> 'a label \<Rightarrow> 'a memory \<Rightarrow> bool" for ord where
  call_push: "mm_producer m = PIdle \<Longrightarrow> memory_step ord m Tau (m\<lparr>mm_producer := PCalled item\<rparr>)"
| call_pop: "mm_consumer m = CIdle \<Longrightarrow> memory_step ord m Tau (m\<lparr>mm_consumer := CCalled\<rparr>)"
| producer: "push_may_read i m \<Longrightarrow> push_access ord i m = (l, m') \<Longrightarrow> memory_step ord m l m'"
| consumer: "pop_may_read i m \<Longrightarrow> pop_access ord i m = (l, m') \<Longrightarrow> memory_step ord m l m'"

inductive memory_run :: "orderings \<Rightarrow> 'a memory \<Rightarrow> 'a label list \<Rightarrow> 'a memory \<Rightarrow> bool" for ord where
  memory_nil: "memory_run ord m [] m"
| memory_snoc: "memory_run ord m ls m1 \<Longrightarrow> memory_step ord m1 l m2 \<Longrightarrow> memory_run ord m (ls @ [l]) m2"

text \<open>
  A race: a thread is about to access a slot whose last access by the other is not among those its view
  orders before.
\<close>

definition data_race :: "'a memory \<Rightarrow> bool" where
  "data_race m \<longleftrightarrow>
     (case mm_producer m of PFree _ head \<Rightarrow> vw_reads (mm_pview m) < mm_read m ! head | _ \<Rightarrow> False)
   \<or> (case mm_consumer m of CReady tail \<Rightarrow> vw_writes (mm_cview m) < mm_written m ! tail | _ \<Rightarrow> False)"

section \<open>Invariant\<close>

text \<open>How often each index was stored, and the items between them.\<close>

definition pushes :: "'a memory \<Rightarrow> nat" where
  "pushes m = length (mm_heads m) - 1"

definition pops :: "'a memory \<Rightarrow> nat" where
  "pops m = length (mm_tails m) - 1"

definition mm_contents :: "'a memory \<Rightarrow> 'a list" where
  "mm_contents m = map (\<lambda>k. mm_slots m ! (k mod mm_capacity m)) [pops m..<pushes m]"

definition shape_ok :: "'a memory \<Rightarrow> bool" where
  "shape_ok m \<longleftrightarrow> 2 \<le> mm_capacity m \<and> length (mm_written m) = mm_capacity m \<and> length (mm_read m) = mm_capacity m
     \<and> mm_heads m \<noteq> [] \<and> mm_tails m \<noteq> []"

text \<open>The stores: their values in turn round the ring, and what their views order before.\<close>

definition heads_ok :: "'a memory \<Rightarrow> bool" where
  "heads_ok m \<longleftrightarrow> (\<forall>i v w. i < length (mm_heads m) \<longrightarrow> mm_heads m ! i = (v, w) \<longrightarrow>
     v = i mod mm_capacity m \<and> vw_head w \<le> i \<and> vw_tail w \<le> pops m
     \<and> i \<le> vw_writes w \<and> vw_writes w \<le> vw_writes (mm_pview m) \<and> vw_reads w \<le> vw_reads (mm_cview m))"

definition tails_ok :: "'a memory \<Rightarrow> bool" where
  "tails_ok m \<longleftrightarrow> (\<forall>i v w. i < length (mm_tails m) \<longrightarrow> mm_tails m ! i = (v, w) \<longrightarrow>
     v = i mod mm_capacity m \<and> vw_tail w \<le> i \<and> vw_head w \<le> pushes m
     \<and> i \<le> vw_reads w \<and> vw_reads w \<le> vw_reads (mm_cview m) \<and> vw_writes w \<le> vw_writes (mm_pview m))"

definition producer_knows :: "'a memory \<Rightarrow> bool" where
  "producer_knows m \<longleftrightarrow> vw_head (mm_pview m) = pushes m \<and> vw_tail (mm_pview m) \<le> pops m
     \<and> vw_tail (mm_pview m) \<le> vw_reads (mm_pview m) \<and> vw_reads (mm_pview m) \<le> vw_reads (mm_cview m)
     \<and> pushes m < vw_tail (mm_pview m) + mm_capacity m
     \<and> (case mm_producer m of
          PStored item head \<Rightarrow> vw_writes (mm_pview m) = Suc (pushes m)
            \<and> head = pushes m mod mm_capacity m \<and> Suc (pushes m) < vw_tail (mm_pview m) + mm_capacity m \<and> mm_slots m ! head = item
        | PFree item head \<Rightarrow> vw_writes (mm_pview m) = pushes m
            \<and> head = pushes m mod mm_capacity m \<and> Suc (pushes m) < vw_tail (mm_pview m) + mm_capacity m
        | PLoaded item head \<Rightarrow> vw_writes (mm_pview m) = pushes m \<and> head = pushes m mod mm_capacity m
        | _ \<Rightarrow> vw_writes (mm_pview m) = pushes m)"

definition consumer_knows :: "'a memory \<Rightarrow> bool" where
  "consumer_knows m \<longleftrightarrow> vw_tail (mm_cview m) = pops m \<and> pops m \<le> vw_head (mm_cview m) \<and> vw_head (mm_cview m) \<le> pushes m
     \<and> vw_head (mm_cview m) \<le> vw_writes (mm_cview m) \<and> vw_writes (mm_cview m) \<le> vw_writes (mm_pview m)
     \<and> (case mm_consumer m of
          CRead tail item \<Rightarrow> vw_reads (mm_cview m) = Suc (pops m)
            \<and> tail = pops m mod mm_capacity m \<and> pops m < vw_head (mm_cview m) \<and> mm_slots m ! tail = item
        | CReady tail \<Rightarrow> vw_reads (mm_cview m) = pops m
            \<and> tail = pops m mod mm_capacity m \<and> pops m < vw_head (mm_cview m)
        | CLoaded tail \<Rightarrow> vw_reads (mm_cview m) = pops m \<and> tail = pops m mod mm_capacity m
        | _ \<Rightarrow> vw_reads (mm_cview m) = pops m)"

text \<open>Access number \<^verbatim>\<open>Suc k\<close> of a thread is to slot \<^verbatim>\<open>k\<close> round the ring.\<close>

definition numbered_round :: "nat list \<Rightarrow> nat \<Rightarrow> bool" where
  "numbered_round ns n \<longleftrightarrow> (\<forall>i < length ns. ns ! i = 0 \<or> (\<exists>k < n. k mod length ns = i \<and> ns ! i = Suc k))"

definition memory_ok :: "'a memory \<Rightarrow> bool" where
  "memory_ok m \<longleftrightarrow> shape_ok m \<and> heads_ok m \<and> tails_ok m \<and> producer_knows m \<and> consumer_knows m
     \<and> numbered_round (mm_written m) (vw_writes (mm_pview m)) \<and> numbered_round (mm_read m) (vw_reads (mm_cview m))"

lemma memory_okD:
  assumes "memory_ok m"
  shows "shape_ok m" "heads_ok m" "tails_ok m" "producer_knows m" "consumer_knows m"
    "numbered_round (mm_written m) (vw_writes (mm_pview m))" "numbered_round (mm_read m) (vw_reads (mm_cview m))"
  using assms by (simp_all add: memory_ok_def)

lemma start_memory_ok: "2 \<le> capacity \<Longrightarrow> memory_ok (start_memory capacity d)"
  by (auto simp: memory_ok_def start_memory_def shape_ok_def heads_ok_def tails_ok_def producer_knows_def consumer_knows_def
      numbered_round_def pushes_def pops_def no_view_def)

text \<open>Positions on the ring: equal slots less than a round apart are equal positions.\<close>

lemma same_slot:
  assumes "j mod c = k mod c" and "j \<le> k" and "k < j + c"
  shows "j = (k :: nat)"
proof -
  have "k - j < c" "0 < c" using assms(2,3) by linarith+
  with ring_dist_unique [of 0 c "k - j" j] assms(1,2) show ?thesis by simp
qed

lemma same_slot_behind:
  assumes "k mod c = n mod c" and "k < n + c"
  shows "k \<le> (n :: nat)"
  using same_slot [of n c k] assms by (cases "k \<le> n") auto

lemma same_slot_before:
  assumes "k mod c = n mod c" and "k < n"
  shows "k + c \<le> (n :: nat)"
  using same_slot [of k c n] assms by (cases "k + c \<le> n") auto

lemma memory_bounds:
  assumes "memory_ok m"
  shows "pops m \<le> pushes m" and "pushes m < pops m + mm_capacity m" and "vw_writes (mm_pview m) \<le> Suc (pushes m)"
    and "vw_reads (mm_cview m) \<le> Suc (pops m)" and "0 < mm_capacity m"
  using memory_okD(1,4,5) [OF assms]
  by (auto simp: producer_knows_def consumer_knows_def shape_ok_def split: producer.splits consumer.splits)

text \<open>No race: the slot to be written was last read, and the slot to be read last written, before what is known.\<close>

lemma no_race:
  assumes "memory_ok m"
  shows "\<not> data_race m"
proof -
  note ok = memory_okD [OF assms] and b = memory_bounds [OF assms]
  have "mm_read m ! head \<le> vw_reads (mm_pview m)" if p: "mm_producer m = PFree item head" for item head
  proof -
    have h: "head = pushes m mod mm_capacity m" "Suc (pushes m) < vw_tail (mm_pview m) + mm_capacity m"
      "vw_tail (mm_pview m) \<le> vw_reads (mm_pview m)" using ok(4) p by (simp_all add: producer_knows_def)
    have "mm_read m ! head = 0 \<or> (\<exists>k < vw_reads (mm_cview m). k mod mm_capacity m = head \<and> mm_read m ! head = Suc k)"
      using ok(1,7) h(1) b(5) by (auto simp: numbered_round_def shape_ok_def)
    moreover have "Suc k \<le> vw_reads (mm_pview m)" if k: "k < vw_reads (mm_cview m)" "k mod mm_capacity m = head" for k
    proof -
      have "k < pushes m" using k(1) ok(5) by (auto simp: consumer_knows_def split: consumer.splits)
      from same_slot_before [OF _ this] k(2) h show ?thesis by force
    qed
    ultimately show ?thesis by auto
  qed
  moreover have "mm_written m ! tail \<le> vw_writes (mm_cview m)" if c: "mm_consumer m = CReady tail" for tail
  proof -
    have t: "tail = pops m mod mm_capacity m" "pops m < vw_head (mm_cview m)" "vw_head (mm_cview m) \<le> vw_writes (mm_cview m)"
      using ok(5) c by (simp_all add: consumer_knows_def)
    have "mm_written m ! tail = 0 \<or> (\<exists>k < vw_writes (mm_pview m). k mod mm_capacity m = tail \<and> mm_written m ! tail = Suc k)"
      using ok(1,6) t(1) b(5) by (auto simp: numbered_round_def shape_ok_def)
    moreover have "Suc k \<le> vw_writes (mm_cview m)" if k: "k < vw_writes (mm_pview m)" "k mod mm_capacity m = tail" for k
    proof -
      have "k < pops m + mm_capacity m"
        using k(1) ok(4) by (auto simp: producer_knows_def split: producer.splits)
      from same_slot_behind [OF _ this] k(2) t show ?thesis by force
    qed
    ultimately show ?thesis by auto
  qed
  ultimately show ?thesis by (auto simp: data_race_def not_less split: producer.splits consumer.splits)
qed

text \<open>The joined view of an acquired store, component by component.\<close>

lemma acquired [simp]:
  "vw_head (loaded_view Acquire w v) = max (vw_head v) (vw_head w)"
  "vw_tail (loaded_view Acquire w v) = max (vw_tail v) (vw_tail w)"
  "vw_writes (loaded_view Acquire w v) = max (vw_writes v) (vw_writes w)"
  "vw_reads (loaded_view Acquire w v) = max (vw_reads v) (vw_reads w)"
  by (simp_all add: loaded_view_def join_view_def)

lemma unordered [simp]: "loaded_view Relaxed w v = v" "stored_view Release v = v"
  by (simp_all add: loaded_view_def stored_view_def)

lemma orderings_of_code [simp]:
  "push_loads_head code_orderings = Relaxed" "push_loads_tail code_orderings = Acquire" "push_stores_head code_orderings = Release"
  "pop_loads_tail code_orderings = Relaxed" "pop_loads_head code_orderings = Acquire" "pop_stores_tail code_orderings = Release"
  by (simp_all add: code_orderings_def)

lemma head_store:
  assumes "memory_ok m" and "i < length (mm_heads m)"
  obtains w where "mm_heads m ! i = (i mod mm_capacity m, w)" "vw_head w \<le> i" "vw_tail w \<le> pops m" "i \<le> vw_writes w"
    "vw_writes w \<le> vw_writes (mm_pview m)" "vw_reads w \<le> vw_reads (mm_cview m)"
  using memory_okD(2) [OF assms(1)] assms(2) unfolding heads_ok_def by (metis prod.collapse)

lemma tail_store:
  assumes "memory_ok m" and "i < length (mm_tails m)"
  obtains w where "mm_tails m ! i = (i mod mm_capacity m, w)" "vw_tail w \<le> i" "vw_head w \<le> pushes m" "i \<le> vw_reads w"
    "vw_reads w \<le> vw_reads (mm_cview m)" "vw_writes w \<le> vw_writes (mm_pview m)"
  using memory_okD(3) [OF assms(1)] assms(2) unfolding tails_ok_def by (metis prod.collapse)

lemma numbered_next:
  assumes "numbered_round ns n" and "slot = n mod length ns"
  shows "numbered_round (ns[slot := Suc n]) (Suc n)"
  unfolding numbered_round_def
proof (intro allI impI)
  fix i assume i: "i < length (ns[slot := Suc n])"
  show "ns[slot := Suc n] ! i = 0 \<or> (\<exists>k < Suc n. k mod length (ns[slot := Suc n]) = i \<and> ns[slot := Suc n] ! i = Suc k)"
  proof (cases "i = slot")
    case True
    then show ?thesis using i assms(2) by (intro disjI2 exI [of _ n]) simp
  next
    case False
    then have "ns ! i = 0 \<or> (\<exists>k < n. k mod length ns = i \<and> ns ! i = Suc k)" using i assms(1) by (simp add: numbered_round_def)
    then show ?thesis using False less_SucI by auto
  qed
qed

lemma increment_mod: "0 < c \<Longrightarrow> increment c (k mod c) = Suc k mod c"
  by (simp add: increment_def mod_Suc_eq)

text \<open>What an access may do to the items: a failed operation may have read an old index.\<close>

fun loose_queue_spec :: "nat \<Rightarrow> 'a list \<Rightarrow> 'a label \<Rightarrow> 'a list \<Rightarrow> bool" where
  "loose_queue_spec n xs (Pushed x) ys = (length xs < n \<and> ys = xs @ [x])"
| "loose_queue_spec n xs (Popped x) ys = (xs = x # ys)"
| "loose_queue_spec n xs _ ys = (ys = xs)"

definition keeps_memory :: "'a memory \<Rightarrow> 'a label \<Rightarrow> 'a memory \<Rightarrow> bool" where
  "keeps_memory m l m' \<longleftrightarrow> memory_ok m' \<and> mm_capacity m' = mm_capacity m
     \<and> loose_queue_spec (mm_capacity m - 1) (mm_contents m) l (mm_contents m')"

text \<open>The parts of the invariant an access of the other thread, or of the same thread elsewhere, leaves standing.\<close>

lemma heads_ok_frame:
  assumes "heads_ok m" and "mm_heads m' = mm_heads m" and "mm_capacity m' = mm_capacity m" and "pops m \<le> pops m'"
    and "vw_writes (mm_pview m) \<le> vw_writes (mm_pview m')" and "vw_reads (mm_cview m) \<le> vw_reads (mm_cview m')"
  shows "heads_ok m'"
  unfolding heads_ok_def
proof (intro allI impI)
  fix i v w assume "i < length (mm_heads m')" "mm_heads m' ! i = (v, w)"
  then show "v = i mod mm_capacity m' \<and> vw_head w \<le> i \<and> vw_tail w \<le> pops m'
     \<and> i \<le> vw_writes w \<and> vw_writes w \<le> vw_writes (mm_pview m') \<and> vw_reads w \<le> vw_reads (mm_cview m')" using assms by (fastforce simp: heads_ok_def)
qed

lemma tails_ok_frame:
  assumes "tails_ok m" and "mm_tails m' = mm_tails m" and "mm_capacity m' = mm_capacity m" and "pushes m \<le> pushes m'"
    and "vw_writes (mm_pview m) \<le> vw_writes (mm_pview m')" and "vw_reads (mm_cview m) \<le> vw_reads (mm_cview m')"
  shows "tails_ok m'"
  unfolding tails_ok_def
proof (intro allI impI)
  fix i v w assume "i < length (mm_tails m')" "mm_tails m' ! i = (v, w)"
  then show "v = i mod mm_capacity m' \<and> vw_tail w \<le> i \<and> vw_head w \<le> pushes m'
     \<and> i \<le> vw_reads w \<and> vw_reads w \<le> vw_reads (mm_cview m') \<and> vw_writes w \<le> vw_writes (mm_pview m')" using assms by (fastforce simp: tails_ok_def)
qed

lemma producer_knows_frame:
  assumes "producer_knows m" and "mm_producer m' = mm_producer m" and "mm_pview m' = mm_pview m" and "mm_slots m' = mm_slots m"
    and "pushes m' = pushes m" and "pops m \<le> pops m'" and "vw_reads (mm_cview m) \<le> vw_reads (mm_cview m')"
  shows "producer_knows m'"
  using assms by (auto simp: producer_knows_def split: producer.split)

lemma consumer_knows_frame:
  assumes "consumer_knows m" and "mm_consumer m' = mm_consumer m" and "mm_cview m' = mm_cview m" and "mm_capacity m' = mm_capacity m"
    and "pops m' = pops m" and "pushes m \<le> pushes m'" and "vw_writes (mm_pview m) \<le> vw_writes (mm_pview m')"
    and "pops m < pushes m \<Longrightarrow> mm_slots m' ! (pops m mod mm_capacity m) = mm_slots m ! (pops m mod mm_capacity m)"
  shows "consumer_knows m'"
  using assms by (auto simp: consumer_knows_def split: consumer.split)

lemma push_load_head:
  assumes ok: "memory_ok m" and p: "mm_producer m = PCalled item" and i: "push_may_read i m"
    and a: "push_access code_orderings i m = (l, m')"
  shows "keeps_memory m l m'"
proof -
  have i': "i = pushes m" "i < length (mm_heads m)"
    using i p memory_okD(1,4) [OF ok] by (auto simp: push_may_read_def producer_knows_def shape_ok_def pushes_def)
  obtain w where w: "mm_heads m ! i = (i mod mm_capacity m, w)" using head_store [OF ok i'(2)] .
  have m': "l = Tau" "m' = m\<lparr>mm_producer := PLoaded item (pushes m mod mm_capacity m), mm_pview := (mm_pview m)\<lparr>vw_head := pushes m\<rparr>\<rparr>"
    using a p w i' by (simp_all add: push_access_def)
  have f: "pushes m' = pushes m" "pops m' = pops m" by (simp_all add: m' pushes_def pops_def)
  have "shape_ok m'" "heads_ok m'" "tails_ok m'" "consumer_knows m'"
    using memory_okD(1) [OF ok] heads_ok_frame [OF memory_okD(2) [OF ok], of m'] tails_ok_frame [OF memory_okD(3) [OF ok], of m']
      consumer_knows_frame [OF memory_okD(5) [OF ok], of m'] f by (simp_all add: m' shape_ok_def)
  moreover have "producer_knows m'" using memory_okD(4) [OF ok] p f by (simp add: producer_knows_def) (simp add: m')
  ultimately have "memory_ok m'" using memory_okD(6,7) [OF ok] by (simp add: memory_ok_def) (simp add: m')
  then show ?thesis using f by (simp add: keeps_memory_def mm_contents_def) (simp add: m')
qed

lemma push_load_tail:
  assumes ok: "memory_ok m" and p: "mm_producer m = PLoaded item head" and i: "push_may_read i m"
    and a: "push_access code_orderings i m = (l, m')"
  shows "keeps_memory m l m'"
proof -
  have i': "vw_tail (mm_pview m) \<le> i" "i < length (mm_tails m)" "i \<le> pops m" using i p by (auto simp: push_may_read_def pops_def)
  obtain w where w: "mm_tails m ! i = (i mod mm_capacity m, w)" "vw_tail w \<le> i" "vw_head w \<le> pushes m" "i \<le> vw_reads w"
    "vw_reads w \<le> vw_reads (mm_cview m)" "vw_writes w \<le> vw_writes (mm_pview m)" using tail_store [OF ok i'(2)] .
  have k: "vw_head (mm_pview m) = pushes m" "vw_tail (mm_pview m) \<le> vw_reads (mm_pview m)" "vw_reads (mm_pview m) \<le> vw_reads (mm_cview m)"
    "pushes m < vw_tail (mm_pview m) + mm_capacity m" "vw_writes (mm_pview m) = pushes m" "head = pushes m mod mm_capacity m"
    using memory_okD(4) [OF ok] p by (simp_all add: producer_knows_def)
  let ?v = "loaded_view Acquire w ((mm_pview m)\<lparr>vw_tail := i\<rparr>)"
  let ?full = "increment (mm_capacity m) head = i mod mm_capacity m"
  have m': "m' = m\<lparr>mm_pview := ?v, mm_producer := (if ?full then PIdle else PFree item head)\<rparr>" "l = (if ?full then PushFull else Tau)"
    using a p w(1) by (auto simp: push_access_def Let_def split: if_splits)
  have v: "vw_head ?v = pushes m" "vw_tail ?v = i" "vw_writes ?v = pushes m" "vw_tail ?v \<le> vw_reads ?v" "vw_reads ?v \<le> vw_reads (mm_cview m)"
    using k w i' by simp_all
  have room: "Suc (pushes m) < i + mm_capacity m" if "\<not> ?full"
    using that k i' memory_bounds(5) [OF ok] by (cases "Suc (pushes m) = i + mm_capacity m") (auto simp: increment_mod)
  have f: "pushes m' = pushes m" "pops m' = pops m" by (simp_all add: m' pushes_def pops_def)
  have w': "vw_writes (mm_pview m') = vw_writes (mm_pview m)" using v k by (simp add: m')
  have "shape_ok m'" "heads_ok m'" "tails_ok m'" "consumer_knows m'"
    using memory_okD(1) [OF ok] heads_ok_frame [OF memory_okD(2) [OF ok], of m'] tails_ok_frame [OF memory_okD(3) [OF ok], of m']
      consumer_knows_frame [OF memory_okD(5) [OF ok], of m'] f w' by (simp_all add: m' shape_ok_def)
  moreover have "producer_knows m'" using v k i' room f by (simp add: producer_knows_def) (auto simp: m')
  ultimately have "memory_ok m'" using memory_okD(6,7) [OF ok] w' by (simp add: memory_ok_def) (simp add: m')
  then show ?thesis using f by (simp add: keeps_memory_def mm_contents_def) (simp add: m')
qed

lemma push_write_slot:
  assumes ok: "memory_ok m" and p: "mm_producer m = PFree item head" and a: "push_access code_orderings i m = (l, m')"
  shows "keeps_memory m l m'"
proof -
  have k: "vw_writes (mm_pview m) = pushes m" "head = pushes m mod mm_capacity m"
    using memory_okD(4) [OF ok] p by (simp_all add: producer_knows_def)
  have m': "l = Tau" "m' = m\<lparr>mm_slots := (mm_slots m)[head := item], mm_written := (mm_written m)[head := Suc (pushes m)],
      mm_pview := (mm_pview m)\<lparr>vw_writes := Suc (pushes m)\<rparr>, mm_producer := PStored item head\<rparr>"
    using a p k(1) by (simp_all add: push_access_def Let_def)
  have f: "pushes m' = pushes m" "pops m' = pops m" by (simp_all add: m' pushes_def pops_def)
  have other: "mm_slots m' ! (j mod mm_capacity m) = mm_slots m ! (j mod mm_capacity m)" if "pops m \<le> j" "j < pushes m" for j
  proof -
    have "j mod mm_capacity m \<noteq> head" using same_slot [of j _ "pushes m"] that memory_bounds(2) [OF ok] k(2) by force
    then show ?thesis by (simp add: m')
  qed
  have "shape_ok m'" "heads_ok m'" "tails_ok m'" "consumer_knows m'"
    using memory_okD(1) [OF ok] heads_ok_frame [OF memory_okD(2) [OF ok], of m'] tails_ok_frame [OF memory_okD(3) [OF ok], of m']
      consumer_knows_frame [OF memory_okD(5) [OF ok], of m'] f k other by (simp_all add: m' shape_ok_def)
  moreover have "producer_knows m'"
    using memory_okD(4) [OF ok] p f memory_bounds(5) [OF ok] by (simp add: producer_knows_def) (simp add: m')
  moreover have "numbered_round (mm_written m') (vw_writes (mm_pview m'))"
    using numbered_next [OF memory_okD(6) [OF ok], of head] memory_okD(1) [OF ok] k by (simp add: m' shape_ok_def)
  ultimately have "memory_ok m'" using memory_okD(7) [OF ok] by (simp add: memory_ok_def) (simp add: m')
  moreover have "mm_capacity m' = mm_capacity m" by (simp add: m')
  moreover have "mm_contents m' = mm_contents m" using f other calculation(2) by (simp add: mm_contents_def)
  ultimately show ?thesis by (simp add: keeps_memory_def m'(1))
qed

lemma push_publish:
  assumes ok: "memory_ok m" and p: "mm_producer m = PStored item head" and a: "push_access code_orderings i m = (l, m')"
  shows "keeps_memory m l m'"
proof -
  have k: "vw_writes (mm_pview m) = Suc (pushes m)" "head = pushes m mod mm_capacity m" "mm_slots m ! head = item"
    "Suc (pushes m) < vw_tail (mm_pview m) + mm_capacity m" "vw_tail (mm_pview m) \<le> pops m"
    "vw_tail (mm_pview m) \<le> vw_reads (mm_pview m)" "vw_reads (mm_pview m) \<le> vw_reads (mm_cview m)"
    using memory_okD(4) [OF ok] p by (auto simp: producer_knows_def)
  have heads: "length (mm_heads m) = Suc (pushes m)" using memory_okD(1) [OF ok] by (simp add: shape_ok_def pushes_def)
  let ?v = "(mm_pview m)\<lparr>vw_head := Suc (pushes m)\<rparr>"
  have m': "l = Pushed item" "m' = m\<lparr>mm_heads := mm_heads m @ [(Suc (pushes m) mod mm_capacity m, ?v)], mm_pview := ?v, mm_producer := PIdle\<rparr>"
    using a p k(2) heads increment_mod [OF memory_bounds(5) [OF ok]] by (simp_all add: push_access_def Let_def)
  have f: "pushes m' = Suc (pushes m)" "pops m' = pops m" using heads by (simp_all add: m' pushes_def pops_def)
  have "heads_ok m'" unfolding heads_ok_def
  proof (intro allI impI)
    fix j v w assume j: "j < length (mm_heads m')" "mm_heads m' ! j = (v, w)"
    show "v = j mod mm_capacity m' \<and> vw_head w \<le> j \<and> vw_tail w \<le> pops m' \<and> j \<le> vw_writes w
        \<and> vw_writes w \<le> vw_writes (mm_pview m') \<and> vw_reads w \<le> vw_reads (mm_cview m')"
    proof (cases "j < length (mm_heads m)")
      case True
      then have "mm_heads m ! j = (v, w)" using j(2) by (simp add: m' nth_append)
      then show ?thesis using memory_okD(2) [OF ok] True f by (simp add: heads_ok_def) (simp add: m')
    next
      case False
      then have "j = Suc (pushes m)" using j(1) heads by (simp add: m')
      then have "v = j mod mm_capacity m" "w = ?v" using j(2) heads by (simp_all add: m' nth_append)
      then show ?thesis using k f \<open>j = Suc (pushes m)\<close> by (simp add: m')
    qed
  qed
  moreover have "shape_ok m'" "tails_ok m'" "consumer_knows m'"
    using memory_okD(1) [OF ok] tails_ok_frame [OF memory_okD(3) [OF ok], of m']
      consumer_knows_frame [OF memory_okD(5) [OF ok], of m'] f by (simp_all add: m' shape_ok_def)
  moreover have "producer_knows m'" using k f by (simp add: producer_knows_def) (simp add: m')
  ultimately have "memory_ok m'" using memory_okD(6,7) [OF ok] by (simp add: memory_ok_def) (simp add: m')
  moreover have c: "mm_slots m' = mm_slots m" by (simp add: m')
  moreover have "mm_contents m' = mm_contents m @ [item]"
    using f c k memory_bounds(1) [OF ok] by (simp add: mm_contents_def)
  moreover have "length (mm_contents m) < mm_capacity m - 1" using k memory_bounds(1) [OF ok] by (simp add: mm_contents_def)
  ultimately show ?thesis by (simp add: keeps_memory_def m'(1))
qed

lemma pop_load_tail:
  assumes ok: "memory_ok m" and p: "mm_consumer m = CCalled" and i: "pop_may_read i m"
    and a: "pop_access code_orderings i m = (l, m')"
  shows "keeps_memory m l m'"
proof -
  have i': "i = pops m" "i < length (mm_tails m)"
    using i p memory_okD(1,5) [OF ok] by (auto simp: pop_may_read_def consumer_knows_def shape_ok_def pops_def)
  obtain w where w: "mm_tails m ! i = (i mod mm_capacity m, w)" using tail_store [OF ok i'(2)] .
  have m': "l = Tau" "m' = m\<lparr>mm_consumer := CLoaded (pops m mod mm_capacity m), mm_cview := (mm_cview m)\<lparr>vw_tail := pops m\<rparr>\<rparr>"
    using a p w i' by (simp_all add: pop_access_def)
  have f: "pushes m' = pushes m" "pops m' = pops m" by (simp_all add: m' pushes_def pops_def)
  have "shape_ok m'" "heads_ok m'" "tails_ok m'" "producer_knows m'"
    using memory_okD(1) [OF ok] heads_ok_frame [OF memory_okD(2) [OF ok], of m'] tails_ok_frame [OF memory_okD(3) [OF ok], of m']
      producer_knows_frame [OF memory_okD(4) [OF ok], of m'] f by (simp_all add: m' shape_ok_def)
  moreover have "consumer_knows m'" using memory_okD(5) [OF ok] p f by (simp add: consumer_knows_def) (simp add: m')
  ultimately have "memory_ok m'" using memory_okD(6,7) [OF ok] by (simp add: memory_ok_def) (simp add: m')
  then show ?thesis using f by (simp add: keeps_memory_def mm_contents_def) (simp add: m')
qed

lemma pop_load_head:
  assumes ok: "memory_ok m" and p: "mm_consumer m = CLoaded tail" and i: "pop_may_read i m"
    and a: "pop_access code_orderings i m = (l, m')"
  shows "keeps_memory m l m'"
proof -
  have i': "vw_head (mm_cview m) \<le> i" "i < length (mm_heads m)" "i \<le> pushes m" using i p by (auto simp: pop_may_read_def pushes_def)
  obtain w where w: "mm_heads m ! i = (i mod mm_capacity m, w)" "vw_head w \<le> i" "vw_tail w \<le> pops m" "i \<le> vw_writes w"
    "vw_writes w \<le> vw_writes (mm_pview m)" "vw_reads w \<le> vw_reads (mm_cview m)" using head_store [OF ok i'(2)] .
  have k: "vw_tail (mm_cview m) = pops m" "pops m \<le> vw_head (mm_cview m)" "vw_reads (mm_cview m) = pops m"
    "vw_writes (mm_cview m) \<le> vw_writes (mm_pview m)" "tail = pops m mod mm_capacity m"
    using memory_okD(5) [OF ok] p by (simp_all add: consumer_knows_def)
  let ?v = "loaded_view Acquire w ((mm_cview m)\<lparr>vw_head := i\<rparr>)"
  let ?empty = "tail = i mod mm_capacity m"
  have m': "m' = m\<lparr>mm_cview := ?v, mm_consumer := (if ?empty then CIdle else CReady tail)\<rparr>" "l = (if ?empty then PopEmpty else Tau)"
    using a p w(1) by (auto simp: pop_access_def Let_def split: if_splits)
  have v: "vw_head ?v = i" "vw_tail ?v = pops m" "vw_reads ?v = pops m" "i \<le> vw_writes ?v" "vw_writes ?v \<le> vw_writes (mm_pview m)"
    using k w i' by simp_all
  have item: "pops m < i" if "\<not> ?empty" using that k i' by (cases "pops m = i") auto
  have f: "pushes m' = pushes m" "pops m' = pops m" by (simp_all add: m' pushes_def pops_def)
  have w': "vw_reads (mm_cview m') = vw_reads (mm_cview m)" using v k by (simp add: m')
  have "shape_ok m'" "heads_ok m'" "tails_ok m'" "producer_knows m'"
    using memory_okD(1) [OF ok] heads_ok_frame [OF memory_okD(2) [OF ok], of m'] tails_ok_frame [OF memory_okD(3) [OF ok], of m']
      producer_knows_frame [OF memory_okD(4) [OF ok], of m'] f w' by (simp_all add: m' shape_ok_def)
  moreover have "consumer_knows m'" using v k i' item f by (simp add: consumer_knows_def) (auto simp: m')
  ultimately have "memory_ok m'" using memory_okD(6,7) [OF ok] w' by (simp add: memory_ok_def) (simp add: m')
  then show ?thesis using f by (simp add: keeps_memory_def mm_contents_def) (simp add: m')
qed

lemma pop_read_slot:
  assumes ok: "memory_ok m" and p: "mm_consumer m = CReady tail" and a: "pop_access code_orderings i m = (l, m')"
  shows "keeps_memory m l m'"
proof -
  have k: "vw_reads (mm_cview m) = pops m" "tail = pops m mod mm_capacity m"
    using memory_okD(5) [OF ok] p by (simp_all add: consumer_knows_def)
  have m': "l = Tau" "m' = m\<lparr>mm_read := (mm_read m)[tail := Suc (pops m)], mm_cview := (mm_cview m)\<lparr>vw_reads := Suc (pops m)\<rparr>,
      mm_consumer := CRead tail (mm_slots m ! tail)\<rparr>"
    using a p k(1) by (simp_all add: pop_access_def Let_def)
  have f: "pushes m' = pushes m" "pops m' = pops m" by (simp_all add: m' pushes_def pops_def)
  have "shape_ok m'" "heads_ok m'" "tails_ok m'" "producer_knows m'"
    using memory_okD(1) [OF ok] heads_ok_frame [OF memory_okD(2) [OF ok], of m'] tails_ok_frame [OF memory_okD(3) [OF ok], of m']
      producer_knows_frame [OF memory_okD(4) [OF ok], of m'] f k by (simp_all add: m' shape_ok_def)
  moreover have "consumer_knows m'" using memory_okD(5) [OF ok] p f by (simp add: consumer_knows_def) (simp add: m')
  moreover have "numbered_round (mm_read m') (vw_reads (mm_cview m'))"
    using numbered_next [OF memory_okD(7) [OF ok], of tail] memory_okD(1) [OF ok] k by (simp add: m' shape_ok_def)
  ultimately have "memory_ok m'" using memory_okD(6) [OF ok] by (simp add: memory_ok_def) (simp add: m')
  then show ?thesis using f by (simp add: keeps_memory_def mm_contents_def) (simp add: m')
qed

lemma pop_publish:
  assumes ok: "memory_ok m" and p: "mm_consumer m = CRead tail item" and a: "pop_access code_orderings i m = (l, m')"
  shows "keeps_memory m l m'"
proof -
  have k: "vw_reads (mm_cview m) = Suc (pops m)" "tail = pops m mod mm_capacity m" "mm_slots m ! tail = item"
    "pops m < vw_head (mm_cview m)" "vw_head (mm_cview m) \<le> pushes m"
    "vw_head (mm_cview m) \<le> vw_writes (mm_cview m)" "vw_writes (mm_cview m) \<le> vw_writes (mm_pview m)"
    using memory_okD(5) [OF ok] p by (auto simp: consumer_knows_def)
  have tails: "length (mm_tails m) = Suc (pops m)" using memory_okD(1) [OF ok] by (simp add: shape_ok_def pops_def)
  let ?v = "(mm_cview m)\<lparr>vw_tail := Suc (pops m)\<rparr>"
  have m': "l = Popped item" "m' = m\<lparr>mm_tails := mm_tails m @ [(Suc (pops m) mod mm_capacity m, ?v)], mm_cview := ?v, mm_consumer := CIdle\<rparr>"
    using a p k(2) tails increment_mod [OF memory_bounds(5) [OF ok]] by (simp_all add: pop_access_def Let_def)
  have f: "pops m' = Suc (pops m)" "pushes m' = pushes m" using tails by (simp_all add: m' pushes_def pops_def)
  have "tails_ok m'" unfolding tails_ok_def
  proof (intro allI impI)
    fix j v w assume j: "j < length (mm_tails m')" "mm_tails m' ! j = (v, w)"
    show "v = j mod mm_capacity m' \<and> vw_tail w \<le> j \<and> vw_head w \<le> pushes m' \<and> j \<le> vw_reads w
        \<and> vw_reads w \<le> vw_reads (mm_cview m') \<and> vw_writes w \<le> vw_writes (mm_pview m')"
    proof (cases "j < length (mm_tails m)")
      case True
      then have "mm_tails m ! j = (v, w)" using j(2) by (simp add: m' nth_append)
      then show ?thesis using memory_okD(3) [OF ok] True f by (simp add: tails_ok_def) (simp add: m')
    next
      case False
      then have "j = Suc (pops m)" using j(1) tails by (simp add: m')
      then have "v = j mod mm_capacity m" "w = ?v" using j(2) tails by (simp_all add: m' nth_append)
      then show ?thesis using k f \<open>j = Suc (pops m)\<close> by (simp add: m')
    qed
  qed
  moreover have "shape_ok m'" "heads_ok m'" "producer_knows m'"
    using memory_okD(1) [OF ok] heads_ok_frame [OF memory_okD(2) [OF ok], of m']
      producer_knows_frame [OF memory_okD(4) [OF ok], of m'] f by (simp_all add: m' shape_ok_def)
  moreover have "consumer_knows m'" using k f by (simp add: consumer_knows_def) (simp add: m')
  ultimately have "memory_ok m'" using memory_okD(6,7) [OF ok] by (simp add: memory_ok_def) (simp add: m')
  moreover have c: "mm_slots m' = mm_slots m" by (simp add: m')
  moreover have "mm_contents m = item # mm_contents m'"
    using f c k by (simp add: mm_contents_def upt_conv_Cons)
  ultimately show ?thesis by (simp add: keeps_memory_def m'(1))
qed

lemmas push_accesses = push_load_head push_load_tail push_write_slot push_publish
lemmas pop_accesses = pop_load_tail pop_load_head pop_read_slot pop_publish

lemma push_access_keeps:
  assumes "memory_ok m" and "push_may_read i m" and "push_access code_orderings i m = (l, m')"
  shows "keeps_memory m l m'"
proof (cases "mm_producer m")
  case PIdle
  then show ?thesis using assms by (auto simp: push_access_def keeps_memory_def)
qed (blast intro: push_accesses assms)+

lemma pop_access_keeps:
  assumes "memory_ok m" and "pop_may_read i m" and "pop_access code_orderings i m = (l, m')"
  shows "keeps_memory m l m'"
proof (cases "mm_consumer m")
  case CIdle
  then show ?thesis using assms by (auto simp: pop_access_def keeps_memory_def)
qed (blast intro: pop_accesses assms)+

lemma call_push_keeps:
  assumes ok: "memory_ok m" and p: "mm_producer m = PIdle"
  shows "keeps_memory m Tau (m\<lparr>mm_producer := PCalled item\<rparr>)" (is "keeps_memory m Tau ?m")
proof -
  have f: "pushes ?m = pushes m" "pops ?m = pops m" by (simp_all add: pushes_def pops_def)
  have "shape_ok ?m" "heads_ok ?m" "tails_ok ?m" "consumer_knows ?m"
    using memory_okD(1) [OF ok] heads_ok_frame [OF memory_okD(2) [OF ok], of ?m] tails_ok_frame [OF memory_okD(3) [OF ok], of ?m]
      consumer_knows_frame [OF memory_okD(5) [OF ok], of ?m] f by (simp_all add: shape_ok_def)
  moreover have "producer_knows ?m" using memory_okD(4) [OF ok] p f by (simp add: producer_knows_def)
  ultimately have "memory_ok ?m" using memory_okD(6,7) [OF ok] by (simp add: memory_ok_def)
  then show ?thesis using f by (simp add: keeps_memory_def mm_contents_def)
qed

lemma call_pop_keeps:
  assumes ok: "memory_ok m" and p: "mm_consumer m = CIdle"
  shows "keeps_memory m Tau (m\<lparr>mm_consumer := CCalled\<rparr>)" (is "keeps_memory m Tau ?m")
proof -
  have f: "pushes ?m = pushes m" "pops ?m = pops m" by (simp_all add: pushes_def pops_def)
  have "shape_ok ?m" "heads_ok ?m" "tails_ok ?m" "producer_knows ?m"
    using memory_okD(1) [OF ok] heads_ok_frame [OF memory_okD(2) [OF ok], of ?m] tails_ok_frame [OF memory_okD(3) [OF ok], of ?m]
      producer_knows_frame [OF memory_okD(4) [OF ok], of ?m] f by (simp_all add: shape_ok_def)
  moreover have "consumer_knows ?m" using memory_okD(5) [OF ok] p f by (simp add: consumer_knows_def)
  ultimately have "memory_ok ?m" using memory_okD(6,7) [OF ok] by (simp add: memory_ok_def)
  then show ?thesis using f by (simp add: keeps_memory_def mm_contents_def)
qed

lemma memory_step_keeps: "memory_step code_orderings m l m' \<Longrightarrow> memory_ok m \<Longrightarrow> keeps_memory m l m'"
  by (induction rule: memory_step.induct)
    (blast intro: call_push_keeps call_pop_keeps push_access_keeps pop_access_keeps)+

lemma memory_run_keeps:
  assumes "memory_run code_orderings m ls m'" and "memory_ok m"
  shows "memory_ok m' \<and> mm_capacity m' = mm_capacity m \<and> mm_contents m @ pushed_items ls = popped_items ls @ mm_contents m'"
  using assms
proof (induction rule: memory_run.induct)
  case memory_nil
  then show ?case by (simp add: pushed_items_def popped_items_def)
next
  case (memory_snoc m ls m1 l m2)
  then have IH: "memory_ok m1" "mm_capacity m1 = mm_capacity m" "mm_contents m @ pushed_items ls = popped_items ls @ mm_contents m1"
    by auto
  have s: "memory_ok m2" "mm_capacity m2 = mm_capacity m1" "loose_queue_spec (mm_capacity m1 - 1) (mm_contents m1) l (mm_contents m2)"
    using memory_step_keeps [OF memory_snoc.hyps(2) IH(1)] by (simp_all add: keeps_memory_def)
  have "mm_contents m1 @ pushed_items [l] = popped_items [l] @ mm_contents m2"
    using s(3) by (cases l) (simp_all add: pushed_items_def popped_items_def)
  then have "mm_contents m @ pushed_items (ls @ [l]) = popped_items (ls @ [l]) @ mm_contents m2"
    using IH(3) by (simp add: pushed_items_def popped_items_def) (metis append.assoc)
  then show ?case using s IH by simp
qed

lemma start_memory_empty [simp]: "mm_contents (start_memory capacity d) = []" "mm_capacity (start_memory capacity d) = capacity"
  by (simp_all add: mm_contents_def start_memory_def pushes_def pops_def)

section \<open>Schedules\<close>

text \<open>A run given move by move, so that it can be evaluated; the number is that of the store a load reads.\<close>

datatype 'a move = CallPush 'a | CallPop | PushReads nat | PopReads nat

fun play :: "orderings \<Rightarrow> 'a move list \<Rightarrow> 'a memory \<Rightarrow> ('a label list \<times> 'a memory) option" where
  "play ord [] m = Some ([], m)"
| "play ord (CallPush x # ms) m = (if mm_producer m = PIdle
     then map_option (apfst ((#) Tau)) (play ord ms (m\<lparr>mm_producer := PCalled x\<rparr>)) else None)"
| "play ord (CallPop # ms) m = (if mm_consumer m = CIdle
     then map_option (apfst ((#) Tau)) (play ord ms (m\<lparr>mm_consumer := CCalled\<rparr>)) else None)"
| "play ord (PushReads i # ms) m = (if push_may_read i m
     then (case push_access ord i m of (l, m1) \<Rightarrow> map_option (apfst ((#) l)) (play ord ms m1)) else None)"
| "play ord (PopReads i # ms) m = (if pop_may_read i m
     then (case pop_access ord i m of (l, m1) \<Rightarrow> map_option (apfst ((#) l)) (play ord ms m1)) else None)"

lemma memory_run_Cons:
  assumes "memory_run ord m1 ls m2" and "memory_step ord m l m1"
  shows "memory_run ord m (l # ls) m2"
  using assms
proof (induction rule: memory_run.induct)
  case (memory_nil m1)
  then show ?case using memory_run.memory_snoc [OF memory_run.memory_nil] by fastforce
next
  case (memory_snoc m1 ls m2 l' m3)
  then show ?case using memory_run.memory_snoc [of ord m "l # ls" m2 l' m3] by simp
qed

lemma play_run: "play ord ms m = Some (ls, m') \<Longrightarrow> memory_run ord m ls m'"
  by (induction ord ms m arbitrary: ls rule: play.induct)
    (auto intro: memory_nil memory_run_Cons memory_step.intros split: if_splits prod.splits)

text \<open>The moves of a whole push and of a whole pop that read store \<^verbatim>\<open>h\<close> of the head and store \<^verbatim>\<open>t\<close> of the tail.\<close>

definition push_moves :: "'a \<Rightarrow> nat \<Rightarrow> nat \<Rightarrow> 'a move list" where
  "push_moves x h t = [CallPush x, PushReads h, PushReads t, PushReads 0, PushReads 0]"

definition pop_moves :: "nat \<Rightarrow> nat \<Rightarrow> 'a move list" where
  "pop_moves t h = [CallPop, PopReads t, PopReads h, PopReads 0, PopReads 0]"






definition third_push :: "nat move list" where
  "third_push = push_moves 7 0 0 @ pop_moves 0 1 @ push_moves 8 1 1 @ pop_moves 1 2 @ take 3 (push_moves 9 2 2)"



section \<open>Theorems\<close>

text \<open>
  C25. Under the memory orderings of the code, whatever older stores the loads return and however the
  accesses interleave: no access of a slot is a data race, the items come out in the order they went in,
  none lost, doubled or torn, and never more than capacity minus one are inside. (Only a failed operation
  may have acted on an index that had changed since.)
\<close>

theorem spsc_release_acquire_safe:
  assumes "2 \<le> capacity" and "memory_run code_orderings (start_memory capacity d) ls m"
  shows "\<not> data_race m \<and> popped_items ls @ mm_contents m = pushed_items ls \<and> length (mm_contents m) \<le> capacity - 1"
proof -
  have "memory_ok m" "mm_capacity m = capacity" "pushed_items ls = popped_items ls @ mm_contents m"
    using memory_run_keeps [OF assms(2) start_memory_ok [OF assms(1)]] by auto
  moreover have "pushes m < pops m + capacity" using memory_bounds(2) [OF \<open>memory_ok m\<close>] \<open>mm_capacity m = capacity\<close> by simp
  ultimately show ?thesis using no_race by (auto simp: mm_contents_def)
qed

lemma spsc_release_acquire_safe_witness:
  "\<exists>m. play code_orderings (third_push @ [PushReads 0, PushReads 0]) (start_memory 2 0)
     = Some ([Tau, Tau, Tau, Tau, Pushed 7, Tau, Tau, Tau, Tau, Popped 7, Tau, Tau, Tau, Tau, Pushed 8,
         Tau, Tau, Tau, Tau, Popped 8, Tau, Tau, Tau, Tau, Pushed 9], m) \<and> \<not> data_race m \<and> mm_contents m = [9]"
proof -
  let ?ls = "[Tau, Tau, Tau, Tau, Pushed 7, Tau, Tau, Tau, Tau, Popped 7, Tau, Tau, Tau, Tau, Pushed 8,
         Tau, Tau, Tau, Tau, Popped 8, Tau, Tau, Tau, Tau, Pushed 9] :: nat label list"
  have "map_option fst (play code_orderings (third_push @ [PushReads 0, PushReads 0]) (start_memory 2 0)) = Some ?ls"
    by code_simp
  then obtain m where m: "play code_orderings (third_push @ [PushReads 0, PushReads 0]) (start_memory 2 0) = Some (?ls, m)" by auto
  then show ?thesis using spsc_release_acquire_safe [OF _ play_run [OF m]] by (simp add: popped_items_def pushed_items_def)
qed


end
