(* ===== verification/Decimal.thy ===== *)
theory Decimal
  imports Prelude
begin

text \<open>
  The decimal integers of the C++ library as the engine uses them: \<^verbatim>\<open>std::from_chars\<close> in base ten, which
  reads the longest prefix of digits and reports where it stopped, and the insertion of an integer into a
  stream. \<^verbatim>\<open>parse_size\<close>, the argument parser of the tools, is here as well.
\<close>

section \<open>Reading\<close>

datatype errc = Invalid_argument | Result_out_of_range

definition is_digit :: "char \<Rightarrow> bool" where
  "is_digit c \<longleftrightarrow> 48 \<le> (of_char c :: nat) \<and> (of_char c :: nat) \<le> 57"

definition digit_value :: "char \<Rightarrow> nat" where
  "digit_value c = of_char c - 48"

definition digits_value :: "string \<Rightarrow> nat" where
  "digits_value ds = fold (\<lambda>c v. 10 * v + digit_value c) ds 0"

text \<open>The pair is where the reading stopped and the value; on an error the value is not assigned.\<close>

definition from_chars_below :: "nat \<Rightarrow> string \<Rightarrow> string \<times> (errc + nat)" where
  "from_chars_below bound text =
     (let ds = takeWhile is_digit text; rest = dropWhile is_digit text
      in if ds = [] then (text, Inl Invalid_argument)
         else if digits_value ds \<ge> bound then (rest, Inl Result_out_of_range)
         else (rest, Inr (digits_value ds)))"

definition from_chars_u64 :: "string \<Rightarrow> string \<times> (errc + u64)" where
  "from_chars_u64 text = map_prod id (map_sum id word_of_nat) (from_chars_below (2 ^ 64) text)"

definition from_chars_i64 :: "string \<Rightarrow> string \<times> (errc + u64)" where
  "from_chars_i64 text =
     (case text of
       CHR ''-'' # t \<Rightarrow>
         (case from_chars_below (2 ^ 63 + 1) t of
           (_, Inl Invalid_argument) \<Rightarrow> (text, Inl Invalid_argument)
         | (rest, Inl e) \<Rightarrow> (rest, Inl e)
         | (rest, Inr v) \<Rightarrow> (rest, Inr (- word_of_nat v)))
     | _ \<Rightarrow> map_prod id (map_sum id word_of_nat) (from_chars_below (2 ^ 63) text))"

definition parse_size :: "string \<Rightarrow> u64 \<Rightarrow> u64" where
  "parse_size text fallback =
     (case from_chars_u64 text of (rest, r) \<Rightarrow>
        (case r of Inl _ \<Rightarrow> fallback | Inr v \<Rightarrow> if rest \<noteq> [] then fallback else v))"

section \<open>Writing\<close>

definition digit_char :: "nat \<Rightarrow> char" where
  "digit_char d = char_of (48 + d)"

fun decimal :: "nat \<Rightarrow> string" where
  "decimal n = (if n < 10 then [digit_char n] else decimal (n div 10) @ [digit_char (n mod 10)])"

declare decimal.simps [simp del]

definition show_u64 :: "u64 \<Rightarrow> string" where
  "show_u64 w = decimal (unat w)"

definition show_i64 :: "u64 \<Rightarrow> string" where
  "show_i64 w = (if sint w < 0 then CHR ''-'' # decimal (nat (- sint w)) else decimal (nat (sint w)))"

section \<open>What is written is read back\<close>

definition is_number :: "string \<Rightarrow> bool" where
  "is_number ds \<longleftrightarrow> ds \<noteq> [] \<and> (\<forall>c \<in> set ds. is_digit c)"

lemma digits_value_snoc: "digits_value (ds @ [c]) = 10 * digits_value ds + digit_value c"
  by (simp add: digits_value_def)

lemma digit_char_ok:
  assumes "d < 10"
  shows "is_digit (digit_char d)" and "digit_value (digit_char d) = d"
  using assms by (simp_all add: is_digit_def digit_value_def digit_char_def)

lemma decimal_is_number: "is_number (decimal n)"
proof (induction n rule: decimal.induct)
  case (1 n)
  then show ?case by (subst decimal.simps) (auto simp: is_number_def digit_char_ok)
qed

lemma decimal_value: "digits_value (decimal n) = n"
proof (induction n rule: decimal.induct)
  case (1 n)
  show ?case
  proof (cases "n < 10")
    case True
    then show ?thesis by (subst decimal.simps) (simp add: digits_value_def digit_char_ok)
  next
    case False
    then show ?thesis using 1 [OF False]
      by (subst decimal.simps) (simp add: digits_value_snoc digit_char_ok)
  qed
qed

lemma decimal_inject: "decimal m = decimal n \<longleftrightarrow> m = n"
  using decimal_value by metis

section \<open>When the whole of a text is read\<close>

lemma number_while:
  assumes "is_number ds"
  shows "takeWhile is_digit ds = ds" and "dropWhile is_digit ds = []"
  using assms by (simp_all add: is_number_def)

lemma from_chars_below_whole:
  "from_chars_below b text = ([], Inr v) \<longleftrightarrow> is_number text \<and> v = digits_value text \<and> v < b"
proof -
  have "dropWhile is_digit text = [] \<longleftrightarrow> (\<forall>c \<in> set text. is_digit c)" by (simp add: dropWhile_eq_Nil_conv)
  then show ?thesis
    by (auto simp: from_chars_below_def Let_def is_number_def takeWhile_eq_all_conv [THEN iffD2])
qed

text \<open>The fields of a text that denote an unsigned or a signed 64-bit integer.\<close>

definition denotes_u64 :: "string \<Rightarrow> u64 \<Rightarrow> bool" where
  "denotes_u64 s w \<longleftrightarrow> is_number s \<and> digits_value s = unat w"

definition denotes_i64 :: "string \<Rightarrow> u64 \<Rightarrow> bool" where
  "denotes_i64 s w \<longleftrightarrow>
     (\<exists>ds. is_number ds \<and> (s = ds \<and> int (digits_value ds) = sint w \<or> s = CHR ''-'' # ds \<and> - int (digits_value ds) = sint w))"

lemma from_chars_u64_whole: "from_chars_u64 s = ([], Inr w) \<longleftrightarrow> denotes_u64 s w"
proof -
  have "from_chars_u64 s = ([], Inr w) \<longleftrightarrow> (\<exists>v. from_chars_below (2 ^ 64) s = ([], Inr v) \<and> w = word_of_nat v)"
    by (cases "from_chars_below (2 ^ 64) s") (auto simp: from_chars_u64_def map_sum_def split: sum.splits)
  also have "\<dots> \<longleftrightarrow> denotes_u64 s w"
    using unsigned_less [of w] by (auto simp: from_chars_below_whole denotes_u64_def unat_of_nat)
  finally show ?thesis .
qed

lemma sint_word_of_int:
  assumes "- (2 ^ 63) \<le> i" and "i < 2 ^ 63"
  shows "sint (word_of_int i :: u64) = i"
  using signed_take_bit_int_eq_self [of 63 i] assms by (simp add: sint_sbintrunc')

lemma word_of_sint: "word_of_int (sint w) = (w :: u64)"
  by simp

lemma dash_not_digit: "\<not> is_digit (CHR ''-'')"
  by (simp add: is_digit_def)

lemma sint_range: "- (2 ^ 63) \<le> sint (w :: u64) \<and> sint w < 2 ^ 63"
  using sint_greater_eq [of w] sint_less [of w] by simp

lemma from_chars_i64_whole: "from_chars_i64 s = ([], Inr w) \<longleftrightarrow> denotes_i64 s w"
proof (cases "\<exists>t. s = CHR ''-'' # t")
  case True
  then obtain t where s: "s = CHR ''-'' # t" by blast
  have "from_chars_i64 s = ([], Inr w) \<longleftrightarrow> (\<exists>v. from_chars_below (2 ^ 63 + 1) t = ([], Inr v) \<and> w = - word_of_nat v)"
    by (cases "from_chars_below (2 ^ 63 + 1) t") (auto simp: s from_chars_i64_def split: sum.splits errc.splits)
  also have "\<dots> \<longleftrightarrow> is_number t \<and> digits_value t < 2 ^ 63 + 1 \<and> w = - word_of_nat (digits_value t)"
    by (auto simp: from_chars_below_whole)
  also have "\<dots> \<longleftrightarrow> is_number t \<and> - int (digits_value t) = sint w"
  proof -
    have eq: "- word_of_nat v = (word_of_int (- int v) :: u64)" for v by simp
    have "w = word_of_int (- int v) \<and> v < 2 ^ 63 + 1 \<longleftrightarrow> - int v = sint w" for v
    proof
      show "- int v = sint w" if "w = word_of_int (- int v) \<and> v < 2 ^ 63 + 1"
        using that sint_word_of_int [of "- int v"] by auto
      show "w = word_of_int (- int v) \<and> v < 2 ^ 63 + 1" if *: "- int v = sint w"
      proof
        show "w = word_of_int (- int v)" unfolding * by (simp only: word_of_sint)
        show "v < 2 ^ 63 + 1" using sint_range [of w] unfolding * [symmetric] by simp
      qed
    qed
    then show ?thesis unfolding eq by blast
  qed
  also have "\<dots> \<longleftrightarrow> denotes_i64 s w"
    by (auto simp: denotes_i64_def s is_number_def dash_not_digit)
  finally show ?thesis .
next
  case False
  then have "from_chars_i64 s = map_prod id (map_sum id word_of_nat) (from_chars_below (2 ^ 63) s)"
    by (auto simp: from_chars_i64_def split: list.split char.split bool.split)
  then have "from_chars_i64 s = ([], Inr w) \<longleftrightarrow> (\<exists>v. from_chars_below (2 ^ 63) s = ([], Inr v) \<and> w = word_of_nat v)"
    by (cases "from_chars_below (2 ^ 63) s") (auto simp: map_sum_def split: sum.splits)
  also have "\<dots> \<longleftrightarrow> is_number s \<and> digits_value s < 2 ^ 63 \<and> w = word_of_nat (digits_value s)"
    by (auto simp: from_chars_below_whole)
  also have "\<dots> \<longleftrightarrow> is_number s \<and> int (digits_value s) = sint w"
  proof -
    have eq: "word_of_nat v = (word_of_int (int v) :: u64)" for v by simp
    have "w = word_of_int (int v) \<and> v < 2 ^ 63 \<longleftrightarrow> int v = sint w" for v
    proof
      show "int v = sint w" if "w = word_of_int (int v) \<and> v < 2 ^ 63"
        using that sint_word_of_int [of "int v"] by auto
      show "w = word_of_int (int v) \<and> v < 2 ^ 63" if *: "int v = sint w"
      proof
        show "w = word_of_int (int v)" unfolding * by (simp only: word_of_sint)
        show "v < 2 ^ 63" using sint_range [of w] unfolding * [symmetric] by simp
      qed
    qed
    then show ?thesis unfolding eq by blast
  qed
  also have "\<dots> \<longleftrightarrow> denotes_i64 s w" using False by (auto simp: denotes_i64_def)
  finally show ?thesis .
qed

lemma show_u64_denotes: "denotes_u64 (show_u64 w) w"
  by (simp add: denotes_u64_def show_u64_def decimal_is_number decimal_value)

lemma show_i64_denotes: "denotes_i64 (show_i64 w) w"
  unfolding denotes_i64_def show_i64_def
  by (rule exI [of _ "decimal (nat \<bar>sint w\<bar>)"]) (auto simp: decimal_is_number decimal_value abs_if)

end
