(* ===== verification/Csv.thy ===== *)
theory Csv
  imports Decimal Connector
begin

text \<open>
  \<^verbatim>\<open>CSVReplayConnector\<close>: rows of seven comma-separated fields, read line by line from a text file. An
  exception is the left value of the sum, with the line number the connector reports. The specification
  reads the file as its list of lines; \<^verbatim>\<open>csv_row\<close> says which rows denote which event.
\<close>

section \<open>Rows\<close>

datatype csv_error =
    Too_many_fields
  | Too_few_fields
  | Invalid_integer
  | Invalid_event_type
  | Invalid_side

definition and_then :: "'e + 'a \<Rightarrow> ('a \<Rightarrow> 'e + 'b) \<Rightarrow> 'e + 'b" where
  "and_then x f = (case x of Inl e \<Rightarrow> Inl e | Inr a \<Rightarrow> f a)"

lemma and_then_simps [simp]: "and_then (Inl e) f = Inl e" "and_then (Inr a) f = f a"
  by (simp_all add: and_then_def)

lemma and_then_Inr: "and_then x f = Inr b \<longleftrightarrow> (\<exists>a. x = Inr a \<and> f a = Inr b)"
  by (cases x) simp_all

definition comma :: char where
  "comma = CHR '',''"

text \<open>The loop of \<^verbatim>\<open>split_row\<close>: \<^verbatim>\<open>n\<close> fields are still to fill from what begins at \<^verbatim>\<open>begin\<close>.\<close>

fun split_fields :: "nat \<Rightarrow> string \<Rightarrow> csv_error + string list" where
  "split_fields 0 line = Inr []"
| "split_fields (Suc n) line =
     (if n = 0 then
        (if comma \<in> set line then Inl Too_many_fields else Inr [line])
      else if comma \<notin> set line then Inl Too_few_fields
      else and_then (split_fields n (tl (dropWhile (\<lambda>c. c \<noteq> comma) line)))
             (\<lambda>fields. Inr (takeWhile (\<lambda>c. c \<noteq> comma) line # fields)))"

definition split_row :: "string \<Rightarrow> csv_error + string list" where
  "split_row line = split_fields 7 line"

definition parse_integer_u64 :: "string \<Rightarrow> csv_error + u64" where
  "parse_integer_u64 value =
     (case from_chars_u64 value of (ptr, r) \<Rightarrow>
        (case r of Inl _ \<Rightarrow> Inl Invalid_integer | Inr v \<Rightarrow> if ptr \<noteq> [] then Inl Invalid_integer else Inr v))"

definition parse_integer_i64 :: "string \<Rightarrow> csv_error + u64" where
  "parse_integer_i64 value =
     (case from_chars_i64 value of (ptr, r) \<Rightarrow>
        (case r of Inl _ \<Rightarrow> Inl Invalid_integer | Inr v \<Rightarrow> if ptr \<noteq> [] then Inl Invalid_integer else Inr v))"

definition parse_type :: "string \<Rightarrow> csv_error + event_type" where
  "parse_type value =
     (if value = ''add'' then Inr Add
      else if value = ''modify'' then Inr Modify
      else if value = ''cancel'' then Inr Cancel
      else if value = ''trade'' then Inr Trade
      else Inl Invalid_event_type)"

definition parse_side :: "string \<Rightarrow> csv_error + side" where
  "parse_side value =
     (if value = ''buy'' then Inr Buy
      else if value = ''sell'' then Inr Sell
      else Inl Invalid_side)"

definition parse_csv_event :: "string \<Rightarrow> csv_error + market_data_event" where
  "parse_csv_event line =
     and_then (split_row line) (\<lambda>fields.
     and_then (parse_integer_u64 (fields ! 0)) (\<lambda>sequence.
     and_then (parse_integer_u64 (fields ! 1)) (\<lambda>timestamp.
     and_then (parse_type (fields ! 2)) (\<lambda>type.
     and_then (parse_integer_u64 (fields ! 3)) (\<lambda>order_id.
     and_then (parse_side (fields ! 4)) (\<lambda>side.
     and_then (parse_integer_i64 (fields ! 5)) (\<lambda>price.
     and_then (parse_integer_u64 (fields ! 6)) (\<lambda>quantity.
       Inr (default_event\<lparr>ev_sequence := sequence, ev_timestamp_ns := timestamp, ev_type := type,
         ev_order_id := order_id, ev_side := side, ev_price := price, ev_quantity := quantity\<rparr>)))))))))"

section \<open>The connector\<close>

definition newline :: char where
  "newline = CHR 0x0A"

definition get_line :: "string \<Rightarrow> (string \<times> string) option" where
  "get_line input =
     (if input = [] then None
      else Some (takeWhile (\<lambda>c. c \<noteq> newline) input, tl (dropWhile (\<lambda>c. c \<noteq> newline) input)))"

lemma get_line_shorter: "get_line s = Some (line, rest) \<Longrightarrow> length rest < length s"
  using length_dropWhile_le [of "\<lambda>c. c \<noteq> newline" s] by (cases s) (auto simp: get_line_def split: if_splits)

record csv_file =
  cf_input :: string
  cf_line_number :: nat

text \<open>The constructor throws when the file cannot be opened.\<close>

datatype csv_exception = Cannot_open | Csv_line nat csv_error

definition csv_open :: "string option \<Rightarrow> csv_exception + csv_file" where
  "csv_open path = (case path of None \<Rightarrow> Inl Cannot_open | Some text \<Rightarrow> Inr \<lparr>cf_input = text, cf_line_number = 0\<rparr>)"

definition starts_with :: "string \<Rightarrow> string \<Rightarrow> bool" where
  "starts_with p s \<longleftrightarrow> take (length p) s = p"

function csv_next :: "csv_file \<Rightarrow> (csv_exception + market_data_event option) \<times> csv_file" where
  "csv_next f =
     (case get_line (cf_input f) of
       None \<Rightarrow> (Inr None, f)
     | Some (line, rest) \<Rightarrow>
         let f1 = f\<lparr>cf_input := rest, cf_line_number := cf_line_number f + 1\<rparr>
         in if line = [] \<or> line ! 0 = CHR ''#'' then csv_next f1
            else if starts_with ''sequence,'' line then csv_next f1
            else (case parse_csv_event line of
                   Inl e \<Rightarrow> (Inl (Csv_line (cf_line_number f1) e), f1)
                 | Inr event \<Rightarrow> (Inr (Some event), f1)))"
  by auto

termination
  by (relation "measure (length \<circ> cf_input)") (auto dest: get_line_shorter)

declare csv_next.simps [simp del]

section \<open>Which rows denote which event\<close>

fun join_fields :: "string list \<Rightarrow> string" where
  "join_fields [] = []"
| "join_fields [f] = f"
| "join_fields (f # fs) = f @ comma # join_fields fs"

lemma split_fields_Inr:
  "split_fields (Suc n) line = Inr fs \<longleftrightarrow> length fs = Suc n \<and> (\<forall>f \<in> set fs. comma \<notin> set f) \<and> line = join_fields fs"
proof (induction n arbitrary: line fs)
  case 0
  then show ?case by (auto simp: length_Suc_conv)
next
  case (Suc n)
  have cut: "takeWhile (\<lambda>c. c \<noteq> comma) (f @ comma # r) = f \<and> dropWhile (\<lambda>c. c \<noteq> comma) (f @ comma # r) = comma # r"
    if "comma \<notin> set f" for f r
    using that by (induction f) auto
  show ?case
  proof
    assume *: "split_fields (Suc (Suc n)) line = Inr fs"
    then obtain gs where c: "comma \<in> set line"
      and gs: "split_fields (Suc n) (tl (dropWhile (\<lambda>c. c \<noteq> comma) line)) = Inr gs"
      and fs: "fs = takeWhile (\<lambda>c. c \<noteq> comma) line # gs"
      by (auto simp: and_then_Inr split: if_splits)
    have g: "length gs = Suc n" "\<forall>f \<in> set gs. comma \<notin> set f" "tl (dropWhile (\<lambda>c. c \<noteq> comma) line) = join_fields gs"
      using gs unfolding Suc.IH by blast+
    obtain f r where "line = f @ comma # r" "comma \<notin> set f" using c by (metis split_list_first)
    then have l: "line = f @ comma # join_fields gs" "takeWhile (\<lambda>c. c \<noteq> comma) line = f" using cut [of f r] g(3) by auto
    obtain g0 gs' where "gs = g0 # gs'" using g(1) by (cases gs) auto
    then show "length fs = Suc (Suc n) \<and> (\<forall>f \<in> set fs. comma \<notin> set f) \<and> line = join_fields fs"
      using g l \<open>comma \<notin> set f\<close> by (simp add: fs)
  next
    assume *: "length fs = Suc (Suc n) \<and> (\<forall>f \<in> set fs. comma \<notin> set f) \<and> line = join_fields fs"
    then obtain f g gs where fs: "fs = f # g # gs" by (metis length_Suc_conv)
    then have "line = f @ comma # join_fields (g # gs)" "comma \<notin> set f" using * by simp_all
    moreover have "split_fields (Suc n) (join_fields (g # gs)) = Inr (g # gs)" using * fs unfolding Suc.IH by simp
    ultimately show "split_fields (Suc (Suc n)) line = Inr fs" using cut [of f "join_fields (g # gs)"] by (simp add: fs)
  qed
qed

definition type_name :: "event_type \<Rightarrow> string option" where
  "type_name t = (if t \<in> {Add, Modify, Cancel, Trade} then Some (event_type_name t) else None)"

text \<open>The row schema: the fields in order, the members a row cannot set at their defaults.\<close>

definition csv_row :: "string list \<Rightarrow> market_data_event \<Rightarrow> bool" where
  "csv_row fs e \<longleftrightarrow> (\<exists>sq ts ty oid sd px qt. fs = [sq, ts, ty, oid, sd, px, qt]
     \<and> denotes_u64 sq (ev_sequence e) \<and> denotes_u64 ts (ev_timestamp_ns e) \<and> type_name (ev_type e) = Some ty
     \<and> denotes_u64 oid (ev_order_id e) \<and> sd = side_name (ev_side e) \<and> denotes_i64 px (ev_price e)
     \<and> denotes_u64 qt (ev_quantity e) \<and> ev_symbol e = 0 \<and> ev_new_order_id e = 0)"

lemma parse_u64_Inr: "parse_integer_u64 s = Inr w \<longleftrightarrow> denotes_u64 s w"
  unfolding from_chars_u64_whole [symmetric] parse_integer_u64_def by (auto split: prod.split sum.split)

lemma parse_i64_Inr: "parse_integer_i64 s = Inr w \<longleftrightarrow> denotes_i64 s w"
  unfolding from_chars_i64_whole [symmetric] parse_integer_i64_def by (auto split: prod.split sum.split)

lemma parse_type_Inr: "parse_type s = Inr t \<longleftrightarrow> type_name t = Some s"
  by (cases t) (auto simp: parse_type_def type_name_def event_type_name_def)

lemma parse_side_Inr: "parse_side s = Inr sd \<longleftrightarrow> s = side_name sd"
  by (cases sd) (auto simp: parse_side_def side_name_def)

lemma number_no_comma: "is_number ds \<Longrightarrow> comma \<notin> set ds"
  by (auto simp: is_number_def is_digit_def comma_def)

lemma type_name_no_comma: "type_name t = Some s \<Longrightarrow> comma \<notin> set s"
  by (cases t) (auto simp: type_name_def event_type_name_def comma_def)

lemma side_name_no_comma: "comma \<notin> set (side_name sd)"
  by (cases sd) (simp_all add: side_name_def comma_def)

lemma denotes_no_comma: "denotes_u64 s w \<Longrightarrow> comma \<notin> set s" "denotes_i64 s w \<Longrightarrow> comma \<notin> set s"
  by (auto simp: denotes_u64_def denotes_i64_def number_no_comma) (simp_all add: comma_def)

lemma csv_row_no_comma: "csv_row fs e \<Longrightarrow> length fs = 7 \<and> (\<forall>f \<in> set fs. comma \<notin> set f)"
  unfolding csv_row_def by (elim exE conjE) (simp add: denotes_no_comma type_name_no_comma side_name_no_comma)

lemma split_row_Inr:
  "split_row line = Inr fs \<longleftrightarrow> length fs = 7 \<and> (\<forall>f \<in> set fs. comma \<notin> set f) \<and> line = join_fields fs"
  using split_fields_Inr [of 6] by (simp add: split_row_def)

lemma parse_event_fields:
  assumes "split_row line = Inr [sq, ts, ty, oid, sd, px, qt]"
  shows "parse_csv_event line = Inr e \<longleftrightarrow> csv_row [sq, ts, ty, oid, sd, px, qt] e"
proof -
  have "parse_csv_event line = Inr e \<longleftrightarrow> (\<exists>a b t i d p q. denotes_u64 sq a \<and> denotes_u64 ts b \<and> type_name t = Some ty
      \<and> denotes_u64 oid i \<and> sd = side_name d \<and> denotes_i64 px p \<and> denotes_u64 qt q
      \<and> e = default_event\<lparr>ev_sequence := a, ev_timestamp_ns := b, ev_type := t, ev_order_id := i, ev_side := d,
          ev_price := p, ev_quantity := q\<rparr>)"
    by (simp add: parse_csv_event_def assms and_then_Inr parse_u64_Inr parse_i64_Inr parse_type_Inr parse_side_Inr
        numeral_eq_Suc) blast
  also have "\<dots> \<longleftrightarrow> csv_row [sq, ts, ty, oid, sd, px, qt] e"
    by (cases e) (auto simp: csv_row_def default_event_def)
  finally show ?thesis .
qed

lemma parse_csv_Inr: "parse_csv_event line = Inr e \<longleftrightarrow> (\<exists>fs. csv_row fs e \<and> line = join_fields fs)"
proof
  assume *: "parse_csv_event line = Inr e"
  then obtain fs where fs: "split_row line = Inr fs" by (auto simp: parse_csv_event_def and_then_Inr)
  then obtain sq ts ty oid sd px qt where l: "fs = [sq, ts, ty, oid, sd, px, qt]"
    unfolding split_row_Inr by (auto simp: length_Suc_conv numeral_eq_Suc)
  then show "\<exists>fs. csv_row fs e \<and> line = join_fields fs"
    using * fs parse_event_fields [OF fs [unfolded l]] split_row_Inr by metis
next
  assume "\<exists>fs. csv_row fs e \<and> line = join_fields fs"
  then obtain fs where row: "csv_row fs e" and line: "line = join_fields fs" by blast
  then have fs: "split_row line = Inr fs" using csv_row_no_comma [OF row] unfolding split_row_Inr by blast
  obtain sq ts ty oid sd px qt where l: "fs = [sq, ts, ty, oid, sd, px, qt]" using row by (auto simp: csv_row_def)
  show "parse_csv_event line = Inr e" using row unfolding parse_event_fields [OF fs [unfolded l]] l .
qed

section \<open>A text file as its lines\<close>

function text_lines :: "string \<Rightarrow> string list" where
  "text_lines s = (case get_line s of None \<Rightarrow> [] | Some (line, rest) \<Rightarrow> line # text_lines rest)"
  by auto

termination
  by (relation "measure length") (auto dest: get_line_shorter)

declare text_lines.simps [simp del]

definition ignored_line :: "string \<Rightarrow> bool" where
  "ignored_line l \<longleftrightarrow> l = [] \<or> l ! 0 = CHR ''#'' \<or> starts_with ''sequence,'' l"

text \<open>The events of the lines behind line \<^verbatim>\<open>n\<close>, and the exception that ends them.\<close>

fun replay_rows :: "nat \<Rightarrow> string list \<Rightarrow> market_data_event list \<times> csv_exception option" where
  "replay_rows n [] = ([], None)"
| "replay_rows n (l # ls) =
     (if ignored_line l then replay_rows (n + 1) ls
      else case parse_csv_event l of
             Inl e \<Rightarrow> ([], Some (Csv_line (n + 1) e))
           | Inr e \<Rightarrow> (e # fst (replay_rows (n + 1) ls), snd (replay_rows (n + 1) ls)))"

definition csv_replay :: "csv_file \<Rightarrow> market_data_event list \<times> csv_exception option" where
  "csv_replay f = replay_rows (cf_line_number f) (text_lines (cf_input f))"

text \<open>What one call returns, read off the lines.\<close>

definition replays :: "(csv_exception + market_data_event option) \<times> csv_file \<Rightarrow> market_data_event list \<times> csv_exception option" where
  "replays r = (case r of
       (Inl err, f1) \<Rightarrow> ([], Some err)
     | (Inr None, f1) \<Rightarrow> ([], None)
     | (Inr (Some e), f1) \<Rightarrow> (e # fst (csv_replay f1), snd (csv_replay f1)))"

lemma csv_next_step: "csv_replay f = replays (csv_next f)"
proof (induction f rule: csv_next.induct)
  case (1 f)
  show ?case
  proof (cases "get_line (cf_input f)")
    case None
    then show ?thesis by (simp add: csv_next.simps [of f] csv_replay_def text_lines.simps [of "cf_input f"] replays_def)
  next
    case (Some lr)
    obtain line rest where l: "get_line (cf_input f) = Some (line, rest)" using Some by (cases lr) auto
    let ?f1 = "f\<lparr>cf_input := rest, cf_line_number := cf_line_number f + 1\<rparr>"
    have lines: "text_lines (cf_input f) = line # text_lines rest"
      by (simp add: text_lines.simps [of "cf_input f"] l)
    show ?thesis
    proof (cases "ignored_line line")
      case True
      then have "csv_next f = csv_next ?f1"
        unfolding csv_next.simps [of f] by (auto simp: l Let_def ignored_line_def)
      moreover have "csv_replay f = csv_replay ?f1" using True by (simp add: csv_replay_def lines)
      moreover have "csv_replay ?f1 = replays (csv_next ?f1)"
        using 1 [OF l refl refl] True unfolding ignored_line_def by blast
      ultimately show ?thesis by simp
    next
      case False
      then have "csv_next f = (case parse_csv_event line of
            Inl e \<Rightarrow> (Inl (Csv_line (cf_line_number ?f1) e), ?f1) | Inr event \<Rightarrow> (Inr (Some event), ?f1))"
        unfolding csv_next.simps [of f] by (simp add: l Let_def ignored_line_def split: sum.split)
      then show ?thesis using False by (simp add: csv_replay_def lines replays_def split: sum.split)
    qed
  qed
qed

section \<open>The producer's connector\<close>

text \<open>
  The producer thread of \<^verbatim>\<open>market_replay\<close> opens the connector and loops over it inside one \<^verbatim>\<open>try\<close>; its
  handler keeps the exception. \<^verbatim>\<open>None\<close> for the file is a connector that was never constructed.
\<close>

record csv_producer =
  cp_file :: "csv_file option"
  cp_error :: "csv_exception option"

definition open_producer :: "string option \<Rightarrow> csv_producer" where
  "open_producer path = (case csv_open path of
       Inl err \<Rightarrow> \<lparr>cp_file = None, cp_error = Some err\<rparr>
     | Inr f \<Rightarrow> \<lparr>cp_file = Some f, cp_error = None\<rparr>)"

definition producer_next :: "csv_producer \<Rightarrow> market_data_event option \<times> csv_producer" where
  "producer_next p = (case cp_file p of
       None \<Rightarrow> (None, p)
     | Some f \<Rightarrow> (case csv_next f of
           (Inl err, f1) \<Rightarrow> (None, p\<lparr>cp_file := Some f1, cp_error := Some err\<rparr>)
         | (Inr r, f1) \<Rightarrow> (r, p\<lparr>cp_file := Some f1\<rparr>)))"

definition csv_feed :: "csv_producer \<Rightarrow> market_data_event list" where
  "csv_feed p = (case cp_file p of None \<Rightarrow> [] | Some f \<Rightarrow> fst (csv_replay f))"

definition csv_verdict :: "csv_producer \<Rightarrow> csv_exception option" where
  "csv_verdict p = (case cp_file p of
       None \<Rightarrow> cp_error p
     | Some f \<Rightarrow> (case snd (csv_replay f) of None \<Rightarrow> cp_error p | Some err \<Rightarrow> Some err))"

lemma producer_next_step:
  "case producer_next p of
     (None, p1) \<Rightarrow> csv_feed p = [] \<and> cp_error p1 = csv_verdict p
   | (Some e, p1) \<Rightarrow> csv_feed p = e # csv_feed p1 \<and> csv_verdict p1 = csv_verdict p"
proof (cases "cp_file p")
  case None
  then show ?thesis by (simp add: producer_next_def csv_feed_def csv_verdict_def)
next
  case (Some f)
  then show ?thesis using csv_next_step [of f]
    by (auto simp: producer_next_def csv_feed_def csv_verdict_def replays_def split: prod.splits sum.splits option.splits)
qed

interpretation csv: judged_connector producer_next "\<lambda>_. True" csv_feed csv_verdict cp_error
proof
  fix c e es
  note s = producer_next_step [of c]
  show True ..
  show "csv_feed c = [] \<Longrightarrow> fst (producer_next c) = None" using s by (auto split: prod.splits option.splits)
  show "csv_feed c = e # es \<Longrightarrow> fst (producer_next c) = Some e \<and> csv_feed (snd (producer_next c)) = es"
    using s by (auto split: prod.splits option.splits)
  show "csv_feed c \<noteq> [] \<Longrightarrow> csv_verdict (snd (producer_next c)) = csv_verdict c"
    using s by (auto split: prod.splits option.splits)
  show "csv_feed c = [] \<Longrightarrow> cp_error (snd (producer_next c)) = csv_verdict c"
    using s by (auto split: prod.splits option.splits)
qed

lemma open_producer_feed:
  "csv_feed (open_producer (Some text)) = fst (replay_rows 0 (text_lines text))"
  "csv_verdict (open_producer (Some text)) = snd (replay_rows 0 (text_lines text))"
  "csv_feed (open_producer None) = []" "csv_verdict (open_producer None) = Some Cannot_open"
  by (auto simp: open_producer_def csv_open_def csv_feed_def csv_verdict_def csv_replay_def split: option.split)

section \<open>Files of rows\<close>

definition render_csv :: "market_data_event \<Rightarrow> string" where
  "render_csv e = join_fields [show_u64 (ev_sequence e), show_u64 (ev_timestamp_ns e), the (type_name (ev_type e)),
     show_u64 (ev_order_id e), side_name (ev_side e), show_i64 (ev_price e), show_u64 (ev_quantity e)]"

text \<open>The events a row can express.\<close>

definition csv_able :: "market_data_event \<Rightarrow> bool" where
  "csv_able e \<longleftrightarrow> type_name (ev_type e) \<noteq> None \<and> ev_symbol e = 0 \<and> ev_new_order_id e = 0"

definition text_of :: "string list \<Rightarrow> string" where
  "text_of ls = concat (map (\<lambda>l. l @ [newline]) ls)"

lemma text_lines_text_of:
  assumes "\<forall>l \<in> set ls. newline \<notin> set l"
  shows "text_lines (text_of ls) = ls"
  using assms
proof (induction ls)
  case Nil
  then show ?case by (simp add: text_of_def text_lines.simps get_line_def)
next
  case (Cons l ls)
  have cut: "takeWhile (\<lambda>c. c \<noteq> newline) (l @ newline # r) = l \<and> dropWhile (\<lambda>c. c \<noteq> newline) (l @ newline # r) = newline # r" for r
    using Cons.prems by (induction l) auto
  have "text_of (l # ls) = l @ newline # text_of ls" by (simp add: text_of_def)
  then have "get_line (text_of (l # ls)) = Some (l, text_of ls)" using cut [of "text_of ls"] by (simp add: get_line_def)
  then show ?case using Cons by (subst text_lines.simps) simp
qed

lemma parse_rendered:
  assumes "csv_able e"
  shows "parse_csv_event (render_csv e) = Inr e"
proof -
  have "csv_row [show_u64 (ev_sequence e), show_u64 (ev_timestamp_ns e), the (type_name (ev_type e)),
     show_u64 (ev_order_id e), side_name (ev_side e), show_i64 (ev_price e), show_u64 (ev_quantity e)] e"
    using assms by (auto simp: csv_row_def csv_able_def show_u64_denotes show_i64_denotes)
  then show ?thesis unfolding parse_csv_Inr render_csv_def by blast
qed

lemma number_first: "is_number ds \<Longrightarrow> \<exists>c cs. ds = c # cs \<and> is_digit c"
  by (cases ds) (auto simp: is_number_def)

lemma rendered_not_ignored: "\<not> ignored_line (render_csv e)"
proof -
  obtain c cs where d: "show_u64 (ev_sequence e) = c # cs" "is_digit c"
    using number_first [OF decimal_is_number] unfolding show_u64_def by blast
  have "c \<noteq> CHR ''#''" "c \<noteq> CHR ''s''" using d(2) by (auto simp: is_digit_def)
  then show ?thesis by (simp add: ignored_line_def starts_with_def render_csv_def d(1))
qed

lemma number_no_newline: "is_number ds \<Longrightarrow> newline \<notin> set ds"
  by (auto simp: is_number_def is_digit_def newline_def)

lemma rendered_no_newline:
  assumes "csv_able e"
  shows "newline \<notin> set (render_csv e)"
proof -
  have "newline \<notin> set (show_u64 w)" "newline \<notin> set (show_i64 w)" for w
    by (simp_all add: show_u64_def show_i64_def number_no_newline decimal_is_number) (simp add: newline_def)
  moreover have "newline \<notin> set (the (type_name (ev_type e)))" "newline \<notin> set (side_name (ev_side e))"
    using assms by (cases "ev_type e"; simp add: csv_able_def type_name_def event_type_name_def newline_def)
      (simp add: side_name_def newline_def)
  moreover have "comma \<noteq> newline" by (simp add: comma_def newline_def)
  ultimately show ?thesis by (auto simp: render_csv_def)
qed

lemma replay_rendered:
  assumes "\<forall>e \<in> set es. csv_able e"
  shows "replay_rows n (map render_csv es) = (es, None)"
  using assms by (induction es arbitrary: n) (simp_all add: rendered_not_ignored parse_rendered)

lemma fold_collect: "fold (\<lambda>e es. es @ [e]) xs ys = ys @ xs"
  by (induction xs arbitrary: ys) simp_all

definition collect_csv :: "csv_producer \<Rightarrow> (csv_producer \<times> market_data_event list) option" where
  "collect_csv p = pump producer_next (\<lambda>e es. es @ [e]) 0 0 p []"

section \<open>Properties\<close>

text \<open>
  C29. A row parses to an event exactly when it is the event's row in the schema: seven fields joined by
  commas that denote, in order, its sequence, timestamp, type, order id, side, price and quantity, the
  integers in their ranges with nothing around their digits (a minus sign for a negative price alone),
  the symbol and the new order id being zero. Every other row is rejected with an exception.
\<close>

theorem csv_rows_exact: "parse_csv_event line = Inr e \<longleftrightarrow> (\<exists>fs. csv_row fs e \<and> line = join_fields fs)"
  by (rule parse_csv_Inr)

text \<open>
  C30. Replay of a text file: the connector ends on any file, having delivered the events of its rows up
  to the first row that is rejected, and the exception kept by the producer is that row's, with its line
  number counted over all lines, blank and comment lines included; a file that cannot be opened
  delivers nothing.
\<close>

theorem csv_replay_correct:
  "(\<exists>p. collect_csv (open_producer (Some text)) = Some (p, fst (replay_rows 0 (text_lines text)))
      \<and> cp_error p = snd (replay_rows 0 (text_lines text)))
    \<and> (\<exists>p. collect_csv (open_producer None) = Some (p, []) \<and> cp_error p = Some Cannot_open)"
  using csv.pump_outcome [where c = "open_producer (Some text)" and handle = "\<lambda>e es. es @ [e]" and seen = 0 and s = "[]"]
    csv.pump_outcome [where c = "open_producer None" and handle = "\<lambda>e es. es @ [e]" and seen = 0 and s = "[]"]
  by (auto simp: collect_csv_def fold_collect open_producer_feed)

text \<open>
  Round trip: the file with a header line and one row for each of any events a row can express
  delivers exactly those events, without an exception.
\<close>

theorem csv_round_trip:
  assumes "\<forall>e \<in> set es. csv_able e"
  shows "\<exists>p. collect_csv (open_producer (Some (text_of (''sequence,exchange_timestamp_ns'' # map render_csv es)))) = Some (p, es)
    \<and> cp_error p = None"
proof -
  let ?ls = "''sequence,exchange_timestamp_ns'' # map render_csv es"
  have header: "newline \<notin> set ''sequence,exchange_timestamp_ns''" by (simp add: newline_def)
  have "text_lines (text_of ?ls) = ?ls"
    using assms header by (intro text_lines_text_of) (auto dest: rendered_no_newline)
  moreover have "ignored_line ''sequence,exchange_timestamp_ns''" by (simp add: ignored_line_def starts_with_def)
  ultimately have "replay_rows 0 (text_lines (text_of ?ls)) = (es, None)" using replay_rendered [OF assms] by simp
  then show ?thesis
    using csv.pump_outcome [where c = "open_producer (Some (text_of ?ls))" and handle = "\<lambda>e es. es @ [e]" and seen = 0 and s = "[]"]
    by (auto simp: collect_csv_def fold_collect open_producer_feed)
qed

lemma csv_round_trip_witness:
  "\<exists>p. collect_csv (open_producer (Some (text_of (''sequence,exchange_timestamp_ns''
      # map render_csv [default_event\<lparr>ev_price := -5, ev_quantity := 12\<rparr>]))))
    = Some (p, [default_event\<lparr>ev_price := -5, ev_quantity := 12\<rparr>]) \<and> cp_error p = None"
  by (rule csv_round_trip) (simp add: csv_able_def type_name_def default_event_def)

end
