(* ===== verification/Pipeline.thy ===== *)
theory Pipeline
  imports Csv Spsc Views
begin

text \<open>
  \<^verbatim>\<open>market_replay\<close>: the producer thread reads the file and pushes its events, the consumer thread pops
  and applies them, and a flag tells the consumer that no more will come. Every step is one access to
  shared memory by one of the threads (or local work that no other thread sees), so that a run is any
  interleaving the scheduler may choose. The accesses inside the queue are those of the theory \<^verbatim>\<open>Spsc\<close>.
\<close>

section \<open>The two threads\<close>

definition queue_slots :: nat where
  "queue_slots = 65536"

definition parse_capacity :: "string \<Rightarrow> u64 option" where
  "parse_capacity text = (case from_chars_u64 text of (ptr, r) \<Rightarrow>
     (case r of Inl _ \<Rightarrow> None | Inr v \<Rightarrow> if ptr \<noteq> [] \<or> v = 0 then None else Some v))"

text \<open>Where each thread is in its loop; a thread inside a queue operation also has a place there.\<close>

datatype producer_phase = Reading | Pushing market_data_event | Finishing | Finished

datatype consumer_phase = Polling | Checking | Exited

record pipeline =
  pl_system :: "market_data_event spsc_system"
  pl_source :: csv_producer
  pl_producer :: producer_phase
  pl_done :: bool
  pl_consumer :: consumer_phase
  pl_book :: order_book
  pl_applied :: nat
  pl_rejected :: nat

definition start_pipeline :: "nat \<Rightarrow> string option \<Rightarrow> order_book \<Rightarrow> pipeline" where
  "start_pipeline slots path bk =
     \<lparr>pl_system = start_system slots default_event, pl_source = open_producer path, pl_producer = Reading,
      pl_done = False, pl_consumer = Polling, pl_book = bk, pl_applied = 0, pl_rejected = 0\<rparr>"

text \<open>The producer: read an event, push it until the push succeeds, at the end store the flag.\<close>

definition producer_read :: "pipeline \<Rightarrow> pipeline" where
  "producer_read s =
     (case producer_next (pl_source s) of
       (None, src) \<Rightarrow> s\<lparr>pl_source := src, pl_producer := Finishing\<rparr>
     | (Some e, src) \<Rightarrow> s\<lparr>pl_source := src, pl_producer := Pushing e\<rparr>)"

definition producer_push :: "market_data_event \<Rightarrow> pipeline \<Rightarrow> pipeline" where
  "producer_push e s =
     (let sys = pl_system s
      in if sy_producer sys = PIdle then s\<lparr>pl_system := sys\<lparr>sy_producer := PCalled e\<rparr>\<rparr>
         else case push_step (sy_producer sys) (sy_queue sys) of (l, p, q) \<Rightarrow>
           s\<lparr>pl_system := sys\<lparr>sy_producer := p, sy_queue := q\<rparr>,
             pl_producer := (case l of Pushed _ \<Rightarrow> Reading | _ \<Rightarrow> Pushing e)\<rparr>)"

definition producer_step :: "pipeline \<Rightarrow> pipeline" where
  "producer_step s =
     (case pl_producer s of
       Reading \<Rightarrow> producer_read s
     | Pushing e \<Rightarrow> producer_push e s
     | Finishing \<Rightarrow> s\<lparr>pl_done := True, pl_producer := Finished\<rparr>
     | Finished \<Rightarrow> s)"

text \<open>The consumer: pop and apply; when the pop fails, look at the flag, leave or try again.\<close>

definition apply_popped :: "market_data_event \<Rightarrow> pipeline \<Rightarrow> pipeline" where
  "apply_popped e s =
     (case process_event e (pl_book s) of (r, bk) \<Rightarrow>
        if r = Applied then s\<lparr>pl_book := bk, pl_applied := pl_applied s + 1\<rparr>
        else s\<lparr>pl_book := bk, pl_rejected := pl_rejected s + 1\<rparr>)"

definition consumer_pop :: "pipeline \<Rightarrow> pipeline" where
  "consumer_pop s =
     (let sys = pl_system s
      in if sy_consumer sys = CIdle then s\<lparr>pl_system := sys\<lparr>sy_consumer := CCalled\<rparr>\<rparr>
         else case pop_step (sy_consumer sys) (sy_queue sys) of (l, c, q) \<Rightarrow>
           let s1 = s\<lparr>pl_system := sys\<lparr>sy_consumer := c, sy_queue := q\<rparr>\<rparr>
           in case l of
                Popped e \<Rightarrow> apply_popped e s1
              | PopEmpty \<Rightarrow> s1\<lparr>pl_consumer := Checking\<rparr>
              | _ \<Rightarrow> s1)"

definition consumer_step :: "pipeline \<Rightarrow> pipeline" where
  "consumer_step s =
     (case pl_consumer s of
       Polling \<Rightarrow> consumer_pop s
     | Checking \<Rightarrow> s\<lparr>pl_consumer := (if pl_done s then Exited else Polling)\<rparr>
     | Exited \<Rightarrow> s)"

inductive pipeline_step :: "pipeline \<Rightarrow> pipeline \<Rightarrow> bool" where
  by_producer: "pipeline_step s (producer_step s)"
| by_consumer: "pipeline_step s (consumer_step s)"

inductive_simps pipeline_step_iff: "pipeline_step s t"

text \<open>What \<^verbatim>\<open>main\<close> ends with once both threads are joined: the producer's exception, or the counts.\<close>

definition joined :: "pipeline \<Rightarrow> bool" where
  "joined s \<longleftrightarrow> pl_producer s = Finished \<and> pl_consumer s = Exited"

definition main_outcome :: "pipeline \<Rightarrow> csv_exception + nat \<times> nat \<times> u64 \<times> price option \<times> price option" where
  "main_outcome s = (case cp_error (pl_source s) of
       Some err \<Rightarrow> Inl err
     | None \<Rightarrow> Inr (pl_applied s, pl_rejected s, active_orders (pl_book s),
         map_option lv_price (best_bid (pl_book s)), map_option lv_price (best_ask (pl_book s))))"

text \<open>The exit code of \<^verbatim>\<open>main\<close>, and what it does before the threads start: usage errors 2, exceptions 1.\<close>

definition exit_code :: "pipeline \<Rightarrow> nat" where
  "exit_code s = (case main_outcome s of Inl _ \<Rightarrow> 1 | Inr _ \<Rightarrow> 0)"

definition start_replay :: "string list \<Rightarrow> (string \<Rightarrow> string option) \<Rightarrow> nat + pipeline" where
  "start_replay args files =
     (case args of
       path # opts \<Rightarrow>
         if length opts > 1 then Inl 2
         else case (if opts = [] then Some 100000 else parse_capacity (hd opts)) of
           None \<Rightarrow> Inl 1
         | Some capacity \<Rightarrow> (case new_book (unat capacity) of
             Inl _ \<Rightarrow> Inl 1
           | Inr book \<Rightarrow> Inr (start_pipeline queue_slots (files path) book))
     | [] \<Rightarrow> Inl 2)"

abbreviation reaches :: "pipeline \<Rightarrow> pipeline \<Rightarrow> bool" where
  "reaches \<equiv> pipeline_step\<^sup>*\<^sup>*"

section \<open>Invariant\<close>

text \<open>The events still on their way: in the ring, in the producer's hand, in the file.\<close>

fun not_pushed :: "producer_phase \<Rightarrow> csv_producer \<Rightarrow> market_data_event list" where
  "not_pushed Reading src = csv_feed src"
| "not_pushed (Pushing e) src = e # csv_feed src"
| "not_pushed Finishing src = []"
| "not_pushed Finished src = []"

definition not_applied :: "pipeline \<Rightarrow> market_data_event list" where
  "not_applied s = contents (sy_queue (pl_system s)) @ not_pushed (pl_producer s) (pl_source s)"

definition source_verdict :: "pipeline \<Rightarrow> csv_exception option" where
  "source_verdict s = (if pl_producer s \<in> {Finishing, Finished} then cp_error (pl_source s) else csv_verdict (pl_source s))"

definition pushing :: "'a producer \<Rightarrow> 'a option" where
  "pushing p = (case p of PIdle \<Rightarrow> None | PCalled e \<Rightarrow> Some e | PLoaded e _ \<Rightarrow> Some e | PFree e _ \<Rightarrow> Some e | PStored e _ \<Rightarrow> Some e)"

definition threads_ok :: "pipeline \<Rightarrow> bool" where
  "threads_ok s \<longleftrightarrow> system_ok (pl_system s) \<and> (pl_done s \<longleftrightarrow> pl_producer s = Finished)
     \<and> (\<forall>e. pushing (sy_producer (pl_system s)) = Some e \<longrightarrow> pl_producer s = Pushing e)
     \<and> (pl_consumer s \<noteq> Polling \<longrightarrow> sy_consumer (pl_system s) = CIdle)"

text \<open>The book and the counts are those of the events applied so far.\<close>

definition counts_of :: "order_book \<Rightarrow> market_data_event list \<Rightarrow> pipeline \<Rightarrow> bool" where
  "counts_of bk es s \<longleftrightarrow> (case process_events es bk of (rs, bk1) \<Rightarrow>
     pl_book s = bk1 \<and> pl_applied s = length (filter (\<lambda>r. r = Applied) rs)
     \<and> pl_rejected s = length (filter (\<lambda>r. r \<noteq> Applied) rs))"

definition pipeline_inv :: "nat \<Rightarrow> order_book \<Rightarrow> csv_producer \<Rightarrow> pipeline \<Rightarrow> bool" where
  "pipeline_inv n bk src s \<longleftrightarrow> threads_ok s \<and> usable_capacity (sy_queue (pl_system s)) = n
     \<and> source_verdict s = csv_verdict src
     \<and> (\<exists>es. csv_feed src = es @ not_applied s \<and> counts_of bk es s)"

lemma counts_of_apply:
  assumes "counts_of bk es s"
  shows "counts_of bk (es @ [e]) (apply_popped e s)"
  using assms by (auto simp: counts_of_def process_events_snoc apply_popped_def split: prod.splits)

lemma apply_popped_frame:
  "pl_system (apply_popped e s) = pl_system s" "pl_source (apply_popped e s) = pl_source s"
  "pl_producer (apply_popped e s) = pl_producer s" "pl_done (apply_popped e s) = pl_done s"
  "pl_consumer (apply_popped e s) = pl_consumer s"
  by (auto simp: apply_popped_def split: prod.split)

text \<open>An access to the ring by either thread, as the theory of the queue sees it.\<close>

lemma push_access:
  assumes "system_ok sys" and "push_step (sy_producer sys) (sy_queue sys) = (l, p, q)"
  shows "system_ok (sys\<lparr>sy_producer := p, sy_queue := q\<rparr>)" and "usable_capacity q = usable_capacity (sy_queue sys)"
    and "queue_spec (usable_capacity (sy_queue sys)) (contents (sy_queue sys)) l (contents q)"
  using spsc_step_refines [OF spsc_step.producer [OF assms(2)] assms(1)] by simp_all

lemma pop_access:
  assumes "system_ok sys" and "pop_step (sy_consumer sys) (sy_queue sys) = (l, c, q)"
  shows "system_ok (sys\<lparr>sy_consumer := c, sy_queue := q\<rparr>)" and "usable_capacity q = usable_capacity (sy_queue sys)"
    and "queue_spec (usable_capacity (sy_queue sys)) (contents (sy_queue sys)) l (contents q)"
  using spsc_step_refines [OF spsc_step.consumer [OF assms(2)] assms(1)] by simp_all

lemma call_ok:
  "system_ok sys \<Longrightarrow> system_ok (sys\<lparr>sy_producer := PCalled e\<rparr>)" "system_ok sys \<Longrightarrow> system_ok (sys\<lparr>sy_consumer := CCalled\<rparr>)"
  by (simp_all add: system_ok_def producer_ok_def consumer_ok_def)

lemma push_step_label:
  assumes "push_step p q = (l, p1, q1)" and "pushing p = Some e"
  shows "l = Tau \<and> pushing p1 = Some e \<or> (l = PushFull \<or> l = Pushed e) \<and> p1 = PIdle"
  using assms by (cases p) (auto simp: pushing_def split: if_splits)

lemma pop_step_label:
  assumes "pop_step c q = (l, c1, q1)"
  shows "l = Tau \<or> (l = PopEmpty \<or> (\<exists>e. l = Popped e)) \<and> c1 = CIdle"
  using assms by (cases c) (auto split: if_splits)

lemma pushing_None [simp]: "pushing p = None \<longleftrightarrow> p = PIdle" "pushing PIdle = None"
  by (cases p) (simp_all add: pushing_def)

lemma producer_keeps:
  assumes "pipeline_inv n bk src s"
  shows "pipeline_inv n bk src (producer_step s)"
proof (cases "pl_producer s")
  case Reading
  obtain r p where r: "producer_next (pl_source s) = (r, p)" by (cases "producer_next (pl_source s)") auto
  show ?thesis
    using assms producer_next_step [of "pl_source s"] Reading
    by (cases r) (auto simp: producer_step_def producer_read_def r pipeline_inv_def threads_ok_def source_verdict_def
        not_applied_def counts_of_def split: option.splits)
next
  case (Pushing e)
  let ?sys = "pl_system s"
  have ok: "system_ok ?sys" using assms by (simp add: pipeline_inv_def threads_ok_def)
  have "e' = e" if "pushing (sy_producer ?sys) = Some e'" for e'
    using assms Pushing that by (simp add: pipeline_inv_def threads_ok_def)
  then have e: "pushing (sy_producer ?sys) = None \<or> pushing (sy_producer ?sys) = Some e"
    by (cases "pushing (sy_producer ?sys)") blast+
  show ?thesis
  proof (cases "sy_producer ?sys = PIdle")
    case True
    then show ?thesis
      using assms Pushing call_ok(1) [OF ok, of e]
      by (auto simp: producer_step_def producer_push_def pipeline_inv_def threads_ok_def source_verdict_def
          not_applied_def counts_of_def pushing_def Let_def)
  next
    case False
    then have p: "pushing (sy_producer ?sys) = Some e" using e by auto
    obtain l p1 q1 where st: "push_step (sy_producer ?sys) (sy_queue ?sys) = (l, p1, q1)"
      by (cases "push_step (sy_producer ?sys) (sy_queue ?sys)") auto
    note a = push_access [OF ok st]
    show ?thesis
      using push_step_label [OF st p] a assms Pushing False
      by (auto simp: producer_step_def producer_push_def st pipeline_inv_def threads_ok_def source_verdict_def
          not_applied_def counts_of_def Let_def pushing_def)
  qed
next
  case Finishing
  then show ?thesis
    using assms by (auto simp: producer_step_def pipeline_inv_def threads_ok_def source_verdict_def not_applied_def
        counts_of_def split: option.splits)
next
  case Finished
  then show ?thesis using assms by (simp add: producer_step_def)
qed

lemma consumer_keeps:
  assumes "pipeline_inv n bk src s"
  shows "pipeline_inv n bk src (consumer_step s)"
proof (cases "pl_consumer s")
  case Polling
  let ?sys = "pl_system s"
  have ok: "system_ok ?sys" using assms by (simp add: pipeline_inv_def threads_ok_def)
  show ?thesis
  proof (cases "sy_consumer ?sys = CIdle")
    case True
    then show ?thesis
      using assms Polling call_ok(2) [OF ok]
      by (auto simp: consumer_step_def consumer_pop_def pipeline_inv_def threads_ok_def source_verdict_def
          not_applied_def counts_of_def Let_def)
  next
    case False
    obtain l c1 q1 where st: "pop_step (sy_consumer ?sys) (sy_queue ?sys) = (l, c1, q1)"
      by (cases "pop_step (sy_consumer ?sys) (sy_queue ?sys)") auto
    note a = pop_access [OF ok st]
    define t where "t = s\<lparr>pl_system := ?sys\<lparr>sy_consumer := c1, sy_queue := q1\<rparr>\<rparr>"
    have run: "consumer_step s = (case l of Popped e \<Rightarrow> apply_popped e t | PopEmpty \<Rightarrow> t\<lparr>pl_consumer := Checking\<rparr> | _ \<Rightarrow> t)"
      using Polling False by (simp add: consumer_step_def consumer_pop_def st t_def Let_def cong: label.case_cong)
    have t: "threads_ok t" "usable_capacity (sy_queue (pl_system t)) = n" "source_verdict t = csv_verdict src"
      using assms a Polling by (auto simp: t_def pipeline_inv_def threads_ok_def source_verdict_def)
    obtain es where es: "csv_feed src = es @ not_applied s" "counts_of bk es s"
      using assms by (auto simp: pipeline_inv_def)
    have count: "counts_of bk es t" using es(2) by (simp add: t_def counts_of_def)
    consider "l = Tau" | "l = PopEmpty" "c1 = CIdle" | e where "l = Popped e" using pop_step_label [OF st] by blast
    then show ?thesis
    proof cases
      case 1
      then have "not_applied t = not_applied s" using a(3) by (simp add: t_def not_applied_def)
      then show ?thesis using t es(1) count 1 run by (auto simp: pipeline_inv_def)
    next
      case 2
      then have "not_applied (t\<lparr>pl_consumer := Checking\<rparr>) = not_applied s" using a(3) by (simp add: t_def not_applied_def)
      moreover have "threads_ok (t\<lparr>pl_consumer := Checking\<rparr>)"
        using t(1) 2(2) by (simp add: threads_ok_def) (simp add: t_def)
      ultimately show ?thesis
        using t es(1) count 2 run by (auto simp: pipeline_inv_def source_verdict_def counts_of_def)
    next
      case (3 e)
      then have "not_applied s = e # not_applied t" using a(3) by (simp add: t_def not_applied_def)
      then have "csv_feed src = (es @ [e]) @ not_applied t" using es(1) by simp
      moreover have "pipeline_inv n bk src (apply_popped e t) \<longleftrightarrow> threads_ok t \<and> usable_capacity (sy_queue (pl_system t)) = n
          \<and> source_verdict t = csv_verdict src \<and> (\<exists>es. csv_feed src = es @ not_applied t \<and> counts_of bk es (apply_popped e t))"
        by (simp add: pipeline_inv_def threads_ok_def source_verdict_def not_applied_def apply_popped_frame)
      ultimately show ?thesis using t counts_of_apply [OF count, of e] run 3 by auto
    qed
  qed
next
  case Checking
  then show ?thesis
    using assms by (auto simp: consumer_step_def pipeline_inv_def threads_ok_def source_verdict_def not_applied_def
        counts_of_def split: option.splits)
next
  case Exited
  then show ?thesis using assms by (simp add: consumer_step_def)
qed

lemma start_inv:
  assumes "2 \<le> slots"
  shows "pipeline_inv (slots - 1) bk (open_producer path) (start_pipeline slots path bk)"
  using start_ok [OF assms, of default_event]
  by (simp add: pipeline_inv_def start_pipeline_def threads_ok_def source_verdict_def not_applied_def counts_of_def)
    (simp add: start_system_def)

lemma reaches_inv:
  assumes "reaches s t" and "pipeline_inv n bk src s"
  shows "pipeline_inv n bk src t"
  using assms by (induction rule: rtranclp_induct) (auto simp: pipeline_step_iff producer_keeps consumer_keeps)

section \<open>The producer alone\<close>

lemma reaches_producer: "reaches s ((producer_step ^^ n) s)"
  by (induction n) (auto intro: rtranclp.rtrancl_into_rtrancl by_producer)

lemma reaches_consumer: "reaches s ((consumer_step ^^ n) s)"
  by (induction n) (auto intro: rtranclp.rtrancl_into_rtrancl by_consumer)

lemma push_alone:
  assumes "pl_producer s = Pushing e" and "sy_producer (pl_system s) = PIdle" and "fst (try_push e (sy_queue (pl_system s)))"
  shows "(producer_step ^^ 5) s
    = s\<lparr>pl_system := (pl_system s)\<lparr>sy_producer := PIdle, sy_queue := snd (try_push e (sy_queue (pl_system s)))\<rparr>, pl_producer := Reading\<rparr>"
  using assms by (simp add: numeral_eq_Suc producer_step_def producer_push_def try_push_def Let_def split: if_splits)

lemma read_and_push_alone:
  assumes "pl_producer s = Reading" and "producer_next (pl_source s) = (Some e, src)"
    and "sy_producer (pl_system s) = PIdle" and "fst (try_push e (sy_queue (pl_system s)))"
  shows "reaches s (s\<lparr>pl_system := (pl_system s)\<lparr>sy_producer := PIdle, sy_queue := snd (try_push e (sy_queue (pl_system s)))\<rparr>,
    pl_source := src, pl_producer := Reading\<rparr>)"
proof -
  let ?s = "s\<lparr>pl_source := src, pl_producer := Pushing e\<rparr>"
  have "producer_step s = ?s" using assms(1,2) by (simp add: producer_step_def producer_read_def)
  then have "reaches s ?s" using by_producer [of s] by auto
  moreover have "reaches ?s ((producer_step ^^ 5) ?s)" by (rule reaches_producer)
  moreover have "(producer_step ^^ 5) ?s = s\<lparr>pl_system := (pl_system s)\<lparr>sy_producer := PIdle,
      sy_queue := snd (try_push e (sy_queue (pl_system s)))\<rparr>, pl_source := src, pl_producer := Reading\<rparr>"
    using push_alone [of ?s e] assms(3,4) by simp
  ultimately show ?thesis by simp
qed

text \<open>With room in the ring for the whole file the producer can run to its end before anyone looks.\<close>

lemma producer_runs_through:
  assumes "pl_producer s = Reading" and "sy_producer (pl_system s) = PIdle" and "spsc_ok (sy_queue (pl_system s))"
    and "length (contents (sy_queue (pl_system s))) + length (csv_feed (pl_source s)) \<le> usable_capacity (sy_queue (pl_system s))"
  shows "\<exists>t. reaches s t \<and> pl_producer t = Finished \<and> pl_done t \<and> pl_consumer t = pl_consumer s
    \<and> pl_book t = pl_book s \<and> pl_applied t = pl_applied s \<and> pl_rejected t = pl_rejected s"
  using assms
proof (induction "csv_feed (pl_source s)" arbitrary: s)
  case Nil
  obtain src where n: "producer_next (pl_source s) = (None, src)"
    using csv.next_end [OF _ Nil.hyps [symmetric]] by (cases "producer_next (pl_source s)") auto
  have "(producer_step ^^ 2) s = s\<lparr>pl_source := src, pl_done := True, pl_producer := Finished\<rparr>"
    using Nil.prems(1) n by (simp add: numeral_2_eq_2 producer_step_def producer_read_def)
  then show ?case using reaches_producer [of s 2] by (intro exI [of _ "(producer_step ^^ 2) s"]) simp
next
  case (Cons e es)
  obtain src where n: "producer_next (pl_source s) = (Some e, src)" and src: "csv_feed src = es"
    using csv.next_event [OF _ Cons.hyps(2) [symmetric]] by (cases "producer_next (pl_source s)") auto
  let ?q = "sy_queue (pl_system s)"
  have feed: "csv_feed (pl_source s) = e # es" by (rule Cons.hyps(2) [symmetric])
  have room: "length (contents ?q) < usable_capacity ?q" using Cons.prems(4) by (simp add: feed)
  note push = spsc.push_items [OF Cons.prems(3), of e] spsc.push_ok [OF Cons.prems(3), of e]
  define t where "t = s\<lparr>pl_system := (pl_system s)\<lparr>sy_producer := PIdle, sy_queue := snd (try_push e ?q)\<rparr>, pl_source := src,
    pl_producer := Reading\<rparr>"
  have "reaches s t" using read_and_push_alone [OF Cons.prems(1) n Cons.prems(2)] push room by (simp add: t_def)
  moreover have "\<exists>u. reaches t u \<and> pl_producer u = Finished \<and> pl_done u \<and> pl_consumer u = pl_consumer t
    \<and> pl_book u = pl_book t \<and> pl_applied u = pl_applied t \<and> pl_rejected u = pl_rejected t"
  proof (rule Cons.hyps(1))
    show "length (contents (sy_queue (pl_system t))) + length (csv_feed (pl_source t)) \<le> usable_capacity (sy_queue (pl_system t))"
      using push room Cons.prems(4) src by (simp add: t_def feed)
  qed (use push src in \<open>simp_all add: t_def\<close>)
  ultimately obtain u where u: "reaches s t" "reaches t u" "pl_producer u = Finished" "pl_done u"
    "pl_consumer u = pl_consumer t" "pl_book u = pl_book t" "pl_applied u = pl_applied t" "pl_rejected u = pl_rejected t"
    by blast
  then show ?case using rtranclp_trans [OF u(1,2)] by (intro exI [of _ u]) (simp add: t_def)
qed

lemma counts_none: "counts_of bk es s \<Longrightarrow> pl_applied s = 0 \<Longrightarrow> pl_rejected s = 0 \<Longrightarrow> es = []"
proof -
  assume c: "counts_of bk es s" "pl_applied s = 0" "pl_rejected s = 0"
  obtain rs bk1 where r: "process_events es bk = (rs, bk1)" by (cases "process_events es bk")
  have len: "length (fst (process_events es bk)) = length es"
    by (induction es arbitrary: bk) (simp_all add: split_def Let_def)
  have "filter (\<lambda>r. r = Applied) rs = []" "filter (\<lambda>r. r \<noteq> Applied) rs = []" using c r by (simp_all add: counts_of_def)
  then have "rs = []" by (cases rs) (auto split: if_splits)
  then show "es = []" using len r by simp
qed

section \<open>Properties\<close>

text \<open>
  C31. In every interleaving of the two threads, the events applied so far are a prefix of the file's
  events, applied in order and each once, the book and both counts are those of that prefix, and the
  rest is in the ring, in the producer's hand or still in the file. When both threads have ended, the
  events not applied are exactly those left in the ring, less than the number of slots, and the
  exception reported is the one the file ends in.
\<close>

theorem pipeline_applies_in_order:
  assumes "2 \<le> slots" and "reaches (start_pipeline slots path bk) s"
  shows "\<exists>es. csv_feed (open_producer path) = es @ not_applied s \<and> counts_of bk es s
    \<and> length (contents (sy_queue (pl_system s))) < slots
    \<and> (joined s \<longrightarrow> not_applied s = contents (sy_queue (pl_system s))
         \<and> cp_error (pl_source s) = csv_verdict (open_producer path)
         \<and> exit_code s = (if csv_verdict (open_producer path) = None then 0 else 1))"
proof -
  note inv = reaches_inv [OF assms(2) start_inv [OF assms(1)], unfolded pipeline_inv_def]
  then obtain es where "csv_feed (open_producer path) = es @ not_applied s" "counts_of bk es s" by blast
  moreover have "spsc_ok (sy_queue (pl_system s))" using inv by (simp add: threads_ok_def system_ok_def)
  then have "length (contents (sy_queue (pl_system s))) < slots"
    using q_length_less [of "sy_queue (pl_system s)"] inv assms(1) unfolding usable_capacity_def length_contents by linarith
  moreover have "not_applied s = contents (sy_queue (pl_system s)) \<and> cp_error (pl_source s) = csv_verdict (open_producer path)"
    if "joined s"
    using that inv by (simp add: joined_def not_applied_def source_verdict_def)
  moreover have "exit_code s = (if cp_error (pl_source s) = None then 0 else 1)"
    by (simp add: exit_code_def main_outcome_def split: option.split)
  ultimately show ?thesis by auto
qed

text \<open>A file of one row.\<close>

definition one_event :: market_data_event where
  "one_event = default_event\<lparr>ev_order_id := 7, ev_price := 100, ev_quantity := 5\<rparr>"

definition one_row :: "string option" where
  "one_row = Some (text_of [render_csv one_event])"

lemma one_row_source:
  "csv_feed (open_producer one_row) = [one_event]" "csv_verdict (open_producer one_row) = None"
proof -
  have able: "csv_able one_event" by (simp add: csv_able_def type_name_def one_event_def default_event_def)
  have "text_lines (text_of [render_csv one_event]) = [render_csv one_event]"
    by (rule text_lines_text_of) (simp add: rendered_no_newline [OF able])
  then have "replay_rows 0 (text_lines (text_of [render_csv one_event])) = ([one_event], None)"
    using replay_rendered [of "[one_event]" 0] able by simp
  then show "csv_feed (open_producer one_row) = [one_event]" "csv_verdict (open_producer one_row) = None"
    by (simp_all add: one_row_def open_producer_feed)
qed

lemma pipeline_applies_in_order_witness:
  "\<exists>es. [one_event] = es @ not_applied ((consumer_step ^^ 5) ((producer_step ^^ 6) (start_pipeline queue_slots one_row (projr (new_book 2)))))"
proof -
  let ?s = "start_pipeline queue_slots one_row (projr (new_book 2))"
  have "2 \<le> queue_slots" by (simp add: queue_slots_def)
  moreover have "reaches ?s ((consumer_step ^^ 5) ((producer_step ^^ 6) ?s))"
    by (rule rtranclp_trans [OF reaches_producer reaches_consumer])
  ultimately show ?thesis using pipeline_applies_in_order [of queue_slots one_row] one_row_source(1) by metis
qed

text \<open>
  C32. The pipeline may lose events: for any file with fewer events than the ring has slots, some
  interleaving ends both threads with none of its events applied, all of them left in the ring, and
  reports no error that the file itself does not have. (The consumer's pop fails on the empty ring; the
  producer then pushes everything and stores the flag; the consumer reads the flag and leaves, without
  looking at the ring again.)
\<close>

theorem pipeline_may_lose_events:
  assumes "2 \<le> slots" and "length (csv_feed (open_producer path)) < slots"
  shows "\<exists>s. reaches (start_pipeline slots path bk) s \<and> joined s \<and> pl_book s = bk
    \<and> contents (sy_queue (pl_system s)) = csv_feed (open_producer path)
    \<and> main_outcome s = (case csv_verdict (open_producer path) of
         Some err \<Rightarrow> Inl err
       | None \<Rightarrow> Inr (0, 0, active_orders bk, map_option lv_price (best_bid bk), map_option lv_price (best_ask bk)))"
proof -
  let ?s = "start_pipeline slots path bk"
  let ?s1 = "(consumer_step ^^ 3) ?s"
  have s1: "?s1 = ?s\<lparr>pl_consumer := Checking\<rparr>"
    by (simp add: numeral_3_eq_3 consumer_step_def consumer_pop_def start_pipeline_def start_system_def new_spsc_def Let_def)
  have "reaches ?s ?s1" by (rule reaches_consumer)
  moreover obtain t where t: "reaches ?s1 t" "pl_producer t = Finished" "pl_done t" "pl_consumer t = Checking"
    "pl_book t = bk" "pl_applied t = 0" "pl_rejected t = 0"
  proof -
    have "\<exists>t. reaches ?s1 t \<and> pl_producer t = Finished \<and> pl_done t \<and> pl_consumer t = pl_consumer ?s1
      \<and> pl_book t = pl_book ?s1 \<and> pl_applied t = pl_applied ?s1 \<and> pl_rejected t = pl_rejected ?s1"
    proof (rule producer_runs_through)
      show "pl_producer ?s1 = Reading" "sy_producer (pl_system ?s1) = PIdle" "spsc_ok (sy_queue (pl_system ?s1))"
        using start_ok(1) [OF assms(1), of default_event] unfolding s1
        by (simp_all add: start_pipeline_def system_ok_def) (simp add: start_system_def)
      show "length (contents (sy_queue (pl_system ?s1))) + length (csv_feed (pl_source ?s1)) \<le> usable_capacity (sy_queue (pl_system ?s1))"
        using start_ok(2,3) [OF assms(1), of default_event] assms(2) unfolding s1
        by (simp add: start_pipeline_def del: length_contents)
    qed
    then show thesis using that unfolding s1 by (auto simp: start_pipeline_def)
  qed
  moreover have "reaches t (t\<lparr>pl_consumer := Exited\<rparr>)"
    using by_consumer [of t] t(3,4) by (simp add: consumer_step_def r_into_rtranclp)
  ultimately have run: "reaches ?s (t\<lparr>pl_consumer := Exited\<rparr>)" by (meson rtranclp_trans)
  have j: "joined (t\<lparr>pl_consumer := Exited\<rparr>)" using t by (simp add: joined_def)
  note inv = reaches_inv [OF run start_inv [OF assms(1)], unfolded pipeline_inv_def]
  obtain es where es: "csv_feed (open_producer path) = es @ not_applied (t\<lparr>pl_consumer := Exited\<rparr>)"
    "counts_of bk es (t\<lparr>pl_consumer := Exited\<rparr>)" using inv by blast
  have "es = []" using counts_none [OF es(2)] t by simp
  then show ?thesis
    using run j t es(1) inv by (intro exI [of _ "t\<lparr>pl_consumer := Exited\<rparr>"])
      (simp add: not_applied_def source_verdict_def main_outcome_def split: option.split)
qed

lemma pipeline_may_lose_events_witness:
  "\<exists>s. reaches (start_pipeline queue_slots one_row (projr (new_book 2))) s \<and> joined s
    \<and> contents (sy_queue (pl_system s)) = [one_event] \<and> (\<exists>rest. main_outcome s = Inr (0, 0, rest))"
  using pipeline_may_lose_events [of queue_slots one_row "projr (new_book 2)"]
  by (auto simp: queue_slots_def one_row_source)

text \<open>
  Once the flag is set, a pop begun afterwards misses nothing: from any reachable state with the flag
  set and the consumer between two pops, whatever run ends both threads, it ends with every event of the
  file applied, in order, and the counts and the book of the whole file.
\<close>

theorem pipeline_complete_after_flag:
  assumes "2 \<le> slots" and "reaches (start_pipeline slots path bk) s" and "pl_done s"
    and "pl_consumer s = Polling" and "sy_consumer (pl_system s) = CIdle" and "reaches s t" and "joined t"
  shows "counts_of bk (csv_feed (open_producer path)) t"
proof -
  have inv: "pipeline_inv (slots - 1) bk (open_producer path) u" if "reaches s u" for u
    using reaches_inv [OF rtranclp_trans [OF assms(2) that] start_inv [OF assms(1)]] .
  have "pl_producer t = Finished \<and> (pl_consumer t \<noteq> Polling \<longrightarrow> contents (sy_queue (pl_system t)) = [])"
    using assms(6)
  proof (induction rule: rtranclp_induct)
    case base
    then show ?case using inv [of s] assms(3,4) by (simp add: pipeline_inv_def threads_ok_def)
  next
    case (step u v)
    have ok: "system_ok (pl_system u)" using inv [OF step.hyps(1)] by (simp add: pipeline_inv_def threads_ok_def)
    have fin: "pl_producer u = Finished" using step.IH by blast
    consider "v = u" | "v = consumer_step u" using step.hyps(2) fin by (auto simp: pipeline_step_iff producer_step_def)
    then show ?case
    proof cases
      case 1
      then show ?thesis using step.IH by simp
    next
      case 2
      obtain l c q where st: "pop_step (sy_consumer (pl_system u)) (sy_queue (pl_system u)) = (l, c, q)"
        by (cases "pop_step (sy_consumer (pl_system u)) (sy_queue (pl_system u))") auto
      show ?thesis
        using pop_access(3) [OF ok st] step.IH fin
        by (cases "pl_consumer u"; cases l)
          (auto simp: 2 consumer_step_def consumer_pop_def st Let_def apply_popped_frame)
    qed
  qed
  then have "not_applied t = []" using assms(7) by (simp add: not_applied_def joined_def)
  then show ?thesis using inv [OF assms(6)] by (auto simp: pipeline_inv_def)
qed

text \<open>The consumer alone on an empty ring with the flag set: one failed pop, then it leaves.\<close>

lemma consumer_leaves:
  assumes "pl_consumer s = Polling" and "sy_consumer (pl_system s) = CIdle" and "pl_done s"
    and "q_tail (sy_queue (pl_system s)) = q_head (sy_queue (pl_system s))"
  shows "(consumer_step ^^ 4) s = s\<lparr>pl_consumer := Exited\<rparr>"
  using assms by (simp add: numeral_eq_Suc consumer_step_def consumer_pop_def Let_def)

lemma pipeline_complete_after_flag_witness:
  "\<exists>t. reaches (start_pipeline queue_slots one_row (projr (new_book 2))) t \<and> joined t
    \<and> counts_of (projr (new_book 2)) [one_event] t"
proof -
  let ?s = "start_pipeline queue_slots one_row (projr (new_book 2))"
  have slots: "2 \<le> queue_slots" by (simp add: queue_slots_def)
  obtain src where n: "producer_next (open_producer one_row) = (Some one_event, src)" and src: "csv_feed src = []"
    using csv.next_event [of "open_producer one_row"] one_row_source(1) by (cases "producer_next (open_producer one_row)") auto
  obtain src2 where n2: "producer_next src = (None, src2)"
    using csv.next_end [of src] src by (cases "producer_next src") auto
  have q: "try_push one_event (new_spsc queue_slots default_event)
      = (True, \<lparr>q_storage = (replicate queue_slots default_event)[0 := one_event], q_head = 1, q_tail = 0\<rparr>)"
    by (simp add: try_push_def new_spsc_def increment_def queue_slots_def Let_def)
  define s1 where "s1 = ?s\<lparr>pl_system := (pl_system ?s)\<lparr>sy_producer := PIdle, sy_queue := snd (try_push one_event (sy_queue (pl_system ?s)))\<rparr>,
    pl_source := src, pl_producer := Reading\<rparr>"
  have r1: "reaches ?s s1"
    unfolding s1_def by (rule read_and_push_alone) (simp_all add: start_pipeline_def start_system_def n q)
  define s2 where "s2 = s1\<lparr>pl_source := src2, pl_done := True, pl_producer := Finished\<rparr>"
  have r2: "reaches s1 s2"
    using reaches_producer [of s1 2] n2 by (simp add: s1_def s2_def numeral_2_eq_2 producer_step_def producer_read_def)
  have s2: "pl_consumer s2 = Polling" "sy_consumer (pl_system s2) = CIdle" "pl_done s2" "pl_producer s2 = Finished"
    "sy_queue (pl_system s2) = \<lparr>q_storage = (replicate queue_slots default_event)[0 := one_event], q_head = 1, q_tail = 0\<rparr>"
    by (simp_all add: s1_def s2_def start_pipeline_def start_system_def q)
  define s3 where "s3 = (consumer_step ^^ 5) s2"
  have s3: "pl_consumer s3 = Polling" "sy_consumer (pl_system s3) = CIdle" "pl_done s3" "pl_producer s3 = Finished"
    "q_tail (sy_queue (pl_system s3)) = 1" "q_head (sy_queue (pl_system s3)) = 1"
    using s2 by (simp_all add: s3_def numeral_eq_Suc consumer_step_def consumer_pop_def Let_def apply_popped_frame)
      (simp_all add: increment_def queue_slots_def)
  have r3: "reaches s2 s3" unfolding s3_def by (rule reaches_consumer)
  have r4: "reaches s3 (s3\<lparr>pl_consumer := Exited\<rparr>)"
    using reaches_consumer [of s3 4] consumer_leaves [OF s3(1-3)] s3(5,6) by simp
  have j: "joined (s3\<lparr>pl_consumer := Exited\<rparr>)" using s3 by (simp add: joined_def)
  have "counts_of (projr (new_book 2)) [one_event] (s3\<lparr>pl_consumer := Exited\<rparr>)"
    using pipeline_complete_after_flag [OF slots rtranclp_trans [OF r1 r2] s2(3,1,2) rtranclp_trans [OF r3 r4] j]
    by (simp add: one_row_source)
  then show ?thesis using j rtranclp_trans [OF rtranclp_trans [OF r1 r2] rtranclp_trans [OF r3 r4]] by blast
qed

end
