(* ===== verification/Replay.thy ===== *)
theory Replay
  imports Decimal ItchFile MoldProps MultiSymbol
begin

text \<open>
  \<^verbatim>\<open>itch_replay\<close>: from the bytes of a capture to a reconstructed book and the statistics printed about
  it. The report is kept as its values. The file system is the argument \<^verbatim>\<open>files\<close>, from a path to the
  bytes of the file when it can be opened.
\<close>

section \<open>The loops\<close>

record counts =
  ct_decoded :: nat
  ct_applied :: nat
  ct_rejected :: nat
  ct_peak_orders :: u64

definition no_counts :: counts where
  "no_counts = \<lparr>ct_decoded = 0, ct_applied = 0, ct_rejected = 0, ct_peak_orders = 0\<rparr>"

definition count_result :: "process_result \<Rightarrow> counts \<Rightarrow> counts" where
  "count_result r c =
     (let c1 = c\<lparr>ct_decoded := ct_decoded c + 1\<rparr>
      in if r = Applied then c1\<lparr>ct_applied := ct_applied c1 + 1\<rparr>
         else c1\<lparr>ct_rejected := ct_rejected c1 + 1\<rparr>)"

definition count_one :: "market_data_event \<Rightarrow> counts \<times> order_book \<Rightarrow> counts \<times> order_book" where
  "count_one e st =
     (case st of (c, bk) \<Rightarrow> case process_event e bk of (r, bk1) \<Rightarrow>
        let c1 = count_result r c
        in (if active_orders bk1 > ct_peak_orders c1 then c1\<lparr>ct_peak_orders := active_orders bk1\<rparr> else c1, bk1))"

definition apply_counted :: "nat \<Rightarrow> market_data_event \<Rightarrow> counts \<times> order_book \<Rightarrow> bool \<times> counts \<times> order_book" where
  "apply_counted max_events e st =
     (let st1 = count_one e st in (max_events \<noteq> 0 \<and> ct_decoded (fst st1) \<ge> max_events, st1))"

definition apply_all ::
  "('c \<Rightarrow> market_data_event option \<times> 'c) \<Rightarrow> 'c \<Rightarrow> order_book \<Rightarrow> nat \<Rightarrow> ('c \<times> counts \<times> order_book) option" where
  "apply_all step source book max_events = drive step (apply_counted max_events) source (no_counts, book)"

definition apply_counted_symbols ::
  "nat \<Rightarrow> market_data_event \<Rightarrow> book_error + counts \<times> multi_book \<Rightarrow> bool \<times> (book_error + counts \<times> multi_book)" where
  "apply_counted_symbols max_events e st =
     (case st of
       Inl err \<Rightarrow> (True, Inl err)
     | Inr (c, books) \<Rightarrow> (case multi_event e books of
         Inl err \<Rightarrow> (True, Inl err)
       | Inr (r, books1) \<Rightarrow>
           let c1 = count_result r c
           in (max_events \<noteq> 0 \<and> ct_decoded c1 \<ge> max_events, Inr (c1, books1))))"

definition apply_all_symbols ::
  "('c \<Rightarrow> market_data_event option \<times> 'c) \<Rightarrow> 'c \<Rightarrow> multi_book \<Rightarrow> nat \<Rightarrow> ('c \<times> (book_error + counts \<times> multi_book)) option" where
  "apply_all_symbols step source books max_events =
     drive step (apply_counted_symbols max_events) source (Inr (no_counts, books))"

section \<open>The summaries\<close>

record summary =
  sm_counts :: counts
  sm_active_orders :: u64
  sm_best_bid :: "level_view option"
  sm_best_ask :: "level_view option"
  sm_checksum :: u64

definition print_summary :: "counts \<Rightarrow> order_book \<Rightarrow> summary" where
  "print_summary c bk = \<lparr>sm_counts = c, sm_active_orders = active_orders bk, sm_best_bid = best_bid bk,
     sm_best_ask = best_ask bk, sm_checksum = state_checksum bk\<rparr>"

record symbol_summary =
  ss_counts :: counts
  ss_symbols :: nat
  ss_total_orders :: u64
  ss_most_active :: symbol_id
  ss_orders :: u64
  ss_best_bid :: "level_view option"
  ss_best_ask :: "level_view option"
  ss_checksum :: u64

definition most_active :: "multi_book \<Rightarrow> symbol_id \<times> u64" where
  "most_active books = fold (\<lambda>symbol (best_symbol, best_orders).
     let n = active_orders (the (symbol_book symbol books))
     in if n > best_orders then (symbol, n) else (best_symbol, best_orders)) (mb_seen books) (0, 0)"

definition print_symbol_summary :: "counts \<Rightarrow> multi_book \<Rightarrow> symbol_summary" where
  "print_symbol_summary c books =
     (case most_active books of (best_symbol, best_orders) \<Rightarrow>
        \<lparr>ss_counts = c, ss_symbols = length (mb_seen books), ss_total_orders = total_orders books,
         ss_most_active = best_symbol, ss_orders = best_orders, ss_best_bid = symbol_best_bid best_symbol books,
         ss_best_ask = symbol_best_ask best_symbol books, ss_checksum = multi_checksum books\<rparr>)"

section \<open>The program\<close>

record options =
  op_mold :: bool
  op_per_symbol :: bool
  op_capacity :: u64
  op_per_symbol_capacity :: u64
  op_max_events :: u64

definition default_options :: options where
  "default_options = \<lparr>op_mold = False, op_per_symbol = False, op_capacity = 2000000,
     op_per_symbol_capacity = 8192, op_max_events = 0\<rparr>"

text \<open>The left value is the unknown or incomplete argument.\<close>

fun parse_options :: "string list \<Rightarrow> options \<Rightarrow> string + options" where
  "parse_options [] o' = Inr o'"
| "parse_options (arg # rest) o' =
     (if arg = ''--mold'' then parse_options rest (o'\<lparr>op_mold := True\<rparr>)
      else if arg = ''--per-symbol'' then parse_options rest (o'\<lparr>op_per_symbol := True\<rparr>)
      else if arg = ''--capacity'' \<and> rest \<noteq> [] then
        parse_options (tl rest) (o'\<lparr>op_capacity := parse_size (hd rest) (op_capacity o')\<rparr>)
      else if arg = ''--per-symbol-capacity'' \<and> rest \<noteq> [] then
        parse_options (tl rest) (o'\<lparr>op_per_symbol_capacity := parse_size (hd rest) (op_per_symbol_capacity o')\<rparr>)
      else if arg = ''--max'' \<and> rest \<noteq> [] then
        parse_options (tl rest) (o'\<lparr>op_max_events := parse_size (hd rest) 0\<rparr>)
      else Inl arg)"

datatype report = Single summary | Per_symbol u64 symbol_summary

record replay_run =
  rr_exit :: nat
  rr_report :: "report option"
  rr_mold_stats :: "(u64 \<times> u64 \<times> u64) option"

definition exit_with :: "nat \<Rightarrow> replay_run" where
  "exit_with code = \<lparr>rr_exit = code, rr_report = None, rr_mold_stats = None\<rparr>"

text \<open>The part behind the construction of the connector, the same for both kinds.\<close>

definition replay_connector ::
  "('c \<Rightarrow> market_data_event option \<times> 'c) \<Rightarrow> ('c \<Rightarrow> bool) \<Rightarrow> ('c \<Rightarrow> (u64 \<times> u64 \<times> u64) option) \<Rightarrow> options \<Rightarrow> 'c \<Rightarrow> replay_run option" where
  "replay_connector step failed stats o' source =
     (if op_per_symbol o' then
        (case apply_all_symbols step source (new_multi (unat (op_per_symbol_capacity o')) (2 ^ 16)) (unat (op_max_events o')) of
          None \<Rightarrow> None
        | Some (c1, Inl err) \<Rightarrow> Some (exit_with 1)
        | Some (c1, Inr (ct, books)) \<Rightarrow> Some \<lparr>rr_exit = (if failed c1 then 1 else 0),
            rr_report = Some (Per_symbol (op_per_symbol_capacity o') (print_symbol_summary ct books)), rr_mold_stats = stats c1\<rparr>)
      else
        (case new_book (unat (op_capacity o')) of
          Inl err \<Rightarrow> Some (exit_with 1)
        | Inr book \<Rightarrow>
            (case apply_all step source book (unat (op_max_events o')) of
              None \<Rightarrow> None
            | Some (c1, ct, book1) \<Rightarrow> Some \<lparr>rr_exit = (if failed c1 then 1 else 0),
                rr_report = Some (Single (print_summary ct book1)), rr_mold_stats = stats c1\<rparr>)))"

definition replay_main :: "string list \<Rightarrow> (string \<Rightarrow> u8 list option) \<Rightarrow> replay_run option" where
  "replay_main args files =
     (case args of
       [] \<Rightarrow> Some (exit_with 2)
     | path # opts \<Rightarrow>
         (case parse_options opts default_options of
           Inl arg \<Rightarrow> Some (exit_with 2)
         | Inr o' \<Rightarrow>
             if op_mold o' then
               replay_connector mold_next md_failed
                 (\<lambda>c. Some (md_gaps_detected c, md_messages_missed c, md_last_sequence c)) o'
                 (mold_connector (from_datagram_file (files path)) None)
             else
               replay_connector itch_next w_failed (\<lambda>c. None) o' (itch_from_file (files path))))"

section \<open>What the counts are\<close>

definition counts_for :: "market_data_event list \<Rightarrow> order_book \<Rightarrow> counts" where
  "counts_for es bk = (let rs = fst (process_events es bk) in
     \<lparr>ct_decoded = length es, ct_applied = length (filter (\<lambda>r. r = Applied) rs),
      ct_rejected = length (filter (\<lambda>r. r \<noteq> Applied) rs),
      ct_peak_orders = fold max (map (\<lambda>k. active_orders (snd (process_events (take k es) bk))) [1..<Suc (length es)]) 0\<rparr>)"

definition add_counts :: "counts \<Rightarrow> counts \<Rightarrow> counts" where
  "add_counts c d = \<lparr>ct_decoded = ct_decoded c + ct_decoded d, ct_applied = ct_applied c + ct_applied d,
     ct_rejected = ct_rejected c + ct_rejected d, ct_peak_orders = max (ct_peak_orders c) (ct_peak_orders d)\<rparr>"

lemma add_counts_assoc: "add_counts (add_counts c d) e = add_counts c (add_counts d e)"
  by (simp add: add_counts_def max.assoc)

lemma add_no_counts: "add_counts no_counts c = c"
  by (simp add: add_counts_def no_counts_def)

lemma count_one_adds:
  "count_one e (c, bk) = (add_counts c \<lparr>ct_decoded = 1, ct_applied = (if fst (process_event e bk) = Applied then 1 else 0),
     ct_rejected = (if fst (process_event e bk) = Applied then 0 else 1),
     ct_peak_orders = active_orders (snd (process_event e bk))\<rparr>, snd (process_event e bk))"
  by (cases "process_event e bk") (simp add: count_one_def count_result_def add_counts_def max_def Let_def)

lemma fold_max_start: "fold max xs (p :: u64) = max p (fold max xs 0)"
proof (induction xs arbitrary: p)
  case (Cons x xs)
  show ?case using Cons [of "max x p"] Cons [of "max x 0"] by (simp add: max.assoc max.left_commute)
qed simp

lemma counts_for_Cons:
  "counts_for (e # es) bk = add_counts \<lparr>ct_decoded = 1, ct_applied = (if fst (process_event e bk) = Applied then 1 else 0),
     ct_rejected = (if fst (process_event e bk) = Applied then 0 else 1),
     ct_peak_orders = active_orders (snd (process_event e bk))\<rparr> (counts_for es (snd (process_event e bk)))"
proof -
  let ?f = "\<lambda>k. active_orders (snd (process_events (take k (e # es)) bk))"
  have upt: "[1..<Suc (length (e # es))] = 1 # map Suc [1..<Suc (length es)]"
    by (simp add: map_Suc_upt upt_conv_Cons del: upt_Suc)
  have "map ?f [1..<Suc (length (e # es))] = active_orders (snd (process_event e bk))
      # map (\<lambda>k. active_orders (snd (process_events (take k es) (snd (process_event e bk))))) [1..<Suc (length es)]"
    unfolding upt list.map map_map by (simp only: o_def take_Suc_Cons process_events_Cons One_nat_def take_0 process_events.simps(1) snd_conv)
  then show ?thesis
    using fold_max_start [of "map (\<lambda>k. active_orders (snd (process_events (take k es) (snd (process_event e bk))))) [1..<Suc (length es)]"
        "max (active_orders (snd (process_event e bk))) 0"]
    by (simp add: counts_for_def add_counts_def process_events_Cons Let_def del: upt_Suc process_events.simps)
qed

lemma fold_count_one:
  "fold count_one es (c, bk) = (add_counts c (counts_for es bk), snd (process_events es bk))"
proof (induction es arbitrary: c bk)
  case Nil
  then show ?case by (simp add: counts_for_def add_counts_def)
next
  case (Cons e es)
  show ?case
    by (simp add: count_one_adds Cons add_counts_assoc counts_for_Cons process_events_Cons del: process_events.simps)
qed

lemma count_one_decoded: "ct_decoded (fst (count_one e st)) = ct_decoded (fst st) + 1"
  by (cases st) (simp add: count_one_adds add_counts_def)

lemma apply_counted_run:
  "run_until (apply_counted mx) es (no_counts, bk) = (counts_for (limited mx es) bk, snd (process_events (limited mx es) bk))
   \<and> (mx = 0 \<longrightarrow> runs_out (apply_counted mx) es (no_counts, bk))"
proof -
  have "run_until (apply_counted mx) es (no_counts, bk) = fold count_one (limited (mx - ct_decoded (fst (no_counts, bk))) es) (no_counts, bk)
    \<and> (mx = 0 \<longrightarrow> runs_out (apply_counted mx) es (no_counts, bk))"
    by (rule run_until_limited [where n = "\<lambda>st. ct_decoded (fst st)"])
      (auto simp: count_one_decoded apply_counted_def Let_def no_counts_def)
  moreover have "ct_decoded (fst (no_counts, bk)) = 0" by (simp add: no_counts_def)
  ultimately show ?thesis by (simp add: fold_count_one add_no_counts)
qed

section \<open>The symbols\<close>

text \<open>What the loop over all symbols adds up: the results, whichever book they come from.\<close>

definition symbol_counts :: "process_result list \<Rightarrow> counts" where
  "symbol_counts rs = \<lparr>ct_decoded = length rs, ct_applied = length (filter (\<lambda>r. r = Applied) rs),
     ct_rejected = length (filter (\<lambda>r. r \<noteq> Applied) rs), ct_peak_orders = 0\<rparr>"

lemma count_result_adds: "count_result r c = add_counts c (symbol_counts [r])"
  by (simp add: count_result_def add_counts_def symbol_counts_def Let_def max_def)

lemma symbol_counts_Cons: "symbol_counts (r # rs) = add_counts (symbol_counts [r]) (symbol_counts rs)"
  by (simp add: symbol_counts_def add_counts_def)

lemma apply_symbols_run:
  assumes "multi_ok mb" and "valid_capacity (mb_capacity mb)" and "mx = 0 \<or> ct_decoded c < mx"
  shows "\<exists>rs mb1. multi_events (limited (mx - ct_decoded c) es) mb = Inr (rs, mb1)
    \<and> run_until (apply_counted_symbols mx) es (Inr (c, mb)) = Inr (add_counts c (symbol_counts rs), mb1)
    \<and> (mx = 0 \<longrightarrow> runs_out (apply_counted_symbols mx) es (Inr (c, mb)))"
  using assms
proof (induction es arbitrary: c mb)
  case Nil
  then show ?case by (simp add: limited_def add_counts_def symbol_counts_def)
next
  case (Cons e es)
  obtain r mb1 where st: "multi_event e mb = Inr (r, mb1)" "multi_ok mb1" "mb_capacity mb1 = mb_capacity mb"
  proof (cases "unat (ev_symbol e) < mb_max_symbols mb")
    case True
    show thesis using multi_event_in_range [OF Cons.prems(1,2) True] that by blast
  next
    case False
    then show thesis using that multi_event_out_of_range [of mb e] Cons.prems by simp
  qed
  have d: "ct_decoded (count_result r c) = ct_decoded c + 1" by (simp add: count_result_def Let_def)
  have h: "apply_counted_symbols mx e (Inr (c, mb)) = (mx \<noteq> 0 \<and> mx \<le> ct_decoded c + 1, Inr (count_result r c, mb1))"
    by (simp add: apply_counted_symbols_def st(1) Let_def d)
  show ?case
  proof (cases "mx \<noteq> 0 \<and> ct_decoded c + 1 \<ge> mx")
    case True
    then have "mx - ct_decoded c = Suc 0" using Cons.prems(3) by simp
    then show ?thesis
      using True by (simp add: limited_def h st(1)) (simp add: count_result_adds)
  next
    case False
    obtain rs mb2 where IH: "multi_events (limited (mx - ct_decoded (count_result r c)) es) mb1 = Inr (rs, mb2)"
      "run_until (apply_counted_symbols mx) es (Inr (count_result r c, mb1)) = Inr (add_counts (count_result r c) (symbol_counts rs), mb2)"
      "mx = 0 \<longrightarrow> runs_out (apply_counted_symbols mx) es (Inr (count_result r c, mb1))"
      using Cons.IH [OF st(2), of "count_result r c"] Cons.prems(2) st(3) False d by auto
    have "limited (mx - ct_decoded c) (e # es) = e # limited (mx - ct_decoded (count_result r c)) es"
    proof (cases "mx = 0")
      case nz: False
      then have "mx - ct_decoded c = Suc (mx - ct_decoded (count_result r c))" "mx - ct_decoded (count_result r c) \<noteq> 0"
        using False d by auto
      then show ?thesis by (simp add: limited_def)
    qed (simp add: limited_def)
    moreover have "add_counts (count_result r c) (symbol_counts rs) = add_counts c (symbol_counts (r # rs))"
      unfolding count_result_adds symbol_counts_Cons [of r rs] add_counts_assoc ..
    ultimately show ?thesis using IH st(1) False h by (cases "mx = 0") auto
  qed
qed

text \<open>The most active symbol has the most resting orders, and is the first seen of those that do.\<close>

lemma most_active_spec:
  fixes books :: multi_book
  defines "orders_of \<equiv> \<lambda>s. active_orders (the (symbol_book s books))"
  shows "(\<forall>s \<in> set (mb_seen books). orders_of s \<le> snd (most_active books))
    \<and> (snd (most_active books) \<noteq> 0 \<longrightarrow> fst (most_active books) \<in> set (mb_seen books)
        \<and> orders_of (fst (most_active books)) = snd (most_active books))"
proof -
  let ?f = "\<lambda>symbol (best_symbol, best_orders). let n = orders_of symbol in if n > best_orders then (symbol, n) else (best_symbol, best_orders)"
  have "(\<forall>s \<in> set xs. orders_of s \<le> snd (fold ?f xs b)) \<and> snd b \<le> snd (fold ?f xs b)
     \<and> (fold ?f xs b = b \<or> fst (fold ?f xs b) \<in> set xs \<and> orders_of (fst (fold ?f xs b)) = snd (fold ?f xs b))" for xs b
  proof (induction xs arbitrary: b)
    case (Cons x xs)
    show ?case using Cons [of "?f x b"] by (cases b) (auto simp: Let_def split: if_splits)
  qed simp
  from this [of "mb_seen books" "(0, 0)"] show ?thesis
    unfolding most_active_def orders_of_def by (auto simp: fst_conv)
qed

section \<open>Properties\<close>

text \<open>The events a capture replays to, and whether the stream broke, by the kind of its file.\<close>

definition capture_events :: "bool \<Rightarrow> u8 list option \<Rightarrow> market_data_event list" where
  "capture_events is_mold file =
     (if is_mold then fst (view (items_of None None (fst (rest_datagrams (from_datagram_file file)))
        (snd (rest_datagrams (from_datagram_file file)))) no_totals)
      else case file of None \<Rightarrow> [] | Some bytes \<Rightarrow> item_events 0 bytes)"

definition capture_broken :: "bool \<Rightarrow> u8 list option \<Rightarrow> bool" where
  "capture_broken is_mold file =
     (if is_mold then mt_failed (snd (view (items_of None None (fst (rest_datagrams (from_datagram_file file)))
        (snd (rest_datagrams (from_datagram_file file)))) no_totals))
      else case file of None \<Rightarrow> True | Some bytes \<Rightarrow> stream_broken bytes)"

lemma capture_itch:
  "itch_ok (itch_from_file bytes) \<and> itch_feed (itch_from_file bytes) = capture_events False bytes
     \<and> itch_bad (itch_from_file bytes) = capture_broken False bytes"
proof (cases bytes)
  case None
  then show ?thesis using itch_sources(3) by (simp add: capture_events_def capture_broken_def)
next
  case (Some d)
  then show ?thesis using itch_sources(2) [of d] by (simp add: capture_events_def capture_broken_def)
qed

text \<open>Whatever a loop does with the events, it does it to the events of the capture.\<close>

lemma drive_itch:
  assumes "whole \<longrightarrow> runs_out h (capture_events False bytes) s"
  shows "\<exists>c1. drive itch_next h (itch_from_file bytes) s = Some (c1, run_until h (capture_events False bytes) s)
    \<and> (whole \<longrightarrow> w_failed c1 = capture_broken False bytes)"
  using itch.drive_verdict [OF conjunct1 [OF capture_itch], of whole h bytes s] assms by (simp add: capture_itch)

lemma drive_mold:
  assumes "whole \<longrightarrow> runs_out h (capture_events True bytes) s"
  shows "\<exists>c1. drive mold_next h (mold_connector (from_datagram_file bytes) None) s = Some (c1, run_until h (capture_events True bytes) s)
    \<and> (whole \<longrightarrow> md_failed c1 = capture_broken True bytes)"
proof -
  let ?c = "mold_connector (from_datagram_file bytes) None"
  have v: "fst (state_view ?c) = capture_events True bytes" "mt_failed (snd (state_view ?c)) = capture_broken True bytes"
    by (simp_all add: mold_start(2) capture_events_def capture_broken_def)
  obtain c1 where "drive mold_next h ?c s = Some (c1, run_until h (capture_events True bytes) s)"
    "whole \<longrightarrow> totals c1 = snd (state_view ?c)"
    using mold.drive_verdict [OF mold_start(1), of whole h "from_datagram_file bytes" None s] assms unfolding v(1) by blast
  moreover have "md_failed c1 = mt_failed (totals c1)" for c1 by (simp add: totals_def)
  ultimately show ?thesis using v(2) by auto
qed

lemma replay_single:
  assumes "new_book (unat (op_capacity o')) = Inr bk" and "\<not> op_per_symbol o'"
    and "drive step (apply_counted (unat (op_max_events o'))) c (no_counts, bk) = Some (c1, ct, bk1)"
  shows "replay_connector step failed stats o' c = Some \<lparr>rr_exit = (if failed c1 then 1 else 0),
    rr_report = Some (Single (print_summary ct bk1)), rr_mold_stats = stats c1\<rparr>"
  using assms by (simp add: replay_connector_def apply_all_def)

definition expected_report :: "options \<Rightarrow> u8 list option \<Rightarrow> report" where
  "expected_report o' bytes =
     (let es = limited (unat (op_max_events o')) (capture_events (op_mold o') bytes);
          bk = projr (new_book (unat (op_capacity o')))
      in Single (print_summary (counts_for es bk) (snd (process_events es bk))))"

lemma no_limit: "op_max_events o' = 0 \<longleftrightarrow> unat (op_max_events o') = 0"
  by (simp add: unat_eq_zero)

text \<open>
  C33. From the bytes of a capture to the report: in single-book mode the program always ends, and the
  counts it prints are those of the capture's events, up to the limit, applied in order to an empty book
  (decoded, applied, rejected, and the largest number of resting orders after any of them), the
  active orders, best prices and checksum those of the resulting book; without a limit the exit code is 1
  exactly when the stream broke. A capacity out of range is reported by exit code 1.
\<close>

theorem itch_replay_end_to_end:
  assumes "parse_options opts default_options = Inr o'" and "\<not> op_per_symbol o'"
  shows "\<exists>run. replay_main (path # opts) files = Some run
    \<and> (if valid_capacity (unat (op_capacity o'))
        then rr_report run = Some (expected_report o' (files path))
          \<and> (op_max_events o' = 0 \<longrightarrow> rr_exit run = (if capture_broken (op_mold o') (files path) then 1 else 0))
        else run = exit_with 1)"
proof (cases "valid_capacity (unat (op_capacity o'))")
  case False
  then have "new_book (unat (op_capacity o')) = Inl InvalidArgument" by (auto simp: new_book_def valid_capacity_def)
  then show ?thesis using False assms by (simp add: replay_main_def replay_connector_def)
next
  case True
  let ?mx = "unat (op_max_events o')"
  let ?bk = "projr (new_book (unat (op_capacity o')))"
  note nb = valid_new_book [OF True]
  have counted: "run_until (apply_counted ?mx) es (no_counts, ?bk) = (counts_for (limited ?mx es) ?bk, snd (process_events (limited ?mx es) ?bk))"
    and whole: "op_max_events o' = 0 \<longrightarrow> runs_out (apply_counted ?mx) es (no_counts, ?bk)" for es
    using apply_counted_run [of ?mx es ?bk] unfolding no_limit by blast+
  show ?thesis
  proof (cases "op_mold o'")
    case False
    obtain c1 where dr: "drive itch_next (apply_counted ?mx) (itch_from_file (files path)) (no_counts, ?bk)
        = Some (c1, run_until (apply_counted ?mx) (capture_events False (files path)) (no_counts, ?bk))"
      and out: "op_max_events o' = 0 \<longrightarrow> w_failed c1 = capture_broken False (files path)"
      using drive_itch [OF whole, of "files path"] by blast
    note run = replay_single [OF nb assms(2) dr [unfolded counted]]
    show ?thesis using run True False assms(1) out
      by (simp add: replay_main_def expected_report_def Let_def)
  next
    case mold: True
    obtain c1 where dr: "drive mold_next (apply_counted ?mx) (mold_connector (from_datagram_file (files path)) None) (no_counts, ?bk)
        = Some (c1, run_until (apply_counted ?mx) (capture_events True (files path)) (no_counts, ?bk))"
      and out: "op_max_events o' = 0 \<longrightarrow> md_failed c1 = capture_broken True (files path)"
      using drive_mold [OF whole, of "files path"] by blast
    note run = replay_single [OF nb assms(2) dr [unfolded counted]]
    show ?thesis using run True mold assms(1) out
      by (simp add: replay_main_def expected_report_def Let_def)
  qed
qed

text \<open>A capture of encoded messages carries their events and is not broken.\<close>

definition encode_capture :: "itch_message list \<Rightarrow> u8 list" where
  "encode_capture ms = concat (map (\<lambda>m. frame_bytes (encode_message m)) ms)"

lemma encoded_framed: "well_framed (map encode_message ms)"
proof -
  have "framable (encode_message m) \<and> decode_message (encode_message m) \<noteq> Malformed" for m
    using decode_encoded [of m "[]"]
    by (cases "body_type (snd m)") (simp_all add: framable_def length_encode_message)
  then show ?thesis by (simp add: well_framed_def)
qed

lemma encoded_capture:
  "capture_events False (Some (encode_capture ms)) = numbered 0 (map event_of ms)"
  "\<not> capture_broken False (Some (encode_capture ms))"
proof -
  have "List.map_filter event_in (map encode_message ms) = map event_of ms"
    using decode_encoded [of _ "[]"] by (induction ms) (simp_all add: List.map_filter_simps event_in_def)
  moreover have "concat (map frame_bytes (map encode_message ms)) = encode_capture ms"
    by (simp add: encode_capture_def o_def)
  ultimately show "capture_events False (Some (encode_capture ms)) = numbered 0 (map event_of ms)"
    "\<not> capture_broken False (Some (encode_capture ms))"
    using item_events_frames [OF encoded_framed, of "[]" 0 ms]
    by (simp_all add: capture_events_def capture_broken_def)
qed

text \<open>An order, a partial cancel of it, and a delete of an order that is not there.\<close>

definition sample_capture :: "u8 list" where
  "sample_capture = encode_capture [(sample_header, MAdd Buy 300 0 10000), (sample_header, MCancel 100),
     (sample_header\<lparr>hd_order := 8\<rparr>, MDelete)]"

lemma sample_capture_whole: "\<not> capture_broken False (Some sample_capture)"
  unfolding sample_capture_def by (rule encoded_capture(2))

definition sample_stream :: "market_data_event list" where
  "sample_stream =
     [\<lparr>ev_sequence = 1, ev_timestamp_ns = 5, ev_symbol = 7, ev_type = Add, ev_order_id = 9, ev_new_order_id = 0,
        ev_side = Buy, ev_price = 10000, ev_quantity = 300\<rparr>,
      \<lparr>ev_sequence = 2, ev_timestamp_ns = 5, ev_symbol = 7, ev_type = Reduce, ev_order_id = 9, ev_new_order_id = 0,
        ev_side = Buy, ev_price = 0, ev_quantity = 100\<rparr>,
      \<lparr>ev_sequence = 3, ev_timestamp_ns = 5, ev_symbol = 7, ev_type = Cancel, ev_order_id = 8, ev_new_order_id = 0,
        ev_side = Buy, ev_price = 0, ev_quantity = 0\<rparr>]"

lemma sample_capture_events: "capture_events False (Some sample_capture) = sample_stream"
  unfolding sample_capture_def encoded_capture(1)
  by (simp add: sample_stream_def event_of_def base_event_def sample_header_def default_event_def)

lemmas sample_eval = sample_stream_def spec_event_def spec_rest_def spec_trade_def spec_cancel_def spec_empty_def set_queue_def

text \<open>The book along it: one bid, of 300, then of 200.\<close>

lemma sample_book:
  assumes "valid_capacity n" and "2 \<le> n" and "k \<in> {1, 2, 3}"
  defines "bk \<equiv> snd (process_events (take k sample_stream) (projr (new_book n)))"
  shows "best_bid bk = Some \<lparr>lv_side = Buy, lv_price = 10000, lv_total_quantity = (if k = 1 then 300 else 200), lv_order_count = 1\<rparr>"
    and "best_ask bk = None"
proof -
  have n: "0 < n" "n \<le> npos" using assms(1) by (simp_all add: valid_capacity_def)
  have len: "length (take k sample_stream) < n * 2" using assms(2) by (simp add: sample_stream_def)
  note run = fresh_run [OF n len, folded bk_def]
  have n1: "n \<noteq> 0" "n \<noteq> Suc 0" using assms(2) by simp_all
  have q: "queue_ids bk = sb_queue (snd (spec_events n (take k sample_stream) spec_empty))" "find_order 9 bk = sb_orders (snd (spec_events n (take k sample_stream) spec_empty)) 9"
    unfolding run(2) [symmetric] by simp_all
  have bid: "queue_ids bk Buy p = (if p = 10000 then [9] else [])" and ask: "queue_ids bk Sell p = []" for p
    using assms(3) n1 unfolding q(1) by (auto simp: sample_eval)
  have "find_order 9 bk = Some \<lparr>ov_id = 9, ov_side = Buy, ov_price = 10000, ov_quantity = (if k = 1 then 300 else 200), ov_priority = 0\<rparr>"
    using assms(3) n1 unfolding q(2) by (auto simp: sample_eval)
  from touch_single [OF run(1) touch_of(1) [OF run(1)] bid this]
  show "best_bid bk = Some \<lparr>lv_side = Buy, lv_price = 10000, lv_total_quantity = (if k = 1 then 300 else 200), lv_order_count = 1\<rparr>"
    by simp
  show "best_ask bk = None" by (rule touch_none [OF touch_of(2) [OF run(1)] ask])
qed

lemma sample_results:
  assumes "valid_capacity n" and "2 \<le> n"
  shows "fst (process_events sample_stream (projr (new_book n))) = [Applied, Applied, OrderNotFound]"
proof -
  note init = new_book_ok [OF valid_new_book [OF assms(1)]]
  have "length (filter may_open_level sample_stream) \<le> level_empties (level_lookup (projr (new_book n)))"
    unfolding init(4) using next_power_of_two_ge [of "n * 2"] assms(2) by (simp add: sample_stream_def may_open_level_def)
  from process_events_refines(1) [OF init(1) this]
  have "fst (process_events sample_stream (projr (new_book n))) = fst (spec_events n sample_stream spec_empty)"
    by (simp only: init(2,3))
  moreover have "n \<noteq> 0" using assms(2) by simp
  ultimately show ?thesis by (simp only:) (simp add: sample_eval)
qed

lemma itch_replay_end_to_end_witness:
  "\<exists>run s. replay_main [''day.itch''] (\<lambda>_. Some sample_capture) = Some run \<and> rr_exit run = 0
    \<and> rr_report run = Some (Single s) \<and> ct_decoded (sm_counts s) = 3 \<and> ct_applied (sm_counts s) = 2 \<and> ct_rejected (sm_counts s) = 1
    \<and> sm_best_bid s = Some \<lparr>lv_side = Buy, lv_price = 10000, lv_total_quantity = 200, lv_order_count = 1\<rparr> \<and> sm_best_ask s = None"
proof -
  let ?n = "unat (op_capacity default_options)"
  have n: "valid_capacity ?n" "2 \<le> ?n" by (simp_all add: default_options_def valid_capacity_def npos_def)
  have o': "\<not> op_per_symbol default_options" "op_max_events default_options = 0" "\<not> op_mold default_options"
    by (simp_all add: default_options_def)
  obtain run where run: "replay_main [''day.itch''] (\<lambda>_. Some sample_capture) = Some run"
    "rr_report run = Some (expected_report default_options (Some sample_capture))" "rr_exit run = 0"
    using itch_replay_end_to_end [of "[]" default_options "''day.itch''" "\<lambda>_. Some sample_capture"] sample_capture_whole n(1) o'
    by auto
  have "take 3 sample_stream = sample_stream" "length sample_stream = 3" by (simp_all add: sample_stream_def)
  then show ?thesis
    using run sample_results [OF n] sample_book [OF n, of 3] o'
    by (simp add: expected_report_def Let_def limited_def sample_capture_events print_summary_def counts_for_def)
qed

text \<open>
  In per-symbol mode the program always ends, and its report is the one of the books that the
  capture's events, up to the limit, leave when each is routed to its symbol's book: the counts add up
  the results, and the most active symbol is one whose book holds the most resting orders; without a
  limit the exit code is 1 exactly when the stream broke.
\<close>

theorem itch_replay_per_symbol:
  assumes "parse_options opts default_options = Inr o'" and "op_per_symbol o'"
    and "valid_capacity (unat (op_per_symbol_capacity o'))"
  shows "\<exists>run rs books ss. replay_main (path # opts) files = Some run
    \<and> multi_events (limited (unat (op_max_events o')) (capture_events (op_mold o') (files path)))
        (new_multi (unat (op_per_symbol_capacity o')) (2 ^ 16)) = Inr (rs, books)
    \<and> rr_report run = Some (Per_symbol (op_per_symbol_capacity o') ss)
    \<and> ss = print_symbol_summary (symbol_counts rs) books
    \<and> (\<forall>s \<in> set (mb_seen books). active_orders (the (symbol_book s books)) \<le> ss_orders ss)
    \<and> (ss_orders ss \<noteq> 0 \<longrightarrow> active_orders (the (symbol_book (ss_most_active ss) books)) = ss_orders ss)
    \<and> (op_max_events o' = 0 \<longrightarrow> rr_exit run = (if capture_broken (op_mold o') (files path) then 1 else 0))"
proof -
  let ?mx = "unat (op_max_events o')"
  let ?mb = "new_multi (unat (op_per_symbol_capacity o')) (2 ^ 16)"
  let ?h = "apply_counted_symbols ?mx"
  let ?es = "capture_events (op_mold o') (files path)"
  have z: "ct_decoded no_counts = 0" by (simp add: no_counts_def)
  have start: "?mx = 0 \<or> ct_decoded no_counts < ?mx" unfolding z by linarith
  have cap: "valid_capacity (mb_capacity ?mb)" using assms(3) by (simp add: new_multi_def)
  obtain rs books where r: "multi_events (limited ?mx ?es) ?mb = Inr (rs, books)"
    "run_until ?h ?es (Inr (no_counts, ?mb)) = Inr (symbol_counts rs, books)"
    and out: "?mx = 0 \<longrightarrow> runs_out ?h ?es (Inr (no_counts, ?mb))"
    using apply_symbols_run [OF new_multi_ok cap start, of ?es] unfolding z diff_zero add_no_counts
    by (elim exE conjE) (rule that)
  have whole: "op_max_events o' = 0 \<longrightarrow> runs_out ?h ?es (Inr (no_counts, ?mb))" using out unfolding no_limit .
  let ?ss = "print_symbol_summary (symbol_counts rs) books"
  have ss: "ss_orders ?ss = snd (most_active books)" "ss_most_active ?ss = fst (most_active books)"
    by (simp_all add: print_symbol_summary_def split: prod.split)
  have "\<exists>run. replay_main (path # opts) files = Some run \<and> rr_report run = Some (Per_symbol (op_per_symbol_capacity o') ?ss)
    \<and> (op_max_events o' = 0 \<longrightarrow> rr_exit run = (if capture_broken (op_mold o') (files path) then 1 else 0))"
  proof (cases "op_mold o'")
    case False
    obtain c1 where "drive itch_next ?h (itch_from_file (files path)) (Inr (no_counts, ?mb)) = Some (c1, Inr (symbol_counts rs, books))"
      "op_max_events o' = 0 \<longrightarrow> w_failed c1 = capture_broken False (files path)"
      using drive_itch [of "op_max_events o' = 0" ?h "files path" "Inr (no_counts, ?mb)"] whole r(2) False by auto
    then show ?thesis using False assms by (simp add: replay_main_def replay_connector_def apply_all_symbols_def)
  next
    case True
    obtain c1 where "drive mold_next ?h (mold_connector (from_datagram_file (files path)) None) (Inr (no_counts, ?mb))
        = Some (c1, Inr (symbol_counts rs, books))"
      "op_max_events o' = 0 \<longrightarrow> md_failed c1 = capture_broken True (files path)"
      using drive_mold [of "op_max_events o' = 0" ?h "files path" "Inr (no_counts, ?mb)"] whole r(2) True by auto
    then show ?thesis using True assms by (simp add: replay_main_def replay_connector_def apply_all_symbols_def)
  qed
  then show ?thesis using r(1) most_active_spec [of books] ss by metis
qed

lemma itch_replay_per_symbol_witness:
  "\<exists>run. replay_main [''day.itch'', ''--per-symbol''] (\<lambda>_. Some sample_capture) = Some run \<and> rr_exit run = 0"
  using itch_replay_per_symbol [of "[''--per-symbol'']" "default_options\<lparr>op_per_symbol := True\<rparr>" "''day.itch''" "\<lambda>_. Some sample_capture"]
    sample_capture_whole
  by (auto simp: default_options_def valid_capacity_def npos_def)

end
