(* ===== verification/Features.thy ===== *)
theory Features
  imports Replay
begin

text \<open>
  The top-of-book rows of \<^verbatim>\<open>Features.hpp\<close> and the tool \<^verbatim>\<open>itch_features\<close> that writes one row for each
  change of the top of one symbol's book. The output stream is the text written to it.
\<close>

section \<open>Rows\<close>

record l1_row =
  l1_sequence :: u64
  l1_timestamp_ns :: u64
  l1_bid_px :: price
  l1_bid_sz :: quantity
  l1_ask_px :: price
  l1_ask_sz :: quantity
  l1_two_sided :: bool

definition default_row :: l1_row where
  "default_row = \<lparr>l1_sequence = 0, l1_timestamp_ns = 0, l1_bid_px = 0, l1_bid_sz = 0, l1_ask_px = 0, l1_ask_sz = 0,
     l1_two_sided = False\<rparr>"

definition make_l1_row :: "u64 \<Rightarrow> u64 \<Rightarrow> order_book \<Rightarrow> l1_row" where
  "make_l1_row sequence timestamp_ns book =
     (let bid = best_bid book; ask = best_ask book;
          row = \<lparr>l1_sequence = sequence, l1_timestamp_ns = timestamp_ns, l1_bid_px = 0, l1_bid_sz = 0,
            l1_ask_px = 0, l1_ask_sz = 0, l1_two_sided = (bid \<noteq> None \<and> ask \<noteq> None)\<rparr>;
          row1 = (case bid of None \<Rightarrow> row
            | Some l \<Rightarrow> row\<lparr>l1_bid_px := lv_price l, l1_bid_sz := lv_total_quantity l\<rparr>)
      in (case ask of None \<Rightarrow> row1
            | Some l \<Rightarrow> row1\<lparr>l1_ask_px := lv_price l, l1_ask_sz := lv_total_quantity l\<rparr>))"

definition l1_changed :: "l1_row \<Rightarrow> l1_row \<Rightarrow> bool" where
  "l1_changed a b \<longleftrightarrow> l1_bid_px a \<noteq> l1_bid_px b \<or> l1_bid_sz a \<noteq> l1_bid_sz b
     \<or> l1_ask_px a \<noteq> l1_ask_px b \<or> l1_ask_sz a \<noteq> l1_ask_sz b"

definition newline_char :: string where
  "newline_char = [CHR 0x0A]"

definition l1_header :: string where
  "l1_header = ''sequence,timestamp_ns,bid_px,bid_sz,ask_px,ask_sz,two_sided'' @ newline_char"

definition write_l1_row :: "l1_row \<Rightarrow> string" where
  "write_l1_row r = show_u64 (l1_sequence r) @ '','' @ show_u64 (l1_timestamp_ns r) @ '','' @ show_i64 (l1_bid_px r)
     @ '','' @ show_u64 (l1_bid_sz r) @ '','' @ show_i64 (l1_ask_px r) @ '','' @ show_u64 (l1_ask_sz r)
     @ '','' @ (if l1_two_sided r then ''1'' else ''0'') @ newline_char"

section \<open>The tool\<close>

record features_options =
  fo_mold :: bool
  fo_locate :: "symbol_id option"
  fo_out :: string
  fo_capacity :: u64
  fo_max_events :: u64

definition default_features :: features_options where
  "default_features = \<lparr>fo_mold = False, fo_locate = None, fo_out = [], fo_capacity = 262144, fo_max_events = 0\<rparr>"

fun parse_features :: "string list \<Rightarrow> features_options \<Rightarrow> string + features_options" where
  "parse_features [] o' = Inr o'"
| "parse_features (arg # rest) o' =
     (if arg = ''--mold'' then parse_features rest (o'\<lparr>fo_mold := True\<rparr>)
      else if arg = ''--locate'' \<and> rest \<noteq> [] then
        parse_features (tl rest) (o'\<lparr>fo_locate := Some (ucast (parse_size (hd rest) 0))\<rparr>)
      else if arg = ''--out'' \<and> rest \<noteq> [] then parse_features (tl rest) (o'\<lparr>fo_out := hd rest\<rparr>)
      else if arg = ''--capacity'' \<and> rest \<noteq> [] then
        parse_features (tl rest) (o'\<lparr>fo_capacity := parse_size (hd rest) (fo_capacity o')\<rparr>)
      else if arg = ''--max'' \<and> rest \<noteq> [] then
        parse_features (tl rest) (o'\<lparr>fo_max_events := parse_size (hd rest) 0\<rparr>)
      else Inl arg)"

record features_state =
  ft_book :: order_book
  ft_previous :: l1_row
  ft_have_previous :: bool
  ft_decoded :: nat
  ft_rows :: nat
  ft_out :: string

definition features_start :: "order_book \<Rightarrow> features_state" where
  "features_start bk = \<lparr>ft_book = bk, ft_previous = default_row, ft_have_previous = False, ft_decoded = 0, ft_rows = 0,
     ft_out = l1_header\<rparr>"

text \<open>The body of the loop for an event of the symbol; events of other symbols are passed over.\<close>

definition sample_event :: "market_data_event \<Rightarrow> features_state \<Rightarrow> features_state" where
  "sample_event e st =
     (let st1 = st\<lparr>ft_decoded := ft_decoded st + 1, ft_book := snd (process_event e (ft_book st))\<rparr>;
          row = make_l1_row (ev_sequence e) (ev_timestamp_ns e) (ft_book st1)
      in if \<not> ft_have_previous st1 \<or> l1_changed (ft_previous st1) row
         then st1\<lparr>ft_out := ft_out st1 @ write_l1_row row, ft_previous := row, ft_have_previous := True,
           ft_rows := ft_rows st1 + 1\<rparr>
         else st1)"

definition features_event :: "symbol_id \<Rightarrow> nat \<Rightarrow> market_data_event \<Rightarrow> features_state \<Rightarrow> bool \<times> features_state" where
  "features_event locate max_events e st =
     (if ev_symbol e \<noteq> locate then (False, st)
      else let st1 = sample_event e st in (max_events \<noteq> 0 \<and> ft_decoded st1 \<ge> max_events, st1))"

text \<open>What the program leaves: the exit code, the text written, and the counts it reports.\<close>

record features_run =
  fr_exit :: nat
  fr_out :: string
  fr_counts :: "(nat \<times> nat) option"

definition features_connector ::
  "('c \<Rightarrow> market_data_event option \<times> 'c) \<Rightarrow> symbol_id \<Rightarrow> features_options \<Rightarrow> 'c \<Rightarrow> features_run option" where
  "features_connector step locate o' source =
     (case new_book (unat (fo_capacity o')) of
       Inl err \<Rightarrow> Some \<lparr>fr_exit = 1, fr_out = [], fr_counts = None\<rparr>
     | Inr book \<Rightarrow>
         (case drive step (features_event locate (unat (fo_max_events o'))) source (features_start book) of
           None \<Rightarrow> None
         | Some (_, st) \<Rightarrow> Some \<lparr>fr_exit = 0, fr_out = ft_out st, fr_counts = Some (ft_decoded st, ft_rows st)\<rparr>))"

text \<open>\<^verbatim>\<open>writable\<close> says of an output path whether it can be opened.\<close>

definition features_main :: "string list \<Rightarrow> (string \<Rightarrow> u8 list option) \<Rightarrow> (string \<Rightarrow> bool) \<Rightarrow> features_run option" where
  "features_main args files writable =
     (case args of
       [] \<Rightarrow> Some \<lparr>fr_exit = 2, fr_out = [], fr_counts = None\<rparr>
     | path # opts \<Rightarrow>
         (case parse_features opts default_features of
           Inl arg \<Rightarrow> Some \<lparr>fr_exit = 2, fr_out = [], fr_counts = None\<rparr>
         | Inr o' \<Rightarrow>
             (case fo_locate o' of
               None \<Rightarrow> Some \<lparr>fr_exit = 2, fr_out = [], fr_counts = None\<rparr>
             | Some locate \<Rightarrow>
                 if fo_out o' \<noteq> [] \<and> \<not> writable (fo_out o') then Some \<lparr>fr_exit = 1, fr_out = [], fr_counts = None\<rparr>
                 else if fo_mold o' then
                   features_connector mold_next locate o' (mold_connector (from_datagram_file (files path)) None)
                 else features_connector itch_next locate o' (itch_from_file (files path)))))"

section \<open>Sampling the top of the book\<close>

text \<open>The row after each event, in order, and the rows at which the top differs from the row before.\<close>

fun rows_after :: "market_data_event list \<Rightarrow> order_book \<Rightarrow> l1_row list" where
  "rows_after [] bk = []"
| "rows_after (e # es) bk =
     (let bk1 = snd (process_event e bk) in make_l1_row (ev_sequence e) (ev_timestamp_ns e) bk1 # rows_after es bk1)"

fun changes_from :: "l1_row \<Rightarrow> l1_row list \<Rightarrow> l1_row list" where
  "changes_from p [] = []"
| "changes_from p (r # rs) = (if l1_changed p r then r # changes_from r rs else changes_from r rs)"

definition changes :: "l1_row list \<Rightarrow> l1_row list" where
  "changes rs = (case rs of [] \<Rightarrow> [] | r # rs' \<Rightarrow> r # changes_from r rs')"

lemma l1_same_top:
  "\<not> l1_changed a b \<Longrightarrow> l1_changed a c \<longleftrightarrow> l1_changed b c"
  by (auto simp: l1_changed_def)

lemma changes_from_same_top: "\<not> l1_changed a b \<Longrightarrow> changes_from a rs = changes_from b rs"
  by (cases rs) (simp_all add: l1_same_top)

lemma sample_known:
  assumes "ft_have_previous st"
  shows "fold sample_event es st = st\<lparr>ft_book := snd (process_events es (ft_book st)), ft_decoded := ft_decoded st + length es,
      ft_previous := last (ft_previous st # changes_from (ft_previous st) (rows_after es (ft_book st))),
      ft_rows := ft_rows st + length (changes_from (ft_previous st) (rows_after es (ft_book st))),
      ft_out := ft_out st @ concat (map write_l1_row (changes_from (ft_previous st) (rows_after es (ft_book st))))\<rparr>"
  using assms
proof (induction es arbitrary: st)
  case Nil
  then show ?case by simp
next
  case (Cons e es)
  define bk where "bk = snd (process_event e (ft_book st))"
  define row where "row = make_l1_row (ev_sequence e) (ev_timestamp_ns e) bk"
  define st1 where "st1 = sample_event e st"
  have st1: "st1 = (if l1_changed (ft_previous st) row
      then st\<lparr>ft_decoded := ft_decoded st + 1, ft_book := bk, ft_out := ft_out st @ write_l1_row row, ft_previous := row,
        ft_rows := ft_rows st + 1\<rparr>
      else st\<lparr>ft_decoded := ft_decoded st + 1, ft_book := bk\<rparr>)"
    using Cons.prems by (simp add: st1_def sample_event_def bk_def row_def Let_def)
  have rows: "rows_after (e # es) (ft_book st) = row # rows_after es bk" by (simp add: bk_def row_def Let_def)
  have book: "snd (process_events (e # es) (ft_book st)) = snd (process_events es bk)"
    by (simp add: bk_def process_events_Cons del: process_events.simps)
  have "ft_have_previous st1" using Cons.prems by (simp add: st1)
  from Cons.IH [OF this] have IH: "fold sample_event (e # es) st = st1\<lparr>ft_book := snd (process_events es (ft_book st1)), ft_decoded := ft_decoded st1 + length es,
      ft_previous := last (ft_previous st1 # changes_from (ft_previous st1) (rows_after es (ft_book st1))),
      ft_rows := ft_rows st1 + length (changes_from (ft_previous st1) (rows_after es (ft_book st1))),
      ft_out := ft_out st1 @ concat (map write_l1_row (changes_from (ft_previous st1) (rows_after es (ft_book st1))))\<rparr>"
    by (simp add: st1_def)
  show ?case
  proof (cases "l1_changed (ft_previous st) row")
    case True
    then show ?thesis unfolding IH rows book by (simp add: st1)
  next
    case False
    then show ?thesis unfolding IH rows book by (simp add: st1 changes_from_same_top [OF False])
  qed
qed

lemma sample_fresh:
  "ft_decoded (fold sample_event es (features_start bk)) = length es
   \<and> ft_rows (fold sample_event es (features_start bk)) = length (changes (rows_after es bk))
   \<and> ft_out (fold sample_event es (features_start bk)) = l1_header @ concat (map write_l1_row (changes (rows_after es bk)))"
proof (cases es)
  case Nil
  then show ?thesis by (simp add: features_start_def changes_def)
next
  case (Cons e es')
  let ?st = "sample_event e (features_start bk)"
  have st: "ft_have_previous ?st" "ft_decoded ?st = 1" "ft_rows ?st = 1"
    "ft_book ?st = snd (process_event e bk)"
    "ft_previous ?st = make_l1_row (ev_sequence e) (ev_timestamp_ns e) (snd (process_event e bk))"
    "ft_out ?st = l1_header @ write_l1_row (make_l1_row (ev_sequence e) (ev_timestamp_ns e) (snd (process_event e bk)))"
    by (simp_all add: sample_event_def features_start_def Let_def)
  show ?thesis
    using sample_known [OF st(1), of es'] by (simp add: Cons changes_def st(2-) Let_def)
qed

text \<open>
  What should be sampled, without the code's rows and its comparison: the top of a book is the best price and the size there
  on both sides, zero where a side is empty; the event number \<^verbatim>\<open>k\<close> is sampled if it is the first or if the top of the book after it
  is not the top before it, and its row shows the top after it.
\<close>

definition touch_of :: "level_view option \<Rightarrow> price \<times> quantity" where
  "touch_of side = (case side of None \<Rightarrow> (0, 0) | Some l \<Rightarrow> (lv_price l, lv_total_quantity l))"

definition top_of :: "order_book \<Rightarrow> (price \<times> quantity) \<times> (price \<times> quantity)" where
  "top_of bk = (touch_of (best_bid bk), touch_of (best_ask bk))"

definition book_after :: "market_data_event list \<Rightarrow> order_book \<Rightarrow> nat \<Rightarrow> order_book" where
  "book_after es bk k = snd (process_events (take k es) bk)"

definition sampled :: "market_data_event list \<Rightarrow> order_book \<Rightarrow> nat list" where
  "sampled es bk = filter (\<lambda>k. k = 0 \<or> top_of (book_after es bk (k + 1)) \<noteq> top_of (book_after es bk k)) [0..<length es]"

definition top_row :: "market_data_event \<Rightarrow> order_book \<Rightarrow> l1_row" where
  "top_row e bk = (case top_of bk of ((bid_px, bid_sz), (ask_px, ask_sz)) \<Rightarrow>
     \<lparr>l1_sequence = ev_sequence e, l1_timestamp_ns = ev_timestamp_ns e, l1_bid_px = bid_px, l1_bid_sz = bid_sz,
       l1_ask_px = ask_px, l1_ask_sz = ask_sz, l1_two_sided = (best_bid bk \<noteq> None \<and> best_ask bk \<noteq> None)\<rparr>)"

lemma row_of_top: "make_l1_row (ev_sequence e) (ev_timestamp_ns e) bk = top_row e bk"
  by (simp add: make_l1_row_def top_row_def top_of_def touch_of_def Let_def split: option.split)

lemma changed_top: "l1_changed (make_l1_row a b bk) (make_l1_row c d bk') \<longleftrightarrow> top_of bk \<noteq> top_of bk'"
  by (auto simp: l1_changed_def make_l1_row_def top_of_def touch_of_def Let_def split: option.split)

lemma book_after_simps [simp]:
  "book_after es bk 0 = bk" "book_after (e # es) bk (Suc k) = book_after es (snd (process_event e bk)) k"
  by (simp_all add: book_after_def process_events_Cons del: process_events.simps(2))

lemma changes_from_tops:
  assumes "top_of bk' = top_of bk"
  shows "changes_from (make_l1_row a b bk') (rows_after es bk)
    = map (\<lambda>k. top_row (es ! k) (book_after es bk (k + 1)))
        (filter (\<lambda>k. top_of (book_after es bk (k + 1)) \<noteq> top_of (book_after es bk k)) [0..<length es])"
  using assms
proof (induction es arbitrary: bk bk' a b)
  case (Cons e es)
  let ?bk1 = "snd (process_event e bk)"
  have upt: "[0..<length (e # es)] = 0 # map Suc [0..<length es]" by (simp add: upt_conv_Cons map_Suc_upt del: upt_Suc)
  have IH: "changes_from (make_l1_row c d bk2) (rows_after es ?bk1)
      = map (\<lambda>k. top_row (es ! k) (book_after es ?bk1 (k + 1)))
          (filter (\<lambda>k. top_of (book_after es ?bk1 (k + 1)) \<noteq> top_of (book_after es ?bk1 k)) [0..<length es])"
    if "top_of bk2 = top_of ?bk1" for c d bk2
    using Cons.IH [OF that] .
  show ?case
  proof (cases "top_of ?bk1 = top_of bk")
    case True
    then show ?thesis
      using IH [OF refl, of "ev_sequence e" "ev_timestamp_ns e"] Cons.prems unfolding upt by (simp add: Let_def changed_top filter_map comp_def)
  next
    case False
    then show ?thesis
      using IH [OF refl, of "ev_sequence e" "ev_timestamp_ns e"] Cons.prems
        changed_top [of a b bk' "ev_sequence e" "ev_timestamp_ns e" ?bk1, unfolded row_of_top] unfolding upt
      by (simp add: Let_def filter_map comp_def row_of_top)
  qed
qed simp

lemma changes_sampled:
  "changes (rows_after es bk) = map (\<lambda>k. top_row (es ! k) (book_after es bk (k + 1))) (sampled es bk)"
proof (cases es)
  case Nil
  then show ?thesis by (simp add: changes_def sampled_def)
next
  case (Cons e es')
  have upt: "[0..<length (e # es')] = 0 # map Suc [0..<length es']" by (simp add: upt_conv_Cons map_Suc_upt del: upt_Suc)
  show ?thesis
    using changes_from_tops [OF refl, of "ev_sequence e" "ev_timestamp_ns e" "snd (process_event e bk)" es']
    unfolding Cons sampled_def upt by (simp add: changes_def Let_def row_of_top filter_map comp_def)
qed

lemma sampled_fresh:
  "ft_decoded (fold sample_event es (features_start bk)) = length es
   \<and> ft_rows (fold sample_event es (features_start bk)) = length (sampled es bk)
   \<and> ft_out (fold sample_event es (features_start bk))
      = l1_header @ concat (map (\<lambda>k. write_l1_row (top_row (es ! k) (book_after es bk (k + 1)))) (sampled es bk))"
  using sample_fresh [of es bk] by (simp add: changes_sampled comp_def)

text \<open>A handler that passes over the events of other symbols sees only those of its own.\<close>

lemma run_until_symbol:
  assumes "\<And>e s. h e s = (if ev_symbol e \<noteq> locate then (False, s) else g e s)"
  shows "run_until h es s = run_until g (of_symbol locate es) s"
  by (induction es arbitrary: s) (auto simp: assms of_symbol_def split: prod.split)

lemma features_loop:
  "run_until (features_event locate mx) es st
    = run_until (\<lambda>e st. (mx \<noteq> 0 \<and> ft_decoded (sample_event e st) \<ge> mx, sample_event e st)) (of_symbol locate es) st"
  by (rule run_until_symbol) (simp add: features_event_def Let_def)

lemma sample_decoded: "ft_decoded (sample_event e st) = ft_decoded st + 1"
  by (simp add: sample_event_def Let_def)

lemma features_run:
  "run_until (features_event locate mx) es (features_start bk) = fold sample_event (limited mx (of_symbol locate es)) (features_start bk)"
proof -
  have z: "ft_decoded (features_start bk) = 0" by (simp add: features_start_def)
  have "run_until (\<lambda>e st. (mx \<noteq> 0 \<and> ft_decoded (sample_event e st) \<ge> mx, sample_event e st)) (of_symbol locate es) (features_start bk)
      = fold sample_event (limited (mx - ft_decoded (features_start bk)) (of_symbol locate es)) (features_start bk)
    \<and> (mx = 0 \<longrightarrow> runs_out (\<lambda>e st. (mx \<noteq> 0 \<and> ft_decoded (sample_event e st) \<ge> mx, sample_event e st)) (of_symbol locate es) (features_start bk))"
    by (rule run_until_limited [where n = ft_decoded]) (auto simp: sample_decoded z)
  then show ?thesis unfolding features_loop z diff_zero by blast
qed

section \<open>Properties\<close>

text \<open>
  C34. The feature stream of one symbol: on any capture the tool ends, and it writes the header and then one
  row for the first event of the symbol and for each later one after which the best bid price, the size there, the
  best ask price or the size there differ from those before it, in order, with those prices and sizes (0 for a side
  without orders) and whether both sides are there; the book is the one of the symbol's events
  alone, up to the limit. It exits with 0 whatever became of the stream, broken or missing files included.
\<close>

theorem itch_features_samples_changes:
  assumes "parse_features opts default_features = Inr o'" and "fo_locate o' = Some locate"
    and "fo_out o' = [] \<or> writable (fo_out o')" and "new_book (unat (fo_capacity o')) = Inr bk"
    and "es = limited (unat (fo_max_events o')) (of_symbol locate (capture_events (fo_mold o') (files path)))"
  shows "features_main (path # opts) files writable = Some \<lparr>fr_exit = 0,
      fr_out = l1_header @ concat (map (\<lambda>k. write_l1_row (top_row (es ! k) (book_after es bk (k + 1)))) (sampled es bk)),
      fr_counts = Some (length es, length (sampled es bk))\<rparr>"
proof -
  let ?h = "features_event locate (unat (fo_max_events o'))"
  have final: "run_until ?h (capture_events (fo_mold o') (files path)) (features_start bk) = fold sample_event es (features_start bk)"
    unfolding assms(5) by (rule features_run)
  show ?thesis
  proof (cases "fo_mold o'")
    case True
    then obtain c1 where "drive mold_next ?h (mold_connector (from_datagram_file (files path)) None) (features_start bk)
        = Some (c1, fold sample_event es (features_start bk))"
      using drive_mold [of False ?h "files path" "features_start bk"] final by auto
    then show ?thesis
      using True assms(1-4) sampled_fresh [of es bk] by (simp add: features_main_def features_connector_def)
  next
    case False
    then obtain c1 where "drive itch_next ?h (itch_from_file (files path)) (features_start bk)
        = Some (c1, fold sample_event es (features_start bk))"
      using drive_itch [of False ?h "files path" "features_start bk"] final by auto
    then show ?thesis
      using False assms(1-4) sampled_fresh [of es bk] by (simp add: features_main_def features_connector_def)
  qed
qed

text \<open>The sample capture: the bid appears, shrinks, and the third event changes nothing.\<close>

definition sample_row :: "u64 \<Rightarrow> quantity \<Rightarrow> l1_row" where
  "sample_row sq bid = \<lparr>l1_sequence = sq, l1_timestamp_ns = 5, l1_bid_px = 10000, l1_bid_sz = bid, l1_ask_px = 0, l1_ask_sz = 0,
     l1_two_sided = False\<rparr>"

lemma sample_row_text:
  "write_l1_row (sample_row 1 300) = ''1,5,10000,300,0,0,0'' @ newline_char"
  "write_l1_row (sample_row 2 200) = ''2,5,10000,200,0,0,0'' @ newline_char"
  by (simp_all add: sample_row_def write_l1_row_def show_u64_def show_i64_def decimal.simps digit_char_def char_of_def bit_0)

lemma sample_changes:
  assumes "valid_capacity n" and "2 \<le> n"
  shows "changes (rows_after sample_stream (projr (new_book n))) = [sample_row 1 300, sample_row 2 200]"
proof -
  let ?bk = "projr (new_book n)"
  have rows: "rows_after sample_stream ?bk = map (\<lambda>k. make_l1_row (of_nat k) 5 (snd (process_events (take k sample_stream) ?bk))) [1, 2, 3]"
    by (simp add: sample_stream_def process_events_Cons Let_def del: process_events.simps(2))
  have row: "make_l1_row a 5 (snd (process_events (take k sample_stream) ?bk)) = sample_row a (if k = 1 then 300 else 200)"
    if "k \<in> {1, 2, 3}" for a k
    using sample_book [OF assms that] by (simp add: make_l1_row_def sample_row_def)
  have "rows_after sample_stream ?bk = [sample_row 1 300, sample_row 2 200, sample_row 3 200]"
    unfolding rows by (simp add: row [unfolded One_nat_def])
  then show ?thesis by (simp add: changes_def l1_changed_def sample_row_def)
qed

lemma itch_features_samples_changes_witness:
  "features_main [''day.itch'', ''--locate'', ''7''] (\<lambda>_. Some sample_capture) (\<lambda>_. True) = Some \<lparr>fr_exit = 0,
     fr_out = l1_header @ ''1,5,10000,300,0,0,0'' @ newline_char @ ''2,5,10000,200,0,0,0'' @ newline_char, fr_counts = Some (3, 2)\<rparr>"
proof -
  let ?o = "default_features\<lparr>fo_locate := Some 7\<rparr>"
  let ?n = "unat (fo_capacity ?o)"
  have n: "valid_capacity ?n" "2 \<le> ?n" by (simp_all add: default_features_def valid_capacity_def npos_def)
  note rows = sample_changes [OF n, unfolded changes_sampled]
  have count_rows: "length (sampled sample_stream (projr (new_book ?n))) = 2"
    using arg_cong [OF rows, of length] by simp
  have lines: "map (\<lambda>k. write_l1_row (top_row (sample_stream ! k) (book_after sample_stream (projr (new_book ?n)) (k + 1))))
      (sampled sample_stream (projr (new_book ?n))) = map write_l1_row [sample_row 1 300, sample_row 2 200]"
    unfolding rows [symmetric] by simp
  have "parse_size ''7'' 0 = 7"
    by (simp add: parse_size_def from_chars_u64_def from_chars_below_def is_digit_def digits_value_def digit_value_def)
  then have p: "parse_features [''--locate'', ''7''] default_features = Inr ?o" by simp
  have o': "fo_locate ?o = Some 7" "fo_out ?o = [] \<or> True" "fo_max_events ?o = 0" "\<not> fo_mold ?o"
    by (simp_all add: default_features_def)
  have es: "sample_stream = limited (unat (fo_max_events ?o)) (of_symbol 7 (capture_events (fo_mold ?o) (Some sample_capture)))"
    using o' by (simp add: sample_capture_events of_symbol_def sample_stream_def limited_def)
  have len: "length sample_stream = 3" by (simp add: sample_stream_def)
  show ?thesis
    unfolding itch_features_samples_changes [OF p o'(1,2) valid_new_book [OF n(1)] es]
    by (simp only: lines count_rows list.map concat.simps sample_row_text len append_Nil2 append_assoc)
qed

end
