(* ===== verification/Backtest.thy ===== *)
theory Backtest
  imports Features Complex_Main
begin

text \<open>
  The event-driven backtest of \<^verbatim>\<open>research/Backtest\<close>: one symbol's events, a strategy that reads the top
  of the book, orders that arrive after a latency and cross the spread, an integer ledger. The strategy
  computes in \<^verbatim>\<open>double\<close>; its numbers are the rationals they denote and \<^verbatim>\<open>rnd\<close>, a parameter, is the
  rounding of each result to the format. Signed 64-bit members are kept as their 64 bits; where the code
  would overflow, which C++ leaves undefined, the model wraps.
\<close>

section \<open>The strategy\<close>

datatype signal = Short | Flat | Long

definition imbalance_target :: "(rat \<Rightarrow> rat) \<Rightarrow> rat \<Rightarrow> rat \<Rightarrow> l1_row \<Rightarrow> signal \<Rightarrow> signal" where
  "imbalance_target rnd enter exit l1 held =
     (let double = (\<lambda>q. rnd (rat_of_nat (unat (q :: quantity))));
          total = rnd (double (l1_bid_sz l1) + double (l1_ask_sz l1))
      in if total \<le> 0 then Flat
         else
           let imbalance = rnd (rnd (double (l1_bid_sz l1) - double (l1_ask_sz l1)) / total)
           in if imbalance \<ge> enter then Long
              else if imbalance \<le> - enter then Short
              else if imbalance \<le> exit \<and> imbalance \<ge> - exit then Flat
              else held)"

definition signal_value :: "signal \<Rightarrow> u64" where
  "signal_value s = (case s of Short \<Rightarrow> - 1 | Flat \<Rightarrow> 0 | Long \<Rightarrow> 1)"

section \<open>The backtester\<close>

record backtest_fill =
  bf_timestamp_ns :: u64
  bf_side :: side
  bf_price :: price
  bf_quantity :: quantity

record backtest_config =
  bc_locate :: symbol_id
  bc_latency_ns :: u64
  bc_order_size :: quantity
  bc_enter_threshold :: rat
  bc_exit_threshold :: rat

record backtest_result =
  br_position :: u64
  br_cash_ticks :: u64
  br_final_pnl_2x :: u64
  br_trades :: u64
  br_unfilled :: u64
  br_l1_updates :: nat
  br_checksum :: u64

record pending_order =
  pd_arrival_ns :: u64
  pd_side :: side
  pd_quantity :: quantity

record backtester =
  bt_config :: backtest_config
  bt_book :: order_book
  bt_pending :: "pending_order list"
  bt_fills :: "backtest_fill list"
  bt_prev_l1 :: l1_row
  bt_have_l1 :: bool
  bt_committed_units :: u64
  bt_position :: u64
  bt_cash_ticks :: u64
  bt_trades :: u64
  bt_unfilled :: u64
  bt_l1_updates :: nat
  bt_checksum :: u64
  bt_last_ts :: u64

definition new_backtester :: "backtest_config \<Rightarrow> nat \<Rightarrow> book_error + backtester" where
  "new_backtester config capacity =
     (case new_book capacity of
       Inl err \<Rightarrow> Inl err
     | Inr book \<Rightarrow> Inr \<lparr>bt_config = config, bt_book = book, bt_pending = [], bt_fills = [], bt_prev_l1 = default_row,
         bt_have_l1 = False, bt_committed_units = 0, bt_position = 0, bt_cash_ticks = 0, bt_trades = 0, bt_unfilled = 0,
         bt_l1_updates = 0, bt_checksum = 0, bt_last_ts = 0\<rparr>)"

text \<open>The hash of one fill and its place in the running checksum.\<close>

definition fill_hash :: "u64 \<Rightarrow> backtest_fill \<Rightarrow> u64" where
  "fill_hash checksum f =
     (let h = checksum_mix (bf_timestamp_ns f)
            XOR word_rotl 11 (checksum_mix (bf_price f))
            XOR word_rotl 23 (checksum_mix (bf_quantity f))
            XOR (if bf_side f = Buy then 0x6a09e667f3bcc909 else 0xbb67ae8584caa73b)
      in checksum_mix (checksum XOR h))"

definition execute_crossing :: "side \<Rightarrow> quantity \<Rightarrow> u64 \<Rightarrow> backtester \<Rightarrow> backtester" where
  "execute_crossing side quantity now_ns bt =
     (case (if side = Buy then best_ask (bt_book bt) else best_bid (bt_book bt)) of
       None \<Rightarrow> bt\<lparr>bt_unfilled := bt_unfilled bt + 1\<rparr>
     | Some touch \<Rightarrow>
         let price = lv_price touch;
             bt1 = (if side = Buy
               then bt\<lparr>bt_position := bt_position bt + quantity, bt_cash_ticks := bt_cash_ticks bt - price * quantity\<rparr>
               else bt\<lparr>bt_position := bt_position bt - quantity, bt_cash_ticks := bt_cash_ticks bt + price * quantity\<rparr>);
             f = \<lparr>bf_timestamp_ns = now_ns, bf_side = side, bf_price = price, bf_quantity = quantity\<rparr>
         in bt1\<lparr>bt_fills := bt_fills bt1 @ [f], bt_trades := bt_trades bt1 + 1, bt_checksum := fill_hash (bt_checksum bt1) f\<rparr>)"

lemma execute_crossing_frame [frame_simps]:
  "bt_pending (execute_crossing sd q t bt) = bt_pending bt" "bt_book (execute_crossing sd q t bt) = bt_book bt"
  "bt_config (execute_crossing sd q t bt) = bt_config bt" "bt_have_l1 (execute_crossing sd q t bt) = bt_have_l1 bt"
  "bt_prev_l1 (execute_crossing sd q t bt) = bt_prev_l1 bt"
  "bt_committed_units (execute_crossing sd q t bt) = bt_committed_units bt"
  "bt_last_ts (execute_crossing sd q t bt) = bt_last_ts bt" "bt_l1_updates (execute_crossing sd q t bt) = bt_l1_updates bt"
  by (simp_all add: execute_crossing_def Let_def split: option.split)

function release_arrived :: "u64 \<Rightarrow> backtester \<Rightarrow> backtester" where
  "release_arrived now_ns bt =
     (case bt_pending bt of
       [] \<Rightarrow> bt
     | order # rest \<Rightarrow>
         if pd_arrival_ns order \<le> now_ns
         then release_arrived now_ns (execute_crossing (pd_side order) (pd_quantity order) (pd_arrival_ns order) (bt\<lparr>bt_pending := rest\<rparr>))
         else bt)"
  by auto

termination
  by (relation "measure (length \<circ> bt_pending \<circ> snd)") (auto simp: frame_simps)

function release_all :: "backtester \<Rightarrow> backtester" where
  "release_all bt =
     (case bt_pending bt of
       [] \<Rightarrow> bt
     | order # rest \<Rightarrow>
         release_all (execute_crossing (pd_side order) (pd_quantity order) (pd_arrival_ns order) (bt\<lparr>bt_pending := rest\<rparr>)))"
  by auto

termination
  by (relation "measure (length \<circ> bt_pending)") (auto simp: frame_simps)

declare release_arrived.simps [simp del] release_all.simps [simp del]

text \<open>\<^verbatim>\<open>on_event\<close> up to the new row, and what the strategy does with the row.\<close>

definition absorb_event :: "market_data_event \<Rightarrow> backtester \<Rightarrow> backtester" where
  "absorb_event e bt =
     (let bt1 = release_arrived (ev_timestamp_ns e) bt
      in bt1\<lparr>bt_book := snd (process_event e (bt_book bt1)), bt_last_ts := ev_timestamp_ns e\<rparr>)"

definition strategy_target :: "(rat \<Rightarrow> rat) \<Rightarrow> l1_row \<Rightarrow> backtest_config \<Rightarrow> u64 \<Rightarrow> signal" where
  "strategy_target rnd l1 config committed =
     imbalance_target rnd (bc_enter_threshold config) (bc_exit_threshold config) l1
       (if sint committed > 0 then Long else if sint committed < 0 then Short else Flat)"

definition order_for :: "u64 \<Rightarrow> side \<times> quantity" where
  "order_for delta = (if sint delta > 0 then Buy else Sell, if sint delta < 0 then - delta else delta)"

definition place_order :: "side \<times> quantity \<Rightarrow> u64 \<Rightarrow> backtester \<Rightarrow> backtester" where
  "place_order order ts bt =
     (if bc_latency_ns (bt_config bt) = 0 then execute_crossing (fst order) (snd order) ts bt
      else bt\<lparr>bt_pending := bt_pending bt @ [\<lparr>pd_arrival_ns = ts + bc_latency_ns (bt_config bt),
        pd_side = fst order, pd_quantity = snd order\<rparr>]\<rparr>)"

definition decide :: "(rat \<Rightarrow> rat) \<Rightarrow> market_data_event \<Rightarrow> l1_row \<Rightarrow> backtester \<Rightarrow> backtester" where
  "decide rnd e l1 bt =
     (let first = (\<not> bt_have_l1 bt);
          bt1 = bt\<lparr>bt_prev_l1 := l1, bt_have_l1 := True, bt_l1_updates := bt_l1_updates bt + 1\<rparr>;
          target = strategy_target rnd l1 (bt_config bt) (bt_committed_units bt);
          target_units = signal_value target * bc_order_size (bt_config bt);
          delta = target_units - bt_committed_units bt
      in if first \<and> target = Flat then bt1
         else if target_units = bt_committed_units bt then bt1
         else place_order (order_for delta) (ev_timestamp_ns e) (bt1\<lparr>bt_committed_units := target_units\<rparr>))"

definition backtest_event :: "(rat \<Rightarrow> rat) \<Rightarrow> market_data_event \<Rightarrow> backtester \<Rightarrow> backtester" where
  "backtest_event rnd e bt =
     (if ev_symbol e \<noteq> bc_locate (bt_config bt) then bt
      else
        let bt1 = absorb_event e bt;
            l1 = make_l1_row (ev_sequence e) (ev_timestamp_ns e) (bt_book bt1)
        in if \<not> l1_two_sided l1 then bt1
           else if bt_have_l1 bt1 \<and> \<not> l1_changed (bt_prev_l1 bt1) l1 then bt1
           else decide rnd e l1 bt1)"

definition finish_orders :: "backtester \<Rightarrow> backtester" where
  "finish_orders bt =
     (let bt1 = release_all bt
      in if bt_position bt1 \<noteq> 0
         then execute_crossing (if sint (bt_position bt1) > 0 then Sell else Buy)
                (if sint (bt_position bt1) < 0 then - bt_position bt1 else bt_position bt1) (bt_last_ts bt1) bt1
         else bt1)"

definition finish :: "backtester \<Rightarrow> backtest_result \<times> backtester" where
  "finish bt =
     (let bt1 = finish_orders bt;
          h = checksum_mix (bt_position bt1) XOR word_rotl 29 (checksum_mix (bt_cash_ticks bt1))
      in (\<lparr>br_position = bt_position bt1, br_cash_ticks = bt_cash_ticks bt1,
           br_final_pnl_2x = (if bt_have_l1 bt1
             then 2 * bt_cash_ticks bt1 + bt_position bt1 * (l1_bid_px (bt_prev_l1 bt1) + l1_ask_px (bt_prev_l1 bt1)) else 0),
           br_trades = bt_trades bt1, br_unfilled = bt_unfilled bt1, br_l1_updates = bt_l1_updates bt1,
           br_checksum = checksum_mix (bt_checksum bt1 XOR h)\<rparr>, bt1))"

section \<open>Bookkeeping\<close>

definition signed_units :: "side \<Rightarrow> quantity \<Rightarrow> u64" where
  "signed_units sd q = (if sd = Buy then q else - q)"

text \<open>The ledger is a function of the fills.\<close>

definition ledger_ok :: "backtester \<Rightarrow> bool" where
  "ledger_ok bt \<longleftrightarrow>
     bt_position bt = sum_list (map (\<lambda>f. signed_units (bf_side f) (bf_quantity f)) (bt_fills bt))
     \<and> bt_cash_ticks bt = - sum_list (map (\<lambda>f. bf_price f * signed_units (bf_side f) (bf_quantity f)) (bt_fills bt))
     \<and> bt_trades bt = word_of_nat (length (bt_fills bt))
     \<and> bt_checksum bt = foldl fill_hash 0 (bt_fills bt)"

text \<open>
  An order finds the side of the book it needs empty. \<^verbatim>\<open>dropped_in\<close>: the orders that a run drops, which are the ones in
  flight that are due at an event of the symbol and find that side of the book before the event empty.
\<close>

definition finds_nothing :: "order_book \<Rightarrow> pending_order \<Rightarrow> bool" where
  "finds_nothing bk p \<longleftrightarrow> (if pd_side p = Buy then best_ask bk else best_bid bk) = None"

definition dropped_at :: "u64 \<Rightarrow> backtester \<Rightarrow> pending_order list" where
  "dropped_at now_ns bt = filter (finds_nothing (bt_book bt)) (takeWhile (\<lambda>p. pd_arrival_ns p \<le> now_ns) (bt_pending bt))"

fun dropped_in :: "(rat \<Rightarrow> rat) \<Rightarrow> market_data_event list \<Rightarrow> backtester \<Rightarrow> pending_order list" where
  "dropped_in rnd [] bt = []"
| "dropped_in rnd (e # es) bt =
     (if ev_symbol e = bc_locate (bt_config bt) then dropped_at (ev_timestamp_ns e) bt else [])
       @ dropped_in rnd es (backtest_event rnd e bt)"

definition units_of :: "pending_order list \<Rightarrow> u64" where
  "units_of ps = sum_list (map (\<lambda>p. signed_units (pd_side p) (pd_quantity p)) ps)"

lemma units_of_simps [simp]:
  "units_of [] = 0" "units_of (p # ps) = signed_units (pd_side p) (pd_quantity p) + units_of ps" "units_of (ps @ qs) = units_of ps + units_of qs"
  by (simp_all add: units_of_def)

text \<open>Where the committed units are: filled, in flight, about to be executed, or dropped.\<close>

definition committed_as :: "u64 \<Rightarrow> pending_order list \<Rightarrow> backtester \<Rightarrow> bool" where
  "committed_as extra dropped bt \<longleftrightarrow> bt_unfilled bt = word_of_nat (length dropped)
     \<and> bt_committed_units bt = bt_position bt + units_of (bt_pending bt) + extra + units_of dropped"

lemma execute_ledger: "ledger_ok bt \<Longrightarrow> ledger_ok (execute_crossing sd q t bt)"
  by (auto simp: ledger_ok_def execute_crossing_def signed_units_def Let_def split: option.split)

lemma execute_committed:
  assumes "committed_as (signed_units (pd_side p) (pd_quantity p)) dropped bt"
  shows "committed_as 0 (dropped @ filter (finds_nothing (bt_book bt)) [p]) (execute_crossing (pd_side p) (pd_quantity p) t bt)"
proof (cases "if pd_side p = Buy then best_ask (bt_book bt) else best_bid (bt_book bt)")
  case None
  then show ?thesis
    using assms by (simp add: committed_as_def execute_crossing_def finds_nothing_def)
next
  case (Some l)
  then show ?thesis
    using assms by (auto simp: committed_as_def execute_crossing_def finds_nothing_def signed_units_def Let_def)
qed

definition booked :: "pending_order list \<Rightarrow> backtester \<Rightarrow> bool" where
  "booked dropped bt \<longleftrightarrow> ledger_ok bt \<and> committed_as 0 dropped bt"

lemma booked_frame:
  "booked d (bt\<lparr>bt_book := b, bt_last_ts := t\<rparr>) = booked d bt"
  "booked d (bt\<lparr>bt_prev_l1 := l1, bt_have_l1 := h, bt_l1_updates := n\<rparr>) = booked d bt"
  by (simp_all add: booked_def ledger_ok_def committed_as_def)

lemma release_one:
  assumes "booked d bt" and "bt_pending bt = p # rest"
  shows "booked (d @ filter (finds_nothing (bt_book bt)) [p])
    (execute_crossing (pd_side p) (pd_quantity p) (pd_arrival_ns p) (bt\<lparr>bt_pending := rest\<rparr>))"
proof -
  have "committed_as (signed_units (pd_side p) (pd_quantity p)) d (bt\<lparr>bt_pending := rest\<rparr>)"
    using assms by (simp add: booked_def committed_as_def algebra_simps)
  moreover have "ledger_ok (bt\<lparr>bt_pending := rest\<rparr>)" using assms(1) by (simp add: booked_def ledger_ok_def)
  ultimately show ?thesis
    using execute_committed [of p d "bt\<lparr>bt_pending := rest\<rparr>"] execute_ledger by (simp add: booked_def)
qed

lemma release_arrived_frame:
  "bt_book (release_arrived t bt) = bt_book bt \<and> bt_config (release_arrived t bt) = bt_config bt
   \<and> bt_have_l1 (release_arrived t bt) = bt_have_l1 bt \<and> bt_committed_units (release_arrived t bt) = bt_committed_units bt
   \<and> (bt_pending bt = [] \<longrightarrow> release_arrived t bt = bt)"
proof (induction t bt rule: release_arrived.induct)
  case (1 t bt)
  then show ?case by (subst (1 2 3 4 5) release_arrived.simps) (auto simp: frame_simps split: list.split)
qed

lemma release_arrived_booked: "booked d bt \<Longrightarrow> booked (d @ dropped_at t bt) (release_arrived t bt)"
proof (induction t bt arbitrary: d rule: release_arrived.induct)
  case (1 t bt)
  show ?case
  proof (cases "bt_pending bt")
    case Nil
    then show ?thesis using 1(2) by (subst release_arrived.simps) (simp add: dropped_at_def)
  next
    case (Cons p rest)
    let ?bt = "execute_crossing (pd_side p) (pd_quantity p) (pd_arrival_ns p) (bt\<lparr>bt_pending := rest\<rparr>)"
    have "dropped_at t bt = filter (finds_nothing (bt_book bt)) [p] @ dropped_at t ?bt" if "pd_arrival_ns p \<le> t"
      using that Cons by (simp add: dropped_at_def frame_simps)
    then show ?thesis
      using 1(1) [OF Cons _ release_one [OF 1(2) Cons]] 1(2) Cons
      by (subst release_arrived.simps) (simp add: dropped_at_def)
  qed
qed

lemma release_all_ledger:
  "ledger_ok bt \<Longrightarrow> ledger_ok (release_all bt) \<and> bt_pending (release_all bt) = [] \<and> bt_book (release_all bt) = bt_book bt
    \<and> bt_position (release_all bt) = bt_position bt + units_of (filter (\<lambda>p. \<not> finds_nothing (bt_book bt) p) (bt_pending bt))"
proof (induction bt rule: release_all.induct)
  case (1 bt)
  show ?case
  proof (cases "bt_pending bt")
    case Nil
    then show ?thesis using 1(2) by (subst (1 2 3 4) release_all.simps) simp
  next
    case (Cons p rest)
    let ?bt = "execute_crossing (pd_side p) (pd_quantity p) (pd_arrival_ns p) (bt\<lparr>bt_pending := rest\<rparr>)"
    have "ledger_ok (bt\<lparr>bt_pending := rest\<rparr>)" using 1(2) by (simp add: ledger_ok_def)
    then have l: "ledger_ok ?bt" by (rule execute_ledger)
    have "bt_position ?bt = bt_position bt + units_of (filter (\<lambda>p. \<not> finds_nothing (bt_book bt) p) [p])"
      by (auto simp: execute_crossing_def finds_nothing_def signed_units_def Let_def split: option.split)
    then show ?thesis using 1(1) [OF Cons l] Cons
      by (subst (1 2 3 4) release_all.simps) (auto simp: frame_simps algebra_simps)
  qed
qed

lemma absorb_booked: "booked d bt \<Longrightarrow> booked (d @ dropped_at (ev_timestamp_ns e) bt) (absorb_event e bt)"
  by (simp add: absorb_event_def Let_def booked_frame release_arrived_booked)

text \<open>The order a decision makes takes the committed units from the old target to the new one.\<close>

lemma order_for_units: "delta \<noteq> 0 \<Longrightarrow> signed_units (fst (order_for delta)) (snd (order_for delta)) = delta"
  using signed_eq_0_iff [of delta] by (auto simp: order_for_def signed_units_def)

text \<open>An order executed at once is decided on a book with both sides, so that it is never dropped.\<close>

lemma place_booked:
  assumes "ledger_ok bt" and "committed_as (signed_units (fst order) (snd order)) d bt"
    and "best_bid (bt_book bt) \<noteq> None" and "best_ask (bt_book bt) \<noteq> None"
  shows "booked d (place_order order ts bt)"
proof (cases "bc_latency_ns (bt_config bt) = 0")
  case True
  then show ?thesis
    using execute_committed [of "\<lparr>pd_arrival_ns = ts, pd_side = fst order, pd_quantity = snd order\<rparr>" d bt ts] assms
      execute_ledger [OF assms(1)] by (auto simp: place_order_def booked_def finds_nothing_def split: if_splits)
next
  case False
  let ?bt = "bt\<lparr>bt_pending := bt_pending bt @ [\<lparr>pd_arrival_ns = ts + bc_latency_ns (bt_config bt),
        pd_side = fst order, pd_quantity = snd order\<rparr>]\<rparr>"
  have "committed_as 0 d ?bt" using assms(2) by (simp add: committed_as_def algebra_simps)
  moreover have "ledger_ok ?bt" using assms(1) by (simp add: ledger_ok_def)
  ultimately show ?thesis using False by (auto simp: place_order_def booked_def)
qed

lemma decide_booked:
  assumes "booked d bt" and "best_bid (bt_book bt) \<noteq> None" and "best_ask (bt_book bt) \<noteq> None"
  shows "booked d (decide rnd e l1 bt)"
proof -
  define bt1 where "bt1 = bt\<lparr>bt_prev_l1 := l1, bt_have_l1 := True, bt_l1_updates := bt_l1_updates bt + 1\<rparr>"
  define units where "units = signal_value (strategy_target rnd l1 (bt_config bt) (bt_committed_units bt)) * bc_order_size (bt_config bt)"
  have 1: "booked d bt1" using assms by (simp add: bt1_def booked_frame)
  show ?thesis
  proof (cases "units = bt_committed_units bt")
    case True
    then show ?thesis using 1 unfolding decide_def Let_def units_def [symmetric] bt1_def [symmetric] by simp
  next
    case False
    have "committed_as (units - bt_committed_units bt) d (bt1\<lparr>bt_committed_units := units\<rparr>)"
      using assms(1) by (simp add: booked_def bt1_def committed_as_def)
    moreover have "ledger_ok (bt1\<lparr>bt_committed_units := units\<rparr>)" using assms by (simp add: bt1_def booked_def ledger_ok_def)
    ultimately have "booked d (place_order (order_for (units - bt_committed_units bt)) (ev_timestamp_ns e) (bt1\<lparr>bt_committed_units := units\<rparr>))"
      using place_booked False order_for_units assms(2,3) by (simp add: bt1_def)
    then show ?thesis using 1 unfolding decide_def Let_def units_def [symmetric] bt1_def [symmetric] by simp
  qed
qed

lemma two_sided_row: "l1_two_sided (make_l1_row a b bk) \<longleftrightarrow> best_bid bk \<noteq> None \<and> best_ask bk \<noteq> None"
  by (simp add: make_l1_row_def Let_def split: option.split)

lemma event_booked:
  assumes "booked d bt"
  shows "booked (d @ (if ev_symbol e = bc_locate (bt_config bt) then dropped_at (ev_timestamp_ns e) bt else [])) (backtest_event rnd e bt)"
  using assms absorb_booked [OF assms, of e] decide_booked [of "d @ dropped_at (ev_timestamp_ns e) bt" "absorb_event e bt"]
  by (simp add: backtest_event_def Let_def two_sided_row)

lemma run_booked: "booked d bt \<Longrightarrow> booked (d @ dropped_in rnd es bt) (fold (backtest_event rnd) es bt)"
proof (induction es arbitrary: d bt)
  case (Cons e es)
  from Cons.IH [OF event_booked [OF Cons.prems, of e rnd]] show ?case by simp
qed simp

lemma new_booked: "new_backtester config n = Inr bt \<Longrightarrow> booked [] bt \<and> bt_config bt = config \<and> bt_committed_units bt = 0"
  by (auto simp: new_backtester_def booked_def ledger_ok_def committed_as_def split: sum.splits)

section \<open>Without latency\<close>

definition on_target :: "backtester \<Rightarrow> bool" where
  "on_target bt \<longleftrightarrow> bt_pending bt = [] \<and> bt_unfilled bt = 0 \<and> bt_position bt = bt_committed_units bt
     \<and> bt_committed_units bt \<in> {0, bc_order_size (bt_config bt), - bc_order_size (bt_config bt)}"

lemma signal_value_units: "signal_value s * q \<in> {0, q, - q}"
  by (cases s) (simp_all add: signal_value_def)

lemma decide_on_target:
  assumes "on_target bt" and "bc_latency_ns (bt_config bt) = 0" and "best_bid (bt_book bt) \<noteq> None" and "best_ask (bt_book bt) \<noteq> None"
  shows "on_target (decide rnd e l1 bt)"
proof -
  define bt1 where "bt1 = bt\<lparr>bt_prev_l1 := l1, bt_have_l1 := True, bt_l1_updates := bt_l1_updates bt + 1\<rparr>"
  define units where "units = signal_value (strategy_target rnd l1 (bt_config bt) (bt_committed_units bt)) * bc_order_size (bt_config bt)"
  define delta where "delta = units - bt_committed_units bt"
  have 1: "on_target bt1" using assms(1) by (simp add: bt1_def on_target_def)
  show ?thesis
  proof (cases "units = bt_committed_units bt")
    case True
    then show ?thesis using 1 unfolding decide_def Let_def units_def [symmetric] bt1_def [symmetric] by simp
  next
    case False
    then have u: "signed_units (fst (order_for delta)) (snd (order_for delta)) = delta"
      by (intro order_for_units) (simp add: delta_def)
    have "units \<in> {0, bc_order_size (bt_config bt), - bc_order_size (bt_config bt)}"
      unfolding units_def by (rule signal_value_units)
    moreover have "bt_position (place_order (order_for delta) (ev_timestamp_ns e) (bt1\<lparr>bt_committed_units := units\<rparr>))
        = bt_position bt + signed_units (fst (order_for delta)) (snd (order_for delta))"
      "bt_unfilled (place_order (order_for delta) (ev_timestamp_ns e) (bt1\<lparr>bt_committed_units := units\<rparr>)) = bt_unfilled bt"
      using assms(2-4) by (auto simp: place_order_def execute_crossing_def signed_units_def bt1_def Let_def)
    ultimately have "on_target (place_order (order_for delta) (ev_timestamp_ns e) (bt1\<lparr>bt_committed_units := units\<rparr>))"
      using assms(1,2) by (simp add: on_target_def place_order_def frame_simps u) (simp add: bt1_def delta_def)
    then show ?thesis
      using 1 unfolding decide_def Let_def units_def [symmetric] bt1_def [symmetric] delta_def [symmetric] by simp
  qed
qed

lemma backtest_config_kept: "bt_config (backtest_event rnd e bt) = bt_config bt"
  using release_arrived_frame [of "ev_timestamp_ns e" bt]
  by (simp add: backtest_event_def absorb_event_def decide_def place_order_def frame_simps Let_def)

lemma event_on_target:
  assumes "on_target bt" and "bc_latency_ns (bt_config bt) = 0"
  shows "on_target (backtest_event rnd e bt)"
proof -
  have "release_arrived (ev_timestamp_ns e) bt = bt"
    using release_arrived_frame [of "ev_timestamp_ns e" bt] assms(1) by (simp add: on_target_def)
  then have 1: "on_target (absorb_event e bt)" "bt_config (absorb_event e bt) = bt_config bt"
    using assms(1) by (simp_all add: absorb_event_def on_target_def)
  show ?thesis
    using 1 decide_on_target [OF 1(1)] assms by (simp add: backtest_event_def Let_def two_sided_row)
qed

lemma run_on_target:
  assumes "on_target bt" and "bc_latency_ns (bt_config bt) = 0"
  shows "on_target (fold (backtest_event rnd) es bt)"
  using assms by (induction es arbitrary: bt) (simp_all add: event_on_target backtest_config_kept)

lemma new_on_target: "new_backtester config n = Inr bt \<Longrightarrow> on_target bt"
  by (auto simp: new_backtester_def on_target_def split: sum.splits)

section \<open>The end of the session\<close>

text \<open>What is held when the orders in flight have met the final book.\<close>

definition position_at_end :: "backtester \<Rightarrow> u64" where
  "position_at_end bt = bt_position bt + units_of (filter (\<lambda>p. \<not> finds_nothing (bt_book bt) p) (bt_pending bt))"

lemma finish_orders_ok:
  assumes "ledger_ok bt"
  shows "ledger_ok (finish_orders bt) \<and> bt_pending (finish_orders bt) = []
    \<and> bt_position (finish_orders bt)
      = (if (if sint (position_at_end bt) > 0 then best_bid (bt_book bt) else best_ask (bt_book bt)) = None then position_at_end bt else 0)"
proof -
  define bt1 where "bt1 = release_all bt"
  have r: "ledger_ok bt1" "bt_pending bt1 = []" "bt_book bt1 = bt_book bt" "bt_position bt1 = position_at_end bt"
    using release_all_ledger [OF assms] by (simp_all add: bt1_def position_at_end_def)
  show ?thesis
  proof (cases "bt_position bt1 = 0")
    case True
    then show ?thesis using r by (simp add: finish_orders_def Let_def flip: bt1_def)
  next
    case False
    define sd where "sd = (if sint (bt_position bt1) > 0 then Sell else Buy)"
    define q where "q = (if sint (bt_position bt1) < 0 then - bt_position bt1 else bt_position bt1)"
    have f: "finish_orders bt = execute_crossing sd q (bt_last_ts bt1) bt1"
      using False by (simp add: finish_orders_def Let_def sd_def q_def flip: bt1_def)
    have "signed_units sd q = - bt_position bt1"
      using False signed_eq_0_iff [of "bt_position bt1"] by (auto simp: sd_def q_def signed_units_def)
    then have "bt_position (execute_crossing sd q (bt_last_ts bt1) bt1)
        = (if (if sd = Buy then best_ask (bt_book bt1) else best_bid (bt_book bt1)) = None then bt_position bt1 else 0)"
      by (auto simp: execute_crossing_def signed_units_def Let_def split: option.split if_splits)
    then show ?thesis using r execute_ledger [OF r(1)] by (cases "sint (position_at_end bt) > 0") (simp_all add: f frame_simps sd_def)
  qed
qed

section \<open>Properties\<close>

text \<open>
  C35. The ledger of a backtest, on any events and with any rounding. While it runs: position, cash, trade
  count and running checksum are those of the fills in order; the committed units are the position, the
  units of the orders in flight and those of the orders the run dropped, which are the ones that were due and found
  the side of the book they needed empty, and \<^verbatim>\<open>unfilled\<close> counts exactly these; without
  latency no order is ever in flight or dropped and the position is the target, at most one order size
  either way. When it finishes: the ledger still is the one of the fills and nothing is in flight; the position that is left
  is 0 if the side of the book that closes it has an order, and otherwise stays what it was after the last arrivals.
\<close>

theorem backtest_ledger:
  assumes "new_backtester config n = Inr bt0" and "bt = fold (backtest_event rnd) es bt0"
  shows "ledger_ok bt \<and> bt_unfilled bt = word_of_nat (length (dropped_in rnd es bt0))
    \<and> bt_committed_units bt = bt_position bt + units_of (bt_pending bt) + units_of (dropped_in rnd es bt0)
    \<and> (bc_latency_ns config = 0 \<longrightarrow> bt_pending bt = [] \<and> bt_unfilled bt = 0
        \<and> bt_position bt \<in> {0, bc_order_size config, - bc_order_size config})
    \<and> ledger_ok (snd (finish bt)) \<and> bt_pending (snd (finish bt)) = []
    \<and> br_position (fst (finish bt))
      = (if (if sint (position_at_end bt) > 0 then best_bid (bt_book bt) else best_ask (bt_book bt)) = None then position_at_end bt else 0)"
proof -
  have n: "booked [] bt0" "bt_config bt0 = config" using new_booked [OF assms(1)] by blast+
  have b: "booked (dropped_in rnd es bt0) bt" unfolding assms(2) using run_booked [OF n(1), of rnd es] by simp
  have "bt_config bt = config" unfolding assms(2) n(2) [symmetric]
    by (induction es arbitrary: bt0) (simp_all add: backtest_config_kept)
  then have "bt_pending bt = [] \<and> bt_unfilled bt = 0 \<and> bt_position bt \<in> {0, bc_order_size config, - bc_order_size config}"
    if "bc_latency_ns config = 0"
    using run_on_target [OF new_on_target [OF assms(1)], of rnd es] that n(2) unfolding assms(2) [symmetric]
    by (simp add: on_target_def)
  moreover have "snd (finish bt) = finish_orders bt" "br_position (fst (finish bt)) = bt_position (finish_orders bt)"
    by (simp_all add: finish_def Let_def)
  moreover have "ledger_ok bt" using b by (simp add: booked_def)
  ultimately show ?thesis
    using b finish_orders_ok [of bt] by (simp add: booked_def committed_as_def)
qed

lemma backtest_ledger_witness:
  "\<exists>bt0. new_backtester \<lparr>bc_locate = 0, bc_latency_ns = 0, bc_order_size = 2, bc_enter_threshold = 3 / 10, bc_exit_threshold = 1 / 10\<rparr> 4
      = Inr bt0 \<and> bt_position (backtest_event id default_event bt0) \<in> {0, 2, - 2}"
proof -
  let ?config = "\<lparr>bc_locate = 0, bc_latency_ns = 0, bc_order_size = 2, bc_enter_threshold = 3 / 10, bc_exit_threshold = 1 / 10\<rparr>"
  obtain bk where "new_book 4 = Inr bk" using valid_new_book [of 4] by (auto simp: valid_capacity_def npos_def)
  then obtain bt0 where "new_backtester ?config 4 = Inr bt0" by (simp add: new_backtester_def)
  with backtest_ledger [OF this, of "backtest_event id default_event bt0" id "[default_event]"] show ?thesis by simp
qed

section \<open>An order that finds no liquidity\<close>

text \<open>A bid and an ask; the ask goes and, after the order's arrival, comes back.\<close>

definition stranding_events :: "market_data_event list" where
  "stranding_events =
     [default_event\<lparr>ev_timestamp_ns := 1, ev_order_id := 1, ev_price := 100, ev_quantity := 3\<rparr>,
      default_event\<lparr>ev_timestamp_ns := 2, ev_order_id := 2, ev_side := Sell, ev_price := 101, ev_quantity := 1\<rparr>,
      default_event\<lparr>ev_timestamp_ns := 3, ev_type := Cancel, ev_order_id := 2\<rparr>,
      default_event\<lparr>ev_timestamp_ns := 20, ev_order_id := 3, ev_side := Sell, ev_price := 101, ev_quantity := 1\<rparr>]"

definition stranding_book :: "nat \<Rightarrow> order_book" where
  "stranding_book n = snd (process_events (take n stranding_events) (projr (new_book 4)))"

definition the_bid :: "level_view option" where
  "the_bid = Some \<lparr>lv_side = Buy, lv_price = 100, lv_total_quantity = 3, lv_order_count = 1\<rparr>"

definition the_ask :: "level_view option" where
  "the_ask = Some \<lparr>lv_side = Sell, lv_price = 101, lv_total_quantity = 1, lv_order_count = 1\<rparr>"

lemma stranding_run:
  assumes "n \<le> 4"
  shows "book_ok (stranding_book n)" and "abs_book (stranding_book n) = snd (spec_events 4 (take n stranding_events) spec_empty)"
  unfolding stranding_book_def by (rule fresh_run; use assms in \<open>simp add: npos_def stranding_events_def\<close>)+

lemma stranding_abs:
  assumes "n \<le> 4"
  shows "queue_ids (stranding_book n) = sb_queue (snd (spec_events 4 (take n stranding_events) spec_empty))"
    and "find_order oid (stranding_book n) = sb_orders (snd (spec_events 4 (take n stranding_events) spec_empty)) oid"
  using stranding_run(2) [OF assms] by (metis abs_book_simps(2), metis abs_book_simps(1))

lemmas stranding_eval = stranding_events_def spec_event_def spec_rest_def spec_cancel_def spec_empty_def set_queue_def default_event_def

lemma stranding_touch:
  "best_bid (stranding_book 1) = the_bid" "best_ask (stranding_book 1) = None"
  "best_bid (stranding_book 2) = the_bid" "best_ask (stranding_book 2) = the_ask"
  "best_bid (stranding_book 3) = the_bid" "best_ask (stranding_book 3) = None"
  "best_bid (stranding_book 4) = the_bid" "best_ask (stranding_book 4) = the_ask"
proof -
  have bid: "best_bid (stranding_book n) = the_bid" if "n \<in> {1, 2, 3, 4}" for n
  proof -
    have n: "n \<le> 4" using that by auto
    have q: "queue_ids (stranding_book n) Buy q = (if q = 100 then [1] else [])" for q
      using that by (auto simp: stranding_abs(1) [OF n] stranding_eval)
    have f: "find_order 1 (stranding_book n) = Some \<lparr>ov_id = 1, ov_side = Buy, ov_price = 100, ov_quantity = 3, ov_priority = 0\<rparr>"
      using that by (auto simp: stranding_abs(2) [OF n] stranding_eval)
    show ?thesis
      using touch_single [OF stranding_run(1) [OF n] touch_of(1) [OF stranding_run(1) [OF n]] q f] by (simp add: the_bid_def)
  qed
  show "best_bid (stranding_book 1) = the_bid" "best_bid (stranding_book 2) = the_bid"
    "best_bid (stranding_book 3) = the_bid" "best_bid (stranding_book 4) = the_bid" by (simp_all add: bid)
  have none: "best_ask (stranding_book n) = None" if "n \<in> {1, 3}" for n
  proof -
    have n: "n \<le> 4" using that by auto
    have "queue_ids (stranding_book n) Sell q = []" for q
      using that by (auto simp: stranding_abs(1) [OF n] stranding_eval)
    then show ?thesis by (rule touch_none [OF touch_of(2) [OF stranding_run(1) [OF n]]])
  qed
  show "best_ask (stranding_book 1) = None" "best_ask (stranding_book 3) = None" by (simp_all add: none)
  have ask: "best_ask (stranding_book n) = the_ask" if "n = 2 \<and> oid = 2 \<or> n = 4 \<and> oid = 3" for n and oid :: order_id
  proof -
    have n: "n \<le> 4" using that by auto
    have q: "queue_ids (stranding_book n) Sell q = (if q = 101 then [oid] else [])" for q
      using that by (auto simp: stranding_abs(1) [OF n] stranding_eval)
    have "\<exists>pr. find_order oid (stranding_book n) = Some \<lparr>ov_id = oid, ov_side = Sell, ov_price = 101, ov_quantity = 1, ov_priority = pr\<rparr>"
      using that by (auto simp: stranding_abs(2) [OF n] stranding_eval)
    then obtain pr where f: "find_order oid (stranding_book n) = Some \<lparr>ov_id = oid, ov_side = Sell, ov_price = 101, ov_quantity = 1, ov_priority = pr\<rparr>" ..
    show ?thesis
      using touch_single [OF stranding_run(1) [OF n] touch_of(2) [OF stranding_run(1) [OF n]] q f] by (simp add: the_ask_def)
  qed
  show "best_ask (stranding_book 2) = the_ask" "best_ask (stranding_book 4) = the_ask" using ask by blast+
qed

definition stranding_config :: "rat \<Rightarrow> rat \<Rightarrow> backtest_config" where
  "stranding_config enter exit = \<lparr>bc_locate = 0, bc_latency_ns = 10, bc_order_size = 1,
     bc_enter_threshold = enter, bc_exit_threshold = exit\<rparr>"

lemma stranding_book_step:
  "n < 4 \<Longrightarrow> snd (process_event (stranding_events ! n) (stranding_book n)) = stranding_book (Suc n)"
  unfolding stranding_book_def
  by (subst take_Suc_conv_app_nth) (simp_all add: stranding_events_def process_events_snoc)

text \<open>The backtester after each of the first events.\<close>

lemma fresh_row: "make_l1_row a b bk = \<lparr>l1_sequence = a, l1_timestamp_ns = b,
    l1_bid_px = (case best_bid bk of None \<Rightarrow> 0 | Some l \<Rightarrow> lv_price l),
    l1_bid_sz = (case best_bid bk of None \<Rightarrow> 0 | Some l \<Rightarrow> lv_total_quantity l),
    l1_ask_px = (case best_ask bk of None \<Rightarrow> 0 | Some l \<Rightarrow> lv_price l),
    l1_ask_sz = (case best_ask bk of None \<Rightarrow> 0 | Some l \<Rightarrow> lv_total_quantity l),
    l1_two_sided = (best_bid bk \<noteq> None \<and> best_ask bk \<noteq> None)\<rparr>"
  by (simp add: make_l1_row_def Let_def split: option.split)

text \<open>
  C36. A dropped order stays committed: with a positive latency there are events, and a strategy whose
  entry threshold is at most one half, for which the only order finds no liquidity on arrival and is
  dropped; afterwards the book is two-sided again with the imbalance that calls for a long position, yet
  the committed units say that the position is held, while it is zero and nothing is in flight. The
  hypothesis on the rounding is met by every binary format that holds small integers and halves exactly.
\<close>

theorem dropped_order_stays_committed:
  assumes "\<forall>x \<in> {1, 2, 3, 4, 1 / 2}. rnd x = x" and "enter \<le> 1 / 2"
    and "new_backtester (stranding_config enter exit) 4 = Inr bt0"
    and "bt = fold (backtest_event rnd) stranding_events bt0"
  shows "bt_committed_units bt = 1 \<and> bt_position bt = 0 \<and> bt_pending bt = [] \<and> bt_fills bt = [] \<and> bt_unfilled bt = 1
    \<and> best_bid (bt_book bt) \<noteq> None \<and> best_ask (bt_book bt) \<noteq> None
    \<and> strategy_target rnd (bt_prev_l1 bt) (bt_config bt) 0 = Long"
proof -
  define e0 e1 e2 e3 where e: "e0 = stranding_events ! 0" "e1 = stranding_events ! 1" "e2 = stranding_events ! 2" "e3 = stranding_events ! 3"
  have es: "stranding_events = [e0, e1, e2, e3]" by (simp add: e stranding_events_def)
  have ts: "ev_timestamp_ns e0 = 1" "ev_timestamp_ns e1 = 2" "ev_timestamp_ns e2 = 3" "ev_timestamp_ns e3 = 20"
    "ev_symbol e0 = 0" "ev_symbol e1 = 0" "ev_symbol e2 = 0" "ev_symbol e3 = 0"
    by (simp_all add: e stranding_events_def default_event_def)
  have step: "snd (process_event e0 (stranding_book 0)) = stranding_book 1" "snd (process_event e1 (stranding_book 1)) = stranding_book 2"
    "snd (process_event e2 (stranding_book 2)) = stranding_book 3" "snd (process_event e3 (stranding_book 3)) = stranding_book 4"
    using stranding_book_step [of 0] stranding_book_step [of 1] stranding_book_step [of 2] stranding_book_step [of 3]
    by (simp_all add: e numeral_eq_Suc)
  have start: "bt0 = \<lparr>bt_config = stranding_config enter exit, bt_book = stranding_book 0, bt_pending = [], bt_fills = [],
      bt_prev_l1 = default_row, bt_have_l1 = False, bt_committed_units = 0, bt_position = 0, bt_cash_ticks = 0,
      bt_trades = 0, bt_unfilled = 0, bt_l1_updates = 0, bt_checksum = 0, bt_last_ts = 0\<rparr>"
    using assms(3) by (auto simp: new_backtester_def stranding_book_def split: sum.splits)
  define l1 where "l1 = make_l1_row (ev_sequence e1) 2 (stranding_book 2)"
  have row: "l1_bid_sz l1 = 3" "l1_ask_sz l1 = 1" "l1_two_sided l1" "l1_bid_px l1 = 100" "l1_ask_px l1 = 101"
    by (simp_all add: l1_def fresh_row stranding_touch the_bid_def the_ask_def)
  have long: "strategy_target rnd l1 (stranding_config enter exit) 0 = Long"
    using assms(1,2) by (simp add: strategy_target_def imbalance_target_def row stranding_config_def Let_def)
  have 1: "backtest_event rnd e0 bt0 = bt0\<lparr>bt_book := stranding_book 1, bt_last_ts := 1\<rparr>"
    by (simp add: start backtest_event_def absorb_event_def release_arrived.simps ts step [unfolded One_nat_def] stranding_config_def fresh_row
        stranding_touch stranding_touch(1,2) [unfolded One_nat_def] Let_def)
  let ?bt2 = "bt0\<lparr>bt_book := stranding_book 2, bt_last_ts := 2, bt_prev_l1 := l1, bt_have_l1 := True, bt_l1_updates := 1,
    bt_committed_units := 1, bt_pending := [\<lparr>pd_arrival_ns = 12, pd_side = Buy, pd_quantity = 1\<rparr>]\<rparr>"
  have 2: "backtest_event rnd e1 (bt0\<lparr>bt_book := stranding_book 1, bt_last_ts := 1\<rparr>) = ?bt2"
    using row(3) long
    by (simp add: start backtest_event_def absorb_event_def release_arrived.simps ts step [unfolded One_nat_def] Let_def decide_def
        place_order_def order_for_def signal_value_def flip: l1_def) (simp add: stranding_config_def)
  let ?bt3 = "?bt2\<lparr>bt_book := stranding_book 3, bt_last_ts := 3\<rparr>"
  have 3: "backtest_event rnd e2 ?bt2 = ?bt3"
    by (simp add: start backtest_event_def absorb_event_def release_arrived.simps ts step [unfolded One_nat_def] stranding_config_def fresh_row
        stranding_touch Let_def)
  let ?bt4 = "?bt3\<lparr>bt_pending := [], bt_unfilled := 1, bt_book := stranding_book 4, bt_last_ts := 20\<rparr>"
  have 4: "backtest_event rnd e3 ?bt3 = ?bt4"
    by (simp add: start backtest_event_def absorb_event_def release_arrived.simps ts step [unfolded One_nat_def] stranding_config_def fresh_row
        stranding_touch Let_def execute_crossing_def l1_changed_def row the_bid_def the_ask_def)
  have "bt = ?bt4" unfolding assms(4) es by (simp only: fold.simps o_apply id_apply 1 2 3 4)
  then show ?thesis using long by (simp add: start stranding_touch the_bid_def the_ask_def)
qed

lemma dropped_order_stays_committed_witness:
  "\<exists>bt0. new_backtester (stranding_config (3 / 10) (1 / 10)) 4 = Inr bt0
    \<and> bt_committed_units (fold (backtest_event id) stranding_events bt0) = 1
    \<and> bt_position (fold (backtest_event id) stranding_events bt0) = 0"
proof -
  obtain bk where "new_book 4 = Inr bk" using valid_new_book [of 4] by (auto simp: valid_capacity_def npos_def)
  then obtain bt0 where "new_backtester (stranding_config (3 / 10) (1 / 10)) 4 = Inr bt0" by (simp add: new_backtester_def)
  with dropped_order_stays_committed [of id, OF _ _ this refl] show ?thesis by simp
qed

section \<open>The tool\<close>

text \<open>\<^verbatim>\<open>strtod\<close>, of the C library, reads the two thresholds and is a parameter.\<close>

record backtest_options =
  bo_mold :: bool
  bo_have_locate :: bool
  bo_config :: backtest_config
  bo_capacity :: u64

definition default_backtest :: backtest_options where
  "default_backtest = \<lparr>bo_mold = False, bo_have_locate = False,
     bo_config = \<lparr>bc_locate = 0, bc_latency_ns = 0, bc_order_size = 1, bc_enter_threshold = 3 / 10, bc_exit_threshold = 1 / 10\<rparr>,
     bo_capacity = 262144\<rparr>"

fun parse_backtest :: "(string \<Rightarrow> rat) \<Rightarrow> string list \<Rightarrow> backtest_options \<Rightarrow> string + backtest_options" where
  "parse_backtest strtod [] o' = Inr o'"
| "parse_backtest strtod (arg # rest) o' =
     (if arg = ''--mold'' then parse_backtest strtod rest (o'\<lparr>bo_mold := True\<rparr>)
      else if arg = ''--locate'' \<and> rest \<noteq> [] then
        parse_backtest strtod (tl rest) (o'\<lparr>bo_config := (bo_config o')\<lparr>bc_locate := ucast (parse_size (hd rest) 0)\<rparr>, bo_have_locate := True\<rparr>)
      else if arg = ''--latency-ns'' \<and> rest \<noteq> [] then
        parse_backtest strtod (tl rest) (o'\<lparr>bo_config := (bo_config o')\<lparr>bc_latency_ns := parse_size (hd rest) 0\<rparr>\<rparr>)
      else if arg = ''--enter'' \<and> rest \<noteq> [] then
        parse_backtest strtod (tl rest) (o'\<lparr>bo_config := (bo_config o')\<lparr>bc_enter_threshold := strtod (hd rest)\<rparr>\<rparr>)
      else if arg = ''--exit'' \<and> rest \<noteq> [] then
        parse_backtest strtod (tl rest) (o'\<lparr>bo_config := (bo_config o')\<lparr>bc_exit_threshold := strtod (hd rest)\<rparr>\<rparr>)
      else if arg = ''--size'' \<and> rest \<noteq> [] then
        parse_backtest strtod (tl rest) (o'\<lparr>bo_config := (bo_config o')\<lparr>bc_order_size := parse_size (hd rest) 1\<rparr>\<rparr>)
      else if arg = ''--capacity'' \<and> rest \<noteq> [] then
        parse_backtest strtod (tl rest) (o'\<lparr>bo_capacity := parse_size (hd rest) (bo_capacity o')\<rparr>)
      else Inl arg)"

text \<open>The exit code and what is printed on success.\<close>

definition backtest_connector ::
  "('c \<Rightarrow> market_data_event option \<times> 'c) \<Rightarrow> (rat \<Rightarrow> rat) \<Rightarrow> backtest_options \<Rightarrow> 'c \<Rightarrow> (nat \<times> (backtest_config \<times> backtest_result) option) option" where
  "backtest_connector step rnd o' source =
     (case new_backtester (bo_config o') (unat (bo_capacity o')) of
       Inl err \<Rightarrow> Some (1, None)
     | Inr bt \<Rightarrow>
         (case drive step (\<lambda>e bt. (False, backtest_event rnd e bt)) source bt of
           None \<Rightarrow> None
         | Some (_, bt1) \<Rightarrow> Some (0, Some (bo_config o', fst (finish bt1)))))"

definition backtest_main ::
  "(rat \<Rightarrow> rat) \<Rightarrow> (string \<Rightarrow> rat) \<Rightarrow> string list \<Rightarrow> (string \<Rightarrow> u8 list option) \<Rightarrow> (nat \<times> (backtest_config \<times> backtest_result) option) option" where
  "backtest_main rnd strtod args files =
     (case args of
       [] \<Rightarrow> Some (2, None)
     | path # opts \<Rightarrow>
         (case parse_backtest strtod opts default_backtest of
           Inl arg \<Rightarrow> Some (2, None)
         | Inr o' \<Rightarrow>
             if \<not> bo_have_locate o' then Some (2, None)
             else if bo_mold o' then
               backtest_connector mold_next rnd o' (mold_connector (from_datagram_file (files path)) None)
             else backtest_connector itch_next rnd o' (itch_from_file (files path))))"

lemma run_until_all: "run_until (\<lambda>e s. (False, g e s)) es s = fold g es s"
  by (induction es arbitrary: s) simp_all

text \<open>The tool runs the capture's events through the backtester and always succeeds.\<close>

lemma backtest_main_run:
  assumes "parse_backtest strtod opts default_backtest = Inr o'" and "bo_have_locate o'"
    and "new_backtester (bo_config o') (unat (bo_capacity o')) = Inr bt0"
  shows "backtest_main rnd strtod (path # opts) files
    = Some (0, Some (bo_config o', fst (finish (fold (backtest_event rnd) (capture_events (bo_mold o') (files path)) bt0))))"
proof (cases "bo_mold o'")
  case True
  then show ?thesis
    using drive_mold [of False "\<lambda>e bt. (False, backtest_event rnd e bt)" "files path" bt0] assms
    by (auto simp: backtest_main_def backtest_connector_def run_until_all)
next
  case False
  then show ?thesis
    using drive_itch [of False "\<lambda>e bt. (False, backtest_event rnd e bt)" "files path" bt0] assms
    by (auto simp: backtest_main_def backtest_connector_def run_until_all)
qed

end
