(* ===== verification/QueueModel.thy ===== *)
theory QueueModel
  imports Features Complex_Main
begin

text \<open>
  The queue-position model of \<^verbatim>\<open>research/QueueModel.hpp\<close> for one hypothetical passive order, and the
  study \<^verbatim>\<open>itch_queue\<close> that posts such orders one after the other. \<^verbatim>\<open>ahead_\<close> is a \<^verbatim>\<open>double\<close>: it is the
  rational it denotes, and \<^verbatim>\<open>rnd\<close>, a parameter, rounds the result of each operation to the format.
\<close>

section \<open>The model\<close>

record queue_model =
  qm_side :: side
  qm_price :: price
  qm_size :: quantity
  qm_ahead :: rat
  qm_filled :: quantity
  qm_cohort :: "order_id set"
  qm_arrival_ns :: u64

definition to_double :: "(rat \<Rightarrow> rat) \<Rightarrow> quantity \<Rightarrow> rat" where
  "to_double rnd q = rnd (rat_of_nat (unat q))"

text \<open>The conversion back drops the fraction.\<close>

definition to_quantity :: "rat \<Rightarrow> quantity" where
  "to_quantity x = word_of_int \<lfloor>x\<rfloor>"

definition new_queue_model ::
  "(rat \<Rightarrow> rat) \<Rightarrow> side \<Rightarrow> price \<Rightarrow> quantity \<Rightarrow> quantity \<Rightarrow> rat \<Rightarrow> order_id set \<Rightarrow> u64 \<Rightarrow> queue_model" where
  "new_queue_model rnd sd p sz displayed_ahead multiplier cohort arrival_ns =
     \<lparr>qm_side = sd, qm_price = p, qm_size = sz, qm_ahead = rnd (to_double rnd displayed_ahead * multiplier),
      qm_filled = 0, qm_cohort = cohort, qm_arrival_ns = arrival_ns\<rparr>"

definition order_at_our_level :: "order_id \<Rightarrow> order_book \<Rightarrow> queue_model \<Rightarrow> order_view option" where
  "order_at_our_level oid book qm =
     (case find_order oid book of
       None \<Rightarrow> None
     | Some v \<Rightarrow> if ov_side v = qm_side qm \<and> ov_price v = qm_price qm then Some v else None)"

definition references_our_level :: "order_id \<Rightarrow> order_book \<Rightarrow> queue_model \<Rightarrow> bool" where
  "references_our_level oid book qm \<longleftrightarrow> order_at_our_level oid book qm \<noteq> None"

definition active :: "queue_model \<Rightarrow> bool" where
  "active qm \<longleftrightarrow> qm_filled qm < qm_size qm"

definition fully_filled :: "queue_model \<Rightarrow> bool" where
  "fully_filled qm \<longleftrightarrow> qm_filled qm \<ge> qm_size qm"

definition execute_at_level :: "(rat \<Rightarrow> rat) \<Rightarrow> quantity \<Rightarrow> queue_model \<Rightarrow> queue_model" where
  "execute_at_level rnd quantity qm =
     (let q = to_double rnd quantity;
          consumed = min q (qm_ahead qm);
          qm1 = qm\<lparr>qm_ahead := rnd (qm_ahead qm - consumed)\<rparr>;
          overflow = rnd (q - consumed)
      in if overflow > 0
         then qm1\<lparr>qm_filled := qm_filled qm1 + to_quantity (min overflow (to_double rnd (qm_size qm1 - qm_filled qm1)))\<rparr>
         else qm1)"

definition leave_queue :: "(rat \<Rightarrow> rat) \<Rightarrow> quantity \<Rightarrow> queue_model \<Rightarrow> queue_model" where
  "leave_queue rnd quantity qm = qm\<lparr>qm_ahead := max 0 (rnd (qm_ahead qm - to_double rnd quantity))\<rparr>"

definition queue_event :: "(rat \<Rightarrow> rat) \<Rightarrow> market_data_event \<Rightarrow> order_book \<Rightarrow> queue_model \<Rightarrow> queue_model" where
  "queue_event rnd e book qm =
     (if qm_filled qm \<ge> qm_size qm then qm
      else case ev_type e of
        Trade \<Rightarrow>
          if \<not> references_our_level (ev_order_id e) book qm then qm
          else execute_at_level rnd (ev_quantity e) qm
      | Reduce \<Rightarrow>
          if \<not> references_our_level (ev_order_id e) book qm then qm
          else if ev_order_id e \<in> qm_cohort qm then leave_queue rnd (ev_quantity e) qm else qm
      | Cancel \<Rightarrow>
          (case order_at_our_level (ev_order_id e) book qm of
            None \<Rightarrow> qm
          | Some v \<Rightarrow> if ev_order_id e \<in> qm_cohort qm then leave_queue rnd (ov_quantity v) qm else qm)
      | Replace \<Rightarrow>
          (case order_at_our_level (ev_order_id e) book qm of
            None \<Rightarrow> qm
          | Some v \<Rightarrow> if ev_order_id e \<in> qm_cohort qm then leave_queue rnd (ov_quantity v) qm else qm)
      | Add \<Rightarrow> qm
      | Modify \<Rightarrow> qm)"

section \<open>The study\<close>

record queue_study =
  qs_book :: order_book
  qs_active :: "queue_model option"
  qs_events_since_post :: nat
  qs_posted :: nat
  qs_full :: nat
  qs_any :: nat
  qs_events_to_full :: "nat list"

definition start_study :: "order_book \<Rightarrow> queue_study" where
  "start_study bk = \<lparr>qs_book = bk, qs_active = None, qs_events_since_post = 0, qs_posted = 0, qs_full = 0, qs_any = 0,
     qs_events_to_full = []\<rparr>"

definition resolve :: "bool \<Rightarrow> queue_model \<Rightarrow> queue_study \<Rightarrow> queue_study" where
  "resolve filled qm st =
     (let st1 = (if filled then st\<lparr>qs_full := qs_full st + 1, qs_events_to_full := qs_events_to_full st @ [qs_events_since_post st]\<rparr> else st);
          st2 = (if qm_filled qm > 0 then st1\<lparr>qs_any := qs_any st1 + 1\<rparr> else st1)
      in st2\<lparr>qs_active := None\<rparr>)"

record queue_options =
  qo_mold :: bool
  qo_locate :: "symbol_id option"
  qo_side :: side
  qo_size :: quantity
  qo_timeout :: u64
  qo_multiplier :: rat
  qo_capacity :: u64

definition react :: "(rat \<Rightarrow> rat) \<Rightarrow> queue_options \<Rightarrow> market_data_event \<Rightarrow> queue_study \<Rightarrow> queue_study" where
  "react rnd o' e st =
     (case qs_active st of
       None \<Rightarrow> st
     | Some qm \<Rightarrow>
         let qm1 = queue_event rnd e (qs_book st) qm;
             st1 = st\<lparr>qs_active := Some qm1, qs_events_since_post := qs_events_since_post st + 1\<rparr>
         in if fully_filled qm1 then resolve True qm1 st1
            else if qs_events_since_post st1 \<ge> unat (qo_timeout o') then resolve False qm1 st1
            else st1)"

text \<open>\<^verbatim>\<open>None\<close> is the walk of \<^verbatim>\<open>level_order_ids\<close> not ending.\<close>

definition post_order :: "(rat \<Rightarrow> rat) \<Rightarrow> queue_options \<Rightarrow> market_data_event \<Rightarrow> queue_study \<Rightarrow> queue_study option" where
  "post_order rnd o' e st =
     (if qs_active st \<noteq> None then Some st
      else case (if qo_side o' = Buy then best_bid (qs_book st) else best_ask (qs_book st)) of
        None \<Rightarrow> Some st
      | Some touch \<Rightarrow>
          (case level_order_ids (qo_side o') (lv_price touch) (qs_book st) of
            None \<Rightarrow> None
          | Some ids \<Rightarrow> Some (st\<lparr>qs_active := Some (new_queue_model rnd (qo_side o') (lv_price touch) (qo_size o')
                 (lv_total_quantity touch) (qo_multiplier o') (set ids) (ev_timestamp_ns e)),
               qs_events_since_post := 0, qs_posted := qs_posted st + 1\<rparr>)))"

definition study_event :: "(rat \<Rightarrow> rat) \<Rightarrow> symbol_id \<Rightarrow> queue_options \<Rightarrow> market_data_event \<Rightarrow> queue_study \<Rightarrow> queue_study option" where
  "study_event rnd locate o' e st =
     (if ev_symbol e \<noteq> locate then Some st
      else
        let st1 = react rnd o' e st;
            st2 = st1\<lparr>qs_book := snd (process_event e (qs_book st1))\<rparr>
        in post_order rnd o' e st2)"

text \<open>What is printed: the counts, both rates and the median.\<close>

record study_report =
  sr_posted :: nat
  sr_full :: nat
  sr_full_rate :: rat
  sr_any_rate :: rat
  sr_median :: nat

definition report_study :: "(rat \<Rightarrow> rat) \<Rightarrow> queue_study \<Rightarrow> study_report" where
  "report_study rnd st =
     (let any = (case qs_active st of None \<Rightarrow> qs_any st
            | Some qm \<Rightarrow> if qm_filled qm > 0 then qs_any st + 1 else qs_any st);
          sorted = sort (qs_events_to_full st);
          median = (if sorted = [] then 0 else sorted ! (length sorted div 2));
          rate = (\<lambda>x. if qs_posted st = 0 then 0 else rnd (rnd (rat_of_nat x) / rnd (rat_of_nat (qs_posted st))))
      in \<lparr>sr_posted = qs_posted st, sr_full = qs_full st, sr_full_rate = rate (qs_full st), sr_any_rate = rate any,
          sr_median = median\<rparr>)"

text \<open>\<^verbatim>\<open>strtod\<close> reads the multiplier.\<close>

definition default_queue_options :: queue_options where
  "default_queue_options = \<lparr>qo_mold = False, qo_locate = None, qo_side = Buy, qo_size = 100, qo_timeout = 1000,
     qo_multiplier = 1, qo_capacity = 262144\<rparr>"

fun parse_queue_options :: "(string \<Rightarrow> rat) \<Rightarrow> string list \<Rightarrow> queue_options \<Rightarrow> string + queue_options" where
  "parse_queue_options strtod [] o' = Inr o'"
| "parse_queue_options strtod (arg # rest) o' =
     (if arg = ''--mold'' then parse_queue_options strtod rest (o'\<lparr>qo_mold := True\<rparr>)
      else if arg = ''--locate'' \<and> rest \<noteq> [] then
        parse_queue_options strtod (tl rest) (o'\<lparr>qo_locate := Some (ucast (parse_size (hd rest) 0))\<rparr>)
      else if arg = ''--side'' \<and> rest \<noteq> [] then
        parse_queue_options strtod (tl rest) (o'\<lparr>qo_side := (if hd rest = ''sell'' then Sell else Buy)\<rparr>)
      else if arg = ''--size'' \<and> rest \<noteq> [] then
        parse_queue_options strtod (tl rest) (o'\<lparr>qo_size := parse_size (hd rest) 100\<rparr>)
      else if arg = ''--timeout'' \<and> rest \<noteq> [] then
        parse_queue_options strtod (tl rest) (o'\<lparr>qo_timeout := parse_size (hd rest) (qo_timeout o')\<rparr>)
      else if arg = ''--multiplier'' \<and> rest \<noteq> [] then
        parse_queue_options strtod (tl rest) (o'\<lparr>qo_multiplier := strtod (hd rest)\<rparr>)
      else if arg = ''--capacity'' \<and> rest \<noteq> [] then
        parse_queue_options strtod (tl rest) (o'\<lparr>qo_capacity := parse_size (hd rest) (qo_capacity o')\<rparr>)
      else Inl arg)"

definition study_handler :: "(rat \<Rightarrow> rat) \<Rightarrow> symbol_id \<Rightarrow> queue_options \<Rightarrow> market_data_event \<Rightarrow> queue_study option \<Rightarrow> bool \<times> queue_study option" where
  "study_handler rnd locate o' e st =
     (case st of
       None \<Rightarrow> (True, None)
     | Some s \<Rightarrow> (case study_event rnd locate o' e s of None \<Rightarrow> (True, None) | Some s1 \<Rightarrow> (False, Some s1)))"

definition study_connector ::
  "('c \<Rightarrow> market_data_event option \<times> 'c) \<Rightarrow> (rat \<Rightarrow> rat) \<Rightarrow> symbol_id \<Rightarrow> queue_options \<Rightarrow> 'c \<Rightarrow> (nat \<times> study_report option) option" where
  "study_connector step rnd locate o' source =
     (case new_book (unat (qo_capacity o')) of
       Inl err \<Rightarrow> Some (1, None)
     | Inr book \<Rightarrow>
         (case drive step (study_handler rnd locate o') source (Some (start_study book)) of
           None \<Rightarrow> None
         | Some (_, None) \<Rightarrow> None
         | Some (_, Some st) \<Rightarrow> Some (0, Some (report_study rnd st))))"

definition queue_main ::
  "(rat \<Rightarrow> rat) \<Rightarrow> (string \<Rightarrow> rat) \<Rightarrow> string list \<Rightarrow> (string \<Rightarrow> u8 list option) \<Rightarrow> (nat \<times> study_report option) option" where
  "queue_main rnd strtod args files =
     (case args of
       [] \<Rightarrow> Some (2, None)
     | path # opts \<Rightarrow>
         (case parse_queue_options strtod opts default_queue_options of
           Inl arg \<Rightarrow> Some (2, None)
         | Inr o' \<Rightarrow>
             (case qo_locate o' of
               None \<Rightarrow> Some (2, None)
             | Some locate \<Rightarrow>
                 if qo_mold o' then study_connector mold_next rnd locate o' (mold_connector (from_datagram_file (files path)) None)
                 else study_connector itch_next rnd locate o' (itch_from_file (files path)))))"

section \<open>Bounds of the model\<close>

text \<open>What is used of the rounding of \<^verbatim>\<open>double\<close>: it is monotone, and exact on the integers up to \<open>2 ^ 53\<close>.\<close>

definition rounding :: "(rat \<Rightarrow> rat) \<Rightarrow> bool" where
  "rounding rnd \<longleftrightarrow> (\<forall>x y. x \<le> y \<longrightarrow> rnd x \<le> rnd y) \<and> (\<forall>n. n \<le> 2 ^ 53 \<longrightarrow> rnd (rat_of_nat n) = rat_of_nat n)"

lemma rounding_mono: "rounding rnd \<Longrightarrow> x \<le> y \<Longrightarrow> rnd x \<le> rnd y"
  by (simp add: rounding_def)

lemma rounding_nat: "rounding rnd \<Longrightarrow> n \<le> 2 ^ 53 \<Longrightarrow> rnd (rat_of_nat n) = rat_of_nat n"
  by (simp add: rounding_def)

lemma rounding_zero: "rounding rnd \<Longrightarrow> rnd 0 = 0"
  using rounding_nat [of rnd 0] by simp

lemma rounding_sign: "rounding rnd \<Longrightarrow> 0 \<le> x \<Longrightarrow> 0 \<le> rnd x" "rounding rnd \<Longrightarrow> x \<le> 0 \<Longrightarrow> rnd x \<le> 0"
  using rounding_mono [of rnd 0 x] rounding_mono [of rnd x 0] rounding_zero [of rnd] by simp_all

lemma unsigned_rat [simp]: "0 \<le> (unsigned (q :: quantity) :: rat)"
  by (metis of_nat_0_le_iff of_nat_unat)

lemma to_double_nonneg: "rounding rnd \<Longrightarrow> 0 \<le> to_double rnd q"
  by (simp add: to_double_def rounding_sign)

definition queue_ok :: "queue_model \<Rightarrow> bool" where
  "queue_ok qm \<longleftrightarrow> 0 \<le> qm_ahead qm \<and> qm_filled qm \<le> qm_size qm \<and> (qm_filled qm > 0 \<longrightarrow> qm_ahead qm = 0)"

lemma to_quantity_bound:
  assumes "0 \<le> x" and "x \<le> rat_of_nat (unat r)"
  shows "to_quantity x \<le> r" and "unat (to_quantity x) = nat \<lfloor>x\<rfloor>"
proof -
  have 1: "nat \<lfloor>x\<rfloor> \<le> unat r" using assms(2) by (simp add: floor_le_iff le_floor_iff nat_le_iff)
  have 2: "to_quantity x = word_of_nat (nat \<lfloor>x\<rfloor>)" using assms(1) by (simp add: to_quantity_def)
  have "unat r < 2 ^ LENGTH(64)" by (rule unsigned_less)
  then have "nat \<lfloor>x\<rfloor> < 2 ^ 64" using 1 by simp
  then show 3: "unat (to_quantity x) = nat \<lfloor>x\<rfloor>" by (simp add: 2 unat_of_nat)
  show "to_quantity x \<le> r" using 1 3 by (simp add: word_le_nat_alt)
qed

lemma leave_ok: "rounding rnd \<Longrightarrow> queue_ok qm \<Longrightarrow> queue_ok (leave_queue rnd q qm) \<and> qm_ahead (leave_queue rnd q qm) \<le> rnd (qm_ahead qm)"
  using rounding_sign(2) [of rnd "- to_double rnd q"] to_double_nonneg [of rnd q]
    rounding_mono [of rnd "qm_ahead qm - to_double rnd q" "qm_ahead qm"] rounding_sign(1) [of rnd "qm_ahead qm"]
  by (auto simp: queue_ok_def leave_queue_def)

lemma word_add_within:
  assumes "b \<le> n" and "x \<le> n - (b :: 'a::len word)"
  shows "b + x \<le> n \<and> b \<le> b + x"
proof -
  have x: "unat x \<le> unat n - unat b" using assms(2) by (simp add: word_le_nat_alt unat_sub_le [OF assms(1)])
  have b: "unat b \<le> unat n" using assms(1) by (simp add: word_le_nat_alt)
  have n: "unat n < 2 ^ LENGTH('a)" by (rule unsigned_less)
  have "unat b + unat x < 2 ^ LENGTH('a)" using x b n by linarith
  then have "unat (b + x) = unat b + unat x" by (rule unat_add_lem [THEN iffD1])
  then show ?thesis using x b by (simp add: word_le_nat_alt)
qed

lemma execute_ok:
  assumes "rounding rnd" and "queue_ok qm" and "unat (qm_size qm) \<le> 2 ^ 53"
  shows "queue_ok (execute_at_level rnd q qm) \<and> qm_filled qm \<le> qm_filled (execute_at_level rnd q qm)"
proof -
  let ?q = "to_double rnd q"
  let ?c = "min ?q (qm_ahead qm)"
  let ?over = "rnd (?q - ?c)"
  have q: "0 \<le> ?q" by (rule to_double_nonneg [OF assms(1)])
  have a: "0 \<le> rnd (qm_ahead qm - ?c)" by (rule rounding_sign [OF assms(1)]) simp
  show ?thesis
  proof (cases "?over > 0")
    case False
    moreover have "qm_filled qm > 0 \<Longrightarrow> rnd (qm_ahead qm - ?c) = 0"
      using assms(2) q rounding_zero [OF assms(1)] by (simp add: queue_ok_def)
    ultimately show ?thesis using assms(2) a by (simp add: execute_at_level_def queue_ok_def Let_def)
  next
    case True
    let ?room = "to_double rnd (qm_size qm - qm_filled qm)"
    have le: "qm_filled qm \<le> qm_size qm" using assms(2) by (simp add: queue_ok_def)
    have small: "unat (qm_size qm - qm_filled qm) \<le> 2 ^ 53" using assms(3) by (simp add: unat_sub_le [OF le])
    have room: "?room = rat_of_nat (unat (qm_size qm - qm_filled qm))"
      unfolding to_double_def by (rule rounding_nat [OF assms(1) small])
    have "?c \<noteq> ?q" using True rounding_zero [OF assms(1)] by auto
    then have "?c = qm_ahead qm" by linarith
    then have zero: "rnd (qm_ahead qm - ?c) = 0" using rounding_zero [OF assms(1)] by simp
    have "to_quantity (min ?over ?room) \<le> qm_size qm - qm_filled qm"
      by (rule to_quantity_bound(1)) (use True room in \<open>auto simp: min_def\<close>)
    then have "qm_filled qm + to_quantity (min ?over ?room) \<le> qm_size qm" "qm_filled qm \<le> qm_filled qm + to_quantity (min ?over ?room)"
      using word_add_within [OF le] by blast+
    then show ?thesis using True zero by (simp add: execute_at_level_def queue_ok_def Let_def)
  qed
qed

lemma queue_event_ok:
  assumes "rounding rnd" and "queue_ok qm" and "unat (qm_size qm) \<le> 2 ^ 53"
  shows "queue_ok (queue_event rnd e bk qm) \<and> qm_filled qm \<le> qm_filled (queue_event rnd e bk qm)
    \<and> qm_size (queue_event rnd e bk qm) = qm_size qm"
proof -
  have sz: "qm_size (execute_at_level rnd q qm) = qm_size qm" "qm_size (leave_queue rnd q qm) = qm_size qm"
    "qm_filled (leave_queue rnd q qm) = qm_filled qm" for q
    by (simp_all add: execute_at_level_def leave_queue_def Let_def)
  show ?thesis
    using execute_ok [OF assms, of "ev_quantity e"] leave_ok [OF assms(1,2)] assms(2)
    by (cases "ev_type e") (auto simp: queue_event_def sz split: option.split)
qed

lemma queue_run_ok:
  assumes "rounding rnd" and "queue_ok qm" and "unat (qm_size qm) \<le> 2 ^ 53"
  shows "queue_ok (fold (\<lambda>(e, bk). queue_event rnd e bk) hs qm) \<and> qm_filled qm \<le> qm_filled (fold (\<lambda>(e, bk). queue_event rnd e bk) hs qm)
    \<and> qm_size (fold (\<lambda>(e, bk). queue_event rnd e bk) hs qm) = qm_size qm"
  using assms(2,3)
proof (induction hs arbitrary: qm)
  case Nil
  then show ?case by simp
next
  case (Cons h hs)
  obtain e bk where h: "h = (e, bk)" by (cases h)
  note s = queue_event_ok [OF assms(1) Cons.prems, of e bk]
  show ?case using Cons.IH [of "queue_event rnd e bk qm"] s Cons.prems(2) by (auto simp: h intro: order_trans)
qed

lemma new_queue_ok:
  assumes "rounding rnd" and "0 \<le> m"
  shows "queue_ok (new_queue_model rnd sd p sz d m cohort t)"
  using assms to_double_nonneg [OF assms(1), of d] by (simp add: queue_ok_def new_queue_model_def rounding_sign)

section \<open>The study\<close>

text \<open>
  The counts of a study: every order posted is resolved, in full or not, before the next; an order that
  filled in full did so within the timeout, and the recorded waits are those of the full fills.
\<close>

definition study_ok :: "queue_options \<Rightarrow> queue_study \<Rightarrow> bool" where
  "study_ok o' st \<longleftrightarrow> length (qs_events_to_full st) = qs_full st
     \<and> (let resolved = qs_posted st - (if qs_active st = None then 0 else 1)
        in qs_full st \<le> resolved \<and> qs_any st \<le> resolved)
     \<and> (qs_active st \<noteq> None \<longrightarrow> qs_posted st > 0 \<and> qs_events_since_post st < max 1 (unat (qo_timeout o')))
     \<and> (qo_size o' > 0 \<longrightarrow> qs_full st \<le> qs_any st)
     \<and> (\<forall>qm. qs_active st = Some qm \<longrightarrow> qm_size qm = qo_size o')
     \<and> (\<forall>k \<in> set (qs_events_to_full st). 1 \<le> k \<and> k \<le> max 1 (unat (qo_timeout o')))"

lemma queue_event_size: "qm_size (queue_event rnd e bk qm) = qm_size qm"
  by (simp add: queue_event_def execute_at_level_def leave_queue_def Let_def split: event_type.split option.split)

lemma react_ok:
  assumes "study_ok o' st"
  shows "study_ok o' (react rnd o' e st)"
proof (cases "qs_active st")
  case None
  then show ?thesis using assms by (simp add: react_def)
next
  case (Some qm)
  let ?qm = "queue_event rnd e (qs_book st) qm"
  have sz: "qm_size ?qm = qo_size o'" using assms Some by (simp add: queue_event_size study_ok_def)
  have p: "qs_posted st > 0" "qs_events_since_post st < max 1 (unat (qo_timeout o'))"
    "qs_full st < qs_posted st" "qs_any st < qs_posted st"
    using assms Some by (auto simp: study_ok_def Let_def)
  have any: "qo_size o' > 0 \<Longrightarrow> fully_filled ?qm \<Longrightarrow> qm_filled ?qm > 0" by (simp add: fully_filled_def sz)
  show ?thesis
    using assms p any Some sz
    by (auto simp: react_def resolve_def study_ok_def Let_def max_def split: if_splits)
qed

text \<open>The study along the events of its symbol, as long as the level index has room for the levels they may open.\<close>

lemma post_order_ok:
  assumes "book_ok (qs_book st)" and "study_ok o' st"
  shows "\<exists>st1. post_order rnd o' e st = Some st1 \<and> study_ok o' st1 \<and> qs_book st1 = qs_book st \<and> qs_posted st1 \<le> qs_posted st + 1"
proof (cases "qs_active st = None \<and> (if qo_side o' = Buy then best_bid (qs_book st) else best_ask (qs_book st)) \<noteq> None")
  case True
  then obtain touch where t: "(if qo_side o' = Buy then best_bid (qs_book st) else best_ask (qs_book st)) = Some touch" by blast
  note ids = level_order_ids_total [OF book_okD(1) [OF assms(1)], of "qo_side o'" "lv_price touch"]
  show ?thesis
    using assms(2) True
    by (simp only: post_order_def t ids option.case if_False if_True not_True_eq_False)
      (simp add: study_ok_def Let_def new_queue_model_def)
next
  case False
  then have "post_order rnd o' e st = Some st" by (auto simp: post_order_def)
  then show ?thesis using assms(2) by simp
qed

lemma react_frame: "qs_book (react rnd o' e st) = qs_book st" "qs_posted (react rnd o' e st) = qs_posted st"
  by (simp_all add: react_def resolve_def Let_def split: option.split)

lemma study_event_ok:
  assumes "ev_symbol e = locate" and "study_ok o' st" and "book_ok (snd (process_event e (qs_book st)))"
  shows "\<exists>st1. study_event rnd locate o' e st = Some st1 \<and> study_ok o' st1
    \<and> qs_book st1 = snd (process_event e (qs_book st)) \<and> qs_posted st1 \<le> qs_posted st + 1"
proof -
  let ?st = "react rnd o' e st\<lparr>qs_book := snd (process_event e (qs_book (react rnd o' e st)))\<rparr>"
  have ok: "study_ok o' ?st" using react_ok [OF assms(2), of rnd e] by (simp add: study_ok_def)
  have bk: "book_ok (qs_book ?st)" using assms(3) by (simp add: react_frame)
  from post_order_ok [OF bk ok, of rnd e] show ?thesis
    using assms(1) by (simp add: study_event_def react_frame Let_def)
qed

lemma study_run:
  assumes "study_ok o' st" and "\<forall>k. book_ok (snd (process_events (take k (of_symbol locate es)) (qs_book st)))"
  shows "\<exists>st1. run_until (study_handler rnd locate o') es (Some st) = Some st1 \<and> study_ok o' st1
    \<and> qs_book st1 = snd (process_events (of_symbol locate es) (qs_book st))
    \<and> qs_posted st1 \<le> qs_posted st + length (of_symbol locate es)"
  using assms
proof (induction es arbitrary: st)
  case Nil
  then show ?case by (simp add: of_symbol_def)
next
  case (Cons e es)
  show ?case
  proof (cases "ev_symbol e = locate")
    case False
    then have "of_symbol locate (e # es) = of_symbol locate es"
      "run_until (study_handler rnd locate o') (e # es) (Some st) = run_until (study_handler rnd locate o') es (Some st)"
      by (simp_all add: of_symbol_def study_handler_def study_event_def)
    then show ?thesis using Cons.IH [OF Cons.prems(1)] Cons.prems(2) by simp
  next
    case True
    then have sym: "of_symbol locate (e # es) = e # of_symbol locate es" by (simp add: of_symbol_def)
    have ok: "book_ok (snd (process_events (take k (of_symbol locate es)) (snd (process_event e (qs_book st)))))" for k
      using Cons.prems(2) [rule_format, of "Suc k"] by (simp add: sym process_events_Cons split_beta)
    from study_event_ok [OF True Cons.prems(1) ok [of 0, simplified], of rnd] obtain st1
      where st1: "study_event rnd locate o' e st = Some st1" "study_ok o' st1"
        "qs_book st1 = snd (process_event e (qs_book st))" "qs_posted st1 \<le> qs_posted st + 1" by blast
    have run: "run_until (study_handler rnd locate o') (e # es) (Some st) = run_until (study_handler rnd locate o') es (Some st1)"
      by (simp add: study_handler_def st1(1))
    from Cons.IH [OF st1(2)] ok obtain st2 where "run_until (study_handler rnd locate o') es (Some st1) = Some st2"
      "study_ok o' st2" "qs_book st2 = snd (process_events (of_symbol locate es) (qs_book st1))"
      "qs_posted st2 \<le> qs_posted st1 + length (of_symbol locate es)" by (auto simp: st1(3))
    then show ?thesis unfolding run using st1(3,4) by (simp add: sym process_events_Cons split_beta)
  qed
qed

lemma rates_ordered:
  assumes "rounding rnd" and "a \<le> b" and "b \<le> n" and "n > 0"
  shows "0 \<le> rnd (rnd (rat_of_nat a) / rnd (rat_of_nat n))"
    and "rnd (rnd (rat_of_nat a) / rnd (rat_of_nat n)) \<le> rnd (rnd (rat_of_nat b) / rnd (rat_of_nat n))"
    and "rnd (rnd (rat_of_nat b) / rnd (rat_of_nat n)) \<le> 1"
proof -
  have one: "rnd 1 = 1" using rounding_nat [OF assms(1), of 1] by simp
  then have n: "rnd (rat_of_nat n) \<ge> 1" using rounding_mono [OF assms(1), of 1 "rat_of_nat n"] assms(4) by simp
  have a: "0 \<le> rnd (rat_of_nat a)" by (rule rounding_sign(1) [OF assms(1)]) simp
  have b: "rnd (rat_of_nat a) \<le> rnd (rat_of_nat b)" "rnd (rat_of_nat b) \<le> rnd (rat_of_nat n)"
    using assms by (simp_all add: rounding_mono)
  show "0 \<le> rnd (rnd (rat_of_nat a) / rnd (rat_of_nat n))"
    by (rule rounding_sign(1) [OF assms(1)]) (use a n in simp)
  show "rnd (rnd (rat_of_nat a) / rnd (rat_of_nat n)) \<le> rnd (rnd (rat_of_nat b) / rnd (rat_of_nat n))"
    by (rule rounding_mono [OF assms(1)]) (use b n in \<open>simp add: divide_right_mono\<close>)
  have "rnd (rnd (rat_of_nat b) / rnd (rat_of_nat n)) \<le> rnd 1"
    by (rule rounding_mono [OF assms(1)]) (use b n in simp)
  then show "rnd (rnd (rat_of_nat b) / rnd (rat_of_nat n)) \<le> 1" unfolding one .
qed

lemma report_study_ok:
  assumes "rounding rnd" and "study_ok o' st"
  defines "r \<equiv> report_study rnd st"
  shows "sr_posted r \<le> qs_posted st \<and> sr_full r \<le> sr_posted r \<and> 0 \<le> sr_full_rate r \<and> sr_full_rate r \<le> 1 \<and> sr_any_rate r \<le> 1
    \<and> (qo_size o' > 0 \<longrightarrow> sr_full_rate r \<le> sr_any_rate r)
    \<and> (if sr_full r = 0 then sr_median r = 0 else 1 \<le> sr_median r \<and> sr_median r \<le> max 1 (unat (qo_timeout o')))"
proof -
  define any where "any = (case qs_active st of None \<Rightarrow> qs_any st | Some qm \<Rightarrow> if qm_filled qm > 0 then qs_any st + 1 else qs_any st)"
  have c: "qs_full st \<le> qs_posted st" "any \<le> qs_posted st" "qo_size o' > 0 \<Longrightarrow> qs_full st \<le> any"
    "length (qs_events_to_full st) = qs_full st"
    "\<forall>k \<in> set (qs_events_to_full st). 1 \<le> k \<and> k \<le> max 1 (unat (qo_timeout o'))"
    using assms(2) by (auto simp: study_ok_def any_def Let_def split: option.split)
  have med: "if qs_full st = 0 then sr_median r = 0 else sr_median r \<in> set (qs_events_to_full st)"
  proof (cases "qs_full st = 0")
    case True
    then have "qs_events_to_full st = []" using c(4) by simp
    then show ?thesis using True by (simp add: r_def report_study_def Let_def)
  next
    case False
    let ?s = "sort (qs_events_to_full st)"
    have "length ?s = qs_full st" using c(4) by simp
    then have "length ?s > 0" using False by linarith
    then have "?s \<noteq> []" by (simp only: length_greater_0_conv not_False_eq_True)
    have "length ?s div 2 < length ?s" using \<open>length ?s > 0\<close> by linarith
    then have "?s ! (length ?s div 2) \<in> set ?s" by (rule nth_mem)
    then show ?thesis using False \<open>?s \<noteq> []\<close> by (simp add: r_def report_study_def Let_def)
  qed
  have f: "sr_posted r = qs_posted st" "sr_full r = qs_full st"
    by (simp_all add: r_def report_study_def Let_def)
  have rates: "0 \<le> sr_full_rate r \<and> sr_full_rate r \<le> 1 \<and> sr_any_rate r \<le> 1 \<and> (qo_size o' > 0 \<longrightarrow> sr_full_rate r \<le> sr_any_rate r)"
  proof (cases "qs_posted st = 0")
    case True
    then show ?thesis by (simp add: r_def report_study_def Let_def)
  next
    case False
    then have n: "qs_posted st > 0" by simp
    have "sr_full_rate r = rnd (rnd (rat_of_nat (qs_full st)) / rnd (rat_of_nat (qs_posted st)))"
      "sr_any_rate r = rnd (rnd (rat_of_nat any) / rnd (rat_of_nat (qs_posted st)))"
      using n by (simp_all add: r_def report_study_def Let_def any_def)
    then show ?thesis
      using rates_ordered(1,3) [OF assms(1) order_refl c(1) n] rates_ordered(3) [OF assms(1) order_refl c(2) n]
        rates_ordered(2) [OF assms(1) c(3) c(2) n] by simp
  qed
  show ?thesis using f rates med c(1,5) by (auto split: if_splits)
qed

text \<open>The whole run over the events of a capture.\<close>

lemma few_prefix: "length (filter P (take k xs)) \<le> length (filter P xs)"
proof -
  have "length (filter P (take k xs)) \<le> length (filter P (take k xs @ drop k xs))"
    by (simp only: filter_append length_append le_add1)
  then show ?thesis by (simp only: append_take_drop_id)
qed

lemma study_from_start:
  assumes "new_book n = Inr bk" and "length (filter may_open_level (of_symbol locate all)) \<le> 2 * n"
  shows "\<exists>st. run_until (study_handler rnd locate o') all (Some (start_study bk)) = Some st \<and> study_ok o' st
    \<and> qs_posted st \<le> length (of_symbol locate all)"
proof -
  let ?es = "of_symbol locate all"
  note init = new_book_ok [OF assms(1)]
  have room: "2 * n \<le> level_empties (level_lookup bk)"
    unfolding init(4) using next_power_of_two_ge [of "n * 2"] by linarith
  have "length (filter may_open_level (take k ?es)) \<le> length (filter may_open_level ?es)" for k
    by (rule few_prefix)
  then have "length (filter may_open_level (take k ?es)) \<le> level_empties (level_lookup bk)" for k
    by (rule order_trans [OF order_trans [OF _ assms(2)] room])
  then have ok: "\<forall>k. book_ok (snd (process_events (take k ?es) (qs_book (start_study bk))))"
    by (simp add: start_study_def process_events_refines(3) [OF init(1)])
  have "study_ok o' (start_study bk)" by (simp add: study_ok_def start_study_def)
  from study_run [OF this ok, of rnd] show ?thesis unfolding start_study_def queue_study.select_convs add_0 by blast
qed

section \<open>Properties\<close>

text \<open>
  The study over a capture: the tool ends and reports with exit code 0, whatever became of the stream,
  as long as the symbol's events cannot open more levels than the level index has slots. At most one order
  is posted for each event of the symbol, the full fills are among the posted orders, both rates lie
  between 0 and 1, the rate of full fills is at most the rate of fills unless the size is 0, and the median
  wait of the full fills is within the timeout.
\<close>

theorem queue_study_counts:
  assumes "rounding rnd" and "parse_queue_options strtod opts default_queue_options = Inr o'"
    and "qo_locate o' = Some locate" and "valid_capacity (unat (qo_capacity o'))"
    and "es = of_symbol locate (capture_events (qo_mold o') (files path))"
    and "length (filter may_open_level es) \<le> 2 * unat (qo_capacity o')"
  shows "\<exists>r. queue_main rnd strtod (path # opts) files = Some (0, Some r)
    \<and> sr_posted r \<le> length es \<and> sr_full r \<le> sr_posted r \<and> 0 \<le> sr_full_rate r \<and> sr_full_rate r \<le> 1 \<and> sr_any_rate r \<le> 1
    \<and> (qo_size o' > 0 \<longrightarrow> sr_full_rate r \<le> sr_any_rate r)
    \<and> (if sr_full r = 0 then sr_median r = 0 else 1 \<le> sr_median r \<and> sr_median r \<le> max 1 (unat (qo_timeout o')))"
proof -
  let ?all = "capture_events (qo_mold o') (files path)" and ?h = "study_handler rnd locate o'"
  obtain bk where new: "new_book (unat (qo_capacity o')) = Inr bk" using valid_new_book [OF assms(4)] by blast
  obtain st where st: "run_until ?h ?all (Some (start_study bk)) = Some st" "study_ok o' st" "qs_posted st \<le> length es"
    using study_from_start [OF new assms(6) [unfolded assms(5)], of rnd o'] unfolding assms(5) by blast
  have "queue_main rnd strtod (path # opts) files = Some (0, Some (report_study rnd st))"
  proof (cases "qo_mold o'")
    case True
    then obtain c1 where "drive mold_next ?h (mold_connector (from_datagram_file (files path)) None) (Some (start_study bk)) = Some (c1, Some st)"
      using drive_mold [of False ?h "files path" "Some (start_study bk)"] st(1) by auto
    then show ?thesis using True assms(2,3) new by (simp add: queue_main_def study_connector_def)
  next
    case False
    then obtain c1 where "drive itch_next ?h (itch_from_file (files path)) (Some (start_study bk)) = Some (c1, Some st)"
      using drive_itch [of False ?h "files path" "Some (start_study bk)"] st(1) by auto
    then show ?thesis using False assms(2,3) new by (simp add: queue_main_def study_connector_def)
  qed
  then show ?thesis
    using conjunct2 [OF report_study_ok [OF assms(1) st(2)]] order_trans [OF conjunct1 [OF report_study_ok [OF assms(1) st(2)]] st(3)]
    by (intro exI [of _ "report_study rnd st"]) (rule conjI, assumption, rule conjI, assumption, assumption)
qed

text \<open>The sample capture.\<close>

lemma queue_study_counts_witness:
  "\<exists>r. queue_main id (\<lambda>_. 1) [''day.itch'', ''--locate'', ''7''] (\<lambda>_. Some sample_capture) = Some (0, Some r)
    \<and> sr_posted r \<le> 3 \<and> sr_full r \<le> sr_posted r \<and> sr_full_rate r \<le> sr_any_rate r"
proof -
  let ?o = "default_queue_options\<lparr>qo_locate := Some 7\<rparr>"
  have "parse_size ''7'' 0 = 7"
    by (simp add: parse_size_def from_chars_u64_def from_chars_below_def is_digit_def digits_value_def digit_value_def)
  then have p: "parse_queue_options (\<lambda>_. 1) [''--locate'', ''7''] default_queue_options = Inr ?o" by simp
  have r: "rounding id" by (simp add: rounding_def)
  have o': "qo_locate ?o = Some 7" "valid_capacity (unat (qo_capacity ?o))" "qo_size ?o > 0" "\<not> qo_mold ?o"
    by (simp_all add: default_queue_options_def valid_capacity_def npos_def)
  have es: "sample_stream = of_symbol 7 (capture_events (qo_mold ?o) (Some sample_capture))"
    using o'(4) by (simp add: sample_capture_events of_symbol_def sample_stream_def)
  have few: "length (filter may_open_level sample_stream) \<le> 2 * unat (qo_capacity ?o)" "length sample_stream = 3"
    by (simp_all add: sample_stream_def may_open_level_def default_queue_options_def)
  show ?thesis using queue_study_counts [OF r p o'(1,2) es few(1), of "''day.itch''"] o'(3) few(2) by auto
qed

end
