(* ===== verification/QueueExact.thy ===== *)
theory QueueExact
  imports QueueModel MatchProps
begin

text \<open>
  The displayed queue model (multiplier 1) against the book itself: \<^verbatim>\<open>ahead_\<close> is what still rests of the
  orders that were displayed at the level when the order was posted, as long as the feed is one of a
  price-time market: its events are accepted, ids are not used again, and executions at the level hit its
  first order.
\<close>

section \<open>What rests of a cohort\<close>

definition displayed_ahead :: "order_id set \<Rightarrow> side \<Rightarrow> price \<Rightarrow> order_book \<Rightarrow> nat" where
  "displayed_ahead C sd p bk =
     sum_list (map (\<lambda>oid. case find_order oid bk of None \<Rightarrow> 0 | Some v \<Rightarrow> unat (ov_quantity v))
       (filter (\<lambda>oid. oid \<in> C) (queue_ids bk sd p)))"

definition fair_event :: "order_id set \<Rightarrow> side \<Rightarrow> price \<Rightarrow> market_data_event \<Rightarrow> order_book \<Rightarrow> bool" where
  "fair_event C sd p e bk \<longleftrightarrow> fst (process_event e bk) = Applied \<and>
     (case ev_type e of
        Add \<Rightarrow> ev_order_id e \<notin> C
      | Replace \<Rightarrow> ev_new_order_id e \<notin> C
      | Trade \<Rightarrow> ev_order_id e \<in> set (queue_ids bk sd p) \<longrightarrow> hd (queue_ids bk sd p) = ev_order_id e
      | Modify \<Rightarrow> False
      | Reduce \<Rightarrow> True
      | Cancel \<Rightarrow> True)"

fun fair_run :: "order_id set \<Rightarrow> side \<Rightarrow> price \<Rightarrow> market_data_event list \<Rightarrow> order_book \<Rightarrow> bool" where
  "fair_run C sd p [] bk \<longleftrightarrow> True"
| "fair_run C sd p (e # es) bk \<longleftrightarrow> fair_event C sd p e bk \<and> fair_run C sd p es (snd (process_event e bk))"

text \<open>The model and the book, each event seen by the model first.\<close>

fun follow :: "(rat \<Rightarrow> rat) \<Rightarrow> market_data_event list \<Rightarrow> queue_model \<times> order_book \<Rightarrow> queue_model \<times> order_book" where
  "follow rnd [] s = s"
| "follow rnd (e # es) (qm, bk) = follow rnd es (queue_event rnd e bk qm, snd (process_event e bk))"

section \<open>On the specification\<close>

definition rest_qty :: "spec_book \<Rightarrow> order_id \<Rightarrow> nat" where
  "rest_qty s oid = (case sb_orders s oid of None \<Rightarrow> 0 | Some v \<Rightarrow> unat (ov_quantity v))"

definition ahead_ids :: "order_id set \<Rightarrow> side \<Rightarrow> price \<Rightarrow> spec_book \<Rightarrow> order_id set" where
  "ahead_ids C sd p s = {oid \<in> C. \<exists>v. sb_orders s oid = Some v \<and> ov_side v = sd \<and> ov_price v = p}"

definition ahead_sum :: "order_id set \<Rightarrow> side \<Rightarrow> price \<Rightarrow> spec_book \<Rightarrow> nat" where
  "ahead_sum C sd p s = sum (rest_qty s) (ahead_ids C sd p s)"

definition cohort_first :: "order_id set \<Rightarrow> side \<Rightarrow> price \<Rightarrow> spec_book \<Rightarrow> bool" where
  "cohort_first C sd p s \<longleftrightarrow> (\<exists>xs ys. sb_queue s sd p = xs @ ys \<and> set xs \<subseteq> C \<and> set ys \<inter> C = {})"

lemma ahead_ids_queue: "spec_ok s \<Longrightarrow> ahead_ids C sd p s = {oid \<in> set (sb_queue s sd p). oid \<in> C}"
  using spec_okD(4,6) [of s] by (fastforce simp: ahead_ids_def)

lemma ahead_ids_finite: "spec_ok s \<Longrightarrow> finite (ahead_ids C sd p s)"
  by (simp add: ahead_ids_queue)

lemma displayed_ahead_sum:
  assumes "book_ok bk"
  shows "displayed_ahead C sd p bk = ahead_sum C sd p (abs_book bk)"
proof -
  note ok = book_spec_ok [OF assms]
  have "distinct (filter (\<lambda>oid. oid \<in> C) (queue_ids bk sd p))" using spec_okD(5) [OF ok, of sd p] by simp
  then show ?thesis
    by (simp add: displayed_ahead_def ahead_sum_def ahead_ids_queue [OF ok] sum_list_distinct_conv_sum_set rest_qty_def [abs_def])
qed

text \<open>The three ways an event changes the order map.\<close>

lemma ahead_sum_other:
  assumes "oid \<notin> C" and "\<And>i. i \<noteq> oid \<Longrightarrow> sb_orders s1 i = sb_orders s i"
  shows "ahead_sum C sd p s1 = ahead_sum C sd p s"
proof -
  have "sb_orders s1 i = sb_orders s i" if "i \<in> C" for i using assms that by metis
  then show ?thesis by (auto simp: ahead_sum_def ahead_ids_def rest_qty_def intro: sum.cong)
qed

lemma ahead_sum_split:
  assumes "spec_ok s" and "oid \<in> ahead_ids C sd p s"
  shows "ahead_sum C sd p s = rest_qty s oid + sum (rest_qty s) (ahead_ids C sd p s - {oid})"
  unfolding ahead_sum_def by (rule sum.remove [OF ahead_ids_finite [OF assms(1)] assms(2)])

lemma ahead_sum_gone:
  assumes "spec_ok s" and "sb_orders s1 = (sb_orders s)(oid := None)"
  shows "ahead_sum C sd p s = ahead_sum C sd p s1 + (if oid \<in> ahead_ids C sd p s then rest_qty s oid else 0)"
proof -
  have "ahead_sum C sd p s1 = sum (rest_qty s) (ahead_ids C sd p s - {oid})"
    unfolding ahead_sum_def by (rule sum.cong) (auto simp: ahead_ids_def rest_qty_def assms(2))
  then show ?thesis using ahead_sum_split [OF assms(1)] by (auto simp: ahead_sum_def)
qed

lemma ahead_sum_less:
  assumes "spec_ok s" and v: "sb_orders s oid = Some v" and "q \<le> ov_quantity v"
    and s1: "sb_orders s1 = (sb_orders s)(oid \<mapsto> v\<lparr>ov_quantity := ov_quantity v - q\<rparr>)"
  shows "ahead_sum C sd p s = ahead_sum C sd p s1 + (if oid \<in> ahead_ids C sd p s then unat q else 0)"
proof -
  have ids: "ahead_ids C sd p s1 = ahead_ids C sd p s" by (auto simp: ahead_ids_def s1 v)
  have other: "sum (rest_qty s1) (ahead_ids C sd p s - {oid}) = sum (rest_qty s) (ahead_ids C sd p s - {oid})"
    by (rule sum.cong) (auto simp: rest_qty_def s1)
  have "unat q \<le> unat (ov_quantity v)" using assms(3) by (simp add: word_le_nat_alt)
  then have q: "rest_qty s oid = rest_qty s1 oid + unat q"
    by (simp add: rest_qty_def v s1 unat_sub_le [OF assms(3)])
  show ?thesis
  proof (cases "oid \<in> ahead_ids C sd p s")
    case True
    have "ahead_sum C sd p s1 = rest_qty s1 oid + sum (rest_qty s) (ahead_ids C sd p s - {oid})"
      unfolding ahead_sum_def ids sum.remove [OF ahead_ids_finite [OF assms(1)] True, of "rest_qty s1"] other ..
    then show ?thesis using True ahead_sum_split [OF assms(1) True] q by simp
  next
    case False
    then have "ahead_ids C sd p s - {oid} = ahead_ids C sd p s" by blast
    then show ?thesis using False other by (simp add: ahead_sum_def ids)
  qed
qed

text \<open>What leaves the cohort's share of the level with an event.\<close>

definition leaving :: "order_id set \<Rightarrow> side \<Rightarrow> price \<Rightarrow> market_data_event \<Rightarrow> spec_book \<Rightarrow> nat" where
  "leaving C sd p e s =
     (if ev_order_id e \<notin> ahead_ids C sd p s then 0
      else case ev_type e of
        Trade \<Rightarrow> unat (ev_quantity e)
      | Reduce \<Rightarrow> unat (ev_quantity e)
      | Cancel \<Rightarrow> rest_qty s (ev_order_id e)
      | Replace \<Rightarrow> rest_qty s (ev_order_id e)
      | Add \<Rightarrow> 0
      | Modify \<Rightarrow> 0)"

lemma trade_ahead:
  assumes "spec_ok s" and "spec_trade oid q s = (Applied, s1)"
  shows "ahead_sum C sd p s = ahead_sum C sd p s1 + (if oid \<in> ahead_ids C sd p s then unat q else 0)"
proof -
  obtain v where v: "sb_orders s oid = Some v" "q \<le> ov_quantity v"
    using assms(2) by (auto simp: spec_trade_def split: if_splits option.splits)
  show ?thesis
  proof (cases "q = ov_quantity v")
    case True
    then have "sb_orders s1 = (sb_orders s)(oid := None)"
      using assms(2) v by (auto simp: spec_trade_def spec_cancel_def split: if_splits)
    from ahead_sum_gone [OF assms(1) this] show ?thesis by (simp add: rest_qty_def v True)
  next
    case False
    then have "sb_orders s1 = (sb_orders s)(oid \<mapsto> v\<lparr>ov_quantity := ov_quantity v - q\<rparr>)"
      using assms(2) v by (auto simp: spec_trade_def split: if_splits)
    from ahead_sum_less [OF assms(1) v this] show ?thesis .
  qed
qed

lemma rest_ahead:
  assumes "spec_rest cap oid sd' p' q s = (Applied, s1)" and "oid \<notin> C"
  shows "ahead_sum C sd p s1 = ahead_sum C sd p s"
  by (rule ahead_sum_other [OF assms(2)]) (use assms(1) in \<open>auto simp: spec_rest_def split: if_splits\<close>)

lemma cancel_ahead:
  assumes "spec_ok s" and "spec_cancel oid s = (Applied, s1)"
  shows "ahead_sum C sd p s = ahead_sum C sd p s1 + (if oid \<in> ahead_ids C sd p s then rest_qty s oid else 0)"
  by (rule ahead_sum_gone [OF assms(1)]) (use assms(2) in \<open>auto simp: spec_cancel_def split: option.splits\<close>)

lemma ahead_step:
  assumes "spec_ok s" and "spec_event cap e s = (Applied, s1)" and "ev_type e \<noteq> Modify"
    and "ev_type e = Add \<Longrightarrow> ev_order_id e \<notin> C" and "ev_type e = Replace \<Longrightarrow> ev_new_order_id e \<notin> C"
  shows "ahead_sum C sd p s = ahead_sum C sd p s1 + leaving C sd p e s"
proof (cases "ev_type e")
  case Replace
  obtain r s2 where c: "spec_cancel (ev_order_id e) s = (r, s2)" by fastforce
  have "r = Applied" and rest: "\<exists>sd'. spec_rest cap (ev_new_order_id e) sd' (ev_price e) (ev_quantity e) s2 = (Applied, s1)"
    using assms(2) Replace c by (auto simp: spec_event_def spec_replace_def spec_cancel_def split: if_splits option.splits)
  from rest obtain sd' where "spec_rest cap (ev_new_order_id e) sd' (ev_price e) (ev_quantity e) s2 = (Applied, s1)" ..
  from rest_ahead [OF this assms(5) [OF Replace], of sd p] cancel_ahead [OF assms(1) c [unfolded \<open>r = Applied\<close>], of C sd p]
  show ?thesis using Replace by (simp add: leaving_def)
next
  case Add
  then show ?thesis using rest_ahead assms(2,4) by (auto simp: spec_event_def leaving_def)
next
  case Cancel
  then show ?thesis using cancel_ahead [OF assms(1)] assms(2) by (simp add: spec_event_def leaving_def)
next
  case Trade
  then show ?thesis using trade_ahead [OF assms(1)] assms(2) by (simp add: spec_event_def leaving_def)
next
  case Reduce
  then show ?thesis using trade_ahead [OF assms(1)] assms(2) by (simp add: spec_event_def leaving_def)
qed (use assms(3) in simp)

text \<open>The cohort stays in front.\<close>

lemma cohort_first_queue:
  assumes "cohort_first C sd p s"
    and "sb_queue s1 sd p = sb_queue s sd p \<or> sb_queue s1 sd p = remove1 oid (sb_queue s sd p)"
  shows "cohort_first C sd p s1"
proof -
  obtain xs ys where q: "sb_queue s sd p = xs @ ys" "set xs \<subseteq> C" "set ys \<inter> C = {}"
    using assms(1) by (auto simp: cohort_first_def)
  show ?thesis
  proof (cases "sb_queue s1 sd p = sb_queue s sd p")
    case True
    then show ?thesis using assms(1) by (simp add: cohort_first_def)
  next
    case False
    then have "sb_queue s1 sd p = (if oid \<in> set xs then remove1 oid xs @ ys else xs @ remove1 oid ys)"
      using assms(2) q(1) by (simp add: remove1_append)
    moreover have "set (remove1 oid xs) \<subseteq> C" "set (remove1 oid ys) \<inter> C = {}"
      using q(2,3) set_remove1_subset [of oid xs] set_remove1_subset [of oid ys] by blast+
    ultimately show ?thesis using q(2,3) unfolding cohort_first_def by metis
  qed
qed

lemma cohort_first_cancel:
  "cohort_first C sd p s \<Longrightarrow> cohort_first C sd p (snd (spec_cancel oid s))"
  by (rule cohort_first_queue [where oid = oid])
    (auto simp: spec_cancel_def set_queue_def split: option.split)

lemma cohort_first_trade: "cohort_first C sd p s \<Longrightarrow> cohort_first C sd p (snd (spec_trade oid q s))"
  using cohort_first_cancel [of C sd p s oid] by (auto simp: spec_trade_def cohort_first_def split: option.split)

lemma cohort_first_rest:
  assumes "cohort_first C sd p s" and "oid \<notin> C"
  shows "cohort_first C sd p (snd (spec_rest cap oid sd' p' q s))"
proof -
  obtain xs ys where q: "sb_queue s sd p = xs @ ys" "set xs \<subseteq> C" "set ys \<inter> C = {}"
    using assms(1) by (auto simp: cohort_first_def)
  show ?thesis
  proof (cases "sb_queue (snd (spec_rest cap oid sd' p' q s)) sd p = sb_queue s sd p")
    case True
    then show ?thesis using assms(1) by (simp add: cohort_first_def)
  next
    case False
    moreover have "sb_queue (snd (spec_rest cap oid sd' p' q s)) sd p \<in> {sb_queue s sd p, sb_queue s sd p @ [oid]}"
      by (auto simp: spec_rest_def set_queue_def)
    ultimately have "sb_queue (snd (spec_rest cap oid sd' p' q s)) sd p = xs @ ys @ [oid]" by (simp add: q(1))
    moreover have "set (ys @ [oid]) \<inter> C = {}" using q(3) assms(2) by simp
    ultimately show ?thesis using q(2) unfolding cohort_first_def by blast
  qed
qed

lemma cohort_step:
  assumes "cohort_first C sd p s" and "ev_type e \<noteq> Modify"
    and "ev_type e = Add \<Longrightarrow> ev_order_id e \<notin> C" and "ev_type e = Replace \<Longrightarrow> ev_new_order_id e \<notin> C"
  shows "cohort_first C sd p (snd (spec_event cap e s))"
proof (cases "ev_type e")
  case Replace
  note r = cohort_first_rest [OF cohort_first_cancel [OF assms(1)] assms(4) [OF Replace]]
  show ?thesis using r assms(1) Replace by (simp add: spec_event_def spec_replace_def split: option.split)
qed (use assms cohort_first_cancel [OF assms(1)] cohort_first_trade [OF assms(1)] cohort_first_rest [OF assms(1)]
  in \<open>simp_all add: spec_event_def\<close>)

section \<open>One event\<close>

lemma to_double_exact: "rounding rnd \<Longrightarrow> unat q \<le> 2 ^ 53 \<Longrightarrow> to_double rnd q = rat_of_nat (unat q)"
  unfolding to_double_def by (rule rounding_nat)

lemma leave_exact:
  assumes "rounding rnd" and "qm_ahead qm = rat_of_nat n" and "n \<le> 2 ^ 53" and "unat q \<le> n"
  shows "qm_ahead (leave_queue rnd q qm) = rat_of_nat (n - unat q)"
proof -
  have "rat_of_nat n - to_double rnd q = rat_of_nat (n - unat q)"
    using to_double_exact [OF assms(1), of q] assms(3,4) by (simp add: of_nat_diff)
  moreover have "rnd (rat_of_nat (n - unat q)) = rat_of_nat (n - unat q)"
    using assms(3) by (intro rounding_nat [OF assms(1)]) simp
  ultimately show ?thesis by (simp add: leave_queue_def assms(2))
qed

lemma execute_exact:
  assumes "rounding rnd" and "qm_ahead qm = rat_of_nat n" and "n \<le> 2 ^ 53" and "unat q \<le> n \<or> n = 0"
  shows "qm_ahead (execute_at_level rnd q qm) = rat_of_nat (n - unat q)"
proof (cases "n = 0")
  case True
  then show ?thesis
    using to_double_nonneg [OF assms(1), of q] rounding_zero [OF assms(1)]
    by (simp add: execute_at_level_def assms(2) Let_def)
next
  case False
  then have "unat q \<le> n" using assms(4) by simp
  then have q: "to_double rnd q = rat_of_nat (unat q)" using assms(3) by (intro to_double_exact [OF assms(1)]) simp
  have "rnd (rat_of_nat (n - unat q)) = rat_of_nat (n - unat q)"
    using assms(3) by (intro rounding_nat [OF assms(1)]) simp
  moreover have "rat_of_nat n - min (rat_of_nat (unat q)) (rat_of_nat n) = rat_of_nat (n - unat q)"
    by (simp only: min_absorb1 [OF of_nat_mono [OF \<open>unat q \<le> n\<close>]] of_nat_diff [OF \<open>unat q \<le> n\<close>])
  moreover have "qm_ahead (execute_at_level rnd q qm) = rnd (rat_of_nat n - min (rat_of_nat (unat q)) (rat_of_nat n))"
    unfolding execute_at_level_def Let_def assms(2) q by simp
  ultimately show ?thesis by simp
qed

text \<open>What the model does with an event, by what of the cohort the event takes from the level.\<close>

lemma model_step:
  assumes "rounding rnd" and "book_ok bk" and "fair_event C sd p e bk"
    and "cohort_first C sd p (abs_book bk)" and s1: "spec_event cap e (abs_book bk) = (Applied, s1)"
    and qm: "qm_side qm = sd" "qm_price qm = p" "qm_cohort qm = C" "\<not> fully_filled qm"
    and n: "qm_ahead qm = rat_of_nat (ahead_sum C sd p (abs_book bk))" "ahead_sum C sd p (abs_book bk) \<le> 2 ^ 53"
  shows "qm_ahead (queue_event rnd e bk qm) = rat_of_nat (ahead_sum C sd p (abs_book bk) - leaving C sd p e (abs_book bk))"
proof -
  let ?s = "abs_book bk" and ?oid = "ev_order_id e"
  note ok = book_spec_ok [OF assms(2)]
  have open_: "\<not> qm_filled qm \<ge> qm_size qm" using qm(4) by (simp add: fully_filled_def)
  have mem: "?oid \<in> ahead_ids C sd p ?s \<longleftrightarrow> references_our_level ?oid bk qm \<and> ?oid \<in> C"
    by (auto simp: ahead_ids_def references_our_level_def order_at_our_level_def qm split: option.splits if_splits)
  have view: "order_at_our_level ?oid bk qm = Some v \<Longrightarrow> rest_qty ?s ?oid = unat (ov_quantity v)" for v
    by (auto simp: rest_qty_def order_at_our_level_def split: option.splits if_splits)
  have part: "leaving C sd p e ?s \<le> ahead_sum C sd p ?s"
    using ahead_step [OF ok s1] assms(3) by (simp add: fair_event_def split: event_type.splits)
  note left = leaving_def
  show ?thesis
  proof (cases "references_our_level ?oid bk qm")
    case False
    then have "queue_event rnd e bk qm = qm" "leaving C sd p e ?s = 0"
      using mem by (auto simp: queue_event_def left references_our_level_def split: event_type.split option.split)
    then show ?thesis using n(1) by simp
  next
    case True
    then obtain v where v: "order_at_our_level ?oid bk qm = Some v" by (auto simp: references_our_level_def)
    have leave: "qm_ahead (leave_queue rnd q qm) = rat_of_nat (ahead_sum C sd p ?s - unat q)" if "unat q \<le> ahead_sum C sd p ?s" for q
      by (rule leave_exact [OF assms(1) n that])
    show ?thesis
    proof (cases "ev_type e")
      case Trade
      have at: "?oid \<in> set (queue_ids bk sd p)"
        using v spec_okD(2,4) [OF ok, of ?oid v] by (auto simp: order_at_our_level_def qm split: option.splits if_splits)
      obtain xs ys where q: "queue_ids bk sd p = xs @ ys" "set xs \<subseteq> C" "set ys \<inter> C = {}"
        using assms(4) by (auto simp: cohort_first_def)
      have hd: "hd (queue_ids bk sd p) = ?oid" using assms(3) Trade at by (simp add: fair_event_def)
      have none: "ahead_sum C sd p ?s = 0" if "?oid \<notin> C"
      proof -
        have "xs = []" using that hd q(1,2) by (cases xs) auto
        then have "ahead_ids C sd p ?s = {}" using q(1,3) ahead_ids_queue [OF ok, of C sd p] by auto
        then show ?thesis by (simp add: ahead_sum_def)
      qed
      have "unat (ev_quantity e) \<le> ahead_sum C sd p ?s \<or> ahead_sum C sd p ?s = 0"
        using part none mem True Trade by (auto simp: left)
      from execute_exact [OF assms(1) n this] show ?thesis
        using Trade True mem none open_ by (auto simp: queue_event_def left)
    next
      case Reduce
      then show ?thesis using part leave [of "ev_quantity e"] mem True open_ n(1) by (auto simp: queue_event_def left qm)
    next
      case Cancel
      then show ?thesis using part leave [of "ov_quantity v"] mem True open_ n(1) v view [OF v] by (auto simp: queue_event_def left qm)
    next
      case Replace
      then show ?thesis using part leave [of "ov_quantity v"] mem True open_ n(1) v view [OF v] by (auto simp: queue_event_def left qm)
    qed (use n(1) open_ in \<open>simp_all add: queue_event_def left\<close>)
  qed
qed

section \<open>Along the feed\<close>

lemma queue_event_frame:
  "qm_side (queue_event rnd e bk qm) = qm_side qm" "qm_price (queue_event rnd e bk qm) = qm_price qm"
  "qm_cohort (queue_event rnd e bk qm) = qm_cohort qm"
  by (simp_all add: queue_event_def execute_at_level_def leave_queue_def Let_def split: event_type.split option.split)

lemma follow_filled: "fully_filled qm \<Longrightarrow> fully_filled (fst (follow rnd es (qm, bk)))"
  by (induction es arbitrary: bk) (simp_all add: queue_event_def fully_filled_def)

lemma follow_exact:
  assumes "rounding rnd"
    and "book_ok bk" and "length (filter may_open_level es) \<le> level_empties (level_lookup bk)"
    and "fair_run C sd p es bk" and "cohort_first C sd p (abs_book bk)"
    and "qm_side qm = sd" "qm_price qm = p" "qm_cohort qm = C"
    and "qm_ahead qm = rat_of_nat (ahead_sum C sd p (abs_book bk))" "ahead_sum C sd p (abs_book bk) \<le> 2 ^ 53"
    and "follow rnd es (qm, bk) = (qm1, bk1)" and "\<not> fully_filled qm1"
  shows "book_ok bk1 \<and> qm_ahead qm1 = rat_of_nat (ahead_sum C sd p (abs_book bk1))"
  using assms(2-12)
proof (induction es arbitrary: bk qm)
  case Nil
  then show ?case by simp
next
  case (Cons e es)
  let ?qm = "queue_event rnd e bk qm" and ?bk = "snd (process_event e bk)" and ?cap = "length (orders bk)"
  let ?s1 = "snd (spec_event ?cap e (abs_book bk))"
  have fair: "fair_event C sd p e bk" "fair_run C sd p es ?bk" using Cons.prems(3) by simp_all
  have kind: "ev_type e \<noteq> Modify" "ev_type e = Add \<Longrightarrow> ev_order_id e \<notin> C" "ev_type e = Replace \<Longrightarrow> ev_new_order_id e \<notin> C"
    using fair(1) by (auto simp: fair_event_def split: event_type.splits)
  have ref: "refines bk (process_event e bk) (spec_event ?cap e (abs_book bk))"
    and room: "length (filter may_open_level es) \<le> level_empties (level_lookup ?bk)"
    using event_keeps_room [OF Cons.prems(1,2)] by blast+
  have s1: "spec_event ?cap e (abs_book bk) = (Applied, ?s1)" and bk: "abs_book ?bk = ?s1" "book_ok ?bk"
    using ref fair(1) by (auto simp: refines_def fair_event_def prod_eq_iff)
  have open_: "\<not> fully_filled qm" using follow_filled [of qm rnd "e # es" bk] Cons.prems(10,11) by auto
  note sum = ahead_step [OF book_spec_ok [OF Cons.prems(1)] s1 kind, of sd p]
  have ahead: "qm_ahead ?qm = rat_of_nat (ahead_sum C sd p (abs_book ?bk))"
    using model_step [OF assms(1) Cons.prems(1) fair(1) Cons.prems(4) s1 Cons.prems(5-7) open_ Cons.prems(8,9)] sum
    by (simp add: bk(1))
  show ?case
    by (rule Cons.IH [OF bk(2) room fair(2), of ?qm])
      (use cohort_step [OF Cons.prems(4) kind, of ?cap] ahead sum Cons.prems in \<open>simp_all add: queue_event_frame bk(1)\<close>)
qed

text \<open>The displayed total of a level is the sum of its orders, when that does not wrap.\<close>

lemma sum_words:
  "sum_list (map unat ws) < 2 ^ LENGTH('a) \<Longrightarrow> unat (sum_list (ws :: 'a::len word list)) = sum_list (map unat ws)"
proof (induction ws)
  case (Cons w ws)
  then have "unat (sum_list ws) = sum_list (map unat ws)" by simp
  with Cons.prems show ?case using unat_add_lem [of w "sum_list ws"] by simp
qed simp

lemma displayed_ahead_total:
  assumes "book_ok bk" and "displayed_ahead (set (queue_ids bk sd p)) sd p bk < 2 ^ 64"
  shows "unat (lv_total_quantity (depth_at bk sd p)) = displayed_ahead (set (queue_ids bk sd p)) sd p bk"
proof -
  have "map (\<lambda>oid. case find_order oid bk of None \<Rightarrow> 0 | Some v \<Rightarrow> unat (ov_quantity v)) (queue_ids bk sd p)
      = map unat (map ov_quantity (resting bk sd p))"
    by (simp add: queue_ids_resting resting_order [OF assms(1)])
  moreover have "filter (\<lambda>oid. oid \<in> set (queue_ids bk sd p)) (queue_ids bk sd p) = queue_ids bk sd p"
    by (simp add: filter_id_conv)
  ultimately have d: "displayed_ahead (set (queue_ids bk sd p)) sd p bk = sum_list (map unat (map ov_quantity (resting bk sd p)))"
    by (simp only: displayed_ahead_def)
  show ?thesis using sum_words [of "map ov_quantity (resting bk sd p)"] assms(2) unfolding d by (simp add: depth_at_def)
qed

section \<open>Properties\<close>

text \<open>
  C28. The displayed model follows the visible book: an order is posted behind the orders a walk of the level
  returns, with the level's displayed total ahead of it and multiplier 1; along any feed of accepted events
  that reuses no id of those orders and executes the first order of the level, the quantity ahead is, as
  long as the order is not filled, exactly what still rests of those orders, cancels, reductions,
  executions and replacements counted, later arrivals not. It takes totals of at most \<open>2 ^ 53\<close>, which a
  \<^verbatim>\<open>double\<close> holds exactly, and room in the level index.
\<close>

theorem queue_model_follows_book:
  assumes "rounding rnd" and "book_ok bk" and "length (filter may_open_level es) \<le> level_empties (level_lookup bk)"
    and "level_order_ids sd p bk = Some ids" and "displayed_ahead (set ids) sd p bk \<le> 2 ^ 53"
    and "fair_run (set ids) sd p es bk"
    and "follow rnd es (new_queue_model rnd sd p sz (lv_total_quantity (depth_at bk sd p)) 1 (set ids) t, bk) = (qm, bk1)"
    and "\<not> fully_filled qm"
  shows "qm_ahead qm = rat_of_nat (displayed_ahead (set ids) sd p bk1)"
proof -
  let ?new = "new_queue_model rnd sd p sz (lv_total_quantity (depth_at bk sd p)) 1 (set ids) t"
  let ?n = "displayed_ahead (set ids) sd p bk"
  have ids: "ids = queue_ids bk sd p" using level_order_ids_total [OF book_okD(1) [OF assms(2)]] assms(4) by simp
  have "?n < 2 ^ 64" using assms(5) by (rule order_le_less_trans) simp
  then have total: "unat (lv_total_quantity (depth_at bk sd p)) = ?n"
    unfolding ids by (rule displayed_ahead_total [OF assms(2)])
  have "rnd (to_double rnd (lv_total_quantity (depth_at bk sd p)) * 1) = rat_of_nat ?n"
    using assms(1,5) total by (simp add: to_double_def rounding_nat del: of_nat_unat)
  then have ahead: "qm_ahead ?new = rat_of_nat (ahead_sum (set ids) sd p (abs_book bk))"
    by (simp add: new_queue_model_def displayed_ahead_sum [OF assms(2)])
  have first: "cohort_first (set ids) sd p (abs_book bk)"
    unfolding cohort_first_def ids by (intro exI [of _ "queue_ids bk sd p"] exI [of _ "[]"]) simp
  have "book_ok bk1 \<and> qm_ahead qm = rat_of_nat (ahead_sum (set ids) sd p (abs_book bk1))"
    by (rule follow_exact [OF assms(1-3,6) first _ _ _ ahead _ assms(7,8)])
      (use assms(5) displayed_ahead_sum [OF assms(2)] in \<open>simp_all add: new_queue_model_def\<close>)
  then show ?thesis by (simp add: displayed_ahead_sum)
qed

text \<open>Two bids of 3 and 5 are displayed; the second is reduced by 4, the first deleted: 1 is left ahead.\<close>

definition ahead_events :: "market_data_event list" where
  "ahead_events =
     [default_event\<lparr>ev_order_id := 1, ev_price := 100, ev_quantity := 3\<rparr>,
      default_event\<lparr>ev_order_id := 2, ev_price := 100, ev_quantity := 5\<rparr>,
      default_event\<lparr>ev_type := Reduce, ev_order_id := 2, ev_quantity := 4\<rparr>,
      default_event\<lparr>ev_type := Cancel, ev_order_id := 1\<rparr>]"

definition ahead_book :: "nat \<Rightarrow> order_book" where
  "ahead_book n = snd (process_events (take n ahead_events) (projr (new_book 4)))"

lemma ahead_book_run:
  assumes "n \<le> 4"
  shows "book_ok (ahead_book n)" and "level_room (level_lookup (ahead_book n))"
    and "queue_ids (ahead_book n) = sb_queue (snd (spec_events 4 (take n ahead_events) spec_empty))"
    and "find_order oid (ahead_book n) = sb_orders (snd (spec_events 4 (take n ahead_events) spec_empty)) oid"
proof -
  have len: "length (take n ahead_events) < 4 * 2" by (simp add: ahead_events_def)
  note run = fresh_run [OF _ _ len, folded ahead_book_def]
  show "book_ok (ahead_book n)" "level_room (level_lookup (ahead_book n))" by (rule run; simp add: npos_def)+
  have abs: "abs_book (ahead_book n) = snd (spec_events 4 (take n ahead_events) spec_empty)" by (rule run; simp add: npos_def)
  show "queue_ids (ahead_book n) = sb_queue (snd (spec_events 4 (take n ahead_events) spec_empty))"
    "find_order oid (ahead_book n) = sb_orders (snd (spec_events 4 (take n ahead_events) spec_empty)) oid"
    by (metis abs abs_book_simps(2), metis abs abs_book_simps(1))
qed

lemma ahead_book_steps:
  "process_event (ahead_events ! 2) (ahead_book 2) = (Applied, ahead_book 3)"
  "process_event (ahead_events ! 3) (ahead_book 3) = (Applied, ahead_book 4)"
proof -
  have new: "new_book 4 = Inr (projr (new_book 4))" by (simp add: new_book_def npos_def)
  note init = new_book_ok [OF new]
  have "length (filter may_open_level ahead_events) \<le> level_empties (level_lookup (projr (new_book 4)))"
    unfolding init(4) using next_power_of_two_ge [of "4 * 2"] by (simp add: ahead_events_def may_open_level_def default_event_def)
  from process_events_refines(1) [OF init(1) this]
  have "fst (process_events ahead_events (projr (new_book 4))) = [Applied, Applied, Applied, Applied]"
    by (simp add: init(2,3) ahead_events_def spec_event_def spec_rest_def spec_trade_def spec_cancel_def spec_empty_def
        default_event_def)
  then have "fst (process_event (ahead_events ! 2) (ahead_book 2)) = Applied" "fst (process_event (ahead_events ! 3) (ahead_book 3)) = Applied"
    by (simp_all add: ahead_book_def ahead_events_def process_events_Cons split_beta)
  moreover have "snd (process_event (ahead_events ! 2) (ahead_book 2)) = ahead_book 3" "snd (process_event (ahead_events ! 3) (ahead_book 3)) = ahead_book 4"
    by (simp_all add: ahead_book_def ahead_events_def process_events_Cons split_beta)
  ultimately show "process_event (ahead_events ! 2) (ahead_book 2) = (Applied, ahead_book 3)"
    "process_event (ahead_events ! 3) (ahead_book 3) = (Applied, ahead_book 4)" by (simp_all add: prod_eq_iff)
qed

lemma ahead_book_queues:
  "queue_ids (ahead_book 2) Buy 100 = [1, 2]" "displayed_ahead {1, 2} Buy 100 (ahead_book 2) = 8"
  "displayed_ahead {1, 2} Buy 100 (ahead_book 4) = 1"
  using ahead_book_run(3,4) [of 2] ahead_book_run(3,4) [of 4]
  by (simp_all add: displayed_ahead_def ahead_events_def spec_event_def spec_rest_def spec_trade_def spec_cancel_def
      spec_empty_def set_queue_def default_event_def)

lemma only_trades_fill: "ev_type e \<noteq> Trade \<Longrightarrow> qm_filled (queue_event rnd e bk qm) = qm_filled qm \<and> qm_size (queue_event rnd e bk qm) = qm_size qm"
  by (simp add: queue_event_def leave_queue_def split: event_type.split option.split)

lemma queue_model_follows_book_witness:
  "\<exists>qm. follow id [ahead_events ! 2, ahead_events ! 3]
      (new_queue_model id Buy 100 10 (lv_total_quantity (depth_at (ahead_book 2) Buy 100)) 1 {1, 2} 0, ahead_book 2) = (qm, ahead_book 4)
    \<and> qm_ahead qm = 1"
proof -
  let ?qm = "new_queue_model id Buy 100 10 (lv_total_quantity (depth_at (ahead_book 2) Buy 100)) 1 {1, 2} 0"
  let ?es = "[ahead_events ! 2, ahead_events ! 3]"
  obtain qm where run: "follow id ?es (?qm, ahead_book 2) = (qm, ahead_book 4)" by (simp add: ahead_book_steps)
  have kinds: "ev_type (ahead_events ! 2) = Reduce" "ev_type (ahead_events ! 3) = Cancel"
    by (simp_all add: ahead_events_def)
  have "qm_filled qm = 0 \<and> qm_size qm = 10"
    using run only_trades_fill [of "ahead_events ! 2" id] only_trades_fill [of "ahead_events ! 3" id]
    by (auto simp: ahead_book_steps kinds new_queue_model_def)
  then have open_: "\<not> fully_filled qm" by (simp add: fully_filled_def)
  have walk: "level_order_ids Buy 100 (ahead_book 2) = Some [1, 2]"
    using level_order_ids_total [OF book_okD(1) [OF ahead_book_run(1) [of 2]]] ahead_book_queues(1) by simp
  have fair: "fair_run {1, 2} Buy 100 ?es (ahead_book 2)"
    by (simp add: fair_event_def ahead_book_steps kinds)
  have few: "length (filter may_open_level ?es) \<le> level_empties (level_lookup (ahead_book 2))"
    by (simp add: may_open_level_def kinds)
  show ?thesis
    using queue_model_follows_book [OF _ ahead_book_run(1) few walk _ _ _ open_, of id] run fair ahead_book_queues
    by (auto simp: rounding_def)
qed

end
