(* ===== verification/QueueBand.thy ===== *)
theory QueueBand
  imports QueueExact
begin

text \<open>
  The two bounds of \<^verbatim>\<open>QueueModel\<close>: the displayed and the conservative model of one order, which differ in the
  multiplier of the initial quantity ahead only, compared along the same events.
\<close>

lemma nat_floor_min: "nat \<lfloor>min x (rat_of_nat n)\<rfloor> = min (nat \<lfloor>x\<rfloor>) n"
proof (cases "x \<le> rat_of_nat n")
  case True
  then show ?thesis by (simp add: min_def floor_le_iff nat_le_iff)
next
  case False
  then have "int n \<le> \<lfloor>x\<rfloor>" by (simp add: le_floor_iff)
  then have "n \<le> nat \<lfloor>x\<rfloor>" by linarith
  then show ?thesis using False by (simp add: min_def)
qed

text \<open>The size and the queue ahead after an execution, as functions of those before.\<close>

lemma execute_ahead: "qm_ahead (execute_at_level rnd q qm) = rnd (qm_ahead qm - min (to_double rnd q) (qm_ahead qm))"
  by (simp add: execute_at_level_def Let_def)

lemma execute_filled:
  assumes r: "rounding rnd" and ok: "queue_ok qm" and sz: "unat (qm_size qm) \<le> 2 ^ 53"
  shows "unat (qm_filled (execute_at_level rnd q qm))
    = min (unat (qm_filled qm) + nat \<lfloor>rnd (to_double rnd q - min (to_double rnd q) (qm_ahead qm))\<rfloor>) (unat (qm_size qm))"
proof -
  let ?over = "rnd (to_double rnd q - min (to_double rnd q) (qm_ahead qm))"
  let ?room = "to_double rnd (qm_size qm - qm_filled qm)"
  have le: "qm_filled qm \<le> qm_size qm" using ok by (simp add: queue_ok_def)
  then have le': "unat (qm_filled qm) \<le> unat (qm_size qm)" by (simp add: word_le_nat_alt)
  have over: "0 \<le> ?over" by (rule rounding_sign [OF r]) simp
  show ?thesis
  proof (cases "?over > 0")
    case False
    then show ?thesis using le' over by (simp add: execute_at_level_def Let_def)
  next
    case True
    have small: "unat (qm_size qm - qm_filled qm) \<le> 2 ^ 53" using sz by (simp add: unat_sub_le [OF le])
    have room: "?room = rat_of_nat (unat (qm_size qm - qm_filled qm))"
      unfolding to_double_def by (rule rounding_nat [OF r small])
    have b: "0 \<le> min ?over ?room" "min ?over ?room \<le> rat_of_nat (unat (qm_size qm - qm_filled qm))"
      using over room by auto
    have "nat \<lfloor>min ?over ?room\<rfloor> = min (nat \<lfloor>?over\<rfloor>) (unat (qm_size qm - qm_filled qm))"
      unfolding room by (rule nat_floor_min)
    then have x: "unat (to_quantity (min ?over ?room)) = min (nat \<lfloor>?over\<rfloor>) (unat (qm_size qm) - unat (qm_filled qm))"
      using to_quantity_bound(2) [OF b] by (simp add: unat_sub_le [OF le])
    have "unat (qm_size qm) < 2 ^ LENGTH(64)" by (rule unsigned_less)
    then have "unat (qm_filled qm) + unat (to_quantity (min ?over ?room)) < 2 ^ LENGTH(64)"
      using x le' by linarith
    then have "unat (qm_filled qm + to_quantity (min ?over ?room)) = unat (qm_filled qm) + unat (to_quantity (min ?over ?room))"
      by (rule unat_add_lem [THEN iffD1])
    also have "\<dots> = min (unat (qm_filled qm) + nat \<lfloor>?over\<rfloor>) (unat (qm_size qm))" unfolding x using le' by linarith
    finally show ?thesis using True by (simp add: execute_at_level_def Let_def)
  qed
qed

text \<open>The displayed model \<^verbatim>\<open>d\<close> is ahead of the conservative model \<^verbatim>\<open>c\<close>.\<close>

definition in_band :: "queue_model \<Rightarrow> queue_model \<Rightarrow> bool" where
  "in_band d c \<longleftrightarrow> queue_ok d \<and> queue_ok c \<and> qm_side c = qm_side d \<and> qm_price c = qm_price d \<and> qm_size c = qm_size d
     \<and> qm_cohort c = qm_cohort d \<and> qm_ahead d \<le> qm_ahead c \<and> qm_filled c \<le> qm_filled d"

lemma execute_band:
  assumes "rounding rnd" and "unat (qm_size d) \<le> 2 ^ 53" and "in_band d c"
  shows "in_band (execute_at_level rnd q d) (execute_at_level rnd q c)"
proof -
  let ?q = "to_double rnd q"
  have b: "queue_ok d" "queue_ok c" "qm_size c = qm_size d" "qm_ahead d \<le> qm_ahead c" "qm_filled c \<le> qm_filled d"
    using assms(3) by (simp_all add: in_band_def)
  have ahead: "rnd (qm_ahead d - min ?q (qm_ahead d)) \<le> rnd (qm_ahead c - min ?q (qm_ahead c))"
    using b(4) by (intro rounding_mono [OF assms(1)]) (auto simp: min_def)
  have "rnd (?q - min ?q (qm_ahead c)) \<le> rnd (?q - min ?q (qm_ahead d))"
    using b(4) by (intro rounding_mono [OF assms(1)]) (auto simp: min_def)
  then have over: "nat \<lfloor>rnd (?q - min ?q (qm_ahead c))\<rfloor> \<le> nat \<lfloor>rnd (?q - min ?q (qm_ahead d))\<rfloor>" by (intro nat_mono floor_mono)
  have "unat (qm_filled (execute_at_level rnd q c)) \<le> unat (qm_filled (execute_at_level rnd q d))"
    unfolding execute_filled [OF assms(1) b(1) assms(2)] execute_filled [OF assms(1) b(2) assms(2) [folded b(3)]] b(3)
    using over b(5) [unfolded word_le_nat_alt] by (intro min.mono add_mono) simp_all
  then have filled: "qm_filled (execute_at_level rnd q c) \<le> qm_filled (execute_at_level rnd q d)" by (simp add: word_le_nat_alt)
  have "queue_ok (execute_at_level rnd q d)" "queue_ok (execute_at_level rnd q c)"
    using execute_ok [OF assms(1) b(1) assms(2)] execute_ok [OF assms(1) b(2)] assms(2) b(3) by simp_all
  then show ?thesis using assms(3) filled ahead
    by (simp add: in_band_def execute_ahead) (simp add: execute_at_level_def Let_def)
qed

lemma leave_band:
  assumes "rounding rnd" and "in_band d c"
  shows "in_band (leave_queue rnd q d) (leave_queue rnd q c)"
proof -
  have "qm_ahead (leave_queue rnd q d) \<le> qm_ahead (leave_queue rnd q c)"
    using assms(2) rounding_mono [OF assms(1), of "qm_ahead d - to_double rnd q" "qm_ahead c - to_double rnd q"]
    by (simp add: leave_queue_def in_band_def max.coboundedI2)
  then show ?thesis using assms leave_ok [OF assms(1)] by (simp add: in_band_def) (simp add: leave_queue_def)
qed

text \<open>The conservative model goes on alone once the displayed one is filled.\<close>

lemma filled_band:
  assumes "rounding rnd" and "unat (qm_size d) \<le> 2 ^ 53" and "in_band d c" and "qm_filled d \<ge> qm_size d"
  shows "in_band d (queue_event rnd e bk c)"
proof (cases "qm_filled c \<ge> qm_size c")
  case True
  then show ?thesis using assms(3) by (simp add: queue_event_def)
next
  case False
  have b: "queue_ok c" "qm_size c = qm_size d" "queue_ok d" "qm_filled c \<le> qm_filled d" using assms(3) by (simp_all add: in_band_def)
  have c: "queue_ok (queue_event rnd e bk c)" "qm_size (queue_event rnd e bk c) = qm_size d"
    using queue_event_ok [OF assms(1) b(1), of e bk] assms(2) b(2) by simp_all
  have "qm_filled d > 0" using False b(4) assms(4) b(2) by (metis not_le order_le_less_trans word_gt_0 word_zero_le word_le_0_iff)
  then have "qm_ahead d = 0" using b(3) by (simp add: queue_ok_def)
  moreover have "qm_side (queue_event rnd e bk c) = qm_side c" "qm_price (queue_event rnd e bk c) = qm_price c"
    "qm_cohort (queue_event rnd e bk c) = qm_cohort c"
    by (simp_all add: queue_event_def execute_at_level_def leave_queue_def Let_def split: event_type.split option.split)
  ultimately show ?thesis using assms(3,4) c by (auto simp: in_band_def queue_ok_def)
qed

lemma queue_event_band:
  assumes r: "rounding rnd" and sz: "unat (qm_size d) \<le> 2 ^ 53" and b: "in_band d c"
  shows "in_band (queue_event rnd e bk d) (queue_event rnd e bk c)"
proof (cases "qm_filled d \<ge> qm_size d")
  case True
  then show ?thesis using filled_band [OF assms True] by (simp add: queue_event_def [of rnd e bk d])
next
  case False
  have c: "\<not> qm_filled c \<ge> qm_size c" using False b by (auto simp: in_band_def)
  have same: "order_at_our_level oid bk c = order_at_our_level oid bk d" "qm_cohort c = qm_cohort d" for oid
    using b by (auto simp: order_at_our_level_def in_band_def split: option.split)
  show ?thesis using False c b execute_band [OF r sz b] leave_band [OF r b]
    by (cases "ev_type e") (simp_all add: queue_event_def references_our_level_def same split: option.split)
qed

lemma queue_run_band:
  assumes "rounding rnd" and "unat (qm_size d) \<le> 2 ^ 53" and "in_band d c"
  shows "in_band (fold (\<lambda>(e, bk). queue_event rnd e bk) hs d) (fold (\<lambda>(e, bk). queue_event rnd e bk) hs c)"
  using assms(2,3)
proof (induction hs arbitrary: d c)
  case Nil
  then show ?case by simp
next
  case (Cons h hs)
  obtain e bk where h: "h = (e, bk)" by (cases h)
  show ?case using Cons.IH [OF _ queue_event_band [OF assms(1) Cons.prems]] Cons.prems(1) by (simp add: h queue_event_size)
qed

text \<open>
  C27. The band of the queue model, whatever book each event is seen with: of two models of the same order that
  see the same events, the one with the larger multiplier has at every time at least as much ahead of it and
  at most as much filled, so that it is filled in full only if the other is; neither quantity leaves its
  range, and an order is filled, in part or in full, only once nothing is ahead of it. The rounding is any monotone
  one that is exact on the integers up to \<open>2 ^ 53\<close>, and the size is such an integer.
\<close>

theorem queue_band:
  assumes "rounding rnd" and "0 \<le> displayed_multiplier" and "displayed_multiplier \<le> multiplier" and "unat sz \<le> 2 ^ 53"
    and "d = fold (\<lambda>(e, bk). queue_event rnd e bk) hs (new_queue_model rnd sd p sz displayed displayed_multiplier cohort t)"
    and "c = fold (\<lambda>(e, bk). queue_event rnd e bk) hs (new_queue_model rnd sd p sz displayed multiplier cohort t)"
  shows "0 \<le> qm_ahead d \<and> qm_ahead d \<le> qm_ahead c \<and> qm_filled c \<le> qm_filled d \<and> qm_filled d \<le> sz
    \<and> (fully_filled c \<longrightarrow> fully_filled d) \<and> (qm_filled d > 0 \<longrightarrow> qm_ahead d = 0) \<and> (qm_filled c > 0 \<longrightarrow> qm_ahead c = 0)"
proof -
  let ?new = "\<lambda>m. new_queue_model rnd sd p sz displayed m cohort t"
  have "0 \<le> multiplier" using assms(2,3) by simp
  moreover have "to_double rnd displayed * displayed_multiplier \<le> to_double rnd displayed * multiplier"
    using assms(3) to_double_nonneg [OF assms(1)] by (rule mult_left_mono)
  ultimately have "in_band (?new displayed_multiplier) (?new multiplier)"
    using new_queue_ok [OF assms(1,2)] new_queue_ok [OF assms(1), of multiplier] rounding_mono [OF assms(1)]
    by (simp add: in_band_def) (simp add: new_queue_model_def)
  then have b: "in_band d c"
    using queue_run_band [OF assms(1), of "?new displayed_multiplier"] assms(4) unfolding assms(5,6) by (simp add: new_queue_model_def)
  have "qm_size d = sz"
    using queue_run_ok [OF assms(1) new_queue_ok [OF assms(1,2)], where hs = hs] assms(4)
    unfolding assms(5) by (simp add: new_queue_model_def)
  then show ?thesis using b by (auto simp: in_band_def queue_ok_def fully_filled_def)
qed

text \<open>An execution of 11 with 8 displayed ahead fills 3 of 4 in the displayed model, and nothing at twice that.\<close>

lemma queue_band_witness:
  "let hs = [(default_event\<lparr>ev_type := Trade, ev_order_id := 1, ev_quantity := 11\<rparr>, ahead_book 2)];
       run = (\<lambda>m. fold (\<lambda>(e, bk). queue_event id e bk) hs (new_queue_model id Buy 100 4 8 m {1} 0))
   in qm_filled (run 1) = 3 \<and> qm_filled (run 2) = 0 \<and> qm_ahead (run 1) \<le> qm_ahead (run 2)"
proof -
  let ?e = "default_event\<lparr>ev_type := Trade, ev_order_id := 1, ev_quantity := 11\<rparr>"
  have "\<exists>v. find_order 1 (ahead_book 2) = Some v \<and> ov_side v = Buy \<and> ov_price v = 100"
    using ahead_book_run(4) [of 2 1]
    by (simp add: ahead_events_def spec_event_def spec_rest_def spec_empty_def set_queue_def default_event_def)
  then have at: "references_our_level 1 (ahead_book 2) (new_queue_model id Buy 100 4 8 m {1} 0)" for m
    by (auto simp: references_our_level_def order_at_our_level_def new_queue_model_def)
  have run: "fold (\<lambda>(e, bk). queue_event id e bk) [(?e, ahead_book 2)] (new_queue_model id Buy 100 4 8 m {1} 0)
      = execute_at_level id 11 (new_queue_model id Buy 100 4 8 m {1} 0)" for m
    using at by (simp add: queue_event_def) (simp add: new_queue_model_def)
  have "qm_filled (execute_at_level id 11 (new_queue_model id Buy 100 4 8 1 {1} 0)) = 3"
    "qm_filled (execute_at_level id 11 (new_queue_model id Buy 100 4 8 2 {1} 0)) = 0"
    by (simp_all add: execute_at_level_def new_queue_model_def to_double_def to_quantity_def)
  then show ?thesis
    using queue_band [OF _ _ _ _ refl refl, of id 1 2 4 "[(?e, ahead_book 2)]" Buy 100 8 "{1}" 0] unfolding run Let_def
    by (simp add: rounding_def)
qed

end
