(* ===== verification/NetworkSources.thy ===== *)
theory NetworkSources
  imports DatagramSource Connector
begin

text \<open>
  The two sources that talk to a network: \<^verbatim>\<open>IoUringDatagramSource\<close> over the Linux kernel and
  \<^verbatim>\<open>WebSocketConnector\<close> over Boost.Beast. The kernel and the library are parameters, a record of the
  calls the code makes on a state of their own; what the code does with their results is modelled.
\<close>

section \<open>IoUringDatagramSource\<close>

text \<open>
  The calls of the source. A negative result is a failure; \<^verbatim>\<open>sys_wait_cqe\<close> gives the result of the wait,
  the \<^verbatim>\<open>res\<close> of the completion and the bytes the kernel wrote to the front of the buffer.
\<close>

record 'k kernel =
  sys_socket :: "'k \<Rightarrow> int \<times> 'k"
  sys_setsockopts :: "'k \<Rightarrow> 'k"
  sys_inet_pton :: "string \<Rightarrow> u32 option"
  sys_bind :: "u32 \<Rightarrow> 16 word \<Rightarrow> 'k \<Rightarrow> int \<times> 'k"
  sys_getsockname :: "'k \<Rightarrow> 16 word option \<times> 'k"
  sys_queue_init :: "nat \<Rightarrow> 'k \<Rightarrow> int \<times> 'k"
  sys_queue_exit :: "'k \<Rightarrow> 'k"
  sys_close :: "'k \<Rightarrow> 'k"
  sys_get_sqe :: "'k \<Rightarrow> bool \<times> 'k"
  sys_prep_recv :: "nat \<Rightarrow> 'k \<Rightarrow> 'k"
  sys_submit :: "'k \<Rightarrow> int \<times> 'k"
  sys_wait_cqe :: "'k \<Rightarrow> (int \<times> int \<times> u8 list) \<times> 'k"
  sys_cqe_seen :: "'k \<Rightarrow> 'k"

datatype setup_error = Socket_failed | Invalid_bind_address | Bind_failed | Queue_init_failed

text \<open>The destructor of \<^verbatim>\<open>Impl\<close>, which also runs when the constructor throws.\<close>

definition destroy_impl :: "'k kernel \<Rightarrow> int \<Rightarrow> bool \<Rightarrow> 'k \<Rightarrow> 'k" where
  "destroy_impl sys fd ring_ready k =
     (let k1 = (if ring_ready then sys_queue_exit sys k else k)
      in if fd \<ge> 0 then sys_close sys k1 else k1)"

definition open_io_uring :: "'k kernel \<Rightarrow> string \<Rightarrow> 16 word \<Rightarrow> nat \<Rightarrow> 'k \<Rightarrow> (setup_error + io_uring_source) \<times> 'k" where
  "open_io_uring sys bind_addr port queue_depth k =
     (case sys_socket sys k of (fd, k1) \<Rightarrow>
        if fd < 0 then (Inl Socket_failed, destroy_impl sys fd False k1)
        else
          let k2 = sys_setsockopts sys k1 in
          case sys_inet_pton sys bind_addr of
            None \<Rightarrow> (Inl Invalid_bind_address, destroy_impl sys fd False k2)
          | Some addr \<Rightarrow>
              (case sys_bind sys addr port k2 of (bound, k3) \<Rightarrow>
                 if bound \<noteq> 0 then (Inl Bind_failed, destroy_impl sys fd False k3)
                 else case sys_getsockname sys k3 of (name, k4) \<Rightarrow>
                   (case sys_queue_init sys queue_depth k4 of (init, k5) \<Rightarrow>
                      if init \<noteq> 0 then (Inl Queue_init_failed, destroy_impl sys fd False k5)
                      else (Inr \<lparr>iu_bound_port = (case name of Some p \<Rightarrow> p | None \<Rightarrow> port), iu_failed = False,
                              iu_buffer = replicate 2048 0\<rparr>, k5))))"

definition io_uring_next :: "'k kernel \<Rightarrow> io_uring_source \<times> 'k \<Rightarrow> u8 list option \<times> io_uring_source \<times> 'k" where
  "io_uring_next sys s =
     (case s of (src, k) \<Rightarrow>
        if iu_failed src then (None, src, k)
        else case sys_get_sqe sys k of (got, k1) \<Rightarrow>
          if \<not> got then (None, src\<lparr>iu_failed := True\<rparr>, k1)
          else case sys_submit sys (sys_prep_recv sys (length (iu_buffer src)) k1) of (submitted, k2) \<Rightarrow>
            if submitted < 0 then (None, src\<lparr>iu_failed := True\<rparr>, k2)
            else case sys_wait_cqe sys k2 of ((waited, result, bytes), k3) \<Rightarrow>
              if waited < 0 then (None, src\<lparr>iu_failed := True\<rparr>, k3)
              else
                let k4 = sys_cqe_seen sys k3;
                    src1 = src\<lparr>iu_buffer := bytes @ drop (length bytes) (iu_buffer src)\<rparr>
                in if result \<le> 0 then (None, src1, k4)
                   else (Some (take (nat result) (iu_buffer src1)), src1, k4))"

section \<open>WebSocketConnector\<close>

record ws_config =
  wc_host :: string
  wc_port :: string
  wc_target :: string
  wc_subscription_message :: string
  wc_verify_peer :: bool

text \<open>
  The library: every call of the constructor may throw; a read appends to the buffer and reports a
  message, the closing of the connection or an error.
\<close>

datatype read_status = Read_message | Read_closed | Read_error string

record 'w ws_library =
  ws_default_verify_paths :: "'w \<Rightarrow> string + 'w"
  ws_verify_host :: "string \<Rightarrow> 'w \<Rightarrow> string + 'w"
  ws_verify_none :: "'w \<Rightarrow> string + 'w"
  ws_set_sni :: "string \<Rightarrow> 'w \<Rightarrow> bool \<times> 'w"
  ws_connect :: "string \<Rightarrow> string \<Rightarrow> 'w \<Rightarrow> string + 'w"
  ws_tls_handshake :: "'w \<Rightarrow> string + 'w"
  ws_handshake :: "string \<Rightarrow> string \<Rightarrow> 'w \<Rightarrow> string + 'w"
  ws_write :: "string \<Rightarrow> 'w \<Rightarrow> string + 'w"
  ws_read :: "'w \<Rightarrow> (read_status \<times> string) \<times> 'w"

type_synonym ws_parser = "string \<Rightarrow> market_data_event option"

record 'w ws_connector =
  wk_parser :: ws_parser
  wk_stream :: 'w
  wk_buffer :: string

datatype ws_exception = Empty_host | Empty_parser | Sni_failed | Library_error string

definition ws_call :: "(string + 'w) \<Rightarrow> ('w \<Rightarrow> ws_exception + 'v) \<Rightarrow> ws_exception + 'v" where
  "ws_call r f = (case r of Inl err \<Rightarrow> Inl (Library_error err) | Inr w \<Rightarrow> f w)"

definition ws_open :: "'w ws_library \<Rightarrow> ws_config \<Rightarrow> ws_parser option \<Rightarrow> 'w \<Rightarrow> ws_exception + 'w ws_connector" where
  "ws_open lib config parser w =
     (if wc_host config = [] then Inl Empty_host
      else case parser of
        None \<Rightarrow> Inl Empty_parser
      | Some f \<Rightarrow>
          ws_call (if wc_verify_peer config then ws_default_verify_paths lib w else Inr w) (\<lambda>w.
          ws_call (if wc_verify_peer config then ws_verify_host lib (wc_host config) w else ws_verify_none lib w) (\<lambda>w.
          case ws_set_sni lib (wc_host config) w of (named, w) \<Rightarrow>
          if \<not> named then Inl Sni_failed
          else
            ws_call (ws_connect lib (wc_host config) (wc_port config) w) (\<lambda>w.
            ws_call (ws_tls_handshake lib w) (\<lambda>w.
            ws_call (ws_handshake lib (wc_host config @ '':'' @ wc_port config) (wc_target config) w) (\<lambda>w.
            ws_call (if wc_subscription_message config \<noteq> [] then ws_write lib (wc_subscription_message config) w else Inr w) (\<lambda>w.
            Inr \<lparr>wk_parser = f, wk_stream = w, wk_buffer = []\<rparr>)))))))"

datatype ws_result = Delivered market_data_event | Finished | Thrown ws_exception

partial_function (option) ws_next :: "'w ws_library \<Rightarrow> 'w ws_connector \<Rightarrow> (ws_result \<times> 'w ws_connector) option" where
  "ws_next lib c =
     (case ws_read lib (wk_stream c) of ((status, bytes), w) \<Rightarrow>
        let c1 = c\<lparr>wk_stream := w, wk_buffer := wk_buffer c @ bytes\<rparr> in
        (case status of
          Read_closed \<Rightarrow> Some (Finished, c1)
        | Read_error err \<Rightarrow> Some (Thrown (Library_error err), c1)
        | Read_message \<Rightarrow>
            let message = wk_buffer c1; c2 = c1\<lparr>wk_buffer := []\<rparr> in
            (case wk_parser c message of
              Some e \<Rightarrow> Some (Delivered e, c2)
            | None \<Rightarrow> ws_next lib c2)))"

section \<open>What successive calls return\<close>

primrec deliveries :: "('s \<Rightarrow> 'a \<times> 's) \<Rightarrow> nat \<Rightarrow> 's \<Rightarrow> 'a list \<times> 's" where
  "deliveries f 0 s = ([], s)"
| "deliveries f (Suc n) s = (case f s of (a, s1) \<Rightarrow> (case deliveries f n s1 of (rest, s2) \<Rightarrow> (a # rest, s2)))"

lemma deliveries_source:
  "rest_datagrams src = (ds, bad) \<Longrightarrow> fst (deliveries next_datagram (Suc (length ds)) src) = map Some ds @ [None]"
proof (induction ds arbitrary: src)
  case Nil
  then show ?case using next_datagram_rest(1) [of src bad] by (simp add: split_beta)
next
  case (Cons d ds)
  from next_datagram_rest(2) [OF Cons.prems] Cons.IH [of "snd (next_datagram src)"] show ?case
    by (simp add: split_beta)
qed

text \<open>
  The kernel on a bound socket: \<open>arrived\<close> is the datagrams that reach it, in order, \<open>posted\<close> the size of the
  buffer of the receive in flight; a receive completes with the next datagram, cut at the buffer's size.
\<close>

definition receiving :: "'k kernel \<Rightarrow> ('k \<Rightarrow> u8 list list) \<Rightarrow> ('k \<Rightarrow> nat) \<Rightarrow> bool" where
  "receiving sys arrived posted \<longleftrightarrow>
     (\<forall>k. fst (sys_get_sqe sys k) \<and> arrived (snd (sys_get_sqe sys k)) = arrived k)
   \<and> (\<forall>k n. arrived (sys_prep_recv sys n k) = arrived k \<and> posted (sys_prep_recv sys n k) = n)
   \<and> (\<forall>k. fst (sys_submit sys k) \<ge> 0 \<and> arrived (snd (sys_submit sys k)) = arrived k
        \<and> posted (snd (sys_submit sys k)) = posted k)
   \<and> (\<forall>k d ds. arrived k = d # ds \<longrightarrow>
        fst (sys_wait_cqe sys k) = (0, int (min (length d) (posted k)), take (posted k) d)
        \<and> arrived (snd (sys_wait_cqe sys k)) = ds)
   \<and> (\<forall>k. arrived (sys_cqe_seen sys k) = arrived k)"

lemma io_uring_step:
  assumes "receiving sys arrived posted" and "\<not> iu_failed src" and "length (iu_buffer src) = 2048" and "arrived k = d # ds"
  shows "\<exists>src1 k1. io_uring_next sys (src, k) = (if d = [] then None else Some (take 2048 d), src1, k1)
    \<and> \<not> iu_failed src1 \<and> length (iu_buffer src1) = 2048 \<and> arrived k1 = ds"
proof -
  define k2 where "k2 = snd (sys_submit sys (sys_prep_recv sys 2048 (snd (sys_get_sqe sys k))))"
  note r = assms(1) [unfolded receiving_def]
  have k2: "arrived k2 = d # ds" "posted k2 = 2048" using r assms(4) by (simp_all add: k2_def)
  obtain k3 where w: "sys_wait_cqe sys k2 = ((0, int (min (length d) 2048), take 2048 d), k3)" "arrived k3 = ds"
    using r k2 by (metis prod.collapse)
  have calls: "fst (sys_get_sqe sys k)" "\<not> fst (sys_submit sys (sys_prep_recv sys 2048 (snd (sys_get_sqe sys k)))) < 0"
    using r by (simp_all add: not_less)
  let ?src = "src\<lparr>iu_buffer := take 2048 d @ drop (length (take 2048 d)) (iu_buffer src)\<rparr>"
  have "io_uring_next sys (src, k) = (if d = [] then None else Some (take 2048 d), ?src, sys_cqe_seen sys k3)"
    using calls assms(2,3) w(1) by (auto simp: io_uring_next_def Let_def split_beta min_def simp flip: k2_def)
  moreover have "arrived (sys_cqe_seen sys k3) = ds" using r w(2) by simp
  ultimately show ?thesis using assms(2,3) by auto
qed

lemma io_uring_run:
  assumes "receiving sys arrived posted" and "\<not> iu_failed src" and "length (iu_buffer src) = 2048"
    and "arrived k = ds @ [] # rest" and "[] \<notin> set ds"
  shows "\<exists>src1 k1. deliveries (io_uring_next sys) (Suc (length ds)) (src, k) = (map (\<lambda>d. Some (take 2048 d)) ds @ [None], src1, k1)
    \<and> \<not> iu_failed src1 \<and> arrived k1 = rest"
  using assms(2-5)
proof (induction ds arbitrary: src k)
  case Nil
  then show ?case using io_uring_step [OF assms(1), of src k "[]" rest] by auto
next
  case (Cons d ds)
  obtain src1 k1 where "io_uring_next sys (src, k) = (Some (take 2048 d), src1, k1)" "\<not> iu_failed src1"
    "length (iu_buffer src1) = 2048" "arrived k1 = ds @ [] # rest"
    using io_uring_step [OF assms(1) Cons.prems(1,2), of k d "ds @ [] # rest"] Cons.prems(3,4) by auto
  then show ?case using Cons.IH [of src1 k1] Cons.prems(4) by auto
qed

lemma open_io_uring_fresh:
  "open_io_uring sys addr port depth k0 = (Inr src, k) \<Longrightarrow> \<not> iu_failed src \<and> length (iu_buffer src) = 2048"
  by (auto simp: open_io_uring_def Let_def split: prod.splits if_splits option.splits)

text \<open>The connection: the messages that arrive, and what ends them.\<close>

definition incoming :: "'w ws_library \<Rightarrow> ('w \<Rightarrow> string list \<times> read_status) \<Rightarrow> bool" where
  "incoming lib pending \<longleftrightarrow>
     (\<forall>w f fs ending. pending w = (f # fs, ending) \<longrightarrow>
        fst (ws_read lib w) = (Read_message, f) \<and> pending (snd (ws_read lib w)) = (fs, ending))
   \<and> (\<forall>w ending. pending w = ([], ending) \<longrightarrow> fst (ws_read lib w) = (ending, []))"

definition ws_ended :: "read_status \<Rightarrow> ws_result" where
  "ws_ended ending = (case ending of Read_error err \<Rightarrow> Thrown (Library_error err) | _ \<Rightarrow> Finished)"

text \<open>The results of the calls up to the first that delivers nothing; \<open>None\<close> is a call that does not return.\<close>

fun ws_calls :: "'w ws_library \<Rightarrow> nat \<Rightarrow> 'w ws_connector \<Rightarrow> ws_result list option" where
  "ws_calls lib 0 c = Some []"
| "ws_calls lib (Suc n) c =
     (case ws_next lib c of
        None \<Rightarrow> None
      | Some (r, c1) \<Rightarrow> (case ws_calls lib n c1 of None \<Rightarrow> None | Some rs \<Rightarrow> Some (r # rs)))"

lemma ws_read_next:
  assumes "incoming lib pending" and "wk_buffer c = []" and "pending (wk_stream c) = (f # fs, ending)"
  shows "\<exists>c1. ws_next lib c = (case wk_parser c f of None \<Rightarrow> ws_next lib c1 | Some e \<Rightarrow> Some (Delivered e, c1))
    \<and> wk_buffer c1 = [] \<and> wk_parser c1 = wk_parser c \<and> pending (wk_stream c1) = (fs, ending)"
proof -
  obtain w where w: "ws_read lib (wk_stream c) = ((Read_message, f), w)" "pending w = (fs, ending)"
    using assms(1,3) unfolding incoming_def by (metis prod.collapse)
  let ?c = "c\<lparr>wk_stream := w, wk_buffer := []\<rparr>"
  have "ws_next lib c = (case wk_parser c f of None \<Rightarrow> ws_next lib ?c | Some e \<Rightarrow> Some (Delivered e, ?c))"
    by (subst ws_next.simps) (simp add: w assms(2) split: option.split)
  then show ?thesis using w(2) by (intro exI [of _ ?c]) simp
qed

lemma ws_calls_all:
  assumes "incoming lib pending" and "ending \<noteq> Read_message"
    and "wk_buffer c = []" and "pending (wk_stream c) = (fs, ending)"
  shows "ws_calls lib (Suc (length (List.map_filter (wk_parser c) fs))) c
    = Some (map Delivered (List.map_filter (wk_parser c) fs) @ [ws_ended ending])"
  using assms(3,4)
proof (induction fs arbitrary: c)
  case Nil
  then obtain w where "ws_read lib (wk_stream c) = ((ending, []), w)"
    using assms(1) unfolding incoming_def by (metis prod.collapse)
  then show ?case
    using assms(2) Nil.prems(1) by (simp add: List.map_filter_simps ws_next.simps ws_ended_def split: read_status.split)
next
  case (Cons f fs)
  obtain c1 where c1: "ws_next lib c = (case wk_parser c f of None \<Rightarrow> ws_next lib c1 | Some e \<Rightarrow> Some (Delivered e, c1))"
    "wk_buffer c1 = []" "wk_parser c1 = wk_parser c" "pending (wk_stream c1) = (fs, ending)"
    using ws_read_next [OF assms(1) Cons.prems] by blast
  show ?case
    using Cons.IH [OF c1(2,4)] c1(1,3) by (cases "wk_parser c f") (simp_all add: List.map_filter_simps)
qed

lemma ws_open_fresh:
  "ws_open lib config parser w = Inr c \<Longrightarrow> wk_buffer c = [] \<and> parser = Some (wk_parser c) \<and> wc_host config \<noteq> []"
  by (auto simp: ws_open_def ws_call_def split: if_splits option.splits sum.splits prod.splits)

section \<open>Properties\<close>

text \<open>
  On a kernel that delivers what arrives at the socket, a source that opened is the in-memory source
  of the arriving datagrams, each cut at the 2048 bytes of the buffer: call for call the same results up to
  the end of the stream, which an empty datagram marks, without a failure and with what arrived later still
  to be read.
\<close>

theorem io_uring_delivers_datagrams:
  assumes "receiving sys arrived posted" and "open_io_uring sys addr port depth k0 = (Inr src, k)"
    and "arrived k = ds @ [] # rest" and "[] \<notin> set ds"
  shows "fst (deliveries (io_uring_next sys) (Suc (length ds)) (src, k))
      = fst (deliveries next_datagram (Suc (length ds)) (from_datagrams (map (take 2048) ds)))
    \<and> \<not> iu_failed (fst (snd (deliveries (io_uring_next sys) (Suc (length ds)) (src, k))))
    \<and> arrived (snd (snd (deliveries (io_uring_next sys) (Suc (length ds)) (src, k)))) = rest"
proof -
  have "rest_datagrams (from_datagrams (map (take 2048) ds)) = (map (take 2048) ds, False)"
    by (simp add: rest_datagrams_def from_datagrams_def)
  from deliveries_source [OF this]
  have "fst (deliveries next_datagram (Suc (length ds)) (from_datagrams (map (take 2048) ds)))
      = map (\<lambda>d. Some (take 2048 d)) ds @ [None]" by (simp only: length_map map_map o_def)
  moreover obtain src1 k1 where "deliveries (io_uring_next sys) (Suc (length ds)) (src, k)
      = (map (\<lambda>d. Some (take 2048 d)) ds @ [None], src1, k1)" "\<not> iu_failed src1" "arrived k1 = rest"
    using io_uring_run [OF assms(1) _ _ assms(3,4)] open_io_uring_fresh [OF assms(2)] by blast
  ultimately show ?thesis by (simp only: fst_conv snd_conv simp_thms)
qed

text \<open>A kernel with two datagrams on the socket.\<close>

definition loopback :: "(u8 list list \<times> nat) kernel" where
  "loopback = \<lparr>sys_socket = \<lambda>k. (3, k), sys_setsockopts = id, sys_inet_pton = \<lambda>_. Some 0, sys_bind = \<lambda>_ _ k. (0, k),
     sys_getsockname = \<lambda>k. (Some 9000, k), sys_queue_init = \<lambda>_ k. (0, k), sys_queue_exit = id, sys_close = id,
     sys_get_sqe = \<lambda>k. (True, k), sys_prep_recv = \<lambda>n (ds, _). (ds, n), sys_submit = \<lambda>k. (1, k),
     sys_wait_cqe = \<lambda>(ds, n). (case ds of [] \<Rightarrow> ((0, 0, []), ds, n) | d # ds1 \<Rightarrow> ((0, int (min (length d) n), take n d), ds1, n)),
     sys_cqe_seen = id\<rparr>"

lemma io_uring_delivers_datagrams_witness:
  "fst (deliveries (io_uring_next loopback) 3 (\<lparr>iu_bound_port = 9000, iu_failed = False, iu_buffer = replicate 2048 0\<rparr>, [[1, 2], [3], []], 0))
    = [Some [1, 2], Some [3], None]"
proof -
  have "receiving loopback fst snd" by (simp add: receiving_def loopback_def split_beta)
  moreover have "open_io_uring loopback ''127.0.0.1'' 0 256 ([[1, 2], [3], []], 0)
      = (Inr \<lparr>iu_bound_port = 9000, iu_failed = False, iu_buffer = replicate 2048 0\<rparr>, [[1, 2], [3], []], 0)"
    by (simp add: open_io_uring_def loopback_def Let_def)
  ultimately show ?thesis
    using io_uring_delivers_datagrams [of loopback fst snd _ _ _ _ _ _ "[[1, 2], [3]]" "[]"]
    by (simp add: numeral_3_eq_3 next_datagram_def next_in_memory_def from_datagrams_def)
qed

text \<open>
  A connection that opened delivers, in order, the events the parser finds in the arriving messages, one
  per call, passing over the others; the call after the last returns false when the connection was closed
  and throws what the library reports otherwise. Every one of these calls returns.
\<close>

theorem websocket_delivers_parsed:
  assumes "incoming lib pending" and "ws_open lib config (Some parser) w = Inr c"
    and "pending (wk_stream c) = (messages, ending)" and "ending \<noteq> Read_message"
  shows "ws_calls lib (Suc (length (List.map_filter parser messages))) c
    = Some (map Delivered (List.map_filter parser messages) @ [ws_ended ending])"
proof -
  have fresh: "wk_buffer c = []" "parser = wk_parser c" using ws_open_fresh [OF assms(2)] by simp_all
  show ?thesis unfolding fresh(2) by (rule ws_calls_all [OF assms(1,4) fresh(1) assms(3)])
qed

text \<open>A heartbeat and one message, then the peer closes.\<close>

definition canned :: "(string list \<times> read_status) ws_library" where
  "canned = \<lparr>ws_default_verify_paths = Inr, ws_verify_host = \<lambda>_. Inr, ws_verify_none = Inr, ws_set_sni = \<lambda>_ w. (True, w),
     ws_connect = \<lambda>_ _. Inr, ws_tls_handshake = Inr, ws_handshake = \<lambda>_ _. Inr, ws_write = \<lambda>_. Inr,
     ws_read = \<lambda>(fs, ending). (case fs of [] \<Rightarrow> ((ending, []), fs, ending) | f # fs1 \<Rightarrow> ((Read_message, f), fs1, ending))\<rparr>"

lemma websocket_delivers_parsed_witness:
  "\<exists>c. ws_open canned \<lparr>wc_host = ''x'', wc_port = ''443'', wc_target = ''/'', wc_subscription_message = [], wc_verify_peer = True\<rparr>
      (Some (\<lambda>m. if m = ''hb'' then None else Some default_event)) ([''hb'', ''add''], Read_closed) = Inr c
    \<and> ws_calls canned 2 c = Some [Delivered default_event, Finished]"
proof -
  let ?parser = "\<lambda>m. if m = ''hb'' then None else Some default_event"
  let ?c = "\<lparr>wk_parser = ?parser, wk_stream = ([''hb'', ''add''], Read_closed), wk_buffer = []\<rparr>"
  have inc: "incoming canned id" by (simp add: incoming_def canned_def split_beta)
  have opened: "ws_open canned \<lparr>wc_host = ''x'', wc_port = ''443'', wc_target = ''/'', wc_subscription_message = [], wc_verify_peer = True\<rparr>
      (Some ?parser) ([''hb'', ''add''], Read_closed) = Inr ?c"
    by (simp add: ws_open_def ws_call_def canned_def)
  have "ws_calls canned 2 ?c = Some [Delivered default_event, Finished]"
    using websocket_delivers_parsed [OF inc opened, of "[''hb'', ''add'']" Read_closed]
    by (simp add: List.map_filter_simps ws_ended_def numeral_2_eq_2)
  then show ?thesis using opened by blast
qed

end
