(* ===== verification/Storage.thy ===== *)
theory Storage
  imports Matching
begin

text \<open>
  The storage of an \<^verbatim>\<open>OrderBook\<close>: six vectors that get their sizes in the constructor, and that no operation makes
  grow or shrink. That the indices kept in them stay within those sizes is shown in \<^verbatim>\<open>Bounds\<close>.
\<close>

record storage_sizes =
  sz_orders :: nat
  sz_levels :: nat
  sz_order_lookup :: nat
  sz_level_lookup :: nat
  sz_bid_heap :: nat
  sz_ask_heap :: nat

definition storage :: "order_book \<Rightarrow> storage_sizes" where
  "storage bk = \<lparr>sz_orders = length (orders bk), sz_levels = length (levels bk), sz_order_lookup = length (order_lookup bk),
     sz_level_lookup = length (level_lookup bk), sz_bid_heap = length (bid_heap bk), sz_ask_heap = length (ask_heap bk)\<rparr>"

named_theorems storage_simps

section \<open>Updates of single members\<close>

lemma storage_members [storage_simps]:
  "storage (bk\<lparr>bid_heap_size := n\<rparr>) = storage bk" "storage (bk\<lparr>ask_heap_size := n\<rparr>) = storage bk"
  "storage (bk\<lparr>free_order := n\<rparr>) = storage bk" "storage (bk\<lparr>free_level := n\<rparr>) = storage bk"
  "storage (bk\<lparr>active_orders := w\<rparr>) = storage bk" "storage (bk\<lparr>next_priority := w\<rparr>) = storage bk"
  "storage (bk\<lparr>fill_sequence := w\<rparr>) = storage bk"
  "length os = length (orders bk) \<Longrightarrow> storage (bk\<lparr>orders := os\<rparr>) = storage bk"
  "length lv = length (levels bk) \<Longrightarrow> storage (bk\<lparr>levels := lv\<rparr>) = storage bk"
  "length t = length (order_lookup bk) \<Longrightarrow> storage (bk\<lparr>order_lookup := t\<rparr>) = storage bk"
  "length u = length (level_lookup bk) \<Longrightarrow> storage (bk\<lparr>level_lookup := u\<rparr>) = storage bk"
  by (simp_all add: storage_def)

lemma storage_upd [storage_simps]:
  "storage (upd_order i f bk) = storage bk" "storage (upd_level i g bk) = storage bk"
  "storage (set_side_heap_size sd n bk) = storage bk"
  "length h = length (side_heap sd bk) \<Longrightarrow> storage (set_side_heap sd h bk) = storage bk"
  by (simp_all add: storage_def upd_order_def upd_level_def set_side_heap_size_def set_side_heap_def side_heap_def)

section \<open>The indexes and the ladders\<close>

lemma length_index [simp]:
  "length (snd (insert_order_slot t oid v)) = length t" "length (erase_order_slot t oid) = length t"
  "length (snd (insert_level_slot u k v)) = length u" "length (erase_level_slot u k) = length u"
  by (simp_all add: insert_order_slot_unfold erase_order_slot_unfold insert_level_slot_unfold erase_level_slot_unfold
      split: prod.split option.split)

lemma length_swap: "length (fst (swap_slots s a b)) = length (fst s) \<and> length (snd (swap_slots s a b)) = length (snd s)"
  by (cases s) (simp add: Let_def set_heap_pos_def)

lemma length_sift_up: "length (fst (sift_up sd s pos)) = length (fst s) \<and> length (snd (sift_up sd s pos)) = length (snd s)"
proof (induction sd s pos rule: sift_up.induct)
  case (1 sd h lv pos)
  then show ?case using length_swap [of "(h, lv)" pos "(pos - 1) div 2"] by (subst (1 2) sift_up.simps) (simp add: Let_def del: swap_slots.simps)
qed

lemma length_sift_down:
  "length (fst (sift_down sd n s pos)) = length (fst s) \<and> length (snd (sift_down sd n s pos)) = length (snd s)"
proof (induction sd n s pos rule: sift_down.induct)
  case (1 sd n s pos)
  then show ?case using length_swap [of s pos "best_child sd n s pos"] by (subst (1 2) sift_down.simps) (simp add: Let_def del: swap_slots.simps)
qed

lemma storage_sifts [storage_simps]:
  "storage (ladder_sift_up sd pos bk) = storage bk" "storage (ladder_sift_down sd pos bk) = storage bk"
  using length_sift_up [of sd "(side_heap sd bk, levels bk)" pos]
    length_sift_down [of sd "side_heap_size sd bk" "(side_heap sd bk, levels bk)" pos]
  by (auto simp: ladder_sift_up_def ladder_sift_down_def storage_simps split: prod.split)

lemma storage_ladder [storage_simps]:
  "storage (ladder_push sd i bk) = storage bk" "storage (ladder_remove sd i bk) = storage bk"
  by (simp_all add: ladder_push_def ladder_remove_def Let_def storage_simps)

section \<open>The operations\<close>

lemma storage_levels [storage_simps]:
  "storage (snd (acquire_level sd p bk)) = storage bk" "storage (release_level i bk) = storage bk"
proof -
  show "storage (release_level i bk) = storage bk" by (simp add: release_level_def Let_def storage_simps)
  obtain b t where ins: "insert_level_slot (level_lookup bk) (sd, p) (free_level bk) = (b, t)" by fastforce
  then have "length t = length (level_lookup bk)"
    using length_index(3) [of "level_lookup bk" "(sd, p)" "free_level bk"] by simp
  then show "storage (snd (acquire_level sd p bk)) = storage bk"
    by (simp add: acquire_level_def Let_def ins storage_simps split: bool.split)
qed

lemma storage_queues [storage_simps]:
  "storage (link_tail oi li bk) = storage bk" "storage (detach oi bk) = storage bk" "storage (unlink oi bk) = storage bk"
  "storage (free_order_slot oi bk) = storage bk" "storage (erase_order_lookup oid bk) = storage bk"
  by (simp_all add: link_tail_def detach_def unlink_def free_order_slot_def erase_order_lookup_def Let_def storage_simps)

lemma storage_acquired: "acquire_level sd p bk = (li, b1) \<Longrightarrow> storage b1 = storage bk"
  using storage_levels(1) [of sd p bk] by simp

lemma storage_rest_order [storage_simps]: "storage (snd (rest_order oid sd p q bk)) = storage bk"
proof -
  obtain li b1 where acq: "acquire_level sd p bk = (li, b1)" by (cases "acquire_level sd p bk")
  have "length t = length (order_lookup bk)" if "insert_order_slot (order_lookup bk) oid oi = (b, t)" for oi b t
    using length_index(1) [of "order_lookup bk" oid oi] that by simp
  moreover have "order_lookup b1 = order_lookup bk" using acquire_level_frame(2) [of sd p bk] by (simp add: acq)
  ultimately show ?thesis using storage_acquired [OF acq]
    by (auto simp: rest_order_def acq Let_def storage_simps split: prod.split bool.split)
qed

lemma storage_cancel [storage_simps]: "storage (snd (cancel oid bk)) = storage bk"
  by (simp add: cancel_def Let_def storage_simps)

lemma storage_modify: "storage (snd (modify e bk)) = storage bk"
proof -
  let ?i = "find_order_index (ev_order_id e) bk"
  obtain li b1 where acq: "acquire_level (ev_side e) (ev_price e) (unlink ?i bk) = (li, b1)"
    by (cases "acquire_level (ev_side e) (ev_price e) (unlink ?i bk)")
  then have "storage b1 = storage bk" using storage_acquired [OF acq] by (simp add: storage_simps)
  then show ?thesis by (simp add: modify_def acq Let_def storage_simps)
qed

lemma storage_process_event: "storage (snd (process_event e bk)) = storage bk"
  by (cases "ev_type e")
    (simp_all add: process_event_def add_def trade_def replace_def storage_modify storage_simps Let_def)

lemma storage_process_events: "storage (snd (process_events es bk)) = storage bk"
  by (induction es arbitrary: bk) (simp_all add: split_beta storage_process_event)

section \<open>Match mode\<close>

lemma storage_remove_maker [storage_simps]: "storage (remove_maker oi bk) = storage bk"
  by (simp add: remove_maker_def Let_def storage_simps)

lemma storage_level_loop: "level_loop req p li oi st = Some st' \<Longrightarrow> storage (snd (snd st')) = storage (snd (snd st))"
proof (induction rule: level_loop.raw_induct [rotated, consumes 1])
  case (1 level_loop req p li oi st st')
  obtain remaining fills bk where st: "st = (remaining, fills, bk)" by (cases st)
  show ?case using 1 by (auto simp: st Let_def storage_simps split: if_splits)
qed

lemma storage_match_loop: "match_loop req st = Some st' \<Longrightarrow> storage (snd (snd st')) = storage (snd (snd st))"
proof (induction rule: match_loop.raw_induct [rotated, consumes 1])
  case (1 match_loop req st st')
  obtain remaining fills bk where st: "st = (remaining, fills, bk)" by (cases st)
  let ?li = "ladder_top (opposite (rq_side req)) bk"
  show ?case
  proof (cases "remaining = 0 \<or> ?li = npos \<or> \<not> crosses req (l_price (levels bk ! ?li))")
    case True
    then show ?thesis using 1(2) by (auto simp: st Let_def split: if_splits)
  next
    case False
    then obtain s1 where "level_loop req (l_price (levels bk ! ?li)) ?li (l_head (levels bk ! ?li)) st = Some s1" "match_loop req s1 = Some st'"
      using 1(2) by (auto simp: st Let_def bind_eq_Some_conv)
    then show ?thesis using 1(1) storage_level_loop by metis
  qed
qed

lemma storage_submit:
  assumes "submit req bk = Some (r, fs, bk')"
  shows "storage bk' = storage bk"
proof -
  have settle: "storage (snd (snd (settle req st))) = storage (snd (snd st))" for st
    using storage_rest_order [of "rq_id req" "rq_side req" "rq_price req" "fst st" "snd (snd st)"]
    by (cases st) (auto simp: settle_def Let_def split: prod.split)
  show ?thesis
  proof (cases "rq_type req = CancelOrder")
    case True
    then show ?thesis using assms storage_cancel [of "rq_id req" bk] by (auto simp: submit_def split: prod.splits)
  next
    case False
    then show ?thesis using assms settle storage_match_loop [of req "(rq_quantity req, [], bk)"]
      by (auto simp: submit_def split: if_splits) (metis snd_conv)+
  qed
qed

end
