(* ===== verification/Bounds.thy ===== *)
theory Bounds
  imports Storage MatchProps
begin

text \<open>
  The indices an \<^verbatim>\<open>OrderBook\<close> keeps. Its vectors are read and written through \<^verbatim>\<open>operator[]\<close>, which does not check
  them: every index that is followed - the free lists, the links of the queues, the levels of the orders, the positions in the
  heaps, the values of the two hash indexes - must be the sentinel where the code tests for it, and a position of the
  vector it is for everywhere else. Apply mode and match mode keep that, until a modification loses its order.
\<close>

section \<open>Indices in bounds\<close>

definition optional_index :: "nat \<Rightarrow> nat \<Rightarrow> bool" where
  "optional_index n i \<longleftrightarrow> i = npos \<or> i < n"

text \<open>The members of the entries of the two pools: those the code follows in an active entry, and in a free one.\<close>

definition order_in_bounds :: "order_book \<Rightarrow> nat \<Rightarrow> order \<Rightarrow> bool" where
  "order_in_bounds bk n r \<longleftrightarrow>
     (if o_active r then o_level r < n \<and> l_active (levels bk ! o_level r) \<and> optional_index n (o_prev r) \<and> optional_index n (o_next r)
      else optional_index n (o_next_free r))"

definition level_in_bounds :: "order_book \<Rightarrow> nat \<Rightarrow> level \<Rightarrow> bool" where
  "level_in_bounds bk n l \<longleftrightarrow>
     (if l_active l then l_head l < n \<and> l_tail l < n \<and> l_heap_pos l < side_heap_size (l_side l) bk
      else optional_index n (l_next_free l))"

definition in_bounds :: "nat \<Rightarrow> order_book \<Rightarrow> bool" where
  "in_bounds n bk \<longleftrightarrow>
     storage bk = \<lparr>sz_orders = n, sz_levels = n, sz_order_lookup = next_power_of_two (2 * n),
       sz_level_lookup = next_power_of_two (2 * n), sz_bid_heap = n, sz_ask_heap = n\<rparr>
     \<and> optional_index n (free_order bk) \<and> optional_index n (free_level bk)
     \<and> list_all (order_in_bounds bk n) (orders bk) \<and> list_all (level_in_bounds bk n) (levels bk)
     \<and> bid_heap_size bk \<le> n \<and> list_all (\<lambda>i. i < n) (take (bid_heap_size bk) (bid_heap bk))
     \<and> ask_heap_size bk \<le> n \<and> list_all (\<lambda>i. i < n) (take (ask_heap_size bk) (ask_heap bk))
     \<and> list_all (\<lambda>s. if os_state s = Occupied then os_value s < n \<and> o_active (orders bk ! os_value s) else True) (order_lookup bk)
     \<and> list_all (\<lambda>s. if ls_state s = Occupied then ls_value s < n \<and> l_active (levels bk ! ls_value s) else True) (level_lookup bk)"

section \<open>A well-formed book keeps its indices in bounds\<close>

lemma chain_next: "chain nx i xs \<Longrightarrow> j \<in> set xs \<Longrightarrow> nx j = npos \<or> nx j \<in> set xs"
proof (induction xs arbitrary: i)
  case (Cons x xs)
  then show ?case by (cases xs) auto
qed simp

lemma free_in_bounds:
  assumes "pool_ok nx act rs head"
  shows "optional_index (length rs) head" and "i < length rs \<Longrightarrow> \<not> act (rs ! i) \<Longrightarrow> optional_index (length rs) (nx (rs ! i))"
proof -
  obtain xs where xs: "chain (\<lambda>i. nx (rs ! i)) head xs" "set xs = {i. i < length rs \<and> \<not> act (rs ! i)}"
    using assms unfolding pool_ok_def by blast
  show "optional_index (length rs) head" using xs by (cases xs) (auto simp: optional_index_def)
  show "optional_index (length rs) (nx (rs ! i))" if "i < length rs" "\<not> act (rs ! i)"
    using chain_next [OF xs(1), of i] xs(2) that by (auto simp: optional_index_def)
qed

lemma first_last_in: "xs \<noteq> [] \<Longrightarrow> first_or xs d \<in> set xs" "xs \<noteq> [] \<Longrightarrow> last_or d xs \<in> set xs"
proof -
  show "xs \<noteq> [] \<Longrightarrow> first_or xs d \<in> set xs" by (cases xs) simp_all
  show "xs \<noteq> [] \<Longrightarrow> last_or d xs \<in> set xs" by (induction xs arbitrary: d rule: rev_induct) simp_all
qed

lemma seg_links:
  "seg os p xs n \<Longrightarrow> i \<in> set xs \<Longrightarrow> (o_prev (os ! i) = p \<or> o_prev (os ! i) \<in> set xs) \<and> (o_next (os ! i) = n \<or> o_next (os ! i) \<in> set xs)"
proof (induction xs arbitrary: p)
  case (Cons x xs)
  have "first_or xs n = n \<or> first_or xs n \<in> set xs" by (cases xs) simp_all
  then show ?case using Cons by auto
qed simp

lemma order_slots_in_bounds:
  assumes ok: "book_ok bk" and i: "i < length (orders bk)"
  shows "order_in_bounds bk (length (orders bk)) (orders bk ! i)"
proof (cases "o_active (orders bk ! i)")
  case False
  then show ?thesis using free_in_bounds(2) [OF slots_invD(3) [OF book_okD(2) [OF ok]] i] by (simp add: order_in_bounds_def)
next
  case True
  note b = book_okD [OF ok] and d = depth_okD [OF book_okD(1) [OF ok]]
  have q: "i \<in> queued bk" using True i b(3) by (simp add: active_slots_def)
  note at = queued_slots_at [OF b(1) q]
  let ?li = "o_level (orders bk ! i)"
  have li: "?li \<in> active_levels bk" using at(2) by (simp add: level_at_def)
  note queue = queue_okD [OF queues_invD(2) [OF d(2) li]]
  have "i \<in> set (queue_slots bk ?li)" using at(1,3) by simp
  then have "(o_prev (orders bk ! i) = npos \<or> o_prev (orders bk ! i) \<in> set (queue_slots bk ?li))
      \<and> (o_next (orders bk ! i) = npos \<or> o_next (orders bk ! i) \<in> set (queue_slots bk ?li))" by (rule seg_links [OF queue(3)])
  moreover have "j < length (orders bk)" if "j \<in> set (queue_slots bk ?li)" for j
    using queue_entry_less [OF queue(2) [OF that]] .
  ultimately show ?thesis using True li d(4) by (auto simp: order_in_bounds_def optional_index_def active_levels_def)
qed

lemma ladder_in_bounds:
  assumes ok: "book_ok bk"
  shows "side_heap_size sd bk \<le> length (levels bk)" and "list_all (\<lambda>i. i < length (levels bk)) (take (side_heap_size sd bk) (side_heap sd bk))"
    and "i \<in> active_levels bk \<Longrightarrow> l_side (levels bk ! i) = sd \<Longrightarrow> l_heap_pos (levels bk ! i) < side_heap_size sd bk"
proof -
  note d = dir_invD [OF depth_okD(1) [OF book_okD(1) [OF ok]]]
  have ix: "indexed (side_heap_size sd bk) (side_heap sd bk, levels bk)" using d(5) [of sd] by (simp add: ladder_ok_def)
  then show n: "side_heap_size sd bk \<le> length (levels bk)" using d(2) [of sd] by (simp add: indexed_def)
  show "list_all (\<lambda>i. i < length (levels bk)) (take (side_heap_size sd bk) (side_heap sd bk))"
    using ix by (simp add: list_all_length indexed_def)
  show "l_heap_pos (levels bk ! i) < side_heap_size sd bk" if "i \<in> active_levels bk" "l_side (levels bk ! i) = sd"
  proof -
    have "i \<in> set (take (side_heap_size sd bk) (side_heap sd bk))" using d(6) [of sd] that unfolding ladder_members_def by blast
    then obtain k where "k < side_heap_size sd bk" "side_heap sd bk ! k = i" by (auto simp: in_set_conv_nth)
    then show ?thesis using ix by (auto simp: indexed_def)
  qed
qed

lemma level_slots_in_bounds:
  assumes ok: "book_ok bk" and i: "i < length (levels bk)"
  shows "level_in_bounds bk (length (levels bk)) (levels bk ! i)"
proof (cases "l_active (levels bk ! i)")
  case False
  then show ?thesis
    using free_in_bounds(2) [OF dir_invD(7) [OF depth_okD(1) [OF book_okD(1) [OF ok]]] i] by (simp add: level_in_bounds_def)
next
  case True
  note d = depth_okD [OF book_okD(1) [OF ok]]
  have li: "i \<in> active_levels bk" using True i by (simp add: active_levels_def)
  note queue = queue_okD [OF queues_invD(2) [OF d(2) li]]
  have "l_head (levels bk ! i) \<in> set (queue_slots bk i)" "l_tail (levels bk ! i) \<in> set (queue_slots bk i)"
    using first_last_in [OF d(3) [OF li]] unfolding queue(4,5) by blast+
  moreover have "j < length (orders bk)" if "j \<in> set (queue_slots bk i)" for j
    using queue_entry_less [OF queue(2) [OF that]] .
  ultimately show ?thesis using True ladder_in_bounds(3) [OF ok li refl] d(4) by (simp add: level_in_bounds_def)
qed

lemma lookups_in_bounds:
  assumes ok: "book_ok bk"
  shows "list_all (\<lambda>s. if os_state s = Occupied then os_value s < length (orders bk) \<and> o_active (orders bk ! os_value s) else True) (order_lookup bk)"
    and "list_all (\<lambda>s. if ls_state s = Occupied then ls_value s < length (levels bk) \<and> l_active (levels bk ! ls_value s) else True) (level_lookup bk)"
proof -
  note b = book_okD [OF ok] and d = depth_okD [OF book_okD(1) [OF ok]]
  have "os_value s < length (orders bk) \<and> o_active (orders bk ! os_value s)" if "s \<in> set (order_lookup bk)" "os_state s = Occupied" for s
  proof -
    have "order_maps (order_lookup bk) (os_key s) (os_value s)" using that by (auto simp: ring_stores_def in_set_conv_nth)
    then show ?thesis using slots_invD(2) [OF b(2)] by (simp add: active_slots_def)
  qed
  then show "list_all (\<lambda>s. if os_state s = Occupied then os_value s < length (orders bk) \<and> o_active (orders bk ! os_value s) else True) (order_lookup bk)"
    by (simp add: list_all_iff)
  have "ls_value s < length (levels bk) \<and> l_active (levels bk ! ls_value s)" if "s \<in> set (level_lookup bk)" "ls_state s = Occupied" for s
  proof -
    have "level_maps (level_lookup bk) (level_slot_key s) (ls_value s)" using that by (auto simp: ring_stores_def in_set_conv_nth)
    then have "level_at bk (fst (level_slot_key s)) (snd (level_slot_key s)) (ls_value s)"
      using dir_invD(4) [OF d(1), of "fst (level_slot_key s)" "snd (level_slot_key s)"] by simp
    then show ?thesis by (simp add: level_at_def active_levels_def)
  qed
  then show "list_all (\<lambda>s. if ls_state s = Occupied then ls_value s < length (levels bk) \<and> l_active (levels bk ! ls_value s) else True) (level_lookup bk)"
    by (simp add: list_all_iff)
qed

lemma book_in_bounds:
  assumes ok: "book_ok bk" and sizes: "storage bk = \<lparr>sz_orders = n, sz_levels = n, sz_order_lookup = next_power_of_two (2 * n),
      sz_level_lookup = next_power_of_two (2 * n), sz_bid_heap = n, sz_ask_heap = n\<rparr>"
  shows "in_bounds n bk"
proof -
  have n: "length (orders bk) = n" "length (levels bk) = n" using sizes by (simp_all add: storage_def)
  have orders: "list_all (order_in_bounds bk n) (orders bk)" and levels: "list_all (level_in_bounds bk n) (levels bk)"
    using order_slots_in_bounds [OF ok] level_slots_in_bounds [OF ok] n by (simp_all add: list_all_length)
  have free: "optional_index n (free_order bk)" "optional_index n (free_level bk)"
    using free_in_bounds(1) [OF slots_invD(3) [OF book_okD(2) [OF ok]]]
      free_in_bounds(1) [OF dir_invD(7) [OF depth_okD(1) [OF book_okD(1) [OF ok]]]] n by simp_all
  have heaps: "bid_heap_size bk \<le> n" "list_all (\<lambda>i. i < n) (take (bid_heap_size bk) (bid_heap bk))"
    "ask_heap_size bk \<le> n" "list_all (\<lambda>i. i < n) (take (ask_heap_size bk) (ask_heap bk))"
    using ladder_in_bounds(1,2) [OF ok, of Buy] ladder_in_bounds(1,2) [OF ok, of Sell] n
    by (simp_all add: side_heap_def side_heap_size_def)
  note lookups = lookups_in_bounds [OF ok, unfolded n]
  show ?thesis unfolding in_bounds_def by (intro conjI sizes free orders levels heaps lookups)
qed

section \<open>Every call keeps the book well formed, but a refused modification\<close>

lemma rest_order_keeps:
  assumes ok: "book_ok bk"
  shows "book_ok (snd (rest_order oid sd p q bk))"
proof -
  consider "q = 0 \<or> find_order_index oid bk \<noteq> npos \<or> free_order bk = npos"
    | "q \<noteq> 0" "find_order_index oid bk = npos" "free_order bk \<noteq> npos" "level_available sd p bk"
    | "q \<noteq> 0" "find_order_index oid bk = npos" "free_order bk \<noteq> npos" "\<not> level_available sd p bk" by blast
  then show ?thesis
  proof cases
    case 1
    then show ?thesis using ok by (auto simp: rest_order_def)
  next
    case 2
    then show ?thesis by (rule rest_order_ok(2) [OF ok])
  next
    case 3
    obtain b1 where b1: "acquire_level sd p bk = (npos, b1)" "depth_ok b1" "queued b1 = queued bk"
      by (rule acquire_level_fails [OF book_okD(1) [OF ok] 3(4)]) (rule that; assumption)
    note fr = acquire_level_frame [of sd p bk, unfolded b1(1) snd_conv]
    have "slots_inv b1" "active_slots b1 = active_slots bk" by (rule slots_inv_cong [OF book_okD(2) [OF ok]]; simp add: fr)+
    then have "book_ok b1" using b1(2,3) book_okD(3) [OF ok] by (simp add: book_ok_def)
    then show ?thesis using 3 by (simp add: rest_order_def b1(1))
  qed
qed

lemma modify_keeps:
  assumes ok: "book_ok bk" and r: "fst (modify e bk) \<noteq> CapacityExhausted"
  shows "book_ok (snd (modify e bk))"
proof (cases "ev_quantity e = 0 \<or> find_order_index (ev_order_id e) bk = npos")
  case True
  then show ?thesis using ok by (auto simp: modify_def Let_def)
next
  case False
  let ?i = "find_order_index (ev_order_id e) bk"
  let ?o = "orders bk ! ?i"
  have q: "ev_quantity e \<noteq> 0" and found: "?i \<noteq> npos" using False by simp_all
  have oi: "?i \<in> active_slots bk" using find_order_iff(2) [OF book_okD(2) [OF ok] refl found] by blast
  show ?thesis
  proof (cases "o_side ?o = ev_side e \<and> o_price ?o = ev_price e")
    case True
    define b1 where "b1 = upd_order ?i (o_quantity_update (\<lambda>_. ev_quantity e))
        (upd_level (o_level ?o) (\<lambda>l. l\<lparr>l_total_quantity := l_total_quantity l - o_quantity ?o + ev_quantity e\<rparr>) bk)"
    have "book_ok b1" by (rule requantify_ok(1) [OF ok oi q]; simp add: b1_def)
    moreover have "modify e bk = (Applied, b1)" using q found True by (simp add: modify_def Let_def b1_def)
    ultimately show ?thesis by simp
  next
    case other: False
    note m = modify_relocate [OF ok q refl found other]
    have "level_available (ev_side e) (ev_price e) (unlink ?i bk)" using relocate_lost(1) [OF ok oi] r unfolding m by blast
    then show ?thesis unfolding m by (rule relocate_available(2) [OF ok oi q])
  qed
qed

text \<open>The one defect: the modification that \<^verbatim>\<open>CapacityExhausted\<close> refuses has unlinked its order.\<close>

definition loses_order :: "market_data_event \<Rightarrow> order_book \<Rightarrow> bool" where
  "loses_order e bk \<longleftrightarrow> ev_type e = Modify \<and> fst (process_event e bk) = CapacityExhausted"

lemma process_event_keeps:
  assumes ok: "book_ok bk" and kept: "\<not> loses_order e bk"
  shows "book_ok (snd (process_event e bk))"
proof -
  have cancels: "book_ok (snd (cancel oid bk))" for oid using cancel_refines [OF ok] by (simp add: refines_def)
  show ?thesis
  proof (cases "ev_type e")
    case Modify
    then show ?thesis using modify_keeps [OF ok] kept by (simp add: loses_order_def process_event_def)
  next
    case Replace
    then show ?thesis using ok rest_order_keeps [OF cancels] by (simp add: process_event_def replace_def Let_def)
  qed (use rest_order_keeps [OF ok] cancels trade_refines [OF ok] in \<open>simp_all add: process_event_def add_def refines_def\<close>)
qed

lemma submit_keeps:
  assumes ok: "book_ok bk" and s: "submit req bk = Some (r, fs, bk')"
  shows "book_ok bk'"
proof (cases "rq_type req = CancelOrder")
  case True
  then show ?thesis using s cancel_refines [OF ok, of "rq_id req"] by (auto simp: submit_def refines_def split: prod.splits)
next
  case False
  then have new: "rq_type req = NewOrder" by (cases "rq_type req") simp_all
  show ?thesis
  proof (cases "accepted req bk")
    case True
    obtain remaining fs1 b1 where run: "submit req bk = Some (settle req (remaining, fs1, b1))" "loop_frame bk b1"
      by (rule submit_accepted [OF ok True])
    then have "book_ok b1" by (simp add: loop_frame_def)
    with rest_order_keeps have "book_ok (snd (snd (settle req (remaining, fs1, b1))))"
      by (simp add: settle_def Let_def split: prod.split) (metis snd_conv)
    moreover have "settle req (remaining, fs1, b1) = (r, fs, bk')" using run(1) s by simp
    ultimately show ?thesis by simp
  next
    case False
    then show ?thesis using submit_rejected [OF new] s ok by simp
  qed
qed

section \<open>Property\<close>

text \<open>The books reached from one by the calls that change it, as long as no modification loses its order.\<close>

inductive book_reaches :: "order_book \<Rightarrow> order_book \<Rightarrow> bool" where
  here: "book_reaches bk bk"
| event: "book_reaches bk b1 \<Longrightarrow> \<not> loses_order e b1 \<Longrightarrow> book_reaches bk (snd (process_event e b1))"
| request: "book_reaches bk b1 \<Longrightarrow> submit req b1 = Some (r, fs, b2) \<Longrightarrow> book_reaches bk b2"

lemma reaches_keeps: "book_reaches bk bk' \<Longrightarrow> book_ok bk \<Longrightarrow> book_ok bk' \<and> storage bk' = storage bk"
  by (induction rule: book_reaches.induct) (use submit_keeps in \<open>auto simp: storage_process_event storage_submit process_event_keeps\<close>)

text \<open>
  C5. Memory safety of the unchecked vectors: whatever events and requests a book of capacity \<^verbatim>\<open>n\<close> is given, in whatever order
  and with whatever results, as long as no modification is refused for lack of a level (which loses its order), the
  two pools and the two heaps have \<^verbatim>\<open>n\<close> entries and the two hash indexes the least power of two from \<open>2 n\<close> on, as
  constructed, and every index the book keeps is within them: free lists and queue links are the sentinel or a pool entry; every active
  order has an active level; every active level has a first and a last order and a position in the heap of its side; the heaps hold
  level entries; and what the two hash indexes map a key to is an active entry.
\<close>

theorem indices_in_bounds:
  assumes "new_book n = Inr bk" and "book_reaches bk bk'"
  shows "in_bounds n bk'"
proof -
  note f = new_book_fields [OF assms(1)]
  have "length (bid_heap bk) = n" "length (ask_heap bk) = n" using f(12) [of Buy] f(12) [of Sell] by (simp_all add: side_heap_def)
  then have "storage bk = \<lparr>sz_orders = n, sz_levels = n, sz_order_lookup = next_power_of_two (2 * n),
      sz_level_lookup = next_power_of_two (2 * n), sz_bid_heap = n, sz_ask_heap = n\<rparr>" using f by (simp add: storage_def mult.commute)
  then show ?thesis using reaches_keeps [OF assms(2) new_book_ok(1) [OF assms(1)]] by (simp add: book_in_bounds)
qed

text \<open>A book of one order: filled, refused a second one, and emptied by a request.\<close>

lemma indices_in_bounds_witness:
  "let e = default_event\<lparr>ev_order_id := 1, ev_price := 100, ev_quantity := 5\<rparr>;
       b1 = snd (process_event (e\<lparr>ev_order_id := 2\<rparr>) (snd (process_event e (projr (new_book 1)))))
   in \<exists>r fs b2. submit \<lparr>rq_type = CancelOrder, rq_id = 1, rq_side = Buy, rq_price = 0, rq_quantity = 0, rq_order_type = Limit,
        rq_tif = GTC\<rparr> b1 = Some (r, fs, b2) \<and> in_bounds 1 b1 \<and> in_bounds 1 b2"
proof -
  let ?e = "default_event\<lparr>ev_order_id := 1, ev_price := 100, ev_quantity := 5\<rparr>"
  let ?b1 = "snd (process_event (?e\<lparr>ev_order_id := 2\<rparr>) (snd (process_event ?e (projr (new_book 1)))))"
  let ?req = "\<lparr>rq_type = CancelOrder, rq_id = 1, rq_side = Buy, rq_price = 0, rq_quantity = 0, rq_order_type = Limit, rq_tif = GTC\<rparr>"
  obtain r fs b2 where s: "submit ?req ?b1 = Some (r, fs, b2)" by (cases "cancel 1 ?b1") (simp add: submit_def)
  have new: "new_book 1 = Inr (projr (new_book 1))" by (simp add: new_book_def npos_def)
  have kept: "\<not> loses_order ?e b" "\<not> loses_order (?e\<lparr>ev_order_id := 2\<rparr>) b" for b
    by (simp_all add: loses_order_def default_event_def)
  have r1: "book_reaches (projr (new_book 1)) ?b1" by (rule event [OF event [OF here kept(1)] kept(2)])
  then have "book_reaches (projr (new_book 1)) b2" by (rule request [OF _ s])
  then show ?thesis using indices_in_bounds [OF new r1] indices_in_bounds [OF new] s by (auto simp: Let_def)
qed

end
