(* ===== verification/BenchStats.thy ===== *)
theory BenchStats
  imports QueueModel Csv
begin

text \<open>
  What the benchmarks of \<^verbatim>\<open>Benchmark.cpp\<close> share: the event count of the command line, the readings of the
  instruments, the distribution and the median of samples, the checksum folded over runs, and the
  random source of the workloads. A clock reading is a parameter, the one the run takes at that point of
  its sequence of readings; so are the heap allocations the replaced \<^verbatim>\<open>operator new\<close> counts.
\<close>

section \<open>Constants, errors, arguments\<close>

definition measured_runs :: nat where
  "measured_runs = 10"

definition bench_orders :: nat where
  "bench_orders = 32768"

definition base_seed :: u64 where
  "base_seed = 0x5eed12349876abcd"

text \<open>
  What a benchmark throws. \<^verbatim>\<open>Length_error\<close> is the library's, of a vector longer than \<^verbatim>\<open>max_size()\<close>; \<^verbatim>\<open>Undefined_cast\<close> is no
  exception but a cast to \<^verbatim>\<open>uint64_t\<close> of a double without a value there, after which the program has no meaning.
\<close>

datatype bench_error =
    Count_not_positive
  | Book_not_constructed
  | Seed_failed
  | Event_rejected
  | Line_rejected csv_error
  | Maker_failed
  | Taker_not_filled
  | Decode_failed
  | Pipeline_event_rejected
  | Length_error
  | Undefined_cast

definition parse_count :: "string \<Rightarrow> bench_error + nat" where
  "parse_count text =
     (case from_chars_u64 text of (ptr, r) \<Rightarrow>
        (case r of Inl _ \<Rightarrow> Inl Count_not_positive
         | Inr v \<Rightarrow> if ptr \<noteq> [] \<or> v = 0 then Inl Count_not_positive else Inr (unat v)))"

text \<open>The readings of one run: \<^verbatim>\<open>rd_clock k\<close> is the \<^verbatim>\<open>k\<close>-th of its clock, in nanoseconds.\<close>

record readings =
  rd_clock :: "nat \<Rightarrow> u64"
  rd_allocations :: u64

definition seconds_between :: "(rat \<Rightarrow> rat) \<Rightarrow> u64 \<Rightarrow> u64 \<Rightarrow> rat" where
  "seconds_between rnd start end_ns = rnd (to_double rnd (end_ns - start) / 10 ^ 9)"

section \<open>Rates\<close>

text \<open>
  The rates are doubles that a division by a duration gives, and the duration is zero when the clock has not moved. The
  order is that of the finite ones below infinity; the last value has no place in it, and no positive count gives it.
\<close>

datatype double = Finite rat | Infinite | Not_a_number

instantiation double :: linorder
begin

fun less_eq_double :: "double \<Rightarrow> double \<Rightarrow> bool" where
  "less_eq_double (Finite x) (Finite y) = (x \<le> y)"
| "less_eq_double (Finite x) Infinite = True"
| "less_eq_double Infinite (Finite y) = False"
| "less_eq_double Infinite Infinite = True"
| "less_eq_double d Not_a_number = True"
| "less_eq_double Not_a_number d = False"

definition less_double :: "double \<Rightarrow> double \<Rightarrow> bool" where
  "less_double c d \<longleftrightarrow> c \<le> d \<and> \<not> d \<le> (c :: double)"

instance
proof
  fix a b c :: double
  show "a < b \<longleftrightarrow> a \<le> b \<and> \<not> b \<le> a" by (simp add: less_double_def)
  show "a \<le> a" by (cases a) simp_all
  show "a \<le> b \<Longrightarrow> b \<le> c \<Longrightarrow> a \<le> c" by (cases a; cases b; cases c) simp_all
  show "a \<le> b \<Longrightarrow> b \<le> a \<Longrightarrow> a = b" by (cases a; cases b) simp_all
  show "a \<le> b \<or> b \<le> a" by (cases a; cases b) auto
qed

end

text \<open>\<^verbatim>\<open>divided\<close>: non-negative operands. The comparison \<^verbatim>\<open>>=\<close> is false for the value that is no number.\<close>

definition divided :: "(rat \<Rightarrow> rat) \<Rightarrow> rat \<Rightarrow> rat \<Rightarrow> double" where
  "divided rnd a b = (if b \<noteq> 0 then Finite (rnd (a / b)) else if a = 0 then Not_a_number else Infinite)"

fun scaled :: "(rat \<Rightarrow> rat) \<Rightarrow> double \<Rightarrow> rat \<Rightarrow> double" where
  "scaled rnd (Finite x) c = Finite (rnd (x * c))"
| "scaled rnd d c = d"

text \<open>\<^verbatim>\<open>(low + high) / 2.0\<close>\<close>

fun halfway :: "(rat \<Rightarrow> rat) \<Rightarrow> double \<Rightarrow> double \<Rightarrow> double" where
  "halfway rnd (Finite x) (Finite y) = Finite (rnd (rnd (x + y) / 2))"
| "halfway rnd Not_a_number d = Not_a_number"
| "halfway rnd d Not_a_number = Not_a_number"
| "halfway rnd c d = Infinite"

definition at_least :: "double \<Rightarrow> double \<Rightarrow> bool" where
  "at_least c d \<longleftrightarrow> c \<noteq> Not_a_number \<and> d \<noteq> Not_a_number \<and> d \<le> c"

text \<open>\<^verbatim>\<open>static_cast<std::uint64_t>\<close>\<close>

definition cast_u64 :: "double \<Rightarrow> bench_error + u64" where
  "cast_u64 d =
     (case d of Finite x \<Rightarrow> if 0 \<le> x \<and> x < 2 ^ 64 then Inr (to_quantity x) else Inl Undefined_cast | _ \<Rightarrow> Inl Undefined_cast)"

definition per_second :: "(rat \<Rightarrow> rat) \<Rightarrow> nat \<Rightarrow> rat \<Rightarrow> double" where
  "per_second rnd n seconds = divided rnd (rnd (rat_of_nat n)) seconds"

section \<open>Distributions and medians\<close>

record distribution =
  ds_p50 :: u64
  ds_p95 :: u64
  ds_p99 :: u64
  ds_maximum :: u64

text \<open>The vector is sorted in place; the last value is \<^verbatim>\<open>samples.back()\<close>, undefined without samples.\<close>

definition sample_at :: "(rat \<Rightarrow> rat) \<Rightarrow> u64 list \<Rightarrow> rat \<Rightarrow> u64" where
  "sample_at rnd samples fraction = samples ! nat \<lfloor>rnd (fraction * rnd (rat_of_nat (length samples - 1)))\<rfloor>"

definition summarize :: "(rat \<Rightarrow> rat) \<Rightarrow> u64 list \<Rightarrow> distribution" where
  "summarize rnd samples =
     (let sorted = sort samples
      in \<lparr>ds_p50 = sample_at rnd sorted (rnd (50 / 100)), ds_p95 = sample_at rnd sorted (rnd (95 / 100)),
          ds_p99 = sample_at rnd sorted (rnd (99 / 100)), ds_maximum = last sorted\<rparr>)"

text \<open>
  \<^verbatim>\<open>median\<close> at its two types; \<^verbatim>\<open>ldbl\<close> rounds to \<^verbatim>\<open>long double\<close>, in which the two middle values are added.
\<close>

definition middle :: "(rat \<Rightarrow> rat) \<Rightarrow> rat \<Rightarrow> rat \<Rightarrow> rat" where
  "middle ldbl a b = ldbl (ldbl (ldbl a + ldbl b) / 2)"

definition median_u64 :: "(rat \<Rightarrow> rat) \<Rightarrow> u64 list \<Rightarrow> u64" where
  "median_u64 ldbl values =
     (let sorted = sort values; upper = length sorted div 2
      in if length sorted mod 2 \<noteq> 0 then sorted ! upper
         else to_quantity (middle ldbl (rat_of_nat (unat (sorted ! (upper - 1)))) (rat_of_nat (unat (sorted ! upper)))))"

definition median_double :: "(rat \<Rightarrow> rat) \<Rightarrow> (rat \<Rightarrow> rat) \<Rightarrow> double list \<Rightarrow> double" where
  "median_double rnd ldbl values =
     (let sorted = sort values; upper = length sorted div 2
      in if length sorted mod 2 \<noteq> 0 then sorted ! upper
         else (case (sorted ! (upper - 1), sorted ! upper) of
             (Finite a, Finite b) \<Rightarrow> Finite (rnd (middle ldbl a b))
           | (a, b) \<Rightarrow> halfway rnd a b))"

definition median_of :: "(rat \<Rightarrow> rat) \<Rightarrow> distribution list \<Rightarrow> distribution" where
  "median_of ldbl ds = \<lparr>ds_p50 = median_u64 ldbl (map ds_p50 ds), ds_p95 = median_u64 ldbl (map ds_p95 ds),
     ds_p99 = median_u64 ldbl (map ds_p99 ds), ds_maximum = median_u64 ldbl (map ds_maximum ds)\<rparr>"

definition fold_checksum :: "u64 \<Rightarrow> u64 \<Rightarrow> u64 \<Rightarrow> u64" where
  "fold_checksum aggregate v seed = checksum_mix (aggregate XOR word_rotl (unat (seed AND 63)) v XOR seed)"

section \<open>Runs one after the other\<close>

text \<open>The loop over measured runs; an exception ends it.\<close>

fun all_runs :: "(nat \<Rightarrow> 'e + 'a) \<Rightarrow> nat list \<Rightarrow> 'e + 'a list" where
  "all_runs f [] = Inr []"
| "all_runs f (r # rs) = and_then (f r) (\<lambda>x. and_then (all_runs f rs) (\<lambda>xs. Inr (x # xs)))"

definition run_seed :: "nat \<Rightarrow> u64" where
  "run_seed r = base_seed + word_of_nat r"

definition folded :: "u64 list \<Rightarrow> u64" where
  "folded checksums = fold (\<lambda>(r, c) aggregate. fold_checksum aggregate c (run_seed r)) (enumerate 0 checksums) 0"

definition greatest :: "u64 list \<Rightarrow> u64" where
  "greatest xs = fold max xs 0"

section \<open>The workload\<close>

text \<open>
  A \<^verbatim>\<open>std::mt19937_64\<close> is a state with \<^verbatim>\<open>draw\<close>, the next value and the next state; the draws of one event are
  in the order of the initialisers.
\<close>

fun workload_from :: "('g \<Rightarrow> u64 \<times> 'g) \<Rightarrow> nat \<Rightarrow> nat \<Rightarrow> 'g \<Rightarrow> market_data_event list" where
  "workload_from draw i 0 g = []"
| "workload_from draw i (Suc n) g =
     (let (r1, g1) = draw g; (r2, g2) = draw g1; (r3, g3) = draw g2; (r4, g4) = draw g3
      in default_event\<lparr>ev_sequence := word_of_nat (i + 1), ev_timestamp_ns := word_of_nat (i * 100), ev_type := Modify,
           ev_order_id := r1 mod word_of_nat bench_orders + 1, ev_side := (if r2 mod 2 = 0 then Buy else Sell),
           ev_price := 9936 + r3 mod 128, ev_quantity := 1 + r4 mod 100\<rparr>
         # workload_from draw (i + 1) n g4)"

text \<open>\<^verbatim>\<open>twister\<close>: the seeding of the generator, and its draw.\<close>

definition workload :: "(u64 \<Rightarrow> 'g) \<times> ('g \<Rightarrow> u64 \<times> 'g) \<Rightarrow> nat \<Rightarrow> u64 \<Rightarrow> market_data_event list" where
  "workload twister n seed = workload_from (snd twister) 0 n (fst twister seed)"

text \<open>
  A vector may have \<open>2\<^sup>63 - 1\<close> bytes; \<^verbatim>\<open>reserve\<close> and the constructor throw for more. An event has 64 bytes. The other
  vectors of the benchmarks have no more bytes than one that exists already.
\<close>

definition reserve :: "nat \<Rightarrow> nat \<Rightarrow> bench_error + unit" where
  "reserve item_bytes n = (if n \<le> (2 ^ 63 - 1) div item_bytes then Inr () else Inl Length_error)"

definition event_bytes :: nat where
  "event_bytes = 64"

definition make_workload :: "(u64 \<Rightarrow> 'g) \<times> ('g \<Rightarrow> u64 \<times> 'g) \<Rightarrow> nat \<Rightarrow> u64 \<Rightarrow> bench_error + market_data_event list" where
  "make_workload twister n seed = and_then (reserve event_bytes n) (\<lambda>_. Inr (workload twister n seed))"

definition max_count :: nat where
  "max_count = 2 ^ 57"

lemma make_workload_Inr [simp]: "n < max_count \<Longrightarrow> make_workload twister n seed = Inr (workload twister n seed)"
  by (simp add: make_workload_def reserve_def event_bytes_def max_count_def)

lemma make_workload_Inl: "max_count \<le> n \<Longrightarrow> make_workload twister n seed = Inl Length_error"
  by (simp add: make_workload_def reserve_def event_bytes_def max_count_def)

definition workload_event :: "market_data_event \<Rightarrow> bool" where
  "workload_event e \<longleftrightarrow> ev_type e = Modify \<and> ev_symbol e = 0 \<and> ev_new_order_id e = 0
     \<and> 1 \<le> unat (ev_order_id e) \<and> unat (ev_order_id e) \<le> bench_orders
     \<and> (\<exists>k<128. ev_price e = 9936 + word_of_nat k) \<and> 1 \<le> unat (ev_quantity e) \<and> unat (ev_quantity e) \<le> 100"

lemma unat_mod_word: "unat (r mod word_of_nat n :: u64) = unat r mod n" if "n < 2 ^ 64" for n
  using that by (simp add: unat_mod_distrib unat_of_nat)

lemma unat_Suc_small: "unat (x + 1 :: u64) = unat x + 1" if "unat x < 2 ^ 32"
proof -
  have "unat x + unat (1 :: u64) < 2 ^ LENGTH(64)" using that by simp
  then show ?thesis by (simp add: unat_add_lem [THEN iffD1])
qed

lemma workload_from_length [simp]: "length (workload_from draw i n g) = n"
  by (induction n arbitrary: i g) (simp_all add: Let_def split: prod.split)

lemma workload_from_events: "e \<in> set (workload_from draw i n g) \<Longrightarrow> workload_event e"
proof (induction n arbitrary: i g)
  case 0
  then show ?case by simp
next
  case (Suc n)
  have o: "1 \<le> unat (r mod word_of_nat bench_orders + 1 :: u64) \<and> unat (r mod word_of_nat bench_orders + 1 :: u64) \<le> bench_orders" for r
  proof -
    have "unat (r mod word_of_nat bench_orders :: u64) < bench_orders" using unat_mod_word [of bench_orders r] by (simp add: bench_orders_def)
    then show ?thesis using unat_Suc_small [of "r mod word_of_nat bench_orders"] by (simp add: bench_orders_def)
  qed
  have p: "\<exists>k<128. 9936 + r mod 128 = 9936 + (word_of_nat k :: u64)" for r
  proof (intro exI conjI)
    show "unat (r mod 128) < 128" using unat_mod_word [of 128 r] by simp
    show "9936 + r mod 128 = 9936 + word_of_nat (unat (r mod 128))" by simp
  qed
  have q: "1 \<le> unat (1 + r mod 100 :: u64) \<and> unat (1 + r mod 100 :: u64) \<le> 100" for r
    using unat_mod_word [of 100 r] unat_Suc_small [of "r mod 100"] by (simp add: add.commute)
  show ?case using Suc o p q
    by (auto simp: Let_def workload_event_def default_event_def split: prod.splits)
qed

lemma workload_events: "e \<in> set (workload twister n seed) \<Longrightarrow> workload_event e"
  by (simp add: workload_def workload_from_events)

lemma workload_length [simp]: "length (workload twister n seed) = n"
  by (simp add: workload_def)

section \<open>Distributions in order\<close>

lemma sample_index:
  assumes r: "rounding rnd" and n: "n \<le> 2 ^ 53" and f: "0 \<le> f" "f \<le> g" "g \<le> 1"
  shows "nat \<lfloor>rnd (f * rnd (rat_of_nat n))\<rfloor> \<le> nat \<lfloor>rnd (g * rnd (rat_of_nat n))\<rfloor>" "nat \<lfloor>rnd (g * rnd (rat_of_nat n))\<rfloor> \<le> n"
proof -
  have e: "rnd (rat_of_nat n) = rat_of_nat n" by (rule rounding_nat [OF r n])
  have "f * rat_of_nat n \<le> g * rat_of_nat n" "g * rat_of_nat n \<le> 1 * rat_of_nat n"
    using f by (intro mult_right_mono; simp)+
  then have "rnd (f * rat_of_nat n) \<le> rnd (g * rat_of_nat n)" "rnd (g * rat_of_nat n) \<le> rnd (rat_of_nat n)"
    using rounding_mono [OF r] by simp_all
  then have le: "rnd (f * rat_of_nat n) \<le> rnd (g * rat_of_nat n)" "\<lfloor>rnd (g * rat_of_nat n)\<rfloor> \<le> int n"
    by (simp_all add: e floor_le_iff)
  show "nat \<lfloor>rnd (f * rnd (rat_of_nat n))\<rfloor> \<le> nat \<lfloor>rnd (g * rnd (rat_of_nat n))\<rfloor>"
    unfolding e by (rule nat_mono [OF floor_mono [OF le(1)]])
  show "nat \<lfloor>rnd (g * rnd (rat_of_nat n))\<rfloor> \<le> n" unfolding e using le(2) by linarith
qed

lemma summarize_ordered:
  assumes r: "rounding rnd" and xs: "samples \<noteq> []" "length samples \<le> 2 ^ 53"
  shows "ds_p50 (summarize rnd samples) \<le> ds_p95 (summarize rnd samples) \<and> ds_p95 (summarize rnd samples) \<le> ds_p99 (summarize rnd samples)
    \<and> ds_p99 (summarize rnd samples) \<le> ds_maximum (summarize rnd samples) \<and> ds_maximum (summarize rnd samples) = Max (set samples)
    \<and> ds_p50 (summarize rnd samples) \<in> set samples"
proof -
  let ?s = "sort samples" and ?n = "length samples - 1"
  let ?i = "\<lambda>f. nat \<lfloor>rnd (f * rnd (rat_of_nat ?n))\<rfloor>"
  have n: "?n \<le> 2 ^ 53" "?n < length ?s" using xs by (simp_all add: le_diff_conv)
  have "rnd (99 / 100) \<le> 1" using rounding_mono [OF r, of "99 / 100" 1] rounding_nat [OF r, of 1] by simp
  then have f: "0 \<le> rnd (50 / 100)" "rnd (50 / 100) \<le> rnd (95 / 100)" "rnd (95 / 100) \<le> rnd (99 / 100)" "rnd (99 / 100) \<le> 1"
    using rounding_sign(1) [OF r] rounding_mono [OF r] by simp_all
  have i: "?i (rnd (50 / 100)) \<le> ?i (rnd (95 / 100))" "?i (rnd (95 / 100)) \<le> ?i (rnd (99 / 100))" "?i (rnd (99 / 100)) \<le> ?n"
    using sample_index [OF r n(1)] f by (meson order_trans)+
  have mono: "?s ! a \<le> ?s ! b" if "a \<le> b" "b \<le> ?n" for a b
    using sorted_nth_mono [OF sorted_sort that(1), of samples] that(2) n(2) by simp
  have "?s \<noteq> []" using xs(1) by (metis set_empty set_sort)
  have l: "last ?s = ?s ! ?n" using last_conv_nth [OF \<open>?s \<noteq> []\<close>] by simp
  have "Max (set samples) = last ?s"
  proof (rule Max_eqI)
    show "last ?s \<in> set samples" using last_in_set [OF \<open>?s \<noteq> []\<close>] by simp
    show "y \<le> last ?s" if "y \<in> set samples" for y
    proof -
      obtain j where "j < length ?s" "?s ! j = y" using \<open>y \<in> set samples\<close> in_set_conv_nth [of y ?s] by auto
      then show ?thesis using mono [of j ?n] l by simp
    qed
  qed simp
  moreover have "?s ! ?i (rnd (50 / 100)) \<in> set samples" using nth_mem [of "?i (rnd (50 / 100))" ?s] i n(2) by simp
  moreover have "?s ! ?i (rnd (50 / 100)) \<le> ?s ! ?i (rnd (95 / 100))" "?s ! ?i (rnd (95 / 100)) \<le> ?s ! ?i (rnd (99 / 100))"
    "?s ! ?i (rnd (99 / 100)) \<le> last ?s" unfolding l
    by (rule mono [OF i(1) order_trans [OF i(2) i(3)]], rule mono [OF i(2) i(3)], rule mono [OF i(3) order_refl])
  ultimately show ?thesis by (simp only: summarize_def sample_at_def Let_def distribution.select_convs length_sort)
qed

section \<open>Rates that can be printed\<close>

definition plausible :: "rat \<Rightarrow> double \<Rightarrow> bool" where
  "plausible bound d \<longleftrightarrow> (\<exists>x. d = Finite x \<and> 0 \<le> x \<and> x \<le> bound)"

lemma plausible_Finite [simp]: "plausible bound (Finite x) \<longleftrightarrow> 0 \<le> x \<and> x \<le> bound"
  by (auto simp: plausible_def)

lemma plausible_cast: "plausible (2 ^ 53) d \<Longrightarrow> \<exists>v. cast_u64 d = Inr v"
  by (auto simp: plausible_def cast_u64_def)

lemma rounding_within: "rounding rnd \<Longrightarrow> k \<le> 53 \<Longrightarrow> 0 \<le> x \<Longrightarrow> x \<le> 2 ^ k \<Longrightarrow> 0 \<le> rnd x \<and> rnd x \<le> 2 ^ k"
proof -
  assume r: "rounding rnd" and k: "k \<le> 53" and x: "0 \<le> x" "x \<le> 2 ^ k"
  have "rnd (rat_of_nat (2 ^ k)) = rat_of_nat (2 ^ k)" by (rule rounding_nat [OF r]) (rule power_increasing [OF k], simp)
  then show ?thesis using rounding_sign(1) [OF r x(1)] rounding_mono [OF r x(2)] by simp
qed

lemma middle_within:
  assumes r: "rounding ldbl" and k: "k \<le> 52" and x: "0 \<le> a" "a \<le> 2 ^ k" "0 \<le> b" "b \<le> 2 ^ k"
  shows "0 \<le> middle ldbl a b \<and> middle ldbl a b \<le> 2 ^ k"
proof -
  have ab: "0 \<le> ldbl a \<and> ldbl a \<le> 2 ^ k" "0 \<le> ldbl b \<and> ldbl b \<le> 2 ^ k"
    using rounding_within [OF r _ x(1,2)] rounding_within [OF r _ x(3,4)] k by simp_all
  have "0 \<le> ldbl (ldbl a + ldbl b) \<and> ldbl (ldbl a + ldbl b) \<le> 2 ^ (k + 1)" by (rule rounding_within [OF r]) (use ab k in simp_all)
  then show ?thesis unfolding middle_def by (intro rounding_within [OF r]) (use k in simp_all)
qed

lemma median_within:
  assumes r: "rounding rnd" "rounding ldbl" and k: "k \<le> 52" and xs: "xs \<noteq> []" "\<forall>d \<in> set xs. plausible (2 ^ k) d"
  shows "plausible (2 ^ k) (median_double rnd ldbl xs)"
proof -
  have nth: "plausible (2 ^ k) (sort xs ! i)" if "i < length xs" for i using xs(2) nth_mem [of i "sort xs"] that by simp
  let ?u = "length xs div 2"
  have u: "?u < length xs" "?u - 1 < length xs" using xs(1) by (cases xs; simp)+
  obtain a b where ab: "sort xs ! (?u - 1) = Finite a" "sort xs ! ?u = Finite b" "0 \<le> a" "a \<le> 2 ^ k" "0 \<le> b" "b \<le> 2 ^ k"
    using nth [OF u(1)] nth [OF u(2)] by (auto simp: plausible_def)
  note m = middle_within [OF r(2) k ab(3-6)]
  have "0 \<le> rnd (middle ldbl a b) \<and> rnd (middle ldbl a b) \<le> 2 ^ k" by (rule rounding_within [OF r(1)]) (use m k in simp_all)
  then show ?thesis using ab by (simp add: median_double_def Let_def plausible_def)
qed

lemma plausible_mono: "plausible a d \<Longrightarrow> a \<le> b \<Longrightarrow> plausible b d"
  by (auto simp: plausible_def)

lemma median_cast:
  assumes "rounding rnd" and "rounding ldbl" and "xs \<noteq> []" and "\<forall>d \<in> set xs. plausible (2 ^ 50) d"
  shows "\<exists>v. cast_u64 (median_double rnd ldbl xs) = Inr v"
  using median_within [OF assms(1,2) _ assms(3), of 50] assms(4) by (intro plausible_cast) (auto intro: plausible_mono)

lemma scaled_within:
  assumes r: "rounding rnd" and k: "j + k \<le> 53" and d: "plausible (2 ^ k) d" and c: "0 \<le> c" "c \<le> 2 ^ j"
  shows "plausible (2 ^ (j + k)) (scaled rnd d c)"
proof -
  obtain x where x: "d = Finite x" "0 \<le> x" "x \<le> 2 ^ k" using d by (auto simp: plausible_def)
  have "x * c \<le> 2 ^ k * 2 ^ j" using x c by (intro mult_mono) simp_all
  then have "0 \<le> rnd (x * c) \<and> rnd (x * c) \<le> 2 ^ (j + k)"
    by (intro rounding_within [OF r k]) (use x c in \<open>simp_all add: power_add mult.commute\<close>)
  then show ?thesis by (simp add: x(1) plausible_def)
qed

lemma halfway_within:
  assumes r: "rounding rnd" and k: "k \<le> 52" and d: "plausible (2 ^ k) a" "plausible (2 ^ k) b"
  shows "plausible (2 ^ k) (halfway rnd a b)"
proof -
  obtain x y where x: "a = Finite x" "0 \<le> x" "x \<le> 2 ^ k" and y: "b = Finite y" "0 \<le> y" "y \<le> 2 ^ k"
    using d by (auto simp: plausible_def)
  have "0 \<le> rnd (x + y) \<and> rnd (x + y) \<le> 2 ^ (k + 1)" by (rule rounding_within [OF r]) (use x y k in simp_all)
  then have "0 \<le> rnd (rnd (x + y) / 2) \<and> rnd (rnd (x + y) / 2) \<le> 2 ^ k" by (intro rounding_within [OF r]) (use k in simp_all)
  then show ?thesis by (simp add: x(1) y(1) plausible_def)
qed

end
