(* ===== verification/LevelReuse.thy ===== *)
theory LevelReuse
  imports BookProps Storage
begin

text \<open>
  How long the level index lasts when the prices stay in a band: a slot is taken from the empty ones only
  if all slots probed before it are occupied, so with \<^verbatim>\<open>K\<close> keys in use every slot ever taken lies less than
  \<^verbatim>\<open>K\<close> probes behind the home of one of them, and a table of more than \<open>K * K\<close> slots always has an empty one.
\<close>

section \<open>Where an insertion takes an empty slot\<close>

context open_addressing
begin

lemma probe_insert_fresh:
  assumes ok: "table_ok t" and "probe_insert st t (probe_slot t k d) tb n = (Some i, tb')" and "st (t ! i) = Empty"
    and "tb = length t \<and> (\<forall>c<d. st (t ! probe_slot t k c) = Occupied) \<or> tb \<noteq> length t \<and> st (t ! tb) = Tombstone"
  shows "\<exists>c<d + n. i = probe_slot t k c \<and> (\<forall>b<c. st (t ! probe_slot t k b) = Occupied)"
  using assms(2-)
proof (induction n arbitrary: d tb)
  case 0
  then show ?case by simp
next
  case (Suc n)
  let ?s = "probe_slot t k d"
  let ?tb = "if st (t ! ?s) = Tombstone \<and> tb = length t then ?s else tb"
  have less: "?s < length t" using probe_slot_less table_size [OF ok] by blast
  show ?case
  proof (cases "st (t ! ?s) = Empty")
    case True
    then have i: "i = (if tb = length t then ?s else tb)" using Suc.prems(1) by (auto simp: Let_def)
    then have "tb = length t" using Suc.prems(2,3) by auto
    then show ?thesis using i Suc.prems(3) by (auto intro!: exI [of _ d])
  next
    case False
    have "probe_insert st t (probe_slot t k (Suc d)) ?tb n = (Some i, tb')"
      using Suc.prems(1) False by (simp add: Let_def probe_slot_next [OF ok, simplified])
    moreover have "?tb = length t \<and> (\<forall>c<Suc d. st (t ! probe_slot t k c) = Occupied) \<or> ?tb \<noteq> length t \<and> st (t ! ?tb) = Tombstone"
      using Suc.prems(3) less False slot_state.exhaust [of "st (t ! ?s)"] by (auto simp: less_Suc_eq)
    ultimately show ?thesis using Suc.IH [of "Suc d" ?tb] Suc.prems(2) by simp
  qed
qed

lemma insert_in_fresh:
  assumes ok: "table_ok t" and ins: "insert_in t k = (Some i, tb)" and empty: "st (t ! i) = Empty"
    and new: "\<And>v. \<not> stores t k v" and keys: "\<And>j. j < length t \<Longrightarrow> st (t ! j) = Occupied \<Longrightarrow> key (t ! j) \<in> K"
    and K: "finite K" "k \<in> K"
  shows "\<exists>c<card K. i = probe_slot t k c"
proof -
  have "probe_insert st t (probe_slot t k 0) (length t) (length t) = (Some i, tb)"
    using ins by (simp add: insert_in_unfold [OF ok])
  from probe_insert_fresh [OF ok this empty] obtain c
    where c: "c < length t" "i = probe_slot t k c" "\<forall>b<c. st (t ! probe_slot t k b) = Occupied" by auto
  let ?key = "\<lambda>b. key (t ! probe_slot t k b)"
  have less: "probe_slot t k b < length t" for b by (rule probe_slot_less [OF table_size [OF ok]])
  have "inj_on ?key {..<c}"
  proof (rule inj_onI)
    fix a b assume ab: "a \<in> {..<c}" "b \<in> {..<c}" "?key a = ?key b"
    then have "probe_slot t k a = probe_slot t k b" using ok less c(3) unfolding ring_ok_def by simp
    then show "a = b"
      using ab(1,2) c(1) by (intro ring_dist_unique [of a "length t" b "home (length t) k"]) (auto simp: ring_slot_def)
  qed
  moreover have "?key ` {..<c} \<subseteq> K - {k}" using c(3) less new keys by (auto simp: ring_stores_def)
  ultimately have "c \<le> card (K - {k})" using K(1) card_inj_on_le [of ?key "{..<c}" "K - {k}"] by simp
  then show ?thesis using c(2) K card_Diff1_less [of K k] by (intro exI [of _ c]) simp
qed

end

section \<open>The level index\<close>

definition confined :: "(side \<times> price) set \<Rightarrow> level_slot list \<Rightarrow> bool" where
  "confined K t \<longleftrightarrow> finite K \<and> level_index_ok t
     \<and> (\<forall>i<length t. ls_state (t ! i) = Occupied \<longrightarrow> level_slot_key (t ! i) \<in> K \<and> ls_value (t ! i) \<noteq> npos)
     \<and> (\<forall>i<length t. ls_state (t ! i) \<noteq> Empty \<longrightarrow> (\<exists>k\<in>K. \<exists>c<card K. i = ring_slot level_home t k c))"

lemma confinedD:
  assumes "confined K t"
  shows "finite K" and "level_index_ok t"
    and "i < length t \<Longrightarrow> ls_state (t ! i) = Occupied \<Longrightarrow> level_slot_key (t ! i) \<in> K \<and> ls_value (t ! i) \<noteq> npos"
    and "i < length t \<Longrightarrow> ls_state (t ! i) \<noteq> Empty \<Longrightarrow> \<exists>k\<in>K. \<exists>c<card K. i = ring_slot level_home t k c"
  using assms by (simp_all add: confined_def)

lemma ring_slot_update [simp]: "ring_slot h (t[i := x]) k c = ring_slot h t k c"
  by (simp add: ring_slot_def)

lemma confined_room:
  assumes "confined K t" and "card K * card K < length t"
  shows "level_room t"
proof (rule ccontr)
  assume "\<not> level_room t"
  then have "{..<length t} \<subseteq> (\<lambda>(k, c). ring_slot level_home t k c) ` (K \<times> {..<card K})"
    using confinedD(4) [OF assms(1)] unfolding level_room_def by fastforce
  then have "card {..<length t} \<le> card (K \<times> {..<card K})"
    using confinedD(1) [OF assms(1)] by (intro surj_card_le) auto
  then show False using assms(2) by (simp add: card_cartesian_product)
qed

lemma confined_erase:
  assumes "confined K t"
  shows "confined K (erase_level_slot t k)"
proof (rule level_find_cases [OF confinedD(2) [OF assms], of k])
  fix i assume i: "i < length t" "ls_state (t ! i) = Occupied" "lring.find_in t k = Some i"
  have "level_index_ok (erase_level_slot t k)" by (rule level_index.del_ok [OF confinedD(2) [OF assms]])
  then show ?thesis
    using confinedD(1,3,4) [OF assms] i by (simp add: confined_def erase_level_slot_unfold nth_list_update)
qed (use assms in \<open>simp add: erase_level_slot_unfold\<close>)

lemma confined_find:
  assumes "confined K t" and "find_level_slot t k = npos"
  shows "\<not> level_maps t k v"
proof
  assume m: "level_maps t k v"
  then have "v = npos" using level_index.find_maps [OF confinedD(2) [OF assms(1)]] assms(2) by simp
  moreover obtain i where "i < length t" "ls_state (t ! i) = Occupied" "ls_value (t ! i) = v"
    using m unfolding ring_stores_def by blast
  ultimately show False using confinedD(3) [OF assms(1)] by blast
qed

lemma confined_insert:
  assumes t: "confined K t" and k: "k \<in> K" and absent: "find_level_slot t k = npos" and v: "v \<noteq> npos"
  shows "confined K (snd (insert_level_slot t k v))"
proof (cases "insert_level_slot t k v")
  case (Pair b t')
  show ?thesis
  proof (cases b)
    case False
    then show ?thesis using level_index.ins_false [of t k v t'] Pair t by simp
  next
    case True
    note c = confinedD [OF t]
    have new: "\<not> level_maps t k w" for w by (rule confined_find [OF t absent])
    obtain r tb where r: "lring.insert_in t k = (r, tb)" by (cases "lring.insert_in t k")
    then obtain i where i: "lring.insert_in t k = (Some i, tb)" "t' = t[i := mk_level_slot k v]"
      using Pair True by (cases r) (simp_all add: insert_level_slot_unfold)
    obtain d where "i = ring_slot level_home t k d" using lring.insert_in_target [OF c(2) i(1)] by blast
    then have "i < length t" using lring.probe_slot_less [OF lring.table_size [OF c(2)]] by simp
    have at: "\<exists>k\<in>K. \<exists>c<card K. i = ring_slot level_home t k c"
    proof (cases "ls_state (t ! i) = Empty")
      case True
      have "\<exists>c<card K. i = ring_slot level_home t k c"
        by (rule lring.insert_in_fresh [OF c(2) i(1) True new _ c(1) k]) (rule conjunct1 [OF c(3)])
      then show ?thesis using k by (rule rev_bexI [rotated])
    next
      case False
      then show ?thesis using c(4) \<open>i < length t\<close> by blast
    qed
    have ok: "level_index_ok t'" using level_index.ins_true [OF c(2), of k v t'] new Pair True by simp
    have "level_slot_key (t' ! j) \<in> K \<and> ls_value (t' ! j) \<noteq> npos" if "j < length t" "ls_state (t' ! j) = Occupied" for j
    proof (cases "j = i")
      case True
      then show ?thesis using k v \<open>i < length t\<close> by (simp add: i(2) mk_level_slot_def level_slot_key_def)
    next
      case False
      then show ?thesis using that c(3) [of j] by (simp add: i(2))
    qed
    moreover have "\<exists>k\<in>K. \<exists>c<card K. j = ring_slot level_home t k c" if "j < length t" "ls_state (t' ! j) \<noteq> Empty" for j
    proof (cases "j = i")
      case True
      then show ?thesis using at by simp
    next
      case False
      then show ?thesis using that c(4) [of j] by (simp add: i(2))
    qed
    ultimately have "confined K t'" using c(1) ok by (simp add: confined_def i(2))
    then show ?thesis using Pair by simp
  qed
qed

section \<open>The order book\<close>

text \<open>The events whose new level lies in \<^verbatim>\<open>P\<close>, on either side.\<close>

definition levels_of :: "price set \<Rightarrow> (side \<times> price) set" where
  "levels_of P = UNIV \<times> P"

abbreviation priced_in :: "price set \<Rightarrow> market_data_event \<Rightarrow> bool" where
  "priced_in P e \<equiv> may_open_level e \<longrightarrow> ev_price e \<in> P"

lemma UNIV_side: "(UNIV :: side set) = {Buy, Sell}"
  using side.exhaust by auto

lemma card_levels_of: "card (levels_of P) = 2 * card P"
  by (simp add: levels_of_def card_cartesian_product UNIV_side)

lemma acquire_level_confined:
  assumes "confined K (level_lookup bk)" and "(sd, p) \<in> K"
  shows "confined K (level_lookup (snd (acquire_level sd p bk)))"
  using assms confined_insert [OF assms(1,2), of "free_level bk"]
  by (auto simp: acquire_level_def find_level_index_def Let_def split: prod.split bool.split)

lemma unlink_confined: "confined K (level_lookup bk) \<Longrightarrow> confined K (level_lookup (unlink oi bk))"
  using release_level_lookup [of "o_level (orders (detach oi bk) ! oi)" "detach oi bk"]
  by (auto simp: unlink_def Let_def confined_erase)

lemma cancel_confined: "confined K (level_lookup bk) \<Longrightarrow> confined K (level_lookup (snd (cancel oid bk)))"
  using unlink_confined by (simp add: cancel_def free_order_slot_def erase_order_lookup_def Let_def)

lemma rest_order_confined:
  assumes "confined K (level_lookup bk)" and "(sd, p) \<in> K"
  shows "confined K (level_lookup (snd (rest_order oid sd p q bk)))"
proof -
  obtain li b1 where acq: "acquire_level sd p bk = (li, b1)" by (cases "acquire_level sd p bk")
  have c: "confined K (level_lookup b1)" using acquire_level_confined [OF assms] by (simp add: acq)
  then have "confined K (level_lookup (unlink oi b))" if "level_lookup b = level_lookup b1" for b oi
    using unlink_confined [of K b oi] that by simp
  then show ?thesis using assms(1) c
    by (simp add: rest_order_def acq Let_def free_order_slot_def split: prod.split bool.split)
qed

lemma modify_confined:
  assumes "confined K (level_lookup bk)" and "(ev_side e, ev_price e) \<in> K"
  shows "confined K (level_lookup (snd (modify e bk)))"
proof -
  let ?i = "find_order_index (ev_order_id e) bk"
  obtain li b1 where acq: "acquire_level (ev_side e) (ev_price e) (unlink ?i bk) = (li, b1)"
    by (cases "acquire_level (ev_side e) (ev_price e) (unlink ?i bk)")
  have "confined K (level_lookup b1)"
    using acquire_level_confined [OF unlink_confined [OF assms(1), of ?i] assms(2)] by (simp add: acq)
  then show ?thesis using assms(1) by (simp add: modify_def acq Let_def)
qed

lemma process_event_confined:
  assumes "confined (levels_of P) (level_lookup bk)" and "priced_in P e"
  shows "confined (levels_of P) (level_lookup (snd (process_event e bk)))"
proof -
  have K: "may_open_level e \<Longrightarrow> (sd, ev_price e) \<in> levels_of P" for sd using assms(2) by (simp add: levels_of_def)
  show ?thesis
    using assms(1) cancel_confined [OF assms(1)] rest_order_confined [OF cancel_confined [OF assms(1)] K]
      rest_order_confined [OF assms(1) K] modify_confined [OF assms(1) K]
    by (cases "ev_type e") (simp_all add: process_event_def add_def trade_def replace_def may_open_level_def Let_def)
qed

text \<open>So a table with more than \<open>(2 * card P) ^ 2\<close> slots has room for good.\<close>

lemma banded_events_refine:
  assumes "book_ok bk" and "confined (levels_of P) (level_lookup bk)" and "(2 * card P)\<^sup>2 < length (level_lookup bk)"
    and "\<forall>e \<in> set es. priced_in P e"
  shows "fst (process_events es bk) = fst (spec_events (length (orders bk)) es (abs_book bk))
    \<and> abs_book (snd (process_events es bk)) = snd (spec_events (length (orders bk)) es (abs_book bk))
    \<and> book_ok (snd (process_events es bk)) \<and> confined (levels_of P) (level_lookup (snd (process_events es bk)))"
  using assms
proof (induction es arbitrary: bk)
  case Nil
  then show ?case by simp
next
  case (Cons e es)
  let ?b = "snd (process_event e bk)"
  have "level_room (level_lookup bk)"
    using confined_room [OF Cons.prems(2)] Cons.prems(3) by (simp add: card_levels_of power2_eq_square)
  note r = process_event_refines [OF Cons.prems(1) this, of e]
  have c: "confined (levels_of P) (level_lookup ?b)" using process_event_confined [OF Cons.prems(2)] Cons.prems(4) by simp
  have "length (level_lookup ?b) = length (level_lookup bk)"
    using arg_cong [OF storage_process_event [of e bk], of sz_level_lookup] by (simp add: storage_def)
  then show ?case using Cons.IH [OF _ c] r Cons.prems(3,4) by (simp add: split_beta refines_def)
qed

lemma new_book_confined:
  assumes "new_book n = Inr bk" and "finite P"
  shows "confined (levels_of P) (level_lookup bk)"
proof -
  note f = new_book_fields [OF assms(1)]
  have "level_index_ok (level_lookup bk)" using dir_invD(3) [OF depth_okD(1) [OF book_okD(1) [OF new_book_ok(1) [OF assms(1)]]]] .
  then show ?thesis using assms(2) by (simp add: confined_def f(11) levels_of_def default_level_slot_def UNIV_side)
qed

section \<open>Property\<close>

text \<open>
  C4. A book whose prices stay in a band works for ever: if the adds, modifies and replaces name prices of a set \<^verbatim>\<open>P\<close>,
  and the level index has more than \<open>(2 * card P) ^ 2\<close> slots, then every sequence of events, however long, gets the result
  codes of the abstract book and ends in its state, well formed. The tombstones the levels leave behind, which
  an unbounded set of prices turns into the end of the book, are then reused in time.
\<close>

theorem banded_book_never_exhausts:
  assumes "new_book n = Inr bk" and "finite P" and "(2 * card P)\<^sup>2 < next_power_of_two (n * 2)"
    and "\<forall>e \<in> set es. may_open_level e \<longrightarrow> ev_price e \<in> P"
  shows "fst (process_events es bk) = fst (spec_events n es spec_empty)
    \<and> abs_book (snd (process_events es bk)) = snd (spec_events n es spec_empty)
    \<and> book_ok (snd (process_events es bk)) \<and> level_room (level_lookup (snd (process_events es bk)))"
proof -
  note init = new_book_ok [OF assms(1)] and f = new_book_fields [OF assms(1)]
  have len: "length (level_lookup bk) = next_power_of_two (n * 2)" by (simp add: f(11))
  note r = banded_events_refine [OF init(1) new_book_confined [OF assms(1,2)] assms(3) [folded len] assms(4), unfolded init(2,3)]
  have "length (level_lookup (snd (process_events es bk))) = length (level_lookup bk)"
    using arg_cong [OF storage_process_events [of es bk], of sz_level_lookup] by (simp add: storage_def)
  then have "level_room (level_lookup (snd (process_events es bk)))"
    using r confined_room [of "levels_of P" "level_lookup (snd (process_events es bk))"] assms(3)
    by (simp add: card_levels_of power2_eq_square len)
  then show ?thesis using r by simp
qed

text \<open>One order moved up and down between two prices, a hundred thousand times, in a book of sixteen.\<close>

lemma banded_book_never_exhausts_witness:
  "let es = default_event\<lparr>ev_order_id := 1, ev_price := 100, ev_quantity := 5\<rparr>
       # concat (replicate 100000 [default_event\<lparr>ev_type := Modify, ev_order_id := 1, ev_price := 101, ev_quantity := 5\<rparr>,
           default_event\<lparr>ev_type := Modify, ev_order_id := 1, ev_price := 100, ev_quantity := 5\<rparr>])
   in fst (process_events es (projr (new_book 16))) = fst (spec_events 16 es spec_empty)
     \<and> book_ok (snd (process_events es (projr (new_book 16))))"
proof -
  have new: "new_book 16 = Inr (projr (new_book 16))" by (simp add: new_book_def npos_def)
  have "(2 * card {100, 101 :: price})\<^sup>2 < next_power_of_two (16 * 2)" using next_power_of_two_ge [of 32] by simp
  from banded_book_never_exhausts [OF new _ this] show ?thesis by (auto simp: Let_def simp del: process_events.simps spec_events.simps)
qed

end
