(* ===== verification/BenchBook.thy ===== *)
theory BenchBook
  imports BenchStats LevelReuse MatchProps
begin

text \<open>
  The two benchmarks that drive an \<^verbatim>\<open>OrderBook\<close> directly: modifications of a seeded book, and single-fill
  orders against one deep maker. That no event of the measured loops is rejected, however long they run, is
  what the numbers they print presuppose.
\<close>

section \<open>The hot path\<close>

definition seed_event :: "nat \<Rightarrow> market_data_event" where
  "seed_event i = (let oid = word_of_nat (i + 1) :: u64
     in default_event\<lparr>ev_type := Add, ev_order_id := oid, ev_side := (if oid mod 2 = 0 then Buy else Sell),
          ev_price := 9936 + oid mod 128, ev_quantity := 10\<rparr>)"

text \<open>A loop that throws at the first event that is not applied.\<close>

fun apply_or_throw :: "bench_error \<Rightarrow> market_data_event list \<Rightarrow> order_book \<Rightarrow> bench_error + order_book" where
  "apply_or_throw err [] bk = Inr bk"
| "apply_or_throw err (e # es) bk =
     (case process_event e bk of (r, bk1) \<Rightarrow> if r \<noteq> Applied then Inl err else apply_or_throw err es bk1)"

definition seed_book :: "order_book \<Rightarrow> bench_error + order_book" where
  "seed_book bk = apply_or_throw Seed_failed (map seed_event [0..<bench_orders]) bk"

record hot_run =
  hr_events_per_second :: double
  hr_allocations :: u64
  hr_checksum :: u64

definition run_hot_path :: "(rat \<Rightarrow> rat) \<Rightarrow> readings \<Rightarrow> market_data_event list \<Rightarrow> bench_error + hot_run" where
  "run_hot_path rnd rd events =
     (case new_book (bench_orders * 2) of
       Inl _ \<Rightarrow> Inl Book_not_constructed
     | Inr bk \<Rightarrow>
         and_then (seed_book bk) (\<lambda>bk1.
         and_then (apply_or_throw Event_rejected events bk1) (\<lambda>bk2.
           Inr \<lparr>hr_events_per_second = per_second rnd (length events) (seconds_between rnd (rd_clock rd 0) (rd_clock rd 1)),
                hr_allocations = rd_allocations rd, hr_checksum = state_checksum bk2\<rparr>)))"

record hot_report =
  hp_runs :: nat
  hp_events_per_run :: nat
  hp_median_events_per_second :: u64
  hp_max_allocations :: u64
  hp_final_checksum :: u64

text \<open>\<^verbatim>\<open>rds r\<close> are the readings of measured run \<^verbatim>\<open>r\<close>, \<^verbatim>\<open>warm\<close> those of the run before them.\<close>

definition benchmark_hot_path ::
  "(rat \<Rightarrow> rat) \<Rightarrow> (rat \<Rightarrow> rat) \<Rightarrow> (u64 \<Rightarrow> 'g) \<times> ('g \<Rightarrow> u64 \<times> 'g) \<Rightarrow> readings \<Rightarrow> (nat \<Rightarrow> readings) \<Rightarrow> nat \<Rightarrow> bench_error + hot_report" where
  "benchmark_hot_path rnd ldbl twister warm rds n =
     and_then (make_workload twister (min n 20000) (base_seed - 1)) (\<lambda>events.
     and_then (run_hot_path rnd warm events) (\<lambda>_.
     and_then (all_runs (\<lambda>r. and_then (make_workload twister n (run_seed r)) (run_hot_path rnd (rds r))) [0..<measured_runs]) (\<lambda>results.
     and_then (cast_u64 (median_double rnd ldbl (map hr_events_per_second results))) (\<lambda>median.
       Inr \<lparr>hp_runs = measured_runs, hp_events_per_run = n, hp_median_events_per_second = median,
            hp_max_allocations = greatest (map hr_allocations results),
            hp_final_checksum = folded (map hr_checksum results)\<rparr>))))"

section \<open>No event of the hot path is rejected\<close>

lemma apply_or_throw_all:
  "set (fst (process_events es bk)) \<subseteq> {Applied} \<Longrightarrow> apply_or_throw err es bk = Inr (snd (process_events es bk))"
  by (induction es arbitrary: bk) (auto simp: split_beta)

text \<open>The abstract book the loops work on: all ids up to \<^verbatim>\<open>k\<close> and no others.\<close>

definition holds_ids :: "nat \<Rightarrow> spec_book \<Rightarrow> bool" where
  "holds_ids k s \<longleftrightarrow> sb_count s = k \<and> (\<forall>oid. sb_orders s oid \<noteq> None \<longleftrightarrow> 1 \<le> unat oid \<and> unat oid \<le> k)"

lemma holds_ids_empty: "holds_ids 0 spec_empty"
  by (simp add: holds_ids_def spec_empty_def)

lemma holds_ids_add:
  assumes "holds_ids k s" and "k < cap" and "ev_type e = Add" and o: "unat (ev_order_id e) = k + 1" and q: "ev_quantity e \<noteq> 0"
  shows "fst (spec_event cap e s) = Applied \<and> holds_ids (Suc k) (snd (spec_event cap e s))"
proof -
  let ?oid = "ev_order_id e"
  have "\<not> (1 \<le> unat ?oid \<and> unat ?oid \<le> k)" unfolding o by simp
  then have none: "sb_orders s ?oid = None" using assms(1) unfolding holds_ids_def by blast
  have room: "sb_count s \<noteq> cap" using assms(1,2) by (simp add: holds_ids_def)
  let ?s' = "s\<lparr>sb_orders := (sb_orders s)(?oid \<mapsto> \<lparr>ov_id = ?oid, ov_side = ev_side e, ov_price = ev_price e,
        ov_quantity = ev_quantity e, ov_priority = sb_next_priority s\<rparr>),
      sb_queue := set_queue (ev_side e) (ev_price e) (\<lambda>ids. ids @ [?oid]) (sb_queue s),
      sb_count := sb_count s + 1, sb_next_priority := sb_next_priority s + 1\<rparr>"
  have s': "spec_event cap e s = (Applied, ?s')"
    using none room q unfolding spec_event_def assms(3) spec_rest_def by simp
  have same: "oid = ?oid \<longleftrightarrow> unat oid = k + 1" for oid :: u64
    using o by (simp only: word_unat_eq_iff)
  have "sb_orders ?s' oid \<noteq> None \<longleftrightarrow> 1 \<le> unat oid \<and> unat oid \<le> Suc k" for oid
  proof (cases "oid = ?oid")
    case True
    then show ?thesis using o by simp
  next
    case False
    then have "unat oid \<noteq> Suc k" using same [of oid] by simp
    then show ?thesis using False assms(1) by (auto simp: holds_ids_def)
  qed
  then show ?thesis using assms(1) unfolding s' holds_ids_def fst_conv snd_conv by simp
qed

text \<open>An id that is taken is refused and changes nothing.\<close>

lemma holds_ids_again:
  assumes "holds_ids k s" and "ev_type e = Add" and "1 \<le> unat (ev_order_id e)" and "unat (ev_order_id e) \<le> k" and "ev_quantity e \<noteq> 0"
  shows "spec_event cap e s = (DuplicateOrderId, s)"
proof -
  have "sb_orders s (ev_order_id e) \<noteq> None" using assms(1,3,4) by (simp add: holds_ids_def)
  then show ?thesis using assms(2,5) by (simp add: spec_event_def spec_rest_def)
qed

lemma seed_step:
  assumes "holds_ids k s" and "k < bench_orders"
  shows "fst (spec_event (bench_orders * 2) (seed_event k) s) = Applied \<and> holds_ids (Suc k) (snd (spec_event (bench_orders * 2) (seed_event k) s))"
proof (rule holds_ids_add [OF assms(1)])
  show "unat (ev_order_id (seed_event k)) = k + 1"
    using assms(2) by (simp add: seed_event_def Let_def unat_of_nat bench_orders_def del: of_nat_add of_nat_Suc)
qed (use assms(2) in \<open>simp_all add: seed_event_def Let_def\<close>)

lemma workload_step:
  assumes "holds_ids bench_orders s" and "workload_event e"
  shows "fst (spec_event cap e s) = Applied \<and> holds_ids bench_orders (snd (spec_event cap e s))"
proof -
  obtain v where v: "sb_orders s (ev_order_id e) = Some v" using assms by (auto simp: holds_ids_def workload_event_def)
  have t: "ev_type e = Modify" and q: "ev_quantity e \<noteq> 0" using assms(2) by (auto simp: workload_event_def)
  have "\<exists>w qs r. spec_event cap e s = (Applied, s\<lparr>sb_orders := (sb_orders s)(ev_order_id e \<mapsto> w), sb_queue := qs, sb_next_priority := r\<rparr>)"
  proof (cases "ov_side v = ev_side e \<and> ov_price v = ev_price e")
    case True
    then have "spec_event cap e s = (Applied, s\<lparr>sb_orders := (sb_orders s)(ev_order_id e \<mapsto> v\<lparr>ov_quantity := ev_quantity e\<rparr>),
        sb_queue := sb_queue s, sb_next_priority := sb_next_priority s\<rparr>)" using v t q by (simp add: spec_event_def spec_modify_def)
    then show ?thesis by blast
  next
    case False
    then have "spec_event cap e s = (Applied, snd (spec_event cap e s))"
      "\<exists>w qs r. snd (spec_event cap e s) = s\<lparr>sb_orders := (sb_orders s)(ev_order_id e \<mapsto> w), sb_queue := qs, sb_next_priority := r\<rparr>"
      using v t q unfolding spec_event_def spec_modify_def by auto
    then show ?thesis by metis
  qed
  then obtain w qs r where s': "spec_event cap e s = (Applied, s\<lparr>sb_orders := (sb_orders s)(ev_order_id e \<mapsto> w), sb_queue := qs,
      sb_next_priority := r\<rparr>)" by blast
  have "((sb_orders s)(ev_order_id e \<mapsto> w)) oid \<noteq> None \<longleftrightarrow> sb_orders s oid \<noteq> None" for oid using v by simp
  then show ?thesis using assms(1) unfolding s' holds_ids_def fst_conv snd_conv by simp
qed

lemma spec_events_append:
  "spec_events cap (xs @ ys) s = (fst (spec_events cap xs s) @ fst (spec_events cap ys (snd (spec_events cap xs s))),
     snd (spec_events cap ys (snd (spec_events cap xs s))))"
  by (induction xs arbitrary: s) (simp_all add: split_beta)

lemma seed_events_spec:
  assumes "k \<le> bench_orders"
  shows "set (fst (spec_events (bench_orders * 2) (map seed_event [0..<k]) spec_empty)) \<subseteq> {Applied}
    \<and> holds_ids k (snd (spec_events (bench_orders * 2) (map seed_event [0..<k]) spec_empty))"
  using assms
proof (induction k)
  case 0
  then show ?case by (simp add: holds_ids_empty)
next
  case (Suc k)
  show ?case using Suc seed_step [of k "snd (spec_events (bench_orders * 2) (map seed_event [0..<k]) spec_empty)"]
    by (simp add: spec_events_append split_beta)
qed

lemma workload_spec:
  assumes "holds_ids bench_orders s" and "\<forall>e \<in> set es. workload_event e"
  shows "set (fst (spec_events cap es s)) \<subseteq> {Applied} \<and> holds_ids bench_orders (snd (spec_events cap es s))"
  using assms
proof (induction es arbitrary: s)
  case Nil
  then show ?case by simp
next
  case (Cons e es)
  show ?case using Cons.IH [of "snd (spec_event cap e s)"] workload_step [OF Cons.prems(1), of e cap] Cons.prems(2)
    by (simp add: split_beta)
qed

text \<open>The prices of the benchmark: 128 of them, few enough for the level index.\<close>

definition bench_prices :: "price set" where
  "bench_prices = (\<lambda>k. 9936 + word_of_nat k) ` {..<128}"

lemma bench_prices: "finite bench_prices" "(2 * card bench_prices)\<^sup>2 < next_power_of_two (bench_orders * 2 * 2)"
proof -
  show "finite bench_prices" by (simp add: bench_prices_def)
  have "card bench_prices \<le> 128" unfolding bench_prices_def using card_image_le [of "{..<128 :: nat}"] by simp
  then have "(2 * card bench_prices)\<^sup>2 \<le> (2 * 128)\<^sup>2" by (intro power_mono) simp_all
  then show "(2 * card bench_prices)\<^sup>2 < next_power_of_two (bench_orders * 2 * 2)"
    using next_power_of_two_ge [of "bench_orders * 2 * 2"] by (simp add: bench_orders_def)
qed

lemma seed_event_price: "ev_price (seed_event k) \<in> bench_prices"
proof -
  have "9936 + w mod 128 \<in> bench_prices" for w :: u64
    unfolding bench_prices_def
  proof (rule image_eqI)
    show "9936 + w mod 128 = 9936 + word_of_nat (unat (w mod 128))" by simp
    show "unat (w mod 128) \<in> {..<128}" using unat_mod_word [of 128 w] by simp
  qed
  then show ?thesis by (simp add: seed_event_def Let_def)
qed

lemma workload_event_price: "workload_event e \<Longrightarrow> ev_price e \<in> bench_prices"
  by (auto simp: workload_event_def bench_prices_def)

lemma process_events_append:
  "process_events (xs @ ys) bk = (fst (process_events xs bk) @ fst (process_events ys (snd (process_events xs bk))),
     snd (process_events ys (snd (process_events xs bk))))"
  by (induction xs arbitrary: bk) (simp_all add: split_beta)

lemma hot_path_runs:
  assumes "\<forall>e \<in> set es. workload_event e"
  shows "\<exists>bk. run_hot_path rnd rd es = Inr \<lparr>hr_events_per_second = per_second rnd (length es)
        (seconds_between rnd (rd_clock rd 0) (rd_clock rd 1)), hr_allocations = rd_allocations rd, hr_checksum = state_checksum bk\<rparr>
    \<and> book_ok bk \<and> abs_book bk = snd (spec_events (bench_orders * 2) (map seed_event [0..<bench_orders] @ es) spec_empty)
    \<and> holds_ids bench_orders (abs_book bk)"
proof -
  let ?n = "bench_orders * 2" and ?seed = "map seed_event [0..<bench_orders]"
  have new: "new_book ?n = Inr (projr (new_book ?n))" by (rule new_book_Inr) (simp_all add: bench_orders_def npos_def)
  let ?b0 = "projr (new_book ?n)"
  let ?b1 = "snd (process_events ?seed ?b0)"
  let ?b2 = "snd (process_events es ?b1)"
  have priced: "\<forall>e \<in> set (?seed @ es). priced_in bench_prices e"
    using seed_event_price workload_event_price assms by auto
  note run = banded_book_never_exhausts [OF new bench_prices priced]
  note seed = seed_events_spec [OF order_refl] and work = workload_spec [OF conjunct2 [OF seed_events_spec [OF order_refl]] assms]
  have "set (fst (process_events (?seed @ es) ?b0)) \<subseteq> {Applied}"
    using run seed work [of ?n] unfolding spec_events_append by auto
  then have "set (fst (process_events ?seed ?b0)) \<subseteq> {Applied}" "set (fst (process_events es ?b1)) \<subseteq> {Applied}"
    unfolding process_events_append by auto
  then have loops: "seed_book ?b0 = Inr ?b1" "apply_or_throw Event_rejected es ?b1 = Inr ?b2"
    unfolding seed_book_def by (simp_all only: apply_or_throw_all)
  have last: "snd (process_events (?seed @ es) ?b0) = ?b2" by (simp add: process_events_append)
  have "run_hot_path rnd rd es = Inr \<lparr>hr_events_per_second = per_second rnd (length es)
        (seconds_between rnd (rd_clock rd 0) (rd_clock rd 1)), hr_allocations = rd_allocations rd, hr_checksum = state_checksum ?b2\<rparr>"
    unfolding run_hot_path_def by (subst new) (simp add: loops)
  moreover have "holds_ids bench_orders (abs_book ?b2)" using run work [of ?n] unfolding last spec_events_append by simp
  ultimately show ?thesis using run unfolding last by blast
qed

lemma all_runs_Inr:
  assumes "\<And>r. r \<in> set rs \<Longrightarrow> \<exists>x. f r = Inr x \<and> P r x"
  shows "\<exists>xs. all_runs f rs = Inr xs \<and> list_all2 P rs xs"
  using assms
proof (induction rs)
  case Nil
  then show ?case by simp
next
  case (Cons r rs)
  then obtain x xs where "f r = Inr x" "P r x" "all_runs f rs = Inr xs" "list_all2 P rs xs" by (metis list.set_intros)
  then show ?case by simp
qed

section \<open>Matching\<close>

definition deep_maker :: "nat \<Rightarrow> order_request" where
  "deep_maker n = \<lparr>rq_type = NewOrder, rq_id = 1, rq_side = Sell, rq_price = 1000, rq_quantity = word_of_nat n + 16,
     rq_order_type = Limit, rq_tif = GTC\<rparr>"

definition taker :: "nat \<Rightarrow> order_request" where
  "taker i = \<lparr>rq_type = NewOrder, rq_id = word_of_nat i + 2, rq_side = Buy, rq_price = 1000, rq_quantity = 1,
     rq_order_type = Limit, rq_tif = IOC\<rparr>"

text \<open>The sink counts the fills.\<close>

definition count_fill :: "(u64 \<Rightarrow> fill \<Rightarrow> u64) option" where
  "count_fill = Some (\<lambda>fills _. fills + 1)"

text \<open>The measured loop: \<^verbatim>\<open>n\<close> takers from number \<^verbatim>\<open>i\<close> on. \<^verbatim>\<open>None\<close> is a call of \<^verbatim>\<open>submit\<close> that does not return.\<close>

fun take_all :: "nat \<Rightarrow> nat \<Rightarrow> u64 \<times> order_book \<Rightarrow> (bench_error + u64 \<times> order_book) option" where
  "take_all i 0 s = Some (Inr s)"
| "take_all i (Suc n) s =
     (case submit_to_sink (taker i) count_fill s of
       None \<Rightarrow> None
     | Some (r, s1) \<Rightarrow> if r \<noteq> FilledComplete then Some (Inl Taker_not_filled) else take_all (i + 1) n s1)"

record match_bench =
  mb_events_per_second :: double
  mb_latency :: distribution
  mb_allocations :: u64
  mb_fills :: u64

text \<open>Reading 0 starts the loop, readings \<open>2 i + 1\<close> and \<open>2 i + 2\<close> are those around taker \<^verbatim>\<open>i\<close>, the next stops it.\<close>

definition run_matching :: "(rat \<Rightarrow> rat) \<Rightarrow> readings \<Rightarrow> nat \<Rightarrow> (bench_error + match_bench) option" where
  "run_matching rnd rd n =
     (case new_book (bench_orders * 2) of
       Inl _ \<Rightarrow> Some (Inl Book_not_constructed)
     | Inr bk \<Rightarrow>
         (case submit_to_sink (deep_maker n) count_fill (0, bk) of
           None \<Rightarrow> None
         | Some (r, s) \<Rightarrow>
             if r \<noteq> RestedNoFill then Some (Inl Maker_failed)
             else (case reserve 8 n of
               Inl err \<Rightarrow> Some (Inl err)
             | Inr _ \<Rightarrow>
             (case take_all 0 n s of
               None \<Rightarrow> None
             | Some (Inl err) \<Rightarrow> Some (Inl err)
             | Some (Inr (fills, bk1)) \<Rightarrow>
                 Some (Inr \<lparr>mb_events_per_second = per_second rnd n (seconds_between rnd (rd_clock rd 0) (rd_clock rd (2 * n + 1))),
                   mb_latency = summarize rnd (map (\<lambda>i. rd_clock rd (2 * i + 2) - rd_clock rd (2 * i + 1)) [0..<n]),
                   mb_allocations = rd_allocations rd, mb_fills = fills\<rparr>)))))"

text \<open>The book of the measured loop: the maker with \<^verbatim>\<open>q\<close> left, and nothing else.\<close>

definition maker_left :: "quantity \<Rightarrow> spec_book \<Rightarrow> bool" where
  "maker_left q s \<longleftrightarrow> sb_orders s = [1 \<mapsto> \<lparr>ov_id = 1, ov_side = Sell, ov_price = 1000, ov_quantity = q, ov_priority = 0\<rparr>]
     \<and> sb_queue s = (\<lambda>sd p. if sd = Sell \<and> p = 1000 then [1] else [])"

lemma maker_rests:
  assumes "new_book m = Inr bk" and "word_of_nat n + 16 \<noteq> (0 :: u64)"
  shows "\<exists>bk'. submit_to_sink (deep_maker n) count_fill (0, bk) = Some (RestedNoFill, 0, bk')
    \<and> book_ok bk' \<and> maker_left (word_of_nat n + 16) (abs_book bk')"
proof -
  note init = new_book_ok [OF assms(1)] and f = new_book_fields [OF assms(1)]
  have m: "rq_side (deep_maker n) = Sell" "rq_id (deep_maker n) = 1" "rq_price (deep_maker n) = 1000"
    "rq_quantity (deep_maker n) = word_of_nat n + 16" "rq_type (deep_maker n) = NewOrder" "may_rest (deep_maker n)"
    "rq_tif (deep_maker n) \<noteq> FOK"
    by (simp_all add: deep_maker_def may_rest_def)
  have "sb_orders (abs_book bk) 1 = None" unfolding init(2) by (simp add: spec_empty_def)
  then have none: "find_order 1 bk = None" by simp
  have acc: "accepted (deep_maker n) bk" using m none assms(2) by (simp add: accepted_def)
  obtain st r fs bk' where s: "submit (deep_maker n) bk = Some (r, fs, bk')" "match_run (deep_maker n) (start_of (deep_maker n) bk) st"
    "spec_settle (length (orders bk)) (deep_maker n) st = (r, fs, abs_book bk')" "book_ok bk'"
    using submit_price_time_priority [OF init(1) new_book_room [OF assms(1)] acc] by blast
  have "\<not> match_step (deep_maker n) (start_of (deep_maker n) bk) st'" for st'
    unfolding init(2) by (auto elim!: match_stepE simp: spec_empty_def)
  then have "st = start_of (deep_maker n) bk" using s(2) by (metis converse_rtranclpE)
  then have "spec_settle m (deep_maker n) (word_of_nat n + 16, [], 0, spec_empty) = (r, fs, abs_book bk')"
    using s(3) init(2,3) f(9) m(4) by simp
  then have "r = RestedNoFill" "fs = []" "maker_left (word_of_nat n + 16) (abs_book bk')"
    using m assms(2) f(1)
    by (auto simp: spec_settle_def spec_rest_def spec_empty_def maker_left_def set_queue_def Let_def fun_eq_iff
        simp del: abs_book_simps dest!: sym [where t = "abs_book bk'"])
  then show ?thesis using s(1,4) by (simp add: submit_to_sink_def)
qed

lemma taker_fills:
  assumes ok: "book_ok bk" and left: "maker_left q (abs_book bk)" and q: "1 < q"
  shows "\<exists>bk'. submit_to_sink (taker i) count_fill (k, bk) = Some (FilledComplete, k + 1, bk') \<and> book_ok bk' \<and> maker_left (q - 1) (abs_book bk')"
proof -
  let ?v = "\<lparr>ov_id = 1, ov_side = Sell, ov_price = 1000, ov_quantity = q, ov_priority = 0\<rparr>"
  define s where "s = abs_book bk"
  have t: "rq_side (taker i) = Buy" "rq_quantity (taker i) = 1" "rq_type (taker i) = NewOrder" "\<not> may_rest (taker i)"
    "rq_tif (taker i) \<noteq> FOK" "crosses (taker i) 1000"
    by (simp_all add: taker_def may_rest_def crosses_def)
  have l: "sb_orders s 1 = Some ?v" "sb_queue s Sell 1000 = [1]" "\<And>p. sb_queue s Sell p \<noteq> [] \<longleftrightarrow> p = 1000"
    "\<And>p oid ids. sb_queue s Sell p = oid # ids \<longleftrightarrow> p = 1000 \<and> oid = 1 \<and> ids = []"
    using left by (auto simp: maker_left_def simp flip: s_def)
  have acc: "accepted (taker i) bk" using t by (simp add: accepted_def)
  obtain remaining fs b1 where r: "submit (taker i) bk = Some (settle (taker i) (remaining, fs, b1))"
    "match_run (taker i) (start_of (taker i) bk) (spec_of (remaining, fs, b1))" "match_done (taker i) (spec_of (remaining, fs, b1))"
    "loop_frame bk b1"
    by (rule submit_accepted [OF ok acc])
  have one: "min 1 q = (1 :: quantity)" using q by (simp add: min_def less_imp_le)
  have step: "fst st1 = 0 \<and> length (fst (snd st1)) = 1 \<and> snd (snd (snd st1)) = snd (spec_trade 1 1 s)"
    if "match_step (taker i) (start_of (taker i) bk) st1" for st1
    using that [folded s_def] by (rule match_stepE) (auto simp: t l one spec_best_def)
  have stop: "\<not> match_step (taker i) st1 st2" if "fst st1 = 0" for st1 st2
    using that by (auto elim!: match_stepE)
  have "\<not> match_done (taker i) (start_of (taker i) bk)" unfolding s_def [symmetric] using t l(2)
    by (auto simp: match_done_def intro!: exI [of _ 1000])
  then have "start_of (taker i) bk \<noteq> spec_of (remaining, fs, b1)" using r(3) by metis
  then obtain st1 where st1: "match_step (taker i) (start_of (taker i) bk) st1" "match_run (taker i) st1 (spec_of (remaining, fs, b1))"
    using converse_rtranclpE [OF r(2)] by blast
  have "st1 = spec_of (remaining, fs, b1)"
    using st1(2) by (rule converse_rtranclpE) (use step [OF st1(1)] stop in blast)+
  then have res: "remaining = 0" "length fs = 1" "abs_book b1 = snd (spec_trade 1 1 s)"
    using step [OF st1(1)] by simp_all
  have "settle (taker i) (remaining, fs, b1) = (FilledComplete, fs, b1)" by (simp add: settle_def res(1))
  moreover have "fold (sink_call count_fill) fs k = k + 1" using res(2) by (auto simp: length_Suc_conv sink_call_def count_fill_def)
  moreover have "maker_left (q - 1) (abs_book b1)"
    using left [folded s_def] l(1) q unfolding res(3) by (auto simp: maker_left_def spec_trade_def)
  ultimately show ?thesis using r(1,4) by (simp add: submit_to_sink_def loop_frame_def)
qed

lemma take_all_fills:
  assumes "book_ok bk" and "maker_left q (abs_book bk)" and "n + 1 < unat q"
  shows "\<exists>bk'. take_all i n (k, bk) = Some (Inr (k + word_of_nat n, bk')) \<and> book_ok bk' \<and> maker_left (q - word_of_nat n) (abs_book bk')"
  using assms
proof (induction n arbitrary: i k bk q)
  case 0
  then show ?case by simp
next
  case (Suc n)
  have "1 < q" using Suc.prems(3) by (simp add: word_less_nat_alt)
  then obtain b1 where b1: "submit_to_sink (taker i) count_fill (k, bk) = Some (FilledComplete, k + 1, b1)" "book_ok b1"
    "maker_left (q - 1) (abs_book b1)"
    using taker_fills [OF Suc.prems(1,2)] by blast
  have "unat (q - 1) = unat q - 1" using \<open>1 < q\<close> by (simp add: unat_sub_le word_le_nat_alt word_less_nat_alt)
  then have "n + 1 < unat (q - 1)" using Suc.prems(3) by simp
  from Suc.IH [OF b1(2,3) this, of "i + 1" "k + 1"] show ?case using b1(1) by (auto simp: algebra_simps)
qed

text \<open>The loop over runs when a run may also not return.\<close>

definition and_next :: "('e + 'a) option \<Rightarrow> ('a \<Rightarrow> ('e + 'b) option) \<Rightarrow> ('e + 'b) option" where
  "and_next x f = (case x of None \<Rightarrow> None | Some (Inl e) \<Rightarrow> Some (Inl e) | Some (Inr a) \<Rightarrow> f a)"

fun all_returning :: "(nat \<Rightarrow> ('e + 'a) option) \<Rightarrow> nat list \<Rightarrow> ('e + 'a list) option" where
  "all_returning f [] = Some (Inr [])"
| "all_returning f (r # rs) = and_next (f r) (\<lambda>x. and_next (all_returning f rs) (\<lambda>xs. Some (Inr (x # xs))))"

lemma all_returning_Inr:
  assumes "\<And>r. r \<in> set rs \<Longrightarrow> \<exists>x. f r = Some (Inr x) \<and> P x"
  shows "\<exists>xs. all_returning f rs = Some (Inr xs) \<and> length xs = length rs \<and> (\<forall>x \<in> set xs. P x)"
  using assms
proof (induction rs)
  case Nil
  then show ?case by simp
next
  case (Cons r rs)
  then obtain x xs where "f r = Some (Inr x)" "P x" "all_returning f rs = Some (Inr xs)" "length xs = length rs" "\<forall>x \<in> set xs. P x"
    by (metis list.set_intros)
  then show ?case by (simp add: and_next_def)
qed

record match_report =
  mr_runs :: nat
  mr_orders_per_run :: nat
  mr_median_matches_per_second :: u64
  mr_max_allocations :: u64
  mr_submit :: distribution

definition benchmark_matching ::
  "(rat \<Rightarrow> rat) \<Rightarrow> (rat \<Rightarrow> rat) \<Rightarrow> readings \<Rightarrow> (nat \<Rightarrow> readings) \<Rightarrow> nat \<Rightarrow> (bench_error + match_report) option" where
  "benchmark_matching rnd ldbl warm rds n =
     and_next (run_matching rnd warm (min n 20000)) (\<lambda>_.
     and_next (all_returning (\<lambda>r. run_matching rnd (rds r) n) [0..<measured_runs]) (\<lambda>results.
     and_next (Some (cast_u64 (median_double rnd ldbl (map mb_events_per_second results)))) (\<lambda>median.
       Some (Inr \<lparr>mr_runs = measured_runs, mr_orders_per_run = n, mr_median_matches_per_second = median,
         mr_max_allocations = greatest (map mb_allocations results), mr_submit = median_of ldbl (map mb_latency results)\<rparr>))))"

lemma run_matching_fills:
  assumes "n < max_count"
  shows "\<exists>m. run_matching rnd rd n = Some (Inr m) \<and> mb_fills m = word_of_nat n
    \<and> mb_events_per_second m = per_second rnd n (seconds_between rnd (rd_clock rd 0) (rd_clock rd (2 * n + 1)))"
proof -
  have n: "n + 16 < 2 ^ 64" using assms by (simp add: max_count_def)
  then have q: "unat (word_of_nat n + 16 :: u64) = n + 16"
    using unat_of_nat [where 'a = 64, of "n + 16"] by (simp add: take_bit_nat_eq_self)
  then have nz: "word_of_nat n + 16 \<noteq> (0 :: u64)" by (metis add_is_0 unsigned_0 zero_neq_numeral)
  have new: "new_book (bench_orders * 2) = Inr (projr (new_book (bench_orders * 2)))"
    by (rule new_book_Inr) (simp_all add: bench_orders_def npos_def)
  have room: "reserve 8 n = Inr ()" using assms by (simp add: reserve_def max_count_def)
  obtain b1 where b1: "submit_to_sink (deep_maker n) count_fill (0, projr (new_book (bench_orders * 2))) = Some (RestedNoFill, 0, b1)"
    "book_ok b1" "maker_left (word_of_nat n + 16) (abs_book b1)"
    using maker_rests [OF new nz] by blast
  obtain b2 where "take_all 0 n (0, b1) = Some (Inr (word_of_nat n, b2))"
    using take_all_fills [OF b1(2,3), of n 0 0] q by auto
  then show ?thesis unfolding run_matching_def by (subst new) (simp add: b1(1) room)
qed

section \<open>The two benchmarks\<close>

text \<open>The rates of a run: its number of orders over the time between the first and the last reading.\<close>

abbreviation hot_rate :: "(rat \<Rightarrow> rat) \<Rightarrow> nat \<Rightarrow> readings \<Rightarrow> double" where
  "hot_rate rnd n rd \<equiv> per_second rnd n (seconds_between rnd (rd_clock rd 0) (rd_clock rd 1))"

abbreviation matching_rate :: "(rat \<Rightarrow> rat) \<Rightarrow> nat \<Rightarrow> readings \<Rightarrow> double" where
  "matching_rate rnd n rd \<equiv> per_second rnd n (seconds_between rnd (rd_clock rd 0) (rd_clock rd (2 * n + 1)))"

lemma hot_path_rate:
  assumes "\<forall>e \<in> set es. workload_event e" and "run_hot_path rnd rd es = Inr h"
  shows "hr_events_per_second h = hot_rate rnd (length es) rd"
  using hot_path_runs [OF assms(1), of rnd rd] assms(2) by auto

text \<open>
  The matching benchmark: every order of every run is filled completely by one fill of the one maker, so that
  no run throws and the fills counted by the sink are as many as the orders sent.
\<close>

theorem matching_benchmark_one_fill_each:
  assumes "rounding rnd" and "rounding ldbl" and "n < max_count" and "\<forall>r < measured_runs. plausible (2 ^ 50) (matching_rate rnd n (rds r))"
  shows "(\<exists>m. run_matching rnd rd n = Some (Inr m) \<and> mb_fills m = word_of_nat n)
    \<and> (\<exists>rep. benchmark_matching rnd ldbl warm rds n = Some (Inr rep))"
proof -
  have "min n 20000 < max_count" using assms(3) by linarith
  then obtain w where w: "run_matching rnd warm (min n 20000) = Some (Inr w)" using run_matching_fills by blast
  have one: "\<exists>x. run_matching rnd (rds r) n = Some (Inr x) \<and> plausible (2 ^ 50) (mb_events_per_second x)" if "r \<in> set [0..<measured_runs]" for r
    using run_matching_fills [OF assms(3), of rnd "rds r"] assms(4) that by auto
  obtain xs where xs: "all_returning (\<lambda>r. run_matching rnd (rds r) n) [0..<measured_runs] = Some (Inr xs)"
    "length xs = measured_runs" "\<forall>x \<in> set xs. plausible (2 ^ 50) (mb_events_per_second x)"
    using all_returning_Inr [of "[0..<measured_runs]" "\<lambda>r. run_matching rnd (rds r) n" "\<lambda>x. plausible (2 ^ 50) (mb_events_per_second x)"]
      one by auto
  have "xs \<noteq> []" using xs(2) by (auto simp: measured_runs_def)
  then obtain v where v: "cast_u64 (median_double rnd ldbl (map mb_events_per_second xs)) = Inr v"
    using median_cast [OF assms(1,2), of "map mb_events_per_second xs"] xs(3) by auto
  show ?thesis using run_matching_fills [OF assms(3), of rnd rd] by (auto simp: benchmark_matching_def and_next_def w xs(1) v)
qed

end
