(* ===== verification/BenchFeeds.thy ===== *)
theory BenchFeeds
  imports BenchBook ItchFile
begin

text \<open>
  The two benchmarks of parsers: CSV rows and framed ITCH messages are generated, then parsed. Both generators
  are inverted by the parsers of the library, so that no run throws and every row and message counts.
\<close>

section \<open>CSV rows\<close>

definition csv_line_of :: "market_data_event \<Rightarrow> string" where
  "csv_line_of e = show_u64 (ev_sequence e) @ '','' @ show_u64 (ev_timestamp_ns e) @ '',modify,'' @ show_u64 (ev_order_id e) @ '',''
     @ (if ev_side e = Buy then ''buy,'' else ''sell,'') @ show_i64 (ev_price e) @ '','' @ show_u64 (ev_quantity e)"

definition make_csv_lines :: "(u64 \<Rightarrow> 'g) \<times> ('g \<Rightarrow> u64 \<times> 'g) \<Rightarrow> nat \<Rightarrow> u64 \<Rightarrow> bench_error + string list" where
  "make_csv_lines twister n seed = and_then (make_workload twister n seed) (\<lambda>events. Inr (map csv_line_of events))"

record parse_bench =
  pb_latency :: distribution
  pb_checksum :: u64

definition parsed_checksum :: "market_data_event \<Rightarrow> u64" where
  "parsed_checksum e = checksum_mix (ev_order_id e XOR ev_price e XOR ev_quantity e)"

text \<open>The loop: an exception of the parser ends it.\<close>

fun parse_all :: "string list \<Rightarrow> u64 \<Rightarrow> bench_error + u64" where
  "parse_all [] checksum = Inr checksum"
| "parse_all (line # lines) checksum =
     (case parse_csv_event line of
       Inl err \<Rightarrow> Inl (Line_rejected err)
     | Inr event \<Rightarrow> parse_all lines (checksum XOR parsed_checksum event))"

definition run_parsing :: "(rat \<Rightarrow> rat) \<Rightarrow> readings \<Rightarrow> string list \<Rightarrow> bench_error + parse_bench" where
  "run_parsing rnd rd lines =
     and_then (parse_all lines 0) (\<lambda>checksum.
       Inr \<lparr>pb_latency = summarize rnd (map (\<lambda>i. rd_clock rd (2 * i + 1) - rd_clock rd (2 * i)) [0..<length lines]),
            pb_checksum = checksum\<rparr>)"

record parse_report =
  pr_runs :: nat
  pr_events_per_run :: nat
  pr_parse :: distribution
  pr_final_checksum :: u64

definition benchmark_parsing ::
  "(rat \<Rightarrow> rat) \<Rightarrow> (rat \<Rightarrow> rat) \<Rightarrow> (u64 \<Rightarrow> 'g) \<times> ('g \<Rightarrow> u64 \<times> 'g) \<Rightarrow> readings \<Rightarrow> (nat \<Rightarrow> readings) \<Rightarrow> nat \<Rightarrow> bench_error + parse_report" where
  "benchmark_parsing rnd ldbl twister warm rds n =
     and_then (make_csv_lines twister (min n 10000) (base_seed - 1)) (\<lambda>lines.
     and_then (run_parsing rnd warm lines) (\<lambda>_.
     and_then (all_runs (\<lambda>r. and_then (make_csv_lines twister n (run_seed r)) (run_parsing rnd (rds r))) [0..<measured_runs]) (\<lambda>results.
       Inr \<lparr>pr_runs = measured_runs, pr_events_per_run = n, pr_parse = median_of ldbl (map pb_latency results),
            pr_final_checksum = folded (map pb_checksum results)\<rparr>)))"

lemma csv_line_rendered: "workload_event e \<Longrightarrow> parse_csv_event (csv_line_of e) = Inr e"
proof -
  assume w: "workload_event e"
  then have "csv_line_of e = render_csv e"
    by (cases "ev_side e") (simp_all add: csv_line_of_def render_csv_def workload_event_def type_name_def event_type_name_def side_name_def comma_def)
  moreover have "csv_able e" using w by (simp add: workload_event_def csv_able_def type_name_def)
  ultimately show ?thesis by (simp add: parse_rendered)
qed

lemma parse_all_lines:
  assumes "\<forall>e \<in> set es. workload_event e"
  shows "parse_all (map csv_line_of es) c = Inr (fold (\<lambda>e checksum. checksum XOR parsed_checksum e) es c)"
  using assms by (induction es arbitrary: c) (simp_all add: csv_line_rendered)

section \<open>ITCH messages\<close>

text \<open>\<^verbatim>\<open>append_be\<close>: the low \<^verbatim>\<open>bytes\<close> bytes of a 64-bit value, most significant first.\<close>

definition append_be :: "u8 list \<Rightarrow> u64 \<Rightarrow> nat \<Rightarrow> u8 list" where
  "append_be out v bytes = out @ map (\<lambda>i. ucast (drop_bit (8 * i) v AND 0xFF)) (rev [0..<bytes])"

definition bench_header :: "u8 \<Rightarrow> nat \<Rightarrow> u8 list" where
  "bench_header t i = append_be (append_be (append_be [t] 0 2) 0 2) (word_of_nat (i * 100)) 6"

text \<open>One turn of the loop: the message, and the generator after its draws.\<close>

definition bench_message :: "('g \<Rightarrow> u64 \<times> 'g) \<Rightarrow> nat \<Rightarrow> 'g \<Rightarrow> u8 list \<times> 'g" where
  "bench_message draw i g =
     (let (r1, g1) = draw g; oid = r1 mod word_of_nat bench_orders + 1; (kind, g2) = draw g1
      in if kind mod 4 = 0 then
           (let (r3, g3) = draw g2; (r4, g4) = draw g3; (r5, g5) = draw g4;
                msg = append_be (bench_header 65 i) oid 8 @ [if r3 mod 2 = 0 then 66 else 83]
            in (append_be (append_be msg (1 + r4 mod 100) 4 @ replicate 8 32) (9936 + r5 mod 128) 4, g5))
         else if kind mod 4 = 1 then
           (let (r3, g3) = draw g2
            in (append_be (append_be (append_be (bench_header 69 i) oid 8) (1 + r3 mod 50) 4) 0 8, g3))
         else if kind mod 4 = 2 then
           (let (r3, g3) = draw g2
            in (append_be (append_be (bench_header 88 i) oid 8) (1 + r3 mod 50) 4, g3))
         else (append_be (bench_header 68 i) oid 8, g2))"

fun itch_stream_from :: "('g \<Rightarrow> u64 \<times> 'g) \<Rightarrow> nat \<Rightarrow> nat \<Rightarrow> 'g \<Rightarrow> u8 list" where
  "itch_stream_from draw i 0 g = []"
| "itch_stream_from draw i (Suc n) g =
     (case bench_message draw i g of (msg, g1) \<Rightarrow>
        append_be [] (word_of_nat (length msg)) 2 @ msg @ itch_stream_from draw (i + 1) n g1)"

definition itch_stream :: "(u64 \<Rightarrow> 'g) \<times> ('g \<Rightarrow> u64 \<times> 'g) \<Rightarrow> nat \<Rightarrow> u64 \<Rightarrow> u8 list" where
  "itch_stream twister n seed = itch_stream_from (snd twister) 0 n (fst twister seed)"

definition make_itch_stream :: "(u64 \<Rightarrow> 'g) \<times> ('g \<Rightarrow> u64 \<times> 'g) \<Rightarrow> nat \<Rightarrow> u64 \<Rightarrow> bench_error + u8 list" where
  "make_itch_stream twister n seed = and_then (reserve 1 (n * 32 mod 2 ^ 64)) (\<lambda>_. Inr (itch_stream twister n seed))"

lemma make_itch_stream_Inr: "n < max_count \<Longrightarrow> make_itch_stream twister n seed = Inr (itch_stream twister n seed)"
  by (simp add: make_itch_stream_def reserve_def max_count_def)

record itch_bench =
  ib_messages_per_second :: double
  ib_latency :: distribution
  ib_allocations :: u64
  ib_decoded :: nat

text \<open>
  Reading 0 starts the loop; each call of \<^verbatim>\<open>next\<close>, the last one included, lies between two readings. \<^verbatim>\<open>None\<close>
  is the loop not ending.
\<close>

definition run_itch_decode :: "(rat \<Rightarrow> rat) \<Rightarrow> readings \<Rightarrow> u8 list \<Rightarrow> (bench_error + itch_bench) option" where
  "run_itch_decode rnd rd bytes =
     (case pump itch_next (\<lambda>_ decoded. decoded + 1) 0 0 (itch_from_bytes bytes) 0 of
       None \<Rightarrow> None
     | Some (c, decoded) \<Rightarrow>
         if w_failed c then Some (Inl Decode_failed)
         else Some (Inr \<lparr>ib_messages_per_second =
             per_second rnd decoded (seconds_between rnd (rd_clock rd 0) (rd_clock rd (2 * decoded + 3))),
           ib_latency = summarize rnd (map (\<lambda>i. rd_clock rd (2 * i + 2) - rd_clock rd (2 * i + 1)) [0..<decoded]),
           ib_allocations = rd_allocations rd, ib_decoded = decoded\<rparr>))"

record itch_report =
  ir_runs :: nat
  ir_messages_per_run :: nat
  ir_decoded_per_run :: nat
  ir_median_messages_per_second :: u64
  ir_max_allocations :: u64
  ir_decode :: distribution

definition benchmark_itch_decode ::
  "(rat \<Rightarrow> rat) \<Rightarrow> (rat \<Rightarrow> rat) \<Rightarrow> (u64 \<Rightarrow> 'g) \<times> ('g \<Rightarrow> u64 \<times> 'g) \<Rightarrow> readings \<Rightarrow> (nat \<Rightarrow> readings) \<Rightarrow> nat \<Rightarrow> (bench_error + itch_report) option" where
  "benchmark_itch_decode rnd ldbl twister warm rds n =
     and_next (Some (make_itch_stream twister (min n 20000) (base_seed - 3))) (\<lambda>bytes.
     and_next (run_itch_decode rnd warm bytes) (\<lambda>_.
     and_next (all_returning (\<lambda>r. and_next (Some (make_itch_stream twister n (run_seed r))) (run_itch_decode rnd (rds r))) [0..<measured_runs])
         (\<lambda>results.
     and_next (Some (cast_u64 (median_double rnd ldbl (map ib_messages_per_second results)))) (\<lambda>median.
       Some (Inr \<lparr>ir_runs = measured_runs, ir_messages_per_run = n, ir_decoded_per_run = ib_decoded (last results),
         ir_median_messages_per_second = median,
         ir_max_allocations = greatest (map ib_allocations results), ir_decode = median_of ldbl (map ib_latency results)\<rparr>)))))"

section \<open>The stream consists of messages of the format\<close>

lemma append_be_be: "append_be out v bytes = out @ be bytes v"
proof -
  have "w AND 0xFF = take_bit 8 w" for w :: u64 by (simp add: take_bit_eq_mask mask_eq_exp_minus_1)
  then have "ucast (w AND 0xFF) = (ucast w :: u8)" for w :: u64
    by (intro bit_word_eqI) (simp add: bit_simps)
  then show ?thesis by (induction bytes) (simp_all add: append_be_def)
qed

lemma be_narrow:
  fixes v :: u64
  assumes "8 * n \<le> LENGTH('b::len)"
  shows "be n (ucast v :: 'b word) = be n v"
  using assms
proof (induction n)
  case 0
  then show ?case by simp
next
  case (Suc n)
  have "ucast (drop_bit (8 * n) (ucast v :: 'b word)) = (ucast (drop_bit (8 * n) v) :: u8)"
    using Suc.prems by (intro bit_word_eqI) (auto simp: bit_simps)
  then show ?case using Suc by simp
qed

lemma ucast_of_nat_down:
  assumes "LENGTH('b::len) \<le> 64"
  shows "ucast (word_of_nat n :: u64) = (word_of_nat n :: 'b word)"
  using assms by (intro bit_word_eqI) (auto simp: bit_simps)

lemma bench_header_encoded: "bench_header t i @ be 8 oid
  = t # be 2 (0 :: u16) @ be 2 (0 :: u16) @ be 6 (word_of_nat (i * 100) :: 48 word) @ be 8 oid"
proof -
  have "be 2 (0 :: u64) = be 2 (0 :: u16)" using be_narrow [of 2 0, where 'b = 16] by simp
  moreover have "be 6 (word_of_nat (i * 100) :: u64) = be 6 (word_of_nat (i * 100) :: 48 word)"
    using be_narrow [of 6 "word_of_nat (i * 100)", where 'b = 48] by (simp add: ucast_of_nat_down del: of_nat_mult)
  ultimately show ?thesis by (simp add: bench_header_def append_be_be)
qed

lemma bench_message_encoded: "\<exists>m g1. bench_message draw i g = (encode_message m, g1)"
proof -
  define hd where "hd = (\<lambda>oid. \<lparr>hd_stock_locate = 0, hd_tracking = 0, hd_timestamp = word_of_nat (i * 100), hd_order = oid\<rparr>)"
  have body: "bench_header (message_tag (body_type b)) i @ be 8 oid @ encode_body b = encode_message (hd oid, b)" for oid b
    using bench_header_encoded [of "message_tag (body_type b)" i oid]
    by (simp add: encode_message_def hd_def flip: append_assoc)
  have four: "be 4 v = be 4 (ucast v :: u32)" for v :: u64 using be_narrow [of 4 v, where 'b = 32] by simp
  have spaces: "replicate 8 (32 :: u8) = be 8 (0x2020202020202020 :: u64)" by code_simp
  obtain r1 g1 where d1: "draw g = (r1, g1)" by fastforce
  obtain kind g2 where d2: "draw g1 = (kind, g2)" by fastforce
  obtain r3 g3 where d3: "draw g2 = (r3, g3)" by fastforce
  obtain r4 g4 where d4: "draw g3 = (r4, g4)" by fastforce
  obtain r5 g5 where d5: "draw g4 = (r5, g5)" by fastforce
  let ?oid = "r1 mod word_of_nat bench_orders + 1"
  consider "kind mod 4 = 0" | "kind mod 4 \<noteq> 0" "kind mod 4 = 1" | "kind mod 4 \<noteq> 0" "kind mod 4 \<noteq> 1" "kind mod 4 = 2"
    | "kind mod 4 \<noteq> 0" "kind mod 4 \<noteq> 1" "kind mod 4 \<noteq> 2" by blast
  then show ?thesis
  proof cases
    case 1
    have "fst (bench_message draw i g) = encode_message (hd ?oid, MAdd (if r3 mod 2 = 0 then Buy else Sell) (ucast (1 + r4 mod 100))
        0x2020202020202020 (ucast (9936 + r5 mod 128)))"
      unfolding body [symmetric] using 1
      by (simp add: bench_message_def d1 d2 d3 d4 d5 append_be_be four spaces message_tag_def side_byte_def)
    then show ?thesis by (metis prod.collapse)
  next
    case 2
    have "fst (bench_message draw i g) = encode_message (hd ?oid, MExecuted (ucast (1 + r3 mod 50)) 0)"
      unfolding body [symmetric] using 2
      by (simp add: bench_message_def d1 d2 d3 append_be_be four message_tag_def)
    then show ?thesis by (metis prod.collapse)
  next
    case 3
    have "fst (bench_message draw i g) = encode_message (hd ?oid, MCancel (ucast (1 + r3 mod 50)))"
      unfolding body [symmetric] using 3
      by (simp add: bench_message_def d1 d2 d3 append_be_be four message_tag_def)
    then show ?thesis by (metis prod.collapse)
  next
    case 4
    have "fst (bench_message draw i g) = encode_message (hd ?oid, MDelete)"
      unfolding body [symmetric] using 4
      by (simp add: bench_message_def d1 d2 append_be_be message_tag_def)
    then show ?thesis by (metis prod.collapse)
  qed
qed

lemma encoded_framable: "framable (encode_message m)"
  by (cases "body_type (snd m)") (simp_all add: framable_def length_encode_message)

lemma itch_stream_frames:
  "\<exists>ms. length ms = n \<and> itch_stream_from draw i n g = concat (map (\<lambda>m. frame_bytes (encode_message m)) ms)"
proof (induction n arbitrary: i g)
  case 0
  then show ?case by simp
next
  case (Suc n)
  obtain m g1 where m: "bench_message draw i g = (encode_message m, g1)" using bench_message_encoded [of draw i g] by blast
  obtain ms where ms: "length ms = n" "itch_stream_from draw (i + 1) n g1 = concat (map (\<lambda>m. frame_bytes (encode_message m)) ms)"
    using Suc.IH by blast
  have "append_be [] (word_of_nat (length (encode_message m))) 2 @ encode_message m = frame_bytes (encode_message m)"
    using be_narrow [of 2 "word_of_nat (length (encode_message m))", where 'b = 16]
    by (simp add: append_be_be frame_bytes_def ucast_of_nat_down)
  then have "itch_stream_from draw i (Suc n) g = concat (map (\<lambda>m. frame_bytes (encode_message m)) (m # ms))"
    using ms(2) m by (simp flip: append_assoc)
  then show ?case using ms(1) by (intro exI [of _ "m # ms"]) simp
qed

abbreviation itch_rate :: "(rat \<Rightarrow> rat) \<Rightarrow> nat \<Rightarrow> readings \<Rightarrow> double" where
  "itch_rate rnd n rd \<equiv> per_second rnd n (seconds_between rnd (rd_clock rd 0) (rd_clock rd (2 * n + 3)))"

lemma decode_runs:
  "\<exists>b. run_itch_decode rnd rd (itch_stream twister n seed) = Some (Inr b) \<and> ib_decoded b = n
    \<and> ib_messages_per_second b = itch_rate rnd n rd"
proof -
  let ?d = "itch_stream twister n seed"
  obtain ms where ms: "length ms = n" "?d = concat (map frame_bytes (map encode_message ms))"
    using itch_stream_frames [of n "snd twister" 0 "fst twister seed"] by (auto simp: itch_stream_def comp_def)
  have event: "event_in (encode_message m) = Some (event_of m)" "decode_message (encode_message m) \<noteq> Malformed" for m
    using decode_encoded [of m "[]"] by (simp_all add: event_in_def)
  have "well_framed (map encode_message ms)" using encoded_framable event by (simp add: well_framed_def)
  from item_events_frames [OF this, of "[]" 0]
  have feed: "item_events 0 ?d = numbered 0 (List.map_filter event_in (map encode_message ms))" "\<not> stream_broken ?d"
    by (simp_all add: ms(2))
  have "length (numbered sq es) = length es" for sq es by (induction es arbitrary: sq) simp_all
  moreover have "List.map_filter event_in (map encode_message ms) = map event_of ms"
    by (induction ms) (simp_all add: event List.map_filter_simps)
  ultimately have "length (item_events 0 ?d) = n" using feed(1) ms(1) by simp
  moreover have "fold (\<lambda>_ decoded. decoded + 1) es k = k + length es" for es :: "market_data_event list" and k :: nat
    by (induction es arbitrary: k) simp_all
  ultimately have counted: "fold (\<lambda>_ decoded. decoded + 1) (item_events 0 ?d) 0 = n" by (metis add_0)
  have "\<exists>c. pump itch_next h 0 0 (itch_from_bytes ?d) k = Some (c, fold h (item_events 0 ?d) k) \<and> \<not> w_failed c"
    for h :: "market_data_event \<Rightarrow> nat \<Rightarrow> nat" and k
    using itch.pump_outcome [of "itch_from_bytes ?d" h 0 k] feed(2) by (auto simp: itch_sources)
  from this [of "\<lambda>_ decoded. decoded + 1" 0]
  obtain c where "pump itch_next (\<lambda>_ decoded. decoded + 1) 0 0 (itch_from_bytes ?d) 0 = Some (c, n)" "\<not> w_failed c"
    unfolding counted by (elim exE conjE) (rule that)
  then show ?thesis unfolding run_itch_decode_def by simp
qed

section \<open>The two benchmarks\<close>

text \<open>
  The benchmarks of the parsers throw for no count a vector has room for, whatever the random generator and
  the instruments give, provided the rates are printable: every generated CSV row is parsed, to the very event it was written from (which the checksum is
  taken of), and a generated ITCH stream of \<^verbatim>\<open>n\<close> messages decodes to \<^verbatim>\<open>n\<close> events without failing.
\<close>

lemma parsing_benchmark_completes:
  assumes "n < max_count"
  shows "\<exists>rep. benchmark_parsing rnd ldbl twister warm rds n = Inr rep
        \<and> pr_final_checksum rep = folded (map (\<lambda>r. fold (\<lambda>e checksum. checksum XOR parsed_checksum e)
            (workload twister n (run_seed r)) 0) [0..<measured_runs])"
proof -
  have ev: "\<forall>e \<in> set (workload twister k sd). workload_event e" for k sd by (simp add: workload_events)
  have lines: "make_csv_lines twister k sd = Inr (map csv_line_of (workload twister k sd))" if "k < max_count" for k sd
    using that by (simp add: make_csv_lines_def)
  have run: "run_parsing rnd rd (map csv_line_of (workload twister k sd)) = Inr \<lparr>pb_latency = summarize rnd
      (map (\<lambda>i. rd_clock rd (2 * i + 1) - rd_clock rd (2 * i)) [0..<k]),
      pb_checksum = fold (\<lambda>e checksum. checksum XOR parsed_checksum e) (workload twister k sd) 0\<rparr>" for rd k sd
    using parse_all_lines [OF ev] by (simp add: run_parsing_def)
  have all: "all_runs (\<lambda>r. Inr (f r)) rs = Inr (map f rs)" for f :: "nat \<Rightarrow> parse_bench" and rs :: "nat list"
    by (induction rs) simp_all
  have small: "min n 10000 < max_count" using assms by linarith
  show ?thesis unfolding benchmark_parsing_def lines [OF small] lines [OF assms] and_then_simps run all by (simp add: comp_def)
qed

lemma itch_benchmark_completes:
  assumes "rounding rnd" and "rounding ldbl" and "n < max_count" and "\<forall>r < measured_runs. plausible (2 ^ 50) (itch_rate rnd n (rds r))"
  shows "\<exists>rep. benchmark_itch_decode rnd ldbl twister warm rds n = Some (Inr rep) \<and> ir_decoded_per_run rep = n"
proof -
  obtain w where w: "run_itch_decode rnd warm (itch_stream twister (min n 20000) (base_seed - 3)) = Some (Inr w)"
    using decode_runs by blast
  have small: "min n 20000 < max_count" using assms(3) by linarith
  let ?f = "\<lambda>r. run_itch_decode rnd (rds r) (itch_stream twister n (run_seed r))"
    and ?P = "\<lambda>x. ib_decoded x = n \<and> plausible (2 ^ 50) (ib_messages_per_second x)"
  have one: "\<exists>x. ?f r = Some (Inr x) \<and> ?P x" if "r \<in> set [0..<measured_runs]" for r
    using decode_runs [of rnd "rds r" twister n "run_seed r"] assms(4) that by auto
  obtain xs where xs: "all_returning ?f [0..<measured_runs] = Some (Inr xs)" "length xs = measured_runs" "\<forall>x \<in> set xs. ?P x"
    using all_returning_Inr [of "[0..<measured_runs]" ?f ?P] one by auto
  have "xs \<noteq> []" using xs(2) by (auto simp: measured_runs_def)
  then obtain v where v: "cast_u64 (median_double rnd ldbl (map ib_messages_per_second xs)) = Inr v"
    using median_cast [OF assms(1,2), of "map ib_messages_per_second xs"] xs(3) by auto
  have "ib_decoded (last xs) = n" using \<open>xs \<noteq> []\<close> xs(3) by simp
  then show ?thesis
    by (simp add: benchmark_itch_decode_def and_next_def make_itch_stream_Inr [OF small] make_itch_stream_Inr [OF assms(3)] w xs(1) v)
qed

end
