(* ===== verification/BenchThreads.thy ===== *)
theory BenchThreads
  imports BenchFeeds Pipeline
begin

text \<open>
  \<^verbatim>\<open>run_pipeline\<close> of \<^verbatim>\<open>Benchmark.cpp\<close>: a paced producer thread that stamps the events and pushes them, a consumer
  thread that pops and applies them, and the main thread that starts both and takes the time. As in \<^verbatim>\<open>Pipeline\<close>
  a step is one access to shared memory, or one reading of the clock with the local work behind it. A
  reading may be any value; the rates it gives are finite only when the clock has moved.
\<close>

section \<open>The threads\<close>

record timed_event =
  te_event :: market_data_event
  te_ready_ns :: u64
  te_publish_start_ns :: u64
  te_sampled :: bool

definition default_timed :: timed_event where
  "default_timed = \<lparr>te_event = default_event, te_ready_ns = 0, te_publish_start_ns = 0, te_sampled = False\<rparr>"

definition bench_slots :: nat where
  "bench_slots = 8192"

definition pacing_batch_size :: nat where
  "pacing_batch_size = 8"

definition producer_sample_interval :: nat where
  "producer_sample_interval = 64"

text \<open>The places of the producer in its loops: the batch, the index, the item in its hand.\<close>

datatype bench_producer =
    Awaiting_start
  | At_epoch
  | At_batch nat
  | Pacing nat u64
  | At_item nat nat
  | Attempting nat nat timed_event
  | In_push nat nat timed_event
  | Refused nat nat timed_event
  | Published nat nat timed_event
  | Measuring_depth nat nat
  | Producer_done

datatype bench_consumer =
    Consumer_awaiting
  | At_event nat
  | In_pop nat
  | Dequeued nat timed_event
  | Processing nat timed_event u64
  | Processed nat timed_event u64
  | Consumer_done

datatype bench_main = Starting | Storing_epoch | Releasing | Joining | Stopping | Main_done

record bench_pipe =
  bp_system :: "timed_event spsc_system"
  bp_book :: order_book
  bp_start :: bool
  bp_start_ns :: u64
  bp_rejected :: bool
  bp_epoch :: u64
  bp_producer :: bench_producer
  bp_consumer :: bench_consumer
  bp_main :: bench_main
  bp_begin :: u64
  bp_end :: u64
  bp_enqueue_call :: "u64 list"
  bp_enqueue_total :: "u64 list"
  bp_queue_depth :: "u64 list"
  bp_queue_residence :: "u64 list"
  bp_processing :: "u64 list"
  bp_end_to_end :: "u64 list"

definition bench_start :: "nat \<Rightarrow> order_book \<Rightarrow> bench_pipe" where
  "bench_start n bk =
     \<lparr>bp_system = start_system bench_slots default_timed, bp_book = bk, bp_start = False, bp_start_ns = 0, bp_rejected = False,
      bp_epoch = 0, bp_producer = Awaiting_start, bp_consumer = Consumer_awaiting, bp_main = Starting, bp_begin = 0, bp_end = 0,
      bp_enqueue_call = [], bp_enqueue_total = [], bp_queue_depth = [],
      bp_queue_residence = replicate n 0, bp_processing = replicate n 0, bp_end_to_end = replicate n 0\<rparr>"

text \<open>
  The release time of a batch at the target rate. The cast of a time past 64 bits, which has no value in the program, wraps:
  a reading is compared with it, and no property depends on which.
\<close>

definition release_ns :: "(rat \<Rightarrow> rat) \<Rightarrow> double \<Rightarrow> u64 \<Rightarrow> nat \<Rightarrow> u64" where
  "release_ns rnd rate epoch batch =
     epoch + (case rate of Finite r \<Rightarrow> to_quantity (rnd (rnd (rnd (rat_of_nat batch) * 10 ^ 9) / r)) | _ \<Rightarrow> 0)"

text \<open>\<^verbatim>\<open>target_rate > 0.0\<close>\<close>

fun paced :: "double \<Rightarrow> bool" where
  "paced (Finite r) = (r > 0)"
| "paced Infinite = True"
| "paced Not_a_number = False"

definition batch_end :: "nat \<Rightarrow> nat \<Rightarrow> nat" where
  "batch_end n batch = min n (batch + pacing_batch_size)"

definition next_place :: "nat \<Rightarrow> nat \<Rightarrow> nat \<Rightarrow> bench_producer" where
  "next_place n batch i =
     (if i + 1 < batch_end n batch then At_item batch (i + 1) else At_batch (batch + pacing_batch_size))"

text \<open>
  A step of the producer; \<^verbatim>\<open>t\<close> is the clock, should the step read it. \<^verbatim>\<open>size_approx\<close> is one step: the head it
  loads is the producer's own.
\<close>

definition bench_producer_step :: "(rat \<Rightarrow> rat) \<Rightarrow> double \<Rightarrow> market_data_event list \<Rightarrow> u64 \<Rightarrow> bench_pipe \<Rightarrow> bench_pipe" where
  "bench_producer_step rnd rate events t s =
     (case bp_producer s of
       Awaiting_start \<Rightarrow> if bp_start s then s\<lparr>bp_producer := At_epoch\<rparr> else s
     | At_epoch \<Rightarrow> s\<lparr>bp_epoch := bp_start_ns s, bp_producer := At_batch 0\<rparr>
     | At_batch b \<Rightarrow>
         if b < length events then
           s\<lparr>bp_producer := (if paced rate then Pacing b (release_ns rnd rate (bp_epoch s) b) else At_item b b)\<rparr>
         else s\<lparr>bp_producer := Producer_done\<rparr>
     | Pacing b release \<Rightarrow> if t < release then s else s\<lparr>bp_producer := At_item b b\<rparr>
     | At_item b i \<Rightarrow>
         s\<lparr>bp_producer := Attempting b i \<lparr>te_event = events ! i, te_ready_ns = t, te_publish_start_ns = t,
             te_sampled = (i mod producer_sample_interval = 0)\<rparr>\<rparr>
     | Attempting b i item \<Rightarrow>
         let item1 = (if te_sampled item then item\<lparr>te_publish_start_ns := t\<rparr> else item)
         in s\<lparr>bp_system := (bp_system s)\<lparr>sy_producer := PCalled item1\<rparr>, bp_producer := In_push b i item1\<rparr>
     | In_push b i item \<Rightarrow>
         (case push_step (sy_producer (bp_system s)) (sy_queue (bp_system s)) of (l, p, q) \<Rightarrow>
            s\<lparr>bp_system := (bp_system s)\<lparr>sy_producer := p, sy_queue := q\<rparr>,
              bp_producer := (case l of
                  Pushed _ \<Rightarrow> if te_sampled item then Published b i item else next_place (length events) b i
                | PushFull \<Rightarrow> Refused b i item
                | _ \<Rightarrow> In_push b i item)\<rparr>)
     | Refused b i item \<Rightarrow> s\<lparr>bp_producer := Attempting b i (item\<lparr>te_publish_start_ns := t\<rparr>)\<rparr>
     | Published b i item \<Rightarrow>
         s\<lparr>bp_enqueue_call := bp_enqueue_call s @ [t - te_publish_start_ns item],
           bp_enqueue_total := bp_enqueue_total s @ [t - te_ready_ns item], bp_producer := Measuring_depth b i\<rparr>
     | Measuring_depth b i \<Rightarrow>
         s\<lparr>bp_queue_depth := bp_queue_depth s @ [word_of_nat (size_approx (sy_queue (bp_system s)))],
           bp_producer := next_place (length events) b i\<rparr>
     | Producer_done \<Rightarrow> s)"

definition bench_consumer_step :: "nat \<Rightarrow> u64 \<Rightarrow> bench_pipe \<Rightarrow> bench_pipe" where
  "bench_consumer_step n t s =
     (case bp_consumer s of
       Consumer_awaiting \<Rightarrow> if bp_start s then s\<lparr>bp_consumer := At_event 0\<rparr> else s
     | At_event i \<Rightarrow>
         if i < n then s\<lparr>bp_system := (bp_system s)\<lparr>sy_consumer := CCalled\<rparr>, bp_consumer := In_pop i\<rparr>
         else s\<lparr>bp_consumer := Consumer_done\<rparr>
     | In_pop i \<Rightarrow>
         (case pop_step (sy_consumer (bp_system s)) (sy_queue (bp_system s)) of (l, c, q) \<Rightarrow>
            s\<lparr>bp_system := (bp_system s)\<lparr>sy_consumer := c, sy_queue := q\<rparr>,
              bp_consumer := (case l of Popped item \<Rightarrow> Dequeued i item | PopEmpty \<Rightarrow> At_event i | _ \<Rightarrow> In_pop i)\<rparr>)
     | Dequeued i item \<Rightarrow> s\<lparr>bp_consumer := Processing i item t\<rparr>
     | Processing i item dequeued \<Rightarrow>
         (case process_event (te_event item) (bp_book s) of (r, bk) \<Rightarrow>
            s\<lparr>bp_book := bk, bp_rejected := (if r \<noteq> Applied then True else bp_rejected s), bp_consumer := Processed i item dequeued\<rparr>)
     | Processed i item dequeued \<Rightarrow>
         s\<lparr>bp_queue_residence := (bp_queue_residence s)[i := dequeued - te_publish_start_ns item],
           bp_processing := (bp_processing s)[i := t - dequeued],
           bp_end_to_end := (bp_end_to_end s)[i := t - te_ready_ns item], bp_consumer := At_event (i + 1)\<rparr>
     | Consumer_done \<Rightarrow> s)"

definition bench_main_step :: "u64 \<Rightarrow> bench_pipe \<Rightarrow> bench_pipe" where
  "bench_main_step t s =
     (case bp_main s of
       Starting \<Rightarrow> s\<lparr>bp_begin := t, bp_main := Storing_epoch\<rparr>
     | Storing_epoch \<Rightarrow> s\<lparr>bp_start_ns := bp_begin s, bp_main := Releasing\<rparr>
     | Releasing \<Rightarrow> s\<lparr>bp_start := True, bp_main := Joining\<rparr>
     | Joining \<Rightarrow> if bp_producer s = Producer_done \<and> bp_consumer s = Consumer_done then s\<lparr>bp_main := Stopping\<rparr> else s
     | Stopping \<Rightarrow> s\<lparr>bp_end := t, bp_main := Main_done\<rparr>
     | Main_done \<Rightarrow> s)"

inductive bench_step :: "(rat \<Rightarrow> rat) \<Rightarrow> double \<Rightarrow> market_data_event list \<Rightarrow> bench_pipe \<Rightarrow> bench_pipe \<Rightarrow> bool"
  for rnd rate events where
  bench_producer: "bench_step rnd rate events s (bench_producer_step rnd rate events t s)"
| bench_consumer: "bench_step rnd rate events s (bench_consumer_step (length events) t s)"
| bench_main: "bench_step rnd rate events s (bench_main_step t s)"

inductive_simps bench_step_iff: "bench_step rnd rate events s s'"

abbreviation bench_reaches :: "(rat \<Rightarrow> rat) \<Rightarrow> double \<Rightarrow> market_data_event list \<Rightarrow> bench_pipe \<Rightarrow> bench_pipe \<Rightarrow> bool" where
  "bench_reaches rnd rate events \<equiv> (bench_step rnd rate events)\<^sup>*\<^sup>*"

section \<open>What a run returns\<close>

record pipeline_run =
  pn_events_per_second :: double
  pn_enqueue_call :: distribution
  pn_enqueue_total :: distribution
  pn_queue_residence :: distribution
  pn_processing :: distribution
  pn_end_to_end :: distribution
  pn_queue_depth :: distribution
  pn_checksum :: u64

definition pipeline_result :: "(rat \<Rightarrow> rat) \<Rightarrow> nat \<Rightarrow> bench_pipe \<Rightarrow> bench_error + pipeline_run" where
  "pipeline_result rnd n s =
     (if bp_rejected s then Inl Pipeline_event_rejected
      else Inr \<lparr>pn_events_per_second = divided rnd (rnd (rnd (rat_of_nat n) * 10 ^ 9)) (to_double rnd (bp_end s - bp_begin s)),
        pn_enqueue_call = summarize rnd (bp_enqueue_call s), pn_enqueue_total = summarize rnd (bp_enqueue_total s),
        pn_queue_residence = summarize rnd (bp_queue_residence s), pn_processing = summarize rnd (bp_processing s),
        pn_end_to_end = summarize rnd (bp_end_to_end s), pn_queue_depth = summarize rnd (bp_queue_depth s),
        pn_checksum = state_checksum (bp_book s)\<rparr>)"

text \<open>The results \<^verbatim>\<open>run_pipeline\<close> may return: one for each way the threads and the clock may run.\<close>

inductive run_pipeline :: "(rat \<Rightarrow> rat) \<Rightarrow> market_data_event list \<Rightarrow> double \<Rightarrow> bench_error + pipeline_run \<Rightarrow> bool"
  for rnd events rate where
  not_constructed: "new_book (bench_orders * 2) = Inl err \<Longrightarrow> run_pipeline rnd events rate (Inl Book_not_constructed)"
| not_seeded: "new_book (bench_orders * 2) = Inr bk \<Longrightarrow> seed_book bk = Inl err \<Longrightarrow> run_pipeline rnd events rate (Inl err)"
| completed: "new_book (bench_orders * 2) = Inr bk \<Longrightarrow> seed_book bk = Inr bk1
    \<Longrightarrow> bench_reaches rnd rate events (bench_start (length events) bk1) s \<Longrightarrow> bp_main s = Main_done
    \<Longrightarrow> run_pipeline rnd events rate (pipeline_result rnd (length events) s)"

inductive_cases run_pipelineE: "run_pipeline rnd events rate r"

section \<open>Invariant\<close>

text \<open>How many items the places mean to be pushed, popped and applied, and how many of them sampled.\<close>

fun pushed_of :: "nat \<Rightarrow> bench_producer \<Rightarrow> nat" where
  "pushed_of n Awaiting_start = 0"
| "pushed_of n At_epoch = 0"
| "pushed_of n (At_batch b) = min b n"
| "pushed_of n (Pacing b release) = b"
| "pushed_of n (At_item b i) = i"
| "pushed_of n (Attempting b i item) = i"
| "pushed_of n (In_push b i item) = i"
| "pushed_of n (Refused b i item) = i"
| "pushed_of n (Published b i item) = i + 1"
| "pushed_of n (Measuring_depth b i) = i + 1"
| "pushed_of n Producer_done = n"

fun popped_of :: "nat \<Rightarrow> bench_consumer \<Rightarrow> nat" where
  "popped_of n Consumer_awaiting = 0"
| "popped_of n (At_event i) = i"
| "popped_of n (In_pop i) = i"
| "popped_of n (Dequeued i item) = i + 1"
| "popped_of n (Processing i item d) = i + 1"
| "popped_of n (Processed i item d) = i + 1"
| "popped_of n Consumer_done = n"

fun applied_of :: "nat \<Rightarrow> bench_consumer \<Rightarrow> nat" where
  "applied_of n (Dequeued i item) = i"
| "applied_of n (Processing i item d) = i"
| "applied_of n c = popped_of n c"

definition sampled_below :: "nat \<Rightarrow> nat" where
  "sampled_below k = (k + 63) div 64"

fun calls_of :: "nat \<Rightarrow> bench_producer \<Rightarrow> nat" where
  "calls_of n (Published b i item) = sampled_below i"
| "calls_of n p = sampled_below (pushed_of n p)"

fun depths_of :: "nat \<Rightarrow> bench_producer \<Rightarrow> nat" where
  "depths_of n (Published b i item) = sampled_below i"
| "depths_of n (Measuring_depth b i) = sampled_below i"
| "depths_of n p = sampled_below (pushed_of n p)"

definition stamped :: "market_data_event list \<Rightarrow> nat \<Rightarrow> timed_event \<Rightarrow> bool" where
  "stamped events i item \<longleftrightarrow> te_event item = events ! i \<and> te_sampled item = (i mod 64 = 0)"

definition in_batch :: "nat \<Rightarrow> nat \<Rightarrow> nat \<Rightarrow> bool" where
  "in_batch n b i \<longleftrightarrow> b \<le> i \<and> i < batch_end n b"

fun producer_at :: "market_data_event list \<Rightarrow> bench_producer \<Rightarrow> bool" where
  "producer_at events (Pacing b release) = (b < length events)"
| "producer_at events (At_item b i) = in_batch (length events) b i"
| "producer_at events (Attempting b i item) = (in_batch (length events) b i \<and> stamped events i item)"
| "producer_at events (In_push b i item) = (in_batch (length events) b i \<and> stamped events i item)"
| "producer_at events (Refused b i item) = (in_batch (length events) b i \<and> stamped events i item)"
| "producer_at events (Published b i item) = (in_batch (length events) b i \<and> i mod 64 = 0)"
| "producer_at events (Measuring_depth b i) = (in_batch (length events) b i \<and> i mod 64 = 0)"
| "producer_at events p = True"

fun hand_of :: "bench_producer \<Rightarrow> timed_event option" where
  "hand_of (In_push b i item) = Some item"
| "hand_of p = None"

fun consumer_at :: "market_data_event list \<Rightarrow> bench_consumer \<Rightarrow> bool" where
  "consumer_at events (At_event i) = (i \<le> length events)"
| "consumer_at events (In_pop i) = (i < length events)"
| "consumer_at events (Dequeued i item) = (i < length events \<and> te_event item = events ! i)"
| "consumer_at events (Processing i item d) = (i < length events \<and> te_event item = events ! i)"
| "consumer_at events (Processed i item d) = (i < length events)"
| "consumer_at events c = True"

fun in_pop :: "bench_consumer \<Rightarrow> bool" where
  "in_pop (In_pop i) = True"
| "in_pop c = False"

definition ring_inv :: "market_data_event list \<Rightarrow> bench_pipe \<Rightarrow> bool" where
  "ring_inv events s \<longleftrightarrow> system_ok (bp_system s) \<and> usable_capacity (sy_queue (bp_system s)) = bench_slots - 1
     \<and> pushing (sy_producer (bp_system s)) = hand_of (bp_producer s) \<and> (sy_consumer (bp_system s) = CIdle \<longleftrightarrow> \<not> in_pop (bp_consumer s))
     \<and> producer_at events (bp_producer s) \<and> consumer_at events (bp_consumer s)
     \<and> popped_of (length events) (bp_consumer s) \<le> pushed_of (length events) (bp_producer s)
     \<and> map te_event (contents (sy_queue (bp_system s)))
         = map ((!) events) [popped_of (length events) (bp_consumer s)..<pushed_of (length events) (bp_producer s)]"

definition book_inv :: "market_data_event list \<Rightarrow> order_book \<Rightarrow> bench_pipe \<Rightarrow> bool" where
  "book_inv events bk s \<longleftrightarrow> (let k = applied_of (length events) (bp_consumer s) in
     bp_book s = snd (process_events (take k events) bk)
     \<and> bp_rejected s = (\<not> set (fst (process_events (take k events) bk)) \<subseteq> {Applied}))"

definition samples_inv :: "nat \<Rightarrow> bench_pipe \<Rightarrow> bool" where
  "samples_inv n s \<longleftrightarrow> length (bp_enqueue_call s) = calls_of n (bp_producer s) \<and> length (bp_enqueue_total s) = calls_of n (bp_producer s)
     \<and> length (bp_queue_depth s) = depths_of n (bp_producer s)
     \<and> length (bp_queue_residence s) = n \<and> length (bp_processing s) = n \<and> length (bp_end_to_end s) = n"

definition main_inv :: "bench_pipe \<Rightarrow> bool" where
  "main_inv s \<longleftrightarrow> (bp_main s \<in> {Joining, Stopping, Main_done} \<longrightarrow> bp_start s)
     \<and> (bp_main s \<in> {Stopping, Main_done} \<longrightarrow> bp_producer s = Producer_done \<and> bp_consumer s = Consumer_done)"

definition bench_inv :: "market_data_event list \<Rightarrow> order_book \<Rightarrow> bench_pipe \<Rightarrow> bool" where
  "bench_inv events bk s \<longleftrightarrow> ring_inv events s \<and> book_inv events bk s \<and> samples_inv (length events) s \<and> main_inv s"

lemma sampled_below_Suc: "sampled_below (Suc i) = (if i mod 64 = 0 then Suc (sampled_below i) else sampled_below i)"
proof -
  define a b where "a = i div 64" and "b = i mod 64"
  then have i: "i = 64 * a + b" "b < 64" by simp_all
  have "(64 * a + c) div 64 = a + c div 64" for c by simp
  from this [of "b + 64"] this [of "b + 63"]
  have "sampled_below (Suc i) = a + (b + 64) div 64" "sampled_below i = a + (b + 63) div 64"
    by (simp_all add: sampled_below_def i(1) add.assoc)
  moreover have "(b + 64) div 64 = 1" "(b + 63) div 64 = (if b = 0 then 0 else 1)"
    using i(2) by (auto simp: div_if)
  moreover have "i mod 64 = b" by (simp add: b_def)
  ultimately show ?thesis by simp
qed

lemma next_place_at:
  assumes "in_batch n b i"
  shows "pushed_of n (next_place n b i) = i + 1" and "hand_of (next_place n b i) = None"
    and "calls_of n (next_place n b i) = sampled_below (i + 1)" and "depths_of n (next_place n b i) = sampled_below (i + 1)"
    and "n = length events \<Longrightarrow> producer_at events (next_place n b i)" and "next_place n b i \<noteq> Producer_done"
proof -
  have "i + 1 = min (b + pacing_batch_size) n" if "\<not> i + 1 < batch_end n b" using assms that unfolding in_batch_def batch_end_def by linarith
  then show "pushed_of n (next_place n b i) = i + 1" "calls_of n (next_place n b i) = sampled_below (i + 1)"
    "depths_of n (next_place n b i) = sampled_below (i + 1)" by (simp_all add: next_place_def)
  show "hand_of (next_place n b i) = None" "n = length events \<Longrightarrow> producer_at events (next_place n b i)"
    "next_place n b i \<noteq> Producer_done"
    using assms by (auto simp: next_place_def in_batch_def)
qed

lemma in_batch_less: "in_batch n b i \<Longrightarrow> i < n"
  by (simp add: in_batch_def batch_end_def)

lemma producer_ring:
  assumes "ring_inv events s"
  shows "ring_inv events (bench_producer_step rnd rate events t s)"
proof (cases "bp_producer s")
  case (In_push b i item)
  let ?sys = "bp_system s" and ?n = "length events"
  have hand: "pushing (sy_producer ?sys) = Some item" and ok: "system_ok ?sys" and at: "in_batch ?n b i" "stamped events i item"
    and le: "popped_of ?n (bp_consumer s) \<le> i"
    and ring: "map te_event (contents (sy_queue ?sys)) = map ((!) events) [popped_of ?n (bp_consumer s)..<i]"
    using assms In_push by (simp_all add: ring_inv_def)
  obtain l p q where st: "push_step (sy_producer ?sys) (sy_queue ?sys) = (l, p, q)" by (cases "push_step (sy_producer ?sys) (sy_queue ?sys)")
  note a = push_access [OF ok st]
  consider "l = Tau" "pushing p = Some item" | "l = PushFull" "p = PIdle" | "l = Pushed item" "p = PIdle"
    using push_step_label [OF st hand] by blast
  then show ?thesis
  proof cases
    case 3
    then have "map te_event (contents q) = map ((!) events) [popped_of ?n (bp_consumer s)..<Suc i]"
      using a(3) ring le at(2) by (simp add: stamped_def)
    then show ?thesis
      using assms In_push st a(1,2) 3 at le next_place_at [OF at(1)]
      by (simp add: ring_inv_def bench_producer_step_def stamped_def del: upt_Suc)
  qed (use assms In_push st a ring in \<open>simp_all add: ring_inv_def bench_producer_step_def\<close>)
next
  case (Attempting b i item)
  then show ?thesis using assms call_ok(1) [of "bp_system s"]
    by (auto simp: ring_inv_def bench_producer_step_def stamped_def pushing_def Let_def)
next
  case (Measuring_depth b i)
  then show ?thesis using assms next_place_at [of "length events" b i]
    by (simp add: ring_inv_def bench_producer_step_def del: upt_Suc)
qed (use assms in \<open>auto simp: ring_inv_def bench_producer_step_def stamped_def in_batch_def batch_end_def producer_sample_interval_def
    pacing_batch_size_def min_def\<close>)

lemma producer_book: "book_inv events bk s \<Longrightarrow> book_inv events bk (bench_producer_step rnd rate events t s)"
  by (auto simp: book_inv_def bench_producer_step_def Let_def split: bench_producer.splits label.splits prod.splits)

lemma producer_samples:
  assumes "samples_inv (length events) s" and "ring_inv events s"
  shows "samples_inv (length events) (bench_producer_step rnd rate events t s)"
proof (cases "bp_producer s")
  case (In_push b i item)
  let ?sys = "bp_system s"
  have at: "in_batch (length events) b i" "stamped events i item" and hand: "pushing (sy_producer ?sys) = Some item"
    using assms(2) In_push by (simp_all add: ring_inv_def)
  obtain l p q where st: "push_step (sy_producer ?sys) (sy_queue ?sys) = (l, p, q)" by (cases "push_step (sy_producer ?sys) (sy_queue ?sys)")
  have "l = Tau \<or> l = PushFull \<or> l = Pushed item" using push_step_label [OF st hand] by blast
  then show ?thesis using assms(1) In_push st at next_place_at [OF at(1)]
    by (auto simp: samples_inv_def bench_producer_step_def stamped_def sampled_below_Suc)
next
  case (Published b i item)
  then show ?thesis using assms by (auto simp: samples_inv_def ring_inv_def bench_producer_step_def sampled_below_Suc)
next
  case (Measuring_depth b i)
  then show ?thesis using assms next_place_at [of "length events" b i]
    by (auto simp: samples_inv_def ring_inv_def bench_producer_step_def sampled_below_Suc)
qed (use assms in \<open>auto simp: samples_inv_def bench_producer_step_def Let_def sampled_below_def ring_inv_def in_batch_def min_def\<close>)

lemma producer_main: "main_inv s \<Longrightarrow> main_inv (bench_producer_step rnd rate events t s)"
  by (auto simp: main_inv_def bench_producer_step_def Let_def split: bench_producer.splits label.splits prod.splits)

lemma consumer_ring:
  assumes "ring_inv events s"
  shows "ring_inv events (bench_consumer_step (length events) t s)"
proof (cases "bp_consumer s")
  case (In_pop i)
  let ?sys = "bp_system s" and ?n = "length events"
  have ok: "system_ok ?sys" and le: "i \<le> pushed_of ?n (bp_producer s)"
    and ring: "map te_event (contents (sy_queue ?sys)) = map ((!) events) [i..<pushed_of ?n (bp_producer s)]"
    using assms In_pop by (simp_all add: ring_inv_def)
  obtain l c q where st: "pop_step (sy_consumer ?sys) (sy_queue ?sys) = (l, c, q)" by (cases "pop_step (sy_consumer ?sys) (sy_queue ?sys)")
  note a = pop_access [OF ok st]
  have idle: "sy_consumer ?sys \<noteq> CIdle" using assms In_pop by (simp add: ring_inv_def)
  consider "l = Tau" "c \<noteq> CIdle" | "l = PopEmpty" "c = CIdle" | item where "l = Popped item" "c = CIdle"
    using pop_step_label [OF st] st idle by (cases "sy_consumer ?sys") (auto split: if_splits)
  then show ?thesis
  proof cases
    case (3 item)
    then have cs: "contents (sy_queue ?sys) = item # contents q" using a(3) by simp
    have "i < pushed_of ?n (bp_producer s)" using ring unfolding cs by (cases "i < pushed_of ?n (bp_producer s)") simp_all
    then have "te_event item = events ! i" "map te_event (contents q) = map ((!) events) [Suc i..<pushed_of ?n (bp_producer s)]"
      using ring unfolding cs by (simp_all add: upt_conv_Cons)
    then show ?thesis using assms In_pop st a(1,2) 3 \<open>i < pushed_of ?n (bp_producer s)\<close> by (simp add: ring_inv_def bench_consumer_step_def)
  qed (use assms In_pop st a ring in \<open>simp_all add: ring_inv_def bench_consumer_step_def\<close>)
next
  case (At_event i)
  then show ?thesis using assms call_ok(2) [of "bp_system s"] by (auto simp: ring_inv_def bench_consumer_step_def)
qed (use assms in \<open>auto simp: ring_inv_def bench_consumer_step_def split: prod.splits\<close>)

lemma take_snoc: "i < length xs \<Longrightarrow> take (Suc i) xs = take i xs @ [xs ! i]"
  by (rule take_Suc_conv_app_nth)

lemma consumer_book:
  assumes "book_inv events bk s" and "ring_inv events s"
  shows "book_inv events bk (bench_consumer_step (length events) t s)"
proof (cases "bp_consumer s")
  case (Processing i item d)
  then have i: "i < length events" "te_event item = events ! i" using assms(2) by (simp_all add: ring_inv_def)
  show ?thesis using assms(1) Processing
    by (auto simp: book_inv_def bench_consumer_step_def take_snoc [OF i(1)] i(2) process_events_append split: prod.splits)
next
  case (At_event i)
  then show ?thesis using assms by (auto simp: book_inv_def ring_inv_def bench_consumer_step_def)
qed (use assms in \<open>auto simp: book_inv_def bench_consumer_step_def split: prod.splits label.splits\<close>)

lemma consumer_samples: "samples_inv n s \<Longrightarrow> samples_inv n (bench_consumer_step m t s)"
  by (auto simp: samples_inv_def bench_consumer_step_def split: bench_consumer.splits prod.splits)

lemma consumer_main: "main_inv s \<Longrightarrow> main_inv (bench_consumer_step n t s)"
  by (auto simp: main_inv_def bench_consumer_step_def split: bench_consumer.splits prod.splits)

lemma main_keeps: "bench_inv events bk s \<Longrightarrow> bench_inv events bk (bench_main_step t s)"
  by (cases "bp_main s") (auto simp: bench_inv_def ring_inv_def book_inv_def samples_inv_def main_inv_def bench_main_step_def)

lemma bench_step_keeps: "bench_step rnd rate events s s' \<Longrightarrow> bench_inv events bk s \<Longrightarrow> bench_inv events bk s'"
  unfolding bench_step_iff
  using producer_ring producer_book producer_samples producer_main consumer_ring consumer_book consumer_samples consumer_main main_keeps
  by (auto simp: bench_inv_def)

lemma bench_reaches_keeps: "bench_reaches rnd rate events s s' \<Longrightarrow> bench_inv events bk s \<Longrightarrow> bench_inv events bk s'"
  by (induction rule: rtranclp_induct) (auto intro: bench_step_keeps)

lemma bench_start_inv: "bench_inv events bk (bench_start (length events) bk)"
  using start_ok [of bench_slots default_timed]
  by (simp add: bench_inv_def ring_inv_def book_inv_def samples_inv_def main_inv_def bench_start_def sampled_below_def bench_slots_def)
    (simp add: start_system_def)

section \<open>Every run can be completed\<close>

text \<open>
  How many steps each thread still has to its next wait, and how many before its end. From any state a
  step of some thread makes the sum smaller: the main thread's unless it waits to join, the
  consumer's unless the ring is empty, and with the ring empty the producer's.
\<close>

fun push_rank :: "'a producer \<Rightarrow> nat" where
  "push_rank PIdle = 0"
| "push_rank (PCalled item) = 4"
| "push_rank (PLoaded item h) = 3"
| "push_rank (PFree item h) = 2"
| "push_rank (PStored item h) = 1"

fun producer_rank :: "nat \<Rightarrow> timed_event producer \<Rightarrow> bench_producer \<Rightarrow> nat" where
  "producer_rank n p Awaiting_start = 20 * n + 7"
| "producer_rank n p At_epoch = 20 * n + 6"
| "producer_rank n p (At_batch b) = 20 * (n - b) + 5"
| "producer_rank n p (Pacing b release) = 20 * (n - b) + 4"
| "producer_rank n p (At_item b i) = 20 * (n - i) + 3"
| "producer_rank n p (Attempting b i item) = 20 * (n - i) + 1"
| "producer_rank n p (Refused b i item) = 20 * (n - i) + 2"
| "producer_rank n p (In_push b i item) = 20 * (n - i) - 8 + push_rank p"
| "producer_rank n p (Published b i item) = 20 * (n - i) - 9"
| "producer_rank n p (Measuring_depth b i) = 20 * (n - i) - 10"
| "producer_rank n p Producer_done = 0"

fun pop_rank :: "'a consumer \<Rightarrow> nat" where
  "pop_rank CIdle = 0"
| "pop_rank CCalled = 4"
| "pop_rank (CLoaded h) = 3"
| "pop_rank (CReady h) = 2"
| "pop_rank (CRead h item) = 1"

fun consumer_rank :: "nat \<Rightarrow> timed_event consumer \<Rightarrow> bench_consumer \<Rightarrow> nat" where
  "consumer_rank n c Consumer_awaiting = 20 * n + 7"
| "consumer_rank n c (At_event i) = 20 * (n - i) + 6"
| "consumer_rank n c (In_pop i) = 20 * (n - i) + pop_rank c"
| "consumer_rank n c (Dequeued i item) = 20 * (n - i) - 1"
| "consumer_rank n c (Processing i item d) = 20 * (n - i) - 2"
| "consumer_rank n c (Processed i item d) = 20 * (n - i) - 3"
| "consumer_rank n c Consumer_done = 0"

fun main_rank :: "bench_main \<Rightarrow> nat" where
  "main_rank Starting = 5"
| "main_rank Storing_epoch = 4"
| "main_rank Releasing = 3"
| "main_rank Joining = 2"
| "main_rank Stopping = 1"
| "main_rank Main_done = 0"

definition bench_rank :: "nat \<Rightarrow> bench_pipe \<Rightarrow> nat" where
  "bench_rank n s = producer_rank n (sy_producer (bp_system s)) (bp_producer s) + consumer_rank n (sy_consumer (bp_system s)) (bp_consumer s)
     + main_rank (bp_main s)"

lemma main_advances:
  assumes "bp_main s \<noteq> Main_done" and "bp_main s = Joining \<Longrightarrow> bp_producer s = Producer_done \<and> bp_consumer s = Consumer_done"
  shows "bench_rank n (bench_main_step t s) < bench_rank n s"
  using assms by (cases "bp_main s") (simp_all add: bench_rank_def bench_main_step_def)

lemma consumer_advances:
  assumes inv: "ring_inv events s" and start: "bp_start s" and busy: "bp_consumer s \<noteq> Consumer_done"
    and ready: "contents (sy_queue (bp_system s)) \<noteq> [] \<or> \<not> in_pop (bp_consumer s)"
  shows "bench_rank (length events) (bench_consumer_step (length events) t s) < bench_rank (length events) s"
proof (cases "bp_consumer s")
  case (In_pop i)
  let ?sys = "bp_system s"
  have ok: "spsc_ok (sy_queue ?sys)" "consumer_ok (sy_queue ?sys) (sy_consumer ?sys)" and c: "sy_consumer ?sys \<noteq> CIdle" and i: "i < length events"
    using inv In_pop by (simp_all add: ring_inv_def system_ok_def)
  have "q_tail (sy_queue ?sys) \<noteq> q_head (sy_queue ?sys)" using first_item [OF ok(1)] ready In_pop by simp
  then show ?thesis using In_pop c ok(2) i
    by (cases "sy_consumer ?sys") (auto simp: bench_rank_def bench_consumer_step_def consumer_ok_def)
qed (use assms in \<open>auto simp: bench_rank_def bench_consumer_step_def ring_inv_def split: prod.splits\<close>)

lemma producer_rank_next:
  assumes "in_batch n b i"
  shows "producer_rank n p (next_place n b i) \<le> 20 * (n - i) - 15" and "i < n"
  using assms unfolding next_place_def in_batch_def batch_end_def by auto

lemma producer_advances:
  assumes inv: "ring_inv events s" and start: "bp_start s" and busy: "bp_producer s \<noteq> Producer_done"
    and room: "contents (sy_queue (bp_system s)) = []"
  shows "\<exists>t. bench_rank (length events) (bench_producer_step rnd rate events t s) < bench_rank (length events) s"
proof (cases "bp_producer s")
  case (In_push b i item)
  let ?sys = "bp_system s" and ?n = "length events"
  have ok: "spsc_ok (sy_queue ?sys)" "producer_ok (sy_queue ?sys) (sy_producer ?sys)" and p: "sy_producer ?sys \<noteq> PIdle"
    and u: "usable_capacity (sy_queue ?sys) = bench_slots - 1" and at: "in_batch ?n b i"
    using inv In_push by (auto simp: ring_inv_def system_ok_def)
  have "q_length (sy_queue ?sys) = 0" using room by (metis Spsc.length_contents list.size(3))
  then have "increment (q_capacity (sy_queue ?sys)) (q_head (sy_queue ?sys)) \<noteq> q_tail (sy_queue ?sys)"
    using not_full [OF ok(1)] u by (simp add: bench_slots_def)
  then show ?thesis
    using In_push p ok(2) producer_rank_next(1) [OF at, of PIdle] producer_rank_next(2) [OF at]
    by (cases "sy_producer ?sys") (auto simp: bench_rank_def bench_producer_step_def producer_ok_def)
next
  case (Pacing b release)
  then have "bench_rank (length events) (bench_producer_step rnd rate events release s) < bench_rank (length events) s"
    by (simp add: bench_rank_def bench_producer_step_def)
  then show ?thesis by blast
next
  case (Attempting b i item)
  then have "i < length events" using inv in_batch_less by (auto simp: ring_inv_def)
  then show ?thesis using Attempting by (simp add: bench_rank_def bench_producer_step_def Let_def)
next
  case (Published b i item)
  then have "i < length events" using inv in_batch_less by (auto simp: ring_inv_def)
  then show ?thesis using Published by (simp add: bench_rank_def bench_producer_step_def)
next
  case (Measuring_depth b i)
  then have "in_batch (length events) b i" using inv by (simp add: ring_inv_def)
  from producer_rank_next(1) [OF this, of "sy_producer (bp_system s)"] producer_rank_next(2) [OF this] Measuring_depth show ?thesis
    by (simp add: bench_rank_def bench_producer_step_def)
qed (use assms in \<open>auto simp: bench_rank_def bench_producer_step_def Let_def\<close>)

lemma bench_advances:
  assumes inv: "bench_inv events bk s" and running: "bp_main s \<noteq> Main_done"
  shows "\<exists>s'. bench_step rnd rate events s s' \<and> bench_rank (length events) s' < bench_rank (length events) s"
proof -
  let ?n = "length events"
  have ring: "ring_inv events s" using inv by (simp add: bench_inv_def)
  consider (main) "bp_main s \<noteq> Joining" | (join) "bp_main s = Joining" "bp_producer s = Producer_done" "bp_consumer s = Consumer_done"
    | (consumer) "bp_main s = Joining" "bp_consumer s \<noteq> Consumer_done" "contents (sy_queue (bp_system s)) \<noteq> [] \<or> \<not> in_pop (bp_consumer s)"
    | (wait) "bp_main s = Joining" "contents (sy_queue (bp_system s)) = []" "in_pop (bp_consumer s)"
    | (rest) "bp_main s = Joining" "bp_producer s \<noteq> Producer_done" "bp_consumer s = Consumer_done"
    by blast
  then show ?thesis
  proof cases
    case main
    then show ?thesis using main_advances [of s ?n 0] running bench_main [of rnd rate events s 0] by blast
  next
    case join
    then show ?thesis using main_advances [of s ?n 0] bench_main [of rnd rate events s 0] by auto
  next
    case consumer
    then have "bp_start s" using inv by (simp add: bench_inv_def main_inv_def)
    then show ?thesis using consumer_advances [OF ring _ consumer(2,3), of 0] bench_consumer [of rnd rate events s 0] by blast
  next
    case wait
    then have start: "bp_start s" using inv by (simp add: bench_inv_def main_inv_def)
    obtain i where i: "bp_consumer s = In_pop i" using wait(3) by (cases "bp_consumer s") simp_all
    then have "i < ?n" "pushed_of ?n (bp_producer s) \<le> i" using ring wait(2) by (auto simp: ring_inv_def)
    then have "bp_producer s \<noteq> Producer_done" by auto
    then show ?thesis using producer_advances [OF ring start _ wait(2)] bench_producer by blast
  next
    case rest
    then have start: "bp_start s" using inv by (simp add: bench_inv_def main_inv_def)
    have "pushed_of ?n p \<le> ?n" if "producer_at events p" for p using that by (cases p) (auto simp: in_batch_def batch_end_def)
    then have "pushed_of ?n (bp_producer s) \<le> ?n" using ring by (simp add: ring_inv_def)
    then have "contents (sy_queue (bp_system s)) = []" using ring rest(3) by (simp add: ring_inv_def)
    then show ?thesis using producer_advances [OF ring start rest(2)] bench_producer by blast
  qed
qed

lemma bench_main_only:
  assumes "bench_step rnd rate events s s'" and "bp_main s \<noteq> Stopping" and "bp_main s \<noteq> Main_done"
  shows "bp_main s' \<noteq> Main_done"
proof -
  have p: "bp_main (bench_producer_step rnd rate events t s) = bp_main s" for t
    by (cases "bp_producer s") (simp_all add: bench_producer_step_def Let_def split: prod.split)
  have c: "bp_main (bench_consumer_step n t s) = bp_main s" for n t
    by (cases "bp_consumer s") (simp_all add: bench_consumer_step_def split: prod.split)
  have m: "bp_main (bench_main_step t s) \<noteq> Main_done" for t
    using assms(2,3) by (cases "bp_main s") (simp_all add: bench_main_step_def)
  show ?thesis using assms(1,3) p c m unfolding bench_step_iff by (elim disjE exE) simp_all
qed

text \<open>Besides, the clock may have moved as far as it can between the two readings of the main thread.\<close>

lemma bench_completes:
  assumes "bench_inv events bk s"
  shows "\<exists>s'. bench_reaches rnd rate events s s' \<and> bp_main s' = Main_done
    \<and> (bp_main s \<noteq> Main_done \<longrightarrow> bp_end s' - bp_begin s' = - 1)"
  using assms
proof (induction "bench_rank (length events) s" arbitrary: s rule: less_induct)
  case less
  show ?case
  proof (cases "bp_main s = Main_done \<or> bp_main s = Stopping")
    case False
    then obtain s1 where s1: "bench_step rnd rate events s s1" "bench_rank (length events) s1 < bench_rank (length events) s"
      using bench_advances [OF less.prems] by blast
    have "bp_main s1 \<noteq> Main_done" using bench_main_only [OF s1(1)] False by blast
    with less.hyps [OF s1(2) bench_step_keeps [OF s1(1) less.prems]] s1(1) show ?thesis
      by (meson converse_rtranclp_into_rtranclp)
  next
    case True
    then show ?thesis
    proof
      assume "bp_main s = Stopping"
      then have "bench_step rnd rate events s (s\<lparr>bp_end := bp_begin s - 1, bp_main := Main_done\<rparr>)"
        using bench_main [of rnd rate events s "bp_begin s - 1"] by (simp add: bench_main_step_def)
      then show ?thesis by (intro exI [of _ "s\<lparr>bp_end := bp_begin s - 1, bp_main := Main_done\<rparr>"]) (auto intro: r_into_rtranclp)
    qed blast
  qed
qed

end
