(* ===== verification/BenchLoads.thy ===== *)
theory BenchLoads
  imports BenchThreads
begin

text \<open>
  The load levels of \<^verbatim>\<open>Benchmark.cpp\<close> over the two-thread runs of \<^verbatim>\<open>BenchThreads\<close>: the calibration of the
  sustainable rate, the runs below and above it, and \<^verbatim>\<open>main\<close>. The scheduler is a parameter: \<^verbatim>\<open>runs k\<close> is what
  the \<^verbatim>\<open>k\<close>-th call of \<^verbatim>\<open>run_pipeline\<close> returns for its workload and target rate.
\<close>

type_synonym pipeline_runs = "nat \<Rightarrow> market_data_event list \<Rightarrow> double \<Rightarrow> bench_error + pipeline_run"

section \<open>Calibration\<close>

definition calibration_repetitions :: nat where
  "calibration_repetitions = 3"

definition search_steps :: nat where
  "search_steps = 8"

definition maximum_p99_queue_depth :: u64 where
  "maximum_p99_queue_depth = 64"

definition calibration_count :: "nat \<Rightarrow> nat" where
  "calibration_count n = max 30000 (min n 100000)"

text \<open>A candidate is sustained when the median run reaches it and the median queue stays short.\<close>

definition sustainable :: "(rat \<Rightarrow> rat) \<Rightarrow> (rat \<Rightarrow> rat) \<Rightarrow> double \<Rightarrow> pipeline_run list \<Rightarrow> bool" where
  "sustainable rnd ldbl candidate results \<longleftrightarrow>
     at_least (median_double rnd ldbl (map pn_events_per_second results)) (scaled rnd candidate (rnd (98 / 100)))
     \<and> median_u64 ldbl (map (\<lambda>r. ds_p99 (pn_queue_depth r)) results) \<le> maximum_p99_queue_depth"

definition candidate_runs ::
  "(u64 \<Rightarrow> 'g) \<times> ('g \<Rightarrow> u64 \<times> 'g) \<Rightarrow> pipeline_runs \<Rightarrow> nat \<Rightarrow> nat \<Rightarrow> double \<Rightarrow> bench_error + pipeline_run list" where
  "candidate_runs twister runs n step candidate =
     all_runs (\<lambda>run. and_then (make_workload twister (calibration_count n)
             (base_seed - 100 - word_of_nat (step * calibration_repetitions) - word_of_nat run)) (\<lambda>events.
         runs (4 + step * calibration_repetitions + run) events candidate))
       [0..<calibration_repetitions]"

text \<open>The search by bisection from \<^verbatim>\<open>step\<close> on.\<close>

fun search_rate ::
  "(rat \<Rightarrow> rat) \<Rightarrow> (rat \<Rightarrow> rat) \<Rightarrow> (u64 \<Rightarrow> 'g) \<times> ('g \<Rightarrow> u64 \<times> 'g) \<Rightarrow> pipeline_runs \<Rightarrow> nat \<Rightarrow> nat list \<Rightarrow> double \<Rightarrow> double \<Rightarrow> bench_error + double" where
  "search_rate rnd ldbl twister runs n [] low high = Inr low"
| "search_rate rnd ldbl twister runs n (step # steps) low high =
     (let candidate = halfway rnd low high
      in and_then (candidate_runs twister runs n step candidate) (\<lambda>results.
           if sustainable rnd ldbl candidate results then search_rate rnd ldbl twister runs n steps candidate high
           else search_rate rnd ldbl twister runs n steps low candidate))"

definition unthrottled_runs ::
  "(u64 \<Rightarrow> 'g) \<times> ('g \<Rightarrow> u64 \<times> 'g) \<Rightarrow> pipeline_runs \<Rightarrow> nat \<Rightarrow> bench_error + pipeline_run list" where
  "unthrottled_runs twister runs n =
     all_runs (\<lambda>run. and_then (make_workload twister (calibration_count n) (base_seed - 10 - word_of_nat run)) (\<lambda>events.
         runs (1 + run) events (Finite 0)))
       [0..<calibration_repetitions]"

definition calibrate_pipeline ::
  "(rat \<Rightarrow> rat) \<Rightarrow> (rat \<Rightarrow> rat) \<Rightarrow> (u64 \<Rightarrow> 'g) \<times> ('g \<Rightarrow> u64 \<times> 'g) \<Rightarrow> pipeline_runs \<Rightarrow> nat \<Rightarrow> bench_error + double" where
  "calibrate_pipeline rnd ldbl twister runs n =
     and_then (make_workload twister 20000 (base_seed - 2)) (\<lambda>events.
     and_then (runs 0 events (Finite 0)) (\<lambda>_.
     and_then (unthrottled_runs twister runs n) (\<lambda>unthrottled.
       search_rate rnd ldbl twister runs n [0..<search_steps] (Finite 0)
         (scaled rnd (median_double rnd ldbl (map pn_events_per_second unthrottled)) (rnd (110 / 100))))))"

section \<open>Load levels\<close>

record load_report =
  lr_target :: u64
  lr_median_achieved :: u64
  lr_enqueue_call :: distribution
  lr_enqueue_total :: distribution
  lr_queue_residence :: distribution
  lr_processing :: distribution
  lr_end_to_end :: distribution
  lr_queue_depth :: distribution
  lr_final_checksum :: u64

definition loads :: "rat list" where
  "loads = [50 / 100, 70 / 100, 90 / 100, 110 / 100]"

definition load_section ::
  "(rat \<Rightarrow> rat) \<Rightarrow> (rat \<Rightarrow> rat) \<Rightarrow> (u64 \<Rightarrow> 'g) \<times> ('g \<Rightarrow> u64 \<times> 'g) \<Rightarrow> pipeline_runs \<Rightarrow> nat \<Rightarrow> double \<Rightarrow> nat \<Rightarrow> bench_error + load_report" where
  "load_section rnd ldbl twister runs n capacity level =
     (let target = scaled rnd capacity (rnd (loads ! level))
      in and_then (all_runs (\<lambda>run. and_then (make_workload twister n (run_seed run)) (\<lambda>events.
             runs (4 + search_steps * calibration_repetitions + level * measured_runs + run) events target)) [0..<measured_runs]) (\<lambda>rs.
         and_then (cast_u64 target) (\<lambda>target_rate.
         and_then (cast_u64 (median_double rnd ldbl (map pn_events_per_second rs))) (\<lambda>median.
           Inr \<lparr>lr_target = target_rate, lr_median_achieved = median,
             lr_enqueue_call = median_of ldbl (map pn_enqueue_call rs), lr_enqueue_total = median_of ldbl (map pn_enqueue_total rs),
             lr_queue_residence = median_of ldbl (map pn_queue_residence rs), lr_processing = median_of ldbl (map pn_processing rs),
             lr_end_to_end = median_of ldbl (map pn_end_to_end rs), lr_queue_depth = median_of ldbl (map pn_queue_depth rs),
             lr_final_checksum = folded (map pn_checksum rs)\<rparr>))))"

definition benchmark_load_levels ::
  "(rat \<Rightarrow> rat) \<Rightarrow> (rat \<Rightarrow> rat) \<Rightarrow> (u64 \<Rightarrow> 'g) \<times> ('g \<Rightarrow> u64 \<times> 'g) \<Rightarrow> pipeline_runs \<Rightarrow> nat \<Rightarrow> bench_error + u64 \<times> load_report list" where
  "benchmark_load_levels rnd ldbl twister runs n =
     and_then (calibrate_pipeline rnd ldbl twister runs n) (\<lambda>capacity.
     and_then (cast_u64 capacity) (\<lambda>sustainable_rate.
     and_then (all_runs (load_section rnd ldbl twister runs n capacity) [0..<length loads]) (\<lambda>sections.
       Inr (sustainable_rate, sections))))"

section \<open>The program\<close>

text \<open>Its instruments: per benchmark the readings of the warm-up run and of the measured runs, and the scheduler.\<close>

record instruments =
  in_hot :: "readings \<times> (nat \<Rightarrow> readings)"
  in_matching :: "readings \<times> (nat \<Rightarrow> readings)"
  in_parsing :: "readings \<times> (nat \<Rightarrow> readings)"
  in_itch :: "readings \<times> (nat \<Rightarrow> readings)"
  in_pipeline :: pipeline_runs

record benchmark_report =
  br_hot :: hot_report
  br_matching :: match_report
  br_parsing :: parse_report
  br_itch :: itch_report
  br_capacity :: u64
  br_loads :: "load_report list"

definition event_count :: "string list \<Rightarrow> bench_error + nat" where
  "event_count args = (case args of text # _ \<Rightarrow> parse_count text | [] \<Rightarrow> Inr 100000)"

text \<open>The body of \<^verbatim>\<open>main\<close> in a release build; a debug build throws before anything else.\<close>

definition benchmark_main ::
  "(rat \<Rightarrow> rat) \<Rightarrow> (rat \<Rightarrow> rat) \<Rightarrow> (u64 \<Rightarrow> 'g) \<times> ('g \<Rightarrow> u64 \<times> 'g) \<Rightarrow> instruments \<Rightarrow> string list \<Rightarrow> (bench_error + benchmark_report) option" where
  "benchmark_main rnd ldbl twister ins args =
     and_next (Some (event_count args)) (\<lambda>n.
     and_next (Some (benchmark_hot_path rnd ldbl twister (fst (in_hot ins)) (snd (in_hot ins)) n)) (\<lambda>hot.
     and_next (benchmark_matching rnd ldbl (fst (in_matching ins)) (snd (in_matching ins)) n) (\<lambda>matching.
     and_next (Some (benchmark_parsing rnd ldbl twister (fst (in_parsing ins)) (snd (in_parsing ins)) n)) (\<lambda>parsing.
     and_next (benchmark_itch_decode rnd ldbl twister (fst (in_itch ins)) (snd (in_itch ins)) n) (\<lambda>itch.
     and_next (Some (benchmark_load_levels rnd ldbl twister (in_pipeline ins) n)) (\<lambda>(capacity, sections).
       Some (Inr \<lparr>br_hot = hot, br_matching = matching, br_parsing = parsing, br_itch = itch,
         br_capacity = capacity, br_loads = sections\<rparr>)))))))"

text \<open>The exit code; none after an undefined cast.\<close>

definition benchmark_exit :: "(bench_error + benchmark_report) option \<Rightarrow> nat option" where
  "benchmark_exit outcome =
     (case outcome of
       None \<Rightarrow> None
     | Some (Inl err) \<Rightarrow> if err = Undefined_cast then None else Some 1
     | Some (Inr _) \<Rightarrow> Some 0)"

section \<open>Every pipeline run applies its whole workload\<close>

lemma apply_or_throw_Inr:
  "apply_or_throw err es bk = Inr bk1 \<Longrightarrow> set (fst (process_events es bk)) \<subseteq> {Applied} \<and> bk1 = snd (process_events es bk)"
  by (induction es arbitrary: bk) (auto simp: split_beta split: if_splits)

lemma hot_path_books:
  assumes "\<forall>e \<in> set es. workload_event e"
  shows "\<exists>bk bk1. new_book (bench_orders * 2) = Inr bk \<and> seed_book bk = Inr bk1 \<and> set (fst (process_events es bk1)) \<subseteq> {Applied}
    \<and> (\<forall>rnd rd. \<exists>h. run_hot_path rnd rd es = Inr h \<and> hr_checksum h = state_checksum (snd (process_events es bk1)))"
proof -
  have new: "new_book (bench_orders * 2) = Inr (projr (new_book (bench_orders * 2)))"
    by (rule new_book_Inr) (simp_all add: bench_orders_def npos_def)
  let ?bk = "projr (new_book (bench_orders * 2))"
  obtain h where h: "run_hot_path id undefined es = Inr h" using hot_path_runs [OF assms] by blast
  obtain bk1 where seed: "seed_book ?bk = Inr bk1" using h unfolding run_hot_path_def by (subst (asm) new) (cases "seed_book ?bk"; simp)
  obtain bk2 where loop: "apply_or_throw Event_rejected es bk1 = Inr bk2"
    using h unfolding run_hot_path_def by (subst (asm) new) (cases "apply_or_throw Event_rejected es bk1"; simp add: seed)
  note all = apply_or_throw_Inr [OF loop]
  have "\<exists>h. run_hot_path rnd rd es = Inr h \<and> hr_checksum h = state_checksum (snd (process_events es bk1))" for rnd rd
    unfolding run_hot_path_def by (subst new) (use all loop in \<open>simp add: seed\<close>)
  then show ?thesis using new seed all by blast
qed

lemma bench_finished:
  assumes "bench_inv events bk s" and "bp_main s = Main_done"
  shows "bp_book s = snd (process_events events bk)" and "bp_rejected s \<longleftrightarrow> \<not> set (fst (process_events events bk)) \<subseteq> {Applied}"
    and "length (bp_enqueue_call s) = (length events + 63) div 64" and "length (bp_enqueue_total s) = (length events + 63) div 64"
    and "length (bp_queue_depth s) = (length events + 63) div 64" and "length (bp_queue_residence s) = length events"
    and "length (bp_processing s) = length events" and "length (bp_end_to_end s) = length events"
proof -
  have "bp_producer s = Producer_done" "bp_consumer s = Consumer_done" using assms by (simp_all add: bench_inv_def main_inv_def)
  then show "bp_book s = snd (process_events events bk)" "bp_rejected s \<longleftrightarrow> \<not> set (fst (process_events events bk)) \<subseteq> {Applied}"
    "length (bp_enqueue_call s) = (length events + 63) div 64" "length (bp_enqueue_total s) = (length events + 63) div 64"
    "length (bp_queue_depth s) = (length events + 63) div 64" "length (bp_queue_residence s) = length events"
    "length (bp_processing s) = length events" "length (bp_end_to_end s) = length events"
    using assms(1) by (simp_all add: bench_inv_def book_inv_def samples_inv_def sampled_below_def)
qed

lemma run_pipeline_checksum:
  assumes "\<forall>e \<in> set events. workload_event e" and "run_pipeline rnd events rate res"
  shows "\<exists>p h. res = Inr p \<and> run_hot_path rnd rd events = Inr h \<and> pn_checksum p = hr_checksum h"
proof -
  obtain bk bk1 where b: "new_book (bench_orders * 2) = Inr bk" "seed_book bk = Inr bk1"
    "set (fst (process_events events bk1)) \<subseteq> {Applied}"
    "\<exists>h. run_hot_path rnd rd events = Inr h \<and> hr_checksum h = state_checksum (snd (process_events events bk1))"
    using hot_path_books [OF assms(1)] by blast
  from assms(2) obtain s where s: "bench_reaches rnd rate events (bench_start (length events) bk1) s" "bp_main s = Main_done"
    "res = pipeline_result rnd (length events) s"
    by (rule run_pipelineE) (use b(1,2) in \<open>simp_all\<close>)
  note fin = bench_finished [OF bench_reaches_keeps [OF s(1) bench_start_inv] s(2)]
  show ?thesis using b(3,4) s(3) fin(1,2) by (auto simp: pipeline_result_def)
qed

section \<open>The checksums of the sections\<close>

definition hot_checksum :: "(u64 \<Rightarrow> 'g) \<times> ('g \<Rightarrow> u64 \<times> 'g) \<Rightarrow> nat \<Rightarrow> nat \<Rightarrow> u64" where
  "hot_checksum twister n r = hr_checksum (projr (run_hot_path id \<lparr>rd_clock = (\<lambda>_. 0), rd_allocations = 0\<rparr> (workload twister n (run_seed r))))"

lemma workload_all: "\<forall>e \<in> set (workload twister n seed). workload_event e"
  by (simp add: workload_events)

lemma hot_checksum_any:
  "\<exists>h. run_hot_path rnd rd (workload twister n (run_seed r)) = Inr h \<and> hr_checksum h = hot_checksum twister n r"
proof -
  obtain c where c: "\<exists>h. run_hot_path rnd rd (workload twister n (run_seed r)) = Inr h \<and> hr_checksum h = c" for rnd rd
    using hot_path_books [OF workload_all] by blast
  from c [of id "\<lparr>rd_clock = (\<lambda>_. 0), rd_allocations = 0\<rparr>"] have "hot_checksum twister n r = c"
    by (auto simp: hot_checksum_def)
  then show ?thesis using c by blast
qed

lemma map_by_list_all2: "list_all2 (\<lambda>r x. f x = g r) rs xs \<Longrightarrow> map f xs = map g rs"
  by (induction rule: list_all2_induct) simp_all

lemma hot_report_checksum:
  assumes "rounding rnd" and "rounding ldbl" and "n < max_count" and "\<forall>r < measured_runs. plausible (2 ^ 50) (hot_rate rnd n (rds r))"
  shows "\<exists>rep. benchmark_hot_path rnd ldbl twister warm rds n = Inr rep
    \<and> hp_final_checksum rep = folded (map (hot_checksum twister n) [0..<measured_runs])"
proof -
  obtain w where w: "run_hot_path rnd warm (workload twister (min n 20000) (base_seed - 1)) = Inr w"
    using hot_path_runs [OF workload_all] by blast
  let ?f = "\<lambda>r. run_hot_path rnd (rds r) (workload twister n (run_seed r))"
    and ?P = "\<lambda>r x. hr_checksum x = hot_checksum twister n r \<and> hr_events_per_second x = hot_rate rnd n (rds r)"
  have one: "\<exists>x. ?f r = Inr x \<and> ?P r x" for r
    using hot_checksum_any [of rnd "rds r" twister n r] hot_path_rate [OF workload_all, of rnd "rds r" twister n "run_seed r"] by auto
  obtain xs where xs: "all_runs ?f [0..<measured_runs] = Inr xs" "list_all2 ?P [0..<measured_runs] xs"
    using all_runs_Inr [of "[0..<measured_runs]" ?f ?P] one by blast
  have "xs \<noteq> []" using list_all2_lengthD [OF xs(2)] by (auto simp: measured_runs_def)
  moreover have "plausible (2 ^ 50) (hr_events_per_second x)" if "x \<in> set xs" for x
    using xs(2) that assms(4) by (auto simp: list_all2_conv_all_nth in_set_conv_nth)
  ultimately obtain v where v: "cast_u64 (median_double rnd ldbl (map hr_events_per_second xs)) = Inr v"
    using median_cast [OF assms(1,2), of "map hr_events_per_second xs"] by auto
  have small: "min n 20000 < max_count" using assms(3) by linarith
  have "map hr_checksum xs = map (hot_checksum twister n) [0..<measured_runs]"
    by (rule map_by_list_all2) (rule list_all2_mono [OF xs(2)], rule conjunct1)
  then show ?thesis
    by (simp add: benchmark_hot_path_def make_workload_Inr [OF small] make_workload_Inr [OF assms(3)] w xs(1) v)
qed

text \<open>
  The scheduler gives results of \<^verbatim>\<open>run_pipeline\<close>, and of runs between whose readings the clock moved far enough for a rate
  up to \<open>2\<^sup>50\<close> events per second.
\<close>

definition scheduled :: "(rat \<Rightarrow> rat) \<Rightarrow> pipeline_runs \<Rightarrow> bool" where
  "scheduled rnd runs \<longleftrightarrow> (\<forall>k events rate. events \<noteq> [] \<and> length events < max_count \<longrightarrow>
     run_pipeline rnd events rate (runs k events rate)
     \<and> (\<forall>p. runs k events rate = Inr p \<longrightarrow> plausible (2 ^ 50) (pn_events_per_second p)))"

lemma scheduled_run:
  assumes "scheduled rnd runs" and "0 < n" and "n < max_count"
  shows "\<exists>p. runs k (workload twister n seed) rate = Inr p \<and> plausible (2 ^ 50) (pn_events_per_second p)"
    and "\<exists>p. runs k (workload twister n (run_seed r)) rate = Inr p \<and> plausible (2 ^ 50) (pn_events_per_second p)
      \<and> pn_checksum p = hot_checksum twister n r"
proof -
  have run: "run_pipeline rnd (workload twister n sd) rate (runs k (workload twister n sd) rate)"
    and fast: "runs k (workload twister n sd) rate = Inr p \<Longrightarrow> plausible (2 ^ 50) (pn_events_per_second p)" for sd p
  proof -
    have "workload twister n sd \<noteq> []" "length (workload twister n sd) < max_count" using assms(2,3) by (auto simp flip: length_0_conv)
    then show "run_pipeline rnd (workload twister n sd) rate (runs k (workload twister n sd) rate)"
      "runs k (workload twister n sd) rate = Inr p \<Longrightarrow> plausible (2 ^ 50) (pn_events_per_second p)"
      using assms(1) unfolding scheduled_def by blast+
  qed
  show "\<exists>p. runs k (workload twister n seed) rate = Inr p \<and> plausible (2 ^ 50) (pn_events_per_second p)"
    using run_pipeline_checksum [OF workload_all run] fast by blast
  obtain p h where "runs k (workload twister n (run_seed r)) rate = Inr p"
    "run_hot_path rnd undefined (workload twister n (run_seed r)) = Inr h" "pn_checksum p = hr_checksum h"
    using run_pipeline_checksum [OF workload_all run] by blast
  then show "\<exists>p. runs k (workload twister n (run_seed r)) rate = Inr p \<and> plausible (2 ^ 50) (pn_events_per_second p)
      \<and> pn_checksum p = hot_checksum twister n r"
    using hot_checksum_any [of rnd undefined twister n r] fast by auto
qed

lemma all_runs_return:
  assumes "\<And>r. \<exists>x. f r = Inr x \<and> P x"
  shows "\<exists>xs. all_runs f rs = Inr xs \<and> length xs = length rs \<and> (\<forall>x \<in> set xs. P x)"
proof (induction rs)
  case (Cons r rs)
  obtain x where "f r = Inr x" "P x" using assms by blast
  then show ?case using Cons by auto
qed simp

lemma calibration_count_small: "0 < calibration_count n" "calibration_count n < max_count"
  by (simp_all add: calibration_count_def max_count_def)

section \<open>What the search did\<close>

text \<open>
  The log of the search: the candidates it tried, in order, and whether the runs at each were sustained. The rate found
  is the last candidate that was.
\<close>

definition sustained_at ::
  "(rat \<Rightarrow> rat) \<Rightarrow> (rat \<Rightarrow> rat) \<Rightarrow> (u64 \<Rightarrow> 'g) \<times> ('g \<Rightarrow> u64 \<times> 'g) \<Rightarrow> pipeline_runs \<Rightarrow> nat \<Rightarrow> nat \<Rightarrow> double \<Rightarrow> bool" where
  "sustained_at rnd ldbl twister runs n step candidate =
     (case candidate_runs twister runs n step candidate of Inr results \<Rightarrow> sustainable rnd ldbl candidate results | Inl _ \<Rightarrow> False)"

fun search_log ::
  "(rat \<Rightarrow> rat) \<Rightarrow> (nat \<Rightarrow> double \<Rightarrow> bool) \<Rightarrow> nat list \<Rightarrow> double \<Rightarrow> double \<Rightarrow> (double \<times> bool) list" where
  "search_log rnd holds [] low high = []"
| "search_log rnd holds (step # steps) low high =
     (if holds step (halfway rnd low high)
      then (halfway rnd low high, True) # search_log rnd holds steps (halfway rnd low high) high
      else (halfway rnd low high, False) # search_log rnd holds steps low (halfway rnd low high))"

definition last_held :: "double \<Rightarrow> (double \<times> bool) list \<Rightarrow> double" where
  "last_held low trials = last (low # map fst (filter snd trials))"

definition ceiling_rate ::
  "(rat \<Rightarrow> rat) \<Rightarrow> (rat \<Rightarrow> rat) \<Rightarrow> (u64 \<Rightarrow> 'g) \<times> ('g \<Rightarrow> u64 \<times> 'g) \<Rightarrow> pipeline_runs \<Rightarrow> nat \<Rightarrow> double" where
  "ceiling_rate rnd ldbl twister runs n =
     scaled rnd (median_double rnd ldbl (map pn_events_per_second (projr (unthrottled_runs twister runs n)))) (rnd (110 / 100))"

definition calibration_log ::
  "(rat \<Rightarrow> rat) \<Rightarrow> (rat \<Rightarrow> rat) \<Rightarrow> (u64 \<Rightarrow> 'g) \<times> ('g \<Rightarrow> u64 \<times> 'g) \<Rightarrow> pipeline_runs \<Rightarrow> nat \<Rightarrow> (double \<times> bool) list" where
  "calibration_log rnd ldbl twister runs n =
     search_log rnd (sustained_at rnd ldbl twister runs n) [0..<search_steps] (Finite 0) (ceiling_rate rnd ldbl twister runs n)"

lemma search_rate_logged:
  assumes "scheduled rnd runs" and "rounding rnd" and "plausible (2 ^ 51) low" and "plausible (2 ^ 51) high"
  shows "\<exists>rate. search_rate rnd ldbl twister runs n steps low high = Inr rate \<and> plausible (2 ^ 51) rate
    \<and> rate = last_held low (search_log rnd (sustained_at rnd ldbl twister runs n) steps low high)"
  using assms(3,4)
proof (induction steps arbitrary: low high)
  case Nil
  then show ?case by (simp add: last_held_def)
next
  case (Cons step steps)
  define candidate where "candidate = halfway rnd low high"
  have c: "plausible (2 ^ 51) candidate" unfolding candidate_def by (rule halfway_within [OF assms(2)]) (use Cons.prems in simp_all)
  have "\<exists>rs. candidate_runs twister runs n step candidate = Inr rs \<and> length rs = length [0..<calibration_repetitions]
      \<and> (\<forall>p \<in> set rs. plausible (2 ^ 50) (pn_events_per_second p))"
    unfolding candidate_runs_def make_workload_Inr [OF calibration_count_small(2)] and_then_simps
    by (rule all_runs_return) (rule scheduled_run(1) [OF assms(1) calibration_count_small])
  then obtain rs where rs: "candidate_runs twister runs n step candidate = Inr rs" by blast
  have held: "sustained_at rnd ldbl twister runs n step candidate \<longleftrightarrow> sustainable rnd ldbl candidate rs"
    by (simp add: sustained_at_def rs)
  show ?case
  proof (cases "sustainable rnd ldbl candidate rs")
    case True
    then show ?thesis using Cons.IH [OF c Cons.prems(2)] rs held by (simp add: last_held_def flip: candidate_def)
  next
    case False
    then show ?thesis using Cons.IH [OF Cons.prems(1) c] rs held by (simp add: last_held_def flip: candidate_def)
  qed
qed

lemma calibration_logged:
  assumes "scheduled rnd runs" and "rounding rnd" and "rounding ldbl"
  shows "\<exists>rate. calibrate_pipeline rnd ldbl twister runs n = Inr rate \<and> plausible (2 ^ 51) rate
    \<and> rate = last_held (Finite 0) (calibration_log rnd ldbl twister runs n)"
proof -
  have "(20000 :: nat) < max_count" by (simp add: max_count_def)
  then obtain w where w: "make_workload twister 20000 (base_seed - 2) = Inr (workload twister 20000 (base_seed - 2))"
    "runs 0 (workload twister 20000 (base_seed - 2)) (Finite 0) = Inr w"
    using scheduled_run(1) [OF assms(1), of 20000] by fastforce
  have "\<exists>us. unthrottled_runs twister runs n = Inr us \<and> length us = length [0..<calibration_repetitions]
      \<and> (\<forall>p \<in> set us. plausible (2 ^ 50) (pn_events_per_second p))"
    unfolding unthrottled_runs_def make_workload_Inr [OF calibration_count_small(2)] and_then_simps
    by (rule all_runs_return) (rule scheduled_run(1) [OF assms(1) calibration_count_small])
  then obtain us where us: "unthrottled_runs twister runs n = Inr us" "length us = length [0..<calibration_repetitions]"
    "\<forall>p \<in> set us. plausible (2 ^ 50) (pn_events_per_second p)" by blast
  have "map pn_events_per_second us \<noteq> []" using us(2) by (auto simp: calibration_repetitions_def)
  then have "plausible (2 ^ 50) (median_double rnd ldbl (map pn_events_per_second us))"
    by (intro median_within assms) (use us(3) in simp_all)
  moreover have "0 \<le> rnd (110 / 100) \<and> rnd (110 / 100) \<le> 2 ^ 1" by (rule rounding_within [OF assms(2)]) simp_all
  ultimately have high: "plausible (2 ^ 51) (ceiling_rate rnd ldbl twister runs n)"
    using scaled_within [OF assms(2), of 1 50] by (simp add: ceiling_rate_def us(1))
  have "plausible (2 ^ 51) (Finite 0)" by (simp add: plausible_def)
  from search_rate_logged [OF assms(1,2) this high] show ?thesis
    unfolding calibrate_pipeline_def w us(1) and_then_simps calibration_log_def ceiling_rate_def us(1) sum.sel .
qed

lemma load_section_checksum:
  assumes "scheduled rnd runs" and "rounding rnd" and "rounding ldbl" and "0 < n" and "n < max_count" and "plausible (2 ^ 51) capacity"
    and "level < length loads"
  shows "\<exists>sec. load_section rnd ldbl twister runs n capacity level = Inr sec
    \<and> lr_final_checksum sec = folded (map (hot_checksum twister n) [0..<measured_runs])"
proof -
  let ?target = "scaled rnd capacity (rnd (loads ! level))"
  let ?f = "\<lambda>run. runs (4 + search_steps * calibration_repetitions + level * measured_runs + run) (workload twister n (run_seed run)) ?target"
    and ?P = "\<lambda>r x. pn_checksum x = hot_checksum twister n r \<and> plausible (2 ^ 50) (pn_events_per_second x)"
  have one: "\<exists>x. ?f r = Inr x \<and> ?P r x" for r using scheduled_run(2) [OF assms(1,4,5)] by blast
  obtain xs where xs: "all_runs ?f [0..<measured_runs] = Inr xs" "list_all2 ?P [0..<measured_runs] xs"
    using all_runs_Inr [of "[0..<measured_runs]" ?f ?P] one by blast
  have "xs \<noteq> []" using list_all2_lengthD [OF xs(2)] by (auto simp: measured_runs_def)
  moreover have "plausible (2 ^ 50) (pn_events_per_second x)" if "x \<in> set xs" for x
    using xs(2) that by (auto simp: list_all2_conv_all_nth in_set_conv_nth)
  ultimately obtain m where m: "cast_u64 (median_double rnd ldbl (map pn_events_per_second xs)) = Inr m"
    using median_cast [OF assms(2,3), of "map pn_events_per_second xs"] by auto
  have "loads ! level \<in> set loads" by (rule nth_mem [OF assms(7)])
  then have "0 \<le> loads ! level" "loads ! level \<le> 2 ^ 1" by (auto simp: loads_def)
  then have "0 \<le> rnd (loads ! level) \<and> rnd (loads ! level) \<le> 2 ^ 1" by (intro rounding_within [OF assms(2)]) simp_all
  then have "plausible (2 ^ (1 + 51)) ?target" by (intro scaled_within [OF assms(2) _ assms(6)]) simp_all
  then obtain t where t: "cast_u64 ?target = Inr t" using plausible_cast plausible_mono by fastforce
  have "map pn_checksum xs = map (hot_checksum twister n) [0..<measured_runs]"
    by (rule map_by_list_all2) (rule list_all2_mono [OF xs(2)], rule conjunct1)
  then show ?thesis by (simp add: load_section_def Let_def make_workload_Inr [OF assms(5)] xs(1) m t)
qed

lemma load_levels_checksums:
  assumes "scheduled rnd runs" and "rounding rnd" and "rounding ldbl" and "0 < n" and "n < max_count"
  shows "\<exists>rate secs. benchmark_load_levels rnd ldbl twister runs n = Inr (rate, secs)
    \<and> cast_u64 (last_held (Finite 0) (calibration_log rnd ldbl twister runs n)) = Inr rate
    \<and> map lr_final_checksum secs = replicate 4 (folded (map (hot_checksum twister n) [0..<measured_runs]))"
proof -
  let ?capacity = "last_held (Finite 0) (calibration_log rnd ldbl twister runs n)"
  have capacity: "calibrate_pipeline rnd ldbl twister runs n = Inr ?capacity" "plausible (2 ^ 51) ?capacity"
    using calibration_logged [OF assms(1,2,3), of twister n] by (elim exE conjE, simp)+
  obtain rate where rate: "cast_u64 ?capacity = Inr rate" using plausible_cast plausible_mono [OF capacity(2), of "2 ^ 53"] by auto
  let ?c = "folded (map (hot_checksum twister n) [0..<measured_runs])"
  have one: "\<exists>sec. load_section rnd ldbl twister runs n ?capacity level = Inr sec \<and> lr_final_checksum sec = ?c"
    if "level \<in> set [0..<length loads]" for level
    using load_section_checksum [OF assms capacity(2), of level] that by simp
  obtain secs where secs: "all_runs (load_section rnd ldbl twister runs n ?capacity) [0..<length loads] = Inr secs"
    "list_all2 (\<lambda>_ sec. lr_final_checksum sec = ?c) [0..<length loads] secs"
    using all_runs_Inr [of "[0..<length loads]" "load_section rnd ldbl twister runs n ?capacity" "\<lambda>_ sec. lr_final_checksum sec = ?c", OF one] by blast
  have "map lr_final_checksum secs = map (\<lambda>_. ?c) [0..<length loads]" using map_by_list_all2 [OF secs(2)] .
  moreover have "map (\<lambda>_. ?c) [0..<length loads] = replicate 4 ?c" by (simp add: loads_def numeral_eq_Suc)
  ultimately show ?thesis using secs(1) by (simp add: benchmark_load_levels_def capacity(1) rate)
qed

lemma event_count_positive: "event_count args = Inr n \<Longrightarrow> 0 < n"
  by (auto simp: event_count_def parse_count_def unat_gt_0 split: list.splits prod.splits sum.splits if_splits)

section \<open>Properties\<close>

text \<open>
  C37. The threads of a pipeline run: whatever the scheduler and the clock do, a run that ends has applied
  every event of its workload in order and rejects none, its book has the checksum the single-threaded hot path
  gives for the same events, and the vectors of latencies have an entry for every event and for every 64th
  one pushed. Some run always ends: no reachable state is stuck.
\<close>

theorem pipeline_run_matches_hot_path:
  assumes "\<forall>e \<in> set events. workload_event e"
  shows "\<exists>bk h. run_hot_path rnd rd events = Inr h
    \<and> (\<forall>s. bench_reaches rnd rate events (bench_start (length events) bk) s \<longrightarrow>
        (\<exists>s'. bench_reaches rnd rate events s s' \<and> bp_main s' = Main_done)
        \<and> (bp_main s = Main_done \<longrightarrow> bp_book s = snd (process_events events bk) \<and> state_checksum (bp_book s) = hr_checksum h
            \<and> \<not> bp_rejected s \<and> length (bp_end_to_end s) = length events \<and> length (bp_enqueue_call s) = (length events + 63) div 64))
    \<and> (\<exists>b0. new_book (bench_orders * 2) = Inr b0 \<and> seed_book b0 = Inr bk)"
proof -
  obtain b0 bk where b: "new_book (bench_orders * 2) = Inr b0" "seed_book b0 = Inr bk"
    "set (fst (process_events events bk)) \<subseteq> {Applied}"
    "\<exists>h. run_hot_path rnd rd events = Inr h \<and> hr_checksum h = state_checksum (snd (process_events events bk))"
    using hot_path_books [OF assms] by blast
  then obtain h where h: "run_hot_path rnd rd events = Inr h" "hr_checksum h = state_checksum (snd (process_events events bk))" by blast
  show ?thesis
  proof (rule exI [of _ bk], rule exI [of _ h], intro conjI allI impI)
    fix s assume r: "bench_reaches rnd rate events (bench_start (length events) bk) s"
    note inv = bench_reaches_keeps [OF r bench_start_inv]
    show "\<exists>s'. bench_reaches rnd rate events s s' \<and> bp_main s' = Main_done" using bench_completes [OF inv] by blast
    assume "bp_main s = Main_done"
    note fin = bench_finished [OF inv this]
    show "bp_book s = snd (process_events events bk)" "length (bp_end_to_end s) = length events"
      "length (bp_enqueue_call s) = (length events + 63) div 64" by (rule fin)+
    show "state_checksum (bp_book s) = hr_checksum h" "\<not> bp_rejected s" using fin(1,2) h(2) b(3) by simp_all
  qed (use b h in blast)+
qed

text \<open>The rates of the measured runs of the first sections are finite, and at most \<open>2\<^sup>50\<close> per second.\<close>

definition printable :: "(rat \<Rightarrow> rat) \<Rightarrow> nat \<Rightarrow> instruments \<Rightarrow> bool" where
  "printable rnd n ins \<longleftrightarrow> (\<forall>r < measured_runs. plausible (2 ^ 50) (hot_rate rnd n (snd (in_hot ins) r))
     \<and> plausible (2 ^ 50) (matching_rate rnd n (snd (in_matching ins) r)) \<and> plausible (2 ^ 50) (itch_rate rnd n (snd (in_itch ins) r)))"

text \<open>
  C38. The benchmark program, for rates that can be printed (no clock stands still over a measured run) and any runs of
  \<^verbatim>\<open>run_pipeline\<close> that end: with a count below \<open>2\<^sup>57\<close> no
  section throws and the program exits with 0; the ITCH section decodes every message; the final checksum of
  each of the four load levels is that of the hot path; and the rate the calibration prints is that of the last of the
  eight candidates it tried whose runs were sustained, or 0. A greater count exits with 1: the vector of the workload is too long.
\<close>

theorem benchmark_main_completes:
  assumes "rounding rnd" and "rounding ldbl" and "scheduled rnd (in_pipeline ins)" and "event_count args = Inr n" and "printable rnd n ins"
  shows "if n < 2 ^ 57 then
      \<exists>rep. benchmark_main rnd ldbl twister ins args = Some (Inr rep) \<and> benchmark_exit (benchmark_main rnd ldbl twister ins args) = Some 0
        \<and> ir_decoded_per_run (br_itch rep) = n
        \<and> map lr_final_checksum (br_loads rep) = replicate 4 (hp_final_checksum (br_hot rep))
        \<and> length (calibration_log rnd ldbl twister (in_pipeline ins) n) = 8
        \<and> cast_u64 (last (Finite 0 # map fst (filter snd (calibration_log rnd ldbl twister (in_pipeline ins) n)))) = Inr (br_capacity rep)
    else benchmark_main rnd ldbl twister ins args = Some (Inl Length_error) \<and> benchmark_exit (benchmark_main rnd ldbl twister ins args) = Some 1"
proof (cases "n < max_count")
  case True
  note pos = event_count_positive [OF assms(4)]
  have hots: "\<forall>r < measured_runs. plausible (2 ^ 50) (hot_rate rnd n (snd (in_hot ins) r))"
    and matches: "\<forall>r < measured_runs. plausible (2 ^ 50) (matching_rate rnd n (snd (in_matching ins) r))"
    and decodes: "\<forall>r < measured_runs. plausible (2 ^ 50) (itch_rate rnd n (snd (in_itch ins) r))"
    using assms(5) unfolding printable_def by blast+
  obtain hot where hot: "benchmark_hot_path rnd ldbl twister (fst (in_hot ins)) (snd (in_hot ins)) n = Inr hot"
    "hp_final_checksum hot = folded (map (hot_checksum twister n) [0..<measured_runs])"
    using hot_report_checksum [OF assms(1,2) True hots] by blast
  obtain mat where mat: "benchmark_matching rnd ldbl (fst (in_matching ins)) (snd (in_matching ins)) n = Some (Inr mat)"
    using matching_benchmark_one_fill_each [OF assms(1,2) True matches] by blast
  obtain par where par: "benchmark_parsing rnd ldbl twister (fst (in_parsing ins)) (snd (in_parsing ins)) n = Inr par"
    using parsing_benchmark_completes [OF True] by blast
  obtain itch where itch: "benchmark_itch_decode rnd ldbl twister (fst (in_itch ins)) (snd (in_itch ins)) n = Some (Inr itch)"
    "ir_decoded_per_run itch = n"
    using itch_benchmark_completes [OF assms(1,2) True decodes] by blast
  obtain rate secs where load: "benchmark_load_levels rnd ldbl twister (in_pipeline ins) n = Inr (rate, secs)"
    "cast_u64 (last_held (Finite 0) (calibration_log rnd ldbl twister (in_pipeline ins) n)) = Inr rate"
    "map lr_final_checksum secs = replicate 4 (hp_final_checksum hot)"
    using load_levels_checksums [OF assms(3,1,2) pos True] unfolding hot(2) by blast
  have tried: "length (search_log rnd holds steps low high) = length steps" for holds steps low high
    by (induction steps arbitrary: low high) simp_all
  have main: "benchmark_main rnd ldbl twister ins args = Some (Inr \<lparr>br_hot = hot, br_matching = mat, br_parsing = par, br_itch = itch,
      br_capacity = rate, br_loads = secs\<rparr>)"
    by (simp add: benchmark_main_def and_next_def assms(4) hot(1) mat par itch(1) load(1))
  show ?thesis using True load(2,3) itch(2)
    by (simp add: main benchmark_exit_def calibration_log_def tried search_steps_def last_held_def max_count_def)
next
  case False
  obtain w where w: "run_hot_path rnd (fst (in_hot ins)) (workload twister (min n 20000) (base_seed - 1)) = Inr w"
    using hot_path_runs [OF workload_all] by blast
  have "min n 20000 < max_count" "[0..<measured_runs] = 0 # [1..<measured_runs]"
    by (simp_all add: max_count_def measured_runs_def upt_conv_Cons)
  then have "benchmark_hot_path rnd ldbl twister (fst (in_hot ins)) (snd (in_hot ins)) n = Inl Length_error"
    using False w by (simp add: benchmark_hot_path_def make_workload_Inl)
  then show ?thesis using False by (simp add: benchmark_main_def benchmark_exit_def and_next_def assms(4) max_count_def)
qed

lemma scheduled_exists: "\<exists>runs. scheduled id runs"
proof -
  have one: "\<exists>res. events \<noteq> [] \<and> length events < max_count \<longrightarrow> run_pipeline id events rate res
      \<and> (\<forall>p. res = Inr p \<longrightarrow> plausible (2 ^ 50) (pn_events_per_second p))" for events rate
  proof (cases "new_book (bench_orders * 2)")
    case (Inr bk)
    note new = this
    show ?thesis
    proof (cases "seed_book bk")
      case (Inr bk1)
      obtain s where s: "bench_reaches id rate events (bench_start (length events) bk1) s" "bp_main s = Main_done" "bp_end s - bp_begin s = - 1"
        using bench_completes [OF bench_start_inv] by (fastforce simp: bench_start_def)
      have "(rat_of_nat (length events) * 10 ^ 9) / rat_of_nat (2 ^ 64 - 1) \<le> 2 ^ 50" if "length events < max_count"
      proof -
        have "rat_of_nat (length events) \<le> rat_of_nat (2 ^ 57)" using that unfolding max_count_def of_nat_le_iff by linarith
        then show ?thesis by simp
      qed
      moreover have "unat (- 1 :: u64) = 2 ^ 64 - 1" by (simp add: unsigned_minus_1_eq_mask mask_eq_exp_minus_1)
      ultimately have "length events < max_count \<Longrightarrow> pipeline_result id (length events) s = Inr p \<Longrightarrow> plausible (2 ^ 50) (pn_events_per_second p)" for p
        by (auto simp: pipeline_result_def s(3) divided_def to_double_def split: if_splits)
      then show ?thesis using run_pipeline.completed [OF new Inr s(1,2)] by blast
    qed (use new run_pipeline.not_seeded in blast)
  qed (use run_pipeline.not_constructed in blast)
  have "\<exists>f. \<forall>k events rate. events \<noteq> [] \<and> length events < max_count \<longrightarrow> run_pipeline id events rate (f k events rate)
      \<and> (\<forall>p. f k events rate = Inr p \<longrightarrow> plausible (2 ^ 50) (pn_events_per_second p))"
    using one by (intro choice allI) blast
  then show ?thesis by (simp add: scheduled_def)
qed

lemma benchmark_main_completes_witness:
  "\<exists>ins rep. benchmark_main id id (id, \<lambda>g. (g, g + 1)) ins [''1000''] = Some (Inr rep) \<and> ir_decoded_per_run (br_itch rep) = 1000
    \<and> map lr_final_checksum (br_loads rep) = replicate 4 (hp_final_checksum (br_hot rep))"
proof -
  obtain runs where runs: "scheduled id runs" using scheduled_exists by blast
  define idle where "idle = (\<lparr>rd_clock = word_of_nat, rd_allocations = 0\<rparr>, \<lambda>_ :: nat. \<lparr>rd_clock = word_of_nat, rd_allocations = 0\<rparr>)"
  define ins where "ins = \<lparr>in_hot = idle, in_matching = idle, in_parsing = idle, in_itch = idle, in_pipeline = runs\<rparr>"
  have sched: "scheduled id (in_pipeline ins)" using runs by (simp add: ins_def)
  have n: "event_count [''1000''] = Inr 1000"
    by (simp add: event_count_def parse_count_def from_chars_u64_def from_chars_below_def digits_value_def digit_value_def is_digit_def)
  have r: "rounding id" by (simp add: rounding_def)
  have p: "printable id 1000 ins"
    by (simp add: printable_def ins_def idle_def per_second_def seconds_between_def to_double_def divided_def)
  have "(1000 :: nat) < 2 ^ 57" by simp
  with benchmark_main_completes [OF r r sched n p, of "(id, \<lambda>g. (g, g + 1))"] show ?thesis
    by (simp only: if_True) (elim exE conjE, intro exI conjI)
qed

lemma pipeline_run_matches_hot_path_witness:
  "\<exists>bk s b0. new_book (bench_orders * 2) = Inr b0 \<and> seed_book b0 = Inr bk
    \<and> bench_reaches id (Finite 0) (workload (id, \<lambda>g. (g, g + 1)) 1000 7) (bench_start 1000 bk) s \<and> bp_main s = Main_done
    \<and> \<not> bp_rejected s \<and> length (bp_enqueue_call s) = 16"
proof -
  let ?es = "workload (id, \<lambda>g. (g, g + 1)) 1000 7 :: market_data_event list"
  have n: "length ?es = 1000" by (rule workload_length)
  note run = pipeline_run_matches_hot_path [OF workload_all, of id undefined "(id, \<lambda>g. (g, g + 1))" 1000 7 "Finite 0", unfolded n]
  then obtain bk b0 where b: "new_book (bench_orders * 2) = Inr b0" "seed_book b0 = Inr bk"
    and all: "\<forall>s. bench_reaches id (Finite 0) ?es (bench_start 1000 bk) s \<longrightarrow>
        (\<exists>s'. bench_reaches id (Finite 0) ?es s s' \<and> bp_main s' = Main_done)
        \<and> (bp_main s = Main_done \<longrightarrow> \<not> bp_rejected s \<and> length (bp_enqueue_call s) = (1000 + 63) div 64)"
    by (elim exE conjE) (rule that, assumption, assumption, simp)
  have "bench_reaches id (Finite 0) ?es (bench_start 1000 bk) (bench_start 1000 bk)" by (rule rtranclp.rtrancl_refl)
  then obtain s where s: "bench_reaches id (Finite 0) ?es (bench_start 1000 bk) s" "bp_main s = Main_done"
    using all by blast
  show ?thesis
    by (rule exI [of _ bk], rule exI [of _ s], rule exI [of _ b0]) (use b s all [rule_format, OF s(1)] in simp)
qed

end
