(* ===== verification/SocketFeed.thy ===== *)
theory SocketFeed
  imports MoldProps NetworkSources
begin

text \<open>
  The MoldUDP64 connector over the UDP socket. Its call may not return: a source whose calls end the stream never blocks
  it, a source without an end leaves it blocked or failed, and it never fails by being blocked. Also the link
  from the calls of the source in \<^verbatim>\<open>DatagramSource\<close> to the kernel of \<^verbatim>\<open>NetworkSources\<close>.
\<close>

section \<open>The source over the kernel\<close>

text \<open>What the kernel answers to the calls of one receive into a buffer of \<^verbatim>\<open>n\<close> bytes.\<close>

definition kernel_answers :: "'k kernel \<Rightarrow> nat \<Rightarrow> 'k \<Rightarrow> socket_call" where
  "kernel_answers sys n k =
     (case sys_get_sqe sys k of (got, k1) \<Rightarrow>
      case sys_submit sys (sys_prep_recv sys n k1) of (submitted, k2) \<Rightarrow>
      case sys_wait_cqe sys k2 of ((waited, result, bytes), k3) \<Rightarrow>
        \<lparr>sc_sqe = got, sc_submitted = submitted, sc_waited = waited, sc_result = result, sc_bytes = bytes\<rparr>)"

lemma io_uring_next_on_socket:
  assumes "\<not> iu_failed src" and "io_uring_next sys (src, k) = (d, src1, k1)"
  shows "next_on_socket \<lparr>ss_source = src, ss_calls = kernel_answers sys (length (iu_buffer src)) k # calls, ss_blocked = b\<rparr>
    = (d, \<lparr>ss_source = src1, ss_calls = calls, ss_blocked = b\<rparr>)"
  using assms
  by (auto simp: io_uring_next_def kernel_answers_def next_on_socket_def fill_buffer_def Let_def split: prod.splits if_splits)

section \<open>Whether a call of the connector returns\<close>

lemma skip_seen_failed: "md_failed (snd (skip_seen k c)) \<longleftrightarrow> md_failed c \<or> \<not> fst (skip_seen k c)"
proof (induction k c rule: skip_seen.induct)
  case (1 k c)
  show ?case by (subst (1 2) skip_seen.simps) (use 1 in \<open>auto split: option.split prod.split\<close>)
qed

lemma opened_failed [frame_simps]:
  "md_failed (open_packet p c) = md_failed c" "md_failed (sight_packet sq c) = md_failed c" "md_failed (note_gap sq c) = md_failed c"
  by (simp_all add: open_packet_def sight_packet_def note_gap_def Let_def)

text \<open>
  The three statements have one shape: \<^verbatim>\<open>P\<close> holds of the connector before every read of a datagram, \<^verbatim>\<open>Q\<close> when there is
  no other.
\<close>

definition stays :: "(mold \<Rightarrow> bool) \<Rightarrow> (mold \<Rightarrow> bool) \<Rightarrow> bool" where
  "stays P Q \<longleftrightarrow>
     (\<forall>c d src. P c \<longrightarrow> next_datagram (md_source c) = (Some d, src) \<longrightarrow> P (c\<lparr>md_source := src\<rparr>))
   \<and> (\<forall>c src. P c \<longrightarrow> next_datagram (md_source c) = (None, src) \<longrightarrow>
        Q (if source_failed src then c\<lparr>md_source := src, md_failed := True\<rparr> else c\<lparr>md_source := src\<rparr>))
   \<and> (\<forall>c. P c \<longrightarrow> Q (c\<lparr>md_failed := True\<rparr>))
   \<and> (\<forall>c c1. md_source c1 = md_source c \<longrightarrow> md_failed c1 = md_failed c \<longrightarrow> (P c1 \<longleftrightarrow> P c) \<and> (Q c1 \<longleftrightarrow> Q c))"

lemma staysD:
  assumes "stays P Q"
  shows "P c \<Longrightarrow> next_datagram (md_source c) = (Some d, src) \<Longrightarrow> P (c\<lparr>md_source := src\<rparr>)"
    and "P c \<Longrightarrow> next_datagram (md_source c) = (None, src) \<Longrightarrow>
        Q (if source_failed src then c\<lparr>md_source := src, md_failed := True\<rparr> else c\<lparr>md_source := src\<rparr>)"
    and "P c \<Longrightarrow> Q (c\<lparr>md_failed := True\<rparr>)"
    and "md_source c1 = md_source c \<Longrightarrow> md_failed c1 = md_failed c \<Longrightarrow> P c1 \<longleftrightarrow> P c"
    and "md_source c1 = md_source c \<Longrightarrow> md_failed c1 = md_failed c \<Longrightarrow> Q c1 \<longleftrightarrow> Q c"
  using assms unfolding stays_def by blast+

lemma load_stays:
  assumes "stays P Q" and "P c"
  shows "if fst (load_next_packet c) then P (snd (load_next_packet c)) else Q (snd (load_next_packet c))"
  using assms(2)
proof (induction c rule: load_next_packet.induct)
  case (1 c)
  note D = staysD [OF assms(1)]
  obtain d src where nd: "next_datagram (md_source c) = (d, src)" by (cases "next_datagram (md_source c)")
  show ?case
  proof (cases d)
    case None
    then show ?thesis using D(2) [OF 1(4)] nd by (subst (1 2 3) load_next_packet.simps) (simp add: Let_def)
  next
    case (Some dg)
    let ?c1 = "c\<lparr>md_source := src\<rparr>"
    have P1: "P ?c1" using D(1) [OF 1(4)] nd Some by simp
    show ?thesis
    proof (cases "parse_packet dg")
      case None
      then show ?thesis using D(3) [OF P1] nd Some by (subst (1 2 3) load_next_packet.simps) (simp add: Let_def)
    next
      case p: (Some p)
      let ?c2 = "open_packet p ?c1"
      let ?c3 = "sight_packet (mp_sequence p) ?c2"
      let ?r = "skip_seen (md_expected ?c3 - mp_sequence p) ?c3"
      note run = load_next_packet.simps [of c, unfolded nd prod.case Some option.case Let_def p]
      have same: "P ?c2" "P (?c2\<lparr>md_end_of_session := True\<rparr>)" "P ?c3" "P ((note_gap (mp_sequence p) ?c3)\<lparr>md_have_packet := True\<rparr>)"
        "P (?c3\<lparr>md_have_packet := True\<rparr>)"
        by (subst D(4) [of _ ?c1]; simp add: frame_simps P1)+
      have skipped: "P (snd ?r)" "P ((snd ?r)\<lparr>md_have_packet := True\<rparr>)" if "fst ?r"
        by (subst D(4) [of _ ?c1]; simp add: frame_simps P1 skip_seen_source skip_seen_failed that)+
      have broken: "Q (snd ?r)" if "\<not> fst ?r"
        using D(3) [OF P1] that by (subst D(5) [of _ "?c1\<lparr>md_failed := True\<rparr>"]) (simp_all add: frame_simps skip_seen_source skip_seen_failed)
      note IH = 1(1-3) [OF nd [symmetric] Some refl p refl]
      show ?thesis unfolding run
        using IH(1) [OF _ same(2)] IH(2) [OF _ _ same(1)] IH(3) [OF _ _ refl refl _ _ refl refl _ _ skipped(1)] same skipped broken
        by (simp split del: if_split) (auto split: if_splits)
    qed
  qed
qed

lemma next_stays:
  assumes "stays P Q" and "P c"
  shows "case fst (mold_next c) of None \<Rightarrow> Q (snd (mold_next c)) | Some _ \<Rightarrow> P (snd (mold_next c))"
  using assms(2)
proof (induction c rule: mold_next.induct)
  case (1 c)
  note D = staysD [OF assms(1)]
  have same: "P c1" if "md_source c1 = md_source c" "md_failed c1 = md_failed c" for c1 using D(4) [OF that] 1(5) by simp
  have broken: "Q c1" if "md_source c1 = md_source c" "md_failed c1" for c1
    using D(3) [OF 1(5)] that by (subst D(5) [of _ "c\<lparr>md_failed := True\<rparr>"]) simp_all
  show ?case
  proof (cases "md_recovering c \<and> md_recover_next c < md_recover_end c")
    case True
    note IH = 1(1,2) [OF True refl refl]
    show ?thesis
      using IH same broken True
      by (subst (1 2 3) mold_next.simps) (auto simp: Let_def deliver_def split: option.split decode_result.split)
  next
    case False
    let ?c1 = "c\<lparr>md_recovering := False\<rparr>"
    note run = mold_next.simps [of c, unfolded if_not_P [OF False] Let_def]
    show ?thesis
    proof (cases "\<not> md_have_packet ?c1 \<or> md_local_index ?c1 \<ge> mp_count (md_packet ?c1)")
      case load: True
      let ?r = "load_next_packet (?c1\<lparr>md_have_packet := False\<rparr>)"
      have l: "if fst ?r then P (snd ?r) else Q (snd ?r)" by (rule load_stays [OF assms(1)]) (rule same; simp)
      have "mold_next c = (if \<not> fst ?r then (None, snd ?r) else mold_next (snd ?r))"
        using load by (simp add: run)
      then have e: "mold_next c = (None, snd ?r) \<and> \<not> fst ?r \<or> mold_next c = mold_next (snd ?r) \<and> fst ?r" by simp
      then show ?thesis
      proof (elim disjE conjE)
        assume "mold_next c = mold_next (snd ?r)" "fst ?r"
        then show ?thesis using 1(3) [OF False refl load refl] l by (simp only: not_not if_True)
      qed (use l in simp)
    next
      case cur: False
      note IH = 1(4) [OF False refl cur]
      show ?thesis
        using IH same broken cur
        by (auto simp: run Let_def deliver_def split: option.split decode_result.split)
    qed
  qed
qed

definition quiet :: "mold \<Rightarrow> bool" where
  "quiet c \<longleftrightarrow> \<not> md_failed c \<and> \<not> source_blocked (md_source c)"

lemma source_not_blocked: "source_ends src \<Longrightarrow> \<not> source_blocked src"
  by (auto simp: source_ends_def source_blocked_def split: datagram_source.splits)

lemma stays_ends: "stays (\<lambda>c. source_ends (md_source c)) (\<lambda>c. \<not> source_blocked (md_source c))"
  unfolding stays_def using next_datagram_ends source_not_blocked by auto

lemma stays_waits: "stays (\<lambda>c. source_waits (md_source c)) (\<lambda>c. source_blocked (md_source c) \<or> md_failed c)"
  unfolding stays_def using next_datagram_waits by auto

lemma next_datagram_quiet:
  assumes "next_datagram src = (d, src1)" and "\<not> source_blocked src"
  shows "d \<noteq> None \<Longrightarrow> \<not> source_blocked src1" and "\<not> (source_failed src1 \<and> source_blocked src1)"
  using assms
  by (cases src; auto simp: source_blocked_def source_failed_def next_datagram_def next_on_socket_def fill_buffer_def Let_def
      split: prod.splits if_splits list.splits)+

lemma stays_quiet: "stays quiet (\<lambda>c. \<not> (md_failed c \<and> source_blocked (md_source c)))"
  unfolding stays_def quiet_def using next_datagram_quiet by auto

end
