(* ===== verification/BenchUdp.thy ===== *)
theory BenchUdp
  imports BenchLoads SocketFeed
begin

text \<open>
  \<^verbatim>\<open>IoUringPipelineBench.cpp\<close>: a sender of MoldUDP64 packets, the main thread that receives, decodes, stamps and
  enqueues, and a consumer thread that applies. An item with the \<^verbatim>\<open>stop\<close> flag ends the consumer. The source is the
  socket of \<^verbatim>\<open>IoUringDatagramSource\<close>, and the answers of the kernel to its calls are a parameter: datagrams may be lost,
  repeated, reordered or foreign, calls may fail, and when nothing more arrives the producer waits for ever. Also
  \<^verbatim>\<open>Time.hpp\<close>, whose counter the program reads.
\<close>

section \<open>The cycle counter\<close>

text \<open>
  The readings of the wall clock in nanoseconds, signed as \<^verbatim>\<open>steady_clock\<close> counts them, and of the counter before and behind
  the wait. \<^verbatim>\<open>None\<close> is a clock that never passes the window.
\<close>

partial_function (option) busy_wait :: "(nat \<Rightarrow> int) \<Rightarrow> nat \<Rightarrow> nat option" where
  "busy_wait wall k = (if wall k - wall 0 < 20000000 then busy_wait wall (k + 1) else Some k)"

definition calibrate_ns_per_cycle :: "(rat \<Rightarrow> rat) \<Rightarrow> (nat \<Rightarrow> int) \<Rightarrow> u64 \<Rightarrow> u64 \<Rightarrow> rat option" where
  "calibrate_ns_per_cycle rnd wall cycle_start cycle_end =
     map_option (\<lambda>k.
       let wall_ns = wall (k + 1) - wall 0; cycles = cycle_end - cycle_start
       in if cycles = 0 \<or> wall_ns \<le> 0 then 1 else rnd (rnd (rat_of_int wall_ns) / to_double rnd cycles)) (busy_wait wall 1)"

lemma busy_wait_ends:
  assumes "wall m - wall 0 \<ge> 20000000" and "k \<le> m"
  shows "\<exists>n. busy_wait wall k = Some n"
  using assms(2)
proof (induction k rule: inc_induct)
  case base
  then show ?case using assms(1) by (subst busy_wait.simps) simp
next
  case (step k)
  then show ?case by (subst busy_wait.simps) auto
qed

text \<open>A clock that passes the window and a rounding that keeps signs give a positive factor, whatever the counter shows.\<close>

lemma calibrated_positive:
  assumes "wall m - wall 0 \<ge> 20000000" and "1 \<le> m" and "\<forall>x > 0. rnd x > 0"
  shows "\<exists>f > 0. calibrate_ns_per_cycle rnd wall cycle_start cycle_end = Some f"
proof -
  obtain k where k: "busy_wait wall 1 = Some k" using busy_wait_ends [OF assms(1,2)] by blast
  let ?w = "wall (k + 1) - wall 0" and ?c = "cycle_end - cycle_start"
  have "0 < rnd (rnd (rat_of_int ?w) / rnd (rat_of_nat (unat ?c)))" if "?c \<noteq> 0" "\<not> ?w \<le> 0"
  proof -
    have "0 < rat_of_nat (unat ?c)" "0 < rat_of_int ?w" using that by (simp_all add: unat_gt_0 del: of_nat_unat of_int_diff)
    then show ?thesis using assms(3) by simp
  qed
  then show ?thesis unfolding calibrate_ns_per_cycle_def k option.map Let_def to_double_def
    by (intro exI conjI, rule_tac [2] refl) (simp split: if_split)
qed

section \<open>The sender\<close>

definition k_messages :: nat where
  "k_messages = 100000"

definition put_be :: "u8 list \<Rightarrow> u64 \<Rightarrow> nat \<Rightarrow> u8 list" where
  "put_be out v bytes = out @ map (\<lambda>i. ucast (drop_bit (8 * i) v AND 0xFF)) (rev [0..<bytes])"

definition mold_add_packet :: "u64 \<Rightarrow> u64 \<Rightarrow> u8 list" where
  "mold_add_packet sq oid =
     (let add = put_be (put_be (put_be (put_be [65] 0 2) 0 2) 0 6) oid 8 @ [66];
          add1 = put_be (put_be add (1 + oid mod 100) 4 @ replicate 8 32) (9900 + oid mod 200) 4;
          packet = put_be (put_be (replicate 10 0) sq 8) 1 2
      in put_be packet (word_of_nat (length add1)) 2 @ add1)"

text \<open>The datagrams in the order they are sent; the empty one ends the stream.\<close>

definition sender_datagrams :: "u8 list list" where
  "sender_datagrams = map (\<lambda>i. mold_add_packet (word_of_nat i + 1) (word_of_nat i mod 20000 + 1)) [0..<k_messages] @ [[]]"

text \<open>Its pacing: message \<^verbatim>\<open>i\<close> is not sent before the counter reaches this value.\<close>

definition message_due :: "(rat \<Rightarrow> rat) \<Rightarrow> rat \<Rightarrow> u64 \<Rightarrow> nat \<Rightarrow> u64" where
  "message_due rnd ns_per_cycle start i = start + word_of_nat i * to_quantity (rnd (rnd (10 ^ 9 / 120000) / ns_per_cycle))"

section \<open>The two threads\<close>

definition delta :: "u64 \<Rightarrow> u64 \<Rightarrow> u64" where
  "delta end_cycles start = (if end_cycles \<ge> start then end_cycles - start else 0)"

record pipe_item =
  pi_event :: market_data_event
  pi_ingress_cycles :: u64
  pi_stop :: bool

definition stop_item :: pipe_item where
  "stop_item = \<lparr>pi_event = default_event, pi_ingress_cycles = 0, pi_stop = True\<rparr>"

datatype udp_producer = Receiving | Stamping market_data_event | Enqueuing pipe_item | Stream_sent

datatype udp_consumer = Polling_item | Taken pipe_item | Applying pipe_item u64 | Measured pipe_item u64 | Left

record udp_pipe =
  up_system :: "pipe_item spsc_system"
  up_connector :: mold
  up_book :: order_book
  up_producer :: udp_producer
  up_consumer :: udp_consumer
  up_residence :: "u64 list"
  up_processing :: "u64 list"
  up_end_to_end :: "u64 list"

definition udp_slots :: nat where
  "udp_slots = 2 ^ 15"

text \<open>The state once the socket is bound to \<^verbatim>\<open>port\<close>.\<close>

definition udp_start :: "16 word \<Rightarrow> socket_call list \<Rightarrow> order_book \<Rightarrow> udp_pipe" where
  "udp_start port calls bk =
     \<lparr>up_system = start_system udp_slots (stop_item\<lparr>pi_stop := False\<rparr>), up_connector = mold_connector (from_socket port calls) None,
      up_book = bk, up_producer = Receiving, up_consumer = Polling_item, up_residence = [], up_processing = [], up_end_to_end = []\<rparr>"

text \<open>
  The producer: receive, stamp, push until the push succeeds; at the end of the stream push the stop item. A call of
  \<^verbatim>\<open>next\<close> that waits for a datagram for ever leaves the thread where it is.
\<close>

definition udp_producer_step :: "u64 \<Rightarrow> udp_pipe \<Rightarrow> udp_pipe" where
  "udp_producer_step t s =
     (case up_producer s of
       Receiving \<Rightarrow>
         (case mold_next (up_connector s) of (r, c) \<Rightarrow>
            if source_blocked (md_source c) then s
            else case r of
              None \<Rightarrow> s\<lparr>up_connector := c, up_producer := Enqueuing stop_item\<rparr>
            | Some e \<Rightarrow> s\<lparr>up_connector := c, up_producer := Stamping e\<rparr>)
     | Stamping e \<Rightarrow> s\<lparr>up_producer := Enqueuing \<lparr>pi_event = e, pi_ingress_cycles = t, pi_stop = False\<rparr>\<rparr>
     | Enqueuing item \<Rightarrow>
         (let sys = up_system s
          in if sy_producer sys = PIdle then s\<lparr>up_system := sys\<lparr>sy_producer := PCalled item\<rparr>\<rparr>
             else case push_step (sy_producer sys) (sy_queue sys) of (l, p, q) \<Rightarrow>
               s\<lparr>up_system := sys\<lparr>sy_producer := p, sy_queue := q\<rparr>,
                 up_producer := (case l of
                     Pushed _ \<Rightarrow> if pi_stop item then Stream_sent else Receiving
                   | _ \<Rightarrow> Enqueuing item)\<rparr>)
     | Stream_sent \<Rightarrow> s)"

definition udp_consumer_step :: "u64 \<Rightarrow> udp_pipe \<Rightarrow> udp_pipe" where
  "udp_consumer_step t s =
     (case up_consumer s of
       Polling_item \<Rightarrow>
         (let sys = up_system s
          in if sy_consumer sys = CIdle then s\<lparr>up_system := sys\<lparr>sy_consumer := CCalled\<rparr>\<rparr>
             else case pop_step (sy_consumer sys) (sy_queue sys) of (l, c, q) \<Rightarrow>
               s\<lparr>up_system := sys\<lparr>sy_consumer := c, sy_queue := q\<rparr>,
                 up_consumer := (case l of Popped item \<Rightarrow> if pi_stop item then Left else Taken item | _ \<Rightarrow> Polling_item)\<rparr>)
     | Taken item \<Rightarrow> s\<lparr>up_consumer := Applying item t\<rparr>
     | Applying item popped \<Rightarrow>
         s\<lparr>up_book := snd (process_event (pi_event item) (up_book s)), up_consumer := Measured item popped\<rparr>
     | Measured item popped \<Rightarrow>
         s\<lparr>up_residence := up_residence s @ [delta popped (pi_ingress_cycles item)], up_processing := up_processing s @ [delta t popped],
           up_end_to_end := up_end_to_end s @ [delta t (pi_ingress_cycles item)], up_consumer := Polling_item\<rparr>
     | Left \<Rightarrow> s)"

inductive udp_step :: "udp_pipe \<Rightarrow> udp_pipe \<Rightarrow> bool" where
  udp_producer: "udp_step s (udp_producer_step t s)"
| udp_consumer: "udp_step s (udp_consumer_step t s)"

inductive_simps udp_step_iff: "udp_step s s'"

abbreviation udp_reaches :: "udp_pipe \<Rightarrow> udp_pipe \<Rightarrow> bool" where
  "udp_reaches \<equiv> udp_step\<^sup>*\<^sup>*"

definition udp_joined :: "udp_pipe \<Rightarrow> bool" where
  "udp_joined s \<longleftrightarrow> up_producer s = Stream_sent \<and> up_consumer s = Left"

section \<open>The report\<close>

definition cycles_summary :: "(rat \<Rightarrow> rat) \<Rightarrow> rat \<Rightarrow> u64 list \<Rightarrow> distribution" where
  "cycles_summary rnd ns_per_cycle xs =
     (if xs = [] then \<lparr>ds_p50 = 0, ds_p95 = 0, ds_p99 = 0, ds_maximum = 0\<rparr>
      else let sorted = sort xs; ns = (\<lambda>raw. to_quantity (rnd (to_double rnd raw * ns_per_cycle)))
        in \<lparr>ds_p50 = ns (sample_at rnd sorted (rnd (50 / 100))), ds_p95 = ns (sample_at rnd sorted (rnd (95 / 100))),
            ds_p99 = ns (sample_at rnd sorted (rnd (99 / 100))), ds_maximum = ns (last sorted)\<rparr>)"

record udp_report =
  ur_decoded :: nat
  ur_gaps :: u64
  ur_missed :: u64
  ur_per_second :: u64
  ur_residence :: distribution
  ur_processing :: distribution
  ur_end_to_end :: distribution
  ur_exit :: nat

text \<open>\<^verbatim>\<open>wall_start\<close> and \<^verbatim>\<open>wall_end\<close> are the clock around the producer's loop; the printed rate has no value if it stood still.\<close>

definition udp_outcome :: "(rat \<Rightarrow> rat) \<Rightarrow> rat \<Rightarrow> u64 \<Rightarrow> u64 \<Rightarrow> udp_pipe \<Rightarrow> bench_error + udp_report" where
  "udp_outcome rnd ns_per_cycle wall_start wall_end s =
     and_then (cast_u64 (per_second rnd (md_messages_decoded (up_connector s)) (seconds_between rnd wall_start wall_end))) (\<lambda>rate.
       Inr \<lparr>ur_decoded = md_messages_decoded (up_connector s), ur_gaps = md_gaps_detected (up_connector s), ur_missed = md_messages_missed (up_connector s),
      ur_per_second = rate,
      ur_residence = cycles_summary rnd ns_per_cycle (up_residence s), ur_processing = cycles_summary rnd ns_per_cycle (up_processing s),
      ur_end_to_end = cycles_summary rnd ns_per_cycle (up_end_to_end s), ur_exit = (if md_failed (up_connector s) then 1 else 0)\<rparr>)"

section \<open>Invariant\<close>

text \<open>The events still on their way to the book: in the consumer's hand, in the ring, in the producer's, in the feed.\<close>

abbreviation mold_feed :: "mold \<Rightarrow> market_data_event list" where
  "mold_feed c \<equiv> fst (state_view c)"

fun taken_item :: "udp_consumer \<Rightarrow> pipe_item option" where
  "taken_item (Taken item) = Some item"
| "taken_item (Applying item t) = Some item"
| "taken_item c = None"

fun to_push :: "udp_producer \<Rightarrow> mold \<Rightarrow> market_data_event list" where
  "to_push Receiving c = mold_feed c"
| "to_push (Stamping e) c = e # mold_feed c"
| "to_push (Enqueuing item) c = (if pi_stop item then [] else pi_event item # mold_feed c)"
| "to_push Stream_sent c = []"

fun handed :: "udp_producer \<Rightarrow> pipe_item option" where
  "handed (Enqueuing item) = Some item"
| "handed p = None"

definition unapplied :: "udp_pipe \<Rightarrow> market_data_event list" where
  "unapplied s = (case taken_item (up_consumer s) of None \<Rightarrow> [] | Some item \<Rightarrow> [pi_event item])
     @ map pi_event (filter (\<lambda>item. \<not> pi_stop item) (contents (sy_queue (up_system s)))) @ to_push (up_producer s) (up_connector s)"

text \<open>The stop item is the last of the ring from when it is pushed until it is popped, and no other stops.\<close>

definition stops_last :: "udp_pipe \<Rightarrow> bool" where
  "stops_last s \<longleftrightarrow> (let xs = contents (sy_queue (up_system s)) in
     if up_producer s = Stream_sent \<and> up_consumer s \<noteq> Left
     then xs \<noteq> [] \<and> pi_stop (last xs) \<and> (\<forall>x \<in> set (butlast xs). \<not> pi_stop x)
     else (\<forall>x \<in> set xs. \<not> pi_stop x))
   \<and> (up_consumer s = Left \<longrightarrow> up_producer s = Stream_sent \<and> contents (sy_queue (up_system s)) = [])"

definition stream_over :: "mold_totals \<Rightarrow> udp_pipe \<Rightarrow> bool" where
  "stream_over verdict s \<longleftrightarrow> (case up_producer s of
       Enqueuing item \<Rightarrow> if pi_stop item then totals (up_connector s) = verdict else snd (state_view (up_connector s)) = verdict
     | Stream_sent \<Rightarrow> totals (up_connector s) = verdict
     | _ \<Rightarrow> snd (state_view (up_connector s)) = verdict)"

definition udp_inv :: "mold \<Rightarrow> order_book \<Rightarrow> udp_pipe \<Rightarrow> bool" where
  "udp_inv c0 bk s \<longleftrightarrow> system_ok (up_system s) \<and> usable_capacity (sy_queue (up_system s)) = udp_slots - 1
     \<and> mold_ok (up_connector s) \<and> stream_over (snd (state_view c0)) s
     \<and> (\<forall>item. pushing (sy_producer (up_system s)) = Some item \<longrightarrow> handed (up_producer s) = Some item)
     \<and> (up_consumer s \<noteq> Polling_item \<longrightarrow> sy_consumer (up_system s) = CIdle)
     \<and> stops_last s
     \<and> (\<exists>es. mold_feed c0 = es @ unapplied s \<and> up_book s = snd (process_events es bk)
          \<and> length es = length (up_residence s) + (case up_consumer s of Measured _ _ \<Rightarrow> 1 | _ \<Rightarrow> 0)
          \<and> length (up_processing s) = length (up_residence s) \<and> length (up_end_to_end s) = length (up_residence s))"

lemma mold_step:
  assumes "mold_ok c" and "mold_next c = (r, c1)"
  shows "mold_ok c1"
    and "r = None \<Longrightarrow> mold_feed c = [] \<and> totals c1 = snd (state_view c)"
    and "r = Some e \<Longrightarrow> mold_feed c = e # mold_feed c1 \<and> snd (state_view c1) = snd (state_view c)"
proof -
  show "mold_ok c1" using mold.next_ok [OF assms(1)] assms(2) by simp
  show "mold_feed c = [] \<and> totals c1 = snd (state_view c)" if "r = None"
    using mold.next_event [OF assms(1)] mold.end_verdict [OF assms(1)] assms(2) that by (cases "mold_feed c") auto
  show "mold_feed c = e # mold_feed c1 \<and> snd (state_view c1) = snd (state_view c)" if "r = Some e"
    using mold.next_event [OF assms(1)] mold.next_end [OF assms(1)] mold.event_verdict [OF assms(1)] assms(2) that
    by (cases "mold_feed c") auto
qed

text \<open>The part of the invariant the applied events and the latencies make up.\<close>

definition applied_inv :: "mold \<Rightarrow> order_book \<Rightarrow> udp_pipe \<Rightarrow> bool" where
  "applied_inv c0 bk s \<longleftrightarrow> (\<exists>es. mold_feed c0 = es @ unapplied s \<and> up_book s = snd (process_events es bk)
     \<and> length es = length (up_residence s) + (case up_consumer s of Measured _ _ \<Rightarrow> 1 | _ \<Rightarrow> 0)
     \<and> length (up_processing s) = length (up_residence s) \<and> length (up_end_to_end s) = length (up_residence s))"

lemma applied_inv_cong:
  assumes "unapplied s' = unapplied s" and "up_book s' = up_book s" and "up_consumer s' = up_consumer s"
    and "up_residence s' = up_residence s" and "up_processing s' = up_processing s" and "up_end_to_end s' = up_end_to_end s"
  shows "applied_inv c0 bk s' = applied_inv c0 bk s"
  using assms by (simp add: applied_inv_def)

lemma stream_over_cong:
  assumes "up_producer s' = up_producer s" and "up_connector s' = up_connector s"
  shows "stream_over v s' = stream_over v s"
  by (simp only: stream_over_def assms)

lemma udp_inv_split: "udp_inv c0 bk s \<longleftrightarrow> system_ok (up_system s) \<and> usable_capacity (sy_queue (up_system s)) = udp_slots - 1
     \<and> mold_ok (up_connector s) \<and> stream_over (snd (state_view c0)) s
     \<and> (\<forall>item. pushing (sy_producer (up_system s)) = Some item \<longrightarrow> handed (up_producer s) = Some item)
     \<and> (up_consumer s \<noteq> Polling_item \<longrightarrow> sy_consumer (up_system s) = CIdle)
     \<and> stops_last s \<and> applied_inv c0 bk s"
  by (simp add: udp_inv_def applied_inv_def)

lemma udp_producer_keeps:
  assumes inv: "udp_inv c0 bk s"
  shows "udp_inv c0 bk (udp_producer_step t s)"
proof (cases "up_producer s")
  case Receiving
  have ok: "mold_ok (up_connector s)" and over: "snd (state_view (up_connector s)) = snd (state_view c0)"
    using inv Receiving by (simp_all add: udp_inv_split stream_over_def)
  obtain r c1 where n: "mold_next (up_connector s) = (r, c1)" by (cases "mold_next (up_connector s)")
  note st = mold_step [OF ok n]
  show ?thesis
  proof (cases "source_blocked (md_source c1)")
    case True
    then have "udp_producer_step t s = s" using Receiving n by (simp add: udp_producer_step_def)
    then show ?thesis using inv by simp
  next
   case returns: False
   show ?thesis
   proof (cases r)
    case None
    define s' where "s' = s\<lparr>up_connector := c1, up_producer := Enqueuing stop_item\<rparr>"
    have s': "udp_producer_step t s = s'" using Receiving n None returns by (simp add: udp_producer_step_def s'_def)
    have "unapplied s' = unapplied s" using Receiving st(2) [OF None] by (simp add: unapplied_def s'_def stop_item_def)
    then have "applied_inv c0 bk s' = applied_inv c0 bk s" by (rule applied_inv_cong) (simp_all add: s'_def)
    moreover have "stops_last s'" using inv Receiving by (simp add: udp_inv_split stops_last_def s'_def Let_def)
    moreover have "stream_over (snd (state_view c0)) s'" using st(2) [OF None] over by (simp add: stream_over_def s'_def stop_item_def)
    ultimately show ?thesis using inv Receiving st(1) unfolding s' by (simp add: udp_inv_split) (simp add: s'_def)
  next
    case (Some e)
    define s' where "s' = s\<lparr>up_connector := c1, up_producer := Stamping e\<rparr>"
    have s': "udp_producer_step t s = s'" using Receiving n Some returns by (simp add: udp_producer_step_def s'_def)
    have "unapplied s' = unapplied s" using Receiving st(3) [OF Some] by (simp add: unapplied_def s'_def)
    then have "applied_inv c0 bk s' = applied_inv c0 bk s" by (rule applied_inv_cong) (simp_all add: s'_def)
    moreover have "stops_last s'" using inv Receiving by (simp add: udp_inv_split stops_last_def s'_def Let_def)
    moreover have "stream_over (snd (state_view c0)) s'" using st(3) [OF Some] over by (simp add: stream_over_def s'_def)
    ultimately show ?thesis using inv Receiving st(1) unfolding s' by (simp add: udp_inv_split) (simp add: s'_def)
   qed
  qed
next
  case (Stamping e)
  define s' where "s' = s\<lparr>up_producer := Enqueuing \<lparr>pi_event = e, pi_ingress_cycles = t, pi_stop = False\<rparr>\<rparr>"
  have s': "udp_producer_step t s = s'" using Stamping by (simp add: udp_producer_step_def s'_def)
  have "unapplied s' = unapplied s" using Stamping by (simp add: unapplied_def s'_def)
  then have "applied_inv c0 bk s' = applied_inv c0 bk s" by (rule applied_inv_cong) (simp_all add: s'_def)
  moreover have "stops_last s'" using inv Stamping by (simp add: udp_inv_split stops_last_def s'_def Let_def)
  moreover have "stream_over (snd (state_view c0)) s'" using inv Stamping by (simp add: udp_inv_split stream_over_def s'_def)
  ultimately show ?thesis using inv Stamping unfolding s' by (simp add: udp_inv_split) (simp add: s'_def)
next
  case (Enqueuing item)
  let ?sys = "up_system s"
  have ok: "system_ok ?sys" using inv by (simp add: udp_inv_split)
  show ?thesis
  proof (cases "sy_producer ?sys = PIdle")
    case True
    define s' where "s' = s\<lparr>up_system := ?sys\<lparr>sy_producer := PCalled item\<rparr>\<rparr>"
    have s': "udp_producer_step t s = s'" using Enqueuing True by (simp add: udp_producer_step_def s'_def)
    have "unapplied s' = unapplied s" by (simp add: unapplied_def s'_def)
    then have "applied_inv c0 bk s' = applied_inv c0 bk s" by (rule applied_inv_cong) (simp_all add: s'_def)
    moreover have "stops_last s' = stops_last s" by (simp add: stops_last_def s'_def)
    moreover have "stream_over (snd (state_view c0)) s' = stream_over (snd (state_view c0)) s"
      by (rule stream_over_cong) (simp_all add: s'_def)
    ultimately show ?thesis using inv Enqueuing call_ok(1) [OF ok, of item] unfolding s'
      by (simp add: udp_inv_split) (simp add: s'_def pushing_def)
  next
    case False
    then obtain x where "pushing (sy_producer ?sys) = Some x" by (cases "pushing (sy_producer ?sys)") auto
    then have hand: "pushing (sy_producer ?sys) = Some item" using inv Enqueuing by (auto simp: udp_inv_split)
    obtain l p q where st: "push_step (sy_producer ?sys) (sy_queue ?sys) = (l, p, q)" by (cases "push_step (sy_producer ?sys) (sy_queue ?sys)")
    note a = push_access [OF ok st]
    define s' where "s' = s\<lparr>up_system := ?sys\<lparr>sy_producer := p, sy_queue := q\<rparr>,
      up_producer := (case l of Pushed _ \<Rightarrow> if pi_stop item then Stream_sent else Receiving | _ \<Rightarrow> Enqueuing item)\<rparr>"
    have s': "udp_producer_step t s = s'" using Enqueuing False st by (simp add: udp_producer_step_def s'_def Let_def)
    have same: "up_book s' = up_book s" "up_consumer s' = up_consumer s" "up_residence s' = up_residence s" "up_processing s' = up_processing s"
      "up_end_to_end s' = up_end_to_end s" "up_connector s' = up_connector s" "sy_consumer (up_system s') = sy_consumer ?sys"
      "system_ok (up_system s')" "usable_capacity (sy_queue (up_system s')) = usable_capacity (sy_queue ?sys)"
      using a by (simp_all add: s'_def)
    have stops: "\<forall>x \<in> set (contents (sy_queue ?sys)). \<not> pi_stop x" "up_consumer s \<noteq> Left"
      using inv Enqueuing by (auto simp: udp_inv_split stops_last_def Let_def)
    consider "l = Tau" "pushing p = Some item" | "l = PushFull" "p = PIdle" | "l = Pushed item" "p = PIdle"
      using push_step_label [OF st hand] by blast
    then have "unapplied s' = unapplied s \<and> stops_last s' \<and> (\<forall>x. pushing (sy_producer (up_system s')) = Some x \<longrightarrow> handed (up_producer s') = Some x)
      \<and> stream_over (snd (state_view c0)) s'"
    proof cases
      case 3
      then have "contents q = contents (sy_queue ?sys) @ [item]" using a(3) by simp
      then show ?thesis using 3 inv Enqueuing stops by (auto simp: unapplied_def stops_last_def stream_over_def udp_inv_split s'_def Let_def)
    qed (use inv Enqueuing stops a(3) in \<open>auto simp: unapplied_def stops_last_def stream_over_def udp_inv_split s'_def Let_def\<close>)
    then show ?thesis using inv same applied_inv_cong [of s' s c0 bk] unfolding s' udp_inv_split by simp
  qed
next
  case Stream_sent
  then show ?thesis using inv by (simp add: udp_producer_step_def)
qed

lemma udp_consumer_keeps:
  assumes inv: "udp_inv c0 bk s"
  shows "udp_inv c0 bk (udp_consumer_step t s)"
proof (cases "up_consumer s")
  case Polling_item
  let ?sys = "up_system s"
  have ok: "system_ok ?sys" using inv by (simp add: udp_inv_split)
  show ?thesis
  proof (cases "sy_consumer ?sys = CIdle")
    case True
    define s' where "s' = s\<lparr>up_system := ?sys\<lparr>sy_consumer := CCalled\<rparr>\<rparr>"
    have s': "udp_consumer_step t s = s'" using Polling_item True by (simp add: udp_consumer_step_def s'_def)
    have "unapplied s' = unapplied s" by (simp add: unapplied_def s'_def)
    then have "applied_inv c0 bk s' = applied_inv c0 bk s" by (rule applied_inv_cong) (simp_all add: s'_def)
    moreover have "stops_last s' = stops_last s" by (simp add: stops_last_def s'_def)
    moreover have "stream_over (snd (state_view c0)) s' = stream_over (snd (state_view c0)) s"
      by (rule stream_over_cong) (simp_all add: s'_def)
    ultimately show ?thesis using inv Polling_item call_ok(2) [OF ok] unfolding s' by (simp add: udp_inv_split) (simp add: s'_def)
  next
    case False
    obtain l c q where st: "pop_step (sy_consumer ?sys) (sy_queue ?sys) = (l, c, q)" by (cases "pop_step (sy_consumer ?sys) (sy_queue ?sys)")
    note a = pop_access [OF ok st]
    define s' where "s' = s\<lparr>up_system := ?sys\<lparr>sy_consumer := c, sy_queue := q\<rparr>,
      up_consumer := (case l of Popped item \<Rightarrow> if pi_stop item then Left else Taken item | _ \<Rightarrow> Polling_item)\<rparr>"
    have s': "udp_consumer_step t s = s'" using Polling_item False st by (simp add: udp_consumer_step_def s'_def Let_def)
    have same: "up_book s' = up_book s" "up_residence s' = up_residence s" "up_processing s' = up_processing s"
      "up_end_to_end s' = up_end_to_end s" "up_connector s' = up_connector s" "up_producer s' = up_producer s"
      "sy_producer (up_system s') = sy_producer ?sys"
      "system_ok (up_system s')" "usable_capacity (sy_queue (up_system s')) = usable_capacity (sy_queue ?sys)"
      using a by (simp_all add: s'_def)
    have over: "stream_over (snd (state_view c0)) s' = stream_over (snd (state_view c0)) s" by (rule stream_over_cong) (rule same)+
    consider "l = Tau" | "l = PopEmpty" "c = CIdle" | item where "l = Popped item" "c = CIdle"
      using pop_step_label [OF st] by blast
    then have "unapplied s' = unapplied s \<and> stops_last s' \<and> (up_consumer s' \<noteq> Polling_item \<longrightarrow> sy_consumer (up_system s') = CIdle)
      \<and> (case up_consumer s' of Measured _ _ \<Rightarrow> False | _ \<Rightarrow> True)"
    proof cases
      case (3 item)
      then have "contents (sy_queue ?sys) = item # contents q" using a(3) by simp
      then show ?thesis using 3 inv Polling_item
        by (auto simp: unapplied_def stops_last_def udp_inv_split s'_def Let_def split: if_splits)
    qed (use inv Polling_item a(3) in \<open>auto simp: unapplied_def stops_last_def udp_inv_split s'_def Let_def\<close>)
    moreover from this have "applied_inv c0 bk s' = applied_inv c0 bk s"
      using same(1-4) Polling_item by (cases "up_consumer s'") (simp_all add: applied_inv_def)
    ultimately show ?thesis using inv same over unfolding s' udp_inv_split by simp
  qed
next
  case (Taken item)
  define s' where "s' = s\<lparr>up_consumer := Applying item t\<rparr>"
  have s': "udp_consumer_step t s = s'" using Taken by (simp add: udp_consumer_step_def s'_def)
  have "unapplied s' = unapplied s" using Taken by (simp add: unapplied_def s'_def)
  then have "applied_inv c0 bk s' = applied_inv c0 bk s" using Taken by (simp add: applied_inv_def) (simp add: s'_def)
  moreover have "stops_last s' = stops_last s" using Taken by (simp add: stops_last_def s'_def)
  moreover have "stream_over (snd (state_view c0)) s' = stream_over (snd (state_view c0)) s"
    by (rule stream_over_cong) (simp_all add: s'_def)
  ultimately show ?thesis using inv Taken unfolding s' by (simp add: udp_inv_split) (simp add: s'_def)
next
  case (Applying item popped)
  define s' where "s' = s\<lparr>up_book := snd (process_event (pi_event item) (up_book s)), up_consumer := Measured item popped\<rparr>"
  have s': "udp_consumer_step t s = s'" using Applying by (simp add: udp_consumer_step_def s'_def)
  obtain es where es: "mold_feed c0 = es @ unapplied s" "up_book s = snd (process_events es bk)" "length es = length (up_residence s)"
    "length (up_processing s) = length (up_residence s)" "length (up_end_to_end s) = length (up_residence s)"
    using inv Applying by (auto simp: udp_inv_def)
  have "unapplied s = pi_event item # unapplied s'" using Applying by (simp add: unapplied_def s'_def)
  then have "mold_feed c0 = (es @ [pi_event item]) @ unapplied s'" using es(1) by simp
  moreover have "up_book s' = snd (process_events (es @ [pi_event item]) bk)"
    using es(2) by (simp add: s'_def process_events_append split_beta)
  ultimately have "applied_inv c0 bk s'"
    unfolding applied_inv_def using es(3-5) by (intro exI [of _ "es @ [pi_event item]"]) (simp add: s'_def)
  moreover have "stops_last s' = stops_last s" using Applying by (simp add: stops_last_def s'_def)
  moreover have "stream_over (snd (state_view c0)) s' = stream_over (snd (state_view c0)) s"
    by (rule stream_over_cong) (simp_all add: s'_def)
  ultimately show ?thesis using inv Applying unfolding s' by (simp add: udp_inv_split) (simp add: s'_def)
next
  case (Measured item popped)
  define s' where "s' = s\<lparr>up_residence := up_residence s @ [delta popped (pi_ingress_cycles item)],
    up_processing := up_processing s @ [delta t popped], up_end_to_end := up_end_to_end s @ [delta t (pi_ingress_cycles item)],
    up_consumer := Polling_item\<rparr>"
  have s': "udp_consumer_step t s = s'" using Measured by (simp add: udp_consumer_step_def s'_def)
  have "unapplied s' = unapplied s" using Measured by (simp add: unapplied_def s'_def)
  then have "applied_inv c0 bk s' = applied_inv c0 bk s" using Measured by (simp add: applied_inv_def) (simp add: s'_def)
  moreover have "stops_last s' = stops_last s" using Measured by (simp add: stops_last_def s'_def)
  moreover have "stream_over (snd (state_view c0)) s' = stream_over (snd (state_view c0)) s"
    by (rule stream_over_cong) (simp_all add: s'_def)
  ultimately show ?thesis using inv Measured unfolding s' by (simp add: udp_inv_split) (simp add: s'_def)
next
  case Left
  then show ?thesis using inv by (simp add: udp_consumer_step_def)
qed

lemma udp_reaches_keeps: "udp_reaches s s' \<Longrightarrow> udp_inv c0 bk s \<Longrightarrow> udp_inv c0 bk s'"
  by (induction rule: rtranclp_induct) (auto simp: udp_step_iff udp_producer_keeps udp_consumer_keeps)

abbreviation udp_connector :: "16 word \<Rightarrow> socket_call list \<Rightarrow> mold" where
  "udp_connector port calls \<equiv> mold_connector (from_socket port calls) None"

lemma udp_start_inv: "udp_inv (udp_connector port calls) bk (udp_start port calls bk)"
  using start_ok [of udp_slots "stop_item\<lparr>pi_stop := False\<rparr>"] mold_start(1) [of "from_socket port calls" None]
  by (simp add: udp_inv_def udp_start_def stream_over_def stops_last_def unapplied_def udp_slots_def)
    (simp add: start_system_def)

section \<open>Whether the stream ends\<close>

text \<open>
  Up to the end of the stream the connector has not failed and its source will or will not end as it will or will not at
  the start; a stream without an end is only left by a failure.
\<close>

fun streaming :: "udp_producer \<Rightarrow> bool" where
  "streaming (Enqueuing item) \<longleftrightarrow> \<not> pi_stop item"
| "streaming Stream_sent \<longleftrightarrow> False"
| "streaming p \<longleftrightarrow> True"

definition feed_inv :: "mold \<Rightarrow> udp_pipe \<Rightarrow> bool" where
  "feed_inv c0 s \<longleftrightarrow> (if streaming (up_producer s) then quiet (up_connector s)
       \<and> (source_ends (md_source c0) \<longrightarrow> source_ends (md_source (up_connector s)))
       \<and> (source_waits (md_source c0) \<longrightarrow> source_waits (md_source (up_connector s)))
     else source_waits (md_source c0) \<longrightarrow> md_failed (up_connector s))"

lemma feed_inv_cong:
  "up_connector s' = up_connector s \<Longrightarrow> streaming (up_producer s') = streaming (up_producer s) \<Longrightarrow> feed_inv c0 s' = feed_inv c0 s"
  by (simp only: feed_inv_def)

lemma producer_feed:
  assumes inv: "feed_inv c0 s"
  shows "feed_inv c0 (udp_producer_step t s)"
proof (cases "up_producer s")
  case Receiving
  let ?c = "up_connector s"
  have f: "quiet ?c" "source_ends (md_source c0) \<Longrightarrow> source_ends (md_source ?c)" "source_waits (md_source c0) \<Longrightarrow> source_waits (md_source ?c)"
    using inv Receiving by (simp_all add: feed_inv_def)
  obtain r c1 where n: "mold_next ?c = (r, c1)" by (cases "mold_next ?c")
  have q: "case r of None \<Rightarrow> \<not> (md_failed c1 \<and> source_blocked (md_source c1)) | Some _ \<Rightarrow> quiet c1"
    using next_stays [OF stays_quiet f(1)] by (simp only: n fst_conv snd_conv)
  have e: "source_ends (md_source c0) \<Longrightarrow> case r of None \<Rightarrow> \<not> source_blocked (md_source c1) | Some _ \<Rightarrow> source_ends (md_source c1)"
    using next_stays [OF stays_ends f(2)] by (simp only: n fst_conv snd_conv)
  have w: "source_waits (md_source c0) \<Longrightarrow> case r of None \<Rightarrow> source_blocked (md_source c1) \<or> md_failed c1 | Some _ \<Rightarrow> source_waits (md_source c1)"
    using next_stays [OF stays_waits f(3)] by (simp only: n fst_conv snd_conv)
  show ?thesis
  proof (cases "source_blocked (md_source c1)")
    case True
    then have "udp_producer_step t s = s" using Receiving n by (simp add: udp_producer_step_def)
    then show ?thesis using inv by simp
  next
    case False
    then show ?thesis using Receiving n q e w by (cases r) (simp_all add: udp_producer_step_def feed_inv_def stop_item_def)
  qed
next
  case (Stamping e)
  show ?thesis using inv by (subst feed_inv_cong [of _ s]) (simp_all add: Stamping udp_producer_step_def)
next
  case (Enqueuing item)
  show ?thesis using inv
    by (subst feed_inv_cong [of _ s]) (auto simp: Enqueuing udp_producer_step_def Let_def split: prod.split label.split)
next
  case Stream_sent
  then show ?thesis using inv by (simp add: udp_producer_step_def)
qed

lemma consumer_feed: "feed_inv c0 s \<Longrightarrow> feed_inv c0 (udp_consumer_step t s)"
  by (subst feed_inv_cong [of _ s]) (auto simp: udp_consumer_step_def Let_def split: udp_consumer.split prod.split label.split)

lemma udp_reaches_feed: "udp_reaches s s' \<Longrightarrow> feed_inv c0 s \<Longrightarrow> feed_inv c0 s'"
  by (induction rule: rtranclp_induct) (auto simp: udp_step_iff producer_feed consumer_feed)

lemma udp_start_feed: "feed_inv (udp_connector port calls) (udp_start port calls bk)"
  by (simp add: feed_inv_def udp_start_def quiet_def mold_connector_def from_socket_def source_blocked_def)

lemma udp_source:
  "source_ends (md_source (udp_connector port calls)) \<longleftrightarrow> socket_ends calls"
  "source_waits (md_source (udp_connector port calls)) \<longleftrightarrow> \<not> socket_ends calls"
  by (simp_all add: mold_connector_def from_socket_def source_ends_def source_waits_def)

definition will_end :: "mold \<Rightarrow> bool" where
  "will_end c0 \<longleftrightarrow> source_ends (md_source c0) \<or> mt_failed (snd (state_view c0))"

lemma receiving_returns:
  assumes "udp_inv c0 bk s" and "feed_inv c0 s" and "will_end c0" and "up_producer s = Receiving"
  shows "\<not> source_blocked (md_source (snd (mold_next (up_connector s))))"
proof -
  let ?c = "up_connector s"
  have ok: "mold_ok ?c" and over: "snd (state_view ?c) = snd (state_view c0)"
    using assms(1,4) by (simp_all add: udp_inv_split stream_over_def)
  have f: "quiet ?c" "source_ends (md_source c0) \<Longrightarrow> source_ends (md_source ?c)"
    using assms(2,4) by (simp_all add: feed_inv_def)
  obtain r c1 where n: "mold_next ?c = (r, c1)" by (cases "mold_next ?c")
  have q: "case r of None \<Rightarrow> \<not> (md_failed c1 \<and> source_blocked (md_source c1)) | Some _ \<Rightarrow> quiet c1"
    using next_stays [OF stays_quiet f(1)] by (simp only: n fst_conv snd_conv)
  have e: "\<not> source_blocked (md_source c1)" if "source_ends (md_source c0)"
    using next_stays [OF stays_ends f(2) [OF that]] source_not_blocked by (auto simp: n split: option.splits)
  have "md_failed c1" if "r = None" "mt_failed (snd (state_view c0))"
  proof -
    have "mt_failed (totals c1)" using mold_step(2) [OF ok n that(1)] over that(2) by simp
    then show ?thesis by (simp add: totals_def)
  qed
  then show ?thesis using q e assms(3) by (cases r) (auto simp: n will_end_def quiet_def)
qed

section \<open>Every run can be completed\<close>

text \<open>A natural number that some step always makes smaller: the work left before each item is measured.\<close>

definition udp_producer_rank :: "udp_pipe \<Rightarrow> nat" where
  "udp_producer_rank s = (let n = 20 * length (mold_feed (up_connector s)); p = sy_producer (up_system s) in
     (case up_producer s of
       Receiving \<Rightarrow> n + 20
     | Stamping e \<Rightarrow> n + 39
     | Enqueuing item \<Rightarrow> (if pi_stop item then 13 else n + 33) + (if p = PIdle then 5 else push_rank p)
     | Stream_sent \<Rightarrow> 0))"

definition udp_consumer_rank :: "udp_pipe \<Rightarrow> nat" where
  "udp_consumer_rank s = (let c = sy_consumer (up_system s) in
     (case up_consumer s of
       Polling_item \<Rightarrow> if c = CIdle then 5 else pop_rank c
     | Taken item \<Rightarrow> 9
     | Applying item t \<Rightarrow> 8
     | Measured item t \<Rightarrow> 7
     | Left \<Rightarrow> 0))"

definition udp_rank :: "udp_pipe \<Rightarrow> nat" where
  "udp_rank s = udp_producer_rank s + 10 * length (contents (sy_queue (up_system s))) + udp_consumer_rank s"

lemmas udp_rank_defs = udp_rank_def udp_producer_rank_def udp_consumer_rank_def Let_def

lemma udp_consumer_advances:
  assumes inv: "udp_inv c0 bk s" and busy: "up_consumer s \<noteq> Left"
    and ready: "up_consumer s = Polling_item \<Longrightarrow> contents (sy_queue (up_system s)) \<noteq> []"
  shows "udp_rank (udp_consumer_step t s) < udp_rank s"
proof (cases "up_consumer s")
  case Polling_item
  let ?sys = "up_system s"
  have ok: "system_ok ?sys" using inv by (simp add: udp_inv_split)
  then have q: "spsc_ok (sy_queue ?sys)" "consumer_ok (sy_queue ?sys) (sy_consumer ?sys)" by (simp_all add: system_ok_def)
  show ?thesis
  proof (cases "sy_consumer ?sys = CIdle")
    case True
    then show ?thesis using Polling_item by (simp add: udp_consumer_step_def udp_rank_defs)
  next
    case False
    obtain l c r where st: "pop_step (sy_consumer ?sys) (sy_queue ?sys) = (l, c, r)" by (cases "pop_step (sy_consumer ?sys) (sy_queue ?sys)")
    have spec: "queue_spec (usable_capacity (sy_queue ?sys)) (contents (sy_queue ?sys)) l (contents r)" by (rule pop_access(3) [OF ok st])
    have full: "q_tail (sy_queue ?sys) \<noteq> q_head (sy_queue ?sys)" using first_item [OF q(1)] ready [OF Polling_item] by simp
    have "(l = Tau \<and> c \<noteq> CIdle \<and> pop_rank c < pop_rank (sy_consumer ?sys)) \<or> (\<exists>item. l = Popped item \<and> c = CIdle)"
      using st False q(2) full by (cases "sy_consumer ?sys") (auto simp: consumer_ok_def)
    then show ?thesis
    proof (elim disjE conjE exE)
      assume "l = Tau" "c \<noteq> CIdle" "pop_rank c < pop_rank (sy_consumer ?sys)"
      then show ?thesis using Polling_item False st spec by (simp add: udp_consumer_step_def udp_rank_defs del: length_contents)
    next
      fix item assume l: "l = Popped item" "c = CIdle"
      then have "contents (sy_queue ?sys) = item # contents r" using spec by simp
      then have "length (contents (sy_queue ?sys)) = Suc (length (contents r))" by simp
      then show ?thesis using Polling_item False st l by (simp add: udp_consumer_step_def udp_rank_defs del: length_contents)
    qed
  qed
qed (use inv busy in \<open>auto simp: udp_consumer_step_def udp_rank_defs udp_inv_split\<close>)

lemma udp_producer_advances:
  assumes inv: "udp_inv c0 bk s" and busy: "up_producer s \<noteq> Stream_sent" and room: "contents (sy_queue (up_system s)) = []"
    and feed: "feed_inv c0 s" "will_end c0"
  shows "udp_rank (udp_producer_step t s) < udp_rank s"
proof (cases "up_producer s")
  case Receiving
  have ok: "mold_ok (up_connector s)" using inv by (simp add: udp_inv_split)
  obtain r c1 where n: "mold_next (up_connector s) = (r, c1)" by (cases "mold_next (up_connector s)")
  note st = mold_step [OF ok n]
  have idle: "sy_producer (up_system s) = PIdle" using inv Receiving by (cases "pushing (sy_producer (up_system s))") (auto simp: udp_inv_split)
  have "\<not> source_blocked (md_source c1)" using receiving_returns [OF inv feed Receiving] n by simp
  then show ?thesis using Receiving n st(2,3) idle
    by (cases r) (simp_all add: udp_producer_step_def udp_rank_defs stop_item_def)
next
  case (Stamping e)
  then have "sy_producer (up_system s) = PIdle" using inv by (cases "pushing (sy_producer (up_system s))") (auto simp: udp_inv_split)
  then show ?thesis using Stamping by (simp add: udp_producer_step_def udp_rank_defs)
next
  case (Enqueuing item)
  let ?sys = "up_system s"
  have ok: "system_ok ?sys" and u: "usable_capacity (sy_queue ?sys) = udp_slots - 1" using inv by (simp_all add: udp_inv_split)
  then have q: "spsc_ok (sy_queue ?sys)" "producer_ok (sy_queue ?sys) (sy_producer ?sys)" by (simp_all add: system_ok_def)
  show ?thesis
  proof (cases "sy_producer ?sys = PIdle")
    case True
    then show ?thesis using Enqueuing by (simp add: udp_producer_step_def udp_rank_defs)
  next
    case False
    obtain l p r where st: "push_step (sy_producer ?sys) (sy_queue ?sys) = (l, p, r)" by (cases "push_step (sy_producer ?sys) (sy_queue ?sys)")
    have spec: "queue_spec (usable_capacity (sy_queue ?sys)) (contents (sy_queue ?sys)) l (contents r)" by (rule push_access(3) [OF ok st])
    have "q_length (sy_queue ?sys) = 0" using room by (metis Spsc.length_contents list.size(3))
    then have "increment (q_capacity (sy_queue ?sys)) (q_head (sy_queue ?sys)) \<noteq> q_tail (sy_queue ?sys)"
      using not_full [OF q(1)] u by (simp add: udp_slots_def)
    then have "(l = Tau \<and> p \<noteq> PIdle \<and> push_rank p < push_rank (sy_producer ?sys)) \<or> (\<exists>x. l = Pushed x \<and> p = PIdle \<and> push_rank (sy_producer ?sys) = 1)"
      using st False q(2) by (cases "sy_producer ?sys") (auto simp: producer_ok_def)
    then show ?thesis
    proof (elim disjE conjE exE)
      assume "l = Tau" "p \<noteq> PIdle" "push_rank p < push_rank (sy_producer ?sys)"
      then show ?thesis using Enqueuing False st spec by (simp add: udp_producer_step_def udp_rank_defs del: length_contents)
    next
      fix x assume l: "l = Pushed x" "p = PIdle" "push_rank (sy_producer ?sys) = 1"
      then have "contents r = [x]" using spec room by simp
      then have len: "length (contents r) = 1" "length (contents (sy_queue ?sys)) = 0" using room by simp_all
      show ?thesis using Enqueuing False st l len by (simp add: udp_producer_step_def udp_rank_defs del: length_contents)
    qed
  qed
qed (use busy in simp)

lemma udp_completes:
  assumes "udp_inv c0 bk s" and "feed_inv c0 s" and ends: "will_end c0"
  shows "\<exists>s'. udp_reaches s s' \<and> udp_joined s'"
  using assms(1,2)
proof (induction "udp_rank s" arbitrary: s rule: less_induct)
  case less
  show ?case
  proof (cases "udp_joined s")
    case False
    have "\<exists>s1. udp_step s s1 \<and> udp_inv c0 bk s1 \<and> feed_inv c0 s1 \<and> udp_rank s1 < udp_rank s"
    proof (cases "up_consumer s = Left \<or> up_consumer s = Polling_item \<and> contents (sy_queue (up_system s)) = []")
      case True
      have "up_producer s \<noteq> Stream_sent \<and> contents (sy_queue (up_system s)) = []"
        using True False less.prems(1) by (auto simp: udp_joined_def udp_inv_split stops_last_def Let_def)
      then have "udp_rank (udp_producer_step 0 s) < udp_rank s"
        by (intro udp_producer_advances [OF less.prems(1) _ _ less.prems(2) ends]) blast+
      then show ?thesis using udp_producer udp_producer_keeps [OF less.prems(1)] producer_feed [OF less.prems(2)] by blast
    next
      case False
      then have "udp_rank (udp_consumer_step 0 s) < udp_rank s" by (intro udp_consumer_advances [OF less.prems(1)]) blast+
      then show ?thesis using udp_consumer udp_consumer_keeps [OF less.prems(1)] consumer_feed [OF less.prems(2)] by blast
    qed
    then obtain s1 where s1: "udp_step s s1" "udp_inv c0 bk s1" "feed_inv c0 s1" "udp_rank s1 < udp_rank s" by blast
    show ?thesis using less.hyps [OF s1(4,2,3)] s1(1) by (meson converse_rtranclp_into_rtranclp)
  qed blast
qed

lemma udp_joined_ends:
  assumes "udp_inv c0 bk s" and "feed_inv c0 s" and "udp_joined s"
  shows "source_waits (md_source c0) \<Longrightarrow> mt_failed (snd (state_view c0))"
proof -
  assume "source_waits (md_source c0)"
  then have "mt_failed (totals (up_connector s))" using assms(2,3) by (simp add: feed_inv_def udp_joined_def totals_def)
  moreover have "totals (up_connector s) = snd (state_view c0)" using assms(1,3) by (simp add: udp_inv_split stream_over_def udp_joined_def)
  ultimately show ?thesis by simp
qed

section \<open>What the sender sends\<close>

definition udp_order :: "nat \<Rightarrow> u64" where
  "udp_order i = word_of_nat i mod 20000 + 1"

definition udp_message :: "nat \<Rightarrow> itch_message" where
  "udp_message i = (\<lparr>hd_stock_locate = 0, hd_tracking = 0, hd_timestamp = 0, hd_order = udp_order i\<rparr>,
     MAdd Buy (ucast (1 + udp_order i mod 100)) 0x2020202020202020 (ucast (9900 + udp_order i mod 200)))"

definition udp_event :: "nat \<Rightarrow> market_data_event" where
  "udp_event i = default_event\<lparr>ev_sequence := word_of_nat (1 + i), ev_type := Add, ev_order_id := udp_order i, ev_side := Buy,
     ev_price := 9900 + udp_order i mod 200, ev_quantity := 1 + udp_order i mod 100\<rparr>"

abbreviation udp_payloads :: "u8 list list" where
  "udp_payloads \<equiv> map (\<lambda>i. encode_message (udp_message i)) [0..<k_messages]"

lemma put_be_append: "put_be out v bytes = append_be out v bytes"
  by (simp add: put_be_def append_be_def)

lemma packet_transmitted:
  assumes "i < k_messages"
  shows "mold_add_packet (word_of_nat i + 1) (word_of_nat i mod 20000 + 1) = transmit 1 udp_payloads (i, 1)"
proof -
  let ?m = "encode_message (udp_message i)"
  have pick: "take 1 (drop i udp_payloads) = [?m]" using assms by (simp add: take_Suc_conv_app_nth flip: Cons_nth_drop_Suc)
  have len: "length ?m = 36" by (simp add: udp_message_def length_encode_message)
  have zero: "be 2 (0 :: u64) = be 2 (0 :: u16)" "be 6 (0 :: u64) = be 6 (0 :: 48 word)" by code_simp+
  have count: "be 2 (1 :: u64) = be 2 (1 :: u16)" "be 2 (36 :: u64) = be 2 (36 :: u16)" by code_simp+
  have four: "be 4 v = be 4 (ucast v :: u32)" for v :: u64 using be_narrow [of 4 v, where 'b = 32] by simp
  have spaces: "replicate 8 (32 :: u8) = be 8 (0x2020202020202020 :: u64)" by code_simp
  have add: "put_be (put_be (put_be (put_be (put_be (put_be [65] 0 2) 0 2) 0 6) (udp_order i) 8 @ [66]) (1 + udp_order i mod 100) 4
      @ replicate 8 32) (9900 + udp_order i mod 200) 4 = ?m"
    by (simp add: put_be_append append_be_be udp_message_def encode_message_def message_tag_def side_byte_def zero four spaces)
  have "mold_add_packet (word_of_nat i + 1) (udp_order i) = replicate 10 0 @ be 8 (word_of_nat i + 1 :: u64) @ be 2 (1 :: u16) @ be 2 (36 :: u16) @ ?m"
    unfolding mold_add_packet_def Let_def add len by (simp add: put_be_append append_be_be count)
  moreover have "transmit 1 udp_payloads (i, 1) = replicate 10 0 @ be 8 (word_of_nat i + 1 :: u64) @ be 2 (1 :: u16) @ be 2 (36 :: u16) @ ?m"
    unfolding transmit_def mold_datagram_def fst_conv snd_conv pick by (simp add: frame_bytes_def len add.commute)
  ultimately show ?thesis by (simp add: udp_order_def)
qed

lemma udp_order_nat: "unat (udp_order i) = i mod 20000 + 1" if "i < k_messages"
proof -
  have "unat (word_of_nat i :: u64) = i" using that by (simp add: unat_of_nat k_messages_def)
  moreover have "(word_of_nat 20000 :: u64) = 20000" by simp
  ultimately have "unat (word_of_nat i mod 20000 :: u64) = i mod 20000" using unat_mod_word [of 20000 "word_of_nat i"] by simp
  moreover from this have "unat (word_of_nat i mod 20000 :: u64) < 2 ^ 32" by (simp add: less_trans [OF mod_less_divisor])
  ultimately show ?thesis by (simp add: udp_order_def unat_Suc_small)
qed

lemma small_ucast: "unat v < 2 ^ 32 \<Longrightarrow> ucast (ucast v :: u32) = (v :: u64)"
proof -
  assume v: "unat v < 2 ^ 32"
  have "ucast (ucast v :: u32) = (word_of_nat (unat (ucast v :: u32)) :: u64)" by (rule of_nat_unat [symmetric])
  moreover have "unat (ucast v :: u32) = unat v" using v by (simp add: unsigned_ucast_eq take_bit_nat_eq_self)
  ultimately show ?thesis by simp
qed

lemma udp_event_delivered:
  assumes "i < k_messages"
  shows "event_at 1 udp_payloads i = [udp_event i]"
proof -
  have b: "unat (1 + v mod 100 :: u64) < 2 ^ 32" "unat (9900 + v mod 200 :: u64) < 2 ^ 32" for v
  proof -
    have "unat (v mod 100) < 100" "unat (v mod 200) < 200" using unat_mod_word [of 100 v] unat_mod_word [of 200 v] by simp_all
    moreover have "unat (c + w :: u64) \<le> unat c + unat w" for c w by (simp add: unat_word_ariths)
    from this [of 1 "v mod 100"] this [of 9900 "v mod 200"]
    have "unat (1 + v mod 100 :: u64) \<le> 1 + unat (v mod 100)" "unat (9900 + v mod 200 :: u64) \<le> 9900 + unat (v mod 200)" by simp_all
    moreover have "(10099 :: nat) < 2 ^ 32" by simp
    ultimately show "unat (1 + v mod 100 :: u64) < 2 ^ 32" "unat (9900 + v mod 200 :: u64) < 2 ^ 32" by - linarith+
  qed
  have "event_in (encode_message (udp_message i)) = Some (event_of (udp_message i))"
    using decode_encoded [of "udp_message i" "[]"] by (simp add: event_in_def)
  moreover have "(event_of (udp_message i))\<lparr>ev_sequence := word_of_nat (1 + i)\<rparr> = udp_event i"
    by (simp add: udp_message_def event_of_def base_event_def udp_event_def small_ucast [OF b(1)] small_ucast [OF b(2)] default_event_def)
  ultimately show ?thesis using assms by (simp add: event_at_def del: of_nat_add)
qed

lemma received_singles:
  "sorted js \<Longrightarrow> distinct js \<Longrightarrow> \<forall>j \<in> set js. ex \<le> j \<Longrightarrow> received ex (map (\<lambda>i. (i, 1)) js) = js"
proof (induction js arbitrary: ex)
  case (Cons j js)
  have "\<forall>k \<in> set js. j + 1 \<le> k" using Cons.prems(1,2) by (auto simp: Suc_le_eq less_le)
  then show ?case using Cons.IH [of "j + 1"] Cons.prems by (simp add: max_def)
qed simp

text \<open>Datagrams that fit the buffer, received and followed by the sentinel, are the feed of the list of them.\<close>

lemma packet_length: "length (mold_add_packet sq oid) = 58"
  by (simp add: mold_add_packet_def put_be_def Let_def)

lemma sentinel_ends: "socket_ends (map received_call (ds @ [[]]))"
  by (simp add: socket_ends_def received_call_def)

lemma socket_state_view:
  assumes "\<forall>d \<in> set ds. d \<noteq> [] \<and> length d \<le> 2048"
  shows "state_view (udp_connector port (map received_call (ds @ [[]]))) = view (items_of None None ds False) no_totals"
proof -
  have "rest_datagrams (from_socket port (map received_call (ds @ [[]]))) = (ds, False)"
    using socket_datagrams_received [OF assms, of "\<lparr>iu_bound_port = port, iu_failed = False, iu_buffer = replicate 2048 0\<rparr>" "[received_call []]"]
    by (simp add: rest_datagrams_def from_socket_def) (simp add: received_call_def call_fails_def)
  then show ?thesis unfolding mold_start(2) by simp
qed

text \<open>Whichever of the sender's packets reach the socket, in their order and before the sentinel: their events, and no failure.\<close>

lemma udp_packets_view:
  assumes "sorted js" and "distinct js" and "set js \<subseteq> {..<k_messages}"
  shows "fst (view (items_of None None (map (transmit 1 udp_payloads) (map (\<lambda>i. (i, 1)) js)) False) no_totals) = map udp_event js"
    and "\<not> mt_failed (snd (view (items_of None None (map (transmit 1 udp_payloads) (map (\<lambda>i. (i, 1)) js)) False) no_totals))"
proof (atomize (full), cases js)
  case Nil
  then show "fst (view (items_of None None (map (transmit 1 udp_payloads) (map (\<lambda>i. (i, 1)) js)) False) no_totals) = map udp_event js
    \<and> \<not> mt_failed (snd (view (items_of None None (map (transmit 1 udp_payloads) (map (\<lambda>i. (i, 1)) js)) False) no_totals))"
    by (simp add: no_totals_def)
next
  case (Cons j rest)
  let ?ws = "map (\<lambda>i. (i, 1 :: nat)) js"
  have events: "events_at 1 udp_payloads js = map udp_event js"
    using assms(3) udp_event_delivered by (induction js) (auto simp: events_at_def)
  have sound: "sound 1 udp_payloads"
    using decode_encoded [of _ "[]"] by (auto simp: sound_def k_messages_def udp_message_def length_encode_message)
  have win: "\<forall>w \<in> set ?ws. window_in udp_payloads w" using assms(3) by (auto simp: window_in_def)
  have j: "j \<le> length udp_payloads" and w1: "window_in udp_payloads (j, 1)" using assms(3) Cons by (auto simp: window_in_def)
  have got: "received j ?ws = js" using assms(1,2) Cons by (intro received_singles) auto
  have start: "items_of None None (map (transmit 1 udp_payloads) ?ws) False
      = items_of None (Some (word_of_nat (1 + j))) (map (transmit 1 udp_payloads) ?ws) False"
    unfolding Cons list.map by (rule first_packet [OF w1])
  from transmission_plain [OF sound win j, of no_totals]
  show "fst (view (items_of None None (map (transmit 1 udp_payloads) ?ws) False) no_totals) = map udp_event js
    \<and> \<not> mt_failed (snd (view (items_of None None (map (transmit 1 udp_payloads) ?ws) False) no_totals))"
    unfolding start got events by (elim exE) (simp only: fst_conv snd_conv mold_totals.simps no_totals_def simp_thms)
qed

lemma udp_feed:
  assumes "sorted js" and "distinct js" and "set js \<subseteq> {..<k_messages}"
  shows "mold_feed (udp_connector port (map received_call (map (\<lambda>i. mold_add_packet (word_of_nat i + 1) (word_of_nat i mod 20000 + 1)) js @ [[]])))
      = map udp_event js"
    and "\<not> mt_failed (snd (state_view (udp_connector port
        (map received_call (map (\<lambda>i. mold_add_packet (word_of_nat i + 1) (word_of_nat i mod 20000 + 1)) js @ [[]])))))"
proof -
  have nonempty: "d \<noteq> [] \<and> length d \<le> 2048" if "length d = 58" for d :: "u8 list" using that by auto
  have fit: "\<forall>d \<in> set (map (\<lambda>i. mold_add_packet (word_of_nat i + 1) (word_of_nat i mod 20000 + 1)) js). d \<noteq> [] \<and> length d \<le> 2048"
    unfolding set_map ball_simps by (intro ballI nonempty packet_length)
  have arrived: "map (\<lambda>i. mold_add_packet (word_of_nat i + 1) (word_of_nat i mod 20000 + 1)) js = map (transmit 1 udp_payloads) (map (\<lambda>i. (i, 1)) js)"
    unfolding map_map o_def by (rule map_cong [OF refl packet_transmitted]) (use assms(3) in auto)
  note seen = socket_state_view [OF fit, of port, unfolded arrived]
  show "mold_feed (udp_connector port (map received_call (map (\<lambda>i. mold_add_packet (word_of_nat i + 1) (word_of_nat i mod 20000 + 1)) js @ [[]])))
      = map udp_event js"
    unfolding arrived seen by (rule udp_packets_view(1) [OF assms])
  show "\<not> mt_failed (snd (state_view (udp_connector port
        (map received_call (map (\<lambda>i. mold_add_packet (word_of_nat i + 1) (word_of_nat i mod 20000 + 1)) js @ [[]])))))"
    unfolding arrived seen by (rule udp_packets_view(2) [OF assms])
qed

section \<open>What the book makes of it\<close>

definition udp_capacity :: nat where
  "udp_capacity = 2 ^ 20"

definition udp_prices :: "price set" where
  "udp_prices = (\<lambda>k. 9900 + word_of_nat k) ` {..<200}"

lemma udp_prices: "finite udp_prices" "(2 * card udp_prices)\<^sup>2 < next_power_of_two (udp_capacity * 2)"
proof -
  show "finite udp_prices" by (simp add: udp_prices_def)
  have "card udp_prices \<le> 200" unfolding udp_prices_def using card_image_le [of "{..<200 :: nat}"] by simp
  then have "(2 * card udp_prices)\<^sup>2 \<le> (2 * 200)\<^sup>2" by (intro power_mono) simp_all
  moreover have "((2 :: nat) * 200)\<^sup>2 < udp_capacity * 2" by (simp add: udp_capacity_def)
  ultimately show "(2 * card udp_prices)\<^sup>2 < next_power_of_two (udp_capacity * 2)"
    using next_power_of_two_ge [of "udp_capacity * 2"] by linarith
qed

lemma udp_event_price: "ev_price (udp_event i) \<in> udp_prices"
proof -
  have "9900 + w mod 200 \<in> udp_prices" for w :: u64
    unfolding udp_prices_def
  proof (rule image_eqI)
    show "9900 + w mod 200 = 9900 + word_of_nat (unat (w mod 200))" by simp
    show "unat (w mod 200) \<in> {..<200}" using unat_mod_word [of 200 w] by simp
  qed
  then show ?thesis by (simp add: udp_event_def)
qed

lemma udp_event_add: "ev_type (udp_event i) = Add" "ev_order_id (udp_event i) = udp_order i" "ev_quantity (udp_event i) \<noteq> 0"
proof -
  have "unat (udp_order i mod 100) < 100" using unat_mod_word [of 100 "udp_order i"] by simp
  then have "unat (udp_order i mod 100 + 1) = unat (udp_order i mod 100) + 1" by (intro unat_Suc_small) simp
  then show "ev_quantity (udp_event i) \<noteq> 0" by (auto simp: udp_event_def add.commute)
qed (simp_all add: udp_event_def)

lemma udp_accepted:
  assumes "k \<le> 20000"
  shows "fst (spec_events udp_capacity (map udp_event [0..<k]) spec_empty) = replicate k Applied
    \<and> holds_ids k (snd (spec_events udp_capacity (map udp_event [0..<k]) spec_empty))"
  using assms
proof (induction k)
  case 0
  then show ?case by (simp add: holds_ids_empty)
next
  case (Suc k)
  let ?s = "snd (spec_events udp_capacity (map udp_event [0..<k]) spec_empty)"
  have "fst (spec_event udp_capacity (udp_event k) ?s) = Applied \<and> holds_ids (Suc k) (snd (spec_event udp_capacity (udp_event k) ?s))"
    by (rule holds_ids_add) (use Suc udp_order_nat [of k] in \<open>auto simp: udp_event_add udp_capacity_def k_messages_def\<close>)
  then show ?case using Suc by (simp add: spec_events_append split_beta replicate_append_same)
qed

lemma udp_refused:
  assumes "holds_ids 20000 s" and "set js \<subseteq> {..<k_messages}"
  shows "spec_events cap (map udp_event js) s = (replicate (length js) DuplicateOrderId, s)"
  using assms(2)
proof (induction js)
  case (Cons j js)
  have "spec_event cap (udp_event j) s = (DuplicateOrderId, s)"
    by (rule holds_ids_again [OF assms(1)]) (use Cons.prems udp_order_nat [of j] in \<open>auto simp: udp_event_add Suc_le_eq\<close>)
  then show ?case using Cons by simp
qed simp

lemma k_messages_split: "[0..<k_messages] = [0..<20000] @ [20000..<k_messages]"
proof -
  have k: "k_messages = 20000 + (k_messages - 20000)" by (simp add: k_messages_def)
  have "[0..<20000 + (k_messages - 20000)] = [0..<20000] @ [20000..<20000 + (k_messages - 20000)]"
    by (rule upt_add_eq_append) (rule le0)
  then show ?thesis by (simp only: k [symmetric])
qed

section \<open>Properties\<close>

text \<open>
  C39. The stop item loses nothing: whatever the kernel answers to the receives and however the two threads and their readings
  interleave, the events applied are a prefix of what the connector delivers, in order and once. From every state the
  program can come to its end exactly if some receive ends the stream - the sentinel, an error, a failed call - or the
  connector meets a malformed frame; otherwise, as when the sentinel is lost, it waits for ever. At the end all events
  have been applied, each with its latencies, the counts are those of the stream, and the exit code is 1 for a failed call or a malformed
  frame and 0 otherwise, if the rate printed before has a value.
\<close>

theorem udp_pipeline_loses_nothing:
  assumes "udp_reaches (udp_start port calls bk) s"
  shows "(\<exists>es. mold_feed (udp_connector port calls) = es @ unapplied s \<and> up_book s = snd (process_events es bk))
    \<and> ((\<exists>s'. udp_reaches s s' \<and> udp_joined s') \<longleftrightarrow> socket_ends calls \<or> mt_failed (snd (state_view (udp_connector port calls))))
    \<and> (udp_joined s \<longrightarrow> unapplied s = []
        \<and> length (up_end_to_end s) = length (mold_feed (udp_connector port calls))
        \<and> totals (up_connector s) = snd (state_view (udp_connector port calls))
        \<and> (case udp_outcome rnd ns_per_cycle wall_start wall_end s of
              Inr rep \<Rightarrow> ur_exit rep = (if mt_failed (snd (state_view (udp_connector port calls))) then 1 else 0)
            | Inl err \<Rightarrow> err = Undefined_cast))"
proof (intro conjI impI)
  let ?c0 = "udp_connector port calls"
  note inv = udp_reaches_keeps [OF assms udp_start_inv] and feed = udp_reaches_feed [OF assms udp_start_feed]
  from inv obtain es where es: "mold_feed ?c0 = es @ unapplied s" "up_book s = snd (process_events es bk)"
    "length es = length (up_residence s) + (case up_consumer s of Measured _ _ \<Rightarrow> 1 | _ \<Rightarrow> 0)"
    "length (up_end_to_end s) = length (up_residence s)"
    unfolding udp_inv_def by (elim conjE exE) (rule that)
  then show "\<exists>es. mold_feed ?c0 = es @ unapplied s \<and> up_book s = snd (process_events es bk)" by blast
  show "(\<exists>s'. udp_reaches s s' \<and> udp_joined s') \<longleftrightarrow> socket_ends calls \<or> mt_failed (snd (state_view ?c0))"
  proof
    assume "\<exists>s'. udp_reaches s s' \<and> udp_joined s'"
    then obtain s' where s': "udp_reaches s s'" "udp_joined s'" by blast
    from udp_joined_ends [OF udp_reaches_keeps [OF s'(1) inv] udp_reaches_feed [OF s'(1) feed] s'(2)]
    show "socket_ends calls \<or> mt_failed (snd (state_view ?c0))" unfolding udp_source by blast
  next
    assume "socket_ends calls \<or> mt_failed (snd (state_view ?c0))"
    then have "will_end ?c0" unfolding will_end_def udp_source .
    then show "\<exists>s'. udp_reaches s s' \<and> udp_joined s'" by (rule udp_completes [OF inv feed])
  qed
  assume joined: "udp_joined s"
  then show none: "unapplied s = []" using inv by (simp add: udp_joined_def unapplied_def udp_inv_split stops_last_def)
  show "length (up_end_to_end s) = length (mold_feed ?c0)"
    using es(1,3,4) none joined by (simp add: udp_joined_def)
  show over: "totals (up_connector s) = snd (state_view ?c0)"
    using inv joined by (simp add: udp_inv_split stream_over_def udp_joined_def)
  have "md_failed (up_connector s) = mt_failed (totals (up_connector s))" by (simp add: totals_def)
  then have exit: "md_failed (up_connector s) = mt_failed (snd (state_view ?c0))" by (simp only: over)
  show "case udp_outcome rnd ns_per_cycle wall_start wall_end s of
      Inr rep \<Rightarrow> ur_exit rep = (if mt_failed (snd (state_view ?c0)) then 1 else 0) | Inl err \<Rightarrow> err = Undefined_cast"
    using exit by (auto simp: udp_outcome_def cast_u64_def and_then_def split: sum.splits double.splits if_splits)
qed

text \<open>
  C40. What the benchmark measures: when every packet of the sender arrives, the sentinel included, the stream ends and the connector delivers \<^verbatim>\<open>kMessages\<close>
  adds over 20000 order ids, so that the book applies the first 20000 and refuses all others as duplicates; four
  fifths of the processing times are those of a refusal, which the consumer does not look at.
\<close>

theorem udp_bench_measures_refusals:
  assumes "new_book udp_capacity = Inr bk"
  shows "mold_feed (udp_connector port (map received_call sender_datagrams)) = map udp_event [0..<k_messages]
    \<and> socket_ends (map received_call sender_datagrams)
    \<and> \<not> mt_failed (snd (state_view (udp_connector port (map received_call sender_datagrams))))
    \<and> fst (process_events (map udp_event [0..<k_messages]) bk) = replicate 20000 Applied @ replicate (k_messages - 20000) DuplicateOrderId
    \<and> holds_ids 20000 (abs_book (snd (process_events (map udp_event [0..<k_messages]) bk)))"
proof (intro conjI)
  have all: "sorted [0..<k_messages]" "distinct [0..<k_messages]" "set [0..<k_messages] \<subseteq> {..<k_messages}"
    by (rule sorted_upt, rule distinct_upt) (simp add: lessThan_atLeast0)
  show "mold_feed (udp_connector port (map received_call sender_datagrams)) = map udp_event [0..<k_messages]"
    "\<not> mt_failed (snd (state_view (udp_connector port (map received_call sender_datagrams))))"
    unfolding sender_datagrams_def by (rule udp_feed [OF all])+
  show "socket_ends (map received_call sender_datagrams)" unfolding sender_datagrams_def by (rule sentinel_ends)
  have "\<forall>e \<in> set (map udp_event [0..<k_messages]). may_open_level e \<longrightarrow> ev_price e \<in> udp_prices" using udp_event_price by auto
  note run = banded_book_never_exhausts [OF assms udp_prices this]
  note first = udp_accepted [OF order_refl]
  have "spec_events udp_capacity (map udp_event [0..<k_messages]) spec_empty
      = (replicate 20000 Applied @ replicate (k_messages - 20000) DuplicateOrderId, snd (spec_events udp_capacity (map udp_event [0..<20000]) spec_empty))"
    unfolding k_messages_split map_append spec_events_append
    by (subst (1 2) udp_refused [OF conjunct2 [OF first]]) (use first in auto)
  then show "fst (process_events (map udp_event [0..<k_messages]) bk) = replicate 20000 Applied @ replicate (k_messages - 20000) DuplicateOrderId"
    "holds_ids 20000 (abs_book (snd (process_events (map udp_event [0..<k_messages]) bk)))"
    using run first by simp_all
qed

lemma udp_bench_measures_refusals_witness:
  "fst (process_events (map udp_event [0..<k_messages]) (projr (new_book udp_capacity)))
    = replicate 20000 Applied @ replicate (k_messages - 20000) DuplicateOrderId"
proof -
  have "new_book udp_capacity = Inr (projr (new_book udp_capacity))" by (rule new_book_Inr) (simp_all add: udp_capacity_def npos_def)
  from udp_bench_measures_refusals [OF this, of 7] show ?thesis by (elim conjE)
qed

text \<open>A run of three packets of which the second is lost, applied to a new book; without the sentinel it does not end.\<close>

lemma udp_pipeline_loses_nothing_witness:
  "(\<exists>s. udp_reaches (udp_start 7 (map received_call (map (\<lambda>i. mold_add_packet (word_of_nat i + 1) (word_of_nat i mod 20000 + 1)) [0, 2] @ [[]]))
        (projr (new_book udp_capacity))) s
      \<and> udp_joined s \<and> length (up_end_to_end s) = 2 \<and> (\<exists>rep. udp_outcome id 1 0 1000 s = Inr rep \<and> ur_exit rep = 0))
   \<and> (\<nexists>s. udp_reaches (udp_start 7 [] (projr (new_book udp_capacity))) s \<and> udp_joined s)"
proof
  let ?calls = "map received_call (map (\<lambda>i. mold_add_packet (word_of_nat i + 1) (word_of_nat i mod 20000 + 1)) [0, 2] @ [[]])"
    and ?bk = "projr (new_book udp_capacity)"
  note run = udp_pipeline_loses_nothing [of 7 ?calls ?bk _ id 1 0 1000]
  have "udp_reaches (udp_start 7 ?calls ?bk) (udp_start 7 ?calls ?bk)" by (rule rtranclp.rtrancl_refl)
  from run [OF this] sentinel_ends obtain s where s: "udp_reaches (udp_start 7 ?calls ?bk) s" "udp_joined s" by blast
  have feed: "mold_feed (udp_connector 7 ?calls) = map udp_event [0, 2]" "\<not> mt_failed (snd (state_view (udp_connector 7 ?calls)))"
    by (rule udp_feed; simp add: k_messages_def)+
  note ended = run [OF s(1), THEN conjunct2, THEN conjunct2, rule_format, OF s(2)]
  have "md_messages_decoded (up_connector s) = mt_decoded (totals (up_connector s))" by (simp add: totals_def)
  also have "\<dots> = length (mold_feed (udp_connector 7 ?calls))"
    unfolding ended [THEN conjunct2, THEN conjunct2, THEN conjunct1] mold_start(2) view_decoded by (simp add: no_totals_def)
  finally have two: "md_messages_decoded (up_connector s) = 2" unfolding feed(1) by simp
  obtain rep where rep: "udp_outcome id 1 0 1000 s = Inr rep"
    by (simp add: udp_outcome_def two per_second_def seconds_between_def to_double_def divided_def cast_u64_def)
  have "length (up_end_to_end s) = 2 \<and> ur_exit rep = 0" using ended rep feed by simp
  then show "\<exists>s. udp_reaches (udp_start 7 ?calls ?bk) s \<and> udp_joined s \<and> length (up_end_to_end s) = 2
      \<and> (\<exists>rep. udp_outcome id 1 0 1000 s = Inr rep \<and> ur_exit rep = 0)"
    using s rep by blast
  have "udp_reaches (udp_start 7 [] ?bk) (udp_start 7 [] ?bk)" by (rule rtranclp.rtrancl_refl)
  note wait = udp_pipeline_loses_nothing [OF this, of id 1 0 1000]
  have "state_view (udp_connector 7 []) = ([], no_totals)"
    by (simp add: mold_start(2) rest_datagrams_def from_socket_def)
  then show "\<nexists>s. udp_reaches (udp_start 7 [] ?bk) s \<and> udp_joined s"
    using wait by (simp add: socket_ends_def no_totals_def)
qed

end
