(* ===== verification/Spec2Isabelle.thy ===== *)
theory Spec2Isabelle
  imports BookProps MatchProps SoupBinTcp MoldProps MultiSymbol SpscMemory Pipeline Features Backtest QueueBand NetworkSources
    Bounds BenchUdp
begin

text \<open>
  A verification development of the limit order book engine (C++20, namespace \<^verbatim>\<open>market\<close>): the order book with
  its two modes, the feed handlers that produce its events, the queue between two threads, and the tools
  built from them. Every definition is translated from a named piece of \<^verbatim>\<open>src/\<close>; this root theory imports
  all others and says how they fit together.

  \<^bold>\<open>The program.\<close> A connector (\<^verbatim>\<open>DataConnector\<close>) turns bytes into \<^verbatim>\<open>MarketDataEvent\<close>s: CSV rows, ITCH 5.0
  messages in length-prefixed files, SoupBinTCP sessions or MoldUDP64 packets from a \<^verbatim>\<open>DatagramSource\<close>, or
  WebSocket messages. \<^verbatim>\<open>market_replay\<close> hands the events from one thread to another through \<^verbatim>\<open>SpscQueue\<close>; the
  \<^verbatim>\<open>itch_\<close> tools consume them in one thread. Events are applied to an \<^verbatim>\<open>OrderBook\<close> (one, or one per symbol),
  which also matches client orders (\<^verbatim>\<open>submit\<close>). On top of the book sit the top-of-book rows of
  \<^verbatim>\<open>itch_features\<close>, the backtest of \<^verbatim>\<open>itch_backtest\<close> and the queue study of \<^verbatim>\<open>itch_queue\<close>.
\<close>

section \<open>Which theory models what\<close>

text \<open>
  \<^item> \<^verbatim>\<open>Prelude\<close>: machine types, hint collections, generic facts. \<^verbatim>\<open>MarketTypes\<close>: the records and enumerations
    of \<^verbatim>\<open>MarketDataEvent.hpp\<close>, \<^verbatim>\<open>OrderTypes.hpp\<close> and the views of \<^verbatim>\<open>OrderBook.hpp\<close>. \<^verbatim>\<open>BookState\<close>: the private
    members of \<^verbatim>\<open>OrderBook\<close> as the record \<^verbatim>\<open>order_book\<close>.
  \<^item> \<^verbatim>\<open>HashIndex\<close>, \<^verbatim>\<open>Ladder\<close>, \<^verbatim>\<open>Pools\<close>, \<^verbatim>\<open>Levels\<close>, \<^verbatim>\<open>Queues\<close>: the data structures inside \<^verbatim>\<open>OrderBook.cpp\<close>, each with
    its locale (map laws of an index, order of an indexed heap, free list of a pool), its invariant and
    the interpretation on the code's operations. \<^verbatim>\<open>OrderBook\<close>: the constructor and the handlers of
    \<^verbatim>\<open>process_event\<close> over those structures, with the invariant \<^verbatim>\<open>book_ok\<close>.
  \<^item> \<^verbatim>\<open>BookSpec\<close>: the abstract book (an order map, one FIFO list of ids per side and price, a count, a
    counter) and the simulation of every handler, result code included. \<^verbatim>\<open>BookProps\<close>: the properties of
    apply mode and of a book whose level index is used up. \<^verbatim>\<open>Views\<close>: best prices, snapshots, walks, checksum.
  \<^item> \<^verbatim>\<open>Matching\<close>, \<^verbatim>\<open>MatchProps\<close>: \<^verbatim>\<open>submit\<close> with its two loops, the price-time step relation on the abstract
    book, and what follows for fills, FOK, killed remainders and uncrossed books.
  \<^item> \<^verbatim>\<open>ItchDecoder\<close> (\<^verbatim>\<open>ItchDecoder.hpp\<close>), \<^verbatim>\<open>Framer\<close> (the read window of both file connectors), \<^verbatim>\<open>ItchFile\<close>,
    \<^verbatim>\<open>SoupBinTcp\<close>, \<^verbatim>\<open>DatagramSource\<close>, \<^verbatim>\<open>MoldUdp64\<close> (the packet cursor), \<^verbatim>\<open>MoldSpec\<close> and \<^verbatim>\<open>MoldProps\<close> (what a feed of
    datagrams denotes, and what a sender's transmissions come to). \<^verbatim>\<open>NetworkSources\<close>: \<^verbatim>\<open>IoUringDatagramSource\<close>
    over its kernel and \<^verbatim>\<open>WebSocketConnector\<close>. \<^verbatim>\<open>SocketFeed\<close>: the MoldUDP64 connector over a socket, whose call may not return.
  \<^item> \<^verbatim>\<open>Connector\<close>: the interface \<^verbatim>\<open>DataConnector\<close> as a locale (the events a connector still hands over, its
    invariant, its verdict on the stream) with the loops of the tools proved once; interpreted on the ITCH,
    SoupBinTCP, MoldUDP64 and CSV connectors.
  \<^item> \<^verbatim>\<open>Decimal\<close> (\<^verbatim>\<open>std::from_chars\<close>, printing of integers), \<^verbatim>\<open>Csv\<close> (\<^verbatim>\<open>CSVReplayConnector\<close>), \<^verbatim>\<open>Spsc\<close> (\<^verbatim>\<open>SpscQueue\<close>, as
    functions and as interleaved atomic accesses), \<^verbatim>\<open>SpscMemory\<close> (the same accesses under release and acquire
    orderings), \<^verbatim>\<open>Pipeline\<close> (\<^verbatim>\<open>Main.cpp\<close>, both threads over that queue).
  \<^item> \<^verbatim>\<open>MultiSymbol\<close> (\<^verbatim>\<open>MultiSymbolBook\<close>), \<^verbatim>\<open>Replay\<close> (\<^verbatim>\<open>ItchReplay.cpp\<close>), \<^verbatim>\<open>Features\<close> (\<^verbatim>\<open>Features.hpp\<close>,
    \<^verbatim>\<open>ItchFeatures.cpp\<close>), \<^verbatim>\<open>Backtest\<close> (\<^verbatim>\<open>research/Backtest\<close>, \<^verbatim>\<open>ItchBacktest.cpp\<close>), \<^verbatim>\<open>QueueModel\<close>
    (\<^verbatim>\<open>QueueModel.hpp\<close>, \<^verbatim>\<open>ItchQueue.cpp\<close>), \<^verbatim>\<open>QueueExact\<close> (the displayed queue model against the book) and
    \<^verbatim>\<open>QueueBand\<close> (the displayed against the conservative model).
  \<^item> \<^verbatim>\<open>Storage\<close> (the sizes of a book's vectors), \<^verbatim>\<open>Bounds\<close> (the indices kept in them), \<^verbatim>\<open>LevelReuse\<close> (the level index when prices stay in a band).
    \<^verbatim>\<open>Benchmark.cpp\<close>: \<^verbatim>\<open>BenchStats\<close> (statistics, rates, workloads), \<^verbatim>\<open>BenchBook\<close> (hot path, matching), \<^verbatim>\<open>BenchFeeds\<close>
    (CSV and ITCH parsing), \<^verbatim>\<open>BenchThreads\<close> (one run of the two-thread pipeline as a step relation) and
    \<^verbatim>\<open>BenchLoads\<close> (calibration, load levels, \<^verbatim>\<open>main\<close>). \<^verbatim>\<open>BenchUdp\<close>: \<^verbatim>\<open>IoUringPipelineBench.cpp\<close>, its sender and
    its two threads over the MoldUDP64 connector on the io_uring source and the queue, and the calibration of \<^verbatim>\<open>Time.hpp\<close>.
\<close>

section \<open>What the lemmas show\<close>

text \<open>
  \<^item> \<^bold>\<open>The book.\<close> From construction on, \<^verbatim>\<open>process_event\<close> and \<^verbatim>\<open>submit\<close> refine the abstract book. The refinement
    needs an empty slot in the level index, which is what bounds the number of adds, modifies and replaces
    in the properties; \<^verbatim>\<open>BookProps\<close> shows what happens without one, and \<^verbatim>\<open>LevelReuse\<close> that a band of prices whose
    doubled number squared is below the size of the index never uses it up, so that the refinement lasts for any
    number of events. No event or order changes the size of a vector, and until a modification loses its order every index
    kept in the book is within the vector it is for: the unchecked accesses stay in bounds. Reading the book is refinement too: best
    prices are those of the abstract queues, a snapshot lists every order once, the checksum is a
    function of the orders.
  \<^item> \<^bold>\<open>The feeds.\<close> Each connector is equal to a specification that is a plain recursion over the bytes or
    datagrams, whatever the chunks in which they are read; the MoldUDP64 connector delivers each message of
    a sender at most once, in order, and with a complete retransmission source all of them.
  \<^item> \<^bold>\<open>Two threads.\<close> Every interleaving of the queue's accesses is a run of a bounded list queue; with the
    orderings of the code, and stale loads allowed, no access of a slot is a data race, and any
    other choice of the four acquire and release orderings lets one race. \<^verbatim>\<open>market_replay\<close> applies a prefix of the file in order and once, and may lose the rest without an error.
  \<^item> \<^bold>\<open>The tools.\<close> From the arguments and the bytes of a file to the numbers reported and the exit code:
    replay counts, the rows of the feature file, the ledger of the backtest, the counts of the queue study.
    The displayed queue model is exactly what rests in the book of the orders it was posted behind, and
    the conservative one never overtakes it.
  \<^item> \<^bold>\<open>The benchmarks.\<close> For a count below \<open>2\<^sup>57\<close>, as many events as a vector may have, no section throws and \<^verbatim>\<open>main\<close> exits
    with 0, whatever the random generator does and whichever runs of the threads that end are measured, provided that the
    clock moves during them, so that the rates can be printed: the seeded book applies every event of every workload, the deep maker fills every taker,
    the parsers invert the generators. A pipeline run applies its workload in order and ends in the book of the
    hot path, so the load sections print the hot path's checksum; and from every state a run can be completed. The
    calibrated rate is that of the last candidate whose runs were sustained.
    The io_uring benchmark hands over a stop item and so, unlike \<^verbatim>\<open>market_replay\<close>, loses no event; but it ends only if the
    socket ends the stream, and waits for ever when the sentinel is lost. Of the messages
    it sends the book refuses four fifths as duplicates.
  \<^item> Behaviour that differs from a comment or a document, or looks unintended, is stated as the code has it
    and named in the property: the level index that fills up with tombstones, the wrapping FOK sum,
    events lost at the end of a replay, an order that is dropped and stays committed, a benchmark that does not end.
\<close>

section \<open>Conventions, bounds and parameters\<close>

text \<open>
  \<^item> Integers of a fixed width are words of that width (\<^verbatim>\<open>Price\<close> is read through \<^verbatim>\<open>sint\<close>), so sums and counters
    wrap as in the program; signed overflow, undefined in C++, wraps too. Sizes and positions of vectors
    are natural numbers, as are counters of the tools that count events in memory.
  \<^item> Vectors are lists, pool links are indexes with \<^verbatim>\<open>npos\<close> for none; every index read in the code is shown or
    assumed in range by the invariant of its structure. Errors are values of sums, options or the
    program's own result codes.
  \<^item> Loops are structural or have a termination measure (probes by the slots left, heap moves by position,
    reads by the bytes left, packets by the blocks left). The walks along links, the matching loops and the
    loops over connectors are partial functions; that they return is proved, by the invariant. There is
    no fuel.
  \<^item> A \<^verbatim>\<open>double\<close> is the rational it denotes, and \<^verbatim>\<open>rnd\<close>, a parameter, rounds the result of every operation; where
    a property needs more it says so (monotone and exact on integers up to \<open>2 ^ 53\<close>). Infinities and NaN are
    left out of the research tools, whose arguments read by \<^verbatim>\<open>strtod\<close> are taken to be finite; the rates of the benchmarks have them (\<^verbatim>\<open>double\<close> in \<^verbatim>\<open>BenchStats\<close>).
  \<^item> Instruments of the benchmarks are parameters: the readings of the clock, the allocations counted by the replaced
    \<^verbatim>\<open>operator new\<close>, the random generator (seeding and drawing) and, for the load levels, what each call of
    \<^verbatim>\<open>run_pipeline\<close> returns among the results its step relation allows; for the io_uring benchmark, what
    the socket answers to its receives and the readings of the cycle counter. A rate over a time of zero is an infinity (or no
    number), and printing it an undefined cast, which the model keeps apart from every exit code; the properties that need
    finite rates say so. A vector longer than \<^verbatim>\<open>max_size()\<close> throws; running out of memory is left out.
  \<^item> The answers of a socket are a list: one entry per receive that completes, with every result code. A receive with no
    entry left does not return; the connector above it then does not return either, and the thread that called it stays.
  \<^item> Other parameters: the bytes of files and which paths are writable, \<^verbatim>\<open>strtod\<close>, the retransmission source
    (an interface without implementation), the kernel under \<^verbatim>\<open>IoUringDatagramSource\<close>, Boost.Beast under
    \<^verbatim>\<open>WebSocketConnector\<close> and the message parser it is given.
  \<^item> Threads interleave at atomic accesses. In \<^verbatim>\<open>Spsc\<close>, \<^verbatim>\<open>Pipeline\<close>, \<^verbatim>\<open>BenchThreads\<close> and \<^verbatim>\<open>BenchUdp\<close> each access sees the last store. In
    \<^verbatim>\<open>SpscMemory\<close> a load may return any store not older than what the thread has seen, a release store carries
    what its thread has seen and an acquire load takes it over, the view semantics of release and acquire;
    loads do not see stores yet to come.
\<close>

section \<open>Not modelled\<close>

text \<open>
  \<^item> \<^verbatim>\<open>Affinity\<close>: one call of the operating system without effect on a value. The socket calls of the sender in
    \<^verbatim>\<open>IoUringPipelineBench.cpp\<close>. The tests, the build files and the Python analysis.
  \<^item> Text written to standard output and error: the numbers are values of the model, the formatting is not
    (the rows of the feature file are modelled character by character).
  \<^item> Memory: allocation failure, object lifetime, moves and destructors, other than the cleanup of a
    partly constructed \<^verbatim>\<open>IoUringDatagramSource\<close>. Time-outs and TLS belong to the libraries.

  What could follow: \<^verbatim>\<open>market_replay\<close> over the queue of \<^verbatim>\<open>SpscMemory\<close>, and the sender of \<^verbatim>\<open>IoUringPipelineBench.cpp\<close> as a third
  thread over a lossy network.
\<close>

end
